(* ===== verification/Cantare_Prelude.thy ===== *)
theory Cantare_Prelude
  imports Main "HOL-Library.Word"
begin

text \<open>
  Shared vocabulary of the development: machine integers at the width of a 64-bit target,
  computations that may panic, the collections of rewrite rules the component theories add
  to, and the lemmas on modular positions, bit masks and memory regions that more than one
  component uses.
\<close>

unbundle bit_operations_syntax

section \<open>Machine integers and panicking computations\<close>

type_synonym usize = "64 word"
type_synonym u8 = "8 word"

text \<open>A fallible Rust function is a sum: \<open>Inl\<close> is \<open>Err\<close>, \<open>Inr\<close> is \<open>Ok\<close>.\<close>

type_synonym ('e, 'a) rust_result = "'e + 'a"

text \<open>
  A computation that may panic (an explicit \<open>panic!\<close>, an index or slice out of range, a
  failed \<open>copy_from_slice\<close>). The string names the panic's cause.
\<close>

datatype 'a run = Done 'a | Panic string

fun run_bind :: "'a run \<Rightarrow> ('a \<Rightarrow> 'b run) \<Rightarrow> 'b run" where
  "run_bind (Done a) f = f a"
| "run_bind (Panic m) f = Panic m"

fun run_map :: "('a \<Rightarrow> 'b) \<Rightarrow> 'a run \<Rightarrow> 'b run" where
  "run_map f (Done a) = Done (f a)"
| "run_map f (Panic m) = Panic m"

fun panics :: "'a run \<Rightarrow> bool" where
  "panics (Done a) = False"
| "panics (Panic m) = True"

lemma run_bind_eq_Done [simp]:
  "run_bind r f = Done b \<longleftrightarrow> (\<exists>a. r = Done a \<and> f a = Done b)"
  by (cases r) auto

lemma run_map_eq_Done [simp]: "run_map f r = Done b \<longleftrightarrow> (\<exists>a. r = Done a \<and> b = f a)"
  by (cases r) auto

lemma panics_run_map [simp]: "panics (run_map f r) = panics r"
  by (cases r) auto

lemma not_panics_iff: "\<not> panics r \<longleftrightarrow> (\<exists>a. r = Done a)"
  by (cases r) auto

text \<open>Rust's \<open>checked_add\<close>.\<close>

definition checked_add :: "'w::len word \<Rightarrow> 'w word \<Rightarrow> 'w word option" where
  "checked_add a b = (if unat a + unat b < 2 ^ LENGTH('w) then Some (a + b) else None)"

lemma checked_add_one: "checked_add (a :: 'w::len word) 1 = (if a = -1 then None else Some (a + 1))"
proof -
  have "unat (-1 :: 'w word) = 2 ^ LENGTH('w) - 1"
    by (simp add: unsigned_minus_1_eq_mask mask_eq_exp_minus_1)
  moreover have "a = -1 \<longleftrightarrow> unat a = unat (-1 :: 'w word)"
    by (simp add: word_unat_eq_iff)
  moreover have "unat a < 2 ^ LENGTH('w)"
    by (rule unsigned_less)
  ultimately have "unat a + 1 < 2 ^ LENGTH('w) \<longleftrightarrow> a \<noteq> -1"
    by linarith
  then show ?thesis
    by (simp add: checked_add_def)
qed

lemma unat_plus_one:
  assumes "(v :: 'w::len word) \<noteq> -1"
  shows "unat (v + 1) = Suc (unat v)"
proof -
  have "1 + v \<noteq> 0"
    using assms by (metis add.commute add_eq_0_iff2)
  then show ?thesis
    using unatSuc [of v] by (simp add: add.commute)
qed

lemma less_plus_one_word: "(v :: 'w::len word) \<noteq> -1 \<Longrightarrow> v < v + 1"
  by (simp add: word_less_nat_alt unat_plus_one)

lemma less_plus_one_iff: "(v :: 'w::len word) \<noteq> -1 \<Longrightarrow> x < v + 1 \<longleftrightarrow> x \<le> v"
  by (simp add: word_less_nat_alt word_le_nat_alt unat_plus_one less_Suc_eq_le)

lemma max_word_less_iff [simp]: "(x :: 'w::len word) < -1 \<longleftrightarrow> x \<noteq> -1"
  using word_n1_ge [of x] by (auto simp: less_le)

lemma max_word_le_iff [simp]: "(-1 :: 'w::len word) \<le> x \<longleftrightarrow> x = -1"
  by (metis word_n1_ge order_antisym order_refl)

lemma plus_one_le_iff: "(v :: 'w::len word) \<noteq> -1 \<Longrightarrow> v + 1 \<le> x \<longleftrightarrow> v < x"
  by (simp add: word_less_nat_alt word_le_nat_alt unat_plus_one Suc_le_eq)

lemma unat_mask:
  assumes "n \<le> LENGTH('w::len)"
  shows "unat (mask n :: 'w word) = 2 ^ n - 1"
proof -
  have "uint (mask n :: 'w word) = mask n"
    using assms by (simp add: uint_mask_eq min_absorb2)
  then have "int (unat (mask n :: 'w word)) = 2 ^ n - 1"
    by (simp add: mask_eq_exp_minus_1)
  then show ?thesis
    by (metis nat_int nat_minus_as_int of_nat_1 of_nat_numeral of_nat_power)
qed

text \<open>Counting in the low \<open>k\<close> bits of a word: no carry leaves the upper bits alone.\<close>

lemma unat_take_bit: "unat (take_bit k (s :: 'w::len word)) = unat s mod 2 ^ k"
  by (simp only: unsigned_take_bit_eq take_bit_eq_mod [of k "unat s"])

lemma unat_drop_bit: "unat (drop_bit k (s :: 'w::len word)) = unat s div 2 ^ k"
  by (simp only: unat_drop_bit_eq drop_bit_eq_div [of k "unat s"])

lemma low_count_inc:
  fixes s :: "'w::len word"
  assumes "k \<le> LENGTH('w)" "unat (take_bit k s) + 1 < 2 ^ k"
  shows "unat (take_bit k (s + 1)) = unat (take_bit k s) + 1"
    and "k \<le> n \<Longrightarrow> bit (s + 1) n = bit s n"
proof -
  let ?m = "(2::nat) ^ k"
  have low: "unat s mod ?m + 1 < ?m"
    using assms(2) by (simp add: unat_take_bit)
  have "s \<noteq> -1"
  proof
    assume "s = -1"
    then have "take_bit k s = mask k"
      by (simp add: take_bit_minus_one_eq_mask)
    then show False
      using assms by (simp add: unat_mask)
  qed
  then have u: "unat (s + 1) = Suc (unat s)"
    by (rule unat_plus_one)
  have md: "Suc (unat s) mod ?m = Suc (unat s mod ?m)"
    using low by (simp add: mod_Suc)
  then show "unat (take_bit k (s + 1)) = unat (take_bit k s) + 1"
    by (simp only: unat_take_bit u Suc_eq_plus1)
  have "Suc (unat s) mod ?m \<noteq> 0"
    by (simp only: md)
  then have "unat (drop_bit k (s + 1)) = unat (drop_bit k s)"
    by (simp only: unat_drop_bit u div_Suc if_False)
  then have "drop_bit k (s + 1) = drop_bit k s"
    by (simp add: word_unat_eq_iff)
  then have "bit (drop_bit k (s + 1)) (n - k) = bit (drop_bit k s) (n - k)"
    by simp
  then show "k \<le> n \<Longrightarrow> bit (s + 1) n = bit s n"
    by (simp add: bit_drop_bit_eq)
qed

lemma low_count_dec:
  fixes s :: "'w::len word"
  assumes "k \<le> LENGTH('w)" "0 < unat (take_bit k s)"
  shows "unat (take_bit k (s - 1)) = unat (take_bit k s) - 1"
    and "k \<le> n \<Longrightarrow> bit (s - 1) n = bit s n"
proof -
  have "s \<noteq> 0"
    using assms(2) by auto
  then have u: "unat s = Suc (unat (s - 1))"
    by (simp add: unat_minus_one unat_gt_0)
  have "unat (take_bit k (s - 1)) + 1 < 2 ^ k"
  proof (rule ccontr)
    assume "\<not> unat (take_bit k (s - 1)) + 1 < 2 ^ k"
    moreover have "unat (s - 1) mod 2 ^ k < 2 ^ k"
      by simp
    ultimately have "Suc (unat (s - 1) mod 2 ^ k) = 2 ^ k"
      unfolding unat_take_bit by linarith
    then have "unat s mod 2 ^ k = 0"
      by (simp only: u mod_Suc refl if_True)
    then show False
      using assms(2) by (simp only: unat_take_bit less_irrefl)
  qed
  from low_count_inc [OF assms(1) this]
  show "unat (take_bit k (s - 1)) = unat (take_bit k s) - 1"
    and "k \<le> n \<Longrightarrow> bit (s - 1) n = bit s n"
    by simp_all
qed

section \<open>Collections of rewrite rules\<close>

named_theorems ring_defs "definitions of the ring buffer's operations"
named_theorems codec_defs "definitions of the handshake codec"
named_theorems lock_defs "definitions of the lock's state word operations"

end
