(* ===== verification/Atomic_Flags.thy ===== *)
theory Atomic_Flags
  imports Cantare_Prelude
begin

text \<open>
  The compare-exchange loops of \<open>atomex\<close> (\<open>crates/atomex/src/atomic_flags_.rs\<close> and
  \<open>cmpxch_result_.rs\<close>), on which every packed state word of the repository rests. The atomic
  cell is a value; other threads are a schedule that may replace the value before each
  attempt and may let the weak compare-exchange fail spuriously. The loop is shown to return
  under every finite schedule and to act like one atomic read-modify-write of the value the
  cell holds at one instant, \<open>atomic_update\<close>: the components model their operations with the
  latter.
\<close>

section \<open>Results\<close>

datatype 'v cmpxch = Succ 'v | Fail 'v | Unexpected 'v

fun cx_into_inner :: "'v cmpxch \<Rightarrow> 'v" where
  "cx_into_inner (Succ t) = t"
| "cx_into_inner (Fail t) = t"
| "cx_into_inner (Unexpected t) = t"

fun cx_is_succ :: "'v cmpxch \<Rightarrow> bool" where
  "cx_is_succ (Succ _) = True"
| "cx_is_succ _ = False"

fun cx_succ :: "'v cmpxch \<Rightarrow> 'v option" where
  "cx_succ (Succ t) = Some t"
| "cx_succ _ = None"

fun cx_into_result :: "'v cmpxch \<Rightarrow> ('v, 'v) rust_result" where
  "cx_into_result (Succ t) = Inr t"
| "cx_into_result (Fail t) = Inl t"
| "cx_into_result (Unexpected t) = Inl t"

section \<open>One attempt and the loop\<close>

text \<open>
  The weak compare-exchange of the standard library: it stores \<open>new\<close> when the cell holds
  \<open>cur\<close>, and may fail spuriously.
\<close>

definition compare_exchange_weak :: "bool \<Rightarrow> 'v \<Rightarrow> 'v \<Rightarrow> 'v \<Rightarrow> ('v, 'v) rust_result \<times> 'v" where
  "compare_exchange_weak spurious cell cur new =
     (if cell = cur \<and> \<not> spurious then (Inr cell, new) else (Inl cell, cell))"

definition try_once_compare_exchange_weak ::
    "bool \<Rightarrow> 'v \<Rightarrow> 'v \<Rightarrow> ('v \<Rightarrow> bool) \<Rightarrow> ('v \<Rightarrow> 'v) \<Rightarrow> 'v cmpxch \<times> 'v" where
  "try_once_compare_exchange_weak spurious cell cur expect desire =
     (if \<not> expect cur then (Unexpected cur, cell)
      else
        (case compare_exchange_weak spurious cell cur (desire cur) of
           (Inr x, cell') \<Rightarrow> (Succ x, cell')
         | (Inl x, cell') \<Rightarrow> (Fail x, cell')))"

text \<open>
  A schedule entry is what the other threads do to the cell before one attempt, and whether
  that attempt fails spuriously. A finite schedule stands for finitely much contention.
\<close>

type_synonym 'v schedule = "(('v \<Rightarrow> 'v) \<times> bool) list"

fun sched_env :: "'v schedule \<Rightarrow> 'v \<Rightarrow> 'v" where
  "sched_env [] v = v"
| "sched_env ((f, _) # _) v = f v"

fun sched_spurious :: "'v schedule \<Rightarrow> bool" where
  "sched_spurious [] = False"
| "sched_spurious ((_, b) # _) = b"

function spin_loop ::
    "('v \<Rightarrow> bool) \<Rightarrow> ('v \<Rightarrow> 'v) \<Rightarrow> 'v schedule \<Rightarrow> 'v \<Rightarrow> 'v \<Rightarrow> 'v cmpxch \<times> 'v" where
  "spin_loop expect desire sch current cell =
     (case try_once_compare_exchange_weak (sched_spurious sch) (sched_env sch cell) current
             expect desire of
        (Fail x, cell') \<Rightarrow> spin_loop expect desire (tl sch) x cell'
      | (r, cell') \<Rightarrow> (r, cell'))"
  by pat_completeness auto
termination
proof (relation "measures [\<lambda>(_, _, sch, _, _). length sch,
    \<lambda>(_, _, _, current, cell). if current = cell then 0 else 1]", goal_cases)
  case 1
  show ?case by simp
next
  case (2 expect desire sch current cell)
  then show ?case
    by (cases sch)
      (auto simp: try_once_compare_exchange_weak_def compare_exchange_weak_def split: if_splits)
qed

declare spin_loop.simps [simp del]

definition try_spin_compare_exchange_weak ::
    "'v schedule \<Rightarrow> 'v \<Rightarrow> ('v \<Rightarrow> bool) \<Rightarrow> ('v \<Rightarrow> 'v) \<Rightarrow> 'v cmpxch \<times> 'v" where
  "try_spin_compare_exchange_weak sch cell expect desire = spin_loop expect desire sch cell cell"

text \<open>The abstract operation: one atomic conditional update.\<close>

definition atomic_update :: "('v \<Rightarrow> bool) \<Rightarrow> ('v \<Rightarrow> 'v) \<Rightarrow> 'v \<Rightarrow> ('v, 'v) rust_result \<times> 'v" where
  "atomic_update expect desire cell =
     (if expect cell then (Inr cell, desire cell) else (Inl cell, cell))"

text \<open>The cell after the first \<open>k\<close> entries of a schedule, when only the environment moves.\<close>

definition env_after :: "nat \<Rightarrow> 'v schedule \<Rightarrow> 'v \<Rightarrow> 'v" where
  "env_after k sch cell = fold fst (take k sch) cell"

lemma env_after_0 [simp]: "env_after 0 sch cell = cell"
  by (simp add: env_after_def)

lemma env_after_Nil [simp]: "env_after k [] cell = cell"
  by (simp add: env_after_def)

lemma env_after_Suc [simp]:
  "env_after (Suc k) sch cell = env_after k (tl sch) (sched_env sch cell)"
  by (cases sch) (auto simp: env_after_def)

section \<open>Linearisation\<close>

text \<open>What one run of the loop from a possibly stale \<open>current\<close> may report.\<close>

definition spin_outcome ::
    "('v \<Rightarrow> bool) \<Rightarrow> ('v \<Rightarrow> 'v) \<Rightarrow> 'v schedule \<Rightarrow> 'v \<Rightarrow> 'v \<Rightarrow> 'v cmpxch \<times> 'v \<Rightarrow> bool" where
  "spin_outcome expect desire sch current cell res =
     (\<exists>k. (let v = env_after k sch cell in expect v \<and> res = (Succ v, desire v))
        \<or> (\<exists>v. (v = current \<or> (\<exists>j\<le>k. v = env_after j sch cell))
             \<and> \<not> expect v \<and> res = (Unexpected v, env_after k sch cell)))"

lemma spin_outcome_step:
  assumes "spin_outcome expect desire (tl sch) (sched_env sch cell) (sched_env sch cell) res"
  shows "spin_outcome expect desire sch current cell res"
proof -
  let ?c = "sched_env sch cell"
  obtain k where
    "(expect (env_after k (tl sch) ?c)
        \<and> res = (Succ (env_after k (tl sch) ?c), desire (env_after k (tl sch) ?c)))
     \<or> (\<exists>v. (v = ?c \<or> (\<exists>j\<le>k. v = env_after j (tl sch) ?c))
          \<and> \<not> expect v \<and> res = (Unexpected v, env_after k (tl sch) ?c))"
    using assms by (auto simp: spin_outcome_def Let_def)
  then consider (succ) "expect (env_after (Suc k) sch cell)"
      "res = (Succ (env_after (Suc k) sch cell), desire (env_after (Suc k) sch cell))"
    | (unexp) j where "j \<le> Suc k" "\<not> expect (env_after j sch cell)"
      "res = (Unexpected (env_after j sch cell), env_after (Suc k) sch cell)"
    by (metis Suc_le_mono env_after_0 env_after_Suc le0)
  then show ?thesis
  proof cases
    case succ
    then show ?thesis
      unfolding spin_outcome_def Let_def by blast
  next
    case unexp
    then show ?thesis
      unfolding spin_outcome_def Let_def by blast
  qed
qed

lemma spin_loop_outcome:
  "spin_outcome expect desire sch current cell (spin_loop expect desire sch current cell)"
proof (induction expect desire sch current cell rule: spin_loop.induct)
  case (1 expect desire sch current cell)
  let ?c = "sched_env sch cell"
  have c1: "?c = env_after (Suc 0) sch cell"
    by simp
  show ?case
  proof (cases "expect current")
    case False
    then show ?thesis
      unfolding spin_outcome_def
      by (intro exI [of _ "Suc 0"] disjI2 exI [of _ current])
        (simp add: spin_loop.simps [of _ _ sch] try_once_compare_exchange_weak_def)
  next
    case exp: True
    show ?thesis
    proof (cases "?c = current \<and> \<not> sched_spurious sch")
      case True
      with exp show ?thesis
        unfolding spin_outcome_def
        by (intro exI [of _ "Suc 0"] disjI1)
          (simp add: spin_loop.simps [of _ _ sch] try_once_compare_exchange_weak_def
            compare_exchange_weak_def)
    next
      case False
      with exp have once: "try_once_compare_exchange_weak (sched_spurious sch) ?c current
          expect desire = (Fail ?c, ?c)"
        by (auto simp: try_once_compare_exchange_weak_def compare_exchange_weak_def)
      then have "spin_outcome expect desire (tl sch) ?c ?c (spin_loop expect desire (tl sch) ?c ?c)"
        using "1.IH" by simp
      then show ?thesis
        by (simp add: spin_loop.simps [of _ _ sch current cell] once spin_outcome_step)
    qed
  qed
qed

lemma spin_loop_quiet:
  "spin_loop expect desire [] cell cell
     = (if expect cell then (Succ cell, desire cell) else (Unexpected cell, cell))"
  by (simp add: spin_loop.simps try_once_compare_exchange_weak_def compare_exchange_weak_def)

text \<open>
  C9: The spinning compare-exchange returns under every finite amount of contention and is
  one atomic conditional update: either it replaced the value \<open>v\<close> the cell held after some
  number of the other threads' steps by \<open>desire v\<close>, with \<open>expect v\<close> true and nothing in
  between, or it changed nothing and reports a value the cell held during the call for which
  \<open>expect\<close> is false.
\<close>

theorem spin_linearizable:
  "\<exists>k. (let v = env_after k sch cell
        in expect v \<and> try_spin_compare_exchange_weak sch cell expect desire = (Succ v, desire v))
     \<or> (\<exists>j. j \<le> k \<and> \<not> expect (env_after j sch cell) \<and>
          try_spin_compare_exchange_weak sch cell expect desire
            = (Unexpected (env_after j sch cell), env_after k sch cell))"
proof -
  have "spin_outcome expect desire sch cell cell
      (try_spin_compare_exchange_weak sch cell expect desire)"
    by (simp add: try_spin_compare_exchange_weak_def spin_loop_outcome)
  then show ?thesis
    unfolding spin_outcome_def by (metis env_after_0 le0)
qed

lemma spin_quiet_is_atomic_update:
  "(case try_spin_compare_exchange_weak [] cell expect desire of
      (r, c) \<Rightarrow> (cx_into_result r, c)) = atomic_update expect desire cell"
  by (simp add: try_spin_compare_exchange_weak_def spin_loop_quiet atomic_update_def)

lemma atomic_update_True [simp]: "atomic_update (\<lambda>_. True) f s = (Inr s, f s)"
  by (simp add: atomic_update_def)

end
