(* ===== verification/Rw_Lock.thy ===== *)
theory Rw_Lock
  imports Atomic_Flags
begin

text \<open>
  The preemptive spinning reader-writer lock of \<open>atomic_sync\<close>
  (\<open>crates/atomic_sync/src/rwlock/preemptive\<close>). The state word packs a writer bit, a queued
  bit, an upgrade bit and a reader count; every operation of \<open>RwLockState\<close> is one conditional
  atomic update of it (\<open>Atomic_Flags\<close>), and the guards' methods and destructors call those.
  The word operations refine operations on the four decoded fields, and on those rests a step
  system of the guards a program can hold, with mutual exclusion as its invariant.
\<close>

section \<open>The state word\<close>

definition K_WRITER_ACTIVE :: "'w::len word" where
  [lock_defs]: "K_WRITER_ACTIVE = push_bit (LENGTH('w) - 1) 1"

definition K_WRITER_QUEUED :: "'w::len word" where
  [lock_defs]: "K_WRITER_QUEUED = push_bit (LENGTH('w) - 2) 1"

definition K_UPGRADE_ACTIVE :: "'w::len word" where
  [lock_defs]: "K_UPGRADE_ACTIVE = push_bit (LENGTH('w) - 3) 1"

definition K_MAX_READER_COUNT :: "'w::len word" where
  [lock_defs]: "K_MAX_READER_COUNT = drop_bit 3 (-1)"

definition expect_writer_active :: "'w::len word \<Rightarrow> bool" where
  [lock_defs]: "expect_writer_active s = (s AND K_WRITER_ACTIVE = K_WRITER_ACTIVE)"

definition desire_writer_active :: "'w::len word \<Rightarrow> 'w word" where
  [lock_defs]: "desire_writer_active s = s OR K_WRITER_ACTIVE"

definition desire_writer_inactive :: "'w::len word \<Rightarrow> 'w word" where
  [lock_defs]: "desire_writer_inactive s = s AND NOT K_WRITER_ACTIVE"

definition expect_writer_queued :: "'w::len word \<Rightarrow> bool" where
  [lock_defs]: "expect_writer_queued s = (s AND K_WRITER_QUEUED = K_WRITER_QUEUED)"

definition desire_writer_queued :: "'w::len word \<Rightarrow> 'w word" where
  [lock_defs]: "desire_writer_queued s = s OR K_WRITER_QUEUED"

definition desire_writer_not_queued :: "'w::len word \<Rightarrow> 'w word" where
  [lock_defs]: "desire_writer_not_queued s = s AND NOT K_WRITER_QUEUED"

definition expect_upgrade_active :: "'w::len word \<Rightarrow> bool" where
  [lock_defs]: "expect_upgrade_active s = (s AND K_UPGRADE_ACTIVE = K_UPGRADE_ACTIVE)"

definition desire_upgrade_active :: "'w::len word \<Rightarrow> 'w word" where
  [lock_defs]: "desire_upgrade_active s = s OR K_UPGRADE_ACTIVE"

definition desire_upgrade_inactive :: "'w::len word \<Rightarrow> 'w word" where
  [lock_defs]: "desire_upgrade_inactive s = s AND NOT K_UPGRADE_ACTIVE"

definition get_reader_count :: "'w::len word \<Rightarrow> 'w word" where
  [lock_defs]: "get_reader_count s = s AND K_MAX_READER_COUNT"

definition expect_reader_lt_max :: "'w::len word \<Rightarrow> bool" where
  "expect_reader_lt_max s = (get_reader_count s < K_MAX_READER_COUNT)"

definition expect_reader_gt_min :: "'w::len word \<Rightarrow> bool" where
  "expect_reader_gt_min s = (get_reader_count s > 0)"

definition desire_inc_reader :: "'w::len word \<Rightarrow> 'w word" where
  "desire_inc_reader s = s + 1"

definition desire_dec_reader :: "'w::len word \<Rightarrow> 'w word" where
  "desire_dec_reader s = s - 1"

section \<open>Operations of \<open>RwLockState\<close>\<close>

text \<open>
  Each returns whether its update succeeded and the new word. \<open>rw_try_write\<close> makes two
  updates: the acquisition and, when that failed, setting the queued bit. Here nothing happens in
  between; the guards below and \<open>Rw_Wait\<close> take the two apart.
\<close>

definition rw_update :: "('w::len word \<Rightarrow> bool) \<Rightarrow> ('w word \<Rightarrow> 'w word) \<Rightarrow> 'w word \<Rightarrow> bool \<times> 'w word" where
  "rw_update expect desire s =
     (case atomic_update expect desire s of (Inr _, s') \<Rightarrow> (True, s') | (Inl _, s') \<Rightarrow> (False, s'))"

definition on_writer_guard_drop :: "'w::len word \<Rightarrow> bool \<times> 'w word" where
  "on_writer_guard_drop =
     rw_update expect_writer_active (\<lambda>s. desire_writer_not_queued (desire_writer_inactive s))"

definition decrease_reader_count :: "'w::len word \<Rightarrow> bool \<times> 'w word" where
  "decrease_reader_count = rw_update expect_reader_gt_min desire_dec_reader"

definition rw_try_read :: "'w::len word \<Rightarrow> bool \<times> 'w word" where
  "rw_try_read =
     rw_update (\<lambda>s. expect_reader_lt_max s \<and> \<not> expect_writer_queued s \<and> \<not> expect_writer_active s)
       desire_inc_reader"

definition try_write_acquire :: "'w::len word \<Rightarrow> bool \<times> 'w word" where
  "try_write_acquire =
     rw_update (\<lambda>s. get_reader_count s = 0 \<and> \<not> expect_writer_active s) desire_writer_active"

definition try_write_queue :: "'w::len word \<Rightarrow> bool \<times> 'w word" where
  "try_write_queue = rw_update (\<lambda>s. \<not> expect_writer_queued s) desire_writer_queued"

definition rw_try_write :: "'w::len word \<Rightarrow> bool \<times> 'w word" where
  "rw_try_write s =
     (let r = try_write_acquire s in if fst r then r else (False, snd (try_write_queue (snd r))))"

definition rw_try_upgradable_read :: "'w::len word \<Rightarrow> bool \<times> 'w word" where
  "rw_try_upgradable_read =
     rw_update (\<lambda>s. \<not> expect_writer_queued s \<and> \<not> expect_writer_active s \<and> \<not> expect_upgrade_active s)
       (\<lambda>s. desire_inc_reader (desire_upgrade_active s))"

definition on_upgradable_read_drop :: "'w::len word \<Rightarrow> bool \<times> 'w word" where
  "on_upgradable_read_drop =
     rw_update expect_upgrade_active (\<lambda>s. desire_dec_reader (desire_upgrade_inactive s))"

definition try_downgrade_write_to_read :: "'w::len word \<Rightarrow> bool \<times> 'w word" where
  "try_downgrade_write_to_read =
     rw_update expect_writer_active (\<lambda>s. desire_inc_reader (desire_writer_inactive s))"

definition try_downgrade_write_to_upgradable :: "'w::len word \<Rightarrow> bool \<times> 'w word" where
  "try_downgrade_write_to_upgradable =
     rw_update expect_writer_active
       (\<lambda>s. desire_inc_reader (desire_upgrade_active (desire_writer_inactive s)))"

definition try_downgrade_upgradable_to_read :: "'w::len word \<Rightarrow> bool \<times> 'w word" where
  "try_downgrade_upgradable_to_read =
     rw_update (\<lambda>s. expect_upgrade_active s \<and> \<not> expect_writer_active s \<and> get_reader_count s > 0)
       desire_upgrade_inactive"

definition try_upgrade_upgradable_to_write :: "'w::len word \<Rightarrow> bool \<times> 'w word" where
  "try_upgrade_upgradable_to_write =
     rw_update (\<lambda>s. expect_upgrade_active s \<and> get_reader_count s = 1) desire_writer_active"

section \<open>The decoded fields\<close>

record rw_view =
  vw :: bool
  vq :: bool
  vu :: bool
  vr :: nat

definition rw_view :: "'w::len word \<Rightarrow> rw_view" where
  "rw_view s = \<lparr>vw = bit s (LENGTH('w) - 1), vq = bit s (LENGTH('w) - 2),
     vu = bit s (LENGTH('w) - 3), vr = unat (take_bit (LENGTH('w) - 3) s)\<rparr>"

lemma rw_view_sel [simp]:
  fixes s :: "'w::len word"
  shows "vw (rw_view s) = bit s (LENGTH('w) - 1)" "vq (rw_view s) = bit s (LENGTH('w) - 2)"
    "vu (rw_view s) = bit s (LENGTH('w) - 3)" "vr (rw_view s) = unat (take_bit (LENGTH('w) - 3) s)"
  by (simp_all add: rw_view_def)

lemma and_single_bit:
  assumes "n < LENGTH('w::len)"
  shows "((s :: 'w word) AND 2 ^ n = 2 ^ n) = bit s n"
proof
  assume "s AND 2 ^ n = 2 ^ n"
  moreover have "bit (2 ^ n :: 'w word) n"
    using assms by (simp add: bit_exp_iff)
  ultimately have "bit (s AND 2 ^ n) n"
    by simp
  then show "bit s n"
    by (simp add: bit_simps)
next
  assume "bit s n"
  then show "s AND 2 ^ n = 2 ^ n"
    by (intro bit_word_eqI) (auto simp: bit_simps)
qed

lemma max_reader_mask:
  "3 < LENGTH('w::len) \<Longrightarrow> (K_MAX_READER_COUNT :: 'w word) = mask (LENGTH('w) - 3)"
  by (auto simp: K_MAX_READER_COUNT_def bit_eq_iff bit_simps)

lemma expect_bits:
  fixes s :: "'w::len word"
  assumes "3 < LENGTH('w)"
  shows "expect_writer_active s = vw (rw_view s)"
    "expect_writer_queued s = vq (rw_view s)"
    "expect_upgrade_active s = vu (rw_view s)"
  using assms by (simp_all add: lock_defs and_single_bit)

lemma reader_count:
  fixes s :: "'w::len word"
  assumes "3 < LENGTH('w)"
  shows "unat (get_reader_count s) = vr (rw_view s)"
    "get_reader_count s = 0 \<longleftrightarrow> vr (rw_view s) = 0"
    "get_reader_count s = 1 \<longleftrightarrow> vr (rw_view s) = 1"
    "get_reader_count s > 0 \<longleftrightarrow> vr (rw_view s) > 0"
    "get_reader_count s < K_MAX_READER_COUNT \<longleftrightarrow> vr (rw_view s) < 2 ^ (LENGTH('w) - 3) - 1"
proof -
  have eq: "get_reader_count s = take_bit (LENGTH('w) - 3) s"
    using assms by (simp add: get_reader_count_def max_reader_mask take_bit_eq_mask)
  show 1: "unat (get_reader_count s) = vr (rw_view s)"
    by (simp add: eq)
  have "unat (K_MAX_READER_COUNT :: 'w word) = 2 ^ (LENGTH('w) - 3) - 1"
    using assms by (simp add: max_reader_mask unat_mask)
  then show "get_reader_count s < K_MAX_READER_COUNT
      \<longleftrightarrow> vr (rw_view s) < 2 ^ (LENGTH('w) - 3) - 1"
    by (simp only: 1 [symmetric] word_less_nat_alt)
  show "get_reader_count s = 0 \<longleftrightarrow> vr (rw_view s) = 0"
    by (simp only: 1 [symmetric] unat_eq_0)
  show "get_reader_count s = 1 \<longleftrightarrow> vr (rw_view s) = 1"
    by (simp only: 1 [symmetric] word_unat_eq_iff unat_1)
  show "get_reader_count s > 0 \<longleftrightarrow> vr (rw_view s) > 0"
    by (simp only: 1 [symmetric] word_less_nat_alt unat_0)
qed

lemma view_set_clear:
  fixes s :: "'w::len word"
  assumes "3 < LENGTH('w)"
  shows "rw_view (desire_writer_active s) = (rw_view s)\<lparr>vw := True\<rparr>"
    "rw_view (desire_writer_inactive s) = (rw_view s)\<lparr>vw := False\<rparr>"
    "rw_view (desire_writer_queued s) = (rw_view s)\<lparr>vq := True\<rparr>"
    "rw_view (desire_writer_not_queued s) = (rw_view s)\<lparr>vq := False\<rparr>"
    "rw_view (desire_upgrade_active s) = (rw_view s)\<lparr>vu := True\<rparr>"
    "rw_view (desire_upgrade_inactive s) = (rw_view s)\<lparr>vu := False\<rparr>"
proof -
  have low: "take_bit (LENGTH('w) - 3) (s OR 2 ^ n) = take_bit (LENGTH('w) - 3) s"
    "take_bit (LENGTH('w) - 3) (s AND NOT (2 ^ n)) = take_bit (LENGTH('w) - 3) s"
    if "LENGTH('w) - 3 \<le> n" for n
    using that by (auto intro!: bit_word_eqI simp: bit_simps)
  show "rw_view (desire_writer_active s) = (rw_view s)\<lparr>vw := True\<rparr>"
    "rw_view (desire_writer_inactive s) = (rw_view s)\<lparr>vw := False\<rparr>"
    "rw_view (desire_writer_queued s) = (rw_view s)\<lparr>vq := True\<rparr>"
    "rw_view (desire_writer_not_queued s) = (rw_view s)\<lparr>vq := False\<rparr>"
    "rw_view (desire_upgrade_active s) = (rw_view s)\<lparr>vu := True\<rparr>"
    "rw_view (desire_upgrade_inactive s) = (rw_view s)\<lparr>vu := False\<rparr>"
    using assms
    by (simp_all add: rw_view_def lock_defs low bit_simps del: take_bit_or take_bit_and) arith+
qed

lemma view_inc_reader:
  fixes s :: "'w::len word"
  assumes "3 < LENGTH('w)" "vr (rw_view s) < 2 ^ (LENGTH('w) - 3) - 1"
  shows "rw_view (desire_inc_reader s) = (rw_view s)\<lparr>vr := vr (rw_view s) + 1\<rparr>"
  using assms low_count_inc [of "LENGTH('w) - 3" s]
  by (simp add: rw_view_def desire_inc_reader_def)

lemma view_dec_reader:
  fixes s :: "'w::len word"
  assumes "3 < LENGTH('w)" "0 < vr (rw_view s)"
  shows "rw_view (desire_dec_reader s) = (rw_view s)\<lparr>vr := vr (rw_view s) - 1\<rparr>"
  using assms low_count_dec [of "LENGTH('w) - 3" s]
  by (simp add: rw_view_def desire_dec_reader_def)

section \<open>Refinement to the decoded fields\<close>

datatype rw_op =
    TryRead | ReaderDrop
  | TryWrite | WriterDrop
  | TryUpgradable | UpgradableDrop
  | WriteToRead | WriteToUpgradable | UpgradableToRead | UpgradeToWrite

fun rw_exec :: "rw_op \<Rightarrow> 'w::len word \<Rightarrow> bool \<times> 'w word" where
  "rw_exec TryRead = rw_try_read"
| "rw_exec ReaderDrop = decrease_reader_count"
| "rw_exec TryWrite = rw_try_write"
| "rw_exec WriterDrop = on_writer_guard_drop"
| "rw_exec TryUpgradable = rw_try_upgradable_read"
| "rw_exec UpgradableDrop = on_upgradable_read_drop"
| "rw_exec WriteToRead = try_downgrade_write_to_read"
| "rw_exec WriteToUpgradable = try_downgrade_write_to_upgradable"
| "rw_exec UpgradableToRead = try_downgrade_upgradable_to_read"
| "rw_exec UpgradeToWrite = try_upgrade_upgradable_to_write"

text \<open>The abstract lock: the same operations over the decoded fields and a reader limit.\<close>

fun av_exec :: "nat \<Rightarrow> rw_op \<Rightarrow> rw_view \<Rightarrow> bool \<times> rw_view" where
  "av_exec m TryRead v =
     (if vr v < m \<and> \<not> vq v \<and> \<not> vw v then (True, v\<lparr>vr := vr v + 1\<rparr>) else (False, v))"
| "av_exec m ReaderDrop v = (if 0 < vr v then (True, v\<lparr>vr := vr v - 1\<rparr>) else (False, v))"
| "av_exec m TryWrite v =
     (if vr v = 0 \<and> \<not> vw v then (True, v\<lparr>vw := True\<rparr>) else (False, v\<lparr>vq := True\<rparr>))"
| "av_exec m WriterDrop v = (if vw v then (True, v\<lparr>vw := False, vq := False\<rparr>) else (False, v))"
| "av_exec m TryUpgradable v =
     (if \<not> vq v \<and> \<not> vw v \<and> \<not> vu v then (True, v\<lparr>vu := True, vr := vr v + 1\<rparr>) else (False, v))"
| "av_exec m UpgradableDrop v =
     (if vu v then (True, v\<lparr>vu := False, vr := vr v - 1\<rparr>) else (False, v))"
| "av_exec m WriteToRead v =
     (if vw v then (True, v\<lparr>vw := False, vr := vr v + 1\<rparr>) else (False, v))"
| "av_exec m WriteToUpgradable v =
     (if vw v then (True, v\<lparr>vw := False, vu := True, vr := vr v + 1\<rparr>) else (False, v))"
| "av_exec m UpgradableToRead v =
     (if vu v \<and> \<not> vw v \<and> 0 < vr v then (True, v\<lparr>vu := False\<rparr>) else (False, v))"
| "av_exec m UpgradeToWrite v =
     (if vu v \<and> vr v = 1 then (True, v\<lparr>vw := True\<rparr>) else (False, v))"

text \<open>
  The three operations whose code does not check the count they add to or subtract from must
  find room for it.
\<close>

fun av_room :: "nat \<Rightarrow> rw_op \<Rightarrow> rw_view \<Rightarrow> bool" where
  "av_room m TryUpgradable v = (vq v \<or> vw v \<or> vu v \<or> vr v < m)"
| "av_room m WriteToRead v = (vr v < m)"
| "av_room m WriteToUpgradable v = (vr v < m)"
| "av_room m UpgradableDrop v = (0 < vr v)"
| "av_room m _ v = True"

abbreviation max_readers :: "'w::len word \<Rightarrow> nat" where
  "max_readers (s :: 'w word) \<equiv> 2 ^ (LENGTH('w) - 3) - 1"

lemma rw_update_eq: "rw_update e d s = (if e s then (True, d s) else (False, s))"
  by (simp add: rw_update_def atomic_update_def)

lemma rw_view_queued [simp]:
  "3 < LENGTH('w::len) \<Longrightarrow> vq (rw_view s) \<Longrightarrow> (rw_view (s :: 'w word))\<lparr>vq := True\<rparr> = rw_view s"
  by (simp add: rw_view_def)

lemmas rw_op_defs =
  rw_try_read_def decrease_reader_count_def rw_try_write_def try_write_acquire_def try_write_queue_def on_writer_guard_drop_def
  rw_try_upgradable_read_def on_upgradable_read_drop_def try_downgrade_write_to_read_def
  try_downgrade_write_to_upgradable_def try_downgrade_upgradable_to_read_def
  try_upgrade_upgradable_to_write_def

lemma rw_refines:
  fixes s :: "'w::len word"
  assumes "3 < LENGTH('w)" "av_room (max_readers s) op (rw_view s)"
  shows "map_prod id rw_view (rw_exec op s) = av_exec (max_readers s) op (rw_view s)"
  using assms(2)
  by (cases op)
    (auto simp: rw_op_defs rw_update_eq expect_bits [OF assms(1)] reader_count [OF assms(1)]
      expect_reader_lt_max_def expect_reader_gt_min_def view_set_clear [OF assms(1)]
      view_inc_reader [OF assms(1)] view_dec_reader [OF assms(1)] assms(1) Let_def
      simp del: rw_view_sel)

section \<open>Guards\<close>

text \<open>
  The guards a program holds on one lock: plain readers, upgradable guards, writer guards of their
  own, and writer guards borrowed from an upgradable guard (\<open>Upgrade::try_upgrade\<close>). While it is
  borrowed an upgradable guard can neither be dropped nor used, which is what the borrow checker
  enforces and the premises \<open>borrows g < upgs g\<close> below say. The consuming
  \<open>UpgradableReaderGuard::try_upgrade\<close> upgrades in place and then drops the old guard
  (\<open>upgrade_consumed\<close>). A downgrade forgets the old guard first; when its update fails the
  \<open>unreachable!\<close> is hit and there is no new guard. The two updates of \<open>try_write\<close> are separate steps,
  and the second may come at any time.
\<close>

record 'c rw_sys =
  cell :: 'c
  readers :: nat
  upgs :: nat
  owners :: nat
  borrows :: nat

definition new_owned :: "('w::len word) rw_sys" where
  "new_owned = \<lparr>cell = 0, readers = 0, upgs = 0, owners = 0, borrows = 0\<rparr>"

definition writers :: "'c rw_sys \<Rightarrow> nat" where
  "writers g = owners g + borrows g"

text \<open>A writer guard of either kind is given up.\<close>

definition writer_gone :: "'c rw_sys \<Rightarrow> 'c rw_sys \<Rightarrow> bool" where
  "writer_gone g h =
     (0 < owners g \<and> h = g\<lparr>owners := owners g - 1\<rparr> \<or> 0 < borrows g \<and> h = g\<lparr>borrows := borrows g - 1\<rparr>)"

lemma writer_goneE:
  assumes "writer_gone g h"
  obtains "0 < owners g" "h = g\<lparr>owners := owners g - 1\<rparr>" | "0 < borrows g" "h = g\<lparr>borrows := borrows g - 1\<rparr>"
  using assms by (auto simp: writer_gone_def)

inductive guard_step :: "('w::len word) rw_sys \<Rightarrow> 'w word rw_sys \<Rightarrow> bool" where
  read_ok: "rw_exec TryRead (cell g) = (True, s) \<Longrightarrow>
     guard_step g (g\<lparr>cell := s, readers := readers g + 1\<rparr>)"
| read_fail: "rw_exec TryRead (cell g) = (False, s) \<Longrightarrow> guard_step g (g\<lparr>cell := s\<rparr>)"
| reader_drop: "0 < readers g \<Longrightarrow> rw_exec ReaderDrop (cell g) = (b, s) \<Longrightarrow>
     guard_step g (g\<lparr>cell := s, readers := readers g - 1\<rparr>)"
| write_ok: "try_write_acquire (cell g) = (True, s) \<Longrightarrow>
     guard_step g (g\<lparr>cell := s, owners := owners g + 1\<rparr>)"
| write_fail: "try_write_acquire (cell g) = (False, s) \<Longrightarrow> guard_step g (g\<lparr>cell := s\<rparr>)"
| write_queue: "try_write_queue (cell g) = (b, s) \<Longrightarrow> guard_step g (g\<lparr>cell := s\<rparr>)"
| writer_drop: "writer_gone g h \<Longrightarrow> rw_exec WriterDrop (cell g) = (b, s) \<Longrightarrow>
     guard_step g (h\<lparr>cell := s\<rparr>)"
| upgradable_ok: "rw_exec TryUpgradable (cell g) = (True, s) \<Longrightarrow>
     guard_step g (g\<lparr>cell := s, upgs := upgs g + 1\<rparr>)"
| upgradable_fail: "rw_exec TryUpgradable (cell g) = (False, s) \<Longrightarrow> guard_step g (g\<lparr>cell := s\<rparr>)"
| upgradable_drop: "borrows g < upgs g \<Longrightarrow> rw_exec UpgradableDrop (cell g) = (b, s) \<Longrightarrow>
     guard_step g (g\<lparr>cell := s, upgs := upgs g - 1\<rparr>)"
| write_to_read: "writer_gone g h \<Longrightarrow> rw_exec WriteToRead (cell g) = (b, s) \<Longrightarrow>
     guard_step g (h\<lparr>cell := s, readers := readers g + of_bool b\<rparr>)"
| write_to_upgradable: "writer_gone g h \<Longrightarrow> rw_exec WriteToUpgradable (cell g) = (b, s) \<Longrightarrow>
     guard_step g (h\<lparr>cell := s, upgs := upgs g + of_bool b\<rparr>)"
| upgradable_to_read: "borrows g < upgs g \<Longrightarrow> rw_exec UpgradableToRead (cell g) = (b, s) \<Longrightarrow>
     guard_step g (g\<lparr>cell := s, upgs := upgs g - 1, readers := readers g + of_bool b\<rparr>)"
| upgrade_ok: "borrows g < upgs g \<Longrightarrow> rw_exec UpgradeToWrite (cell g) = (True, s) \<Longrightarrow>
     guard_step g (g\<lparr>cell := s, borrows := borrows g + 1\<rparr>)"
| upgrade_fail: "borrows g < upgs g \<Longrightarrow> rw_exec UpgradeToWrite (cell g) = (False, s) \<Longrightarrow>
     guard_step g (g\<lparr>cell := s\<rparr>)"
| upgrade_consumed: "0 < borrows g \<Longrightarrow> borrows g \<le> upgs g \<Longrightarrow> rw_exec UpgradableDrop (cell g) = (b, s) \<Longrightarrow>
     guard_step g (g\<lparr>cell := s, upgs := upgs g - 1, borrows := borrows g - 1, owners := owners g + 1\<rparr>)"

text \<open>
  Two things the code does not check are left to its callers. \<open>roomy\<close>: no upgradable guard is taken
  while the reader count is at its limit. \<open>flat\<close>: besides, no upgradable guard is made while another one
  is alive, as downgrading a borrowed writer guard to an upgradable one does.
\<close>

definition roomy :: "('w::len word) rw_sys \<Rightarrow> 'w word rw_sys \<Rightarrow> bool" where
  "roomy g h = (upgs g < upgs h \<longrightarrow> expect_reader_lt_max (cell g))"

definition flat :: "('w::len word) rw_sys \<Rightarrow> 'w word rw_sys \<Rightarrow> bool" where
  "flat g h = (roomy g h \<and> upgs h \<le> 1)"

inductive guard_reachable ::
    "(('w::len word) rw_sys \<Rightarrow> 'w word rw_sys \<Rightarrow> bool) \<Rightarrow> 'w word rw_sys \<Rightarrow> bool" for ok where
  start: "guard_reachable ok new_owned"
| step: "guard_reachable ok g \<Longrightarrow> guard_step g h \<Longrightarrow> ok g h \<Longrightarrow> guard_reachable ok h"

definition guard_inv :: "('w::len word) rw_sys \<Rightarrow> bool" where
  "guard_inv g =
     (vw (rw_view (cell g)) = (writers g = 1) \<and> writers g \<le> 1
      \<and> readers g + upgs g \<le> vr (rw_view (cell g))
      \<and> (owners g = 1 \<longrightarrow> vr (rw_view (cell g)) = 0)
      \<and> (borrows g = 1 \<longrightarrow> vr (rw_view (cell g)) = 1 \<and> vu (rw_view (cell g)) \<and> upgs g = 1))"

text \<open>While no upgradable guard is nested, the bits and the count are exact.\<close>

definition flat_inv :: "('w::len word) rw_sys \<Rightarrow> bool" where
  "flat_inv g =
     (guard_inv g \<and> upgs g \<le> 1 \<and> vu (rw_view (cell g)) = (upgs g = 1)
      \<and> vr (rw_view (cell g)) = readers g + upgs g)"

text \<open>An executed operation, seen on the decoded fields.\<close>

lemma rw_exec_parts:
  fixes s :: "'w::len word"
  assumes "3 < LENGTH('w)" "av_room (max_readers s) op (rw_view s)"
  shows "fst (rw_exec op s) = fst (av_exec (max_readers s) op (rw_view s))"
    "rw_view (snd (rw_exec op s)) = snd (av_exec (max_readers s) op (rw_view s))"
  by (simp_all only: rw_refines [OF assms, symmetric] fst_map_prod snd_map_prod id_apply)

lemma rw_exec_view:
  fixes s :: "'w::len word"
  assumes "rw_exec op s = (b, s')" "3 < LENGTH('w)" "av_room (max_readers s) op (rw_view s)"
  shows "(b, rw_view s') = av_exec (max_readers s) op (rw_view s)"
  using rw_refines [OF assms(2,3)] assms(1) by simp

lemma max_readers_ge3: "4 < LENGTH('w::len) \<Longrightarrow> 2 < max_readers (s :: 'w word)"
proof -
  assume "4 < LENGTH('w)"
  then have "(2::nat) ^ 2 \<le> 2 ^ (LENGTH('w) - 3)"
    by (intro power_increasing) auto
  then show ?thesis
    by simp
qed

lemma write_view:
  fixes s :: "'w::len word"
  assumes "3 < LENGTH('w)"
  shows "try_write_acquire s = (b, s') \<Longrightarrow> (b, rw_view s')
      = (if vr (rw_view s) = 0 \<and> \<not> vw (rw_view s) then (True, (rw_view s)\<lparr>vw := True\<rparr>) else (False, rw_view s))"
    "try_write_queue s = (b, s') \<Longrightarrow> rw_view s' = (rw_view s)\<lparr>vq := True\<rparr>"
  using assms
  by (auto simp: try_write_acquire_def try_write_queue_def rw_update_eq expect_bits reader_count view_set_clear
      simp del: rw_view_sel split: if_splits)

lemma lt_max_view:
  fixes s :: "'w::len word"
  shows "3 < LENGTH('w) \<Longrightarrow> expect_reader_lt_max s = (vr (rw_view s) < max_readers s)"
  by (simp add: expect_reader_lt_max_def reader_count del: rw_view_sel)

lemma guard_inv_new: "guard_inv (new_owned :: ('w::len word) rw_sys)" "flat_inv (new_owned :: ('w::len word) rw_sys)"
  by (simp_all add: guard_inv_def flat_inv_def new_owned_def writers_def)

lemma guard_step_inv:
  fixes g h :: "('w::len word) rw_sys"
  assumes "guard_step g h" "guard_inv g" "roomy g h" "4 < LENGTH('w)"
  shows "guard_inv h" "flat_inv g \<Longrightarrow> upgs h \<le> 1 \<Longrightarrow> flat_inv h"
proof -
  have len: "3 < LENGTH('w)"
    using assms(4) by simp
  note view = rw_exec_view [OF _ len] and wview = write_view [OF len]
  note inv = assms(2) [unfolded guard_inv_def writers_def]
  have three: "2 < max_readers (cell g)"
    using assms(4) by (rule max_readers_ge3)
  note simps = guard_inv_def flat_inv_def writers_def writer_gone_def of_bool_def
  have "guard_inv h \<and> (flat_inv g \<longrightarrow> upgs h \<le> 1 \<longrightarrow> flat_inv h)"
    using assms(1)
  proof (cases rule: guard_step.cases)
    case read_ok
    then show ?thesis
      using inv three view [OF read_ok(2)]
      by (auto simp: simps simp del: rw_view_sel rw_exec.simps split: if_splits)
  next
    case read_fail
    then show ?thesis
      using inv three view [OF read_fail(2)]
      by (auto simp: simps simp del: rw_view_sel rw_exec.simps split: if_splits)
  next
    case reader_drop
    then show ?thesis
      using inv three view [OF reader_drop(3)]
      by (auto simp: simps simp del: rw_view_sel rw_exec.simps split: if_splits)
  next
    case write_ok
    then show ?thesis
      using inv three wview(1) [OF write_ok(2)]
      by (auto simp: simps simp del: rw_view_sel rw_exec.simps split: if_splits)
  next
    case write_fail
    then show ?thesis
      using inv three wview(1) [OF write_fail(2)]
      by (auto simp: simps simp del: rw_view_sel rw_exec.simps split: if_splits)
  next
    case write_queue
    then show ?thesis
      using inv three wview(2) [OF write_queue(2)]
      by (auto simp: simps simp del: rw_view_sel rw_exec.simps split: if_splits)
  next
    case (writer_drop h' b s)
    then have w: "vw (rw_view (cell g))"
      using inv by (auto simp: writer_gone_def simp del: rw_view_sel)
    then have "rw_view s = (rw_view (cell g))\<lparr>vw := False, vq := False\<rparr>"
      using view [OF writer_drop(3)] by (simp del: rw_view_sel rw_exec.simps)
    then show ?thesis
      using writer_drop(1,2) inv w by (elim writer_goneE) (auto simp: simps(1-3) simp del: rw_view_sel)
  next
    case upgradable_ok
    then have "vr (rw_view (cell g)) < max_readers (cell g)"
      using assms(3) by (simp add: roomy_def lt_max_view [OF len] del: rw_view_sel)
    with upgradable_ok show ?thesis
      using inv three view [OF upgradable_ok(2)]
      by (auto simp: simps simp del: rw_view_sel rw_exec.simps split: if_splits)
  next
    case (upgradable_fail s)
    then have "h = g"
      by (auto simp: rw_try_upgradable_read_def rw_update_eq split: if_splits)
    then show ?thesis
      using assms(2) by simp
  next
    case upgradable_drop
    then show ?thesis
      using inv three view [OF upgradable_drop(3)]
      by (auto simp: simps simp del: rw_view_sel rw_exec.simps split: if_splits)
  next
    case (write_to_read h' b s)
    then have w: "vw (rw_view (cell g))" "vr (rw_view (cell g)) \<le> 1"
      using inv by (auto simp: writer_gone_def simp del: rw_view_sel)
    then have "b" "rw_view s = (rw_view (cell g))\<lparr>vw := False, vr := vr (rw_view (cell g)) + 1\<rparr>"
      using three view [OF write_to_read(3)] by (simp_all del: rw_view_sel rw_exec.simps)
    then show ?thesis
      using write_to_read(1,2) inv w by (elim writer_goneE) (auto simp: simps(1-3) simp del: rw_view_sel)
  next
    case (write_to_upgradable h' b s)
    then have w: "vw (rw_view (cell g))" "vr (rw_view (cell g)) \<le> 1"
      using inv by (auto simp: writer_gone_def simp del: rw_view_sel)
    then have "b" "rw_view s = (rw_view (cell g))\<lparr>vw := False, vu := True, vr := vr (rw_view (cell g)) + 1\<rparr>"
      using three view [OF write_to_upgradable(3)] by (simp_all del: rw_view_sel rw_exec.simps)
    then show ?thesis
      using write_to_upgradable(1,2) inv w by (elim writer_goneE) (auto simp: simps(1-3) simp del: rw_view_sel)
  next
    case upgradable_to_read
    then show ?thesis
      using inv three view [OF upgradable_to_read(3)]
      by (auto simp: simps simp del: rw_view_sel rw_exec.simps split: if_splits)
  next
    case upgrade_ok
    then show ?thesis
      using inv three view [OF upgrade_ok(3)]
      by (auto simp: simps simp del: rw_view_sel rw_exec.simps split: if_splits)
  next
    case upgrade_fail
    then show ?thesis
      using inv three view [OF upgrade_fail(3)]
      by (auto simp: simps simp del: rw_view_sel rw_exec.simps split: if_splits)
  next
    case upgrade_consumed
    then show ?thesis
      using inv three view [OF upgrade_consumed(4)]
      by (auto simp: simps simp del: rw_view_sel rw_exec.simps split: if_splits)
  qed
  then show "guard_inv h" "flat_inv g \<Longrightarrow> upgs h \<le> 1 \<Longrightarrow> flat_inv h"
    by simp_all
qed

lemma guard_reachable_inv:
  assumes "guard_reachable roomy (g :: ('w::len word) rw_sys)" "4 < LENGTH('w)"
  shows "guard_inv g"
  using assms(1)
  by (induction rule: guard_reachable.induct) (auto intro: guard_inv_new guard_step_inv(1) assms(2))

lemma flat_reachable_inv:
  assumes "guard_reachable flat (g :: ('w::len word) rw_sys)" "4 < LENGTH('w)"
  shows "guard_reachable roomy g \<and> flat_inv g"
  using assms(1)
proof (induction rule: guard_reachable.induct)
  case (step g h)
  then show ?case
    using guard_step_inv(2) [OF step.hyps(2) _ _ assms(2)]
    by (auto simp: flat_def flat_inv_def intro: guard_reachable.step)
qed (simp add: guard_reachable.start guard_inv_new)

section \<open>Properties\<close>

text \<open>
  C5: The operations of \<open>RwLockState\<close> on the packed word do to the decoded fields (writer, queued and
  upgrade bits, reader count) what the abstract lock does, at every word width of at least four bits: they
  succeed on the same states and touch no field they do not name. Of the operations that change the count
  without a check this holds where the count has room: an upgradable guard is granted and a writer is
  downgraded below the limit, and an upgradable guard is dropped while the count is not zero. Without room
  \<open>try_upgradable_read\<close> overflows into the flags (\<open>upgradable_overflow_breaks_exclusion\<close>).
\<close>

theorem rw_state_refinement:
  fixes s :: "'w::len word"
  assumes "3 < LENGTH('w)" "av_room (max_readers s) op (rw_view s)"
  shows "map_prod id rw_view (rw_exec op s) = av_exec (max_readers s) op (rw_view s)"
  by (rule rw_refines [OF assms])

theorem rw_state_refinement_witness:
  "map_prod id rw_view (rw_exec TryUpgradable (2 :: 8 word))
     = (True, \<lparr>vw = False, vq = False, vu = True, vr = 3\<rparr>)"
  using rw_state_refinement [where s = "2 :: 8 word" and op = TryUpgradable]
  by (simp add: rw_view_def take_bit_eq_mod)

text \<open>
  C3: Mutual exclusion. However the threads interleave the updates that the guards' methods and
  destructors make, as long as no upgradable guard is taken while the reader count is at its limit (which
  \<open>try_upgradable_read\<close> does not check): at most one writer guard is alive; a writer guard of its own
  excludes every other guard, and one borrowed from an upgradable guard every other guard but that one.
  The count the lock reports is never below the number of live reader and upgradable guards.
\<close>

theorem rw_mutual_exclusion:
  fixes g :: "('w::len word) rw_sys"
  assumes "guard_reachable roomy g" "4 < LENGTH('w)"
  shows "owners g + borrows g \<le> 1 \<and> (0 < owners g \<longrightarrow> readers g = 0 \<and> upgs g = 0)
       \<and> (0 < borrows g \<longrightarrow> readers g = 0 \<and> upgs g = 1)
       \<and> readers g + upgs g \<le> unat (get_reader_count (cell g))"
proof -
  have "guard_inv g"
    using assms by (rule guard_reachable_inv)
  then show ?thesis
    using assms(2) by (auto simp: guard_inv_def writers_def reader_count simp del: rw_view_sel)
qed

lemma reachable_upgraded:
  "guard_reachable flat \<lparr>cell = 0xA1 :: 8 word, readers = 0, upgs = 1, owners = 0, borrows = 1\<rparr>"
proof -
  let ?n = "new_owned :: (8 word) rw_sys" and ?u = "new_owned\<lparr>cell := 0x21 :: 8 word, upgs := 1\<rparr>"
  have "guard_step ?n (?n\<lparr>cell := 0x21, upgs := upgs ?n + 1\<rparr>)"
    by (rule guard_step.upgradable_ok) (simp add: new_owned_def rw_op_defs rw_update_eq
        lock_defs desire_inc_reader_def)
  moreover have "flat ?n (?n\<lparr>cell := 0x21, upgs := upgs ?n + 1\<rparr>)"
    by (simp add: flat_def roomy_def new_owned_def expect_reader_lt_max_def lock_defs mask_eq_exp_minus_1)
  ultimately have "guard_reachable flat ?u"
    using guard_reachable.step [OF guard_reachable.start] by (simp add: new_owned_def)
  moreover have "guard_step ?u (?u\<lparr>cell := 0xA1, borrows := borrows ?u + 1\<rparr>)"
    by (rule guard_step.upgrade_ok) (simp_all add: new_owned_def rw_op_defs rw_update_eq lock_defs
        mask_eq_exp_minus_1)
  moreover have "flat ?u (?u\<lparr>cell := 0xA1, borrows := borrows ?u + 1\<rparr>)"
    by (simp add: flat_def roomy_def)
  ultimately have "guard_reachable flat (?u\<lparr>cell := 0xA1, borrows := borrows ?u + 1\<rparr>)"
    by (rule guard_reachable.step)
  then show ?thesis
    by (simp add: new_owned_def)
qed

theorem rw_mutual_exclusion_witness:
  "1 \<le> unat (get_reader_count (0xA1 :: 8 word))"
proof -
  let ?g = "\<lparr>cell = 0xA1 :: 8 word, readers = 0, upgs = 1, owners = 0, borrows = 1\<rparr>"
  have "guard_reachable roomy ?g"
    using flat_reachable_inv [OF reachable_upgraded] by simp
  then show ?thesis
    using rw_mutual_exclusion [of ?g] by simp
qed

text \<open>
  C6: Releasing never fails. However the threads interleave, as long as no upgradable guard is taken
  while the reader count is at its limit and none is made while another one is alive (downgrading a borrowed
  writer guard to an upgradable one does that, see \<open>downgrade_borrowed_writer_leaks\<close>): the bits and the count
  the lock keeps are exactly its live guards, and the destructor of each live guard and each downgrade find
  what they expect. So none of the \<open>debug_assert!\<close>s fires and none of the \<open>unreachable!\<close> branches of
  \<open>Acquire\<close> is reached.
\<close>

theorem rw_release_succeeds:
  fixes g :: "('w::len word) rw_sys"
  assumes "guard_reachable flat g" "4 < LENGTH('w)"
  shows "unat (get_reader_count (cell g)) = readers g + upgs g
       \<and> expect_writer_active (cell g) = (writers g = 1) \<and> expect_upgrade_active (cell g) = (upgs g = 1)
       \<and> (0 < readers g \<longrightarrow> fst (rw_exec ReaderDrop (cell g)))
       \<and> (0 < writers g \<longrightarrow> fst (rw_exec WriterDrop (cell g))
            \<and> fst (rw_exec WriteToRead (cell g)) \<and> fst (rw_exec WriteToUpgradable (cell g)))
       \<and> (0 < upgs g \<longrightarrow> fst (rw_exec UpgradableDrop (cell g)))
       \<and> (borrows g < upgs g \<longrightarrow> fst (rw_exec UpgradableToRead (cell g)))"
proof -
  have "flat_inv g"
    using flat_reachable_inv [OF assms] by simp
  moreover have len: "3 < LENGTH('w)"
    using assms(2) by simp
  ultimately show ?thesis
    by (auto simp: flat_inv_def guard_inv_def writers_def rw_op_defs rw_update_eq expect_reader_gt_min_def
        expect_bits [OF len] reader_count [OF len] simp del: rw_view_sel)
qed

theorem rw_release_succeeds_witness:
  "fst (rw_exec WriterDrop (0xA1 :: 8 word)) \<and> fst (rw_exec UpgradableDrop (0xA1 :: 8 word))"
  using rw_release_succeeds [OF reachable_upgraded] by (simp add: writers_def)

lemma queued_refuses_readers:
  fixes s :: "'w::len word"
  assumes "3 < LENGTH('w)" "vq (rw_view s)"
  shows "rw_exec TryRead s = (False, s)" "rw_exec TryUpgradable s = (False, s)"
  using assms by (simp_all add: rw_op_defs rw_update_eq expect_bits del: rw_view_sel)

lemma reachable_reader:
  "guard_reachable flat \<lparr>cell = 1 :: 8 word, readers = 1, upgs = 0, owners = 0, borrows = 0\<rparr>"
proof -
  let ?n = "new_owned :: (8 word) rw_sys"
  have "guard_step ?n (?n\<lparr>cell := 1, readers := readers ?n + 1\<rparr>)"
    by (rule guard_step.read_ok) (simp add: new_owned_def rw_op_defs rw_update_eq
        lock_defs desire_inc_reader_def expect_reader_lt_max_def mask_eq_exp_minus_1)
  from guard_reachable.step [OF guard_reachable.start this] show ?thesis
    by (simp add: new_owned_def flat_def roomy_def)
qed

lemma all_readers_word:
  fixes s :: "'w::len word"
  assumes "3 < LENGTH('w)"
    and "rw_view s = \<lparr>vw = False, vq = False, vu = False, vr = max_readers s\<rparr>"
  shows "s = mask (LENGTH('w) - 3)"
proof -
  let ?k = "LENGTH('w) - 3"
  have "unat (take_bit ?k s) = unat (mask ?k :: 'w word)"
    using assms by (simp add: rw_view_def unat_mask)
  then have low: "take_bit ?k s = mask ?k"
    by (simp add: word_unat_eq_iff)
  have high: "\<not> bit s n" if "?k \<le> n" "n < LENGTH('w)" for n
  proof -
    from that assms(1) have "n = ?k \<or> n = LENGTH('w) - 2 \<or> n = LENGTH('w) - 1"
      by arith
    then show ?thesis
      using assms by (auto simp: rw_view_def)
  qed
  show ?thesis
  proof (rule bit_word_eqI)
    fix n assume n: "n < LENGTH('w)"
    have "bit (take_bit ?k s) n = bit (mask ?k :: 'w word) n"
      by (simp only: low)
    then show "bit s n = bit (mask ?k :: 'w word) n"
      using n high [of n] by (auto simp: bit_simps)
  qed
qed

text \<open>
  \<open>try_upgradable_read\<close> does not check the reader limit. With the maximal number of plain
  readers alive it succeeds, the increment carries through the upgrade bit into the queued bit,
  the word then reports no reader and no upgradable guard, and the next \<open>try_write\<close> is granted
  while all the readers still hold their guards.
\<close>

theorem upgradable_overflow_breaks_exclusion:
  fixes s :: "'w::len word"
  assumes "3 < LENGTH('w)"
    and "rw_view s = \<lparr>vw = False, vq = False, vu = False, vr = max_readers s\<rparr>"
  shows "\<exists>s'. rw_exec TryUpgradable s = (True, s')
     \<and> rw_view s' = \<lparr>vw = False, vq = True, vu = False, vr = 0\<rparr> \<and> fst (rw_exec TryWrite s')"
proof -
  let ?k = "LENGTH('w) - 3"
  have s: "s = mask ?k"
    by (rule all_readers_word [OF assms])
  have "desire_upgrade_active s = mask (Suc ?k)"
    using assms(1) by (auto simp: s lock_defs bit_simps intro!: bit_word_eqI)
  then have inc: "desire_inc_reader (desire_upgrade_active s) = 2 ^ Suc ?k"
    by (simp add: desire_inc_reader_def mask_eq_exp_minus_1)
  have k: "Suc ?k = LENGTH('w) - 2"
    using assms(1) by arith
  have v: "rw_view (2 ^ Suc ?k :: 'w word) = \<lparr>vw = False, vq = True, vu = False, vr = 0\<rparr>"
  proof -
    have "take_bit ?k (2 ^ Suc ?k :: 'w word) = 0"
      by (auto intro!: bit_word_eqI simp: bit_simps simp del: power_Suc)
    then show ?thesis
      using assms(1) by (simp add: rw_view_def k bit_simps del: power_Suc) arith
  qed
  have "rw_exec TryUpgradable s = (True, 2 ^ Suc ?k)"
    using assms inc by (simp add: rw_op_defs rw_update_eq expect_bits del: power_Suc rw_view_sel)
  moreover have "fst (rw_exec TryWrite (2 ^ Suc ?k :: 'w word))"
    using rw_exec_parts(1) [OF assms(1), of TryWrite "2 ^ Suc ?k"] v
    by (simp del: rw_exec.simps power_Suc rw_view_sel)
  ultimately show ?thesis
    using v by blast
qed

theorem upgradable_overflow_breaks_exclusion_witness:
  "\<exists>s'. rw_exec TryUpgradable (31 :: 8 word) = (True, s') \<and> fst (rw_exec TryWrite s')"
  using upgradable_overflow_breaks_exclusion [where s = "31 :: 8 word"]
  by (auto simp: rw_view_def take_bit_eq_mod simp del: rw_exec.simps)

text \<open>So many readers can be there.\<close>

lemma readers_reachable:
  "3 < LENGTH('w::len) \<Longrightarrow> n \<le> max_readers (0 :: 'w word) \<Longrightarrow>
     \<exists>s :: 'w word. rw_view s = \<lparr>vw = False, vq = False, vu = False, vr = n\<rparr>
       \<and> guard_reachable flat \<lparr>cell = s, readers = n, upgs = 0, owners = 0, borrows = 0\<rparr>"
proof (induction n)
  case 0
  have "guard_reachable flat \<lparr>cell = 0 :: 'w word, readers = 0, upgs = 0, owners = 0, borrows = 0\<rparr>"
    using guard_reachable.start [of flat] by (simp add: new_owned_def)
  moreover have "rw_view (0 :: 'w word) = \<lparr>vw = False, vq = False, vu = False, vr = 0\<rparr>"
    by (simp add: rw_view_def)
  ultimately show ?case
    by blast
next
  case (Suc n)
  then obtain s :: "'w word" where s: "rw_view s = \<lparr>vw = False, vq = False, vu = False, vr = n\<rparr>"
    "guard_reachable flat \<lparr>cell = s, readers = n, upgs = 0, owners = 0, borrows = 0\<rparr>" (is "guard_reachable _ ?g")
    by auto
  obtain b s' where x: "rw_exec TryRead s = (b, s')"
    by fastforce
  have "(b, rw_view s') = av_exec (max_readers s) TryRead (rw_view s)"
    by (rule rw_exec_view [OF x Suc.prems(1)]) simp
  then have v: "b" "rw_view s' = \<lparr>vw = False, vq = False, vu = False, vr = Suc n\<rparr>"
    using s(1) Suc.prems(2) by (simp_all del: rw_view_sel)
  have "guard_step ?g (?g\<lparr>cell := s', readers := readers ?g + 1\<rparr>)"
    by (rule guard_step.read_ok) (use x v(1) in \<open>simp del: rw_exec.simps\<close>)
  moreover have "flat ?g (?g\<lparr>cell := s', readers := readers ?g + 1\<rparr>)"
    by (simp add: flat_def roomy_def)
  ultimately have "guard_reachable flat (?g\<lparr>cell := s', readers := readers ?g + 1\<rparr>)"
    by (rule guard_reachable.step [OF s(2)])
  then show ?case
    using v(2) by auto
qed

text \<open>
  C4: Mutual exclusion does not hold without that condition. \<open>try_upgradable_read\<close> does not check the
  reader limit: when as many readers are alive as the word can count, which any number of threads can
  bring about with nothing but \<open>try_read\<close>, the next upgradable guard is granted, its increment carries
  through the upgrade bit into the queued bit, the word then reports no reader at all, and the next
  writer is granted beside all the readers.
\<close>

theorem upgradable_at_limit_breaks_exclusion:
  assumes "4 < LENGTH('w::len)"
  shows "\<exists>g h h' :: 'w word rw_sys. guard_reachable flat g \<and> readers g = 2 ^ (LENGTH('w) - 3) - 1
     \<and> upgs g = 0 \<and> guard_step g h \<and> upgs h = 1 \<and> guard_step h h'
     \<and> owners h' = 1 \<and> upgs h' = 1 \<and> readers h' = readers g \<and> get_reader_count (cell h') = 0"
proof -
  have len: "3 < LENGTH('w)"
    using assms by simp
  obtain s :: "'w word" where s: "rw_view s = \<lparr>vw = False, vq = False, vu = False, vr = max_readers s\<rparr>"
    "guard_reachable flat \<lparr>cell = s, readers = max_readers s, upgs = 0, owners = 0, borrows = 0\<rparr>"
    (is "guard_reachable _ ?g")
    using readers_reachable [OF len, of "max_readers (0 :: 'w word)"] by auto
  obtain s1 where s1: "rw_exec TryUpgradable s = (True, s1)"
    "rw_view s1 = \<lparr>vw = False, vq = True, vu = False, vr = 0\<rparr>"
    using upgradable_overflow_breaks_exclusion [OF len s(1)] by blast
  let ?h = "?g\<lparr>cell := s1, upgs := upgs ?g + 1\<rparr>"
  have "guard_step ?g ?h"
    by (rule guard_step.upgradable_ok) (use s1(1) in \<open>simp del: rw_exec.simps\<close>)
  moreover obtain b s2 where s2: "try_write_acquire s1 = (b, s2)"
    by fastforce
  then have b: "b" "vr (rw_view s2) = 0"
    using write_view(1) [OF len s2] s1(2) by (simp_all del: rw_view_sel)
  then have "guard_step ?h (?h\<lparr>cell := s2, owners := owners ?h + 1\<rparr>)"
    by (intro guard_step.write_ok) (use s2 in simp)
  moreover have "get_reader_count s2 = 0"
    using b(2) reader_count [OF len, of s2] by (simp add: unat_eq_zero)
  ultimately show ?thesis
    using s(2) by (intro exI [of _ ?g] exI [of _ ?h] exI [of _ "?h\<lparr>cell := s2, owners := owners ?h + 1\<rparr>"]) simp
qed

text \<open>A word of eight bits counts 31 readers.\<close>

theorem upgradable_at_limit_breaks_exclusion_witness:
  "\<exists>g h h' :: 8 word rw_sys. guard_reachable flat g \<and> guard_step g h \<and> guard_step h h' \<and> owners h' = 1 \<and> readers h' = 31"
  using upgradable_at_limit_breaks_exclusion [where 'w = 8] by fastforce

text \<open>
  Downgrading a writer guard that was borrowed from an upgradable guard
  (\<open>Upgrade::try_upgrade\<close> followed by \<open>downgrade_to_upgradable\<close>) makes a second upgradable guard.
  The inner one's destructor clears the shared upgrade bit, so the outer one's destructor fails
  and the count stays at one with no guard alive: no writer ever gets the lock again.
\<close>

theorem downgrade_borrowed_writer_leaks:
  fixes g :: "('w::len word) rw_sys"
  assumes "guard_reachable flat g" "4 < LENGTH('w)" "borrows g = 1"
  shows "let s1 = snd (rw_exec WriteToUpgradable (cell g)); s2 = snd (rw_exec UpgradableDrop s1)
         in \<not> fst (rw_exec UpgradableDrop s2) \<and> snd (rw_exec UpgradableDrop s2) = s2
            \<and> vr (rw_view s2) = 1 \<and> \<not> fst (rw_exec TryWrite s2)"
proof -
  have len: "3 < LENGTH('w)"
    using assms(2) by simp
  have "flat_inv g"
    using flat_reachable_inv [OF assms(1,2)] by simp
  with assms(3) have v: "rw_view (cell g)
      = \<lparr>vw = True, vq = vq (rw_view (cell g)), vu = True, vr = 1\<rparr>"
    by (intro rw_view.equality) (auto simp: flat_inv_def guard_inv_def writers_def simp del: rw_view_sel)
  let ?q = "vq (rw_view (cell g))"
  define s1 where "s1 = snd (rw_exec WriteToUpgradable (cell g))"
  define s2 where "s2 = snd (rw_exec UpgradableDrop s1)"
  have room: "av_room (max_readers (cell g)) WriteToUpgradable (rw_view (cell g))"
    using v max_readers_ge3 [OF assms(2)] by (metis Suc_1 Suc_lessD av_room.simps(3)
        rw_view.select_convs(4) One_nat_def)
  have v1: "rw_view s1 = \<lparr>vw = False, vq = ?q, vu = True, vr = 2\<rparr>"
    unfolding s1_def rw_exec_parts(2) [OF len room] by (subst v) simp
  have v2: "rw_view s2 = \<lparr>vw = False, vq = ?q, vu = False, vr = 1\<rparr>"
    unfolding s2_def using rw_exec_parts(2) [OF len, of UpgradableDrop s1] v1
    by (simp del: rw_exec.simps rw_view_sel)
  have "rw_exec UpgradableDrop s2 = (False, s2)"
    using v2 by (simp add: rw_op_defs rw_update_eq expect_bits [OF len] del: rw_view_sel)
  moreover have "\<not> fst (rw_exec TryWrite s2)"
    using rw_exec_parts(1) [OF len, of TryWrite s2] v2 by (simp del: rw_exec.simps rw_view_sel)
  ultimately show ?thesis
    using v2 by (simp add: Let_def flip: s1_def s2_def del: rw_exec.simps rw_view_sel)
qed

theorem downgrade_borrowed_writer_leaks_witness:
  "\<not> fst (rw_exec TryWrite (snd (rw_exec UpgradableDrop (snd (rw_exec WriteToUpgradable (0xA1 :: 8 word))))))"
  using downgrade_borrowed_writer_leaks [OF reachable_upgraded]
  by (simp add: Let_def del: rw_exec.simps)

end
