(* ===== verification/Rw_Wait.thy ===== *)
theory Rw_Wait
  imports Rw_Lock
begin

text \<open>
  The blocking side of the reader-writer lock: \<open>Acquire\<close> and the waits it hands out
  (\<open>crates/atomic_sync/src/rwlock/preemptive\<close>: \<open>rwlock_.rs\<close>, \<open>reader_.rs\<close>, \<open>writer_.rs\<close>, \<open>upgrade_.rs\<close>).
  A wait spins: it attempts, and asks its cancellation token after each failed attempt. What the
  other holders of the lock do before an attempt and between the two updates of an attempt to write,
  and what the token answers, make a round; a wait is a function of its rounds, and spins still when
  they are over.
\<close>

section \<open>Attempts\<close>

text \<open>The attempts of \<open>Acquire\<close> and of \<open>Upgrade\<close>: the update of the word, and the guard it makes.\<close>

definition attempt ::
    "('w word \<Rightarrow> bool \<times> 'w word) \<Rightarrow> ('w word rw_sys \<Rightarrow> 'w word rw_sys) \<Rightarrow> ('w::len word) rw_sys \<Rightarrow> bool \<times> 'w word rw_sys" where
  "attempt update guard g =
     (case update (cell g) of
        (True, s) \<Rightarrow> (True, guard (g\<lparr>cell := s\<rparr>))
      | (False, s) \<Rightarrow> (False, g\<lparr>cell := s\<rparr>))"

definition acquire_try_read :: "('w::len word) rw_sys \<Rightarrow> bool \<times> 'w word rw_sys" where
  "acquire_try_read = attempt rw_try_read (\<lambda>g. g\<lparr>readers := readers g + 1\<rparr>)"

text \<open>
  \<open>try_write\<close> updates the word twice when the first update fails; \<open>between\<close> is what the others do
  after the first and before the second.
\<close>

definition acquire_try_write ::
    "('w word rw_sys \<Rightarrow> 'w word rw_sys) \<Rightarrow> ('w::len word) rw_sys \<Rightarrow> bool \<times> 'w word rw_sys" where
  "acquire_try_write between g =
     (case attempt try_write_acquire (\<lambda>g. g\<lparr>owners := owners g + 1\<rparr>) g of
        (True, g1) \<Rightarrow> (True, g1)
      | (False, g1) \<Rightarrow>
          (let g2 = between g1 in (False, g2\<lparr>cell := snd (try_write_queue (cell g2))\<rparr>)))"

definition acquire_try_upgradable_read :: "('w::len word) rw_sys \<Rightarrow> bool \<times> 'w word rw_sys" where
  "acquire_try_upgradable_read = attempt rw_try_upgradable_read (\<lambda>g. g\<lparr>upgs := upgs g + 1\<rparr>)"

definition try_upgrade_mut_to_writer :: "('w::len word) rw_sys \<Rightarrow> bool \<times> 'w word rw_sys" where
  "try_upgrade_mut_to_writer = attempt try_upgrade_upgradable_to_write (\<lambda>g. g\<lparr>borrows := borrows g + 1\<rparr>)"

section \<open>Waits\<close>

datatype 's waited = Acquired 's | Cancelled 's | Spinning 's

text \<open>A round: what the others do before the attempt and in the middle of it, and the token's answer.\<close>

type_synonym 's round = "('s \<Rightarrow> 's) \<times> ('s \<Rightarrow> 's) \<times> bool"

fun may_break_with_impl :: "(('s \<Rightarrow> 's) \<Rightarrow> 's \<Rightarrow> bool \<times> 's) \<Rightarrow> 's round list \<Rightarrow> 's \<Rightarrow> 's waited" where
  "may_break_with_impl try_acquire [] s = Spinning s"
| "may_break_with_impl try_acquire ((others, between, cancelled) # rs) s =
     (case try_acquire between (others s) of
        (True, s') \<Rightarrow> Acquired s'
      | (False, s') \<Rightarrow> if cancelled then Cancelled s' else may_break_with_impl try_acquire rs s')"

definition may_break_read :: "('w::len word) rw_sys round list \<Rightarrow> 'w word rw_sys \<Rightarrow> 'w word rw_sys waited" where
  "may_break_read = may_break_with_impl (\<lambda>_. acquire_try_read)"

definition may_break_write :: "('w::len word) rw_sys round list \<Rightarrow> 'w word rw_sys \<Rightarrow> 'w word rw_sys waited" where
  "may_break_write = may_break_with_impl acquire_try_write"

definition may_break_upgradable_read :: "('w::len word) rw_sys round list \<Rightarrow> 'w word rw_sys \<Rightarrow> 'w word rw_sys waited" where
  "may_break_upgradable_read = may_break_with_impl (\<lambda>_. acquire_try_upgradable_read)"

fun upgrade_with_cancel :: "('w::len word) rw_sys round list \<Rightarrow> 'w word rw_sys \<Rightarrow> 'w word rw_sys waited" where
  "upgrade_with_cancel [] g = Spinning g"
| "upgrade_with_cancel ((others, between, cancelled) # rs) g =
     (case try_upgrade_mut_to_writer (others g) of
        (True, g') \<Rightarrow> Acquired g'
      | (False, g') \<Rightarrow> if cancelled then Cancelled g' else upgrade_with_cancel rs g')"

text \<open>\<open>TrMayBreak::wait\<close> uses the token that never cancels; \<open>wait_or\<close> falls back on its argument.\<close>

definition wait :: "('s round list \<Rightarrow> 's \<Rightarrow> 's waited) \<Rightarrow> (('s \<Rightarrow> 's) \<times> ('s \<Rightarrow> 's)) list \<Rightarrow> 's \<Rightarrow> 's waited" where
  "wait may_break others = may_break (map (\<lambda>(f, between). (f, between, False)) others)"

fun wait_or :: "'s waited \<Rightarrow> ('s \<Rightarrow> 's) \<Rightarrow> 's waited" where
  "wait_or (Cancelled s) f = Acquired (f s)"
| "wait_or x f = x"

section \<open>Waits are runs of the lock\<close>

text \<open>The steps of the others, within what the code leaves to its callers.\<close>

definition roomy_step :: "('w::len word) rw_sys \<Rightarrow> 'w word rw_sys \<Rightarrow> bool" where
  "roomy_step g h = (guard_step g h \<and> roomy g h)"

abbreviation "guard_runs \<equiv> roomy_step\<^sup>*\<^sup>*"

lemma runs_reachable: "guard_runs g h \<Longrightarrow> guard_reachable roomy g \<Longrightarrow> guard_reachable roomy h"
  by (induction rule: rtranclp_induct) (auto simp: roomy_step_def intro: guard_reachable.step)

fun waited_state :: "'s waited \<Rightarrow> 's" where
  "waited_state (Acquired s) = s"
| "waited_state (Cancelled s) = s"
| "waited_state (Spinning s) = s"

lemma attempt_steps:
  assumes "attempt update f g = (b, h)"
    "\<And>s. update (cell g) = (True, s) \<Longrightarrow> roomy_step g (f (g\<lparr>cell := s\<rparr>))"
    "\<And>s. update (cell g) = (False, s) \<Longrightarrow> roomy_step g (g\<lparr>cell := s\<rparr>)"
  shows "roomy_step g h"
  using assms by (auto simp: attempt_def split: prod.splits bool.splits)

lemma acquire_steps:
  "acquire_try_read g = (b, h) \<Longrightarrow> roomy_step g h"
  "borrows g < upgs g \<Longrightarrow> try_upgrade_mut_to_writer g = (b, h) \<Longrightarrow> roomy_step g h"
  "expect_reader_lt_max (cell g) \<Longrightarrow> acquire_try_upgradable_read g = (b, h) \<Longrightarrow> roomy_step g h"
  unfolding acquire_try_read_def try_upgrade_mut_to_writer_def acquire_try_upgradable_read_def
  by (erule attempt_steps; use guard_step.intros(1,2,8,9,14,15) [of g] in \<open>simp add: roomy_step_def roomy_def\<close>)+

lemma acquire_write_steps:
  assumes "acquire_try_write between g = (b, h)" "\<And>g. guard_runs g (between g)"
  shows "guard_runs g h"
proof -
  obtain b1 g1 where g1: "attempt try_write_acquire (\<lambda>g. g\<lparr>owners := owners g + 1\<rparr>) g = (b1, g1)"
    by fastforce
  have "roomy_step g g1"
    using guard_step.write_ok [of g] guard_step.write_fail [of g]
    by (intro attempt_steps [OF g1]) (simp_all add: roomy_step_def roomy_def)
  moreover have "guard_runs g1 (between g1)"
    by (rule assms(2))
  moreover have "roomy_step k (k\<lparr>cell := snd (try_write_queue (cell k))\<rparr>)" for k :: "'a word rw_sys"
    using guard_step.write_queue [of k] by (cases "try_write_queue (cell k)") (simp add: roomy_step_def roomy_def)
  ultimately show ?thesis
    using assms(1) g1
    by (cases b1) (auto simp: acquire_try_write_def Let_def intro: rtranclp.rtrancl_into_rtrancl
        converse_rtranclp_into_rtranclp)
qed

lemma may_break_reaches:
  assumes "\<And>between g b h. \<forall>g. guard_runs g (between g) \<Longrightarrow> try_acquire between g = (b, h) \<Longrightarrow> guard_runs g h"
    "\<forall>r\<in>set rs. \<forall>g. guard_runs g (fst r g) \<and> guard_runs g (fst (snd r) g)"
  shows "guard_runs g (waited_state (may_break_with_impl try_acquire rs g))"
  using assms(2)
proof (induction rs arbitrary: g)
  case (Cons r rs)
  obtain b h where h: "try_acquire (fst (snd r)) (fst r g) = (b, h)"
    by fastforce
  then have "guard_runs g h"
    using Cons.prems assms(1) by (meson list.set_intros(1) rtranclp_trans)
  moreover have "guard_runs h (waited_state (may_break_with_impl try_acquire rs h))"
    using Cons by simp
  ultimately show ?case
    using h by (cases r) (auto split: bool.splits intro: rtranclp_trans)
qed simp

section \<open>A queued writer\<close>

text \<open>
  Steps during which nobody holds the lock for writing. Once the queued bit is set they let no new
  guard in.
\<close>

definition calm_step :: "('w::len word) rw_sys \<Rightarrow> 'w word rw_sys \<Rightarrow> bool" where
  "calm_step g h = (roomy_step g h \<and> writers h = 0)"

definition calm :: "(('w::len word) rw_sys \<Rightarrow> 'w word rw_sys) \<Rightarrow> bool" where
  "calm others = (\<forall>g. calm_step\<^sup>*\<^sup>* g (others g))"

text \<open>
  The reader count of the word. While nobody writes, and no upgradable guard is nested in another one,
  it is the number of live reader and upgradable guards.
\<close>

definition held :: "('w::len word) rw_sys \<Rightarrow> nat" where
  "held g = unat (get_reader_count (cell g))"

definition no_writer :: "('w::len word) rw_sys \<Rightarrow> bool" where
  "no_writer g = (flat_inv g \<and> writers g = 0)"

definition queued :: "('w::len word) rw_sys \<Rightarrow> bool" where
  "queued g = (no_writer g \<and> expect_writer_queued (cell g))"

lemma calm_stepD:
  fixes g :: "('w::len word) rw_sys"
  assumes "calm_step g h" "no_writer g" "4 < LENGTH('w)"
  shows "no_writer h" "queued g \<Longrightarrow> queued h \<and> held h \<le> held g"
proof -
  have len: "3 < LENGTH('w)"
    using assms(3) by simp
  have st: "guard_step g h" "roomy g h" and w: "writers h = 0" "writers g = 0" "flat_inv g" "guard_inv g"
    using assms(1,2) by (simp_all add: calm_step_def roomy_step_def no_writer_def flat_inv_def)
  have ww: "owners g = 0" "borrows g = 0" "owners h = 0" "borrows h = 0"
    using w by (simp_all add: writers_def)
  have "upgs h \<le> upgs g \<or> \<not> vu (rw_view (cell g)) \<and> upgs h = upgs g + 1"
    using st(1)
    by (cases rule: guard_step.cases)
      (use ww in \<open>auto simp: writer_gone_def rw_try_upgradable_read_def rw_update_eq expect_bits [OF len]
        simp del: rw_view_sel split: if_splits\<close>)
  then have "upgs h \<le> 1"
    using w(3) by (auto simp: flat_inv_def simp del: rw_view_sel)
  then show ok: "no_writer h"
    using guard_step_inv(2) [OF st(1) w(4) st(2) assms(3) w(3)] w(1) by (simp add: no_writer_def)
  note bits = expect_bits [OF len] reader_count [OF len]
  assume q: "queued g"
  then have v: "vq (rw_view (cell g))" "readers g + upgs g \<le> vr (rw_view (cell g))" "\<not> vw (rw_view (cell g))"
    using w by (auto simp: queued_def guard_inv_def bits simp del: rw_view_sel)
  note view = rw_exec_view [OF _ len] and wview = write_view [OF len]
  show "queued h \<and> held h \<le> held g"
    using st(1)
  proof (cases rule: guard_step.cases)
    case (write_queue s b)
    then show ?thesis
      using ok v wview(2) [OF write_queue(2)] by (simp add: queued_def held_def bits del: rw_view_sel)
  next
    case (write_fail s)
    then show ?thesis
      using ok v wview(1) [OF write_fail(2)]
      by (auto simp: queued_def held_def bits simp del: rw_view_sel split: if_splits)
  qed (use ok v ww in \<open>auto simp: queued_def held_def bits writer_gone_def simp del: rw_view_sel rw_exec.simps
        dest!: view split: if_splits\<close>)
qed

lemma calmD:
  fixes g :: "('w::len word) rw_sys"
  assumes "calm f" "no_writer g" "4 < LENGTH('w)"
  shows "no_writer (f g)" "guard_runs g (f g)" "queued g \<Longrightarrow> queued (f g) \<and> held (f g) \<le> held g"
proof -
  have run: "calm_step\<^sup>*\<^sup>* g (f g)"
    using assms(1) by (simp add: calm_def)
  then have "no_writer (f g) \<and> guard_runs g (f g) \<and> (queued g \<longrightarrow> queued (f g) \<and> held (f g) \<le> held g)"
    by (induction rule: rtranclp_induct)
      (use assms(2,3) calm_stepD in \<open>fastforce simp: calm_step_def intro: rtranclp.rtrancl_into_rtrancl\<close>)+
  then show "no_writer (f g)" "guard_runs g (f g)" "queued g \<Longrightarrow> queued (f g) \<and> held (f g) \<le> held g"
    by simp_all
qed

text \<open>
  One attempt to write: it succeeds when the lock is free, and else sets the queued bit after what the
  others did in between.
\<close>

lemma queued_attempt:
  fixes g :: "('w::len word) rw_sys"
  assumes "acquire_try_write between g = (b, h)" "no_writer g" "calm between" "4 < LENGTH('w)"
  shows "b = (held g = 0)" "b \<Longrightarrow> owners h = 1 \<and> guard_inv h \<and> guard_runs g h"
    "\<not> b \<Longrightarrow> queued h \<and> held h = held (between g) \<and> guard_runs g h"
proof -
  have len: "3 < LENGTH('w)"
    using assms(4) by simp
  note bits = expect_bits [OF len] reader_count [OF len]
  have v: "\<not> vw (rw_view (cell g))" "owners g = 0"
    using assms(2) by (simp_all add: no_writer_def flat_inv_def guard_inv_def writers_def)
  obtain b1 s where s: "try_write_acquire (cell g) = (b1, s)"
    by fastforce
  note w = write_view(1) [OF len s]
  have b1: "b1 = (held g = 0)"
    using w v by (auto simp: held_def bits simp del: rw_view_sel split: if_splits)
  show "b = (held g = 0)"
    using assms(1) s b1 by (cases b1) (auto simp: acquire_try_write_def attempt_def Let_def)
  have run: "guard_step g (if b1 then g\<lparr>cell := s, owners := owners g + 1\<rparr> else g\<lparr>cell := s\<rparr>)"
    using s guard_step.write_ok [of g s] guard_step.write_fail [of g s] by (cases b1) simp_all
  show "owners h = 1 \<and> guard_inv h \<and> guard_runs g h" if b
  proof -
    have h: "h = g\<lparr>cell := s, owners := owners g + 1\<rparr>" "b1"
      using assms(1) s that by (cases b1; simp add: acquire_try_write_def attempt_def Let_def)+
    then have st: "guard_step g h" "roomy g h"
      using run by (simp_all add: roomy_def)
    then show ?thesis
      using guard_step_inv(1) [OF st(1) _ st(2) assms(4)] assms(2) v h(1)
      by (auto simp: no_writer_def flat_inv_def roomy_step_def)
  qed
  show "queued h \<and> held h = held (between g) \<and> guard_runs g h" if "\<not> b"
  proof -
    have sg: "s = cell g"
      using s b1 assms(1) that
      by (auto simp: try_write_acquire_def rw_update_eq acquire_try_write_def attempt_def split: if_splits)
    let ?k = "between g"
    have h: "h = ?k\<lparr>cell := snd (try_write_queue (cell ?k))\<rparr>"
      using assms(1) s that sg by (cases b1) (simp_all add: acquire_try_write_def attempt_def Let_def)
    have k: "no_writer ?k" "guard_runs g ?k"
      using calmD [OF assms(3,2,4)] by simp_all
    obtain b2 s2 where s2: "try_write_queue (cell ?k) = (b2, s2)"
      by fastforce
    have st: "guard_step ?k h" "roomy ?k h"
      using guard_step.write_queue [OF s2] h s2 by (simp_all add: roomy_def)
    have "flat_inv h" "writers h = 0"
      using guard_step_inv(2) [OF st(1) _ st(2) assms(4)] k(1) h
      by (simp_all add: no_writer_def flat_inv_def writers_def)
    moreover have "rw_view (cell h) = (rw_view (cell ?k))\<lparr>vq := True\<rparr>"
      using write_view(2) [OF len s2] h s2 by simp
    moreover have "guard_runs g h"
      using k(2) st by (simp add: roomy_step_def rtranclp.rtrancl_into_rtrancl)
    ultimately show ?thesis
      by (simp add: queued_def no_writer_def held_def bits del: rw_view_sel)
  qed
qed

lemma queued_keeps_out:
  fixes g :: "('w::len word) rw_sys"
  assumes "queued g" "4 < LENGTH('w)"
  shows "acquire_try_read g = (False, g)" "acquire_try_upgradable_read g = (False, g)"
  using assms queued_refuses_readers [of "cell g"]
  by (simp_all add: queued_def acquire_try_read_def acquire_try_upgradable_read_def attempt_def
      expect_bits del: rw_view_sel)

lemma wait_simps [simp]:
  "wait (may_break_with_impl t) [] g = Spinning g"
  "wait (may_break_with_impl t) (f # fs) g =
     (case t (snd f) (fst f g) of (True, h) \<Rightarrow> Acquired h | (False, h) \<Rightarrow> wait (may_break_with_impl t) fs h)"
  by (cases f; simp add: wait_def split: prod.split bool.split)+

lemma kept_out_spins:
  fixes g :: "('w::len word) rw_sys"
  assumes "\<And>g :: 'w word rw_sys. queued g \<Longrightarrow> try_acquire g = (False, g)"
    "queued g" "\<forall>f\<in>set fs. calm (fst f)" "4 < LENGTH('w)"
  shows "\<exists>h. wait (may_break_with_impl (\<lambda>_. try_acquire)) fs g = Spinning h \<and> held h \<le> held g"
  using assms(2,3)
proof (induction fs arbitrary: g)
  case (Cons f fs)
  have "queued (fst f g) \<and> held (fst f g) \<le> held g"
    using calmD [OF _ _ assms(4), of "fst f" g] Cons.prems by (simp add: queued_def)
  with Cons.IH [of "fst f g"] Cons.prems show ?case
    using assms(1) by fastforce
qed simp

lemma queued_write_waits:
  fixes g :: "('w::len word) rw_sys"
  assumes "queued g" "guard_reachable roomy g"
    "\<forall>f\<in>set fs. calm (fst f) \<and> calm (snd f) \<and> (\<forall>g. queued g \<and> 0 < held g \<longrightarrow> held (fst f g) < held g)"
    "0 < length fs" "held g \<le> length fs" "4 < LENGTH('w)"
  shows "\<exists>h. wait may_break_write fs g = Acquired h \<and> guard_reachable roomy h \<and> owners h = 1"
  using assms(1-5)
proof (induction fs arbitrary: g)
  case (Cons f fs)
  let ?g = "fst f g"
  have q: "queued ?g" "no_writer ?g" "guard_reachable roomy ?g" "held ?g \<le> held g - 1"
  proof -
    have f: "calm (fst f)" "0 < held g \<Longrightarrow> held (fst f g) < held g"
      using Cons.prems(1,3) by simp_all
    note c = calmD [OF f(1) _ assms(6), of g]
    show "queued ?g" "no_writer ?g"
      using c Cons.prems(1) by (simp_all add: queued_def)
    show "guard_reachable roomy ?g"
      using c(2) Cons.prems(1,2) runs_reachable by (simp add: queued_def)
    show "held ?g \<le> held g - 1"
      using c(3) f(2) Cons.prems(1) by (cases "held g = 0") (simp_all add: queued_def)
  qed
  obtain b h where h: "acquire_try_write (snd f) ?g = (b, h)"
    by fastforce
  have calm: "calm (snd f)"
    using Cons.prems(3) by simp
  note w = queued_attempt [OF h q(2) calm assms(6)]
  show ?case
  proof (cases b)
    case True
    then show ?thesis
      using h w runs_reachable [OF _ q(3)] by (auto simp: may_break_write_def)
  next
    case False
    have "held (snd f ?g) \<le> held ?g"
      using calmD(3) [OF calm q(2) assms(6) q(1)] by simp
    moreover have "0 < held ?g"
      using w(1) False by simp
    ultimately have "\<exists>h'. wait may_break_write fs h = Acquired h' \<and> guard_reachable roomy h' \<and> owners h' = 1"
      using Cons.prems q(4) w(3) [OF False] runs_reachable [OF _ q(3)]
      by (intro Cons.IH) (auto simp: Suc_le_eq)
    with False h show ?thesis
      by (simp add: may_break_write_def)
  qed
qed simp

lemma cancelled_write_queued:
  fixes g :: "('w::len word) rw_sys"
  assumes "may_break_write rs g = Cancelled h" "\<forall>r\<in>set rs. calm (fst r) \<and> calm (fst (snd r))" "no_writer g" "4 < LENGTH('w)"
  shows "queued h"
  using assms(1-3)
proof (induction rs arbitrary: g)
  case (Cons r rs)
  obtain b k where k: "acquire_try_write (fst (snd r)) (fst r g) = (b, k)"
    by fastforce
  have c: "calm (fst (snd r))" "no_writer (fst r g)"
    using calmD(1) [OF _ Cons.prems(3) assms(4)] Cons.prems(2) by simp_all
  note w = queued_attempt [OF k c(2,1) assms(4)]
  have "\<not> b"
    using k Cons.prems(1) by (cases r) (auto simp: may_break_write_def)
  then have q: "queued k"
    using w(3) by simp
  show ?case
  proof (cases "snd (snd r)")
    case True
    then show ?thesis
      using k \<open>\<not> b\<close> q Cons.prems(1) by (cases r) (simp add: may_break_write_def)
  next
    case False
    then have "may_break_write rs k = Cancelled h"
      using k \<open>\<not> b\<close> Cons.prems(1) by (cases r) (simp add: may_break_write_def)
    then show ?thesis
      using Cons.IH [of k] Cons.prems(2) q by (simp add: queued_def)
  qed
qed (simp add: may_break_write_def)

lemma reachable_no_writer:
  "guard_reachable flat g \<Longrightarrow> writers g = 0 \<Longrightarrow> 4 < LENGTH('w::len) \<Longrightarrow> no_writer (g :: 'w word rw_sys)"
  by (simp add: no_writer_def flat_reachable_inv)

section \<open>Upgrades\<close>

text \<open>An upgrade does not queue: a failed attempt leaves no trace, so readers keep coming in.\<close>

lemma failed_upgrade_traceless: "try_upgrade_mut_to_writer g = (False, h) \<Longrightarrow> h = g"
  by (auto simp: try_upgrade_mut_to_writer_def attempt_def try_upgrade_upgradable_to_write_def rw_update_eq
      split: prod.splits bool.splits if_splits)

lemma upgrade_attempt:
  fixes g :: "('w::len word) rw_sys"
  assumes "flat_inv g" "upgs g = 1" "4 < LENGTH('w)"
  shows "fst (try_upgrade_mut_to_writer g) = (readers g = 0)"
proof -
  have len: "3 < LENGTH('w)"
    using assms(3) by simp
  have "fst (try_upgrade_upgradable_to_write (cell g)) = (readers g = 0)"
    using assms(1,2) by (auto simp: flat_inv_def try_upgrade_upgradable_to_write_def rw_update_eq
        expect_bits [OF len] reader_count [OF len] simp del: rw_view_sel)
  then show ?thesis
    by (cases "try_upgrade_upgradable_to_write (cell g)")
      (auto simp: try_upgrade_mut_to_writer_def attempt_def split: bool.split)
qed

lemma upgrade_starves:
  fixes g :: "('w::len word) rw_sys"
  assumes "flat_inv g" "upgs g = 1" "4 < LENGTH('w)"
    "\<forall>r\<in>set rs. \<not> snd (snd r)
       \<and> (\<forall>g. flat_inv g \<and> upgs g = 1 \<longrightarrow> flat_inv (fst r g) \<and> upgs (fst r g) = 1 \<and> 0 < readers (fst r g))"
  shows "\<exists>h. upgrade_with_cancel rs g = Spinning h \<and> upgs h = 1"
  using assms(1,2,4)
proof (induction rs arbitrary: g)
  case (Cons r rs)
  let ?g = "fst r g"
  have g: "flat_inv ?g" "upgs ?g = 1" "0 < readers ?g" "\<not> snd (snd r)"
    using Cons.prems by auto
  obtain b h where h: "try_upgrade_mut_to_writer ?g = (b, h)"
    by fastforce
  then have "\<not> b" "h = ?g"
    using upgrade_attempt [OF g(1,2) assms(3)] g(3) failed_upgrade_traceless by auto
  then show ?case
    using Cons g h by (cases r) simp
qed simp

section \<open>Properties\<close>

text \<open>
  C7: Writers come first. A thread waits for the writer guard while others hold reader and upgradable
  guards, and nobody takes the lock for writing: otherwise the others may attempt, acquire, drop and
  downgrade as they like, before an attempt and between its two updates (but for taking an upgradable guard
  at the limit of the count). The first attempt gets the guard or leaves the queued bit set; let \<open>n\<close> be the
  number of guards alive at that moment (the lock's count), with any reader that slipped in between the two
  updates. If from then on some guard goes before each further attempt while there is one, the wait returns with the guard after at most
  \<open>n\<close> of them (one, if \<open>n\<close> is zero), whatever new readers try, and the lock is then the writer's alone.
\<close>

theorem write_wait_returns:
  fixes g :: "('w::len word) rw_sys"
  assumes "guard_reachable flat g" "writers g = 0" "4 < LENGTH('w)"
    "\<forall>f\<in>set (f0 # fs). calm (fst f) \<and> calm (snd f)"
    "\<forall>f\<in>set fs. \<forall>g. queued g \<and> 0 < held g \<longrightarrow> held (fst f g) < held g"
    "fs \<noteq> []" "held (snd f0 (fst f0 g)) \<le> length fs"
  shows "\<exists>h. wait may_break_write (f0 # fs) g = Acquired h \<and> guard_reachable roomy h
    \<and> owners h = 1 \<and> borrows h = 0 \<and> readers h = 0 \<and> upgs h = 0"
proof -
  let ?g = "fst f0 g"
  note g = calmD [OF _ reachable_no_writer [OF assms(1-3)] assms(3), of "fst f0"]
  have f: "no_writer ?g" "guard_reachable roomy ?g" "calm (snd f0)"
    using g assms(4) runs_reachable flat_reachable_inv [OF assms(1,3)] by auto
  obtain b h where h: "acquire_try_write (snd f0) ?g = (b, h)"
    by fastforce
  note w = queued_attempt [OF h f(1,3) assms(3)]
  have "\<exists>h. wait may_break_write (f0 # fs) g = Acquired h \<and> guard_reachable roomy h \<and> owners h = 1"
  proof (cases b)
    case True
    then show ?thesis
      using h w runs_reachable [OF _ f(2)] by (auto simp: may_break_write_def)
  next
    case False
    then have "\<exists>h'. wait may_break_write fs h = Acquired h' \<and> guard_reachable roomy h' \<and> owners h' = 1"
      using assms(4-7) w(3) runs_reachable [OF _ f(2)] by (intro queued_write_waits) (auto simp: assms(3))
    with False h show ?thesis
      by (simp add: may_break_write_def)
  qed
  then obtain h' where h': "wait may_break_write (f0 # fs) g = Acquired h'" "guard_reachable roomy h'" "owners h' = 1"
    by blast
  have "guard_inv h'"
    using guard_reachable_inv [OF h'(2) assms(3)] .
  then show ?thesis
    using h' by (auto simp: guard_inv_def writers_def)
qed

text \<open>
  C8: A cancelled write locks readers out. When a wait for the writer guard is cancelled, its queued
  bit stays set although nobody waits for the lock any more. However the guards that are alive are used
  and dropped from there on, down to the last, a wait for a reader or an upgradable guard with the token
  that never cancels spins and never returns, for as long as no other writer takes the lock.
\<close>

theorem cancelled_write_blocks_readers:
  fixes g :: "('w::len word) rw_sys"
  assumes "guard_reachable flat g" "writers g = 0" "4 < LENGTH('w)"
    "\<forall>r\<in>set rs. calm (fst r) \<and> calm (fst (snd r))"
    "may_break_write rs g = Cancelled g1" "\<forall>f\<in>set fs. calm (fst f)"
  shows "(\<exists>h. wait may_break_read fs g1 = Spinning h \<and> held h \<le> held g1)
    \<and> (\<exists>h. wait may_break_upgradable_read fs g1 = Spinning h \<and> held h \<le> held g1)"
  using cancelled_write_queued [OF assms(5,4) reachable_no_writer [OF assms(1-3)] assms(3)]
  unfolding may_break_read_def may_break_upgradable_read_def
  by (intro conjI kept_out_spins queued_keeps_out assms(3,6))

text \<open>One reader is alive; it goes when somebody makes it.\<close>

definition one_reader :: "8 word rw_sys" where
  "one_reader = \<lparr>cell = 1, readers = 1, upgs = 0, owners = 0, borrows = 0\<rparr>"

definition drop_one :: "8 word rw_sys \<Rightarrow> 8 word rw_sys" where
  "drop_one g =
     (if 0 < writers g then g
      else if 0 < readers g then g\<lparr>cell := snd (decrease_reader_count (cell g)), readers := readers g - 1\<rparr>
      else if 0 < upgs g then g\<lparr>cell := snd (on_upgradable_read_drop (cell g)), upgs := upgs g - 1\<rparr> else g)"

lemma drop_one_calm: "calm drop_one" "calm (id :: 8 word rw_sys \<Rightarrow> _)"
proof -
  have "drop_one g = g \<or> calm_step g (drop_one g)" for g
    using guard_step.reader_drop [of g] guard_step.upgradable_drop [of g]
    by (cases "decrease_reader_count (cell g)"; cases "on_upgradable_read_drop (cell g)")
      (auto simp: drop_one_def calm_step_def roomy_step_def roomy_def writers_def)
  then show "calm drop_one" "calm (id :: 8 word rw_sys \<Rightarrow> _)"
    unfolding calm_def by (metis r_into_rtranclp rtranclp.rtrancl_refl) simp
qed

lemma drop_one_drops:
  assumes "queued g" "0 < held g"
  shows "held (drop_one g) < held g"
proof -
  have c: "no_writer g" "no_writer (drop_one g)"
    using assms(1) calmD(1) [OF drop_one_calm(1)] by (simp_all add: queued_def)
  have h: "held k = readers k + upgs k" if "no_writer k" for k :: "8 word rw_sys"
    using that by (simp add: no_writer_def flat_inv_def held_def reader_count del: rw_view_sel)
  show ?thesis
    using assms(2) c h [OF c(1)] h [OF c(2)] by (auto simp: drop_one_def no_writer_def)
qed

lemma one_reader_reachable: "guard_reachable flat one_reader" "writers one_reader = 0" "held one_reader = 1"
  using reachable_reader by (simp_all add: one_reader_def writers_def held_def lock_defs mask_eq_exp_minus_1)

theorem write_wait_returns_witness:
  "\<exists>h. wait may_break_write [(id, id), (drop_one, id)] one_reader = Acquired h \<and> owners h = 1"
  using write_wait_returns [OF one_reader_reachable(1,2), of "(id, id)" "[(drop_one, id)]"] drop_one_calm
    drop_one_drops one_reader_reachable(3)
  by fastforce

text \<open>Cancelled beside that reader, the wait leaves the word \<open>0x41\<close>: one reader, and the queued bit.\<close>

definition left_queued :: "8 word rw_sys" where
  "left_queued = one_reader\<lparr>cell := 0x41\<rparr>"

lemma cancelled_demo: "may_break_write [(id, id, True)] one_reader = Cancelled left_queued"
  by code_simp

lemma kept_out_demo:
  "wait may_break_read [(drop_one, id), (id, id), (id, id)] left_queued = Spinning (left_queued\<lparr>cell := 0x40, readers := 0\<rparr>)"
  by code_simp

theorem cancelled_write_blocks_readers_witness:
  "may_break_write [(id, id, True)] one_reader = Cancelled left_queued
   \<and> wait may_break_read [(drop_one, id), (id, id), (id, id)] left_queued
     = Spinning (left_queued\<lparr>cell := 0x40, readers := 0\<rparr>)
   \<and> (\<exists>h. wait may_break_upgradable_read [(drop_one, id), (id, id), (id, id)] left_queued = Spinning h)"
  using cancelled_demo kept_out_demo drop_one_calm
    cancelled_write_blocks_readers [OF one_reader_reachable(1,2), of "[(id, id, True)]" left_queued
      "[(drop_one, id), (id, id), (id, id)]"]
  by fastforce

text \<open>
  A reader may slip in between the two updates: beside one reader the wait below needs two more attempts, one
  for each of the guards that are alive when its bit is set.
\<close>

definition slip_in :: "8 word rw_sys \<Rightarrow> 8 word rw_sys" where
  "slip_in g = snd (acquire_try_read g)"

lemma slipped_in_demo:
  "wait may_break_write [(id, slip_in), (drop_one, slip_in), (drop_one, id)] one_reader
     = Acquired \<lparr>cell = 0xC0, readers = 0, upgs = 0, owners = 1, borrows = 0\<rparr>"
  "\<exists>h. wait may_break_write [(id, slip_in), (drop_one, id)] one_reader = Spinning h"
proof -
  show "wait may_break_write [(id, slip_in), (drop_one, slip_in), (drop_one, id)] one_reader
     = Acquired \<lparr>cell = 0xC0, readers = 0, upgs = 0, owners = 1, borrows = 0\<rparr>"
    by code_simp
  have "wait may_break_write [(id, slip_in), (drop_one, id)] one_reader
      = Spinning \<lparr>cell = 0x41, readers = 1, upgs = 0, owners = 0, borrows = 0\<rparr>"
    by code_simp
  then show "\<exists>h. wait may_break_write [(id, slip_in), (drop_one, id)] one_reader = Spinning h"
    by blast
qed


end
