(* ===== verification/Atomex.thy ===== *)
theory Atomex
  imports Atomic_Flags
begin

text \<open>
  The other cells of \<open>atomex\<close>: atomic pointers (\<open>crates/atomex/src/atomex_ptr_.rs\<close>) over the loop of
  \<open>Atomic_Flags\<close>, and atomic counters (\<open>atomic_count_.rs\<close>) over the wrapping fetch-and-add of the
  standard library. A pointer is an option, \<open>None\<close> the null pointer.
\<close>

section \<open>Pointers\<close>

text \<open>\<open>NonNull::new_unchecked\<close> of a null pointer is undefined behaviour, here a panic.\<close>

fun non_null :: "'p option \<Rightarrow> 'p run" where
  "non_null (Some p) = Done p"
| "non_null None = Panic ''new_unchecked''"

definition ptr_try_reset :: "'p option schedule \<Rightarrow> 'p option \<Rightarrow> ('p option, 'p) rust_result run \<times> 'p option" where
  "ptr_try_reset sch cell =
     (case try_spin_compare_exchange_weak sch cell (\<lambda>p. p \<noteq> None) (\<lambda>_. None) of
        (r, cell') \<Rightarrow> (case cx_into_result r of Inl x \<Rightarrow> Done (Inl x) | Inr x \<Rightarrow> run_map Inr (non_null x), cell'))"

definition ptr_compare_and_reset ::
    "'p option schedule \<Rightarrow> 'p option \<Rightarrow> 'p \<Rightarrow> ('p option, 'p) rust_result run \<times> 'p option" where
  "ptr_compare_and_reset sch cell p =
     (case try_spin_compare_exchange_weak sch cell (\<lambda>x. x = Some p) (\<lambda>_. None) of
        (r, cell') \<Rightarrow> (case cx_into_result r of Inl x \<Rightarrow> Done (Inl x) | Inr x \<Rightarrow> run_map Inr (non_null x), cell'))"

definition ptr_try_init ::
    "'p option schedule \<Rightarrow> 'p option \<Rightarrow> 'p \<Rightarrow> ('p, 'p option) rust_result run \<times> 'p option" where
  "ptr_try_init sch cell p =
     (case try_spin_compare_exchange_weak sch cell (\<lambda>x. x = None) (\<lambda>_. Some p) of
        (r, cell') \<Rightarrow> (case cx_into_result r of Inl x \<Rightarrow> run_map Inl (non_null x) | Inr x \<Rightarrow> Done (Inr x), cell'))"

text \<open>What the loop reports, without the schedule's indices.\<close>

lemma spin_cases:
  obtains (updated) v where "expect v" "try_spin_compare_exchange_weak sch cell expect desire = (Succ v, desire v)"
  | (refused) v w where "\<not> expect v" "try_spin_compare_exchange_weak sch cell expect desire = (Unexpected v, w)"
  using spin_loop_outcome [of expect desire sch cell cell]
  unfolding try_spin_compare_exchange_weak_def spin_outcome_def Let_def by blast

text \<open>The unchecked conversions are safe under every contention.\<close>

lemma ptr_never_null:
  "\<not> panics (fst (ptr_try_reset sch cell))" "\<not> panics (fst (ptr_compare_and_reset sch cell p))"
  "\<not> panics (fst (ptr_try_init sch cell p))"
proof -
  show "\<not> panics (fst (ptr_try_reset sch cell))"
    by (rule spin_cases [of "\<lambda>p. p \<noteq> None" sch cell "\<lambda>_. None"]) (auto simp: ptr_try_reset_def)
  show "\<not> panics (fst (ptr_compare_and_reset sch cell p))"
    by (rule spin_cases [of "\<lambda>x. x = Some p" sch cell "\<lambda>_. None"]) (auto simp: ptr_compare_and_reset_def)
  show "\<not> panics (fst (ptr_try_init sch cell p))"
    by (rule spin_cases [of "\<lambda>x. x = None" sch cell "\<lambda>_. Some p"]) (auto simp: ptr_try_init_def)
qed

text \<open>
  Threads that only initialise a pointer agree on it: whether a call of \<open>try_spin_init\<close> wins or loses,
  the pointer it is left with is the one that is in the cell, and stays there.
\<close>

lemma env_after_kept:
  assumes "\<forall>r\<in>set sch. \<forall>q. fst r (Some q) = Some q" "env_after j sch cell = Some q" "j \<le> k"
  shows "env_after k sch cell = Some q"
proof -
  have "fold fst rs (Some q) = Some q" if "set rs \<subseteq> set sch" for rs
    using that assms(1) by (induction rs) auto
  moreover have "take k sch = take j sch @ take (k - j) (drop j sch)"
    using assms(3) by (metis le_add_diff_inverse take_add)
  ultimately show ?thesis
    using assms(2) by (simp add: env_after_def set_drop_subset set_take_subset order_trans [OF set_take_subset])
qed

lemma init_once:
  assumes "\<forall>r\<in>set sch. \<forall>q. fst r (Some q) = Some q"
  shows "ptr_try_init sch cell p = (Done (Inr None), Some p)
    \<or> (\<exists>q. ptr_try_init sch cell p = (Done (Inl q), Some q))"
proof -
  consider (won) "try_spin_compare_exchange_weak sch cell (\<lambda>x. x = None) (\<lambda>_. Some p) = (Succ None, Some p)"
    | (lost) j k q where "j \<le> k" "env_after j sch cell = Some q"
      "try_spin_compare_exchange_weak sch cell (\<lambda>x. x = None) (\<lambda>_. Some p) = (Unexpected (Some q), env_after k sch cell)"
    using spin_loop_outcome [of "\<lambda>x. x = None" "\<lambda>_. Some p" sch cell cell]
    unfolding try_spin_compare_exchange_weak_def spin_outcome_def Let_def
    by (metis env_after_0 le0 not_None_eq)
  then show ?thesis
  proof cases
    case won
    then show ?thesis
      by (simp add: ptr_try_init_def)
  next
    case lost
    then show ?thesis
      using env_after_kept [OF assms lost(2,1)] by (simp add: ptr_try_init_def)
  qed
qed

section \<open>Counters\<close>

text \<open>Each operation returns the value before it.\<close>

definition count_add :: "'w::len word \<Rightarrow> 'w word \<Rightarrow> 'w word \<times> 'w word" where
  "count_add val cell = (cell, cell + val)"

definition count_sub :: "'w::len word \<Rightarrow> 'w word \<Rightarrow> 'w word \<times> 'w word" where
  "count_sub val cell = (cell, cell - val)"

definition count_inc :: "'w::len word \<Rightarrow> 'w word \<times> 'w word" where
  "count_inc = count_add 1"

definition count_dec :: "'w::len word \<Rightarrow> 'w word \<times> 'w word" where
  "count_dec = count_sub 1"

text \<open>The increments and decrements of all threads, in the order in which they take effect.\<close>

fun counted :: "bool list \<Rightarrow> 'w::len word \<Rightarrow> 'w word list \<times> 'w word" where
  "counted [] cell = ([], cell)"
| "counted (up # ups) cell =
     (case (if up then count_inc cell else count_dec cell) of
        (v, cell') \<Rightarrow> (case counted ups cell' of (vs, cell'') \<Rightarrow> (v # vs, cell'')))"

lemma counted_Cons:
  "fst (counted (up # ups) cell) = cell # fst (counted ups (if up then cell + 1 else cell - 1))"
  "snd (counted (up # ups) cell) = snd (counted ups (if up then cell + 1 else cell - 1))"
  by (auto simp: count_inc_def count_dec_def count_add_def count_sub_def split: prod.splits)

declare counted.simps(2) [simp del] counted_Cons [simp]

lemma counted_balance:
  "snd (counted ups cell) = cell + of_nat (length (filter (\<lambda>up. up) ups)) - of_nat (length (filter Not ups))"
proof (induction ups arbitrary: cell)
  case (Cons up ups)
  then have "snd (counted (up # ups) cell)
      = (if up then cell + 1 else cell - 1) + of_nat (length (filter (\<lambda>up. up) ups)) - of_nat (length (filter Not ups))"
    by (simp only: counted_Cons)
  then show ?case
    by (cases up) (simp_all add: algebra_simps)
qed simp

text \<open>Increments alone hand out different values until the width is exhausted.\<close>

lemma tickets: "fst (counted (replicate n True) cell) = map (\<lambda>i. cell + of_nat i) [0..<n]"
proof (induction n arbitrary: cell)
  case (Suc n)
  have "map (\<lambda>i. cell + of_nat i) [0..<Suc n] = cell # map (\<lambda>i. cell + 1 + of_nat i) [0..<n]"
    by (simp add: upt_rec [of 0] map_Suc_upt [symmetric] add.assoc comp_def del: upt_Suc map_Suc_upt)
  then show ?case
    using Suc [of "cell + 1"] by simp
qed simp

lemma tickets_distinct:
  fixes cell :: "'w::len word"
  assumes "n \<le> 2 ^ LENGTH('w)"
  shows "distinct (fst (counted (replicate n True) cell))"
proof -
  have "inj_on (\<lambda>i. cell + of_nat i) {0..<n}"
  proof (rule inj_onI)
    fix i j
    assume "i \<in> {0..<n}" "j \<in> {0..<n}" "cell + of_nat i = cell + of_nat j"
    then have "unat (of_nat i :: 'w word) = unat (of_nat j :: 'w word)" "i < 2 ^ LENGTH('w)" "j < 2 ^ LENGTH('w)"
      using assms by auto
    then show "i = j"
      by (simp add: unat_of_nat)
  qed
  then show ?thesis
    by (simp add: tickets distinct_map)
qed

end
