(* ===== verification/Atomex_Fetch.thy ===== *)
theory Atomex_Fetch
  imports Atomex "HOL-Library.Multiset"
begin

unbundle bit_operations_syntax

text \<open>
  The cells of \<open>atomex\<close> and their fetch operations (\<open>crates/atomex/src/atomic_cell_.rs\<close>, \<open>fetch.rs\<close>): the
  macro gives every standard atomic the same operations, and all of them are atomic. A cell of width
  one is \<open>AtomicBool\<close>. Memory orderings are not modelled: the operations of all threads take effect one
  after the other.
\<close>

section \<open>The operations\<close>

text \<open>Each operation returns the value before it.\<close>

definition cell_store :: "'v \<Rightarrow> 'v \<Rightarrow> 'v" where
  "cell_store val cell = val"

definition cell_swap :: "'v \<Rightarrow> 'v \<Rightarrow> 'v \<times> 'v" where
  "cell_swap val cell = (cell, val)"

definition cell_compare_exchange :: "'v \<Rightarrow> 'v \<Rightarrow> 'v \<Rightarrow> ('v, 'v) rust_result \<times> 'v" where
  "cell_compare_exchange current desired cell =
     (if cell = current then (Inr cell, desired) else (Inl cell, cell))"

definition fetch_and :: "'w::len word \<Rightarrow> 'w word \<Rightarrow> 'w word \<times> 'w word" where
  "fetch_and val cell = (cell, cell AND val)"

definition fetch_nand :: "'w::len word \<Rightarrow> 'w word \<Rightarrow> 'w word \<times> 'w word" where
  "fetch_nand val cell = (cell, NOT (cell AND val))"

definition fetch_or :: "'w::len word \<Rightarrow> 'w word \<Rightarrow> 'w word \<times> 'w word" where
  "fetch_or val cell = (cell, cell OR val)"

definition fetch_xor :: "'w::len word \<Rightarrow> 'w word \<Rightarrow> 'w word \<times> 'w word" where
  "fetch_xor val cell = (cell, cell XOR val)"

definition fetch_add :: "'w::len word \<Rightarrow> 'w word \<Rightarrow> 'w word \<times> 'w word" where
  "fetch_add val cell = (cell, cell + val)"

definition fetch_sub :: "'w::len word \<Rightarrow> 'w word \<Rightarrow> 'w word \<times> 'w word" where
  "fetch_sub val cell = (cell, cell - val)"

text \<open>\<open>Max\<close> and \<open>Min\<close> compare as the primitive type does: the unsigned ones, and the signed ones.\<close>

definition fetch_max :: "'w::len word \<Rightarrow> 'w word \<Rightarrow> 'w word \<times> 'w word" where
  "fetch_max val cell = (cell, max cell val)"

definition fetch_min :: "'w::len word \<Rightarrow> 'w word \<Rightarrow> 'w word \<times> 'w word" where
  "fetch_min val cell = (cell, min cell val)"

definition fetch_smax :: "'w::len word \<Rightarrow> 'w word \<Rightarrow> 'w word \<times> 'w word" where
  "fetch_smax val cell = (cell, if sint cell \<le> sint val then val else cell)"

definition fetch_smin :: "'w::len word \<Rightarrow> 'w word \<Rightarrow> 'w word \<times> 'w word" where
  "fetch_smin val cell = (cell, if sint cell \<le> sint val then cell else val)"

text \<open>
  \<open>try_update\<close> of the standard library, under the schedules of \<open>Atomic_Flags\<close>: it asks the function for the
  next value and tries to exchange it, as long as the function gives one.
\<close>

function update_loop ::
    "('v \<Rightarrow> 'v option) \<Rightarrow> 'v schedule \<Rightarrow> 'v \<Rightarrow> 'v \<Rightarrow> ('v, 'v) rust_result \<times> 'v" where
  "update_loop f sch prev cell =
     (case f prev of
        None \<Rightarrow> (Inl prev, sched_env sch cell)
      | Some nxt \<Rightarrow>
          (case compare_exchange_weak (sched_spurious sch) (sched_env sch cell) prev nxt of
             (Inr x, cell') \<Rightarrow> (Inr x, cell')
           | (Inl x, cell') \<Rightarrow> update_loop f (tl sch) x cell'))"
  by pat_completeness auto
termination
proof (relation "measures [\<lambda>(_, sch, _, _). length sch, \<lambda>(_, _, prev, cell). if prev = cell then 0 else 1]", goal_cases)
  case 1
  show ?case
    by simp
next
  case (2 f sch prev cell)
  then show ?case
    by (cases sch) (auto simp: compare_exchange_weak_def split: if_splits)
qed

declare update_loop.simps [simp del]

definition fetch_update ::
    "('v \<Rightarrow> 'v option) \<Rightarrow> 'v schedule \<Rightarrow> 'v \<Rightarrow> ('v, 'v) rust_result \<times> 'v" where
  "fetch_update f sch cell = update_loop f sch cell cell"

section \<open>The update loop is the loop of the flags\<close>

lemma update_loop_spin:
  "update_loop f sch prev cell =
     (case spin_loop (\<lambda>v. f v \<noteq> None) (\<lambda>v. the (f v)) sch prev cell of (r, c) \<Rightarrow> (cx_into_result r, c))"
proof (induction f sch prev cell rule: update_loop.induct)
  case (1 f sch prev cell)
  then show ?case
    by (auto simp: update_loop.simps [of f sch] spin_loop.simps [of _ _ sch] try_once_compare_exchange_weak_def
        compare_exchange_weak_def split: option.splits)
qed

lemma fetch_update_spin:
  "fetch_update f sch cell =
     (case try_spin_compare_exchange_weak sch cell (\<lambda>v. f v \<noteq> None) (\<lambda>v. the (f v)) of (r, c) \<Rightarrow> (cx_into_result r, c))"
  by (simp add: fetch_update_def update_loop_spin try_spin_compare_exchange_weak_def)

text \<open>
  So it takes effect at one instant: an \<open>Ok\<close> stored what the function gives for the value that it
  reports, an \<open>Err\<close> reports a value without a successor.
\<close>

lemma spin_linearizable_aux:
  "\<exists>k. expect (env_after k sch cell)
       \<and> try_spin_compare_exchange_weak sch cell expect desire
         = (Succ (env_after k sch cell), desire (env_after k sch cell))
     \<or> (\<exists>j\<le>k. \<not> expect (env_after j sch cell)
         \<and> try_spin_compare_exchange_weak sch cell expect desire
           = (Unexpected (env_after j sch cell), env_after k sch cell))"
  using spin_loop_outcome [of expect desire sch cell cell]
  unfolding try_spin_compare_exchange_weak_def spin_outcome_def Let_def by (metis env_after_0 le0)

lemma fetch_update_linearizes:
  obtains (stored) k v' where "f (env_after k sch cell) = Some v'"
      "fetch_update f sch cell = (Inr (env_after k sch cell), v')"
  | (refused) j k where "j \<le> k" "f (env_after j sch cell) = None"
      "fetch_update f sch cell = (Inl (env_after j sch cell), env_after k sch cell)"
proof -
  let ?e = "\<lambda>v. f v \<noteq> None" and ?d = "\<lambda>v. the (f v)"
  from spin_linearizable_aux [where sch = sch and cell = cell and expect = ?e and desire = ?d] show thesis
  proof (elim exE disjE conjE)
    fix k
    assume "?e (env_after k sch cell)"
      "try_spin_compare_exchange_weak sch cell ?e ?d = (Succ (env_after k sch cell), ?d (env_after k sch cell))"
    then show thesis
      using stored [of k "?d (env_after k sch cell)"] by (simp add: fetch_update_spin)
  next
    fix k j
    assume "j \<le> k" "\<not> ?e (env_after j sch cell)"
      "try_spin_compare_exchange_weak sch cell ?e ?d = (Unexpected (env_after j sch cell), env_after k sch cell)"
    then show thesis
      using refused [of j k] by (simp add: fetch_update_spin)
  qed
qed

text \<open>Every fetch operation is this loop with a function that always gives a value.\<close>

lemma fetch_is_update:
  assumes "\<And>c. fst (op c) = c"
  shows "\<exists>k. fetch_update (\<lambda>v. Some (snd (op v))) sch cell = map_prod Inr id (op (env_after k sch cell))"
proof (rule fetch_update_linearizes [of "\<lambda>v. Some (snd (op v))" sch cell])
  fix k v'
  assume "Some (snd (op (env_after k sch cell))) = Some v'"
    "fetch_update (\<lambda>v. Some (snd (op v))) sch cell = (Inr (env_after k sch cell), v')"
  then show ?thesis
    using assms [of "env_after k sch cell"] by (intro exI [of _ k]) (simp add: map_prod_def case_prod_beta)
qed simp

text \<open>A bounded counter by \<open>fetch_update\<close> keeps its bound, as long as the other threads do.\<close>

lemma fetch_update_bound:
  fixes limit :: "'w::len word"
  assumes "cell \<le> limit" "\<forall>r\<in>set sch. \<forall>v. v \<le> limit \<longrightarrow> fst r v \<le> limit"
    "fetch_update (\<lambda>v. if v < limit then Some (v + 1) else None) sch cell = (res, cell')"
  shows "cell' \<le> limit" "res = Inl v \<Longrightarrow> v = limit"
proof -
  have e: "env_after k sch cell \<le> limit" for k
  proof -
    have "fold fst rs c \<le> limit" if "set rs \<subseteq> set sch" "c \<le> limit" for rs c
      using that assms(2) by (induction rs arbitrary: c) auto
    then show ?thesis
      using assms(1) set_take_subset unfolding env_after_def by metis
  qed
  show "cell' \<le> limit"
    by (rule fetch_update_linearizes [of "\<lambda>v. if v < limit then Some (v + 1) else None" sch cell])
      (use e assms(3) in \<open>auto simp: inc_le split: if_splits\<close>)
  show "v = limit" if "res = Inl v"
    by (rule fetch_update_linearizes [of "\<lambda>v. if v < limit then Some (v + 1) else None" sch cell])
      (use e assms(3) that in \<open>auto simp: not_less order.antisym split: if_splits\<close>)
qed

section \<open>Many threads\<close>

text \<open>The operations of all threads in the order in which they take effect: what each returns, and the cell.\<close>

fun fetches :: "('v \<Rightarrow> 'v \<times> 'v) list \<Rightarrow> 'v \<Rightarrow> 'v list \<times> 'v" where
  "fetches [] cell = ([], cell)"
| "fetches (op # ops) cell =
     (case op cell of (v, cell') \<Rightarrow> (case fetches ops cell' of (vs, cell'') \<Rightarrow> (v # vs, cell'')))"

lemma fetches_Cons:
  "fst (fetches (op # ops) c) = fst (op c) # fst (fetches ops (snd (op c)))"
  "snd (fetches (op # ops) c) = snd (fetches ops (snd (op c)))"
  by (simp_all split: prod.splits)

declare fetches.simps(2) [simp del] fetches_Cons [simp]

text \<open>An operation that returns the old value and commutes with itself: the order is not visible in the cell.\<close>

locale fetch_op =
  fixes fetch :: "'v \<Rightarrow> 'v \<Rightarrow> 'v \<times> 'v"
  assumes returns_old: "fst (fetch x c) = c"
    and commutes: "snd (fetch x (snd (fetch y c))) = snd (fetch y (snd (fetch x c)))"
begin

lemma fetches_fold: "snd (fetches (map fetch xs) c) = fold (\<lambda>x c. snd (fetch x c)) xs c"
  by (induction xs arbitrary: c) (simp_all add: returns_old)

lemma order_invisible:
  assumes "mset xs = mset ys"
  shows "snd (fetches (map fetch xs) c) = snd (fetches (map fetch ys) c)"
  unfolding fetches_fold
  by (rule fun_cong [OF fold_multiset_equiv [OF _ assms]]) (simp add: commutes fun_eq_iff)

text \<open>What a thread gets back is the cell after the operations before its own.\<close>

lemma fetches_nth:
  "i < length xs \<Longrightarrow> fst (fetches (map fetch xs) c) ! i = snd (fetches (map fetch (take i xs)) c)"
proof (induction xs arbitrary: c i)
  case (Cons x xs)
  then show ?case
    by (cases i) (simp_all add: returns_old)
qed simp

end

interpretation f_and: fetch_op fetch_and
  by unfold_locales (simp_all add: fetch_and_def ac_simps)

interpretation f_or: fetch_op fetch_or
  by unfold_locales (simp_all add: fetch_or_def ac_simps)

interpretation f_xor: fetch_op fetch_xor
  by unfold_locales (simp_all add: fetch_xor_def ac_simps)

interpretation f_add: fetch_op fetch_add
  by unfold_locales (simp_all add: fetch_add_def ac_simps)

interpretation f_sub: fetch_op fetch_sub
  by unfold_locales (simp_all add: fetch_sub_def)

interpretation f_max: fetch_op fetch_max
  by unfold_locales (simp_all add: fetch_max_def ac_simps)

interpretation f_min: fetch_op fetch_min
  by unfold_locales (simp_all add: fetch_min_def ac_simps)

interpretation f_smax: fetch_op fetch_smax
  by unfold_locales (auto simp: fetch_smax_def intro: signed_word_eqI)

interpretation f_smin: fetch_op fetch_smin
  by unfold_locales (auto simp: fetch_smin_def dest: signed_word_eqI)

text \<open>\<open>Nand\<close> is the exception.\<close>

lemma nand_order_visible:
  "snd (fetches (map fetch_nand [0, 1]) (0 :: u8)) \<noteq> snd (fetches (map fetch_nand [1, 0]) 0)"
  by code_simp

section \<open>What the threads see\<close>

text \<open>
  A bit set by \<open>fetch_or\<close> has one winner: among all threads that set it, exactly one is told that it was
  not set before, and none when it was.
\<close>

lemma or_one_winner:
  fixes c :: "'w::len word"
  shows "length (filter (\<lambda>(m, v). bit m b \<and> \<not> bit v b) (zip ms (fst (fetches (map fetch_or ms) c))))
     = (if \<not> bit c b \<and> (\<exists>m\<in>set ms. bit m b) then 1 else 0)"
proof (induction ms arbitrary: c)
  case (Cons m ms)
  show ?case
    using Cons [of "c OR m"]
    by (auto simp: fetch_or_def bit_simps)
qed simp

lemma or_bits:
  fixes c :: "'w::len word"
  shows "bit (snd (fetches (map fetch_or ms) c)) b = (bit c b \<or> (\<exists>m\<in>set ms. bit m b))"
proof (induction ms arbitrary: c)
  case (Cons m ms)
  show ?case
    using Cons [of "c OR m"]
    by (auto simp: fetch_or_def bit_simps)
qed simp

text \<open>Clearing what was set gives the cell back when nothing of it was set before.\<close>

lemma or_and_restores:
  fixes c m :: "'w::len word"
  assumes "c AND m = 0"
  shows "snd (fetch_and (NOT m) (snd (fetch_or m c))) = c"
proof (rule bit_word_eqI)
  fix n
  assume "n < LENGTH('w)"
  moreover have "\<not> (bit c n \<and> bit m n)"
    using arg_cong [OF assms, of "\<lambda>w. bit w n"] by (simp add: bit_simps)
  ultimately show "bit (snd (fetch_and (NOT m) (snd (fetch_or m c)))) n = bit c n"
    by (auto simp: fetch_and_def fetch_or_def bit_simps)
qed

text \<open>A bit that is toggled counts the toggles modulo two.\<close>

lemma xor_bits:
  fixes c :: "'w::len word"
  shows "bit (snd (fetches (map fetch_xor ms) c)) b = (bit c b \<noteq> odd (length (filter (\<lambda>m. bit m b) ms)))"
proof (induction ms arbitrary: c)
  case (Cons m ms)
  show ?case
    using Cons [of "c XOR m"]
    by (auto simp: fetch_xor_def bit_simps)
qed simp

text \<open>A running maximum: the cell is the greatest value offered, and what the threads see only grows.\<close>

lemma max_final: "snd (fetches (map fetch_max xs) c) = Max (insert c (set xs))"
proof (induction xs arbitrary: c)
  case (Cons x xs)
  have "Max (insert (max c x) (set xs)) = Max (insert c (insert x (set xs)))"
    by (cases "xs = []") (simp_all add: ac_simps)
  then show ?case
    using Cons [of "max c x"]
    by (simp add: fetch_max_def)
qed simp

lemma max_seen: "sorted (fst (fetches (map fetch_max xs) c)) \<and> (\<forall>v\<in>set (fst (fetches (map fetch_max xs) c)). c \<le> v)"
proof (induction xs arbitrary: c)
  case (Cons x xs)
  let ?vs = "fst (fetches (map fetch_max xs) (max c x))"
  have vs: "fst (fetches (map fetch_max (x # xs)) c) = c # ?vs"
    by (simp add: fetch_max_def)
  have "sorted ?vs" "\<forall>v\<in>set ?vs. c \<le> v"
    using Cons [of "max c x"] by (blast, meson max.boundedE)
  then show ?case
    unfolding vs by simp
qed simp

lemma min_final: "snd (fetches (map fetch_min xs) c) = Min (insert c (set xs))"
proof (induction xs arbitrary: c)
  case (Cons x xs)
  have "Min (insert (min c x) (set xs)) = Min (insert c (insert x (set xs)))"
    by (cases "xs = []") (simp_all add: ac_simps)
  then show ?case
    using Cons [of "min c x"]
    by (simp add: fetch_min_def)
qed simp

text \<open>Sums wrap, and what is added and taken again is gone.\<close>

lemma add_sub_final:
  "snd (fetches (map fetch_add xs) c) = c + sum_list xs" "snd (fetches (map fetch_sub xs) c) = c - sum_list xs"
proof -
  show "snd (fetches (map fetch_add xs) c) = c + sum_list xs"
    by (induction xs arbitrary: c)
      (simp_all add: fetch_add_def add.assoc)
  show "snd (fetches (map fetch_sub xs) c) = c - sum_list xs"
    by (induction xs arbitrary: c)
      (simp_all add: fetch_sub_def diff_diff_eq)
qed

text \<open>A value that is swapped in is handed to exactly one thread, or stays: nothing is lost or duplicated.\<close>

lemma swap_conserves:
  "case fetches (map cell_swap xs) c of (vs, c') \<Rightarrow> mset vs + {#c'#} = mset xs + {#c#}"
proof (induction xs arbitrary: c)
  case (Cons x xs)
  show ?case
    using Cons [of x] by (simp add: cell_swap_def case_prod_beta)
qed simp

text \<open>Of all threads that exchange the same value for their own, at most the first succeeds.\<close>

lemma exchange_once:
  assumes "\<forall>x\<in>set xs. x \<noteq> old"
  shows "fold (\<lambda>x c. snd (cell_compare_exchange old x c)) xs old = (case xs of [] \<Rightarrow> old | x # _ \<Rightarrow> x)"
proof -
  have "fold (\<lambda>x c. snd (cell_compare_exchange old x c)) ys y = y" if "y \<noteq> old" for ys y
    using that by (induction ys) (simp_all add: cell_compare_exchange_def)
  then show ?thesis
    using assms by (cases xs) (simp_all add: cell_compare_exchange_def)
qed

end
