(* ===== verification/Demand.thy ===== *)
theory Demand
  imports Cantare_Prelude
begin

text \<open>
  The \<open>Demand\<close> type of \<open>abs_buff\<close> (\<open>crates/abs_buff/src/demand_.rs\<close>): the interval of
  amounts an operation asks for. The constructors panic where the source panics, the
  intersection \<open>compromise\<close> keeps the source's match arms in their order, and the lemmas
  say when it is the intersection of the two intervals and when it panics. The last part
  models \<open>take_segm_ref\<close> / \<open>take_segm_mut\<close>, which cut a child segment out of a segment by
  a demand.
\<close>

section \<open>Intervals\<close>

datatype 'a demand =
    AtLeast 'a
  | LessThan 'a
  | Range 'a 'a

datatype 'a bound = Included 'a | Excluded 'a | Unbounded

fun demand_min :: "'a demand \<Rightarrow> 'a option" where
  "demand_min (AtLeast l) = Some l"
| "demand_min (Range l _) = Some l"
| "demand_min _ = None"

fun demand_max :: "'a demand \<Rightarrow> 'a option" where
  "demand_max (LessThan u) = Some u"
| "demand_max (Range _ u) = Some u"
| "demand_max _ = None"

text \<open>The \<open>RangeBounds\<close> implementation.\<close>

fun start_bound :: "'a demand \<Rightarrow> 'a bound" where
  "start_bound (AtLeast x) = Included x"
| "start_bound (LessThan _) = Unbounded"
| "start_bound (Range x _) = Included x"

fun end_bound :: "'a demand \<Rightarrow> 'a bound" where
  "end_bound (AtLeast _) = Unbounded"
| "end_bound (LessThan x) = Excluded x"
| "end_bound (Range _ x) = Excluded x"

fun above_start :: "'a::linorder bound \<Rightarrow> 'a \<Rightarrow> bool" where
  "above_start (Included b) x = (b \<le> x)"
| "above_start (Excluded b) x = (b < x)"
| "above_start Unbounded x = True"

fun below_end :: "'a::linorder bound \<Rightarrow> 'a \<Rightarrow> bool" where
  "below_end (Included b) x = (x \<le> b)"
| "below_end (Excluded b) x = (x < b)"
| "below_end Unbounded x = True"

text \<open>Membership, as the standard library's \<open>RangeBounds::contains\<close> reads the two bounds.\<close>

definition demand_mem :: "'a::linorder demand \<Rightarrow> 'a \<Rightarrow> bool" where
  "demand_mem d x = (above_start (start_bound d) x \<and> below_end (end_bound d) x)"

lemma demand_mem_simps [simp]:
  "demand_mem (AtLeast l) x = (l \<le> x)"
  "demand_mem (LessThan u) x = (x < u)"
  "demand_mem (Range l u) x = (l \<le> x \<and> x < u)"
  by (auto simp: demand_mem_def)

text \<open>What every constructor of the source establishes: a range is not empty.\<close>

fun demand_wf :: "'a::linorder demand \<Rightarrow> bool" where
  "demand_wf (Range l u) = (l < u)"
| "demand_wf _ = True"

section \<open>Constructors\<close>

definition demand_between :: "'a::linorder \<Rightarrow> 'a \<Rightarrow> 'a demand run" where
  "demand_between a b =
     (if a < b then Done (Range a b)
      else if b < a then Done (Range b a)
      else Panic ''Cannot accept 0 len range.'')"

definition demand_exactly :: "'w::len word \<Rightarrow> 'w word demand run" where
  "demand_exactly v =
     (if v = 0 then Panic ''A demand cannot accept 0.''
      else if v < -1 then Done (Range v (v + 1))
      else Done (AtLeast v))"

definition range_start :: "'w::len word bound \<Rightarrow> 'w word option" where
  "range_start b =
     (case b of Included v \<Rightarrow> Some v
      | Excluded v \<Rightarrow> checked_add v 1
      | Unbounded \<Rightarrow> Some 0)"

definition range_end :: "'w::len word bound \<Rightarrow> 'w word option" where
  "range_end b =
     (case b of Included v \<Rightarrow> checked_add v 1
      | Excluded v \<Rightarrow> Some v
      | Unbounded \<Rightarrow> Some (-1))"

definition try_from_usize_range ::
    "'w::len word bound \<Rightarrow> 'w word bound
     \<Rightarrow> ('w word bound \<times> 'w word bound, 'w word demand) rust_result run" where
  "try_from_usize_range sb eb =
     (case (range_start sb, range_end eb) of
        (Some l, Some u) \<Rightarrow>
          (if l < u then run_map Inr (demand_between l u) else Done (Inl (sb, eb)))
      | _ \<Rightarrow> Done (Inl (sb, eb)))"

fun demand_len :: "usize demand \<Rightarrow> usize" where
  "demand_len (AtLeast l) = -1 - l"
| "demand_len (LessThan u) = u"
| "demand_len (Range l u) = u - l"

lemma demand_between_wf: "demand_between a b = Done d \<Longrightarrow> demand_wf d"
  by (auto simp: demand_between_def split: if_splits)

lemma demand_between_lt [simp]: "a < b \<Longrightarrow> demand_between a b = Done (Range a b)"
  by (simp add: demand_between_def)

lemma panics_demand_between [simp]: "panics (demand_between a b) = (a = b)"
  by (auto simp: demand_between_def)

lemma max_word_not_less [simp]: "\<not> (-1 :: 'w::len word) < v"
  by (simp add: not_less)

lemma demand_exactly_wf: "demand_exactly v = Done d \<Longrightarrow> demand_wf d"
  by (auto simp: demand_exactly_def less_plus_one_word split: if_splits)

section \<open>Intersection\<close>

fun demand_compromise :: "'a::linorder demand \<Rightarrow> 'a demand \<Rightarrow> 'a demand option run" where
  "demand_compromise (AtLeast a) (AtLeast b) = Done (Some (AtLeast (max a b)))"
| "demand_compromise (LessThan a) (LessThan b) = Done (Some (LessThan (min a b)))"
| "demand_compromise (AtLeast a) (LessThan b) =
     (if a \<le> b then run_map Some (demand_between a b) else Done None)"
| "demand_compromise (LessThan b) (AtLeast a) =
     (if a \<le> b then run_map Some (demand_between a b) else Done None)"
| "demand_compromise (AtLeast a) (Range c d) =
     (if a \<le> d then run_map Some (demand_between (max a c) d) else Done None)"
| "demand_compromise (Range c d) (AtLeast a) =
     (if a \<le> d then run_map Some (demand_between (max a c) d) else Done None)"
| "demand_compromise (LessThan b) (Range c d) =
     (if c \<le> b then run_map Some (demand_between c (min b d)) else Done None)"
| "demand_compromise (Range c d) (LessThan b) =
     (if c \<le> b then run_map Some (demand_between c (min b d)) else Done None)"
| "demand_compromise (Range a b) (Range c d) =
     (if b \<le> c \<or> d \<le> a then Done None
      else
        (let lower = max a c; upper = min b d
         in if lower \<le> upper then run_map Some (demand_between lower upper) else Done None))"

text \<open>
  Two demands touch when the lower bound of one is the exclusive upper bound of the other
  and at most one of them is a two-sided range: the case the guards \<open>a <= b\<close>, \<open>a <= d\<close> and
  \<open>c <= b\<close> of the source let through to \<open>between\<close> with two equal arguments.
\<close>

fun demand_touch :: "'a::linorder demand \<Rightarrow> 'a demand \<Rightarrow> bool" where
  "demand_touch (AtLeast a) (LessThan b) = (a = b)"
| "demand_touch (LessThan b) (AtLeast a) = (a = b)"
| "demand_touch (AtLeast a) (Range c d) = (a = d)"
| "demand_touch (Range c d) (AtLeast a) = (a = d)"
| "demand_touch (LessThan b) (Range c d) = (c = b)"
| "demand_touch (Range c d) (LessThan b) = (c = b)"
| "demand_touch _ _ = False"

definition opt_mem :: "'a::linorder demand option \<Rightarrow> 'a \<Rightarrow> bool" where
  "opt_mem r x = (case r of None \<Rightarrow> False | Some d \<Rightarrow> demand_mem d x)"

lemma opt_mem_simps [simp]: "opt_mem None x = False" "opt_mem (Some d) x = demand_mem d x"
  by (auto simp: opt_mem_def)

lemma compromise_commute: "demand_compromise d e = demand_compromise e d"
  by (cases d; cases e) (auto simp: max.commute min.commute Let_def)

lemma compromise_wf:
  "demand_compromise d e = Done (Some f) \<Longrightarrow> demand_wf f"
  by (cases d; cases e) (auto simp: Let_def dest: demand_between_wf split: if_splits)

lemma compromise_opt_mem:
  assumes "demand_wf d" "demand_wf e" "demand_compromise d e = Done r"
  shows "opt_mem r x = (demand_mem d x \<and> demand_mem e x)"
  using assms by (cases d; cases e) (auto simp: demand_between_def Let_def split: if_splits)

lemma panics_compromise:
  assumes "demand_wf d" "demand_wf e"
  shows "panics (demand_compromise d e) = demand_touch d e"
  using assms by (cases d; cases e) (auto simp: Let_def max_def min_def)

section \<open>Cutting a child segment by a demand\<close>

text \<open>
  \<open>SegmRef::take_segm_ref\<close> and \<open>SegmMut::take_segm_mut\<close>: the length of the child cut from a
  segment with \<open>c\<close> items left. The slice \<open>[offset .. offset + max_len]\<close> panics when it leaves
  the segment.
\<close>

definition take_child_len :: "usize demand \<Rightarrow> usize \<Rightarrow> usize option run" where
  "take_child_len d c =
     (if c = 0 then Done None
      else run_bind (demand_compromise d (LessThan c))
        (\<lambda>agreement. case agreement of None \<Rightarrow> Done None
           | Some a \<Rightarrow> (case demand_max a of None \<Rightarrow> Done None
               | Some m \<Rightarrow> if m \<le> c then Done (Some m) else Panic ''slice index'')))"

lemma compromise_less_than_max:
  assumes "demand_wf d" "demand_compromise d (LessThan c) = Done (Some a)"
  obtains m where "demand_max a = Some m" "m \<le> c"
  using assms by (cases d) (auto simp: demand_between_def split: if_splits)

text \<open>The slice itself never leaves the segment; what panics is the intersection.\<close>

lemma panics_take_child_len:
  assumes "demand_wf d" "c \<noteq> 0"
  shows "panics (take_child_len d c) = demand_touch d (LessThan c)"
proof (cases "demand_compromise d (LessThan c)")
  case (Panic m)
  then show ?thesis
    using assms panics_compromise [of d "LessThan c"] by (simp add: take_child_len_def)
next
  case (Done r)
  then have "\<not> demand_touch d (LessThan c)"
    using assms panics_compromise [of d "LessThan c"] by simp
  moreover have "\<not> panics (take_child_len d c)"
    using Done assms
    by (auto simp: take_child_len_def split: option.splits
        elim!: compromise_less_than_max [OF assms(1), of c])
  ultimately show ?thesis
    by simp
qed

lemma take_child_len_le:
  "take_child_len d c = Done (Some m) \<Longrightarrow> m \<le> c"
  by (auto simp: take_child_len_def split: if_splits option.splits)

section \<open>Properties\<close>

lemma demand_exactly_mem:
  "demand_exactly v = Done d \<Longrightarrow> demand_mem d x = (x = v)"
  by (auto simp: demand_exactly_def less_plus_one_iff split: if_splits)

text \<open>
  C10: Whenever \<open>Demand::compromise\<close> returns, its answer is the exact intersection of the two
  demands: an amount lies in the returned demand iff it lies in both arguments, and \<open>None\<close> is
  returned only when no amount satisfies both. The returned demand is again a non-empty range.
\<close>

theorem compromise_is_intersection:
  assumes "demand_wf d" "demand_wf e" "demand_compromise d e = Done r"
  shows "(\<forall>x. opt_mem r x = (demand_mem d x \<and> demand_mem e x))
       \<and> (case r of None \<Rightarrow> True | Some f \<Rightarrow> demand_wf f)"
  using assms compromise_opt_mem [OF assms] compromise_wf [of d e]
  by (auto split: option.splits)

theorem compromise_is_intersection_witness:
  "(\<forall>x. opt_mem (Some (Range 4 8)) x
        = (demand_mem (Range (2::usize) 8) x \<and> demand_mem (AtLeast 4) x))"
  using compromise_is_intersection [of "Range (2::usize) 8" "AtLeast 4" "Some (Range 4 8)"]
  by simp

text \<open>
  \<open>Demand::compromise\<close> panics exactly when the two demands touch: one starts at the
  exclusive upper bound of the other (as \<open>at_least(n)\<close> with \<open>less_than(n)\<close>, or \<open>less_than(c)\<close>
  with \<open>exactly(c)\<close>). Its guards use \<open><=\<close> where the empty intersection needs \<open><\<close>, so
  \<open>between\<close> is reached with two equal bounds instead of the arm that returns \<open>None\<close>.
\<close>

theorem compromise_panics_iff_touch:
  assumes "demand_wf d" "demand_wf e"
  shows "panics (demand_compromise d e) = demand_touch d e"
  by (rule panics_compromise [OF assms])

theorem compromise_panics_iff_touch_witness:
  "panics (demand_compromise (Range (3::usize) 4) (LessThan 3))"
  using compromise_panics_iff_touch [of "Range (3::usize) 4" "LessThan 3"] by simp

lemma range_start_Some: "range_start sb = Some l \<Longrightarrow> above_start sb x = (l \<le> x)"
  by (cases sb) (auto simp: range_start_def checked_add_one plus_one_le_iff split: if_splits)

lemma range_start_None: "range_start sb = None \<Longrightarrow> \<not> above_start sb x"
  by (cases sb) (auto simp: range_start_def checked_add_one split: if_splits)

lemma range_end_Some:
  "range_end eb = Some u \<Longrightarrow> (below_end eb x \<and> (eb = Unbounded \<longrightarrow> x \<noteq> -1)) = (x < u)"
  by (cases eb) (auto simp: range_end_def checked_add_one less_plus_one_iff split: if_splits)

lemma range_end_None: "range_end eb = None \<Longrightarrow> eb = Included (-1)"
  by (cases eb) (auto simp: range_end_def checked_add_one split: if_splits)

text \<open>
  \<open>Demand::try_from_usize_range\<close> never panics. On success the demand holds exactly the
  amounts of the range, except that an unbounded end excludes \<open>MAX\<close>; it fails, handing the two
  bounds back, exactly when the range ends with \<open>..=MAX\<close> or holds no amount below \<open>MAX\<close>.
\<close>

theorem try_from_usize_range_spec:
  "\<exists>r. try_from_usize_range sb eb = Done r \<and>
     (case r of
        Inr d \<Rightarrow> demand_wf d \<and> (\<forall>x. demand_mem d x
                   = (above_start sb x \<and> below_end eb x \<and> (eb = Unbounded \<longrightarrow> x \<noteq> -1)))
      | Inl e \<Rightarrow> e = (sb, eb) \<and>
          (eb = Included (-1) \<or> (\<forall>x. x \<noteq> -1 \<longrightarrow> \<not> (above_start sb x \<and> below_end eb x))))"
proof (cases "range_start sb")
  case None
  then show ?thesis
    by (simp add: try_from_usize_range_def range_start_None)
next
  case start: (Some l)
  show ?thesis
  proof (cases "range_end eb")
    case None
    with start show ?thesis
      by (simp add: try_from_usize_range_def range_end_None)
  next
    case (Some u)
    have sem: "(above_start sb x \<and> below_end eb x \<and> (eb = Unbounded \<longrightarrow> x \<noteq> -1))
        = (l \<le> x \<and> x < u)" for x
      using range_start_Some [OF start, of x] range_end_Some [OF Some, of x] by blast
    show ?thesis
    proof (cases "l < u")
      case True
      then show ?thesis
        using start Some sem by (simp add: try_from_usize_range_def)
    next
      case False
      then have "\<not> (l \<le> x \<and> x < u)" for x
        by auto
      then have "x \<noteq> -1 \<Longrightarrow> \<not> (above_start sb x \<and> below_end eb x)" for x
        using sem by blast
      then show ?thesis
        using start Some False by (simp add: try_from_usize_range_def)
    qed
  qed
qed

theorem try_from_usize_range_spec_witness:
  "try_from_usize_range (Included (0::usize)) (Included (-1)) = Done (Inl (Included 0, Included (-1)))"
  using try_from_usize_range_spec [of "Included (0::usize)" "Included (-1)"]
  by (simp add: try_from_usize_range_def range_start_def range_end_def checked_add_one)

text \<open>
  Cutting a child segment with \<open>Demand::exactly(n)\<close> from a segment with \<open>c\<close> items left
  never yields the \<open>n\<close> items asked for: with more than \<open>n\<close> left it yields \<open>n + 1\<close> (the exclusive
  upper bound is used as the length), with exactly \<open>n\<close> left it panics, with fewer it yields
  \<open>None\<close>.
\<close>

theorem take_exactly_never_exact:
  assumes "demand_exactly n = Done d" "n \<noteq> -1"
  shows "take_child_len d c =
     (if c \<le> n then (if c = n then Panic ''Cannot accept 0 len range.'' else Done None)
      else Done (Some (n + 1)))"
proof -
  from assms have d: "d = Range n (n + 1)" and "n \<noteq> 0"
    by (auto simp: demand_exactly_def split: if_splits)
  have lt: "n < n + 1"
    using assms(2) by (rule less_plus_one_word)
  consider "c < n" | "c = n" | "n < c"
    by fastforce
  then show ?thesis
  proof cases
    case 3
    then have "n + 1 \<le> c"
      using assms(2) by (simp add: plus_one_le_iff)
    then have "min c (n + 1) = n + 1"
      by (rule min.absorb2)
    with 3 lt show ?thesis
      using \<open>n + 1 \<le> c\<close> by (auto simp: take_child_len_def d demand_between_def)
  next
    case 2
    with lt \<open>n \<noteq> 0\<close> show ?thesis
      by (simp add: take_child_len_def d demand_between_def min_def less_imp_le)
  next
    case 1
    then show ?thesis
      by (auto simp: take_child_len_def d)
  qed
qed

theorem take_exactly_never_exact_witness:
  "take_child_len (Range 4 5) 10 = Done (Some 5)
   \<and> take_child_len (Range 4 5) 4 = Panic ''Cannot accept 0 len range.''"
  using take_exactly_never_exact [of 4 "Range 4 5" 10] take_exactly_never_exact [of 4 "Range 4 5" 4]
  by (simp add: demand_exactly_def)

end
