(* ===== verification/Segm.thy ===== *)
theory Segm
  imports Demand
begin

text \<open>
  Borrowed segments of \<open>abs_buff\<close> (\<open>crates/abs_buff/src/buffer/segm_.rs\<close>). The buffer a segment
  borrows is a range of a memory of possibly uninitialised cells (\<open>MaybeUninit\<close>), so a
  segment is a base address, a length and the consumed offset; moving items reads or writes
  the memory. A child segment borrows what is left of its parent and reports what it consumed
  to the parent's offset when it drops. Lengths are \<open>nat\<close>: a Rust slice is shorter than
  \<open>isize::MAX\<close>, so the additions of the code do not overflow.
\<close>

section \<open>Memory\<close>

type_synonym 'a memory = "'a option list"

definition mem_read :: "'a list \<Rightarrow> nat \<Rightarrow> nat \<Rightarrow> 'a list" where
  "mem_read m a n = take n (drop a m)"

definition mem_write :: "'a list \<Rightarrow> nat \<Rightarrow> 'a list \<Rightarrow> 'a list" where
  "mem_write m a xs = take a m @ xs @ drop (a + length xs) m"

lemma length_mem_read [simp]: "a + n \<le> length m \<Longrightarrow> length (mem_read m a n) = n"
  by (simp add: mem_read_def)

lemma length_mem_write [simp]: "a + length xs \<le> length m \<Longrightarrow> length (mem_write m a xs) = length m"
  by (simp add: mem_write_def)

lemma mem_write_Nil [simp]: "mem_write m a [] = m"
  by (simp add: mem_write_def)

lemma nth_mem_read: "a + n \<le> length m \<Longrightarrow> i < n \<Longrightarrow> mem_read m a n ! i = m ! (a + i)"
  by (simp add: mem_read_def)

lemma nth_mem_write:
  assumes "a + length xs \<le> length m" "i < length m"
  shows "mem_write m a xs ! i = (if a \<le> i \<and> i < a + length xs then xs ! (i - a) else m ! i)"
proof -
  consider "i < a" | "a \<le> i" "i < a + length xs" | "a + length xs \<le> i"
    by linarith
  then show ?thesis
    using assms by cases (auto simp: mem_write_def nth_append min_absorb2 less_diff_conv2)
qed

section \<open>Segments\<close>

record segm =
  sbase :: nat
  slen :: nat
  soff :: nat

definition segm_new :: "nat \<Rightarrow> nat \<Rightarrow> segm" where
  "segm_new base len = \<lparr>sbase = base, slen = len, soff = 0\<rparr>"

definition least_count :: "segm \<Rightarrow> nat" where
  "least_count s = slen s - soff s"

definition segm_is_empty :: "segm \<Rightarrow> bool" where
  "segm_is_empty s = (least_count s = 0)"

text \<open>\<open>iter_slices\<close>: the unconsumed part as one slice, or none.\<close>

definition iter_slices :: "'a list \<Rightarrow> segm \<Rightarrow> 'a list option" where
  "iter_slices m s =
     (let len = slen s - soff s
      in if len = 0 then None else Some (mem_read m (sbase s + soff s) len))"

text \<open>\<open>as_segm_ref\<close> / \<open>as_segm_mut\<close>: the unconsumed part as a child.\<close>

definition as_segm :: "segm \<Rightarrow> segm" where
  "as_segm s = segm_new (sbase s + soff s) (slen s - soff s)"

definition take_segm :: "segm \<Rightarrow> usize demand \<Rightarrow> segm option run" where
  "take_segm s d = run_map (map_option (\<lambda>m. segm_new (sbase s + soff s) (unat m)))
     (take_child_len d (of_nat (least_count s)))"

text \<open>
  \<open>SegmReclaim::reclaim\<close> adds the amount to the parent's offset and returns the amount before;
  a child calls it with its own offset when it drops.
\<close>

definition segm_reclaim :: "segm \<Rightarrow> nat \<Rightarrow> nat \<times> segm" where
  "segm_reclaim s amount = (soff s, s\<lparr>soff := soff s + amount\<rparr>)"

definition drop_child :: "segm \<Rightarrow> segm \<Rightarrow> segm" where
  "drop_child parent child = snd (segm_reclaim parent (soff child))"

text \<open>\<open>move_items_to_buff\<close> (and \<open>clone_items_to_buff\<close>, which leaves the offset alone).\<close>

definition move_items_to_buff :: "'a list \<Rightarrow> segm \<Rightarrow> 'a list \<Rightarrow> 'a list \<times> segm \<times> nat" where
  "move_items_to_buff m s dst =
     (let count = min (length dst) (least_count s)
      in if count = 0 then (dst, s, 0)
         else (mem_write dst 0 (mem_read m (sbase s + soff s) count),
               s\<lparr>soff := soff s + count\<rparr>, count))"

definition clone_items_to_buff :: "'a list \<Rightarrow> segm \<Rightarrow> 'a list \<Rightarrow> 'a list \<times> nat" where
  "clone_items_to_buff m s dst =
     (let count = min (length dst) (least_count s)
      in if count = 0 then (dst, 0)
         else (mem_write dst 0 (mem_read m (sbase s + soff s) count), count))"

text \<open>\<open>move_items_from_buff\<close> and \<open>clone_items_from_buff\<close> fill the segment in place.\<close>

definition move_items_from_buff :: "'a list \<Rightarrow> segm \<Rightarrow> 'a list \<Rightarrow> 'a list \<times> segm \<times> nat" where
  "move_items_from_buff m s src =
     (let count = min (least_count s) (length src)
      in if count = 0 then (m, s, 0)
         else (mem_write m (sbase s + soff s) (mem_read src 0 count),
               s\<lparr>soff := soff s + count\<rparr>, count))"

definition clone_items_from_buff :: "'a memory \<Rightarrow> segm \<Rightarrow> 'a list \<Rightarrow> 'a memory \<times> segm \<times> nat" where
  "clone_items_from_buff m s src =
     (let count = min (least_count s) (length src)
      in if count = 0 then (m, s, 0)
         else (mem_write m (sbase s + soff s) (map Some (take count src)),
               s\<lparr>soff := soff s + count\<rparr>, count))"

text \<open>
  \<open>move_items_to_segm\<close>: the target's free part is the destination buffer. Source and target
  borrow different memories.
\<close>

definition move_items_to_segm ::
    "'a list \<Rightarrow> segm \<Rightarrow> 'a list \<Rightarrow> segm \<Rightarrow> 'a list \<times> segm \<times> segm \<times> nat" where
  "move_items_to_segm m src tm tgt =
     (let dst = mem_read tm (sbase tgt + soff tgt) (least_count tgt);
          (dst', src', count) = move_items_to_buff m src dst
      in (mem_write tm (sbase tgt + soff tgt) dst', src', tgt\<lparr>soff := soff tgt + count\<rparr>, count))"

definition move_items_from_segm ::
    "'a list \<Rightarrow> segm \<Rightarrow> 'a list \<Rightarrow> segm \<Rightarrow> 'a list \<times> segm \<times> segm \<times> nat" where
  "move_items_from_segm tm tgt m src =
     (case move_items_to_segm m src tm tgt of (tm', src', tgt', count) \<Rightarrow> (tm', tgt', src', count))"

text \<open>\<open>clone_items_to_segm\<close> leaves the source as it is.\<close>

definition clone_items_to_segm :: "'a list \<Rightarrow> segm \<Rightarrow> 'a list \<Rightarrow> segm \<Rightarrow> 'a list \<times> segm \<times> nat" where
  "clone_items_to_segm m src tm tgt =
     (let dst = mem_read tm (sbase tgt + soff tgt) (least_count tgt);
          (dst', count) = clone_items_to_buff m src dst
      in (mem_write tm (sbase tgt + soff tgt) dst', tgt\<lparr>soff := soff tgt + count\<rparr>, count))"

section \<open>Well-formedness\<close>

text \<open>The segment lies in its memory and has consumed no more than its length.\<close>

definition segm_ok :: "'a list \<Rightarrow> segm \<Rightarrow> bool" where
  "segm_ok m s = (soff s \<le> slen s \<and> sbase s + slen s \<le> length m)"

lemma segm_ok_new: "base + len \<le> length m \<Longrightarrow> segm_ok m (segm_new base len)"
  by (simp add: segm_ok_def segm_new_def)

lemma segm_ok_as_segm: "segm_ok m s \<Longrightarrow> segm_ok m (as_segm s)"
  by (simp add: segm_ok_def segm_new_def as_segm_def)

lemma as_segm_least_count [simp]: "least_count (as_segm s) = least_count s"
  by (simp add: least_count_def segm_new_def as_segm_def)

lemma take_segm_ok:
  assumes "segm_ok m s" "take_segm s d = Done (Some t)" "slen s < 2 ^ 64"
  shows "segm_ok m t \<and> least_count t \<le> least_count s \<and> soff t = 0
       \<and> sbase t = sbase s + soff s"
proof -
  obtain l where l: "take_child_len d (of_nat (least_count s)) = Done (Some l)"
    and t: "t = segm_new (sbase s + soff s) (unat l)"
    using assms(2) by (auto simp: take_segm_def eq_commute [of "Some t"])
  have "least_count s < 2 ^ 64"
    using assms(3) by (simp add: least_count_def)
  then have "unat (of_nat (least_count s) :: usize) = least_count s"
    by (simp add: unat_of_nat)
  then have "unat l \<le> least_count s"
    using take_child_len_le [OF l] by (simp only: word_le_nat_alt)
  then show ?thesis
    using assms(1) by (auto simp: t segm_ok_def segm_new_def least_count_def)
qed

text \<open>Moving out: what arrives, what stays, and the new offset.\<close>

lemma move_items_to_buff_spec:
  assumes "segm_ok m s" "move_items_to_buff m s dst = (dst', s', n)"
  shows "n = min (length dst) (least_count s)"
    and "dst' = mem_read m (sbase s + soff s) n @ drop n dst"
    and "s' = s\<lparr>soff := soff s + n\<rparr>" and "segm_ok m s'"
    and "least_count s' = least_count s - n"
  using assms
  by (auto simp: move_items_to_buff_def Let_def mem_write_def mem_read_def segm_ok_def least_count_def
      split: if_splits)

lemma move_items_from_buff_spec:
  assumes "segm_ok m s" "move_items_from_buff m s src = (m', s', n)"
  shows "n = min (least_count s) (length src)"
    and "m' = mem_write m (sbase s + soff s) (take n src)"
    and "s' = s\<lparr>soff := soff s + n\<rparr>" and "segm_ok m' s'" and "length m' = length m"
    and "least_count s' = least_count s - n"
proof -
  show n: "n = min (least_count s) (length src)"
    and m': "m' = mem_write m (sbase s + soff s) (take n src)"
    and s': "s' = s\<lparr>soff := soff s + n\<rparr>"
    using assms by (auto simp: move_items_from_buff_def Let_def mem_read_def split: if_splits)
  have "sbase s + soff s + length (take n src) \<le> length m"
    using assms(1) n by (auto simp: segm_ok_def least_count_def)
  then show len: "length m' = length m"
    by (simp add: m')
  then show "segm_ok m' s'" "least_count s' = least_count s - n"
    using assms(1) n by (auto simp: s' segm_ok_def least_count_def)
qed

text \<open>A child that consumed \<open>n\<close> items and dropped leaves the parent as if it had moved them itself.\<close>

lemma child_move_to_buff:
  assumes "segm_ok m s" "move_items_to_buff m (as_segm s) dst = (dst', c, n)"
    "move_items_to_buff m s dst = (dst1, s1, n1)"
  shows "dst' = dst1 \<and> n = n1 \<and> drop_child s c = s1"
  using assms
  by (auto simp: move_items_to_buff_def Let_def as_segm_def segm_new_def drop_child_def
      segm_reclaim_def least_count_def split: if_splits)

lemma child_move_from_buff:
  assumes "segm_ok m s" "move_items_from_buff m (as_segm s) src = (m', c, n)"
    "move_items_from_buff m s src = (m1, s1, n1)"
  shows "m' = m1 \<and> n = n1 \<and> drop_child s c = s1"
  using assms
  by (auto simp: move_items_from_buff_def Let_def as_segm_def segm_new_def drop_child_def
      segm_reclaim_def least_count_def split: if_splits)

end
