(* ===== verification/Ring_Segm.thy ===== *)
theory Ring_Segm
  imports Segm
begin

text \<open>
  The two-piece segments of the ring buffer (\<open>crates/buffex/src/ring_buffer/reclaim_.rs\<close>): the
  region a ring lends may wrap around the end of the buffer and is then two slices that the
  borrower uses as one. The main lemmas say that moving items through such a segment is moving
  them through the list of its cell addresses, in order.
\<close>

section \<open>Cells by address\<close>

definition mem_get :: "'a list \<Rightarrow> nat list \<Rightarrow> 'a list" where
  "mem_get m as = map ((!) m) as"

fun mem_put :: "'a list \<Rightarrow> nat list \<Rightarrow> 'a list \<Rightarrow> 'a list" where
  "mem_put m (a # as) (x # xs) = mem_put (m[a := x]) as xs"
| "mem_put m _ _ = m"

lemma length_mem_put [simp]: "length (mem_put m as xs) = length m"
  by (induction m as xs rule: mem_put.induct) auto

lemma mem_put_append:
  "length as = length xs \<Longrightarrow> mem_put m (as @ bs) (xs @ ys) = mem_put (mem_put m as xs) bs ys"
  by (induction m as xs rule: mem_put.induct) auto

lemma nth_mem_put_other: "i \<notin> set as \<Longrightarrow> mem_put m as xs ! i = m ! i"
  by (induction m as xs rule: mem_put.induct) auto

lemma mem_get_put:
  "distinct as \<Longrightarrow> length as = length xs \<Longrightarrow> \<forall>a\<in>set as. a < length m \<Longrightarrow>
     mem_get (mem_put m as xs) as = xs"
proof (induction m as xs rule: mem_put.induct)
  case (1 m a as x xs)
  then show ?case
    by (simp add: mem_get_def nth_mem_put_other)
qed (auto simp: mem_get_def)

lemma mem_get_put_other: "set as \<inter> set bs = {} \<Longrightarrow> mem_get (mem_put m as xs) bs = mem_get m bs"
  by (auto simp: mem_get_def intro!: nth_mem_put_other)

lemma mem_get_append: "mem_get m (as @ bs) = mem_get m as @ mem_get m bs"
  by (simp add: mem_get_def)

lemma mem_read_get: "a + n \<le> length m \<Longrightarrow> mem_read m a n = mem_get m [a..<a + n]"
  by (intro nth_equalityI) (simp_all add: mem_get_def nth_mem_read)

lemma mem_write_put: "a + length xs \<le> length m \<Longrightarrow> mem_write m a xs = mem_put m [a..<a + length xs] xs"
proof (induction xs arbitrary: a m)
  case Nil
  then show ?case by simp
next
  case (Cons x xs)
  have "mem_write m a (x # xs) = mem_write (m[a := x]) (Suc a) xs"
    using Cons.prems by (intro nth_equalityI) (auto simp: nth_mem_write nth_list_update nth_Cons')
  also have "\<dots> = mem_put (m[a := x]) [Suc a..<Suc a + length xs] xs"
    using Cons.prems by (intro Cons.IH) simp
  also have "\<dots> = mem_put m [a..<a + length (x # xs)] (x # xs)"
    using upt_conv_Cons [of a "a + length (x # xs)"] by simp
  finally show ?case .
qed

section \<open>Pieces\<close>

type_synonym slice = "nat \<times> nat"

datatype pieces = One slice | Two slice slice

fun pieces_len :: "pieces \<Rightarrow> nat" where
  "pieces_len (One a) = snd a"
| "pieces_len (Two a b) = snd a + snd b"

text \<open>The slice \<open>s[offset..]\<close>.\<close>

definition slice_from :: "slice \<Rightarrow> nat \<Rightarrow> slice" where
  "slice_from s offset = (fst s + offset, snd s - offset)"

fun pieces_current :: "pieces \<Rightarrow> nat \<Rightarrow> slice" where
  "pieces_current (One a) offset = slice_from a offset"
| "pieces_current (Two a b) offset =
     (let la = snd a
      in if offset < la then slice_from a offset else slice_from b (offset - la))"

fun pieces_remaining :: "pieces \<Rightarrow> nat \<Rightarrow> slice list" where
  "pieces_remaining (One a) offset = [slice_from a offset, (0, 0)]"
| "pieces_remaining (Two a b) offset =
     (let la = snd a
      in if offset < la then [slice_from a offset, b] else [slice_from b (offset - la), (0, 0)])"

record recl =
  rpieces :: pieces
  roff :: nat

definition recl_new :: "pieces \<Rightarrow> recl" where
  "recl_new p = \<lparr>rpieces = p, roff = 0\<rparr>"

definition recl_least_count :: "recl \<Rightarrow> nat" where
  "recl_least_count r = pieces_len (rpieces r) - roff r"

definition recl_is_empty :: "recl \<Rightarrow> bool" where
  "recl_is_empty r = (recl_least_count r = 0)"

definition recl_capacity :: "recl \<Rightarrow> nat" where
  "recl_capacity r = pieces_len (rpieces r)"

definition recl_iter_slices :: "recl \<Rightarrow> slice list" where
  "recl_iter_slices r = filter (\<lambda>s. snd s \<noteq> 0) (pieces_remaining (rpieces r) (roff r))"

definition recl_as_segm :: "recl \<Rightarrow> segm" where
  "recl_as_segm r = (let s = pieces_current (rpieces r) (roff r) in segm_new (fst s) (snd s))"

definition recl_take_segm :: "recl \<Rightarrow> usize demand \<Rightarrow> segm option run" where
  "recl_take_segm r d =
     (let c = recl_least_count r
      in if c = 0 then Done None
         else run_bind (demand_compromise d (LessThan (of_nat c)))
           (\<lambda>agreement. case agreement of None \<Rightarrow> Done None
              | Some a \<Rightarrow> (case demand_max a of None \<Rightarrow> Done None
                  | Some max_len \<Rightarrow>
                      (let cur = pieces_current (rpieces r) (roff r);
                           take = min (unat max_len) (snd cur)
                       in Done (Some (segm_new (fst cur) take))))))"

text \<open>A child's drop adds what it consumed to the segment's offset.\<close>

definition recl_drop_child :: "recl \<Rightarrow> segm \<Rightarrow> recl" where
  "recl_drop_child r child = r\<lparr>roff := roff r + soff child\<rparr>"

text \<open>The addresses of the pieces, in the order they are used.\<close>

fun pieces_addrs :: "pieces \<Rightarrow> nat list" where
  "pieces_addrs (One a) = [fst a..<fst a + snd a]"
| "pieces_addrs (Two a b) = [fst a..<fst a + snd a] @ [fst b..<fst b + snd b]"

lemma length_pieces_addrs [simp]: "length (pieces_addrs p) = pieces_len p"
  by (cases p) auto

definition recl_ok :: "'a list \<Rightarrow> recl \<Rightarrow> bool" where
  "recl_ok m r = (roff r \<le> pieces_len (rpieces r) \<and> (\<forall>a\<in>set (pieces_addrs (rpieces r)). a < length m))"

lemma recl_current:
  assumes "roff r < pieces_len (rpieces r)" "pieces_current (rpieces r) (roff r) = (b, l)"
  shows "0 < l" "l \<le> recl_least_count r"
    and "take l (drop (roff r) (pieces_addrs (rpieces r))) = [b..<b + l]"
  using assms
  by (cases "rpieces r"; force simp: slice_from_def Let_def recl_least_count_def drop_upt take_upt
      split: if_splits)+

lemma recl_current_in_mem:
  assumes "recl_ok m r" "roff r < pieces_len (rpieces r)"
    "pieces_current (rpieces r) (roff r) = (b, l)"
  shows "b + l \<le> length m"
proof -
  have "b + (l - 1) \<in> set [b..<b + l]"
    using recl_current(1) [OF assms(2,3)] by auto
  then have "b + (l - 1) \<in> set (pieces_addrs (rpieces r))"
    unfolding recl_current(3) [OF assms(2,3), symmetric] by (meson in_set_dropD in_set_takeD)
  then show ?thesis
    using assms(1) recl_current(1) [OF assms(2,3)] by (auto simp: recl_ok_def)
qed

lemma recl_as_segm_ok:
  assumes "recl_ok m r" "0 < recl_least_count r"
  shows "segm_ok m (recl_as_segm r)" "0 < least_count (recl_as_segm r)"
proof -
  obtain b l where cur: "pieces_current (rpieces r) (roff r) = (b, l)"
    by fastforce
  have "roff r < pieces_len (rpieces r)"
    using assms(2) by (simp add: recl_least_count_def)
  from recl_current(1) [OF this cur] recl_current_in_mem [OF assms(1) this cur]
  show "segm_ok m (recl_as_segm r)" "0 < least_count (recl_as_segm r)"
    by (simp_all add: recl_as_segm_def cur segm_ok_def segm_new_def least_count_def)
qed

section \<open>Moving items through a segment\<close>

text \<open>
  The loops of \<open>TrBuffSegmMut::move_items_from_buff\<close> and \<open>TrBuffSegmRef::move_items_to_buff\<close>:
  a child per iteration on the current piece, until the segment or the buffer is used up.
\<close>

function recl_move_from :: "'a list \<Rightarrow> recl \<Rightarrow> 'a list \<Rightarrow> nat \<Rightarrow> 'a list \<times> recl \<times> nat" where
  "recl_move_from m r src c =
     (if 0 < recl_least_count r \<and> c < length src
      then (case move_items_from_buff m (recl_as_segm r) (drop c src) of
              (m', child, n) \<Rightarrow> recl_move_from m' (recl_drop_child r child) src (c + n))
      else (m, r, c))"
  by pat_completeness auto
termination
proof (relation "measure (\<lambda>(m, r, src, c). length src - c)", goal_cases)
  case (2 m r src c x y)
  obtain b l where cur: "pieces_current (rpieces r) (roff r) = (b, l)"
    by fastforce
  from 2 have "roff r < pieces_len (rpieces r)"
    by (simp add: recl_least_count_def)
  from recl_current(1) [OF this cur] 2 show ?case
    by (auto simp: move_items_from_buff_def recl_as_segm_def cur segm_new_def least_count_def Let_def
        split: if_splits)
qed simp

definition recl_move_items_from_buff :: "'a list \<Rightarrow> recl \<Rightarrow> 'a list \<Rightarrow> 'a list \<times> recl \<times> nat" where
  "recl_move_items_from_buff m r src = recl_move_from m r src 0"

function recl_move_to :: "'a list \<Rightarrow> recl \<Rightarrow> 'a list \<Rightarrow> nat \<Rightarrow> 'a list \<times> recl \<times> nat" where
  "recl_move_to m r dst c =
     (if 0 < recl_least_count r \<and> c < length dst
      then (case move_items_to_buff m (recl_as_segm r) (drop c dst) of
              (d, child, n) \<Rightarrow> recl_move_to m (recl_drop_child r child) (take c dst @ d) (c + n))
      else (dst, r, c))"
  by pat_completeness auto
termination
proof (relation "measure (\<lambda>(m, r, dst, c). length dst - c)", goal_cases)
  case (2 m r dst c x y)
  obtain b l where cur: "pieces_current (rpieces r) (roff r) = (b, l)"
    by fastforce
  from 2 have "roff r < pieces_len (rpieces r)"
    by (simp add: recl_least_count_def)
  from recl_current(1) [OF this cur] 2 show ?case
    by (auto simp: move_items_to_buff_def recl_as_segm_def cur segm_new_def least_count_def Let_def
        mem_write_def mem_read_def split: if_splits)
qed simp

definition recl_move_items_to_buff :: "'a list \<Rightarrow> recl \<Rightarrow> 'a list \<Rightarrow> 'a list \<times> recl \<times> nat" where
  "recl_move_items_to_buff m r dst = recl_move_to m r dst 0"

declare recl_move_from.simps [simp del] recl_move_to.simps [simp del]

text \<open>One iteration: the child works on a prefix of the remaining addresses.\<close>

lemma recl_child_addrs:
  assumes "0 < recl_least_count r" "n \<le> least_count (recl_as_segm r)"
  shows "take n (drop (roff r) (pieces_addrs (rpieces r)))
       = [sbase (recl_as_segm r)..<sbase (recl_as_segm r) + n]"
    and "least_count (recl_as_segm r) \<le> recl_least_count r" "soff (recl_as_segm r) = 0"
proof -
  obtain b l where cur: "pieces_current (rpieces r) (roff r) = (b, l)"
    by fastforce
  have "roff r < pieces_len (rpieces r)"
    using assms(1) by (simp add: recl_least_count_def)
  note c = recl_current [OF this cur]
  have "n \<le> l"
    using assms(2) by (simp add: recl_as_segm_def cur segm_new_def least_count_def)
  then have "take n (drop (roff r) (pieces_addrs (rpieces r))) = take n [b..<b + l]"
    by (simp add: c(3) [symmetric] min_absorb1)
  then show "take n (drop (roff r) (pieces_addrs (rpieces r)))
       = [sbase (recl_as_segm r)..<sbase (recl_as_segm r) + n]"
    using \<open>n \<le> l\<close> by (simp add: recl_as_segm_def cur segm_new_def)
  show "least_count (recl_as_segm r) \<le> recl_least_count r" "soff (recl_as_segm r) = 0"
    using c(2) by (simp_all add: recl_as_segm_def cur segm_new_def least_count_def)
qed

lemma recl_ok_drop_child:
  "recl_ok m r \<Longrightarrow> n \<le> recl_least_count r \<Longrightarrow> length m' = length m \<Longrightarrow> recl_ok m' (r\<lparr>roff := roff r + n\<rparr>)"
  by (auto simp: recl_ok_def recl_least_count_def)

lemma take_drop_add:
  "take (n + k) (drop c xs) = take n (drop c xs) @ take k (drop (c + n) xs)"
  by (simp only: take_add drop_drop add.commute [of n c])

lemma recl_move_from_spec:
  assumes "recl_ok m r" "c \<le> length src" "recl_move_from m r src c = (m', r', c')"
    "n = min (recl_least_count r) (length src - c)"
  shows "c' = c + n \<and> r' = r\<lparr>roff := roff r + n\<rparr>
       \<and> m' = mem_put m (take n (drop (roff r) (pieces_addrs (rpieces r)))) (take n (drop c src))"
  using assms
proof (induction m r src c arbitrary: n rule: recl_move_from.induct)
  case (1 m r src c)
  show ?case
  proof (cases "0 < recl_least_count r \<and> c < length src")
    case False
    then have "n = 0"
      using "1.prems"(4) by auto
    with False "1.prems"(3) show ?thesis
      by (simp only: recl_move_from.simps [of m r src c] if_False) simp
  next
    case True
    obtain m1 child k where mv: "move_items_from_buff m (recl_as_segm r) (drop c src) = (m1, child, k)"
      by (metis surj_pair)
    note ok = recl_as_segm_ok [OF "1.prems"(1)]
    note mvs = move_items_from_buff_spec [OF ok(1) mv]
    have k: "k \<le> least_count (recl_as_segm r)" "k \<le> length src - c"
      using True mvs(1) by auto
    note ch = recl_child_addrs [OF _ k(1)]
    have child: "recl_drop_child r child = r\<lparr>roff := roff r + k\<rparr>"
      using True ch(3) by (simp add: mvs(3) recl_drop_child_def)
    have m1: "m1 = mem_put m (take k (drop (roff r) (pieces_addrs (rpieces r)))) (take k (drop c src))"
    proof -
      have "sbase (recl_as_segm r) + length (take k (drop c src)) \<le> length m"
        using ok(1) True k by (auto simp: segm_ok_def least_count_def ch(3))
      from mem_write_put [OF this] show ?thesis
        using True k ch(1,3) by (simp add: mvs(2) min_absorb2)
    qed
    have rec: "recl_move_from m1 (r\<lparr>roff := roff r + k\<rparr>) src (c + k) = (m', r', c')"
      using "1.prems"(3) True mv child by (simp add: recl_move_from.simps [of m r src c])
    define j where "j = min (recl_least_count (r\<lparr>roff := roff r + k\<rparr>)) (length src - (c + k))"
    have n: "n = k + j"
      using "1.prems"(4) k True ch(2) mvs(1)
      by (auto simp: j_def recl_least_count_def min_def)
    have "k \<le> recl_least_count r"
      using True k ch(2) by simp
    then have "c' = (c + k) + j \<and> r' = (r\<lparr>roff := roff r + k\<rparr>)\<lparr>roff := roff (r\<lparr>roff := roff r + k\<rparr>) + j\<rparr>
       \<and> m' = mem_put m1 (take j (drop (roff (r\<lparr>roff := roff r + k\<rparr>))
            (pieces_addrs (rpieces (r\<lparr>roff := roff r + k\<rparr>))))) (take j (drop (c + k) src))"
      using True k mvs(5) "1.prems"(1)
      by (intro "1.IH" [OF True mv [symmetric] refl, unfolded child, OF _ _ rec j_def])
        (auto intro!: recl_ok_drop_child)
    moreover have "length (take k (drop (roff r) (pieces_addrs (rpieces r))))
        = length (take k (drop c src))"
      using k True \<open>k \<le> recl_least_count r\<close> by (simp add: recl_least_count_def min_absorb2)
    ultimately show ?thesis
      by (simp add: n m1 take_drop_add mem_put_append add.assoc)
  qed
qed

lemma recl_move_to_spec:
  assumes "recl_ok m r" "c \<le> length dst" "recl_move_to m r dst c = (dst', r', c')"
    "n = min (recl_least_count r) (length dst - c)"
  shows "c' = c + n \<and> r' = r\<lparr>roff := roff r + n\<rparr>
       \<and> dst' = take c dst @ mem_get m (take n (drop (roff r) (pieces_addrs (rpieces r)))) @ drop (c + n) dst"
  using assms
proof (induction m r dst c arbitrary: n rule: recl_move_to.induct)
  case (1 m r dst c)
  show ?case
  proof (cases "0 < recl_least_count r \<and> c < length dst")
    case False
    then have "n = 0"
      using "1.prems"(4) by auto
    with False "1.prems"(3) show ?thesis
      by (simp only: recl_move_to.simps [of m r dst c] if_False) (simp add: mem_get_def)
  next
    case True
    obtain d child k where mv: "move_items_to_buff m (recl_as_segm r) (drop c dst) = (d, child, k)"
      by (metis surj_pair)
    note ok = recl_as_segm_ok [OF "1.prems"(1)]
    note mvs = move_items_to_buff_spec [OF ok(1) mv]
    have k: "k \<le> least_count (recl_as_segm r)" "k \<le> length dst - c"
      using True mvs(1) by auto
    note ch = recl_child_addrs [OF _ k(1)]
    have child: "recl_drop_child r child = r\<lparr>roff := roff r + k\<rparr>"
      using True ch(3) by (simp add: mvs(3) recl_drop_child_def)
    let ?as = "pieces_addrs (rpieces r)"
    have d: "d = mem_get m (take k (drop (roff r) ?as)) @ drop (c + k) dst"
    proof -
      have "sbase (recl_as_segm r) + k \<le> length m"
        using ok(1) True k by (auto simp: segm_ok_def least_count_def ch(3))
      from mem_read_get [OF this] show ?thesis
        using True k ch(1,3) mvs(2) by (simp add: add.commute)
    qed
    have len: "length (take k (drop (roff r) ?as)) = k"
      using k True ch(2) by (simp add: recl_least_count_def)
    have rec: "recl_move_to m (r\<lparr>roff := roff r + k\<rparr>) (take c dst @ d) (c + k) = (dst', r', c')"
      using "1.prems"(3) True mv child by (simp add: recl_move_to.simps [of m r dst c])
    have ld: "length (take c dst @ d) = length dst"
      using k True len by (auto simp: d mem_get_def)
    define j where "j = min (recl_least_count (r\<lparr>roff := roff r + k\<rparr>)) (length dst - (c + k))"
    have n: "n = k + j"
      using "1.prems"(4) k True ch(2) mvs(1)
      by (auto simp: j_def recl_least_count_def min_def)
    have "k \<le> recl_least_count r"
      using True k ch(2) by simp
    then have "c' = (c + k) + j \<and> r' = (r\<lparr>roff := roff r + k\<rparr>)\<lparr>roff := roff (r\<lparr>roff := roff r + k\<rparr>) + j\<rparr>
       \<and> dst' = take (c + k) (take c dst @ d) @ mem_get m (take j (drop (roff (r\<lparr>roff := roff r + k\<rparr>))
            (pieces_addrs (rpieces (r\<lparr>roff := roff r + k\<rparr>))))) @ drop (c + k + j) (take c dst @ d)"
      using True k ld "1.prems"(1)
      by (intro "1.IH" [OF True mv [symmetric] refl, unfolded child, OF _ _ rec])
        (auto simp: j_def intro!: recl_ok_drop_child)
    moreover have "take (c + k) (take c dst @ d) = take c dst @ mem_get m (take k (drop (roff r) ?as))"
      using True len by (simp add: d mem_get_def)
    moreover have "drop (c + k + j) (take c dst @ d) = drop (c + k + j) dst"
      using True len by (simp add: d mem_get_def ac_simps)
    ultimately show ?thesis
      by (simp add: n take_drop_add mem_get_def add.assoc)
  qed
qed

end
