(* ===== verification/Segm_Between.thy ===== *)
theory Segm_Between
  imports Ring_Segm
begin

text \<open>
  Items moved from one segment straight into another, with no buffer in between: the default methods
  \<open>TrBuffSegmRef::move_items_to_segm\<close> and \<open>TrBuffSegmMut::move_items_from_segm\<close>, and the cloning of
  segments (\<open>crates/abs_buff/src/buffer/segm_.rs\<close>). Both segments may wrap, so the pieces of the two
  need not match. The main lemma says that the direct move does what moving through a buffer would.
\<close>

section \<open>The loops\<close>

text \<open>\<open>c\<close> items are moved already. A round that moves nothing would be repeated for ever, so the rounds left are a fuel.\<close>

fun recl_move_items_to_segm ::
    "nat \<Rightarrow> 'a list \<Rightarrow> recl \<Rightarrow> 'a list \<Rightarrow> recl \<Rightarrow> nat \<Rightarrow> (recl \<times> 'a list \<times> recl \<times> nat) option" where
  "recl_move_items_to_segm k m g tm t c =
     (if 0 < recl_least_count g \<and> 0 < recl_least_count t then
        (case k of
           0 \<Rightarrow> None
         | Suc k' \<Rightarrow>
             (case move_items_to_segm m (recl_as_segm g) tm (recl_as_segm t) of
                (tm', src, dst, n) \<Rightarrow>
                  recl_move_items_to_segm k' m (recl_drop_child g src) tm' (recl_drop_child t dst) (c + n)))
      else Some (g, tm, t, c))"

fun recl_move_items_from_segm ::
    "nat \<Rightarrow> 'a list \<Rightarrow> recl \<Rightarrow> 'a list \<Rightarrow> recl \<Rightarrow> nat \<Rightarrow> ('a list \<times> recl \<times> recl \<times> nat) option" where
  "recl_move_items_from_segm k tm t m g c =
     (if 0 < recl_least_count t \<and> 0 < recl_least_count g then
        (case k of
           0 \<Rightarrow> None
         | Suc k' \<Rightarrow>
             (case move_items_from_segm tm (recl_as_segm t) m (recl_as_segm g) of
                (tm', dst, src, n) \<Rightarrow>
                  recl_move_items_from_segm k' tm' (recl_drop_child t dst) m (recl_drop_child g src) (c + n)))
      else Some (tm, t, g, c))"

declare recl_move_items_to_segm.simps [simp del] recl_move_items_from_segm.simps [simp del]

section \<open>One child into another\<close>

lemma mem_write_same_tail:
  assumes "length xs \<le> l" "a + l \<le> length m"
  shows "mem_write m a (xs @ drop (length xs) (mem_read m a l)) = mem_write m a xs"
proof -
  have "take (l - length xs) (drop (a + length xs) m) @ drop (a + l) m = drop (a + length xs) m"
    using assms(1) append_take_drop_id [of "l - length xs" "drop (a + length xs) m"]
    by (simp add: add.commute)
  then show ?thesis
    using assms by (simp add: mem_write_def mem_read_def drop_take add.commute)
qed

text \<open>A child of one segment moved into a child of the other, on the addresses of their parents.\<close>

definition rest_addrs :: "recl \<Rightarrow> nat list" where
  "rest_addrs r = drop (roff r) (pieces_addrs (rpieces r))"

lemma length_rest_addrs [simp]: "length (rest_addrs r) = recl_least_count r"
  by (simp add: rest_addrs_def recl_least_count_def)

lemma rest_addrs_moved: "rest_addrs (r\<lparr>roff := roff r + n\<rparr>) = drop n (rest_addrs r)"
  by (simp add: rest_addrs_def add.commute)

lemma least_count_moved: "recl_least_count (r\<lparr>roff := roff r + n\<rparr>) = recl_least_count r - n"
  by (simp add: recl_least_count_def)

lemma child_to_child:
  assumes "recl_ok m g" "recl_ok tm t" "0 < recl_least_count g" "0 < recl_least_count t"
    "move_items_to_segm m (recl_as_segm g) tm (recl_as_segm t) = (tm', src, dst, n)"
  shows "0 < n" "n \<le> min (recl_least_count g) (recl_least_count t)"
    "recl_drop_child g src = g\<lparr>roff := roff g + n\<rparr>" "recl_drop_child t dst = t\<lparr>roff := roff t + n\<rparr>"
    "tm' = mem_put tm (take n (rest_addrs t)) (mem_get m (take n (rest_addrs g)))"
proof -
  let ?g = "recl_as_segm g" and ?t = "recl_as_segm t"
  note og = recl_as_segm_ok [OF assms(1,3)] and ot = recl_as_segm_ok [OF assms(2,4)]
  obtain d s j where mv: "move_items_to_buff m ?g (mem_read tm (sbase ?t + soff ?t) (least_count ?t)) = (d, s, j)"
    by (metis surj_pair)
  have r: "tm' = mem_write tm (sbase ?t + soff ?t) d" "src = s" "dst = ?t\<lparr>soff := soff ?t + n\<rparr>" "n = j"
    using assms(5) mv by (auto simp: move_items_to_segm_def)
  note zero = recl_child_addrs(3) [OF assms(3) order_refl] recl_child_addrs(3) [OF assms(4) order_refl]
  have fit: "sbase ?t + least_count ?t \<le> length tm" "sbase ?g + least_count ?g \<le> length m"
    using ot(1) og(1) zero by (simp_all add: segm_ok_def least_count_def)
  note mvs = move_items_to_buff_spec [OF og(1) mv]
  have n: "n = min (least_count ?t) (least_count ?g)"
    using mvs(1) fit zero r(4) by simp
  then have le: "n \<le> least_count ?g" "n \<le> least_count ?t"
    by simp_all
  show "0 < n"
    using n og(2) ot(2) by simp
  show "n \<le> min (recl_least_count g) (recl_least_count t)"
    using le recl_child_addrs(2) [OF assms(3) le(1)] recl_child_addrs(2) [OF assms(4) le(2)] by simp
  show "recl_drop_child g src = g\<lparr>roff := roff g + n\<rparr>" "recl_drop_child t dst = t\<lparr>roff := roff t + n\<rparr>"
    using r mvs(3) zero by (simp_all add: recl_drop_child_def)
  let ?xs = "mem_get m (take n (rest_addrs g))"
  have xs: "mem_read m (sbase ?g) n = ?xs"
    using mem_read_get [of "sbase ?g" n m] recl_child_addrs(1) [OF assms(3) le(1)] fit(2) le(1)
    by (simp add: rest_addrs_def)
  have len: "length ?xs = n"
    using xs fit(2) le(1) by (metis add_le_cancel_left length_mem_read order_trans)
  have "d = ?xs @ drop n (mem_read tm (sbase ?t) (least_count ?t))"
    using mvs(2) xs zero r(4) by simp
  then have "tm' = mem_write tm (sbase ?t) ?xs"
    using r(1) zero mem_write_same_tail [of ?xs "least_count ?t" "sbase ?t" tm] len le(2) fit(1) by simp
  also have "\<dots> = mem_put tm (take n (rest_addrs t)) ?xs"
    using mem_write_put [of "sbase ?t" ?xs tm] len fit(1) le(2) recl_child_addrs(1) [OF assms(4) le(2)]
    by (simp add: rest_addrs_def)
  finally show "tm' = mem_put tm (take n (rest_addrs t)) ?xs" .
qed

section \<open>The whole move\<close>

lemma length_mem_get [simp]: "length (mem_get m as) = length as"
  by (simp add: mem_get_def)

lemma between_spec:
  assumes "recl_ok m g" "recl_ok tm t" "n = min (recl_least_count g) (recl_least_count t)" "n \<le> k"
  shows "recl_move_items_to_segm k m g tm t c
    = Some (g\<lparr>roff := roff g + n\<rparr>, mem_put tm (take n (rest_addrs t)) (mem_get m (take n (rest_addrs g))),
        t\<lparr>roff := roff t + n\<rparr>, c + n)"
  using assms
proof (induction k arbitrary: g tm t c n)
  case 0
  then have "recl_least_count g = 0 \<or> recl_least_count t = 0"
    by linarith
  then show ?case
    using 0 by (auto simp: recl_move_items_to_segm.simps [of 0] mem_get_def)
next
  case (Suc k)
  show ?case
  proof (cases "n = 0")
    case True
    then have "recl_least_count g = 0 \<or> recl_least_count t = 0"
      using Suc.prems(3) by linarith
    then show ?thesis
      using True by (auto simp: recl_move_items_to_segm.simps [of "Suc k"] mem_get_def)
  next
    case False
    then have pos: "0 < recl_least_count g" "0 < recl_least_count t"
      using Suc.prems(3) by auto
    obtain tm1 src dst j where mv: "move_items_to_segm m (recl_as_segm g) tm (recl_as_segm t) = (tm1, src, dst, j)"
      by (metis surj_pair)
    note ch = child_to_child [OF Suc.prems(1,2) pos mv]
    let ?g = "g\<lparr>roff := roff g + j\<rparr>" and ?t = "t\<lparr>roff := roff t + j\<rparr>"
    have le: "j \<le> recl_least_count g" "j \<le> recl_least_count t"
      using ch(2) by simp_all
    have "recl_move_items_to_segm k m ?g tm1 ?t (c + j) = Some (?g\<lparr>roff := roff ?g + (n - j)\<rparr>,
        mem_put tm1 (take (n - j) (rest_addrs ?t)) (mem_get m (take (n - j) (rest_addrs ?g))),
        ?t\<lparr>roff := roff ?t + (n - j)\<rparr>, (c + j) + (n - j))"
      using Suc.prems ch(1,5) le by (intro Suc.IH recl_ok_drop_child) (auto simp: least_count_moved)
    moreover have "mem_put tm1 (take (n - j) (rest_addrs ?t)) (mem_get m (take (n - j) (rest_addrs ?g)))
        = mem_put tm (take (j + (n - j)) (rest_addrs t)) (mem_get m (take (j + (n - j)) (rest_addrs g)))"
      unfolding take_add mem_get_append rest_addrs_moved ch(5) using le by (simp add: mem_put_append)
    moreover have "j \<le> n"
      using ch(2) Suc.prems(3) by simp
    ultimately show ?thesis
      using pos mv ch(3,4) by (simp add: recl_move_items_to_segm.simps [of "Suc k"])
  qed
qed

text \<open>
  The direct move does what moving through a buffer of the room in the target would, and the method of
  the target does what the one of the source does.
\<close>

lemma between_through_buffer:
  assumes "recl_ok m g" "recl_ok tm t" "min (recl_least_count g) (recl_least_count t) \<le> k"
    "recl_move_items_to_buff m g (replicate (recl_least_count t) x) = (dst, g', n)"
    "recl_move_items_from_buff tm t (take n dst) = (tm', t', j)"
  shows "recl_move_items_to_segm k m g tm t 0 = Some (g', tm', t', n)" "j = n"
proof -
  let ?n = "min (recl_least_count g) (recl_least_count t)"
  define xs where "xs = take n dst"
  have to: "n = ?n" "g' = g\<lparr>roff := roff g + ?n\<rparr>" "xs = mem_get m (take ?n (rest_addrs g))"
    using recl_move_to_spec [of m g 0 "replicate (recl_least_count t) x" dst g' n ?n] assms(1,4)
    by (auto simp: xs_def recl_move_items_to_buff_def simp flip: rest_addrs_def)
  then have len: "length xs = ?n"
    by simp
  have mv: "recl_move_from tm t xs 0 = (tm', t', j)"
    using assms(5) by (simp add: recl_move_items_from_buff_def xs_def)
  have "?n = min (recl_least_count t) (length xs - 0)"
    using len by simp
  from recl_move_from_spec [OF assms(2) le0 mv this]
  have "j = ?n" "t' = t\<lparr>roff := roff t + ?n\<rparr>" "tm' = mem_put tm (take ?n (rest_addrs t)) xs"
    using len by (simp_all add: rest_addrs_def)
  then show "recl_move_items_to_segm k m g tm t 0 = Some (g', tm', t', n)" "j = n"
    using to between_spec [OF assms(1,2) refl assms(3)] by simp_all
qed

lemma from_is_to:
  "recl_move_items_from_segm k tm t m g c
   = map_option (\<lambda>(g', tm', t', n). (tm', t', g', n)) (recl_move_items_to_segm k m g tm t c)"
proof (induction k arbitrary: tm t g c)
  case 0
  then show ?case
    by (auto simp: recl_move_items_to_segm.simps [of 0] recl_move_items_from_segm.simps [of 0])
next
  case (Suc k)
  then show ?case
    by (auto simp: recl_move_items_to_segm.simps [of "Suc k"] recl_move_items_from_segm.simps [of "Suc k"]
        move_items_from_segm_def split: prod.splits)
qed

text \<open>Cloning puts the same cells into the target and leaves the source where it was.\<close>

lemma clone_like_move:
  "move_items_to_segm m src tm tgt = (tm', src', tgt', n) \<Longrightarrow> clone_items_to_segm m src tm tgt = (tm', tgt', n)"
  by (auto simp: move_items_to_segm_def clone_items_to_segm_def move_items_to_buff_def clone_items_to_buff_def Let_def
      simp del: min_less_iff_conj split: if_splits)

end
