(* ===== verification/Gap_Queue.thy ===== *)
theory Gap_Queue
  imports Main
begin

text \<open>
  The contract that the two circular buffers of \<open>buffex\<close> offer their producer and consumer: a
  count of buffered items and of free slots, one operation per side, each guarded by the count
  it may use. The lemmas of the locale are proved once from the contract; \<open>Ring_State\<close> and
  \<open>Circ_State\<close> interpret it on their packed words.
\<close>

datatype queue_op = Produce nat | Consume nat

text \<open>A run of guarded operations; \<open>None\<close> as soon as one asks for more than its side may use.\<close>

fun queue_run :: "('s \<Rightarrow> nat) \<Rightarrow> ('s \<Rightarrow> nat) \<Rightarrow> (nat \<Rightarrow> 's \<Rightarrow> 's) \<Rightarrow> (nat \<Rightarrow> 's \<Rightarrow> 's)
    \<Rightarrow> queue_op list \<Rightarrow> 's \<Rightarrow> 's option" where
  "queue_run data free produce consume [] s = Some s"
| "queue_run data free produce consume (Produce n # ops) s =
     (if n \<le> free s then queue_run data free produce consume ops (produce n s) else None)"
| "queue_run data free produce consume (Consume n # ops) s =
     (if n \<le> data s then queue_run data free produce consume ops (consume n s) else None)"

fun produced :: "queue_op list \<Rightarrow> nat" where
  "produced [] = 0"
| "produced (Produce n # ops) = n + produced ops"
| "produced (Consume n # ops) = produced ops"

fun consumed :: "queue_op list \<Rightarrow> nat" where
  "consumed [] = 0"
| "consumed (Produce n # ops) = consumed ops"
| "consumed (Consume n # ops) = n + consumed ops"

locale gap_queue =
  fixes ok :: "'s \<Rightarrow> bool"
    and data :: "'s \<Rightarrow> nat"
    and free :: "'s \<Rightarrow> nat"
    and produce :: "nat \<Rightarrow> 's \<Rightarrow> 's"
    and consume :: "nat \<Rightarrow> 's \<Rightarrow> 's"
  assumes produce_ok: "ok s \<Longrightarrow> n \<le> free s \<Longrightarrow> ok (produce n s)"
    and produce_data: "ok s \<Longrightarrow> n \<le> free s \<Longrightarrow> data (produce n s) = data s + n"
    and produce_free: "ok s \<Longrightarrow> n \<le> free s \<Longrightarrow> free (produce n s) = free s - n"
    and consume_ok: "ok s \<Longrightarrow> n \<le> data s \<Longrightarrow> ok (consume n s)"
    and consume_data: "ok s \<Longrightarrow> n \<le> data s \<Longrightarrow> data (consume n s) = data s - n"
    and consume_free: "ok s \<Longrightarrow> n \<le> data s \<Longrightarrow> free (consume n s) = free s + n"
begin

lemmas laws = produce_ok produce_data produce_free consume_ok consume_data consume_free

lemma conserve:
  "ok s \<Longrightarrow> queue_run data free produce consume ops s = Some t \<Longrightarrow>
     ok t \<and> data t + consumed ops = data s + produced ops \<and> data t + free t = data s + free s"
proof (induction ops arbitrary: s)
  case Nil
  then show ?case by simp
next
  case (Cons p ops)
  show ?case
  proof (cases p)
    case (Produce n)
    with Cons.prems have n: "n \<le> free s"
      and "queue_run data free produce consume ops (produce n s) = Some t"
      by (auto split: if_splits)
    with Cons.IH [of "produce n s"] Cons.prems(1) show ?thesis
      using n by (simp add: Produce laws)
  next
    case (Consume n)
    with Cons.prems have n: "n \<le> data s"
      and "queue_run data free produce consume ops (consume n s) = Some t"
      by (auto split: if_splits)
    with Cons.IH [of "consume n s"] Cons.prems(1) show ?thesis
      using n by (auto simp: Consume laws)
  qed
qed

text \<open>What one side may use never shrinks by what the other side does.\<close>

lemma free_stable: "ok s \<Longrightarrow> m \<le> data s \<Longrightarrow> n \<le> free s \<Longrightarrow> n \<le> free (consume m s)"
  by (simp add: laws)

lemma data_stable: "ok s \<Longrightarrow> n \<le> free s \<Longrightarrow> m \<le> data s \<Longrightarrow> m \<le> data (produce n s)"
  by (simp add: laws)

lemma sides_commute:
  "ok s \<Longrightarrow> n \<le> free s \<Longrightarrow> m \<le> data s \<Longrightarrow>
     data (produce n (consume m s)) = data (consume m (produce n s))
   \<and> free (produce n (consume m s)) = free (consume m (produce n s))"
  by (simp add: laws)

end

end
