(* ===== verification/Ring_State.thy ===== *)
theory Ring_State
  imports Atomic_Flags Demand Gap_Queue
begin

text \<open>
  The state word of \<open>buffex\<close>'s ring buffer (\<open>crates/buffex/src/ring_buffer/state_.rs\<close>) on a
  64-bit target: reader and writer position in 30 bits each and four flags in the top bits.
  Every transition of \<open>RingCore\<close> is an atomic update of the word (\<open>Atomic_Flags\<close>), here the
  function it applies; the lemmas decode the word after each of them.
\<close>

section \<open>Layout\<close>

definition FLAG_BITS :: nat where "FLAG_BITS = 4"
definition POS_BITS :: nat where [ring_defs]: "POS_BITS = (64 - FLAG_BITS) div 2"
definition POS_MASK :: usize where "POS_MASK = push_bit POS_BITS 1 - 1"
definition MAX_CAPACITY :: usize where "MAX_CAPACITY = POS_MASK"

definition TX_CLOSED :: usize where [ring_defs]: "TX_CLOSED = push_bit (64 - 1) 1"
definition RX_CLOSED :: usize where [ring_defs]: "RX_CLOSED = push_bit (64 - 2) 1"
definition SEND_IN_FLIGHT :: usize where [ring_defs]: "SEND_IN_FLIGHT = push_bit (64 - 3) 1"
definition RECV_IN_FLIGHT :: usize where [ring_defs]: "RECV_IN_FLIGHT = push_bit (64 - 4) 1"
definition FLAG_MASK :: usize where
  "FLAG_MASK = TX_CLOSED OR RX_CLOSED OR SEND_IN_FLIGHT OR RECV_IN_FLIGHT"

definition ring_unpack :: "usize \<Rightarrow> usize \<times> usize" where
  "ring_unpack state = (state AND POS_MASK, drop_bit POS_BITS state AND POS_MASK)"

definition ring_pack :: "usize \<Rightarrow> usize \<Rightarrow> usize" where
  "ring_pack rp wp = rp OR push_bit POS_BITS wp"

definition has_flag :: "usize \<Rightarrow> usize \<Rightarrow> bool" where
  "has_flag state flag = (state AND flag \<noteq> 0)"

section \<open>Transitions of the word\<close>

text \<open>The closures that \<open>update_state_\<close> applies, and the two guarded loops of the runtime side.\<close>

definition set_flag_word :: "usize \<Rightarrow> usize \<Rightarrow> usize" where
  "set_flag_word flag s = s OR flag"

definition advance_write_word :: "usize \<Rightarrow> usize \<Rightarrow> usize \<Rightarrow> usize" where
  "advance_write_word cap amount s =
     (let (rp, wp) = ring_unpack s in ring_pack rp ((wp + amount) mod cap) OR (s AND FLAG_MASK))"

definition advance_read_word :: "usize \<Rightarrow> usize \<Rightarrow> usize \<Rightarrow> usize" where
  "advance_read_word cap amount s =
     (let (rp, wp) = ring_unpack s in ring_pack ((rp + amount) mod cap) wp OR (s AND FLAG_MASK))"

definition put_back_send_word :: "usize \<Rightarrow> usize \<Rightarrow> usize \<Rightarrow> usize" where
  "put_back_send_word cap written s =
     (let (rp, wp) = ring_unpack s; nr = (rp + written) mod cap
      in ring_pack nr wp OR (s AND FLAG_MASK AND NOT SEND_IN_FLIGHT))"

definition put_back_recv_word :: "usize \<Rightarrow> usize \<Rightarrow> usize \<Rightarrow> usize" where
  "put_back_recv_word cap received s =
     (let (rp, wp) = ring_unpack s; nw = (wp + received) mod cap
      in ring_pack rp nw OR (s AND FLAG_MASK AND NOT RECV_IN_FLIGHT))"

definition data_size_of :: "usize \<Rightarrow> usize \<Rightarrow> usize \<Rightarrow> usize" where
  "data_size_of cap rp wp = (wp + cap - rp) mod cap"

definition free_size_of :: "usize \<Rightarrow> usize \<Rightarrow> usize \<Rightarrow> usize" where
  "free_size_of cap rp wp = cap - 1 - data_size_of cap rp wp"

section \<open>The decoded word\<close>

record ring_view =
  rpos :: nat
  wpos :: nat
  txc :: bool
  rxc :: bool
  sending :: bool
  receiving :: bool

definition ring_view :: "usize \<Rightarrow> ring_view" where
  "ring_view s = \<lparr>rpos = unat (fst (ring_unpack s)), wpos = unat (snd (ring_unpack s)),
     txc = has_flag s TX_CLOSED, rxc = has_flag s RX_CLOSED,
     sending = has_flag s SEND_IN_FLIGHT, receiving = has_flag s RECV_IN_FLIGHT\<rparr>"

lemma pos_mask_eq: "POS_MASK = mask 30"
  by (simp add: POS_MASK_def POS_BITS_def FLAG_BITS_def mask_eq_exp_minus_1)

lemma pos_bits [simp]: "POS_BITS = 30"
  by (simp add: POS_BITS_def FLAG_BITS_def)

lemma unat_max_capacity: "unat MAX_CAPACITY = 2 ^ 30 - 1"
  by (simp add: MAX_CAPACITY_def pos_mask_eq mask_eq_exp_minus_1)

lemma ring_unpack_bits:
  "ring_unpack s = (take_bit 30 s, take_bit 30 (drop_bit 30 s))"
  by (simp add: ring_unpack_def pos_mask_eq take_bit_eq_mask)

lemma has_flag_bit: "n < 64 \<Longrightarrow> has_flag s (push_bit n 1) = bit s n"
  by (simp add: has_flag_def bit_iff_and_push_bit_not_eq_0)

lemma has_flag_bits:
  "has_flag s TX_CLOSED = bit s 63" "has_flag s RX_CLOSED = bit s 62"
  "has_flag s SEND_IN_FLIGHT = bit s 61" "has_flag s RECV_IN_FLIGHT = bit s 60"
  unfolding ring_defs by (simp_all add: has_flag_bit del: push_bit_of_1)

lemma bit_flag_mask: "bit FLAG_MASK n = (60 \<le> n \<and> n < 64)"
proof -
  have "bit FLAG_MASK n = (n = 63 \<or> n = 62 \<or> n = 61 \<or> n = 60)"
    unfolding FLAG_MASK_def ring_defs bit_or_iff bit_push_bit_iff by (auto simp: bit_1_iff)
  also have "\<dots> = (60 \<le> n \<and> n < 64)"
    by arith
  finally show ?thesis .
qed

text \<open>Packing two positions over a flags word and reading them back.\<close>

lemma pack_decoded:
  fixes rp wp f :: usize
  assumes "unat rp < 2 ^ 30" "unat wp < 2 ^ 30" "\<And>n. bit f n \<Longrightarrow> 60 \<le> n"
  shows "ring_unpack (ring_pack rp wp OR f) = (rp, wp)"
    and "60 \<le> n \<Longrightarrow> n < 64 \<Longrightarrow> bit (ring_pack rp wp OR f) n = bit f n"
proof -
  have low: "\<not> bit x m" if "unat x < 2 ^ 30" "30 \<le> m" for x :: usize and m
  proof -
    have "take_bit 30 x = x"
      using that(1) by (simp add: word_unat_eq_iff unat_take_bit)
    then have "bit x m = bit (take_bit 30 x) m"
      by simp
    then show ?thesis
      using that(2) by (simp add: bit_simps)
  qed
  have rp: "bit rp m \<Longrightarrow> m < 30" and wp: "bit wp m \<Longrightarrow> m < 30"
    and f: "bit f m \<Longrightarrow> 60 \<le> m" for m
    using low [OF assms(1)] low [OF assms(2)] assms(3) not_le by blast+
  have "take_bit 30 (ring_pack rp wp OR f) = rp"
  proof (rule bit_word_eqI)
    fix m
    show "bit (take_bit 30 (ring_pack rp wp OR f)) m = bit rp m"
      using rp [of m] f [of m] by (auto simp: ring_pack_def bit_simps)
  qed
  moreover have "take_bit 30 (drop_bit 30 (ring_pack rp wp OR f)) = wp"
  proof (rule bit_word_eqI)
    fix m
    show "bit (take_bit 30 (drop_bit 30 (ring_pack rp wp OR f))) m = bit wp m"
      using rp [of "30 + m"] wp [of m] f [of "30 + m"] by (auto simp: ring_pack_def bit_simps)
  qed
  ultimately show "ring_unpack (ring_pack rp wp OR f) = (rp, wp)"
    by (simp add: ring_unpack_bits)
  show "60 \<le> n \<Longrightarrow> n < 64 \<Longrightarrow> bit (ring_pack rp wp OR f) n = bit f n"
    using rp [of n] wp [of "n - 30"] by (auto simp: ring_pack_def bit_simps)
qed

lemma unat_unpack:
  "unat (fst (ring_unpack s)) < 2 ^ 30" "unat (snd (ring_unpack s)) < 2 ^ 30"
  by (simp_all add: ring_unpack_bits unat_take_bit)

lemma add_mod_cap:
  fixes p amount cap :: usize
  assumes "unat p < unat cap" "unat amount \<le> unat cap" "unat cap \<le> 2 ^ 30"
  shows "unat ((p + amount) mod cap) = (unat p + unat amount) mod unat cap"
proof -
  have "unat p + unat amount < 2 ^ LENGTH(64)"
    using assms by simp
  then have "unat (p + amount) = unat p + unat amount"
    by (rule unat_add_lem [THEN iffD1])
  then show ?thesis
    by (simp add: unat_mod)
qed

lemma view_pack:
  assumes "unat rp < 2 ^ 30" "unat wp < 2 ^ 30" "\<And>n. bit f n \<Longrightarrow> 60 \<le> n"
  shows "ring_view (ring_pack rp wp OR f) = \<lparr>rpos = unat rp, wpos = unat wp,
     txc = bit f 63, rxc = bit f 62, sending = bit f 61, receiving = bit f 60\<rparr>"
  using pack_decoded [OF assms] by (simp add: ring_view_def has_flag_bits)

lemma view_bits:
  "txc (ring_view s) = bit s 63" "rxc (ring_view s) = bit s 62"
  "sending (ring_view s) = bit s 61" "receiving (ring_view s) = bit s 60"
  by (simp_all add: ring_view_def has_flag_bits)

lemma view_pos:
  "rpos (ring_view s) = unat (fst (ring_unpack s))"
  "wpos (ring_view s) = unat (snd (ring_unpack s))"
  by (simp_all add: ring_view_def)

text \<open>The capacities \<open>try_new\<close> accepts, and positions inside the buffer.\<close>

definition cap_ok :: "usize \<Rightarrow> bool" where
  "cap_ok cap = (2 \<le> cap \<and> cap \<le> MAX_CAPACITY)"

definition pos_ok :: "usize \<Rightarrow> usize \<Rightarrow> bool" where
  "pos_ok cap s = (rpos (ring_view s) < unat cap \<and> wpos (ring_view s) < unat cap)"

lemma cap_ok_nat: "cap_ok cap \<Longrightarrow> 2 \<le> unat cap \<and> unat cap < 2 ^ 30"
  by (simp add: cap_ok_def word_le_nat_alt unat_max_capacity)

lemma cap_ok_mod:
  assumes "cap_ok cap"
  shows "unat (x mod cap) < 2 ^ 30"
proof -
  have "unat x mod unat cap < unat cap"
    using cap_ok_nat [OF assms] by (intro mod_less_divisor) linarith
  also have "\<dots> < 2 ^ 30"
    using cap_ok_nat [OF assms] by blast
  finally show ?thesis
    by (simp only: unat_mod)
qed

lemma view_advance_write:
  assumes "cap_ok cap" "pos_ok cap s" "unat amount \<le> unat cap"
  shows "ring_view (advance_write_word cap amount s)
       = (ring_view s)\<lparr>wpos := (wpos (ring_view s) + unat amount) mod unat cap\<rparr>"
proof -
  obtain rp wp where u: "ring_unpack s = (rp, wp)" by (cases "ring_unpack s")
  have "unat ((wp + amount) mod cap) = (unat wp + unat amount) mod unat cap"
    using assms u cap_ok_nat [OF assms(1)] by (intro add_mod_cap) (auto simp: pos_ok_def view_pos)
  moreover have "ring_view (ring_pack rp ((wp + amount) mod cap) OR (s AND FLAG_MASK))
    = \<lparr>rpos = unat rp, wpos = unat ((wp + amount) mod cap),
       txc = bit (s AND FLAG_MASK) 63, rxc = bit (s AND FLAG_MASK) 62,
       sending = bit (s AND FLAG_MASK) 61, receiving = bit (s AND FLAG_MASK) 60\<rparr>"
    using unat_unpack [of s] u cap_ok_mod [OF assms(1)]
    by (intro view_pack) (auto simp: bit_and_iff bit_flag_mask)
  ultimately show ?thesis
    by (simp add: advance_write_word_def u ring_view_def has_flag_bits bit_and_iff bit_flag_mask)
qed

lemma view_advance_read:
  assumes "cap_ok cap" "pos_ok cap s" "unat amount \<le> unat cap"
  shows "ring_view (advance_read_word cap amount s)
       = (ring_view s)\<lparr>rpos := (rpos (ring_view s) + unat amount) mod unat cap\<rparr>"
proof -
  obtain rp wp where u: "ring_unpack s = (rp, wp)" by (cases "ring_unpack s")
  have "unat ((rp + amount) mod cap) = (unat rp + unat amount) mod unat cap"
    using assms u cap_ok_nat [OF assms(1)] by (intro add_mod_cap) (auto simp: pos_ok_def view_pos)
  moreover have "ring_view (ring_pack ((rp + amount) mod cap) wp OR (s AND FLAG_MASK))
    = \<lparr>rpos = unat ((rp + amount) mod cap), wpos = unat wp,
       txc = bit (s AND FLAG_MASK) 63, rxc = bit (s AND FLAG_MASK) 62,
       sending = bit (s AND FLAG_MASK) 61, receiving = bit (s AND FLAG_MASK) 60\<rparr>"
    using unat_unpack [of s] u cap_ok_mod [OF assms(1)]
    by (intro view_pack) (auto simp: bit_and_iff bit_flag_mask)
  ultimately show ?thesis
    by (simp add: advance_read_word_def u ring_view_def has_flag_bits bit_and_iff bit_flag_mask)
qed

text \<open>Returning a reservation is the advance followed by clearing the side's flag.\<close>

lemma clear_flag_advance:
  "put_back_send_word cap n s = advance_read_word cap n s AND NOT SEND_IN_FLIGHT
     \<or> \<not> cap_ok cap"
  "put_back_recv_word cap n s = advance_write_word cap n s AND NOT RECV_IN_FLIGHT
     \<or> \<not> cap_ok cap"
proof -
  obtain rp wp where u: "ring_unpack s = (rp, wp)" by (cases "ring_unpack s")
  have pk: "ring_pack p q AND NOT (push_bit k 1) = ring_pack p q"
    if "unat p < 2 ^ 30" "unat q < 2 ^ 30" "60 \<le> k" "k < 64" for p q :: usize and k
  proof -
    have "bit (ring_pack p q OR 0) k = bit (0::usize) k"
      by (rule pack_decoded(2)) (use that in auto)
    then have "\<not> bit (ring_pack p q) k"
      by simp
    then show ?thesis
      by (intro bit_word_eqI) (auto simp: bit_simps)
  qed
  show "put_back_send_word cap n s = advance_read_word cap n s AND NOT SEND_IN_FLIGHT
      \<or> \<not> cap_ok cap"
    using pk [of "(rp + n) mod cap" wp 61] cap_ok_mod [of cap "rp + n"] unat_unpack [of s] u
    by (auto simp: put_back_send_word_def advance_read_word_def u bit.conj_disj_distrib2
        SEND_IN_FLIGHT_def and.assoc Let_def)
  show "put_back_recv_word cap n s = advance_write_word cap n s AND NOT RECV_IN_FLIGHT
      \<or> \<not> cap_ok cap"
    using pk [of rp "(wp + n) mod cap" 60] cap_ok_mod [of cap "wp + n"] unat_unpack [of s] u
    by (auto simp: put_back_recv_word_def advance_write_word_def u bit.conj_disj_distrib2
        RECV_IN_FLIGHT_def and.assoc Let_def)
qed

text \<open>Setting and clearing a flag leaves the positions alone.\<close>

lemma pos_set_flag:
  assumes "60 \<le> k" "k < 64"
  shows "ring_unpack (s OR push_bit k 1) = ring_unpack s"
    and "ring_unpack (s AND NOT (push_bit k 1)) = ring_unpack s"
  using assms unfolding ring_unpack_bits
  by (auto intro!: bit_word_eqI simp: bit_simps)

lemma view_set_flag:
  "ring_view (set_flag_word TX_CLOSED s) = (ring_view s)\<lparr>txc := True\<rparr>"
  "ring_view (set_flag_word RX_CLOSED s) = (ring_view s)\<lparr>rxc := True\<rparr>"
  "ring_view (set_flag_word SEND_IN_FLIGHT s) = (ring_view s)\<lparr>sending := True\<rparr>"
  "ring_view (set_flag_word RECV_IN_FLIGHT s) = (ring_view s)\<lparr>receiving := True\<rparr>"
  by (simp_all add: set_flag_word_def ring_view_def has_flag_bit ring_defs(1-5) pos_set_flag
      bit_simps del: push_bit_of_1)

lemma view_clear_flag:
  "ring_view (s AND NOT SEND_IN_FLIGHT) = (ring_view s)\<lparr>sending := False\<rparr>"
  "ring_view (s AND NOT RECV_IN_FLIGHT) = (ring_view s)\<lparr>receiving := False\<rparr>"
  by (simp_all add: ring_view_def has_flag_bit ring_defs(1-5)
      pos_set_flag bit_simps del: push_bit_of_1)

lemma view_put_back_send:
  assumes "cap_ok cap" "pos_ok cap s" "unat n \<le> unat cap"
  shows "ring_view (put_back_send_word cap n s) = (ring_view s)
           \<lparr>rpos := (rpos (ring_view s) + unat n) mod unat cap, sending := False\<rparr>"
  using clear_flag_advance(1) [of cap n s] assms
  by (simp add: view_clear_flag view_advance_read)

lemma view_put_back_recv:
  assumes "cap_ok cap" "pos_ok cap s" "unat n \<le> unat cap"
  shows "ring_view (put_back_recv_word cap n s) = (ring_view s)
           \<lparr>wpos := (wpos (ring_view s) + unat n) mod unat cap, receiving := False\<rparr>"
  using clear_flag_advance(2) [of cap n s] assms
  by (simp add: view_clear_flag view_advance_write)

section \<open>Sizes\<close>

text \<open>The number of buffered items and of free slots, on positions as numbers.\<close>

definition data_nat :: "nat \<Rightarrow> nat \<Rightarrow> nat \<Rightarrow> nat" where
  "data_nat c r w = (w + c - r) mod c"

lemma data_nat_less: "0 < c \<Longrightarrow> data_nat c r w < c"
  by (simp add: data_nat_def)

lemma data_nat_eq:
  assumes "r < c" "w < c"
  shows "data_nat c r w = (if r \<le> w then w - r else w + c - r)"
proof (cases "r \<le> w")
  case True
  then have "w + c - r = (w - r) + c" and "w - r < c"
    using assms by simp_all
  then show ?thesis
    using True by (simp only: data_nat_def mod_add_self2 mod_less if_True)
next
  case False
  then show ?thesis
    using assms by (simp add: data_nat_def)
qed

lemma data_nat_zero: "r < c \<Longrightarrow> w < c \<Longrightarrow> data_nat c r w = 0 \<longleftrightarrow> r = w"
  by (auto simp: data_nat_eq)

lemma data_nat_write:
  assumes "r < c" "w < c" "n \<le> c - 1 - data_nat c r w"
  shows "data_nat c r ((w + n) mod c) = data_nat c r w + n"
  using assms mod_less_divisor [of c "w + n"]
  by (cases "w + n < c") (auto simp: data_nat_eq le_mod_geq split: if_splits)

lemma data_nat_read:
  assumes "r < c" "w < c" "n \<le> data_nat c r w"
  shows "data_nat c ((r + n) mod c) w = data_nat c r w - n"
  using assms mod_less_divisor [of c "r + n"]
  by (cases "r + n < c") (auto simp: data_nat_eq le_mod_geq split: if_splits)

lemma unat_data_size:
  assumes "cap_ok cap" "unat rp < unat cap" "unat wp < unat cap"
  shows "unat (data_size_of cap rp wp) = data_nat (unat cap) (unat rp) (unat wp)"
proof -
  note cap = cap_ok_nat [OF assms(1)]
  have "unat wp + unat cap < 2 ^ LENGTH(64)"
    using assms cap by simp
  then have sum: "unat (wp + cap) = unat wp + unat cap"
    by (rule unat_add_lem [THEN iffD1])
  have "rp \<le> wp + cap"
    unfolding word_le_nat_alt sum using assms by linarith
  then have "unat (wp + cap - rp) = unat wp + unat cap - unat rp"
    by (simp only: unat_sub sum)
  then show ?thesis
    by (simp only: data_size_of_def data_nat_def unat_mod)
qed

lemma unat_free_size:
  assumes "cap_ok cap" "unat rp < unat cap" "unat wp < unat cap"
  shows "unat (free_size_of cap rp wp)
       = unat cap - 1 - data_nat (unat cap) (unat rp) (unat wp)"
proof -
  note cap = cap_ok_nat [OF assms(1)]
  have one: "unat (cap - 1) = unat cap - 1"
    using cap by (intro unat_minus_one) auto
  have "data_nat (unat cap) (unat rp) (unat wp) < unat cap"
    using cap by (intro data_nat_less) linarith
  then have "data_size_of cap rp wp \<le> cap - 1"
    unfolding word_le_nat_alt unat_data_size [OF assms] one by linarith
  then show ?thesis
    by (simp only: free_size_of_def unat_sub one unat_data_size [OF assms])
qed

text \<open>The sizes of a decoded word.\<close>

definition view_data :: "usize \<Rightarrow> usize \<Rightarrow> nat" where
  "view_data cap s = data_nat (unat cap) (rpos (ring_view s)) (wpos (ring_view s))"

definition view_free :: "usize \<Rightarrow> usize \<Rightarrow> nat" where
  "view_free cap s = unat cap - 1 - view_data cap s"

lemma view_data_word:
  "cap_ok cap \<Longrightarrow> pos_ok cap s \<Longrightarrow> ring_unpack s = (rp, wp) \<Longrightarrow>
     unat (data_size_of cap rp wp) = view_data cap s"
  by (simp add: view_data_def view_pos pos_ok_def unat_data_size)

lemma view_free_word:
  "cap_ok cap \<Longrightarrow> pos_ok cap s \<Longrightarrow> ring_unpack s = (rp, wp) \<Longrightarrow>
     unat (free_size_of cap rp wp) = view_free cap s"
  by (simp add: view_free_def view_data_def view_pos pos_ok_def unat_free_size)

lemma view_data_less: "cap_ok cap \<Longrightarrow> view_data cap s < unat cap"
  unfolding view_data_def by (rule data_nat_less) (use cap_ok_nat [of cap] in linarith)

lemma data_plus_free: "cap_ok cap \<Longrightarrow> view_data cap s + view_free cap s = unat cap - 1"
  using view_data_less [of cap s] by (simp add: view_free_def)

section \<open>The packed word is a bounded queue\<close>

text \<open>
  The state of the contract is the capacity with the word; the amounts reach \<open>RingCore\<close> as
  \<open>usize\<close>.
\<close>

type_synonym cap_word = "usize \<times> usize"

definition cw_ok :: "cap_word \<Rightarrow> bool" where
  "cw_ok x = (cap_ok (fst x) \<and> pos_ok (fst x) (snd x))"

definition cw_data :: "cap_word \<Rightarrow> nat" where
  "cw_data x = view_data (fst x) (snd x)"

definition cw_free :: "cap_word \<Rightarrow> nat" where
  "cw_free x = view_free (fst x) (snd x)"

definition cw_produce :: "nat \<Rightarrow> cap_word \<Rightarrow> cap_word" where
  "cw_produce n x = (fst x, advance_write_word (fst x) (of_nat n) (snd x))"

definition cw_consume :: "nat \<Rightarrow> cap_word \<Rightarrow> cap_word" where
  "cw_consume n x = (fst x, advance_read_word (fst x) (of_nat n) (snd x))"

lemma cap_ok_pos: "cap_ok cap \<Longrightarrow> 0 < unat cap"
  using cap_ok_nat [of cap] by linarith

lemma unat_of_nat_cap: "n \<le> unat (cap :: usize) \<Longrightarrow> unat (of_nat n :: usize) = n"
  by (rule le_unat_uoi)

lemma advance_write_facts:
  assumes "cap_ok cap" "pos_ok cap s" "unat n \<le> view_free cap s"
  shows "pos_ok cap (advance_write_word cap n s)"
    and "view_data cap (advance_write_word cap n s) = view_data cap s + unat n"
proof -
  have "unat n \<le> unat cap"
    using assms(3) by (simp add: view_free_def)
  note v = view_advance_write [OF assms(1,2) this]
  show "pos_ok cap (advance_write_word cap n s)"
    using assms(2) cap_ok_pos [OF assms(1)] by (simp add: pos_ok_def v)
  show "view_data cap (advance_write_word cap n s) = view_data cap s + unat n"
    using assms by (simp add: view_data_def v pos_ok_def view_free_def data_nat_write)
qed

lemma advance_read_facts:
  assumes "cap_ok cap" "pos_ok cap s" "unat n \<le> view_data cap s"
  shows "pos_ok cap (advance_read_word cap n s)"
    and "view_data cap (advance_read_word cap n s) = view_data cap s - unat n"
proof -
  have "unat n \<le> unat cap"
    using assms(3) view_data_less [OF assms(1), of s] by linarith
  note v = view_advance_read [OF assms(1,2) this]
  show "pos_ok cap (advance_read_word cap n s)"
    using assms(2) cap_ok_pos [OF assms(1)] by (simp add: pos_ok_def v)
  show "view_data cap (advance_read_word cap n s) = view_data cap s - unat n"
    using assms by (simp add: view_data_def v pos_ok_def data_nat_read)
qed

interpretation ring_q: gap_queue cw_ok cw_data cw_free cw_produce cw_consume
proof
  fix x n
  assume x: "cw_ok x" "n \<le> cw_free x"
  then have "n \<le> unat (fst x)"
    by (simp add: cw_free_def view_free_def)
  then have u: "unat (of_nat n :: usize) = n"
    by (rule unat_of_nat_cap)
  show "cw_ok (cw_produce n x)" "cw_data (cw_produce n x) = cw_data x + n"
    "cw_free (cw_produce n x) = cw_free x - n"
    using advance_write_facts [of "fst x" "snd x" "of_nat n"] x u
    by (auto simp: cw_ok_def cw_produce_def cw_data_def cw_free_def view_free_def)
next
  fix x n
  assume x: "cw_ok x" "n \<le> cw_data x"
  then have "n \<le> unat (fst x)"
    using view_data_less [of "fst x" "snd x"] by (simp add: cw_data_def cw_ok_def)
  then have u: "unat (of_nat n :: usize) = n"
    by (rule unat_of_nat_cap)
  show "cw_ok (cw_consume n x)" "cw_data (cw_consume n x) = cw_data x - n"
    using advance_read_facts [of "fst x" "snd x" "of_nat n"] x u
    by (auto simp: cw_ok_def cw_consume_def cw_data_def)
  then show "cw_free (cw_consume n x) = cw_free x + n"
    using x view_data_less [of "fst x" "snd x"]
    by (simp add: cw_free_def view_free_def cw_data_def cw_consume_def cw_ok_def)
qed

text \<open>The definitions a concrete word evaluates with.\<close>

lemmas cw_eval = cw_data_def cw_free_def cw_produce_def cw_consume_def view_data_def view_free_def
  data_nat_def ring_view_def ring_unpack_def advance_write_word_def advance_read_word_def
  ring_pack_def POS_MASK_def FLAG_MASK_def TX_CLOSED_def RX_CLOSED_def SEND_IN_FLIGHT_def
  RECV_IN_FLIGHT_def

section \<open>Properties\<close>

text \<open>
  The item count of the packed word is conserved: after any sequence of commits and
  consumptions each within the free space or data its side sees, the buffered count grew by
  exactly what was produced minus what was consumed, data and free space still add up to the
  capacity less one, and both positions stay inside the buffer.
\<close>

theorem ring_word_conserves:
  assumes "cap_ok cap" "pos_ok cap s"
    "queue_run cw_data cw_free cw_produce cw_consume ops (cap, s) = Some (cap', t)"
  shows "cap_ok cap' \<and> pos_ok cap' t
       \<and> cw_data (cap', t) + consumed ops = view_data cap s + produced ops
       \<and> cw_data (cap', t) + cw_free (cap', t) = unat cap - 1"
  using ring_q.conserve [of "(cap, s)" ops "(cap', t)"] assms data_plus_free [OF assms(1), of s]
  by (simp add: cw_ok_def cw_data_def cw_free_def)

theorem ring_word_conserves_witness:
  "cap_ok 4 \<and> pos_ok 4 0
   \<and> queue_run cw_data cw_free cw_produce cw_consume [Produce 3, Consume 2, Produce 2] (4, 0)
       = Some (4, 1073741826)
   \<and> cw_data (4, 1073741826) + 2 = 0 + 5"
proof -
  have 1: "cap_ok 4" "pos_ok 4 0"
    by (simp_all add: cap_ok_def pos_ok_def MAX_CAPACITY_def cw_eval)
  have 2: "queue_run cw_data cw_free cw_produce cw_consume [Produce 3, Consume 2, Produce 2] (4, 0)
       = Some (4, 1073741826)"
    by (simp add: cw_eval)
  have "view_data 4 0 = 0"
    by (simp add: cw_eval)
  with ring_word_conserves [OF 1 2] show ?thesis
    using 1 2 by simp
qed

end
