(* ===== verification/Circ_State.thy ===== *)
theory Circ_State
  imports Ring_State
begin

text \<open>
  The state word of \<open>buffex\<close>'s circular buffer (\<open>crates/buffex/src/circular_buff/core_.rs\<close>,
  \<open>IoPos\<close>) on a 64-bit target: two positions of 28 bits, the closed and standby flags of each
  side, and the reversion flag that tells a full buffer from an empty one. The lemmas relate a
  position to two unbounded counters, the items ever read and ever written, of which the code
  keeps only the remainders and one bit.
\<close>

section \<open>Layout\<close>

definition RSV_BITS :: nat where "RSV_BITS = 8"
definition CIRC_TX_CLOSED :: usize where [ring_defs]: "CIRC_TX_CLOSED = push_bit (64 - 1) 1"
definition CIRC_RX_CLOSED :: usize where [ring_defs]: "CIRC_RX_CLOSED = push_bit (64 - 2) 1"
definition TX_STNDBY :: usize where [ring_defs]: "TX_STNDBY = push_bit (64 - 3) 1"
definition RX_STNDBY :: usize where [ring_defs]: "RX_STNDBY = push_bit (64 - 4) 1"
definition REVERSION :: usize where [ring_defs]: "REVERSION = push_bit (64 - 5) 1"
definition CIRC_POS_BITS :: nat where "CIRC_POS_BITS = (64 - RSV_BITS) div 2"
definition CIRC_POS_MASK :: usize where "CIRC_POS_MASK = push_bit CIRC_POS_BITS 1 - 1"
definition MIN_CAPACITY :: usize where "MIN_CAPACITY = 2"
definition CIRC_MAX_CAPACITY :: usize where "CIRC_MAX_CAPACITY = CIRC_POS_MASK"

record io_pos =
  pos_rv :: bool
  pos_rp :: usize
  pos_wp :: usize
  pos_cap :: usize

definition IOPOS_MASK :: usize where
  "IOPOS_MASK = REVERSION OR CIRC_POS_MASK OR push_bit CIRC_POS_BITS CIRC_POS_MASK"

definition iopos_unpack :: "usize \<Rightarrow> usize \<Rightarrow> io_pos" where
  "iopos_unpack state cap =
     \<lparr>pos_rv = has_flag state REVERSION, pos_rp = state AND CIRC_POS_MASK,
      pos_wp = drop_bit CIRC_POS_BITS state AND CIRC_POS_MASK, pos_cap = cap\<rparr>"

definition iopos_data_size :: "io_pos \<Rightarrow> usize" where
  "iopos_data_size p =
     (if pos_rv p \<and> pos_wp p = pos_rp p then pos_cap p else (pos_wp p + pos_cap p - pos_rp p) mod pos_cap p)"

definition iopos_free_size :: "io_pos \<Rightarrow> usize" where
  "iopos_free_size p = pos_cap p - iopos_data_size p"

definition iopos_pack :: "io_pos \<Rightarrow> usize \<Rightarrow> usize" where
  "iopos_pack p state =
     (let s = (state AND NOT IOPOS_MASK) OR pos_rp p OR push_bit CIRC_POS_BITS (pos_wp p)
      in if pos_rv p then s OR REVERSION else s AND NOT REVERSION)"

definition advance_wp :: "io_pos \<Rightarrow> usize \<Rightarrow> io_pos" where
  "advance_wp p amount =
     (let new_wp = pos_wp p + amount; crossed = pos_cap p \<le> new_wp
      in p\<lparr>pos_rv := pos_rv p \<or> crossed, pos_wp := new_wp mod pos_cap p\<rparr>)"

definition advance_rp :: "io_pos \<Rightarrow> usize \<Rightarrow> io_pos" where
  "advance_rp p amount =
     (let new_rp = pos_rp p + amount; crossed = pos_cap p \<le> pos_rp p + amount
      in p\<lparr>pos_rv := pos_rv p \<and> \<not> crossed, pos_rp := new_rp mod pos_cap p\<rparr>)"

text \<open>The closures of the updates of the word.\<close>

definition circ_write_word :: "usize \<Rightarrow> usize \<Rightarrow> usize \<Rightarrow> usize" where
  "circ_write_word cap amount s = iopos_pack (advance_wp (iopos_unpack s cap) amount) s"

definition circ_read_word :: "usize \<Rightarrow> usize \<Rightarrow> usize \<Rightarrow> usize" where
  "circ_read_word cap amount s = iopos_pack (advance_rp (iopos_unpack s cap) amount) s"

definition circ_set_flag_word :: "usize \<Rightarrow> usize \<Rightarrow> usize" where
  "circ_set_flag_word flag s = s OR flag"

definition circ_clear_flag_word :: "usize \<Rightarrow> usize \<Rightarrow> usize" where
  "circ_clear_flag_word flag s = s AND NOT flag"

section \<open>Packing\<close>

lemma circ_pos_bits [simp]: "CIRC_POS_BITS = 28"
  by (simp add: CIRC_POS_BITS_def RSV_BITS_def)

lemma circ_pos_mask: "CIRC_POS_MASK = mask 28"
  by (simp add: CIRC_POS_MASK_def mask_eq_exp_minus_1)

lemma unat_circ_max: "unat CIRC_MAX_CAPACITY = 2 ^ 28 - 1"
  by (simp add: CIRC_MAX_CAPACITY_def circ_pos_mask mask_eq_exp_minus_1)

lemma circ_flag_bits:
  "has_flag s CIRC_TX_CLOSED = bit s 63" "has_flag s CIRC_RX_CLOSED = bit s 62"
  "has_flag s TX_STNDBY = bit s 61" "has_flag s RX_STNDBY = bit s 60"
  "has_flag s REVERSION = bit s 59"
  unfolding ring_defs by (simp_all add: has_flag_bit del: push_bit_of_1)

lemma iopos_unpack_bits:
  "iopos_unpack s cap = \<lparr>pos_rv = bit s 59, pos_rp = take_bit 28 s, pos_wp = take_bit 28 (drop_bit 28 s),
     pos_cap = cap\<rparr>"
  by (simp add: iopos_unpack_def circ_flag_bits circ_pos_mask take_bit_eq_mask)

lemma bit_reversion: "bit REVERSION n = (n = 59)"
  unfolding ring_defs by (auto simp: bit_simps simp del: push_bit_of_1)

lemma bit_iopos_mask: "bit IOPOS_MASK n = (n < 56 \<or> n = 59)"
  unfolding IOPOS_MASK_def circ_pos_mask circ_pos_bits bit_or_iff bit_reversion bit_push_bit_iff bit_mask_iff
  by auto

text \<open>A position that fits its field.\<close>

definition fits :: "usize \<Rightarrow> bool" where
  "fits x = (unat x < 2 ^ 28)"

lemma fits_bit: "fits x \<Longrightarrow> bit x n \<Longrightarrow> n < 28"
proof (rule ccontr)
  assume x: "fits x" "bit x n" "\<not> n < 28"
  have "take_bit 28 x = x"
    using x(1) by (simp add: fits_def word_unat_eq_iff unat_take_bit)
  then have "bit (take_bit 28 x) n"
    using x(2) by simp
  then show False
    using x(3) by (simp add: bit_simps)
qed

lemma bit_pack:
  assumes "fits (pos_rp p)" "fits (pos_wp p)" "n < 64"
  shows "bit (iopos_pack p s) n =
     (if n < 28 then bit (pos_rp p) n else if n < 56 then bit (pos_wp p) (n - 28)
      else if n = 59 then pos_rv p else bit s n)"
  using assms fits_bit [of "pos_rp p" n] fits_bit [of "pos_wp p" "n - 28"]
  by (auto simp: iopos_pack_def Let_def bit_simps bit_iopos_mask bit_reversion)

lemma pack_unpack:
  assumes "fits (pos_rp p)" "fits (pos_wp p)"
  shows "iopos_unpack (iopos_pack p s) (pos_cap p) = p"
proof -
  have "take_bit 28 (iopos_pack p s) = pos_rp p"
    using fits_bit [OF assms(1)] assms
    by (intro bit_word_eqI) (auto simp: bit_simps bit_pack)
  moreover have "take_bit 28 (drop_bit 28 (iopos_pack p s)) = pos_wp p"
  proof (rule bit_word_eqI)
    fix n
    show "bit (take_bit 28 (drop_bit 28 (iopos_pack p s))) n = bit (pos_wp p) n"
      using fits_bit [OF assms(2), of n] assms by (cases "n < 28") (auto simp: bit_simps bit_pack)
  qed
  ultimately show ?thesis
    using assms by (simp add: iopos_unpack_bits bit_pack)
qed

lemma pack_flags:
  assumes "fits (pos_rp p)" "fits (pos_wp p)"
  shows "has_flag (iopos_pack p s) CIRC_TX_CLOSED = has_flag s CIRC_TX_CLOSED"
    "has_flag (iopos_pack p s) CIRC_RX_CLOSED = has_flag s CIRC_RX_CLOSED"
    "has_flag (iopos_pack p s) TX_STNDBY = has_flag s TX_STNDBY"
    "has_flag (iopos_pack p s) RX_STNDBY = has_flag s RX_STNDBY"
    "iopos_pack p s AND NOT IOPOS_MASK = s AND NOT IOPOS_MASK"
  using assms
  by (auto simp: circ_flag_bits bit_pack intro!: bit_word_eqI)
    (auto simp: bit_simps bit_iopos_mask bit_pack)


lemma flag_word_unpack:
  assumes "flag \<in> {CIRC_TX_CLOSED, CIRC_RX_CLOSED, TX_STNDBY, RX_STNDBY}"
  shows "iopos_unpack (circ_set_flag_word flag s) cap = iopos_unpack s cap"
    "iopos_unpack (circ_clear_flag_word flag s) cap = iopos_unpack s cap"
proof -
  have f: "bit flag n \<Longrightarrow> 60 \<le> n" for n
    using assms unfolding ring_defs by (auto simp: bit_simps simp del: push_bit_of_1)
  have *: "take_bit 28 s' = take_bit 28 s \<and> take_bit 28 (drop_bit 28 s') = take_bit 28 (drop_bit 28 s)"
    if "\<And>n. n < 60 \<Longrightarrow> bit s' n = bit s n" for s'
    using that by (auto intro!: bit_word_eqI simp: bit_simps)
  have s: "n < 60 \<Longrightarrow> bit (circ_set_flag_word flag s) n = bit s n"
    and c: "n < 60 \<Longrightarrow> bit (circ_clear_flag_word flag s) n = bit s n" for n
    using f [of n] by (auto simp: circ_set_flag_word_def circ_clear_flag_word_def bit_simps)
  show "iopos_unpack (circ_set_flag_word flag s) cap = iopos_unpack s cap"
    "iopos_unpack (circ_clear_flag_word flag s) cap = iopos_unpack s cap"
    using * [OF s] * [OF c] s [of 59] c [of 59] by (simp_all add: iopos_unpack_bits)
qed

lemma circ_flag_bit:
  "bit CIRC_TX_CLOSED n = (n = 63)" "bit CIRC_RX_CLOSED n = (n = 62)"
  "bit TX_STNDBY n = (n = 61)" "bit RX_STNDBY n = (n = 60)"
  unfolding ring_defs by (auto simp: bit_simps simp del: push_bit_of_1)

lemma flag_word_flags:
  "has_flag (circ_set_flag_word CIRC_TX_CLOSED s) CIRC_TX_CLOSED"
  "has_flag (circ_set_flag_word CIRC_RX_CLOSED s) CIRC_RX_CLOSED"
  "has_flag (circ_set_flag_word CIRC_TX_CLOSED s) CIRC_RX_CLOSED = has_flag s CIRC_RX_CLOSED"
  "has_flag (circ_set_flag_word CIRC_RX_CLOSED s) CIRC_TX_CLOSED = has_flag s CIRC_TX_CLOSED"
  "has_flag (circ_set_flag_word CIRC_TX_CLOSED s) TX_STNDBY = has_flag s TX_STNDBY"
  "has_flag (circ_set_flag_word CIRC_TX_CLOSED s) RX_STNDBY = has_flag s RX_STNDBY"
  "has_flag (circ_set_flag_word CIRC_RX_CLOSED s) TX_STNDBY = has_flag s TX_STNDBY"
  "has_flag (circ_set_flag_word CIRC_RX_CLOSED s) RX_STNDBY = has_flag s RX_STNDBY"
  "has_flag (circ_set_flag_word TX_STNDBY s) TX_STNDBY"
  "has_flag (circ_set_flag_word RX_STNDBY s) RX_STNDBY"
  "\<not> has_flag (circ_clear_flag_word TX_STNDBY s) TX_STNDBY"
  "\<not> has_flag (circ_clear_flag_word RX_STNDBY s) RX_STNDBY"
  by (simp_all add: circ_flag_bits circ_set_flag_word_def circ_clear_flag_word_def circ_flag_bit
      bit_or_iff bit_and_iff bit_not_iff)

section \<open>Counters\<close>

text \<open>
  A position stands for \<open>R\<close> items ever read and \<open>W\<close> ever written: the positions are the
  remainders, and the reversion flag says that the writer is one turn ahead.
\<close>

definition circ_cap_ok :: "usize \<Rightarrow> bool" where
  "circ_cap_ok cap = (MIN_CAPACITY \<le> cap \<and> cap \<le> CIRC_MAX_CAPACITY)"

definition counts :: "io_pos \<Rightarrow> nat \<Rightarrow> nat \<Rightarrow> bool" where
  "counts p R W =
     (let c = unat (pos_cap p)
      in circ_cap_ok (pos_cap p) \<and> R \<le> W \<and> W \<le> R + c
       \<and> unat (pos_rp p) = R mod c \<and> unat (pos_wp p) = W mod c
       \<and> pos_rv p = (R div c < W div c))"

lemma circ_cap_nat: "circ_cap_ok cap \<Longrightarrow> 2 \<le> unat cap \<and> unat cap < 2 ^ 28"
  using unat_circ_max by (auto simp: circ_cap_ok_def MIN_CAPACITY_def word_le_nat_alt)

text \<open>The two counters are on the same turn, or the writer is one turn ahead.\<close>

lemma turns:
  fixes c R W :: nat
  assumes "0 < c" "R \<le> W" "W \<le> R + c"
  obtains (same) "W div c = R div c" "R mod c \<le> W mod c" "W = R + (W mod c - R mod c)"
  | (ahead) "W div c = Suc (R div c)" "W mod c \<le> R mod c" "W = R + c - (R mod c - W mod c)"
proof -
  have r: "R = c * (R div c) + R mod c" and w: "W = c * (W div c) + W mod c"
    by simp_all
  have mr: "R mod c < c" and mw: "W mod c < c"
    using assms(1) by simp_all
  have "R div c \<le> W div c"
    using assms(2) by (rule div_le_mono)
  moreover have "W div c \<le> Suc (R div c)"
    using div_le_mono [OF assms(3), of c] div_add_self2 [of c R] assms(1) by simp
  ultimately consider "W div c = R div c" | "W div c = Suc (R div c)"
    by linarith
  then show thesis
  proof cases
    case 1
    then have "W = c * (R div c) + W mod c"
      using w by simp
    with r assms(2) 1 show thesis
      by (intro same) linarith+
  next
    case 2
    then have "W = c * (R div c) + c + W mod c"
      using w by simp
    with r assms(3) 2 mr mw show thesis
      by (intro ahead) linarith+
  qed
qed

lemma counts_data:
  assumes "counts p R W"
  shows "unat (iopos_data_size p) = W - R" "unat (iopos_free_size p) = unat (pos_cap p) - (W - R)"
proof -
  define c where "c = unat (pos_cap p)"
  have c: "2 \<le> c" "c < 2 ^ 28" and b: "R \<le> W" "W \<le> R + c"
    and rp: "unat (pos_rp p) = R mod c" and wp: "unat (pos_wp p) = W mod c"
    and rv: "pos_rv p = (R div c < W div c)"
    using assms circ_cap_nat [of "pos_cap p"] by (auto simp: counts_def c_def Let_def)
  have lr: "R mod c < c" and lw: "W mod c < c"
    using c by simp_all
  have eq: "pos_wp p = pos_rp p \<longleftrightarrow> W mod c = R mod c"
    by (simp add: word_unat_eq_iff rp wp)
  have sum: "unat (pos_wp p + pos_cap p) = W mod c + c"
    unfolding unat_word_ariths wp c_def [symmetric]
    by (intro mod_less less_le_trans [OF add_strict_mono [OF lw c(2)]])
      (use c in simp)
  have "pos_rp p \<le> pos_wp p + pos_cap p"
    using lr by (simp add: word_le_nat_alt sum rp)
  then have diff: "unat ((pos_wp p + pos_cap p - pos_rp p) mod pos_cap p) = (W mod c + c - R mod c) mod c"
    by (simp add: unat_mod unat_sub sum rp c_def)
  show d: "unat (iopos_data_size p) = W - R"
  proof (rule turns [of c R W])
    show "0 < c" "R \<le> W" "W \<le> R + c"
      using c b by simp_all
  next
    assume t: "W div c = R div c" "R mod c \<le> W mod c" "W = R + (W mod c - R mod c)"
    have "(W mod c + c - R mod c) mod c = (W mod c - R mod c) mod c"
      using t(2) by (metis Nat.diff_add_assoc2 mod_add_self2)
    also have "\<dots> = W - R"
      using t(2,3) lw by (metis add_diff_cancel_left' diff_le_self le_less_trans mod_less)
    finally show ?thesis
      using t(1) diff by (simp add: iopos_data_size_def rv)
  next
    assume t: "W div c = Suc (R div c)" "W mod c \<le> R mod c" "W = R + c - (R mod c - W mod c)"
    show ?thesis
    proof (cases "W mod c = R mod c")
      case True
      then show ?thesis
        using t(1,3) by (simp add: iopos_data_size_def rv eq c_def)
    next
      case False
      then have "(W mod c + c - R mod c) mod c = W mod c + c - R mod c"
        using t(2) lr by (intro mod_less) linarith
      moreover have "W - R = W mod c + c - R mod c"
        using t(2,3) lr by linarith
      ultimately show ?thesis
        using False diff by (simp add: iopos_data_size_def eq)
    qed
  qed
  have "iopos_data_size p \<le> pos_cap p"
    using b by (simp add: word_le_nat_alt d c_def)
  then show "unat (iopos_free_size p) = unat (pos_cap p) - (W - R)"
    by (simp add: iopos_free_size_def unat_sub d)
qed


lemma div_add_turn: "0 < (c::nat) \<Longrightarrow> (x + n) div c = x div c + (x mod c + n) div c"
  by (simp add: div_add1_eq [of x n c] div_add1_eq [of "x mod c" n c])

lemma counts_advance_aux:
  fixes x n cap :: usize
  assumes "unat x = X mod unat cap" "circ_cap_ok cap" "unat n \<le> unat cap"
  shows "cap \<le> x + n \<longleftrightarrow> unat cap \<le> X mod unat cap + unat n"
    "unat ((x + n) mod cap) = (X + unat n) mod unat cap"
proof -
  let ?c = "unat cap"
  have c: "2 \<le> ?c" "?c < 2 ^ 28"
    using circ_cap_nat [OF assms(2)] by auto
  have "X mod ?c < ?c"
    using c by simp
  then have "X mod ?c + unat n < 2 ^ 28 + 2 ^ 28"
    using c assms(3) by linarith
  then have "X mod ?c + unat n < 2 ^ 64"
    by (rule less_le_trans) simp
  then have "unat (x + n) = X mod ?c + unat n"
    by (simp add: unat_word_ariths assms(1))
  then show "cap \<le> x + n \<longleftrightarrow> ?c \<le> X mod ?c + unat n"
    "unat ((x + n) mod cap) = (X + unat n) mod ?c"
    by (simp_all add: word_le_nat_alt unat_mod mod_add_left_eq)
qed

lemma counts_write:
  assumes "counts p R W" "unat n + (W - R) \<le> unat (pos_cap p)"
  shows "counts (advance_wp p n) R (W + unat n)"
proof -
  define c where "c = unat (pos_cap p)"
  have a: "circ_cap_ok (pos_cap p)" "R \<le> W" "W \<le> R + c" "unat (pos_rp p) = R mod c"
    "unat (pos_wp p) = W mod c" "pos_rv p = (R div c < W div c)"
    using assms(1) by (auto simp: counts_def c_def Let_def)
  have c: "0 < c" and n: "unat n \<le> unat (pos_cap p)"
    using circ_cap_nat [OF a(1)] assms(2) by (auto simp: c_def)
  note adv = counts_advance_aux [OF a(5) [unfolded c_def] a(1) n, folded c_def]
  have "(R div c < (W + unat n) div c) = (pos_rv p \<or> c \<le> W mod c + unat n)"
  proof (rule turns [OF c a(2,3)])
    assume "W div c = R div c"
    then show ?thesis
      using c div_add_turn [OF c, of W "unat n"] div_greater_zero_iff [of "W mod c + unat n" c]
      by (auto simp: a(6))
  next
    assume "W div c = Suc (R div c)"
    then show ?thesis
      using div_add_turn [OF c, of W "unat n"] by (simp add: a(6))
  qed
  then show ?thesis
    using a assms(2) adv by (simp add: counts_def advance_wp_def Let_def c_def [symmetric])
qed

lemma counts_read:
  assumes "counts p R W" "unat n \<le> W - R"
  shows "counts (advance_rp p n) (R + unat n) W"
proof -
  define c where "c = unat (pos_cap p)"
  have a: "circ_cap_ok (pos_cap p)" "R \<le> W" "W \<le> R + c" "unat (pos_rp p) = R mod c"
    "unat (pos_wp p) = W mod c" "pos_rv p = (R div c < W div c)"
    using assms(1) by (auto simp: counts_def c_def Let_def)
  have c: "0 < c" and n: "unat n \<le> unat (pos_cap p)"
    using circ_cap_nat [OF a(1)] assms(2) a(3) by (auto simp: c_def)
  note adv = counts_advance_aux [OF a(4) [unfolded c_def] a(1) n, folded c_def]
  have "((R + unat n) div c < W div c) = (pos_rv p \<and> \<not> c \<le> R mod c + unat n)"
  proof (rule turns [OF c a(2,3)])
    assume "W div c = R div c"
    then show ?thesis
      using div_add_turn [OF c, of R "unat n"] by (simp add: a(6))
  next
    assume "W div c = Suc (R div c)"
    then show ?thesis
      using c div_add_turn [OF c, of R "unat n"] div_greater_zero_iff [of "R mod c + unat n" c]
      by (auto simp: a(6) not_le)
  qed
  then show ?thesis
    using a assms(2) adv by (simp add: counts_def advance_rp_def Let_def c_def [symmetric])
qed

text \<open>The positions that stand for counters.\<close>

definition iopos_ok :: "io_pos \<Rightarrow> bool" where
  "iopos_ok p =
     (circ_cap_ok (pos_cap p) \<and> pos_rp p < pos_cap p \<and> pos_wp p < pos_cap p
      \<and> (if pos_rv p then pos_wp p \<le> pos_rp p else pos_rp p \<le> pos_wp p))"

lemma counts_ok: "counts p R W \<Longrightarrow> iopos_ok p"
proof -
  assume p: "counts p R W"
  define c where "c = unat (pos_cap p)"
  have a: "circ_cap_ok (pos_cap p)" "R \<le> W" "W \<le> R + c" "unat (pos_rp p) = R mod c"
    "unat (pos_wp p) = W mod c" "pos_rv p = (R div c < W div c)"
    using p by (auto simp: counts_def c_def Let_def)
  have c: "0 < c"
    using circ_cap_nat [OF a(1)] by (simp add: c_def)
  show ?thesis
    by (rule turns [OF c a(2,3)])
      (use a c in \<open>simp_all add: iopos_ok_def word_le_nat_alt word_less_nat_alt c_def [symmetric]\<close>)
qed

lemma ok_counts:
  assumes "iopos_ok p"
  shows "counts p (unat (pos_rp p)) (unat (pos_wp p) + (if pos_rv p then unat (pos_cap p) else 0))"
  using assms circ_cap_nat [of "pos_cap p"]
    div_add_self2 [of "unat (pos_cap p)" "unat (pos_wp p)"]
  by (auto simp: iopos_ok_def counts_def Let_def word_le_nat_alt word_less_nat_alt)

lemma counts_fits: "counts p R W \<Longrightarrow> fits (pos_rp p) \<and> fits (pos_wp p)"
proof -
  assume p: "counts p R W"
  then have "2 \<le> unat (pos_cap p)" "unat (pos_cap p) < 2 ^ 28"
    using circ_cap_nat [of "pos_cap p"] by (simp_all add: counts_def Let_def)
  moreover from this have "R mod unat (pos_cap p) < unat (pos_cap p)" "W mod unat (pos_cap p) < unat (pos_cap p)"
    by simp_all
  ultimately show ?thesis
    using p unfolding fits_def counts_def Let_def by linarith
qed


section \<open>The packed word is a bounded queue\<close>

definition cq_pos :: "cap_word \<Rightarrow> io_pos" where
  "cq_pos x = iopos_unpack (snd x) (fst x)"

definition cq_ok :: "cap_word \<Rightarrow> bool" where
  "cq_ok x = iopos_ok (cq_pos x)"

definition cq_data :: "cap_word \<Rightarrow> nat" where
  "cq_data x = unat (iopos_data_size (cq_pos x))"

definition cq_free :: "cap_word \<Rightarrow> nat" where
  "cq_free x = unat (iopos_free_size (cq_pos x))"

definition cq_produce :: "nat \<Rightarrow> cap_word \<Rightarrow> cap_word" where
  "cq_produce n x = (fst x, circ_write_word (fst x) (of_nat n) (snd x))"

definition cq_consume :: "nat \<Rightarrow> cap_word \<Rightarrow> cap_word" where
  "cq_consume n x = (fst x, circ_read_word (fst x) (of_nat n) (snd x))"

lemma iopos_unpack_cap [simp]: "pos_cap (iopos_unpack s cap) = cap"
  by (simp add: iopos_unpack_def)

lemma advance_cap [simp]: "pos_cap (advance_wp p n) = pos_cap p" "pos_cap (advance_rp p n) = pos_cap p"
  by (simp_all add: advance_wp_def advance_rp_def Let_def)

lemma write_word_counts:
  assumes "counts (iopos_unpack s cap) R W" "unat n + (W - R) \<le> unat cap"
  shows "counts (iopos_unpack (circ_write_word cap n s) cap) R (W + unat n)"
    "circ_write_word cap n s AND NOT IOPOS_MASK = s AND NOT IOPOS_MASK"
proof -
  have c: "counts (advance_wp (iopos_unpack s cap) n) R (W + unat n)"
    using counts_write [OF assms(1)] assms(2) by simp
  note f = counts_fits [OF c]
  show "counts (iopos_unpack (circ_write_word cap n s) cap) R (W + unat n)"
    using c pack_unpack [of "advance_wp (iopos_unpack s cap) n" s] f by (simp add: circ_write_word_def)
  show "circ_write_word cap n s AND NOT IOPOS_MASK = s AND NOT IOPOS_MASK"
    using f by (simp add: circ_write_word_def pack_flags(5))
qed

lemma read_word_counts:
  assumes "counts (iopos_unpack s cap) R W" "unat n \<le> W - R"
  shows "counts (iopos_unpack (circ_read_word cap n s) cap) (R + unat n) W"
    "circ_read_word cap n s AND NOT IOPOS_MASK = s AND NOT IOPOS_MASK"
proof -
  have c: "counts (advance_rp (iopos_unpack s cap) n) (R + unat n) W"
    using counts_read [OF assms(1)] assms(2) by simp
  note f = counts_fits [OF c]
  show "counts (iopos_unpack (circ_read_word cap n s) cap) (R + unat n) W"
    using c pack_unpack [of "advance_rp (iopos_unpack s cap) n" s] f by (simp add: circ_read_word_def)
  show "circ_read_word cap n s AND NOT IOPOS_MASK = s AND NOT IOPOS_MASK"
    using f by (simp add: circ_read_word_def pack_flags(5))
qed

lemma cq_counts:
  assumes "cq_ok x"
  obtains R W where "counts (cq_pos x) R W" "R \<le> W" "W \<le> R + unat (fst x)"
    "cq_data x = W - R" "cq_free x = unat (fst x) - (W - R)"
proof -
  obtain R W where c: "counts (cq_pos x) R W"
    using ok_counts assms unfolding cq_ok_def by blast
  moreover from c have "R \<le> W" "W \<le> R + unat (fst x)"
    by (simp_all add: counts_def Let_def cq_pos_def)
  ultimately show thesis
    using that counts_data [OF c] by (simp add: cq_data_def cq_free_def cq_pos_def)
qed

interpretation circ_q: gap_queue cq_ok cq_data cq_free cq_produce cq_consume
proof
  fix x n
  assume x: "cq_ok x" "n \<le> cq_free x"
  obtain R W where c: "counts (cq_pos x) R W" "R \<le> W" "W \<le> R + unat (fst x)"
    "cq_data x = W - R" "cq_free x = unat (fst x) - (W - R)"
    by (rule cq_counts [OF x(1)])
  have u: "unat (of_nat n :: usize) = n"
    using x(2) c(5) by (intro unat_of_nat_cap [of n "fst x"]) linarith
  then have "unat (of_nat n :: usize) + (W - R) \<le> unat (fst x)"
    using x(2) c(2,3,5) by linarith
  from write_word_counts(1) [OF c(1) [unfolded cq_pos_def] this]
  have k: "counts (cq_pos (cq_produce n x)) R (W + n)"
    by (simp add: cq_pos_def cq_produce_def u)
  then show "cq_ok (cq_produce n x)"
    by (simp add: cq_ok_def counts_ok)
  show "cq_data (cq_produce n x) = cq_data x + n" "cq_free (cq_produce n x) = cq_free x - n"
    using counts_data [OF k] c
    by (simp_all add: cq_data_def [of "cq_produce n x"] cq_free_def [of "cq_produce n x"])
      (simp_all add: cq_pos_def cq_produce_def)
next
  fix x n
  assume x: "cq_ok x" "n \<le> cq_data x"
  obtain R W where c: "counts (cq_pos x) R W" "R \<le> W" "W \<le> R + unat (fst x)"
    "cq_data x = W - R" "cq_free x = unat (fst x) - (W - R)"
    by (rule cq_counts [OF x(1)])
  have u: "unat (of_nat n :: usize) = n"
    using x(2) c(3,4) by (intro unat_of_nat_cap [of n "fst x"]) linarith
  then have "unat (of_nat n :: usize) \<le> W - R"
    using x(2) c(4) by linarith
  from read_word_counts(1) [OF c(1) [unfolded cq_pos_def] this]
  have k: "counts (cq_pos (cq_consume n x)) (R + n) W"
    by (simp add: cq_pos_def cq_consume_def u)
  then show "cq_ok (cq_consume n x)"
    by (simp add: cq_ok_def counts_ok)
  have "n \<le> W - R" "fst (cq_consume n x) = fst x"
    using x(2) c(4) by (simp_all add: cq_consume_def)
  moreover have "cq_data (cq_consume n x) = W - (R + n)"
    "cq_free (cq_consume n x) = unat (fst x) - (W - (R + n))"
    using counts_data [OF k] by (simp_all add: cq_data_def cq_free_def) (simp add: cq_pos_def cq_consume_def)
  ultimately show "cq_data (cq_consume n x) = cq_data x - n" "cq_free (cq_consume n x) = cq_free x + n"
    using c by linarith+
qed


section \<open>Properties\<close>

lemma cq_pair:
  "cq_data (cap, s) = unat (iopos_data_size (iopos_unpack s cap))"
  "cq_free (cap, s) = unat (iopos_free_size (iopos_unpack s cap))"
  "cq_produce n (cap, s) = (cap, circ_write_word cap (of_nat n) s)"
  "cq_consume n (cap, s) = (cap, circ_read_word cap (of_nat n) s)"
  by (simp_all add: cq_data_def cq_free_def cq_pos_def cq_produce_def cq_consume_def)

lemma cq_run_counts:
  "counts (iopos_unpack s cap) R W \<Longrightarrow>
   queue_run cq_data cq_free cq_produce cq_consume ops (cap, s) = Some (cap', t) \<Longrightarrow>
   cap' = cap \<and> counts (iopos_unpack t cap) (R + consumed ops) (W + produced ops)
   \<and> t AND NOT IOPOS_MASK = s AND NOT IOPOS_MASK"
proof (induction ops arbitrary: s R W)
  case (Cons p ops)
  note d = counts_data [OF Cons.prems(1)]
  have RW: "R \<le> W" "W \<le> R + unat cap"
    using Cons.prems(1) by (simp_all add: counts_def Let_def)
  show ?case
  proof (cases p)
    case (Produce n)
    with Cons.prems(2) have n: "n \<le> unat cap - (W - R)"
      and run: "queue_run cq_data cq_free cq_produce cq_consume ops (cap, circ_write_word cap (of_nat n) s)
        = Some (cap', t)"
      using d by (auto simp: cq_pair split: if_splits)
    have u: "unat (of_nat n :: usize) = n"
      using n by (intro unat_of_nat_cap [of n cap]) linarith
    have "unat (of_nat n :: usize) + (W - R) \<le> unat cap"
      using n RW u by linarith
    note w = write_word_counts [OF Cons.prems(1) this]
    show ?thesis
      using Cons.IH [OF w(1) run] w(2) by (simp add: Produce u add.assoc)
  next
    case (Consume n)
    with Cons.prems(2) have n: "n \<le> W - R"
      and run: "queue_run cq_data cq_free cq_produce cq_consume ops (cap, circ_read_word cap (of_nat n) s)
        = Some (cap', t)"
      using d by (auto simp: cq_pair split: if_splits)
    have u: "unat (of_nat n :: usize) = n"
      using n RW by (intro unat_of_nat_cap [of n cap]) linarith
    have "unat (of_nat n :: usize) \<le> W - R"
      using n u by simp
    note w = read_word_counts [OF Cons.prems(1) this]
    show ?thesis
      using Cons.IH [OF w(1) run] w(2) by (simp add: Consume u add.assoc)
  qed
qed simp

lemmas cq_eval = cq_data_def cq_free_def cq_produce_def cq_consume_def cq_pos_def iopos_unpack_def
  iopos_data_size_def iopos_free_size_def circ_write_word_def circ_read_word_def iopos_pack_def
  advance_wp_def advance_rp_def has_flag_def IOPOS_MASK_def CIRC_POS_MASK_def REVERSION_def

text \<open>
  C14: The word of the circular buffer is exactly a pair of unbounded counters: if it stands for
  \<open>R\<close> items read and \<open>W\<close> written, then after any run of commits and consumptions, each within
  the free space or the data its side sees, it stands for the counters advanced by what was
  consumed and produced, it reports their difference as data, all the rest of the capacity
  (no slot is sacrificed) as free space, and every bit that is not a position or the reversion
  flag is untouched.
\<close>

theorem circ_word_counts:
  assumes "counts (iopos_unpack s cap) R W"
    "queue_run cq_data cq_free cq_produce cq_consume ops (cap, s) = Some (cap', t)"
  shows "cap' = cap \<and> counts (iopos_unpack t cap) (R + consumed ops) (W + produced ops)
     \<and> cq_data (cap, t) = (W + produced ops) - (R + consumed ops)
     \<and> cq_data (cap, t) + cq_free (cap, t) = unat cap
     \<and> t AND NOT IOPOS_MASK = s AND NOT IOPOS_MASK"
proof -
  from cq_run_counts [OF assms] have c: "counts (iopos_unpack t cap) (R + consumed ops) (W + produced ops)"
    and r: "cap' = cap" "t AND NOT IOPOS_MASK = s AND NOT IOPOS_MASK"
    by simp_all
  then have "W + produced ops \<le> R + consumed ops + unat cap"
    by (simp add: counts_def Let_def)
  then show ?thesis
    using c r counts_data [OF c] by (simp add: cq_data_def cq_free_def cq_pos_def)
qed

theorem circ_word_counts_witness:
  "queue_run cq_data cq_free cq_produce cq_consume [Produce 4, Consume 3, Produce 3] (4, 0)
     = Some (4, 576460753108729859)
   \<and> counts (iopos_unpack 576460753108729859 4) 3 7 \<and> cq_data (4, 576460753108729859) = 4"
proof -
  have 1: "counts (iopos_unpack 0 4) 0 0"
    by (simp add: counts_def iopos_unpack_def circ_cap_ok_def MIN_CAPACITY_def CIRC_MAX_CAPACITY_def
        CIRC_POS_MASK_def has_flag_def)
  have 2: "queue_run cq_data cq_free cq_produce cq_consume [Produce 4, Consume 3, Produce 3] (4, 0)
     = Some (4, 576460753108729859)"
    by (simp add: cq_eval)
  from circ_word_counts [OF 1 2] show ?thesis
    using 2 by simp
qed

end
