(* ===== verification/Segm_Io.thy ===== *)
theory Segm_Io
  imports Segm
begin

text \<open>
  Moving items between a borrowed segment and a device (\<open>crates/abs_buff/src/buffer/segm_.rs\<close>,
  \<open>segm_mut_input_async_\<close> and \<open>segm_ref_output_async_\<close>). The device is code of the caller: a
  parameter that, polled with a region, is either not ready (\<open>None\<close>) or answers with a count, an
  error, or both (\<open>SomeOf\<close>). The loops are modelled from one poll of the future on: when the device
  is not ready the poll ends there and what was moved stays consumed.
\<close>

section \<open>Answers of a device\<close>

datatype ('l, 'r) some_of = OfLeft 'l | OfRight 'r | OfBoth 'l 'r

fun pick_left :: "('l, 'r) some_of \<Rightarrow> 'l option" where
  "pick_left (OfLeft l) = Some l"
| "pick_left (OfRight r) = None"
| "pick_left (OfBoth l r) = Some l"

fun pick_right :: "('l, 'r) some_of \<Rightarrow> 'r option" where
  "pick_right (OfLeft l) = None"
| "pick_right (OfRight r) = Some r"
| "pick_right (OfBoth l r) = Some r"

text \<open>
  An input device polled for at most \<open>n\<close> items gives the items it wrote to the front of the
  region; an output device polled with cells gives the number of cells it took.
\<close>

type_synonym ('a, 'e, 'i) input_dev = "'i \<Rightarrow> nat \<Rightarrow> ('a list, 'e) some_of option \<times> 'i"
type_synonym ('a, 'e, 'o) output_dev = "'o \<Rightarrow> 'a option list \<Rightarrow> (nat, 'e) some_of option \<times> 'o"

text \<open>\<open>TrInput\<close> and \<open>TrOutput\<close>: a device moves no more than it is offered.\<close>

definition items_of :: "('a list, 'e) some_of option \<Rightarrow> 'a list" where
  "items_of x = (case x of None \<Rightarrow> [] | Some y \<Rightarrow> (case pick_left y of None \<Rightarrow> [] | Some xs \<Rightarrow> xs))"

definition count_of :: "(nat, 'e) some_of option \<Rightarrow> nat" where
  "count_of x = (case x of None \<Rightarrow> 0 | Some y \<Rightarrow> (case pick_left y of None \<Rightarrow> 0 | Some n \<Rightarrow> n))"

text \<open>\<open>given i\<close> is what the device has handed out so far, \<open>taken o\<close> what it has received.\<close>

definition input_ok :: "('a, 'e, 'i) input_dev \<Rightarrow> ('i \<Rightarrow> 'a list) \<Rightarrow> bool" where
  "input_ok rd given =
     (\<forall>i n. let (x, i') = rd i n
        in length (items_of x) \<le> n \<and> given i' = given i @ items_of x)"

definition output_ok :: "('a, 'e, 'o) output_dev \<Rightarrow> ('o \<Rightarrow> 'a option list) \<Rightarrow> bool" where
  "output_ok wr taken =
     (\<forall>p cs. let (x, q) = wr p cs
        in count_of x \<le> length cs \<and> taken q = taken p @ take (count_of x) cs)"

section \<open>The loops\<close>

text \<open>The amount agreed on, from the demand and the size of the segment.\<close>

definition agreed_max :: "usize demand \<Rightarrow> nat \<Rightarrow> usize option run" where
  "agreed_max d sz =
     run_bind (demand_compromise d (LessThan (of_nat sz)))
       (\<lambda>compromised. case compromised of None \<Rightarrow> Done None
          | Some e \<Rightarrow> (case demand_max e of None \<Rightarrow> Panic ''unreachable'' | Some m \<Rightarrow> Done (Some m)))"

function input_loop ::
    "('a, 'e, 'i) input_dev \<Rightarrow> nat \<Rightarrow> nat \<Rightarrow> 'a memory \<Rightarrow> segm \<Rightarrow> 'i \<Rightarrow> nat
     \<Rightarrow> (nat, 'e) some_of option \<times> 'a memory \<times> segm \<times> 'i" where
  "input_loop rd sz mx m s i c =
     (if mx \<le> c then (Some (OfLeft c), m, s, i)
      else
        (case rd i (min (sz - c) (mx - c)) of
           (None, i') \<Rightarrow> (None, m, s, i')
         | (Some x, i') \<Rightarrow>
             (case pick_left x of
                Some xs \<Rightarrow>
                  if xs = [] then (Some (OfLeft c), m, s, i')
                  else
                    (let m' = mem_write m (sbase s + soff s) (map Some xs);
                         s' = s\<lparr>soff := soff s + length xs\<rparr>; c' = c + length xs
                     in case pick_right x of
                          Some err \<Rightarrow> (Some (OfBoth c' err), m', s', i')
                        | None \<Rightarrow> input_loop rd sz mx m' s' i' c')
              | None \<Rightarrow>
                  (case pick_right x of
                     Some err \<Rightarrow> (Some (OfBoth c err), m, s, i')
                   | None \<Rightarrow> (Some (OfLeft c), m, s, i')))))"
  by pat_completeness auto
termination
  by (relation "measure (\<lambda>(rd, sz, mx, m, s, i, c). mx - c)") (auto simp: neq_Nil_conv)

function output_loop ::
    "('a, 'e, 'o) output_dev \<Rightarrow> nat \<Rightarrow> nat \<Rightarrow> 'a memory \<Rightarrow> segm \<Rightarrow> 'o \<Rightarrow> nat
     \<Rightarrow> (nat, 'e) some_of option \<times> segm \<times> 'o" where
  "output_loop wr sz mx m s o1 c =
     (if mx \<le> c then (Some (OfLeft c), s, o1)
      else
        (case wr o1 (mem_read m (sbase s + soff s) (min (sz - c) (mx - c))) of
           (None, o2) \<Rightarrow> (None, s, o2)
         | (Some x, o2) \<Rightarrow>
             (case pick_left x of
                Some cc \<Rightarrow>
                  if cc = 0 then (Some (OfLeft c), s, o2)
                  else
                    (let s' = s\<lparr>soff := soff s + cc\<rparr>; c' = c + cc
                     in case pick_right x of
                          Some err \<Rightarrow> (Some (OfBoth c' err), s', o2)
                        | None \<Rightarrow> output_loop wr sz mx m s' o2 c')
              | None \<Rightarrow>
                  (case pick_right x of
                     Some err \<Rightarrow> (Some (OfBoth c err), s, o2)
                   | None \<Rightarrow> (Some (OfLeft c), s, o2)))))"
  by pat_completeness auto
termination
  by (relation "measure (\<lambda>(wr, sz, mx, m, s, o1, c). mx - c)") auto

declare input_loop.simps [simp del] output_loop.simps [simp del]

text \<open>\<open>move_items_from_input_async\<close> and \<open>move_items_to_output_async\<close>, polled once.\<close>

definition segm_mut_input ::
    "('a, 'e, 'i) input_dev \<Rightarrow> 'a memory \<Rightarrow> segm \<Rightarrow> 'i \<Rightarrow> usize demand
     \<Rightarrow> ((nat, 'e) some_of option \<times> 'a memory \<times> segm \<times> 'i) run" where
  "segm_mut_input rd m s i d =
     (let sz = slen s - soff s
      in run_bind (agreed_max d sz) (\<lambda>a. case a of
           None \<Rightarrow> Done (Some (OfLeft 0), m, s, i)
         | Some mx \<Rightarrow> Done (input_loop rd sz (unat mx) m s i 0)))"

definition segm_ref_output ::
    "('a, 'e, 'o) output_dev \<Rightarrow> 'a memory \<Rightarrow> segm \<Rightarrow> 'o \<Rightarrow> usize demand
     \<Rightarrow> ((nat, 'e) some_of option \<times> segm \<times> 'o) run" where
  "segm_ref_output wr m s o1 d =
     (let sz = slen s - soff s
      in run_bind (agreed_max d sz) (\<lambda>a. case a of
           None \<Rightarrow> Done (Some (OfLeft 0), s, o1)
         | Some mx \<Rightarrow> Done (output_loop wr sz (unat mx) m s o1 0)))"

section \<open>What the loops do\<close>

lemma agreed_max_less_than: "agreed_max (LessThan a) sz = Done (Some (min a (of_nat sz)))"
  by (simp add: agreed_max_def)

text \<open>
  The input loop: the offset grows by the items written, which lie in the cells passed over, and a
  count in the answer is the number of items.
\<close>

text \<open>Whatever the device does, a finished loop passed over the number of items it reports.\<close>

lemma input_loop_offset:
  "input_loop rd sz mx m s i c = (Some y, m', s', i') \<Longrightarrow>
     \<exists>n. pick_left y = Some n \<and> soff s' + c = soff s + n"
proof (induction rd sz mx m s i c rule: input_loop.induct)
  case (1 rd sz mx m s i c)
  obtain x i1 where d: "rd i (min (sz - c) (mx - c)) = (x, i1)"
    by fastforce
  show ?case
  proof (cases "\<not> mx \<le> c \<and> (\<exists>z xs. x = Some z \<and> pick_left z = Some xs \<and> xs \<noteq> [] \<and> pick_right z = None)")
    case True
    then obtain z xs where z: "x = Some z" "pick_left z = Some xs" "xs \<noteq> []" "pick_right z = None"
      and c: "\<not> mx \<le> c"
      by blast
    have "input_loop rd sz mx (mem_write m (sbase s + soff s) (map Some xs))
        (s\<lparr>soff := soff s + length xs\<rparr>) i1 (c + length xs) = (Some y, m', s', i')"
      using "1.prems" c d z by (simp add: input_loop.simps [of rd sz mx m s i c] Let_def)
    from "1.IH" [OF c d [symmetric] z(1-3) refl refl refl z(4) this] show ?thesis
      by auto
  next
    case False
    with "1.prems" d show ?thesis
      by (auto simp: input_loop.simps [of rd sz mx m s i c] Let_def split: if_splits option.splits)
  qed
qed

lemma output_loop_offset:
  "output_loop wr sz mx m s p c = (Some y, s', p') \<Longrightarrow>
     \<exists>n. pick_left y = Some n \<and> soff s' + c = soff s + n"
proof (induction wr sz mx m s p c rule: output_loop.induct)
  case (1 wr sz mx m s p c)
  obtain x p1 where d: "wr p (mem_read m (sbase s + soff s) (min (sz - c) (mx - c))) = (x, p1)"
    by fastforce
  show ?case
  proof (cases "\<not> mx \<le> c \<and> (\<exists>z k. x = Some z \<and> pick_left z = Some k \<and> k \<noteq> 0 \<and> pick_right z = None)")
    case True
    then obtain z k where z: "x = Some z" "pick_left z = Some k" "k \<noteq> 0" "pick_right z = None"
      and c: "\<not> mx \<le> c"
      by blast
    have "output_loop wr sz mx m (s\<lparr>soff := soff s + k\<rparr>) p1 (c + k) = (Some y, s', p')"
      using "1.prems" c d z by (simp add: output_loop.simps [of wr sz mx m s p c] Let_def)
    from "1.IH" [OF c d [symmetric] z(1-3) refl refl z(4) this] show ?thesis
      by auto
  next
    case False
    with "1.prems" d show ?thesis
      by (auto simp: output_loop.simps [of wr sz mx m s p c] Let_def split: if_splits option.splits)
  qed
qed

lemma segm_mut_input_offset:
  assumes "segm_mut_input rd m s i d = Done (Some y, m', s', i')"
  shows "\<exists>n. pick_left y = Some n \<and> soff s' = soff s + n"
proof -
  from assms obtain a where "agreed_max d (slen s - soff s) = Done a"
    and b: "(case a of None \<Rightarrow> Done (Some (OfLeft 0), m, s, i)
       | Some mx \<Rightarrow> Done (input_loop rd (slen s - soff s) (unat mx) m s i 0)) = Done (Some y, m', s', i')"
    by (auto simp: segm_mut_input_def Let_def)
  then show ?thesis
    by (cases a) (auto dest!: input_loop_offset)
qed

lemma segm_ref_output_offset:
  assumes "segm_ref_output wr m s p d = Done (Some y, s', p')"
  shows "\<exists>n. pick_left y = Some n \<and> soff s' = soff s + n"
proof -
  from assms obtain a where "agreed_max d (slen s - soff s) = Done a"
    and b: "(case a of None \<Rightarrow> Done (Some (OfLeft 0), s, p)
       | Some mx \<Rightarrow> Done (output_loop wr (slen s - soff s) (unat mx) m s p 0)) = Done (Some y, s', p')"
    by (auto simp: segm_ref_output_def Let_def)
  then show ?thesis
    by (cases a) (auto dest!: output_loop_offset)
qed

lemma input_okD:
  assumes "input_ok rd given" "rd i n = (x, i')"
  shows "length (items_of x) \<le> n" "given i' = given i @ items_of x"
  using assms(1) [unfolded input_ok_def, THEN spec [of _ i], THEN spec [of _ n]]
  by (simp_all add: assms(2))

lemma output_okD:
  assumes "output_ok wr taken" "wr p cs = (x, q)"
  shows "count_of x \<le> length cs" "taken q = taken p @ take (count_of x) cs"
  using assms(1) [unfolded output_ok_def, THEN spec [of _ p], THEN spec [of _ cs]]
  by (simp_all add: assms(2))

lemma mem_read_add: "mem_read m a (k + j) = mem_read m a k @ mem_read m (a + k) j"
  by (simp only: mem_read_def take_add drop_drop add.commute [of a k])

lemma input_loop_spec:
  assumes "input_loop rd sz mx m s i c = (x, m', s', i')" "input_ok rd given"
    "segm_ok m s" "mx \<le> sz" "sz - c \<le> slen s - soff s" "c \<le> mx"
  obtains xs where "s' = s\<lparr>soff := soff s + length xs\<rparr>" "length xs \<le> mx - c"
    "m' = mem_write m (sbase s + soff s) (map Some xs)" "given i' = given i @ xs"
    "\<And>y n. x = Some y \<Longrightarrow> pick_left y = Some n \<Longrightarrow> n = c + length xs"
    "\<And>y. x = Some y \<Longrightarrow> pick_left y \<noteq> None"
  using assms
proof (induction rd sz mx m s i c arbitrary: thesis rule: input_loop.induct)
  case (1 rd sz mx m s i c)
  note prem = "1.prems"
  consider (full) "mx \<le> c"
    | (pending) i1 where "\<not> mx \<le> c" "rd i (min (sz - c) (mx - c)) = (None, i1)"
    | (none) y i1 where "\<not> mx \<le> c" "rd i (min (sz - c) (mx - c)) = (Some y, i1)"
        "pick_left y = None \<or> pick_left y = Some []"
    | (items) y i1 xs where "\<not> mx \<le> c" "rd i (min (sz - c) (mx - c)) = (Some y, i1)"
        "pick_left y = Some xs" "xs \<noteq> []"
    by (metis not_None_eq surj_pair)
  then show ?case
  proof cases
    case full
    then show ?thesis
      using prem(2) by (intro prem(1) [of "[]"]) (auto simp: input_loop.simps)
  next
    case pending
    then show ?thesis
      using prem(2) input_okD(2) [OF prem(3) pending(2)]
      by (intro prem(1) [of "[]"]) (auto simp: input_loop.simps items_of_def)
  next
    case none
    then show ?thesis
      using prem(2) input_okD(2) [OF prem(3) none(2)] by (intro prem(1) [of "[]"])
        (auto simp: input_loop.simps [of rd sz mx m s i c] items_of_def split: option.splits)
  next
    case items
    have gv: "given i1 = given i @ xs" and len: "length xs \<le> min (sz - c) (mx - c)"
      using input_okD [OF prem(3) items(2)] items(3) by (simp_all add: items_of_def)
    let ?m = "mem_write m (sbase s + soff s) (map Some xs)"
    let ?s = "s\<lparr>soff := soff s + length xs\<rparr>"
    have room: "soff s + length xs \<le> slen s"
      using len prem(4,6) items(4) by (auto simp: segm_ok_def)
    then have in_mem: "sbase s + soff s + length (map Some xs) \<le> length m"
      using prem(4) by (simp add: segm_ok_def)
    show ?thesis
    proof (cases "pick_right y")
      case (Some err)
      then show ?thesis
        using prem(2) items len gv
        by (intro prem(1) [of xs]) (auto simp: input_loop.simps [of rd sz mx m s i c])
    next
      case None
      then have rec: "input_loop rd sz mx ?m ?s i1 (c + length xs) = (x, m', s', i')"
        using prem(2) items by (simp add: input_loop.simps [of rd sz mx m s i c] Let_def)
      have ok: "segm_ok ?m ?s"
        using prem(4) room in_mem by (simp add: segm_ok_def)
      have szs: "sz - (c + length xs) \<le> slen ?s - soff ?s" "c + length xs \<le> mx"
        using prem(6) len items(1) by auto
      note ih = "1.IH" [OF items(1) items(2) [symmetric] refl items(3,4) refl refl refl None
          _ rec prem(3) ok prem(5) szs]
      show ?thesis
      proof (rule ih)
        fix ys
        assume s': "s' = ?s\<lparr>soff := soff ?s + length ys\<rparr>" and l: "length ys \<le> mx - (c + length xs)"
          and m': "m' = mem_write ?m (sbase ?s + soff ?s) (map Some ys)"
          and g: "given i' = given i1 @ ys"
          and n: "\<And>z n. x = Some z \<Longrightarrow> pick_left z = Some n \<Longrightarrow> n = c + length xs + length ys"
          and p: "\<And>z. x = Some z \<Longrightarrow> pick_left z \<noteq> None"
        have "m' = mem_write m (sbase s + soff s) (map Some (xs @ ys))"
        proof -
          have "sbase s + soff s \<le> length m"
            using in_mem by simp
          then show ?thesis
            by (simp add: m' mem_write_def ac_simps)
        qed
        moreover have "n = c + length (xs @ ys)" if "x = Some z" "pick_left z = Some n" for z n
          using n [OF that] by simp
        ultimately show ?thesis
          using s' l p szs(2) g gv by (intro prem(1) [of "xs @ ys"]) auto
      qed
    qed
  qed
qed

text \<open>The output loop: the device receives the cells passed over.\<close>

lemma output_loop_spec:
  assumes "output_loop wr sz mx m s p c = (x, s', p')" "output_ok wr taken"
    "segm_ok m s" "mx \<le> sz" "sz - c \<le> slen s - soff s" "c \<le> mx"
  obtains k where "s' = s\<lparr>soff := soff s + k\<rparr>" "k \<le> mx - c"
    "taken p' = taken p @ mem_read m (sbase s + soff s) k"
    "\<And>y n. x = Some y \<Longrightarrow> pick_left y = Some n \<Longrightarrow> n = c + k"
    "\<And>y. x = Some y \<Longrightarrow> pick_left y \<noteq> None"
  using assms
proof (induction wr sz mx m s p c arbitrary: thesis rule: output_loop.induct)
  case (1 wr sz mx m s p c)
  note prem = "1.prems"
  let ?cs = "mem_read m (sbase s + soff s) (min (sz - c) (mx - c))"
  consider (full) "mx \<le> c"
    | (pending) i1 where "\<not> mx \<le> c" "wr p ?cs = (None, i1)"
    | (none) y i1 where "\<not> mx \<le> c" "wr p ?cs = (Some y, i1)"
        "pick_left y = None \<or> pick_left y = Some 0"
    | (items) y i1 k where "\<not> mx \<le> c" "wr p ?cs = (Some y, i1)" "pick_left y = Some k" "k \<noteq> 0"
    by (metis not_None_eq surj_pair)
  then show ?case
  proof cases
    case full
    then show ?thesis
      using prem(2) by (intro prem(1) [of 0]) (auto simp: output_loop.simps mem_read_def)
  next
    case pending
    then show ?thesis
      using prem(2) output_okD(2) [OF prem(3) pending(2)]
      by (intro prem(1) [of 0]) (auto simp: output_loop.simps count_of_def mem_read_def)
  next
    case none
    then show ?thesis
      using prem(2) output_okD(2) [OF prem(3) none(2)] by (intro prem(1) [of 0])
        (auto simp: output_loop.simps [of wr sz mx m s p c] count_of_def mem_read_def
          split: option.splits)
  next
    case items
    have room0: "sbase s + soff s + min (sz - c) (mx - c) \<le> length m"
      using prem(4,6) items(1) prem(5) by (auto simp: segm_ok_def)
    have k: "k \<le> min (sz - c) (mx - c)" and tk: "taken i1 = taken p @ mem_read m (sbase s + soff s) k"
      using output_okD [OF prem(3) items(2)] items(3) room0
      by (auto simp: count_of_def mem_read_def min_absorb1)
    let ?s = "s\<lparr>soff := soff s + k\<rparr>"
    have room: "soff s + k \<le> slen s"
      using k prem(4,6) items(4) by (auto simp: segm_ok_def)
    show ?thesis
    proof (cases "pick_right y")
      case (Some err)
      then show ?thesis
        using prem(2) items k tk
        by (intro prem(1) [of k]) (auto simp: output_loop.simps [of wr sz mx m s p c])
    next
      case None
      then have rec: "output_loop wr sz mx m ?s i1 (c + k) = (x, s', p')"
        using prem(2) items by (simp add: output_loop.simps [of wr sz mx m s p c] Let_def)
      have ok: "segm_ok m ?s"
        using prem(4) room by (simp add: segm_ok_def)
      have szs: "sz - (c + k) \<le> slen ?s - soff ?s" "c + k \<le> mx"
        using prem(6) k items(1) by auto
      note ih = "1.IH" [OF items(1) items(2) [symmetric] refl items(3,4) refl refl None
          _ rec prem(3) ok prem(5) szs]
      show ?thesis
      proof (rule ih)
        fix j
        assume s': "s' = ?s\<lparr>soff := soff ?s + j\<rparr>" and l: "j \<le> mx - (c + k)"
          and g: "taken p' = taken i1 @ mem_read m (sbase ?s + soff ?s) j"
          and n: "\<And>z n. x = Some z \<Longrightarrow> pick_left z = Some n \<Longrightarrow> n = c + k + j"
          and p: "\<And>z. x = Some z \<Longrightarrow> pick_left z \<noteq> None"
        have "n = c + (k + j)" if "x = Some z" "pick_left z = Some n" for z n
          using n [OF that] by simp
        then show ?thesis
          using s' l p szs(2) g tk
          by (intro prem(1) [of "k + j"]) (auto simp: mem_read_add add.assoc)
      qed
    qed
  qed
qed

end
