(* ===== verification/Ring_Buffer.thy ===== *)
theory Ring_Buffer
  imports Ring_State Ring_Segm
begin

text \<open>
  The ring buffer's operations (\<open>crates/buffex/src/ring_buffer/state_.rs\<close>, \<open>tx_.rs\<close>, \<open>rx_.rs\<close>,
  \<open>error_.rs\<close>): the state word of \<open>Ring_State\<close> with the buffer's cells, the four waker slots
  and the log of wake-ups. An update of the word is atomic (\<open>Atomic_Flags\<close>); \<open>debug_assert!\<close>s
  are not modelled, their conditions are theorems where the protocol gives them.
\<close>

section \<open>State\<close>

datatype park_side = TxUser | TxRuntime | RxUser | RxRuntime

text \<open>
  A waiter is referenced by its address. The slot of a side points to at most one waiter, and
  a waiter holds the waker of the last poll.
\<close>

type_synonym wid = nat
type_synonym waker = nat

record 'a ring =
  rword :: usize
  rmem :: "'a memory"
  slot :: "park_side \<Rightarrow> wid option"
  waiters :: "wid \<Rightarrow> waker option"
  woken :: "waker list"

datatype tx_error = TxArgument | TxCancelled | TxClosing | TxStuffed usize
datatype rx_error = RxArgument | RxCancelled | RxClosing | RxDrained usize

definition capacity :: "'a ring \<Rightarrow> usize" where
  "capacity r = of_nat (length (rmem r))"

definition try_new :: "'a memory \<Rightarrow> (usize, 'a ring) rust_result" where
  "try_new buffer =
     (let cap = of_nat (length buffer)
      in if \<not> (2 \<le> cap \<and> cap \<le> MAX_CAPACITY) then Inl cap
         else Inr \<lparr>rword = 0, rmem = buffer, slot = (\<lambda>_. None), waiters = (\<lambda>_. None), woken = []\<rparr>)"

definition try_new_copy :: "'a list \<Rightarrow> (usize, 'a ring) rust_result" where
  "try_new_copy buffer =
     (let cap = of_nat (length buffer)
      in if \<not> (2 \<le> cap \<and> cap \<le> MAX_CAPACITY) then Inl cap
         else Inr \<lparr>rword = 0, rmem = map Some buffer, slot = (\<lambda>_. None), waiters = (\<lambda>_. None),
                   woken = []\<rparr>)"

section \<open>Waker slots\<close>

text \<open>
  One attempt of \<open>DemandSlot::register\<close>; \<open>None\<close> while another waiter occupies the slot, where the
  source spins until that waiter deregisters.
\<close>

definition slot_register :: "park_side \<Rightarrow> wid \<Rightarrow> 'a ring \<Rightarrow> 'a ring option" where
  "slot_register side w r =
     (case slot r side of
        None \<Rightarrow> Some (r\<lparr>slot := (slot r)(side := Some w)\<rparr>)
      | Some cur \<Rightarrow> if cur = w then Some r else None)"

definition slot_deregister :: "park_side \<Rightarrow> wid \<Rightarrow> 'a ring \<Rightarrow> 'a ring" where
  "slot_deregister side w r =
     (if slot r side = Some w then r\<lparr>slot := (slot r)(side := None)\<rparr> else r)"

definition slot_signal :: "park_side \<Rightarrow> 'a ring \<Rightarrow> 'a ring" where
  "slot_signal side r =
     (case slot r side of
        None \<Rightarrow> r
      | Some w \<Rightarrow>
          (let r' = r\<lparr>slot := (slot r)(side := None)\<rparr>
           in case waiters r w of None \<Rightarrow> r' | Some k \<Rightarrow> r'\<lparr>woken := woken r' @ [k]\<rparr>))"

definition signal_all :: "'a ring \<Rightarrow> 'a ring" where
  "signal_all r =
     slot_signal RxRuntime (slot_signal RxUser (slot_signal TxRuntime (slot_signal TxUser r)))"

section \<open>Positions and flags\<close>

text \<open>\<open>update_state_\<close>: one atomic update of the word.\<close>

definition update_state :: "(usize \<Rightarrow> usize) \<Rightarrow> 'a ring \<Rightarrow> 'a ring" where
  "update_state f r = r\<lparr>rword := snd (atomic_update (\<lambda>_. True) f (rword r))\<rparr>"

definition ring_advance_write :: "usize \<Rightarrow> 'a ring \<Rightarrow> 'a ring" where
  "ring_advance_write amount r =
     signal_all (update_state (advance_write_word (capacity r) amount) r)"

definition ring_advance_read :: "usize \<Rightarrow> 'a ring \<Rightarrow> 'a ring" where
  "ring_advance_read amount r =
     signal_all (update_state (advance_read_word (capacity r) amount) r)"

definition close_tx :: "'a ring \<Rightarrow> 'a ring" where
  "close_tx r = signal_all (update_state (set_flag_word TX_CLOSED) r)"

definition close_rx :: "'a ring \<Rightarrow> 'a ring" where
  "close_rx r = signal_all (update_state (set_flag_word RX_CLOSED) r)"

definition data_of :: "'a ring \<Rightarrow> usize" where
  "data_of r = (let (rp, wp) = ring_unpack (rword r) in data_size_of (capacity r) rp wp)"

definition free_of :: "'a ring \<Rightarrow> usize" where
  "free_of r = (let (rp, wp) = ring_unpack (rword r) in free_size_of (capacity r) rp wp)"

definition is_tx_closed :: "'a ring \<Rightarrow> bool" where
  "is_tx_closed r = has_flag (rword r) TX_CLOSED"

definition is_rx_closed :: "'a ring \<Rightarrow> bool" where
  "is_rx_closed r = has_flag (rword r) RX_CLOSED"

section \<open>Borrowing a region\<close>

definition try_write_at :: "'a ring \<Rightarrow> usize \<Rightarrow> (tx_error, usize \<times> usize) rust_result" where
  "try_write_at r len =
     (let state = rword r; (rp, wp) = ring_unpack state; free = free_size_of (capacity r) rp wp
      in if free = 0 \<or> has_flag state RECV_IN_FLIGHT then
           (if has_flag state TX_CLOSED then Inl TxClosing else Inl (TxStuffed wp))
         else Inr (wp, min len free))"

definition try_read_at :: "'a ring \<Rightarrow> usize \<Rightarrow> (rx_error, usize \<times> usize) rust_result" where
  "try_read_at r len =
     (let state = rword r; (rp, wp) = ring_unpack state; data = data_size_of (capacity r) rp wp
      in if data = 0 \<or> has_flag state SEND_IN_FLIGHT then
           (if has_flag state RX_CLOSED then Inl RxClosing else Inl (RxDrained rp))
         else Inr (rp, min len data))"

definition try_peek_at :: "'a ring \<Rightarrow> (rx_error, usize \<times> usize) rust_result" where
  "try_peek_at r =
     (let state = rword r; (rp, wp) = ring_unpack state; data = data_size_of (capacity r) rp wp
      in if data = 0 \<or> has_flag state SEND_IN_FLIGHT then
           (if has_flag state RX_CLOSED then Inl RxClosing else Inl (RxDrained rp))
         else Inr (rp, data))"

text \<open>\<open>readable_slices_\<close> and \<open>writable_slices_\<close>: a region as up to two slices.\<close>

definition region_slices :: "'a ring \<Rightarrow> usize \<Rightarrow> usize \<Rightarrow> slice \<times> slice" where
  "region_slices r start len =
     (let first = min len (capacity r - start)
      in ((unat start, unat first), (if first < len then (0, unat (len - first)) else (0, 0))))"

text \<open>\<open>write_segm\<close>, \<open>read_segm\<close> and \<open>peek_segm\<close> build the same pieces.\<close>

definition write_segm :: "'a ring \<Rightarrow> usize \<Rightarrow> usize \<Rightarrow> recl" where
  "write_segm r start tk =
     (let cap = capacity r; first = min tk (cap - start)
      in recl_new (if first < tk then Two (unat start, unat cap - unat start) (0, unat (tk - first))
                   else One (unat start, unat tk)))"

definition read_segm :: "'a ring \<Rightarrow> usize \<Rightarrow> usize \<Rightarrow> recl" where
  "read_segm r start tk =
     (let cap = capacity r; first = min tk (cap - start)
      in recl_new (if first < tk then Two (unat start, unat first) (0, unat (tk - first))
                   else One (unat start, unat tk)))"

definition peek_segm :: "'a ring \<Rightarrow> usize \<Rightarrow> usize \<Rightarrow> recl" where
  "peek_segm = read_segm"

text \<open>Dropping a segment commits what it consumed; a peek segment commits nothing.\<close>

definition drop_write_segm :: "recl \<Rightarrow> 'a ring \<Rightarrow> 'a ring" where
  "drop_write_segm g r = ring_advance_write (of_nat (roff g)) r"

datatype read_reclaim = ConsumeRead | PeekRead

definition drop_read_segm :: "read_reclaim \<Rightarrow> recl \<Rightarrow> 'a ring \<Rightarrow> 'a ring" where
  "drop_read_segm k g r =
     (case k of ConsumeRead \<Rightarrow> ring_advance_read (of_nat (roff g)) r | PeekRead \<Rightarrow> r)"

section \<open>The runtime's side\<close>

definition take_send_iovecs :: "'a ring \<Rightarrow> (slice \<times> slice) option \<times> 'a ring" where
  "take_send_iovecs r =
     (let state = rword r; (rp, wp) = ring_unpack state; data = data_size_of (capacity r) rp wp
      in if data = 0 \<or> has_flag state SEND_IN_FLIGHT then (None, r)
         else (Some (region_slices r rp data), r\<lparr>rword := state OR SEND_IN_FLIGHT\<rparr>))"

definition put_back_send :: "usize \<Rightarrow> 'a ring \<Rightarrow> 'a ring" where
  "put_back_send written r =
     signal_all (update_state (put_back_send_word (capacity r) written) r)"

definition take_recv_iovecs :: "'a ring \<Rightarrow> (slice \<times> slice) option \<times> 'a ring" where
  "take_recv_iovecs r =
     (let state = rword r; (rp, wp) = ring_unpack state; free = free_size_of (capacity r) rp wp
      in if free = 0 \<or> has_flag state RECV_IN_FLIGHT then (None, r)
         else (Some (region_slices r wp free), r\<lparr>rword := state OR RECV_IN_FLIGHT\<rparr>))"

definition put_back_recv :: "usize \<Rightarrow> 'a ring \<Rightarrow> 'a ring" where
  "put_back_recv received r =
     signal_all (update_state (put_back_recv_word (capacity r) received) r)"

section \<open>Conditions\<close>

definition has_tx_space :: "'a ring \<Rightarrow> bool" where
  "has_tx_space r = (case try_write_at r 1 of Inr _ \<Rightarrow> True | Inl _ \<Rightarrow> False)"

definition has_tx_data :: "'a ring \<Rightarrow> bool" where
  "has_tx_data r = (data_of r > 0 \<and> \<not> has_flag (rword r) SEND_IN_FLIGHT)"

definition has_recv_space :: "'a ring \<Rightarrow> bool" where
  "has_recv_space r = (free_of r > 0 \<and> \<not> has_flag (rword r) RECV_IN_FLIGHT)"

definition has_free_at_least :: "'a ring \<Rightarrow> usize \<Rightarrow> bool" where
  "has_free_at_least r amount = (free_of r \<ge> amount \<and> \<not> has_flag (rword r) RECV_IN_FLIGHT)"

definition has_data_at_least :: "'a ring \<Rightarrow> usize \<Rightarrow> bool" where
  "has_data_at_least r amount = (data_of r \<ge> amount \<and> \<not> has_flag (rword r) SEND_IN_FLIGHT)"

type_synonym 'a park_check = "'a ring \<Rightarrow> usize \<Rightarrow> bool"

definition check_tx_writable :: "'a park_check" where
  "check_tx_writable r arg = (case try_write_at r (max arg 1) of Inr _ \<Rightarrow> True | Inl _ \<Rightarrow> False)"

definition check_rx_readable :: "'a park_check" where
  "check_rx_readable r arg =
     ((case try_read_at r arg of Inr _ \<Rightarrow> True | Inl _ \<Rightarrow> False) \<or> is_rx_closed r)"

definition check_rx_peekable :: "'a park_check" where
  "check_rx_peekable r arg =
     ((case try_peek_at r of Inr _ \<Rightarrow> True | Inl _ \<Rightarrow> False) \<or> is_rx_closed r)"

definition check_tx_writable_at_least :: "'a park_check" where
  "check_tx_writable_at_least r arg = has_free_at_least r (max arg 1)"

definition check_rx_readable_at_least :: "'a park_check" where
  "check_rx_readable_at_least r arg = (has_data_at_least r (max arg 1) \<or> is_rx_closed r)"

definition check_tx_flushed :: "'a park_check" where
  "check_tx_flushed r arg = (has_tx_data r \<or> is_tx_closed r)"

definition check_rx_idle :: "'a park_check" where
  "check_rx_idle r arg = (has_recv_space r \<or> is_rx_closed r)"

section \<open>The two halves\<close>

text \<open>The half's waiter is the one its \<open>AsyncRead\<close> / \<open>AsyncWrite\<close> adapters park with.\<close>

record half =
  half_waiter :: wid
  auto_close :: bool

definition half_new :: "wid \<Rightarrow> half" where
  "half_new w = \<lparr>half_waiter = w, auto_close = True\<rparr>"

definition with_auto_close :: "bool \<Rightarrow> half \<Rightarrow> half" where
  "with_auto_close b h = h\<lparr>auto_close := b\<rparr>"

definition demand_bounds :: "usize demand \<Rightarrow> usize \<times> usize" where
  "demand_bounds d =
     ((case demand_min d of Some l \<Rightarrow> l | None \<Rightarrow> 0),
      (case demand_max d of Some u \<Rightarrow> u | None \<Rightarrow> -1))"

definition tx_is_blocked_closing :: "'a ring \<Rightarrow> bool" where
  "tx_is_blocked_closing r = (\<not> has_tx_space r \<or> is_tx_closed r)"

definition tx_try_write_at_most :: "'a ring \<Rightarrow> usize \<Rightarrow> (tx_error, recl) rust_result" where
  "tx_try_write_at_most r len =
     (case try_write_at r len of
        Inl e \<Rightarrow> Inl e | Inr (start, tk) \<Rightarrow> Inr (write_segm r start tk))"

definition tx_try_write :: "'a ring \<Rightarrow> usize demand \<Rightarrow> (tx_error, recl) rust_result" where
  "tx_try_write r d =
     (let (min_len, max_len) = demand_bounds d
      in case try_write_at r max_len of
           Inr (start, tk) \<Rightarrow>
             if tk < min_len then Inl (if is_tx_closed r then TxClosing else TxStuffed start)
             else Inr (write_segm r start tk)
         | Inl err \<Rightarrow> Inl err)"

definition drop_tx :: "half \<Rightarrow> 'a ring \<Rightarrow> 'a ring" where
  "drop_tx h r =
     (let r' = slot_deregister TxUser (half_waiter h) r in if auto_close h then close_tx r' else r')"

definition rx_is_drained_closing :: "'a ring \<Rightarrow> bool" where
  "rx_is_drained_closing r = (data_of r = 0 \<and> is_rx_closed r)"

definition rx_try_read_at_most :: "'a ring \<Rightarrow> usize \<Rightarrow> (rx_error, recl) rust_result" where
  "rx_try_read_at_most r len =
     (case try_read_at r len of
        Inl e \<Rightarrow> Inl e | Inr (start, tk) \<Rightarrow> Inr (read_segm r start tk))"

definition rx_try_read :: "'a ring \<Rightarrow> usize demand \<Rightarrow> (rx_error, recl) rust_result" where
  "rx_try_read r d =
     (let (min_len, max_len) = demand_bounds d
      in case try_read_at r max_len of
           Inr (start, tk) \<Rightarrow>
             if tk < min_len then Inl (if is_rx_closed r then RxClosing else RxDrained start)
             else Inr (read_segm r start tk)
         | Inl err \<Rightarrow> Inl err)"

definition rx_try_peek :: "'a ring \<Rightarrow> (rx_error, recl) rust_result" where
  "rx_try_peek r =
     (case try_peek_at r of
        Inl e \<Rightarrow> Inl e | Inr (start, tk) \<Rightarrow> Inr (peek_segm r start tk))"

definition drop_rx :: "half \<Rightarrow> 'a ring \<Rightarrow> 'a ring" where
  "drop_rx h r =
     (let r' = slot_deregister RxUser (half_waiter h) r in if auto_close h then close_rx r' else r')"

text \<open>\<open>try_split_shared\<close>: only the sole owner of the shared handle gets a pair of halves.\<close>

definition try_split_shared :: "nat \<Rightarrow> nat \<Rightarrow> wid \<Rightarrow> wid \<Rightarrow> (half \<times> half) option" where
  "try_split_shared strong weak wt wr =
     (if strong = 1 \<and> weak = 0 then Some (half_new wt, half_new wr) else None)"

lemmas ring_op_defs = ring_advance_write_def ring_advance_read_def close_tx_def close_rx_def
  put_back_send_def put_back_recv_def update_state_def

end
