(* ===== verification/Ring_Fifo.thy ===== *)
theory Ring_Fifo
  imports Ring_Buffer
begin

text \<open>
  The ring as a queue: the cells from the reader position hold the buffered items in order,
  the operations of \<open>Ring_Buffer\<close> append to and drop from that queue, and the step system of
  one producer and one consumer (each either the user's half or the runtime) delivers the sent
  items in order, without loss, and never reads an uninitialised cell.
\<close>

section \<open>Regions of the ring\<close>

definition ring_addrs :: "nat \<Rightarrow> nat \<Rightarrow> nat \<Rightarrow> nat list" where
  "ring_addrs c start n = map (\<lambda>i. (start + i) mod c) [0..<n]"

lemma length_ring_addrs [simp]: "length (ring_addrs c start n) = n"
  by (simp add: ring_addrs_def)

lemma ring_addrs_0 [simp]: "ring_addrs c start 0 = []"
  by (simp add: ring_addrs_def)

lemma ring_addrs_add:
  "ring_addrs c start (n + k) = ring_addrs c start n @ ring_addrs c ((start + n) mod c) k"
  by (induction k) (simp_all add: ring_addrs_def mod_add_left_eq add.assoc)

lemma take_ring_addrs: "k \<le> n \<Longrightarrow> take k (ring_addrs c start n) = ring_addrs c start k"
  using ring_addrs_add [of c start k "n - k"] by simp

lemma drop_ring_addrs:
  "k \<le> n \<Longrightarrow> drop k (ring_addrs c start n) = ring_addrs c ((start + k) mod c) (n - k)"
  using ring_addrs_add [of c start k "n - k"] by simp

lemma ring_addrs_less: "0 < c \<Longrightarrow> a \<in> set (ring_addrs c start n) \<Longrightarrow> a < c"
  by (auto simp: ring_addrs_def)

lemma distinct_ring_addrs:
  assumes "n \<le> c"
  shows "distinct (ring_addrs c start n)"
proof -
  have le: "j \<le> i" if "i < c" "j < c" "(start + i) mod c = (start + j) mod c" for i j
  proof (rule ccontr)
    assume "\<not> j \<le> i"
    then have "c dvd (start + j) - (start + i)"
      using that(3) by (intro mod_eq_dvd_iff_nat [THEN iffD1]) simp_all
    with \<open>\<not> j \<le> i\<close> that(2) show False
      by (auto dest: dvd_imp_le)
  qed
  have eq: "i = j" if "i < c" "j < c" "(start + i) mod c = (start + j) mod c" for i j
    using le [OF that] le [OF that(2,1) that(3) [symmetric]] by simp
  have "inj_on (\<lambda>i. (start + i) mod c) (set [0..<n])"
    by (rule inj_onI, rule eq) (use assms in auto)
  then show ?thesis
    by (simp only: ring_addrs_def distinct_map distinct_upt simp_thms)
qed

text \<open>What lies behind a region is disjoint from it while both fit the buffer.\<close>

lemma ring_addrs_disjoint:
  assumes "n + k \<le> c"
  shows "set (ring_addrs c start n) \<inter> set (ring_addrs c ((start + n) mod c) k) = {}"
  using distinct_ring_addrs [OF assms, of start] by (simp add: ring_addrs_add)

lemma ring_addrs_linear: "start + n \<le> c \<Longrightarrow> ring_addrs c start n = [start..<start + n]"
  by (intro nth_equalityI) (auto simp: ring_addrs_def)

lemma data_nat_wpos: "r < c \<Longrightarrow> w < c \<Longrightarrow> (r + data_nat c r w) mod c = w"
  by (auto simp: data_nat_eq)

section \<open>One ring\<close>

definition ring_ok :: "'a ring \<Rightarrow> bool" where
  "ring_ok r = (2 \<le> length (rmem r) \<and> length (rmem r) < 2 ^ 30 \<and> pos_ok (capacity r) (rword r))"

definition ring_data :: "'a ring \<Rightarrow> nat" where
  "ring_data r = view_data (capacity r) (rword r)"

definition ring_free :: "'a ring \<Rightarrow> nat" where
  "ring_free r = view_free (capacity r) (rword r)"

abbreviation rp_of :: "'a ring \<Rightarrow> nat" where
  "rp_of r \<equiv> rpos (ring_view (rword r))"

abbreviation wp_of :: "'a ring \<Rightarrow> nat" where
  "wp_of r \<equiv> wpos (ring_view (rword r))"

text \<open>The buffered cells, oldest first.\<close>

definition ring_queue :: "'a ring \<Rightarrow> 'a option list" where
  "ring_queue r = mem_get (rmem r) (ring_addrs (length (rmem r)) (rp_of r) (ring_data r))"

lemma ring_ok_cap:
  assumes "ring_ok r"
  shows "unat (capacity r) = length (rmem r)" "cap_ok (capacity r)"
proof -
  have "unat (capacity r) = length (rmem r) mod 2 ^ 64"
    by (simp add: capacity_def unat_of_nat)
  then show u: "unat (capacity r) = length (rmem r)"
    using assms by (simp add: ring_ok_def)
  have "unat (2 :: usize) \<le> unat (capacity r)" "unat (capacity r) \<le> unat MAX_CAPACITY"
    using assms u by (simp_all add: ring_ok_def unat_max_capacity)
  then show "cap_ok (capacity r)"
    by (simp add: cap_ok_def word_le_nat_alt)
qed

lemma ring_ok_pos:
  assumes "ring_ok r"
  shows "rp_of r < length (rmem r) \<and> wp_of r < length (rmem r)"
proof -
  have "pos_ok (capacity r) (rword r)"
    using assms by (simp add: ring_ok_def)
  then show ?thesis
    unfolding pos_ok_def ring_ok_cap(1) [OF assms] .
qed

lemma ring_sizes:
  assumes "ring_ok r"
  shows "ring_data r < length (rmem r)" "ring_data r + ring_free r = length (rmem r) - 1"
    "(rp_of r + ring_data r) mod length (rmem r) = wp_of r"
  using ring_ok_cap [OF assms] view_data_less [of "capacity r" "rword r"]
    data_plus_free [of "capacity r" "rword r"] ring_ok_pos [OF assms]
  by (simp_all add: ring_data_def ring_free_def view_data_def data_nat_wpos)

lemma unat_data_of: "ring_ok r \<Longrightarrow> unat (data_of r) = ring_data r"
  using ring_ok_cap(2) [of r] view_data_word [of "capacity r" "rword r"]
  by (cases "ring_unpack (rword r)") (simp add: data_of_def ring_data_def ring_ok_def)

lemma unat_free_of: "ring_ok r \<Longrightarrow> unat (free_of r) = ring_free r"
  using ring_ok_cap(2) [of r] view_free_word [of "capacity r" "rword r"]
  by (cases "ring_unpack (rword r)") (simp add: free_of_def ring_free_def ring_ok_def)

lemma slot_signal_frame [simp]:
  "rword (slot_signal side r) = rword r" "rmem (slot_signal side r) = rmem r"
  "waiters (slot_signal side r) = waiters r"
  by (simp_all add: slot_signal_def Let_def split: option.splits)

lemma signal_all_frame [simp]:
  "rword (signal_all r) = rword r" "rmem (signal_all r) = rmem r"
  "waiters (signal_all r) = waiters r"
  by (simp_all add: signal_all_def)

text \<open>Facts that depend on the word and the cells only.\<close>

lemma ring_cong:
  assumes "rword r = rword s" "rmem r = rmem s"
  shows "capacity r = capacity s" "ring_ok r = ring_ok s" "ring_data r = ring_data s"
    "ring_free r = ring_free s" "ring_queue r = ring_queue s"
  using assms by (simp_all add: capacity_def ring_ok_def ring_data_def ring_free_def ring_queue_def)

lemma capacity_update [simp]:
  "capacity (r\<lparr>rword := w\<rparr>) = capacity r" "capacity (signal_all r) = capacity r"
  by (simp_all add: capacity_def)

text \<open>Where the borrowing operations succeed, and what they lend.\<close>

lemma try_write_at_spec:
  assumes "ring_ok r"
  shows "try_write_at r len =
     (if ring_free r = 0 \<or> receiving (ring_view (rword r)) then
        (if txc (ring_view (rword r)) then Inl TxClosing else Inl (TxStuffed (snd (ring_unpack (rword r)))))
      else Inr (snd (ring_unpack (rword r)), min len (free_of r)))"
  using unat_free_of [OF assms] unat_eq_0 [of "free_of r"]
  by (cases "ring_unpack (rword r)") (simp add: try_write_at_def Let_def free_of_def ring_view_def)

lemma try_read_at_spec:
  assumes "ring_ok r"
  shows "try_read_at r len =
     (if ring_data r = 0 \<or> sending (ring_view (rword r)) then
        (if rxc (ring_view (rword r)) then Inl RxClosing else Inl (RxDrained (fst (ring_unpack (rword r)))))
      else Inr (fst (ring_unpack (rword r)), min len (data_of r)))"
  using unat_data_of [OF assms] unat_eq_0 [of "data_of r"]
  by (cases "ring_unpack (rword r)") (simp add: try_read_at_def Let_def data_of_def ring_view_def)

lemma try_peek_at_read: "try_peek_at r = try_read_at r (-1)"
proof -
  have "min (-1) x = x" for x :: usize
    by (rule min_absorb2) simp
  then show ?thesis
    by (simp only: try_peek_at_def try_read_at_def Let_def)
qed

lemma unat_min: "unat (min a b) = min (unat a) (unat b)"
  by (auto simp: min_def word_le_nat_alt)

text \<open>The addresses of a lent segment: the region, in ring order.\<close>

lemma segm_addrs_aux:
  assumes "s < c" "n \<le> c"
  shows "(if c - s < n then [s..<s + (c - s)] @ [0..<n - (c - s)] else [s..<s + n]) = ring_addrs c s n"
proof (cases "c - s < n")
  case True
  then have n: "n = (c - s) + (n - (c - s))"
    by simp
  have "ring_addrs c s n = ring_addrs c s (c - s) @ ring_addrs c ((s + (c - s)) mod c) (n - (c - s))"
    by (subst n) (rule ring_addrs_add)
  also have "\<dots> = [s..<s + (c - s)] @ [0..<n - (c - s)]"
    using assms ring_addrs_linear [of s "c - s" c] ring_addrs_linear [of 0 "n - (c - s)" c] by simp
  finally show ?thesis
    using True by simp
next
  case False
  then show ?thesis
    using assms ring_addrs_linear [of s n c] by simp
qed

lemma segm_addrs:
  assumes "ring_ok r" "unat s < length (rmem r)" "unat n \<le> length (rmem r)"
  shows "pieces_addrs (rpieces (write_segm r s n)) = ring_addrs (length (rmem r)) (unat s) (unat n)"
    and "pieces_addrs (rpieces (read_segm r s n)) = ring_addrs (length (rmem r)) (unat s) (unat n)"
    and "roff (write_segm r s n) = 0" "roff (read_segm r s n) = 0"
proof -
  note cap = ring_ok_cap(1) [OF assms(1)]
  have "s \<le> capacity r"
    using assms(2) cap by (simp add: word_le_nat_alt)
  then have sub: "unat (capacity r - s) = length (rmem r) - unat s"
    by (simp add: unat_sub cap)
  have f: "unat (min n (capacity r - s)) = min (unat n) (length (rmem r) - unat s)"
    by (simp add: unat_min sub)
  have lt: "min n (capacity r - s) < n \<longleftrightarrow> length (rmem r) - unat s < unat n"
    unfolding word_less_nat_alt f by auto
  have rest: "unat (n - min n (capacity r - s)) = unat n - min (unat n) (length (rmem r) - unat s)"
    by (subst unat_sub) (simp_all add: f)
  show "pieces_addrs (rpieces (write_segm r s n)) = ring_addrs (length (rmem r)) (unat s) (unat n)"
    "pieces_addrs (rpieces (read_segm r s n)) = ring_addrs (length (rmem r)) (unat s) (unat n)"
    using segm_addrs_aux [OF assms(2,3)]
    by (auto simp: write_segm_def read_segm_def recl_new_def Let_def lt rest f cap)
  show "roff (write_segm r s n) = 0" "roff (read_segm r s n) = 0"
    by (simp_all add: write_segm_def read_segm_def recl_new_def Let_def)
qed

section \<open>The operations on the queue\<close>

lemma ring_queue_length [simp]: "length (ring_queue r) = ring_data r"
  by (simp add: ring_queue_def mem_get_def)

lemma drop_mem_get: "drop k (mem_get m as) = mem_get m (drop k as)"
  by (simp add: mem_get_def drop_map)

lemma take_mem_get: "take k (mem_get m as) = mem_get m (take k as)"
  by (simp add: mem_get_def take_map)

lemma update_state_frame [simp]:
  "rword (update_state f r) = f (rword r)" "rmem (update_state f r) = rmem r"
  "capacity (update_state f r) = capacity r"
  by (simp_all add: update_state_def capacity_def)

text \<open>
  What an update that only moves one position, or only the flags, does to the ring. The
  producer's updates are \<open>advance_write\<close> and \<open>put_back_recv\<close>, the consumer's \<open>advance_read\<close> and
  \<open>put_back_send\<close>.
\<close>

lemma ring_update_write:
  assumes "ring_ok r" "unat k \<le> ring_free r" "rmem r' = rmem r"
    "rpos (ring_view (rword r')) = rp_of r"
    "wpos (ring_view (rword r')) = (wp_of r + unat k) mod length (rmem r)"
  shows "ring_ok r'" "ring_data r' = ring_data r + unat k" "ring_free r' = ring_free r - unat k"
    "ring_queue r' = ring_queue r @ mem_get (rmem r) (ring_addrs (length (rmem r)) (wp_of r) (unat k))"
proof -
  have cap: "capacity r' = capacity r"
    using assms(3) by (simp add: capacity_def)
  note pos = ring_ok_pos [OF assms(1)] and u = ring_ok_cap [OF assms(1)]
  note sz = ring_sizes [OF assms(1)]
  show ok: "ring_ok r'"
    using assms(1) pos by (auto simp: ring_ok_def pos_ok_def cap u(1) assms(3-5) intro!: mod_less_divisor)
  have "unat k \<le> length (rmem r) - 1 - data_nat (length (rmem r)) (rp_of r) (wp_of r)"
    using assms(2) by (simp add: ring_free_def view_free_def view_data_def u(1))
  from data_nat_write [OF _ _ this]
  show data: "ring_data r' = ring_data r + unat k"
    using pos by (simp add: ring_data_def view_data_def cap u(1) assms(4,5))
  show "ring_free r' = ring_free r - unat k"
    using data sz(2) ring_sizes(2) [OF ok] assms(3) by simp
  show "ring_queue r' = ring_queue r @ mem_get (rmem r) (ring_addrs (length (rmem r)) (wp_of r) (unat k))"
    by (simp only: ring_queue_def data assms(3,4) ring_addrs_add mem_get_append sz(3))
qed

lemma ring_update_read:
  assumes "ring_ok r" "unat k \<le> ring_data r" "rmem r' = rmem r"
    "wpos (ring_view (rword r')) = wp_of r"
    "rpos (ring_view (rword r')) = (rp_of r + unat k) mod length (rmem r)"
  shows "ring_ok r'" "ring_data r' = ring_data r - unat k" "ring_free r' = ring_free r + unat k"
    "ring_queue r' = drop (unat k) (ring_queue r)"
proof -
  have cap: "capacity r' = capacity r"
    using assms(3) by (simp add: capacity_def)
  note pos = ring_ok_pos [OF assms(1)] and u = ring_ok_cap [OF assms(1)]
  note sz = ring_sizes [OF assms(1)]
  show ok: "ring_ok r'"
    using assms(1) pos by (auto simp: ring_ok_def pos_ok_def cap u(1) assms(3-5) intro!: mod_less_divisor)
  have "unat k \<le> data_nat (length (rmem r)) (rp_of r) (wp_of r)"
    using assms(2) by (simp add: ring_data_def view_data_def u(1))
  from data_nat_read [OF _ _ this]
  show data: "ring_data r' = ring_data r - unat k"
    using pos by (simp add: ring_data_def view_data_def cap u(1) assms(4,5))
  show "ring_free r' = ring_free r + unat k"
    using data sz(1,2) ring_sizes(2) [OF ok] assms(2,3) by simp
  show "ring_queue r' = drop (unat k) (ring_queue r)"
    using assms(2) by (simp add: ring_queue_def data assms(3,5) drop_mem_get drop_ring_addrs)
qed

lemma ring_update_flags:
  assumes "rmem r' = rmem r" "rpos (ring_view (rword r')) = rp_of r"
    "wpos (ring_view (rword r')) = wp_of r"
  shows "ring_ok r' = ring_ok r" "ring_data r' = ring_data r" "ring_free r' = ring_free r"
    "ring_queue r' = ring_queue r"
  using assms
  by (simp_all add: ring_ok_def pos_ok_def ring_data_def ring_free_def view_data_def view_free_def
      ring_queue_def capacity_def)

text \<open>Cells outside the buffered region may change.\<close>

lemma ring_queue_put:
  assumes "ring_ok r" "k \<le> ring_free r" "set as \<subseteq> set (ring_addrs (length (rmem r)) (wp_of r) k)"
  shows "ring_queue (r\<lparr>rmem := mem_put (rmem r) as xs\<rparr>) = ring_queue r"
proof -
  have "ring_data r + k \<le> length (rmem r)"
    using ring_sizes(1,2) [OF assms(1)] assms(2) by linarith
  from ring_addrs_disjoint [OF this, of "rp_of r"]
  have "set as \<inter> set (ring_addrs (length (rmem r)) (rp_of r) (ring_data r)) = {}"
    using assms(3) ring_sizes(3) [OF assms(1)] by auto
  then show ?thesis
    by (simp add: ring_queue_def ring_data_def capacity_def mem_get_put_other)
qed

lemma ring_put_frame:
  "length m = length (rmem r) \<Longrightarrow> ring_ok (r\<lparr>rmem := m\<rparr>) = ring_ok r"
  "length m = length (rmem r) \<Longrightarrow> ring_data (r\<lparr>rmem := m\<rparr>) = ring_data r"
  "length m = length (rmem r) \<Longrightarrow> ring_free (r\<lparr>rmem := m\<rparr>) = ring_free r"
  by (simp_all add: ring_ok_def ring_data_def ring_free_def capacity_def)

text \<open>The operations.\<close>

lemma amount_le_cap:
  assumes "ring_ok r" "unat k \<le> ring_free r \<or> unat k \<le> ring_data r"
  shows "unat k \<le> unat (capacity r)"
  using assms(2) ring_sizes(1,2) [OF assms(1)] ring_ok_cap(1) [OF assms(1)] by linarith

lemma ring_ok_word: "ring_ok r \<Longrightarrow> pos_ok (capacity r) (rword r)"
  by (simp add: ring_ok_def)

lemma advance_write_view:
  assumes "ring_ok r" "unat k \<le> ring_free r"
  shows "ring_view (rword (ring_advance_write k r))
       = (ring_view (rword r))\<lparr>wpos := (wp_of r + unat k) mod length (rmem r)\<rparr>"
    and "ring_view (rword (put_back_recv k r))
       = (ring_view (rword r))\<lparr>wpos := (wp_of r + unat k) mod length (rmem r), receiving := False\<rparr>"
  using view_advance_write [OF ring_ok_cap(2) [OF assms(1)] ring_ok_word [OF assms(1)]
      amount_le_cap [OF assms(1)]] assms
    view_put_back_recv [OF ring_ok_cap(2) [OF assms(1)] ring_ok_word [OF assms(1)]
      amount_le_cap [OF assms(1)]]
  by (simp_all add: ring_advance_write_def put_back_recv_def ring_ok_cap(1))

lemma advance_read_view:
  assumes "ring_ok r" "unat k \<le> ring_data r"
  shows "ring_view (rword (ring_advance_read k r))
       = (ring_view (rword r))\<lparr>rpos := (rp_of r + unat k) mod length (rmem r)\<rparr>"
    and "ring_view (rword (put_back_send k r))
       = (ring_view (rword r))\<lparr>rpos := (rp_of r + unat k) mod length (rmem r), sending := False\<rparr>"
  using view_advance_read [OF ring_ok_cap(2) [OF assms(1)] ring_ok_word [OF assms(1)]
      amount_le_cap [OF assms(1)]] assms
    view_put_back_send [OF ring_ok_cap(2) [OF assms(1)] ring_ok_word [OF assms(1)]
      amount_le_cap [OF assms(1)]]
  by (simp_all add: ring_advance_read_def put_back_send_def ring_ok_cap(1))

lemma ring_op_mem [simp]:
  "rmem (ring_advance_write k r) = rmem r" "rmem (ring_advance_read k r) = rmem r"
  "rmem (put_back_recv k r) = rmem r" "rmem (put_back_send k r) = rmem r"
  "rmem (close_tx r) = rmem r" "rmem (close_rx r) = rmem r"
  by (simp_all add: ring_advance_write_def ring_advance_read_def put_back_recv_def
      put_back_send_def close_tx_def close_rx_def)

lemma close_view [simp]:
  "ring_view (rword (close_tx r)) = (ring_view (rword r))\<lparr>txc := True\<rparr>"
  "ring_view (rword (close_rx r)) = (ring_view (rword r))\<lparr>rxc := True\<rparr>"
  by (simp_all add: close_tx_def close_rx_def view_set_flag)

lemma producer_queue:
  assumes "ring_ok r" "unat k \<le> ring_free r" "r' = ring_advance_write k r \<or> r' = put_back_recv k r"
  shows "ring_ok r'" "ring_data r' = ring_data r + unat k" "ring_free r' = ring_free r - unat k"
    "ring_queue r' = ring_queue r @ mem_get (rmem r) (ring_addrs (length (rmem r)) (wp_of r) (unat k))"
    "rmem r' = rmem r" "rp_of r' = rp_of r"
proof -
  have "rmem r' = rmem r" "rp_of r' = rp_of r" "wp_of r' = (wp_of r + unat k) mod length (rmem r)"
    using assms(3) advance_write_view [OF assms(1,2)] by auto
  with ring_update_write [OF assms(1,2)] show "ring_ok r'" "ring_data r' = ring_data r + unat k"
    "ring_free r' = ring_free r - unat k" "rmem r' = rmem r" "rp_of r' = rp_of r"
    "ring_queue r' = ring_queue r @ mem_get (rmem r) (ring_addrs (length (rmem r)) (wp_of r) (unat k))"
    by blast+
qed

lemma consumer_queue:
  assumes "ring_ok r" "unat k \<le> ring_data r" "r' = ring_advance_read k r \<or> r' = put_back_send k r"
  shows "ring_ok r'" "ring_data r' = ring_data r - unat k" "ring_free r' = ring_free r + unat k"
    "ring_queue r' = drop (unat k) (ring_queue r)" "rmem r' = rmem r" "wp_of r' = wp_of r"
proof -
  have "rmem r' = rmem r" "wp_of r' = wp_of r" "rp_of r' = (rp_of r + unat k) mod length (rmem r)"
    using assms(3) advance_read_view [OF assms(1,2)] by auto
  with ring_update_read [OF assms(1,2)] show "ring_ok r'" "ring_data r' = ring_data r - unat k"
    "ring_free r' = ring_free r + unat k" "rmem r' = rmem r" "wp_of r' = wp_of r"
    "ring_queue r' = drop (unat k) (ring_queue r)"
    by blast+
qed

end
