(* ===== verification/Err_Tags.thy ===== *)
theory Err_Tags
  imports Ring_Buffer
begin

text \<open>
  The error tags of \<open>abs_buff\<close> (\<open>crates/abs_buff/src/error.rs\<close>), by which generic code decides
  whether an operation is worth retrying, with their derived order, and the errors of the two
  buffers of \<open>buffex\<close> with the tags they report (\<open>ring_buffer/error_.rs\<close>,
  \<open>circular_buff/error_.rs\<close>).
\<close>

section \<open>Tags\<close>

datatype read_err_tag =
    RClosing | RDrained | RUnsatisfied | RCancelled | RPropagated | RUnknown

datatype write_err_tag =
    WClosing | WCancelled | WPropagated | WUnknown | WStuffed | WUnsatisfied

datatype io_err_tag = ReadTag read_err_tag | WriteTag write_err_tag

fun read_should_terminate :: "read_err_tag \<Rightarrow> bool" where
  "read_should_terminate t = (t \<in> {RClosing, RCancelled, RPropagated, RUnknown})"

fun write_should_terminate :: "write_err_tag \<Rightarrow> bool" where
  "write_should_terminate t = (t \<in> {WClosing, WCancelled, WPropagated, WUnknown})"

fun io_should_terminate :: "io_err_tag \<Rightarrow> bool" where
  "io_should_terminate (ReadTag r) = read_should_terminate r"
| "io_should_terminate (WriteTag w) = write_should_terminate w"

section \<open>The derived order\<close>

text \<open>\<open>derive(Ord)\<close> compares the position of the variant, then its field.\<close>

fun read_rank :: "read_err_tag \<Rightarrow> nat" where
  "read_rank RClosing = 0"
| "read_rank RDrained = 1"
| "read_rank RUnsatisfied = 2"
| "read_rank RCancelled = 3"
| "read_rank RPropagated = 4"
| "read_rank RUnknown = 5"

fun write_rank :: "write_err_tag \<Rightarrow> nat" where
  "write_rank WClosing = 0"
| "write_rank WCancelled = 1"
| "write_rank WPropagated = 2"
| "write_rank WUnknown = 3"
| "write_rank WStuffed = 4"
| "write_rank WUnsatisfied = 5"

lemma read_rank_inj: "read_rank a = read_rank b \<Longrightarrow> a = b"
  by (cases a; cases b) simp_all

lemma write_rank_inj: "write_rank a = write_rank b \<Longrightarrow> a = b"
  by (cases a; cases b) simp_all

instantiation read_err_tag :: linorder
begin

definition less_eq_read_err_tag :: "read_err_tag \<Rightarrow> read_err_tag \<Rightarrow> bool" where
  "less_eq_read_err_tag a b = (read_rank a \<le> read_rank b)"

definition less_read_err_tag :: "read_err_tag \<Rightarrow> read_err_tag \<Rightarrow> bool" where
  "less_read_err_tag a b = (read_rank a < read_rank b)"

instance
  by standard (auto simp: less_eq_read_err_tag_def less_read_err_tag_def read_rank_inj)

end

instantiation write_err_tag :: linorder
begin

definition less_eq_write_err_tag :: "write_err_tag \<Rightarrow> write_err_tag \<Rightarrow> bool" where
  "less_eq_write_err_tag a b = (write_rank a \<le> write_rank b)"

definition less_write_err_tag :: "write_err_tag \<Rightarrow> write_err_tag \<Rightarrow> bool" where
  "less_write_err_tag a b = (write_rank a < write_rank b)"

instance
  by standard (auto simp: less_eq_write_err_tag_def less_write_err_tag_def write_rank_inj)

end

fun io_rank :: "io_err_tag \<Rightarrow> nat" where
  "io_rank (ReadTag r) = read_rank r"
| "io_rank (WriteTag w) = 6 + write_rank w"

lemma read_rank_bound: "read_rank r < 6"
  by (cases r) simp_all

lemma io_rank_inj: "io_rank a = io_rank b \<Longrightarrow> a = b"
proof (cases a; cases b)
  fix r w
  assume "io_rank a = io_rank b" "a = ReadTag r" "b = WriteTag w"
  then show "a = b"
    using read_rank_bound [of r] by simp
next
  fix r w
  assume "io_rank a = io_rank b" "a = WriteTag w" "b = ReadTag r"
  then show "a = b"
    using read_rank_bound [of r] by simp
qed (auto simp: read_rank_inj write_rank_inj)

instantiation io_err_tag :: linorder
begin

definition less_eq_io_err_tag :: "io_err_tag \<Rightarrow> io_err_tag \<Rightarrow> bool" where
  "less_eq_io_err_tag a b = (io_rank a \<le> io_rank b)"

definition less_io_err_tag :: "io_err_tag \<Rightarrow> io_err_tag \<Rightarrow> bool" where
  "less_io_err_tag a b = (io_rank a < io_rank b)"

instance
  by standard (auto simp: less_eq_io_err_tag_def less_io_err_tag_def io_rank_inj)

end

section \<open>The errors of the buffers\<close>

fun rx_err_tag :: "rx_error \<Rightarrow> read_err_tag" where
  "rx_err_tag RxClosing = RClosing"
| "rx_err_tag RxCancelled = RCancelled"
| "rx_err_tag RxArgument = RUnknown"
| "rx_err_tag (RxDrained p) = RDrained"

fun tx_err_tag :: "tx_error \<Rightarrow> write_err_tag" where
  "tx_err_tag TxClosing = WClosing"
| "tx_err_tag TxCancelled = WCancelled"
| "tx_err_tag TxArgument = WUnknown"
| "tx_err_tag (TxStuffed p) = WStuffed"

datatype producer_error = PStuffed usize | PClosing | PCancelled | PUnavailable | PArgument
datatype consumer_error = CDrained usize | CClosing | CCancelled | CUnavailable | CArgument
datatype pipeline_error = PipeTx producer_error | PipeRx consumer_error

fun producer_err_tag :: "producer_error \<Rightarrow> write_err_tag" where
  "producer_err_tag PClosing = WClosing"
| "producer_err_tag PCancelled = WClosing"
| "producer_err_tag PUnavailable = WClosing"
| "producer_err_tag PArgument = WUnknown"
| "producer_err_tag (PStuffed p) = WStuffed"

fun consumer_err_tag :: "consumer_error \<Rightarrow> read_err_tag" where
  "consumer_err_tag CClosing = RClosing"
| "consumer_err_tag CCancelled = RClosing"
| "consumer_err_tag CUnavailable = RClosing"
| "consumer_err_tag CArgument = RUnknown"
| "consumer_err_tag (CDrained p) = RDrained"

fun pipeline_err_tag :: "pipeline_error \<Rightarrow> io_err_tag" where
  "pipeline_err_tag (PipeTx e) = WriteTag (producer_err_tag e)"
| "pipeline_err_tag (PipeRx e) = ReadTag (consumer_err_tag e)"

text \<open>Only a full or an empty buffer is worth another try.\<close>

lemma retriable:
  "write_should_terminate (tx_err_tag e1) = (\<forall>p. e1 \<noteq> TxStuffed p)"
  "read_should_terminate (rx_err_tag e2) = (\<forall>p. e2 \<noteq> RxDrained p)"
  "write_should_terminate (producer_err_tag e3) = (\<forall>p. e3 \<noteq> PStuffed p)"
  "read_should_terminate (consumer_err_tag e4) = (\<forall>p. e4 \<noteq> CDrained p)"
proof -
  show "write_should_terminate (tx_err_tag e1) = (\<forall>p. e1 \<noteq> TxStuffed p)"
    by (cases e1) simp_all
  show "read_should_terminate (rx_err_tag e2) = (\<forall>p. e2 \<noteq> RxDrained p)"
    by (cases e2) simp_all
  show "write_should_terminate (producer_err_tag e3) = (\<forall>p. e3 \<noteq> PStuffed p)"
    by (cases e3) simp_all
  show "read_should_terminate (consumer_err_tag e4) = (\<forall>p. e4 \<noteq> CDrained p)"
    by (cases e4) simp_all
qed

end
