(* ===== verification/Circ_Core.thy ===== *)
theory Circ_Core
  imports Circ_State Segm_Io Ring_Fifo Err_Tags
begin

text \<open>
  The core of the circular buffer (\<open>crates/buffex/src/circular_buff/core_.rs\<close>) with its two ends
  (\<open>circ_buff_.rs\<close>): the state word of \<open>Circ_State\<close>, the cells, a passive end with its demand and
  waker slot or an active end with its device, the events that wake the other side and the pumps
  that drive an active end. The operations run one after the other here: one producer and one
  consumer thread call them, each update of the word is atomic (\<open>Atomic_Flags\<close>). The segments are
  those of \<open>Ring_Segm\<close>; \<open>circular_buff/reclaim_.rs\<close> is a copy of the ring's file.
\<close>

section \<open>Ends, events and slots\<close>

datatype producer_event = PAvailable usize | ConsumerClose usize
datatype consumer_event = CAvailable usize | ProducerClose usize
datatype receiver_react = Reacted | ContinueReact

text \<open>
  A passive end holds the registered demand and the waiter in its slot, an active end its device
  and slot.
\<close>

datatype 'i producer = BufProducer "usize demand option" "wid option" | DevProducer 'i "wid option"
datatype 'o consumer = BufConsumer "usize demand option" "wid option" | DevConsumer 'o "wid option"

fun producer_passive :: "'i producer \<Rightarrow> bool" where
  "producer_passive (BufProducer d w) = True"
| "producer_passive (DevProducer i w) = False"

fun consumer_passive :: "'o consumer \<Rightarrow> bool" where
  "consumer_passive (BufConsumer d w) = True"
| "consumer_passive (DevConsumer p w) = False"

record ('a, 'i, 'o) circ =
  cstat :: usize
  cbuf :: "'a memory"
  cprod :: "'i producer"
  ccons :: "'o consumer"
  cwaiters :: "wid \<Rightarrow> waker option"
  cwoken :: "waker list"

definition core_new :: "'i producer \<Rightarrow> 'o consumer \<Rightarrow> 'a memory \<Rightarrow> ('a, 'i, 'o) circ" where
  "core_new p c buffer = \<lparr>cstat = 0, cbuf = buffer, cprod = p, ccons = c,
     cwaiters = (\<lambda>_. None), cwoken = []\<rparr>"

text \<open>\<open>WakeSlot\<close>: one attempt to register (the source spins on \<open>None\<close>), deregister, and the waker a signal wakes.\<close>

definition wakeslot_register :: "wid \<Rightarrow> wid option \<Rightarrow> wid option option" where
  "wakeslot_register w sl =
     (case sl of None \<Rightarrow> Some (Some w) | Some cur \<Rightarrow> if cur = w then Some sl else None)"

definition wakeslot_deregister :: "wid \<Rightarrow> wid option \<Rightarrow> wid option" where
  "wakeslot_deregister w sl = (if sl = Some w then None else sl)"

definition wakeslot_signal :: "(wid \<Rightarrow> waker option) \<Rightarrow> wid option \<Rightarrow> waker list" where
  "wakeslot_signal ws sl =
     (case sl of None \<Rightarrow> [] | Some w \<Rightarrow> (case ws w of None \<Rightarrow> [] | Some k \<Rightarrow> [k]))"

text \<open>\<open>BuffObsv\<close>: the demand of the waiter, set only when none is.\<close>

fun producer_set_demand :: "usize demand \<Rightarrow> 'i producer \<Rightarrow> bool \<times> 'i producer" where
  "producer_set_demand d (BufProducer None w) = (True, BufProducer (Some d) w)"
| "producer_set_demand d p = (False, p)"

fun consumer_set_demand :: "usize demand \<Rightarrow> 'o consumer \<Rightarrow> bool \<times> 'o consumer" where
  "consumer_set_demand d (BufConsumer None w) = (True, BufConsumer (Some d) w)"
| "consumer_set_demand d c = (False, c)"

fun producer_reset_demand :: "'i producer \<Rightarrow> 'i producer" where
  "producer_reset_demand (BufProducer d w) = BufProducer None w"
| "producer_reset_demand p = p"

fun consumer_reset_demand :: "'o consumer \<Rightarrow> 'o consumer" where
  "consumer_reset_demand (BufConsumer d w) = BufConsumer None w"
| "consumer_reset_demand c = c"

definition min_of :: "usize demand \<Rightarrow> usize" where
  "min_of d = (case demand_min d of None \<Rightarrow> 0 | Some l \<Rightarrow> l)"

definition max_of :: "usize demand \<Rightarrow> usize" where
  "max_of d = (case demand_max d of None \<Rightarrow> -1 | Some u \<Rightarrow> u)"

text \<open>
  \<open>check\<close>: whether the end is interested in the event; the result carries the end after its slot was
  signalled and the wakers woken.
\<close>

fun producer_check :: "(wid \<Rightarrow> waker option) \<Rightarrow> 'i producer \<Rightarrow> producer_event
    \<Rightarrow> bool \<times> 'i producer \<times> waker list" where
  "producer_check ws (BufProducer d w) (ConsumerClose n) = (True, BufProducer d w, [])"
| "producer_check ws (BufProducer d w) (PAvailable free) =
     (if free = 0 then (False, BufProducer d w, [])
      else (case d of
              None \<Rightarrow> (False, BufProducer d w, [])
            | Some dm \<Rightarrow>
                if min_of dm \<le> free then (True, BufProducer d None, wakeslot_signal ws w)
                else (False, BufProducer d w, [])))"
| "producer_check ws (DevProducer i w) ev =
     (case ev of
        PAvailable n \<Rightarrow>
          if 0 < n then (True, DevProducer i None, wakeslot_signal ws w) else (False, DevProducer i w, [])
      | ConsumerClose n \<Rightarrow> (False, DevProducer i w, []))"

fun consumer_check :: "(wid \<Rightarrow> waker option) \<Rightarrow> 'o consumer \<Rightarrow> consumer_event
    \<Rightarrow> bool \<times> 'o consumer \<times> waker list" where
  "consumer_check ws (BufConsumer d w) (ProducerClose n) = (True, BufConsumer d w, [])"
| "consumer_check ws (BufConsumer d w) (CAvailable ready) =
     (if ready = 0 then (False, BufConsumer d w, [])
      else (case d of
              None \<Rightarrow> (False, BufConsumer d w, [])
            | Some dm \<Rightarrow>
                if min_of dm \<le> ready then (True, BufConsumer d None, wakeslot_signal ws w)
                else (False, BufConsumer d w, [])))"
| "consumer_check ws (DevConsumer p w) ev =
     (case ev of
        CAvailable n \<Rightarrow>
          if 0 < n then (True, DevConsumer p None, wakeslot_signal ws w) else (False, DevConsumer p w, [])
      | ProducerClose n \<Rightarrow> (True, DevConsumer p None, wakeslot_signal ws w))"

section \<open>The state\<close>

definition circ_capacity :: "('a, 'i, 'o) circ \<Rightarrow> usize" where
  "circ_capacity c = of_nat (length (cbuf c))"

definition circ_pos :: "('a, 'i, 'o) circ \<Rightarrow> io_pos" where
  "circ_pos c = iopos_unpack (cstat c) (circ_capacity c)"

definition circ_data_size :: "('a, 'i, 'o) circ \<Rightarrow> usize" where
  "circ_data_size c = iopos_data_size (circ_pos c)"

definition circ_free_size :: "('a, 'i, 'o) circ \<Rightarrow> usize" where
  "circ_free_size c = iopos_free_size (circ_pos c)"

definition circ_tx_closed :: "('a, 'i, 'o) circ \<Rightarrow> bool" where
  "circ_tx_closed c = has_flag (cstat c) CIRC_TX_CLOSED"

definition circ_rx_closed :: "('a, 'i, 'o) circ \<Rightarrow> bool" where
  "circ_rx_closed c = has_flag (cstat c) CIRC_RX_CLOSED"

definition circ_try_write_at ::
    "('a, 'i, 'o) circ \<Rightarrow> usize demand \<Rightarrow> (producer_error, usize \<times> usize) rust_result" where
  "circ_try_write_at c demand =
     (let min_len = min_of demand; max_len = max_of demand; pos = circ_pos c; free = iopos_free_size pos
      in if free = 0 \<or> free < min_len then
           (if circ_tx_closed c then Inl PClosing else Inl (PStuffed (pos_wp pos)))
         else Inr (pos_wp pos, min max_len free))"

definition circ_try_read_at ::
    "('a, 'i, 'o) circ \<Rightarrow> usize demand \<Rightarrow> (consumer_error, usize \<times> usize) rust_result" where
  "circ_try_read_at c demand =
     (let min_len = min_of demand; max_len = max_of demand; pos = circ_pos c; ready = iopos_data_size pos
      in if ready = 0 then
           (if circ_tx_closed c \<or> circ_rx_closed c then Inl CClosing else Inl (CDrained (pos_rp pos)))
         else if ready < min_len \<and> \<not> circ_tx_closed c \<and> \<not> circ_rx_closed c
         then Inl (CDrained (pos_rp pos))
         else Inr (pos_rp pos, min max_len ready))"

definition lends :: "('e, 'v) rust_result \<Rightarrow> bool" where
  "lends x = (case x of Inl e \<Rightarrow> False | Inr v \<Rightarrow> True)"

definition producer_ready :: "('a, 'i, 'o) circ \<Rightarrow> usize \<Rightarrow> bool" where
  "producer_ready c mn = (lends (circ_try_write_at c (AtLeast (max mn 1))) \<or> circ_tx_closed c)"

definition consumer_ready :: "('a, 'i, 'o) circ \<Rightarrow> usize \<Rightarrow> bool" where
  "consumer_ready c mn =
     (lends (circ_try_read_at c (AtLeast (max mn 1))) \<or> circ_tx_closed c \<or> circ_rx_closed c)"

definition create_write_segm :: "('a, 'i, 'o) circ \<Rightarrow> usize \<Rightarrow> usize \<Rightarrow> recl" where
  "create_write_segm c start tk =
     (let cap = circ_capacity c; first = min tk (cap - start)
      in recl_new (if first < tk then Two (unat start, unat cap - unat start) (0, unat (tk - first))
                   else One (unat start, unat tk)))"

definition create_read_segm :: "('a, 'i, 'o) circ \<Rightarrow> usize \<Rightarrow> usize \<Rightarrow> recl" where
  "create_read_segm c start tk =
     (let cap = circ_capacity c; first = min tk (cap - start)
      in recl_new (if first < tk then Two (unat start, unat first) (0, unat (tk - first))
                   else One (unat start, unat tk)))"

section \<open>Flags and events\<close>

text \<open>The updates of the word: unconditional, guarded by the flag being clear, or by it being set.\<close>

definition update_pos :: "(usize \<Rightarrow> usize) \<Rightarrow> ('a, 'i, 'o) circ \<Rightarrow> ('a, 'i, 'o) circ" where
  "update_pos f c = c\<lparr>cstat := snd (atomic_update (\<lambda>_. True) f (cstat c))\<rparr>"

definition circ_set_flag :: "usize \<Rightarrow> ('a, 'i, 'o) circ \<Rightarrow> ('a, 'i, 'o) circ" where
  "circ_set_flag flag c =
     c\<lparr>cstat := snd (atomic_update (\<lambda>s. s AND flag = 0) (circ_set_flag_word flag) (cstat c))\<rparr>"

definition circ_clear_flag :: "usize \<Rightarrow> ('a, 'i, 'o) circ \<Rightarrow> bool \<times> ('a, 'i, 'o) circ" where
  "circ_clear_flag flag c =
     (let (res, s) = atomic_update (\<lambda>s. s AND flag = flag) (circ_clear_flag_word flag) (cstat c)
      in (lends res, c\<lparr>cstat := s\<rparr>))"

definition set_tx_standby :: "('a, 'i, 'o) circ \<Rightarrow> ('a, 'i, 'o) circ" where
  "set_tx_standby c = update_pos (circ_set_flag_word TX_STNDBY) c"

definition set_rx_standby :: "('a, 'i, 'o) circ \<Rightarrow> ('a, 'i, 'o) circ" where
  "set_rx_standby c = update_pos (circ_set_flag_word RX_STNDBY) c"

definition unset_tx_standby :: "('a, 'i, 'o) circ \<Rightarrow> ('a, 'i, 'o) circ" where
  "unset_tx_standby c = snd (circ_clear_flag TX_STNDBY c)"

definition unset_rx_standby :: "('a, 'i, 'o) circ \<Rightarrow> ('a, 'i, 'o) circ" where
  "unset_rx_standby c = snd (circ_clear_flag RX_STNDBY c)"

definition fire_producer :: "producer_event \<Rightarrow> ('a, 'i, 'o) circ \<Rightarrow> ('a, 'i, 'o) circ" where
  "fire_producer ev c =
     (if \<not> has_flag (cstat c) TX_STNDBY then c
      else (let (_, p, ks) = producer_check (cwaiters c) (cprod c) ev
            in c\<lparr>cprod := p, cwoken := cwoken c @ ks\<rparr>))"

definition fire_consumer :: "consumer_event \<Rightarrow> ('a, 'i, 'o) circ \<Rightarrow> ('a, 'i, 'o) circ" where
  "fire_consumer ev c =
     (if \<not> has_flag (cstat c) RX_STNDBY then c
      else (let (_, p, ks) = consumer_check (cwaiters c) (ccons c) ev
            in c\<lparr>ccons := p, cwoken := cwoken c @ ks\<rparr>))"

text \<open>\<open>on_buf_producer_drop_\<close> and \<open>on_buf_consumer_drop_\<close>.\<close>

definition on_buf_producer_drop :: "('a, 'i, 'o) circ \<Rightarrow> ('a, 'i, 'o) circ" where
  "on_buf_producer_drop c =
     (let c' = snd (circ_clear_flag TX_STNDBY c) in c'\<lparr>cprod := producer_reset_demand (cprod c')\<rparr>)"

definition on_buf_consumer_drop :: "('a, 'i, 'o) circ \<Rightarrow> ('a, 'i, 'o) circ" where
  "on_buf_consumer_drop c =
     (let c' = snd (circ_clear_flag RX_STNDBY c) in c'\<lparr>ccons := consumer_reset_demand (ccons c')\<rparr>)"


section \<open>Active ends\<close>

text \<open>
  \<open>react_async\<close> of an active end, polled once: the device fills (drains) the segment piece by piece
  until it has nothing (takes nothing) more. \<open>None\<close> as outcome is a device that is not ready.
\<close>

function dev_producer_react ::
    "('a, 'e, 'i) input_dev \<Rightarrow> 'a memory \<Rightarrow> recl \<Rightarrow> 'i \<Rightarrow> nat
     \<Rightarrow> (receiver_react option \<times> 'a memory \<times> recl \<times> 'i) run" where
  "dev_producer_react rd m g i moved =
     (if recl_is_empty g then
        Done (Some (if 0 < moved then Reacted else ContinueReact), m, g, i)
      else
        (case segm_mut_input rd m (recl_as_segm g) i (LessThan (of_nat (recl_least_count g))) of
           Panic e \<Rightarrow> Panic e
         | Done (None, m', child, i') \<Rightarrow> Done (None, m', recl_drop_child g child, i')
         | Done (Some x, m', child, i') \<Rightarrow>
             (let g' = recl_drop_child g child; n = (case pick_left x of None \<Rightarrow> 0 | Some k \<Rightarrow> k)
              in if pick_right x \<noteq> None \<or> n = 0 then
                   Done (Some (if 0 < moved then Reacted else ContinueReact), m', g', i')
                 else dev_producer_react rd m' g' i' (moved + n))))"
  by pat_completeness auto

function dev_consumer_react ::
    "('a, 'e, 'o) output_dev \<Rightarrow> 'a memory \<Rightarrow> recl \<Rightarrow> 'o \<Rightarrow> nat
     \<Rightarrow> (receiver_react option \<times> recl \<times> 'o) run" where
  "dev_consumer_react wr m g p moved =
     (if recl_is_empty g then
        Done (Some (if 0 < moved then Reacted else ContinueReact), g, p)
      else
        (case segm_ref_output wr m (recl_as_segm g) p (LessThan (of_nat (recl_least_count g))) of
           Panic e \<Rightarrow> Panic e
         | Done (None, child, p') \<Rightarrow> Done (None, recl_drop_child g child, p')
         | Done (Some x, child, p') \<Rightarrow>
             (let g' = recl_drop_child g child; n = (case pick_left x of None \<Rightarrow> 0 | Some k \<Rightarrow> k)
              in if pick_right x \<noteq> None \<or> n = 0 then
                   Done (Some (if 0 < moved then Reacted else ContinueReact), g', p')
                 else dev_consumer_react wr m g' p' (moved + n))))"
  by pat_completeness auto

lemma as_segm_offset: "soff (recl_as_segm g) = 0"
  by (simp add: recl_as_segm_def segm_new_def Let_def)

lemma dropped_child_smaller:
  "0 < recl_least_count g \<Longrightarrow> 0 < soff child \<Longrightarrow>
     recl_least_count (recl_drop_child g child) < recl_least_count g"
  by (simp add: recl_least_count_def recl_drop_child_def)

termination dev_producer_react
proof (relation "measure (\<lambda>(rd, m, g, i, moved). recl_least_count g)", goal_cases)
  case (2 rd m g i moved)
  then show ?case
    using as_segm_offset [of g]
    by (auto simp: recl_is_empty_def intro!: dropped_child_smaller
        dest: segm_mut_input_offset)
qed simp

termination dev_consumer_react
proof (relation "measure (\<lambda>(wr, m, g, p, moved). recl_least_count g)", goal_cases)
  case (2 wr m g p moved)
  then show ?case
    using as_segm_offset [of g]
    by (auto simp: recl_is_empty_def intro!: dropped_child_smaller
        dest: segm_ref_output_offset)
qed simp

declare dev_producer_react.simps [simp del] dev_consumer_react.simps [simp del]


text \<open>The two implementations of \<open>react_async\<close> per side; a passive end does nothing.\<close>

definition producer_react ::
    "('a, 'e, 'i) input_dev \<Rightarrow> 'a memory \<Rightarrow> recl \<Rightarrow> 'i producer
     \<Rightarrow> (receiver_react option \<times> 'a memory \<times> recl \<times> 'i producer) run" where
  "producer_react rd m g p =
     (case p of
        BufProducer d w \<Rightarrow> Done (Some ContinueReact, m, g, p)
      | DevProducer i w \<Rightarrow>
          run_map (\<lambda>(x, m', g', i'). (x, m', g', DevProducer i' w)) (dev_producer_react rd m g i 0))"

definition consumer_react ::
    "('a, 'e, 'o) output_dev \<Rightarrow> 'a memory \<Rightarrow> recl \<Rightarrow> 'o consumer
     \<Rightarrow> (receiver_react option \<times> recl \<times> 'o consumer) run" where
  "consumer_react wr m g p =
     (case p of
        BufConsumer d w \<Rightarrow> Done (Some ContinueReact, g, p)
      | DevConsumer q w \<Rightarrow>
          run_map (\<lambda>(x, g', q'). (x, g', DevConsumer q' w)) (dev_consumer_react wr m g q 0))"

section \<open>Commits and pumps\<close>

text \<open>
  A commit wakes the other side and drives its pump; the pump commits what the device moved, which
  wakes this side. The fuel bounds the calls that are still open; \<open>None\<close> is a panic or not enough
  fuel.
\<close>

function (sequential) pump_input_sync ::
      "('a, 'e, 'i) input_dev \<Rightarrow> ('a, 'f, 'o) output_dev \<Rightarrow> nat \<Rightarrow> ('a, 'i, 'o) circ
       \<Rightarrow> (nat \<times> ('a, 'i, 'o) circ) option"
  and pump_input_loop ::
      "('a, 'e, 'i) input_dev \<Rightarrow> ('a, 'f, 'o) output_dev \<Rightarrow> nat \<Rightarrow> nat \<Rightarrow> ('a, 'i, 'o) circ
       \<Rightarrow> (nat \<times> ('a, 'i, 'o) circ) option"
  and pump_output_sync ::
      "('a, 'e, 'i) input_dev \<Rightarrow> ('a, 'f, 'o) output_dev \<Rightarrow> nat \<Rightarrow> ('a, 'i, 'o) circ
       \<Rightarrow> (nat \<times> ('a, 'i, 'o) circ) option"
  and pump_output_loop ::
      "('a, 'e, 'i) input_dev \<Rightarrow> ('a, 'f, 'o) output_dev \<Rightarrow> nat \<Rightarrow> nat \<Rightarrow> ('a, 'i, 'o) circ
       \<Rightarrow> (nat \<times> ('a, 'i, 'o) circ) option"
  and circ_advance_write ::
      "('a, 'e, 'i) input_dev \<Rightarrow> ('a, 'f, 'o) output_dev \<Rightarrow> nat \<Rightarrow> usize \<Rightarrow> ('a, 'i, 'o) circ
       \<Rightarrow> ('a, 'i, 'o) circ option"
  and circ_advance_read ::
      "('a, 'e, 'i) input_dev \<Rightarrow> ('a, 'f, 'o) output_dev \<Rightarrow> nat \<Rightarrow> usize \<Rightarrow> ('a, 'i, 'o) circ
       \<Rightarrow> ('a, 'i, 'o) circ option"
where
  "pump_input_sync rd wr 0 c = None"
| "pump_input_sync rd wr (Suc k) c =
     (if producer_passive (cprod c) then Some (0, c)
      else if \<not> consumer_passive (ccons c) then Some (0, c)
      else pump_input_loop rd wr k 0 c)"
| "pump_input_loop rd wr 0 acc c = None"
| "pump_input_loop rd wr (Suc k) acc c =
     (if circ_tx_closed c \<or> circ_rx_closed c then Some (acc, c)
      else
        (let pos = circ_pos c; free = iopos_free_size pos
         in if free = 0 then Some (acc, c)
            else
              (case producer_react rd (cbuf c) (create_write_segm c (pos_wp pos) free) (cprod c) of
                 Panic e \<Rightarrow> None
               | Done (outcome, m', g', p') \<Rightarrow>
                   (let moved = recl_capacity g' - recl_least_count g'; sum' = acc + moved
                    in case circ_advance_write rd wr k (of_nat (roff g')) (c\<lparr>cbuf := m', cprod := p'\<rparr>) of
                         None \<Rightarrow> None
                       | Some c' \<Rightarrow>
                           if moved = 0 \<or> outcome \<noteq> Some Reacted then Some (sum', c')
                           else pump_input_loop rd wr k sum' c'))))"
| "pump_output_sync rd wr 0 c = None"
| "pump_output_sync rd wr (Suc k) c =
     (if consumer_passive (ccons c) then Some (0, c)
      else if \<not> producer_passive (cprod c) then Some (0, c)
      else pump_output_loop rd wr k 0 c)"
| "pump_output_loop rd wr 0 acc c = None"
| "pump_output_loop rd wr (Suc k) acc c =
     (if circ_rx_closed c then Some (acc, c)
      else
        (let pos = circ_pos c; ready = iopos_data_size pos
         in if ready = 0 then Some (acc, c)
            else
              (case consumer_react wr (cbuf c) (create_read_segm c (pos_rp pos) ready) (ccons c) of
                 Panic e \<Rightarrow> None
               | Done (outcome, g', p') \<Rightarrow>
                   (let moved = recl_capacity g' - recl_least_count g'; sum' = acc + moved
                    in case circ_advance_read rd wr k (of_nat (roff g')) (c\<lparr>ccons := p'\<rparr>) of
                         None \<Rightarrow> None
                       | Some c' \<Rightarrow>
                           if moved = 0 \<or> outcome \<noteq> Some Reacted then Some (sum', c')
                           else pump_output_loop rd wr k sum' c'))))"
| "circ_advance_write rd wr 0 amount c = None"
| "circ_advance_write rd wr (Suc k) amount c =
     (let c1 = update_pos (circ_write_word (circ_capacity c) amount) c;
          ev = (if circ_tx_closed c1 then ProducerClose (circ_data_size c1)
                else CAvailable (circ_data_size c1))
      in map_option snd (pump_output_sync rd wr k (fire_consumer ev c1)))"
| "circ_advance_read rd wr 0 amount c = None"
| "circ_advance_read rd wr (Suc k) amount c =
     (let c1 = update_pos (circ_read_word (circ_capacity c) amount) c;
          ev = (if circ_rx_closed c1 then ConsumerClose (circ_free_size c1)
                else PAvailable (circ_free_size c1))
      in map_option snd (pump_input_sync rd wr k (fire_producer ev c1)))"
  by pat_completeness auto

termination
  by (relation "measure (case_sum
        (case_sum (\<lambda>(rd, wr, k, c). k) (case_sum (\<lambda>(rd, wr, k, n, c). k) (\<lambda>(rd, wr, k, c). k)))
        (case_sum (\<lambda>(rd, wr, k, n, c). k)
          (case_sum (\<lambda>(rd, wr, k, n, c). k) (\<lambda>(rd, wr, k, n, c). k))))")
    simp_all

lemmas pump_simps = pump_input_sync.simps pump_input_loop.simps pump_output_sync.simps
  pump_output_loop.simps circ_advance_write.simps circ_advance_read.simps

declare pump_simps [simp del]

definition circ_close_tx ::
    "('a, 'e, 'i) input_dev \<Rightarrow> ('a, 'f, 'o) output_dev \<Rightarrow> nat \<Rightarrow> ('a, 'i, 'o) circ
     \<Rightarrow> ('a, 'i, 'o) circ option" where
  "circ_close_tx rd wr k c =
     (let c1 = circ_set_flag CIRC_TX_CLOSED c
      in map_option snd (pump_output_sync rd wr k (fire_consumer (ProducerClose (circ_data_size c1)) c1)))"

definition circ_close_rx :: "('a, 'i, 'o) circ \<Rightarrow> ('a, 'i, 'o) circ" where
  "circ_close_rx c =
     (let c1 = circ_set_flag CIRC_RX_CLOSED c
      in fire_producer (ConsumerClose (circ_free_size c1)) c1)"

text \<open>\<open>try_write_\<close> and \<open>try_read_\<close>: one round of the other side's pump before giving up.\<close>

definition circ_try_write ::
    "('a, 'e, 'i) input_dev \<Rightarrow> ('a, 'f, 'o) output_dev \<Rightarrow> nat \<Rightarrow> usize demand \<Rightarrow> ('a, 'i, 'o) circ
     \<Rightarrow> ((producer_error, recl) rust_result \<times> ('a, 'i, 'o) circ) option" where
  "circ_try_write rd wr k d c =
     (let attempt = (\<lambda>c. case circ_try_write_at c d of Inl e \<Rightarrow> Inl e
                       | Inr (start, tk) \<Rightarrow> Inr (create_write_segm c start tk))
      in case attempt c of
           Inr g \<Rightarrow> Some (Inr g, c)
         | Inl e \<Rightarrow>
             if write_should_terminate (producer_err_tag e) then Some (Inl e, c)
             else map_option (\<lambda>(_, c'). (attempt c', c')) (pump_output_sync rd wr k c))"

definition circ_try_read ::
    "('a, 'e, 'i) input_dev \<Rightarrow> ('a, 'f, 'o) output_dev \<Rightarrow> nat \<Rightarrow> usize demand \<Rightarrow> ('a, 'i, 'o) circ
     \<Rightarrow> ((consumer_error, recl) rust_result \<times> ('a, 'i, 'o) circ) option" where
  "circ_try_read rd wr k d c =
     (let attempt = (\<lambda>c. case circ_try_read_at c d of Inl e \<Rightarrow> Inl e
                       | Inr (start, tk) \<Rightarrow> Inr (create_read_segm c start tk))
      in case attempt c of
           Inr g \<Rightarrow> Some (Inr g, c)
         | Inl e \<Rightarrow>
             if read_should_terminate (consumer_err_tag e) then Some (Inl e, c)
             else map_option (\<lambda>(_, c'). (attempt c', c')) (pump_input_sync rd wr k c))"

text \<open>Dropping a lent segment commits what it consumed.\<close>

definition circ_drop_write ::
    "('a, 'e, 'i) input_dev \<Rightarrow> ('a, 'f, 'o) output_dev \<Rightarrow> nat \<Rightarrow> recl \<Rightarrow> ('a, 'i, 'o) circ
     \<Rightarrow> ('a, 'i, 'o) circ option" where
  "circ_drop_write rd wr k g c = circ_advance_write rd wr k (of_nat (roff g)) c"

definition circ_drop_read ::
    "('a, 'e, 'i) input_dev \<Rightarrow> ('a, 'f, 'o) output_dev \<Rightarrow> nat \<Rightarrow> recl \<Rightarrow> ('a, 'i, 'o) circ
     \<Rightarrow> ('a, 'i, 'o) circ option" where
  "circ_drop_read rd wr k g c = circ_advance_read rd wr k (of_nat (roff g)) c"

end
