(* ===== verification/Circ_Fifo.thy ===== *)
theory Circ_Fifo
  imports Circ_Core
begin

text \<open>
  The circular buffer as a stream: what the producer side put in is, in order, what the consumer
  side got out followed by what is buffered, whichever ends are passive halves and whichever are
  active devices. The pumps return for every device, and every call of the interface returns
  within a fuel that depends on the capacity only.
\<close>

section \<open>The buffered cells\<close>

definition circ_ok :: "('a, 'i, 'o) circ \<Rightarrow> bool" where
  "circ_ok c = (length (cbuf c) < 2 ^ 28 \<and> iopos_ok (circ_pos c))"

definition circ_data :: "('a, 'i, 'o) circ \<Rightarrow> nat" where
  "circ_data c = unat (circ_data_size c)"

definition circ_free :: "('a, 'i, 'o) circ \<Rightarrow> nat" where
  "circ_free c = unat (circ_free_size c)"

abbreviation circ_rp :: "('a, 'i, 'o) circ \<Rightarrow> nat" where
  "circ_rp c \<equiv> unat (pos_rp (circ_pos c))"

abbreviation circ_wp :: "('a, 'i, 'o) circ \<Rightarrow> nat" where
  "circ_wp c \<equiv> unat (pos_wp (circ_pos c))"

definition circ_queue :: "('a, 'i, 'o) circ \<Rightarrow> 'a option list" where
  "circ_queue c = mem_get (cbuf c) (ring_addrs (length (cbuf c)) (circ_rp c) (circ_data c))"

lemma circ_queue_length [simp]: "length (circ_queue c) = circ_data c"
  by (simp add: circ_queue_def mem_get_def)

lemma circ_cap [simp]: "pos_cap (circ_pos c) = circ_capacity c"
  by (simp add: circ_pos_def)

lemma circ_ok_cap:
  assumes "circ_ok c"
  shows "unat (circ_capacity c) = length (cbuf c)" "circ_cap_ok (circ_capacity c)"
    "2 \<le> length (cbuf c)"
proof -
  have "length (cbuf c) < 2 ^ 64"
    using assms by (auto simp: circ_ok_def intro: less_trans)
  then show u: "unat (circ_capacity c) = length (cbuf c)"
    by (simp add: circ_capacity_def unat_of_nat)
  show k: "circ_cap_ok (circ_capacity c)"
    using assms by (simp add: circ_ok_def iopos_ok_def)
  show "2 \<le> length (cbuf c)"
    using circ_cap_nat [OF k] u by simp
qed

lemma circ_counts:
  assumes "circ_ok c"
  obtains R W where "counts (circ_pos c) R W" "R \<le> W" "W \<le> R + length (cbuf c)"
    "circ_data c = W - R" "circ_free c = length (cbuf c) - (W - R)"
    "circ_rp c = R mod length (cbuf c)" "circ_wp c = W mod length (cbuf c)"
proof -
  have "iopos_ok (circ_pos c)"
    using assms by (simp add: circ_ok_def)
  then obtain R W where k: "counts (circ_pos c) R W"
    using ok_counts by blast
  moreover note counts_data [OF k]
  moreover from k have "R \<le> W \<and> W \<le> R + length (cbuf c) \<and> circ_rp c = R mod length (cbuf c)
      \<and> circ_wp c = W mod length (cbuf c)"
    by (simp add: counts_def Let_def circ_ok_cap(1) [OF assms])
  ultimately show thesis
    using that by (simp add: circ_data_def circ_free_def circ_data_size_def circ_free_size_def
        circ_ok_cap(1) [OF assms])
qed

lemma circ_sizes:
  assumes "circ_ok c"
  shows "circ_data c + circ_free c = length (cbuf c)" "circ_rp c < length (cbuf c)"
    "circ_wp c < length (cbuf c)" "(circ_rp c + circ_data c) mod length (cbuf c) = circ_wp c"
proof -
  obtain R W where *: "counts (circ_pos c) R W" "R \<le> W" "W \<le> R + length (cbuf c)"
    "circ_data c = W - R" "circ_free c = length (cbuf c) - (W - R)"
    "circ_rp c = R mod length (cbuf c)" "circ_wp c = W mod length (cbuf c)"
    by (rule circ_counts [OF assms])
  have "0 < length (cbuf c)"
    using circ_ok_cap(3) [OF assms] by linarith
  then show "circ_data c + circ_free c = length (cbuf c)" "circ_rp c < length (cbuf c)"
    "circ_wp c < length (cbuf c)"
    using * by simp_all
  show "(circ_rp c + circ_data c) mod length (cbuf c) = circ_wp c"
    using mod_add_left_eq [of R "length (cbuf c)" "W - R"] *(2)
    by (simp only: *(4,6,7) le_add_diff_inverse)
qed

text \<open>Facts that depend on the word and the cells only.\<close>

lemma circ_cong:
  assumes "cstat c' = cstat c" "cbuf c' = cbuf c"
  shows "circ_ok c' = circ_ok c" "circ_data c' = circ_data c" "circ_free c' = circ_free c"
    "circ_queue c' = circ_queue c" "circ_pos c' = circ_pos c" "circ_capacity c' = circ_capacity c"
  using assms
  by (simp_all add: circ_ok_def circ_data_def circ_free_def circ_queue_def circ_pos_def
      circ_capacity_def circ_data_size_def circ_free_size_def)

lemma circ_put_frame:
  assumes "length m = length (cbuf c)"
  shows "circ_ok (c\<lparr>cbuf := m\<rparr>) = circ_ok c" "circ_data (c\<lparr>cbuf := m\<rparr>) = circ_data c"
    "circ_free (c\<lparr>cbuf := m\<rparr>) = circ_free c" "circ_pos (c\<lparr>cbuf := m\<rparr>) = circ_pos c"
  using assms
  by (simp_all add: circ_ok_def circ_data_def circ_free_def circ_pos_def circ_capacity_def
      circ_data_size_def circ_free_size_def)

lemma circ_queue_put:
  assumes "circ_ok c" "k \<le> circ_free c" "set as \<subseteq> set (ring_addrs (length (cbuf c)) (circ_wp c) k)"
  shows "circ_queue (c\<lparr>cbuf := mem_put (cbuf c) as xs\<rparr>) = circ_queue c"
proof -
  have "circ_data c + k \<le> length (cbuf c)"
    using circ_sizes(1) [OF assms(1)] assms(2) by linarith
  from ring_addrs_disjoint [OF this, of "circ_rp c"]
  have "set as \<inter> set (ring_addrs (length (cbuf c)) (circ_rp c) (circ_data c)) = {}"
    using assms(3) circ_sizes(4) [OF assms(1)] by auto
  then show ?thesis
    by (simp add: circ_queue_def circ_put_frame mem_get_put_other)
qed

section \<open>Commits\<close>

lemma update_pos_frame [simp]:
  "cstat (update_pos f c) = f (cstat c)" "cbuf (update_pos f c) = cbuf c"
  "cprod (update_pos f c) = cprod c" "ccons (update_pos f c) = ccons c"
  "cwaiters (update_pos f c) = cwaiters c" "cwoken (update_pos f c) = cwoken c"
  "circ_capacity (update_pos f c) = circ_capacity c"
  by (simp_all add: update_pos_def circ_capacity_def)

lemma fire_frame [simp]:
  "cstat (fire_producer ev c) = cstat c" "cbuf (fire_producer ev c) = cbuf c"
  "ccons (fire_producer ev c) = ccons c" "cwaiters (fire_producer ev c) = cwaiters c"
  "cstat (fire_consumer ev' c) = cstat c" "cbuf (fire_consumer ev' c) = cbuf c"
  "cprod (fire_consumer ev' c) = cprod c" "cwaiters (fire_consumer ev' c) = cwaiters c"
  by (simp_all add: fire_producer_def fire_consumer_def split: prod.splits)

lemma commit_write:
  assumes "circ_ok c" "unat n \<le> circ_free c"
    "c' = update_pos (circ_write_word (circ_capacity c) n) c"
  shows "circ_ok c'" "circ_data c' = circ_data c + unat n" "circ_free c' = circ_free c - unat n"
    "circ_queue c' = circ_queue c @ mem_get (cbuf c) (ring_addrs (length (cbuf c)) (circ_wp c) (unat n))"
proof -
  let ?L = "length (cbuf c)"
  obtain R W where *: "counts (circ_pos c) R W" "R \<le> W" "W \<le> R + ?L"
    "circ_data c = W - R" "circ_free c = ?L - (W - R)"
    "circ_rp c = R mod ?L" "circ_wp c = W mod ?L"
    by (rule circ_counts [OF assms(1)])
  have "unat n + (W - R) \<le> unat (circ_capacity c)"
    using assms(2) * circ_ok_cap(1) [OF assms(1)] by linarith
  from write_word_counts(1) [OF *(1) [unfolded circ_pos_def] this]
  have k: "counts (circ_pos c') R (W + unat n)"
    by (simp add: assms(3) circ_pos_def)
  have L: "length (cbuf c') = ?L"
    by (simp add: assms(3))
  show ok: "circ_ok c'"
    using counts_ok [OF k] assms(1) L by (simp add: circ_ok_def)
  note d = counts_data [OF k] and u = circ_ok_cap(1) [OF ok]
  show data: "circ_data c' = circ_data c + unat n"
    using d(1) *(2,4) by (simp add: circ_data_def circ_data_size_def)
  show "circ_free c' = circ_free c - unat n"
    using circ_sizes(1) [OF ok] circ_sizes(1) [OF assms(1)] data L by simp
  have "circ_rp c' = circ_rp c"
    using k u L *(6) by (simp add: counts_def Let_def)
  then show "circ_queue c' = circ_queue c @ mem_get (cbuf c) (ring_addrs ?L (circ_wp c) (unat n))"
    using circ_sizes(4) [OF assms(1)]
    by (simp add: circ_queue_def data L ring_addrs_add mem_get_append) (simp add: assms(3))
qed

lemma commit_read:
  assumes "circ_ok c" "unat n \<le> circ_data c"
    "c' = update_pos (circ_read_word (circ_capacity c) n) c"
  shows "circ_ok c'" "circ_data c' = circ_data c - unat n" "circ_free c' = circ_free c + unat n"
    "circ_queue c' = drop (unat n) (circ_queue c)"
proof -
  let ?L = "length (cbuf c)"
  obtain R W where *: "counts (circ_pos c) R W" "R \<le> W" "W \<le> R + ?L"
    "circ_data c = W - R" "circ_free c = ?L - (W - R)"
    "circ_rp c = R mod ?L" "circ_wp c = W mod ?L"
    by (rule circ_counts [OF assms(1)])
  have "unat n \<le> W - R"
    using assms(2) * by linarith
  from read_word_counts(1) [OF *(1) [unfolded circ_pos_def] this]
  have k: "counts (circ_pos c') (R + unat n) W"
    by (simp add: assms(3) circ_pos_def)
  have L: "length (cbuf c') = ?L"
    by (simp add: assms(3))
  show ok: "circ_ok c'"
    using counts_ok [OF k] assms(1) L by (simp add: circ_ok_def)
  note d = counts_data [OF k] and u = circ_ok_cap(1) [OF ok]
  show data: "circ_data c' = circ_data c - unat n"
    using d(1) *(4) by (simp add: circ_data_def circ_data_size_def)
  show "circ_free c' = circ_free c + unat n"
    using circ_sizes(1) [OF ok] circ_sizes(1) [OF assms(1)] data L assms(2) by simp
  have rp: "circ_rp c' = (circ_rp c + unat n) mod ?L"
    using k u L *(6) by (simp add: counts_def Let_def mod_add_left_eq)
  have "drop (unat n) (circ_queue c) = mem_get (cbuf c)
      (drop (unat n) (ring_addrs ?L (circ_rp c) (circ_data c)))"
    by (simp only: circ_queue_def drop_mem_get)
  also have "\<dots> = mem_get (cbuf c) (ring_addrs ?L (circ_rp c') (circ_data c'))"
    by (simp only: drop_ring_addrs [OF assms(2)] rp data)
  finally show "circ_queue c' = drop (unat n) (circ_queue c)"
    by (simp add: circ_queue_def L) (simp add: assms(3))
qed


section \<open>Borrowed regions\<close>

lemma circ_segm_addrs:
  assumes "circ_ok c" "unat s < length (cbuf c)" "unat n \<le> length (cbuf c)"
  shows "pieces_addrs (rpieces (create_write_segm c s n)) = ring_addrs (length (cbuf c)) (unat s) (unat n)"
    and "pieces_addrs (rpieces (create_read_segm c s n)) = ring_addrs (length (cbuf c)) (unat s) (unat n)"
    and "roff (create_write_segm c s n) = 0" "roff (create_read_segm c s n) = 0"
proof -
  note cap = circ_ok_cap(1) [OF assms(1)]
  have "s \<le> circ_capacity c"
    using assms(2) cap by (simp add: word_le_nat_alt)
  then have sub: "unat (circ_capacity c - s) = length (cbuf c) - unat s"
    by (simp add: unat_sub cap)
  have f: "unat (min n (circ_capacity c - s)) = min (unat n) (length (cbuf c) - unat s)"
    by (simp add: unat_min sub)
  have lt: "min n (circ_capacity c - s) < n \<longleftrightarrow> length (cbuf c) - unat s < unat n"
    unfolding word_less_nat_alt f by auto
  have rest: "unat (n - min n (circ_capacity c - s)) = unat n - min (unat n) (length (cbuf c) - unat s)"
    by (subst unat_sub) (simp_all add: f)
  show "pieces_addrs (rpieces (create_write_segm c s n)) = ring_addrs (length (cbuf c)) (unat s) (unat n)"
    "pieces_addrs (rpieces (create_read_segm c s n)) = ring_addrs (length (cbuf c)) (unat s) (unat n)"
    using segm_addrs_aux [OF assms(2,3)]
    by (auto simp: create_write_segm_def create_read_segm_def recl_new_def Let_def lt rest f cap)
  show "roff (create_write_segm c s n) = 0" "roff (create_read_segm c s n) = 0"
    by (simp_all add: create_write_segm_def create_read_segm_def recl_new_def Let_def)
qed

lemma circ_segm_ok:
  assumes "circ_ok c" "unat s < length (cbuf c)" "unat n \<le> length (cbuf c)"
  shows "recl_ok (cbuf c) (create_write_segm c s n)" "recl_least_count (create_write_segm c s n) = unat n"
    "recl_ok (cbuf c) (create_read_segm c s n)" "recl_least_count (create_read_segm c s n) = unat n"
proof -
  note a = circ_segm_addrs [OF assms]
  have "0 < length (cbuf c)"
    using assms(2) by linarith
  then show "recl_ok (cbuf c) (create_write_segm c s n)" "recl_ok (cbuf c) (create_read_segm c s n)"
    by (auto simp: recl_ok_def a ring_addrs_less)
  show "recl_least_count (create_write_segm c s n) = unat n"
    "recl_least_count (create_read_segm c s n) = unat n"
    using arg_cong [OF a(1), of length] arg_cong [OF a(2), of length]
    by (simp_all add: recl_least_count_def a(3,4))
qed

section \<open>The reaction of an active end\<close>

text \<open>What a device writes through a child are the next cells of the segment.\<close>

lemma react_child:
  assumes "recl_ok m g" "0 < recl_least_count g"
    "segm_mut_input rd m (recl_as_segm g) i (LessThan w) = Done (x, m', child, i')"
    "input_ok rd given"
  obtains xs where "length xs \<le> recl_least_count g" "recl_drop_child g child = g\<lparr>roff := roff g + length xs\<rparr>"
    "m' = mem_put m (take (length xs) (drop (roff g) (pieces_addrs (rpieces g)))) (map Some xs)"
    "given i' = given i @ xs"
    "\<And>y. x = Some y \<Longrightarrow> pick_left y = Some (length xs)"
proof -
  let ?s = "recl_as_segm g"
  note ok = recl_as_segm_ok [OF assms(1,2)]
  note off = as_segm_offset [of g]
  let ?mx = "unat (min w (of_nat (slen ?s - soff ?s)))"
  have l: "input_loop rd (slen ?s - soff ?s) ?mx m ?s i 0 = (x, m', child, i')"
    using assms(3) by (simp add: segm_mut_input_def agreed_max_less_than Let_def)
  have "?mx \<le> unat (of_nat (slen ?s - soff ?s) :: usize)"
    by (simp add: unat_min)
  also have "\<dots> \<le> slen ?s - soff ?s"
    by (simp add: unat_of_nat)
  finally have mx: "?mx \<le> slen ?s - soff ?s" .
  obtain xs where xs: "child = ?s\<lparr>soff := length xs\<rparr>" "length xs \<le> slen ?s - soff ?s"
    "m' = mem_write m (sbase ?s) (map Some xs)" "given i' = given i @ xs"
    "\<And>y. x = Some y \<Longrightarrow> pick_left y = Some (length xs)"
    by (rule input_loop_spec [OF l assms(4) ok(1) mx])
      (use off mx in \<open>auto intro!: that\<close>)
  have le: "length xs \<le> least_count ?s"
    using xs(2) by (simp add: least_count_def)
  note ch = recl_child_addrs [OF assms(2) le]
  have "sbase ?s + length (map Some xs) \<le> length m"
    using ok(1) le off by (simp add: segm_ok_def least_count_def)
  from mem_write_put [OF this] show thesis
    using that [of xs] xs ch le by (simp add: recl_drop_child_def)
qed


lemma input_less_than_returns:
  obtains x m' child i' where "segm_mut_input rd m s i (LessThan w) = Done (x, m', child, i')"
proof -
  let ?l = "slen s - soff s"
  have "segm_mut_input rd m s i (LessThan w)
      = Done (input_loop rd ?l (unat (min w (of_nat ?l))) m s i 0)"
    by (simp add: segm_mut_input_def agreed_max_less_than Let_def)
  then show thesis
    using that by (cases "input_loop rd ?l (unat (min w (of_nat ?l))) m s i 0") auto
qed

lemma output_less_than_returns:
  obtains x child p' where "segm_ref_output wr m s p (LessThan w) = Done (x, child, p')"
proof -
  let ?l = "slen s - soff s"
  have "segm_ref_output wr m s p (LessThan w)
      = Done (output_loop wr ?l (unat (min w (of_nat ?l))) m s p 0)"
    by (simp add: segm_ref_output_def agreed_max_less_than Let_def)
  then show thesis
    using that by (cases "output_loop wr ?l (unat (min w (of_nat ?l))) m s p 0") auto
qed

definition input_reacted ::
    "('i \<Rightarrow> 'a list) \<Rightarrow> 'a memory \<Rightarrow> recl \<Rightarrow> 'i \<Rightarrow> 'a list \<Rightarrow> 'a memory \<Rightarrow> recl \<Rightarrow> 'i \<Rightarrow> bool" where
  "input_reacted given m g i xs m' g' i' =
     (length xs \<le> recl_least_count g \<and> g' = g\<lparr>roff := roff g + length xs\<rparr>
      \<and> m' = mem_put m (take (length xs) (drop (roff g) (pieces_addrs (rpieces g)))) (map Some xs)
      \<and> given i' = given i @ xs)"

lemma input_reacted_trans:
  assumes "input_reacted given m g i xs m1 g1 i1" "input_reacted given m1 g1 i1 ys m2 g2 i2"
  shows "input_reacted given m g i (xs @ ys) m2 g2 i2"
  using assms
  by (auto simp: input_reacted_def recl_least_count_def take_drop_add mem_put_append add.assoc)

lemma input_reacted_ok: "input_reacted given m g i xs m' g' i' \<Longrightarrow> recl_ok m g \<Longrightarrow> recl_ok m' g'"
  by (auto simp: input_reacted_def intro!: recl_ok_drop_child)

lemma input_reacted_refl: "input_reacted given m g i [] m g i"
  by (simp add: input_reacted_def)

lemma dev_producer_react_spec:
  "recl_ok m g \<Longrightarrow> input_ok rd given \<Longrightarrow>
   \<exists>x m' g' i' xs. dev_producer_react rd m g i moved = Done (x, m', g', i')
      \<and> input_reacted given m g i xs m' g' i' \<and> (x = Some Reacted \<longrightarrow> 0 < moved + length xs)"
proof (induction rd m g i moved rule: dev_producer_react.induct)
  case (1 rd m g i moved)
  show ?case
  proof (cases "recl_is_empty g")
    case True
    then show ?thesis
      using input_reacted_refl [of given m g i]
      by (force simp: dev_producer_react.simps [of rd m g i moved])
  next
    case False
    then have pos: "0 < recl_least_count g"
      by (simp add: recl_is_empty_def)
    obtain x m1 child i1 where s: "segm_mut_input rd m (recl_as_segm g) i
        (LessThan (of_nat (recl_least_count g))) = Done (x, m1, child, i1)"
      by (rule input_less_than_returns)
    obtain xs where len: "length xs \<le> recl_least_count g"
      and g1: "recl_drop_child g child = g\<lparr>roff := roff g + length xs\<rparr>"
      and m1: "m1 = mem_put m (take (length xs) (drop (roff g) (pieces_addrs (rpieces g)))) (map Some xs)"
      and gv: "given i1 = given i @ xs" and n: "\<And>y. x = Some y \<Longrightarrow> pick_left y = Some (length xs)"
      by (rule react_child [OF "1.prems"(1) pos s "1.prems"(2)], rule that)
    have step: "input_reacted given m g i xs m1 (recl_drop_child g child) i1"
      using len g1 m1 gv by (simp add: input_reacted_def)
    show ?thesis
    proof (cases "\<exists>y. x = Some y \<and> pick_right y = None \<and> xs \<noteq> []")
      case True
      then obtain y where y: "x = Some y" "pick_right y = None" "xs \<noteq> []"
        by blast
      have "\<exists>z m' g' i' ys. dev_producer_react rd m1 (recl_drop_child g child) i1 (moved + length xs)
          = Done (z, m', g', i') \<and> input_reacted given m1 (recl_drop_child g child) i1 ys m' g' i'
          \<and> (z = Some Reacted \<longrightarrow> 0 < moved + length xs + length ys)"
        using "1.IH" [OF False s [unfolded y(1)] refl refl refl refl refl refl] y n "1.prems"
          input_reacted_ok [OF step "1.prems"(1)] by simp
      then obtain z m' g' i' ys where
        r: "dev_producer_react rd m1 (recl_drop_child g child) i1 (moved + length xs) = Done (z, m', g', i')"
          "input_reacted given m1 (recl_drop_child g child) i1 ys m' g' i'"
        by blast
      have "dev_producer_react rd m g i moved = Done (z, m', g', i')"
        using r(1) y n False s by (simp add: dev_producer_react.simps [of rd m g i moved])
      then show ?thesis
        using input_reacted_trans [OF step r(2)] y(3) by force
    next
      case end_: False
      have "\<exists>z. dev_producer_react rd m g i moved = Done (z, m1, recl_drop_child g child, i1)
          \<and> (z = Some Reacted \<longrightarrow> 0 < moved)"
        using end_ n False s
        by (cases x) (auto simp: dev_producer_react.simps [of rd m g i moved] split: option.splits)
      then show ?thesis
        using step by force
    qed
  qed
qed


definition output_reacted ::
    "('o \<Rightarrow> 'a option list) \<Rightarrow> 'a memory \<Rightarrow> recl \<Rightarrow> 'o \<Rightarrow> nat \<Rightarrow> recl \<Rightarrow> 'o \<Rightarrow> bool" where
  "output_reacted taken m g p k g' p' =
     (k \<le> recl_least_count g \<and> g' = g\<lparr>roff := roff g + k\<rparr>
      \<and> taken p' = taken p @ mem_get m (take k (drop (roff g) (pieces_addrs (rpieces g)))))"

lemma output_reacted_trans:
  assumes "output_reacted taken m g p k g1 p1" "output_reacted taken m g1 p1 j g2 p2"
  shows "output_reacted taken m g p (k + j) g2 p2"
  using assms
  by (auto simp: output_reacted_def recl_least_count_def take_drop_add mem_get_append add.assoc)

lemma output_reacted_ok: "output_reacted taken m g p k g' p' \<Longrightarrow> recl_ok m g \<Longrightarrow> recl_ok m g'"
  by (auto simp: output_reacted_def intro!: recl_ok_drop_child)

lemma output_reacted_refl: "output_reacted taken m g p 0 g p"
  by (simp add: output_reacted_def mem_get_def)

lemma output_child:
  assumes "recl_ok m g" "0 < recl_least_count g"
    "segm_ref_output wr m (recl_as_segm g) p (LessThan w) = Done (x, child, p')"
    "output_ok wr taken"
  obtains k where "output_reacted taken m g p k (recl_drop_child g child) p'"
    "\<And>y. x = Some y \<Longrightarrow> pick_left y = Some k"
proof -
  let ?s = "recl_as_segm g"
  note ok = recl_as_segm_ok [OF assms(1,2)]
  note off = as_segm_offset [of g]
  let ?mx = "unat (min w (of_nat (slen ?s - soff ?s)))"
  have l: "output_loop wr (slen ?s - soff ?s) ?mx m ?s p 0 = (x, child, p')"
    using assms(3) by (simp add: segm_ref_output_def agreed_max_less_than Let_def)
  have "?mx \<le> unat (of_nat (slen ?s - soff ?s) :: usize)"
    by (simp add: unat_min)
  also have "\<dots> \<le> slen ?s - soff ?s"
    by (simp add: unat_of_nat)
  finally have mx: "?mx \<le> slen ?s - soff ?s" .
  obtain k where k: "child = ?s\<lparr>soff := k\<rparr>" "k \<le> slen ?s - soff ?s"
    "taken p' = taken p @ mem_read m (sbase ?s) k" "\<And>y. x = Some y \<Longrightarrow> pick_left y = Some k"
    by (rule output_loop_spec [OF l assms(4) ok(1) mx])
      (use off mx in \<open>auto intro!: that\<close>)
  have le: "k \<le> least_count ?s"
    using k(2) by (simp add: least_count_def)
  note ch = recl_child_addrs [OF assms(2) le]
  have "sbase ?s + k \<le> length m"
    using ok(1) le off by (simp add: segm_ok_def least_count_def)
  from mem_read_get [OF this] show thesis
    using that [of k] k ch le by (simp add: recl_drop_child_def output_reacted_def)
qed

lemma dev_consumer_react_spec:
  "recl_ok m g \<Longrightarrow> output_ok wr taken \<Longrightarrow>
   \<exists>x g' p' k. dev_consumer_react wr m g p moved = Done (x, g', p')
      \<and> output_reacted taken m g p k g' p' \<and> (x = Some Reacted \<longrightarrow> 0 < moved + k)"
proof (induction wr m g p moved rule: dev_consumer_react.induct)
  case (1 wr m g p moved)
  show ?case
  proof (cases "recl_is_empty g")
    case True
    then show ?thesis
      using output_reacted_refl [of taken m g p]
      by (force simp: dev_consumer_react.simps [of wr m g p moved])
  next
    case False
    then have pos: "0 < recl_least_count g"
      by (simp add: recl_is_empty_def)
    obtain x child p1 where s: "segm_ref_output wr m (recl_as_segm g) p
        (LessThan (of_nat (recl_least_count g))) = Done (x, child, p1)"
      by (rule output_less_than_returns)
    obtain k where step: "output_reacted taken m g p k (recl_drop_child g child) p1"
      and n: "\<And>y. x = Some y \<Longrightarrow> pick_left y = Some k"
      by (rule output_child [OF "1.prems"(1) pos s "1.prems"(2)], rule that)
    show ?thesis
    proof (cases "\<exists>y. x = Some y \<and> pick_right y = None \<and> k \<noteq> 0")
      case True
      then obtain y where y: "x = Some y" "pick_right y = None" "k \<noteq> 0"
        by blast
      have "\<exists>z g' p' j. dev_consumer_react wr m (recl_drop_child g child) p1 (moved + k)
          = Done (z, g', p') \<and> output_reacted taken m (recl_drop_child g child) p1 j g' p'
          \<and> (z = Some Reacted \<longrightarrow> 0 < moved + k + j)"
        using "1.IH" [OF False s [unfolded y(1)] refl refl refl refl refl] y n "1.prems"
          output_reacted_ok [OF step "1.prems"(1)] by simp
      then obtain z g' p' j where
        r: "dev_consumer_react wr m (recl_drop_child g child) p1 (moved + k) = Done (z, g', p')"
          "output_reacted taken m (recl_drop_child g child) p1 j g' p'"
        by blast
      have "dev_consumer_react wr m g p moved = Done (z, g', p')"
        using r(1) y n False s by (simp add: dev_consumer_react.simps [of wr m g p moved])
      then show ?thesis
        using output_reacted_trans [OF step r(2)] y(3) by force
    next
      case end_: False
      have "\<exists>z. dev_consumer_react wr m g p moved = Done (z, recl_drop_child g child, p1)
          \<and> (z = Some Reacted \<longrightarrow> 0 < moved)"
        using end_ n False s
        by (cases x) (auto simp: dev_consumer_react.simps [of wr m g p moved] split: option.splits)
      then show ?thesis
        using step by force
    qed
  qed
qed

section \<open>The pumps return, and move the stream on\<close>

text \<open>The streams on both sides of the buffer.\<close>

definition in_stream :: "('i \<Rightarrow> 'a list) \<Rightarrow> 'a list \<Rightarrow> ('a, 'i, 'o) circ \<Rightarrow> 'a list" where
  "in_stream given sent c =
     (case cprod c of BufProducer d w \<Rightarrow> sent | DevProducer i w \<Rightarrow> given i)"

definition out_stream :: "('o \<Rightarrow> 'a option list) \<Rightarrow> 'a option list \<Rightarrow> ('a, 'i, 'o) circ \<Rightarrow> 'a option list" where
  "out_stream taken received c =
     (case ccons c of BufConsumer d w \<Rightarrow> received | DevConsumer p w \<Rightarrow> taken p)"

text \<open>The sides are what they were, and the ends' modes with them.\<close>

definition same_modes :: "('a, 'i, 'o) circ \<Rightarrow> ('a, 'i, 'o) circ \<Rightarrow> bool" where
  "same_modes c c' =
     (producer_passive (cprod c') = producer_passive (cprod c)
      \<and> consumer_passive (ccons c') = consumer_passive (ccons c)
      \<and> length (cbuf c') = length (cbuf c))"


definition streams ::
    "('i \<Rightarrow> 'a list) \<Rightarrow> ('o \<Rightarrow> 'a option list) \<Rightarrow> 'a list \<Rightarrow> 'a option list \<Rightarrow> ('a, 'i, 'o) circ \<Rightarrow> bool" where
  "streams given taken sent received c =
     (circ_ok c \<and> map Some (in_stream given sent c) = out_stream taken received c @ circ_queue c)"

lemma producer_check_keeps:
  assumes "producer_check ws p ev = (b, q, ks)"
  shows "producer_passive q = producer_passive p"
    "(case q of BufProducer d w \<Rightarrow> x | DevProducer i w \<Rightarrow> f i)
      = (case p of BufProducer d w \<Rightarrow> x | DevProducer i w \<Rightarrow> f i)"
  using assms by (cases p; cases ev; auto split: if_splits option.splits)+

lemma consumer_check_keeps:
  assumes "consumer_check ws p ev = (b, q, ks)"
  shows "consumer_passive q = consumer_passive p"
    "(case q of BufConsumer d w \<Rightarrow> x | DevConsumer i w \<Rightarrow> f i)
      = (case p of BufConsumer d w \<Rightarrow> x | DevConsumer i w \<Rightarrow> f i)"
  using assms by (cases p; cases ev; auto split: if_splits option.splits)+

lemma fire_keeps [simp]:
  "producer_passive (cprod (fire_producer ev c)) = producer_passive (cprod c)"
  "consumer_passive (ccons (fire_consumer ev' c)) = consumer_passive (ccons c)"
  "in_stream given sent (fire_producer ev c) = in_stream given sent c"
  "out_stream taken received (fire_consumer ev' c) = out_stream taken received c"
  "in_stream given sent (fire_consumer ev' c) = in_stream given sent c"
  "out_stream taken received (fire_producer ev c) = out_stream taken received c"
  by (auto simp: fire_producer_def fire_consumer_def in_stream_def out_stream_def
      dest: producer_check_keeps consumer_check_keeps split: prod.splits)

lemma fire_same [simp]:
  "circ_ok (fire_producer ev c) = circ_ok c" "circ_queue (fire_producer ev c) = circ_queue c"
  "circ_data (fire_producer ev c) = circ_data c" "circ_free (fire_producer ev c) = circ_free c"
  "circ_ok (fire_consumer ev' c) = circ_ok c" "circ_queue (fire_consumer ev' c) = circ_queue c"
  "circ_data (fire_consumer ev' c) = circ_data c" "circ_free (fire_consumer ev' c) = circ_free c"
  by (rule circ_cong; simp)+

lemma streams_fire [simp]:
  "streams given taken sent received (fire_producer ev c) = streams given taken sent received c"
  "streams given taken sent received (fire_consumer ev' c) = streams given taken sent received c"
  by (simp_all add: streams_def)

text \<open>A commit pumps only when one end is active and the other is not.\<close>

lemma advance_write_quiet:
  assumes "consumer_passive (ccons c) \<or> \<not> producer_passive (cprod c)"
  obtains ev where "circ_advance_write rd wr (Suc (Suc k)) n c
    = Some (fire_consumer ev (update_pos (circ_write_word (circ_capacity c) n) c))"
  using that assms by (auto simp: pump_simps Let_def)

lemma advance_read_quiet:
  assumes "producer_passive (cprod c) \<or> \<not> consumer_passive (ccons c)"
  obtains ev where "circ_advance_read rd wr (Suc (Suc k)) n c
    = Some (fire_producer ev (update_pos (circ_read_word (circ_capacity c) n) c))"
  using that assms by (auto simp: pump_simps Let_def)

lemma same_modes_trans: "same_modes a b \<Longrightarrow> same_modes b c \<Longrightarrow> same_modes a c"
  by (simp add: same_modes_def)

lemma same_modes_refl [simp]: "same_modes c c"
  by (simp add: same_modes_def)

text \<open>Filling the front of the free region and committing it appends to the queue.\<close>

lemma put_commit:
  assumes "circ_ok c" "length xs \<le> circ_free c"
    "m = mem_put (cbuf c) (ring_addrs (length (cbuf c)) (circ_wp c) (length xs)) (map Some xs)"
    "cstat c2 = cstat c" "cbuf c2 = m"
    "c' = update_pos (circ_write_word (circ_capacity c2) (of_nat (length xs))) c2"
  shows "circ_ok c'" "circ_queue c' = circ_queue c @ map Some xs"
    "circ_free c' = circ_free c - length xs" "length (cbuf c') = length (cbuf c)"
proof -
  let ?L = "length (cbuf c)"
  have L: "length m = ?L"
    by (simp add: assms(3))
  have c2: "circ_ok c2" "circ_free c2 = circ_free c" "circ_pos c2 = circ_pos c"
    "circ_queue c2 = circ_queue (c\<lparr>cbuf := m\<rparr>)"
    using circ_cong [of c2 "c\<lparr>cbuf := m\<rparr>"] assms(1,4,5) circ_put_frame [OF L] by simp_all
  have q: "circ_queue c2 = circ_queue c"
    unfolding c2(4) assms(3)
    by (rule circ_queue_put [OF assms(1,2)]) simp
  have "length xs \<le> ?L"
    using assms(2) circ_sizes(1) [OF assms(1)] by linarith
  moreover have "?L < 2 ^ 28"
    using assms(1) by (simp add: circ_ok_def)
  ultimately have u: "unat (of_nat (length xs) :: usize) = length xs"
    by (intro unat_of_nat_cap [of _ "circ_capacity c"]) (simp add: circ_ok_cap(1) [OF assms(1)])
  then have "unat (of_nat (length xs) :: usize) \<le> circ_free c2"
    using assms(2) c2(2) by simp
  note w = commit_write [OF c2(1) this assms(6)]
  show "circ_ok c'" "circ_free c' = circ_free c - length xs" "length (cbuf c') = ?L"
    using w(1,3) u c2(2) by (simp_all add: assms(6) assms(5) L)
  have "mem_get m (ring_addrs ?L (circ_wp c) (length xs)) = map Some xs"
    unfolding assms(3) using \<open>length xs \<le> ?L\<close> circ_ok_cap(3) [OF assms(1)]
    by (intro mem_get_put) (auto intro!: distinct_ring_addrs ring_addrs_less)
  then show "circ_queue c' = circ_queue c @ map Some xs"
    using w(4) q u c2(3) by (simp add: assms(5) L)
qed


lemma closed_frame:
  "cstat c' = cstat c \<Longrightarrow> circ_tx_closed c' = circ_tx_closed c \<and> circ_rx_closed c' = circ_rx_closed c"
  by (simp add: circ_tx_closed_def circ_rx_closed_def)

text \<open>The items a device put into the front of the free region are appended to the queue by the commit.\<close>

lemma input_commit:
  assumes "circ_ok c" "cprod c = DevProducer i w" "unat n \<le> circ_free c"
    "input_reacted given (cbuf c) (create_write_segm c (pos_wp (circ_pos c)) n) i xs m' g' i'"
  shows "recl_capacity g' - recl_least_count g' = length xs" "roff g' = length xs" "length xs \<le> unat n"
    "recl_least_count g' = unat n - length xs"
    "\<exists>c'. circ_advance_write rd wr (Suc (Suc k)) (of_nat (length xs)) (c\<lparr>cbuf := m', cprod := DevProducer i' w\<rparr>)
         = Some c'
       \<and> circ_ok c' \<and> circ_queue c' = circ_queue c @ map Some xs \<and> circ_free c' = circ_free c - length xs
       \<and> same_modes c c' \<and> in_stream given sent c' = in_stream given sent c @ xs
       \<and> out_stream taken received c' = out_stream taken received c"
proof -
  let ?L = "length (cbuf c)"
  let ?g = "create_write_segm c (pos_wp (circ_pos c)) n"
  note wp = circ_sizes(3) [OF assms(1)]
  have le: "unat n \<le> ?L"
    using circ_sizes(1) [OF assms(1)] assms(3) by linarith
  note a = circ_segm_addrs [OF assms(1) wp le] and gok = circ_segm_ok [OF assms(1) wp le]
  show len: "length xs \<le> unat n"
    using assms(4) gok(2) by (simp add: input_reacted_def)
  have m': "m' = mem_put (cbuf c) (ring_addrs ?L (circ_wp c) (length xs)) (map Some xs)"
    using assms(4) len by (simp add: input_reacted_def a take_ring_addrs)
  show "roff g' = length xs" "recl_capacity g' - recl_least_count g' = length xs"
    "recl_least_count g' = unat n - length xs"
    using assms(4) gok(2) a(3) by (simp_all add: input_reacted_def recl_capacity_def recl_least_count_def)
  have gv: "given i' = given i @ xs"
    using assms(4) by (simp add: input_reacted_def)
  let ?c2 = "c\<lparr>cbuf := m', cprod := DevProducer i' w\<rparr>"
  obtain ev where ev: "circ_advance_write rd wr (Suc (Suc k)) (of_nat (length xs)) ?c2
      = Some (fire_consumer ev (update_pos (circ_write_word (circ_capacity ?c2) (of_nat (length xs))) ?c2))"
    by (rule advance_write_quiet [of ?c2 rd wr k "of_nat (length xs)"]) (auto intro: that)
  have fr: "length xs \<le> circ_free c"
    using len assms(3) by simp
  note pc = put_commit [OF assms(1) fr m', of ?c2, OF _ _ refl]
  have os: "out_stream taken received (update_pos f ?c2) = out_stream taken received c"
    and is_: "in_stream given sent (update_pos f ?c2) = in_stream given sent c @ xs" for f
    using gv by (simp_all add: out_stream_def in_stream_def assms(2))
  show "\<exists>c'. circ_advance_write rd wr (Suc (Suc k)) (of_nat (length xs)) ?c2 = Some c'
       \<and> circ_ok c' \<and> circ_queue c' = circ_queue c @ map Some xs \<and> circ_free c' = circ_free c - length xs
       \<and> same_modes c c' \<and> in_stream given sent c' = in_stream given sent c @ xs
       \<and> out_stream taken received c' = out_stream taken received c"
    using pc assms(2) by (simp add: ev same_modes_def os is_)
qed

text \<open>One round of the input pump: the items the device hands out are appended to the queue.\<close>

lemma input_round:
  assumes "circ_ok c" "\<not> producer_passive (cprod c)" "input_ok rd given"
    "producer_react rd (cbuf c) (create_write_segm c (pos_wp (circ_pos c)) (iopos_free_size (circ_pos c)))
       (cprod c) = r"
  obtains x m' g' p' xs where "r = Done (x, m', g', p')"
    "recl_capacity g' - recl_least_count g' = length xs" "roff g' = length xs"
    "length xs \<le> circ_free c" "x = Some Reacted \<Longrightarrow> xs \<noteq> []"
    "\<And>k. \<exists>c'. circ_advance_write rd wr (Suc (Suc k)) (of_nat (length xs)) (c\<lparr>cbuf := m', cprod := p'\<rparr>) = Some c'
       \<and> circ_ok c' \<and> circ_queue c' = circ_queue c @ map Some xs \<and> circ_free c' = circ_free c - length xs
       \<and> same_modes c c' \<and> in_stream given sent c' = in_stream given sent c @ xs
       \<and> out_stream taken received c' = out_stream taken received c"
proof -
  let ?g = "create_write_segm c (pos_wp (circ_pos c)) (iopos_free_size (circ_pos c))"
  have fr: "unat (iopos_free_size (circ_pos c)) = circ_free c"
    by (simp add: circ_free_def circ_free_size_def)
  have "unat (iopos_free_size (circ_pos c)) \<le> length (cbuf c)"
    using circ_sizes(1) [OF assms(1)] fr by linarith
  note gok = circ_segm_ok [OF assms(1) circ_sizes(3) [OF assms(1)] this]
  obtain i w where dev: "cprod c = DevProducer i w"
    using assms(2) by (cases "cprod c") auto
  obtain x m' g' i' xs where run: "dev_producer_react rd (cbuf c) ?g i 0 = Done (x, m', g', i')"
    and rx: "input_reacted given (cbuf c) ?g i xs m' g' i'" and re: "x = Some Reacted \<longrightarrow> 0 < 0 + length xs"
    using dev_producer_react_spec [OF gok(1) assms(3), of i 0] by blast
  note cm = input_commit [OF assms(1) dev _ rx]
  show thesis
    using that [of x m' g' "DevProducer i' w" xs] run assms(4) cm(1-3) cm(5) [of rd wr] fr re
    by (simp add: producer_react_def dev)
qed

lemma pump_input_loop_returns:
  assumes "streams given taken sent received c" "\<not> producer_passive (cprod c)"
    "consumer_passive (ccons c)" "input_ok rd given" "circ_free c + 3 \<le> k"
  shows "\<exists>n c'. pump_input_loop rd wr k acc c = Some (n, c') \<and> streams given taken sent received c'
     \<and> same_modes c c' \<and> out_stream taken received c' = out_stream taken received c
     \<and> (\<exists>xs. in_stream given sent c' = in_stream given sent c @ xs \<and> n = acc + length xs)"
  using assms
proof (induction k arbitrary: acc c rule: less_induct)
  case (less k)
  have ok: "circ_ok c"
    using less.prems(1) by (simp add: streams_def)
  have "k = Suc (Suc (Suc (k - 3)))"
    using less.prems(5) by arith
  then obtain k' where k': "k = Suc (Suc (Suc k'))"
    by blast
  show ?case
  proof (cases "circ_tx_closed c \<or> circ_rx_closed c \<or> iopos_free_size (circ_pos c) = 0")
    case True
    then show ?thesis
      using less.prems(1) by (auto simp: k' Let_def pump_input_loop.simps)
  next
    case False
    obtain x m' g' p' xs where
      r: "producer_react rd (cbuf c) (create_write_segm c (pos_wp (circ_pos c)) (iopos_free_size (circ_pos c)))
           (cprod c) = Done (x, m', g', p')"
      and g: "recl_capacity g' - recl_least_count g' = length xs" "roff g' = length xs"
      and len: "length xs \<le> circ_free c" and re: "x = Some Reacted \<Longrightarrow> xs \<noteq> []"
      and adv: "\<And>k. \<exists>c'. circ_advance_write rd wr (Suc (Suc k)) (of_nat (length xs)) (c\<lparr>cbuf := m', cprod := p'\<rparr>) = Some c'
       \<and> circ_ok c' \<and> circ_queue c' = circ_queue c @ map Some xs \<and> circ_free c' = circ_free c - length xs
       \<and> same_modes c c' \<and> in_stream given sent c' = in_stream given sent c @ xs
       \<and> out_stream taken received c' = out_stream taken received c"
      by (rule input_round [OF ok less.prems(2,4) refl, where wr = wr and sent = sent and taken = taken
            and received = received], rule that)
    obtain c1 where c1: "circ_advance_write rd wr (Suc (Suc k')) (of_nat (length xs)) (c\<lparr>cbuf := m', cprod := p'\<rparr>) = Some c1"
      "circ_ok c1" "circ_queue c1 = circ_queue c @ map Some xs" "circ_free c1 = circ_free c - length xs"
      "same_modes c c1" "in_stream given sent c1 = in_stream given sent c @ xs"
      "out_stream taken received c1 = out_stream taken received c"
      using adv [of k'] by blast
    have st: "streams given taken sent received c1"
      using less.prems(1) c1 by (simp add: streams_def)
    show ?thesis
    proof (cases "xs = [] \<or> x \<noteq> Some Reacted")
      case True
      have "pump_input_loop rd wr k acc c = Some (acc + length xs, c1)"
        using False r g c1(1) True by (auto simp: k' Let_def pump_input_loop.simps)
      then show ?thesis
        using st c1 by auto
    next
      case go: False
      have "pump_input_loop rd wr k acc c = pump_input_loop rd wr (Suc (Suc k')) (acc + length xs) c1"
        using False r g c1(1) go
        by (simp add: k' Let_def pump_input_loop.simps(2) [of rd wr "Suc (Suc k')"])
      moreover have "circ_free c1 + 3 \<le> Suc (Suc k')"
        using less.prems(5) go len c1(4) by (cases xs) (auto simp: k')
      ultimately show ?thesis
        using less.IH [of "Suc (Suc k')" c1 "acc + length xs"] st c1 less.prems(2-4)
          same_modes_trans [OF c1(5)]
        by (fastforce simp: k' same_modes_def)
    qed
  qed
qed


text \<open>The commit of what a device took from the front of the data drops it from the queue.\<close>

lemma output_commit:
  assumes "circ_ok c" "ccons c = DevConsumer q w" "unat n \<le> circ_data c"
    "output_reacted taken (cbuf c) (create_read_segm c (pos_rp (circ_pos c)) n) q j g' q'"
  shows "recl_capacity g' - recl_least_count g' = j" "roff g' = j" "j \<le> unat n"
    "recl_least_count g' = unat n - j"
    "\<exists>c'. circ_advance_read rd wr (Suc (Suc k)) (of_nat j) (c\<lparr>ccons := DevConsumer q' w\<rparr>) = Some c'
       \<and> circ_ok c' \<and> circ_queue c' = drop j (circ_queue c) \<and> circ_data c' = circ_data c - j
       \<and> same_modes c c' \<and> in_stream given sent c' = in_stream given sent c
       \<and> out_stream taken received c' = out_stream taken received c @ take j (circ_queue c)"
proof -
  let ?L = "length (cbuf c)"
  let ?g = "create_read_segm c (pos_rp (circ_pos c)) n"
  note rp = circ_sizes(2) [OF assms(1)]
  have le: "unat n \<le> ?L"
    using circ_sizes(1) [OF assms(1)] assms(3) by linarith
  note a = circ_segm_addrs [OF assms(1) rp le] and gok = circ_segm_ok [OF assms(1) rp le]
  show len: "j \<le> unat n"
    using assms(4) gok(4) by (simp add: output_reacted_def)
  show "roff g' = j" "recl_capacity g' - recl_least_count g' = j" "recl_least_count g' = unat n - j"
    using assms(4) gok(4) a(4) by (simp_all add: output_reacted_def recl_capacity_def recl_least_count_def)
  have tk: "taken q' = taken q @ take j (circ_queue c)"
    using assms(3,4) len by (simp add: output_reacted_def a take_mem_get take_ring_addrs circ_queue_def)
  let ?c2 = "c\<lparr>ccons := DevConsumer q' w\<rparr>"
  have j: "unat (of_nat j :: usize) = j"
    using len le circ_ok_cap(1) [OF assms(1)]
    by (intro unat_of_nat_cap [of _ "circ_capacity c"]) linarith
  have c2: "circ_ok ?c2" "circ_data ?c2 = circ_data c" "circ_queue ?c2 = circ_queue c"
    using circ_cong [of ?c2 c] assms(1) by simp_all
  have "unat (of_nat j :: usize) \<le> circ_data ?c2"
    using len assms(3) j c2(2) by simp
  note cr = commit_read [OF c2(1) this refl]
  obtain ev where ev: "circ_advance_read rd wr (Suc (Suc k)) (of_nat j) ?c2
      = Some (fire_producer ev (update_pos (circ_read_word (circ_capacity ?c2) (of_nat j)) ?c2))"
    by (rule advance_read_quiet [of ?c2 rd wr k "of_nat j"]) (auto intro: that)
  have os: "out_stream taken received (update_pos f ?c2)
      = out_stream taken received c @ take j (circ_queue c)"
    and is_: "in_stream given sent (update_pos f ?c2) = in_stream given sent c" for f
    using tk by (simp_all add: out_stream_def in_stream_def assms(2))
  show "\<exists>c'. circ_advance_read rd wr (Suc (Suc k)) (of_nat j) ?c2 = Some c'
       \<and> circ_ok c' \<and> circ_queue c' = drop j (circ_queue c) \<and> circ_data c' = circ_data c - j
       \<and> same_modes c c' \<and> in_stream given sent c' = in_stream given sent c
       \<and> out_stream taken received c' = out_stream taken received c @ take j (circ_queue c)"
    using cr assms(2) j c2 by (simp add: ev same_modes_def os is_)
qed

text \<open>One round of the output pump: the device takes the oldest cells.\<close>

lemma output_round:
  assumes "circ_ok c" "\<not> consumer_passive (ccons c)" "output_ok wr taken"
  obtains x g' p' j where
    "consumer_react wr (cbuf c) (create_read_segm c (pos_rp (circ_pos c)) (iopos_data_size (circ_pos c)))
       (ccons c) = Done (x, g', p')"
    "recl_capacity g' - recl_least_count g' = j" "roff g' = j" "j \<le> circ_data c"
    "x = Some Reacted \<Longrightarrow> 0 < j"
    "\<And>k. \<exists>c'. circ_advance_read rd wr (Suc (Suc k)) (of_nat j) (c\<lparr>ccons := p'\<rparr>) = Some c'
       \<and> circ_ok c' \<and> circ_queue c' = drop j (circ_queue c) \<and> circ_data c' = circ_data c - j
       \<and> same_modes c c' \<and> in_stream given sent c' = in_stream given sent c
       \<and> out_stream taken received c' = out_stream taken received c @ take j (circ_queue c)"
proof -
  let ?g = "create_read_segm c (pos_rp (circ_pos c)) (iopos_data_size (circ_pos c))"
  have fr: "unat (iopos_data_size (circ_pos c)) = circ_data c"
    by (simp add: circ_data_def circ_data_size_def)
  have "unat (iopos_data_size (circ_pos c)) \<le> length (cbuf c)"
    using circ_sizes(1) [OF assms(1)] fr by linarith
  note gok = circ_segm_ok [OF assms(1) circ_sizes(2) [OF assms(1)] this]
  obtain q w where dev: "ccons c = DevConsumer q w"
    using assms(2) by (cases "ccons c") auto
  obtain x g' q' j where run: "dev_consumer_react wr (cbuf c) ?g q 0 = Done (x, g', q')"
    and rx: "output_reacted taken (cbuf c) ?g q j g' q'" and re: "x = Some Reacted \<longrightarrow> 0 < 0 + j"
    using dev_consumer_react_spec [OF gok(3) assms(3), of q 0] by blast
  note cm = output_commit [OF assms(1) dev _ rx]
  show thesis
    using that [of x g' "DevConsumer q' w" j] run cm(1-3) cm(5) [of rd wr] fr re
    by (simp add: consumer_react_def dev)
qed

lemma pump_output_loop_returns:
  assumes "streams given taken sent received c" "\<not> consumer_passive (ccons c)"
    "producer_passive (cprod c)" "output_ok wr taken" "circ_data c + 3 \<le> k"
  shows "\<exists>n c'. pump_output_loop rd wr k acc c = Some (n, c') \<and> streams given taken sent received c'
     \<and> same_modes c c' \<and> in_stream given sent c' = in_stream given sent c \<and> circ_data c' \<le> circ_data c"
  using assms
proof (induction k arbitrary: acc c rule: less_induct)
  case (less k)
  have ok: "circ_ok c"
    using less.prems(1) by (simp add: streams_def)
  have "k = Suc (Suc (Suc (k - 3)))"
    using less.prems(5) by arith
  then obtain k' where k': "k = Suc (Suc (Suc k'))"
    by blast
  show ?case
  proof (cases "circ_rx_closed c \<or> iopos_data_size (circ_pos c) = 0")
    case True
    then show ?thesis
      using less.prems(1) by (auto simp: k' Let_def pump_output_loop.simps)
  next
    case False
    obtain x g' p' j where
      r: "consumer_react wr (cbuf c) (create_read_segm c (pos_rp (circ_pos c)) (iopos_data_size (circ_pos c)))
           (ccons c) = Done (x, g', p')"
      and g: "recl_capacity g' - recl_least_count g' = j" "roff g' = j"
      and len: "j \<le> circ_data c" and re: "x = Some Reacted \<Longrightarrow> 0 < j"
      and adv: "\<And>k. \<exists>c'. circ_advance_read rd wr (Suc (Suc k)) (of_nat j) (c\<lparr>ccons := p'\<rparr>) = Some c'
       \<and> circ_ok c' \<and> circ_queue c' = drop j (circ_queue c) \<and> circ_data c' = circ_data c - j
       \<and> same_modes c c' \<and> in_stream given sent c' = in_stream given sent c
       \<and> out_stream taken received c' = out_stream taken received c @ take j (circ_queue c)"
      by (rule output_round [OF ok less.prems(2,4), where rd = rd and sent = sent and given = given
            and received = received], rule that)
    obtain c1 where c1: "circ_advance_read rd wr (Suc (Suc k')) (of_nat j) (c\<lparr>ccons := p'\<rparr>) = Some c1"
      "circ_ok c1" "circ_queue c1 = drop j (circ_queue c)" "circ_data c1 = circ_data c - j"
      "same_modes c c1" "in_stream given sent c1 = in_stream given sent c"
      "out_stream taken received c1 = out_stream taken received c @ take j (circ_queue c)"
      using adv [of k'] by blast
    have st: "streams given taken sent received c1"
      using less.prems(1) c1 by (simp add: streams_def)
    show ?thesis
    proof (cases "j = 0 \<or> x \<noteq> Some Reacted")
      case True
      have "pump_output_loop rd wr k acc c = Some (acc + j, c1)"
        using False r g c1(1) True by (auto simp: k' Let_def pump_output_loop.simps)
      then show ?thesis
        using st c1 by auto
    next
      case go: False
      have "pump_output_loop rd wr k acc c = pump_output_loop rd wr (Suc (Suc k')) (acc + j) c1"
        using False r g c1(1) go
        by (simp add: k' Let_def pump_output_loop.simps(2) [of rd wr "Suc (Suc k')"])
      moreover have "circ_data c1 + 3 \<le> Suc (Suc k')"
        using less.prems(5) go len c1(4) by (auto simp: k')
      ultimately show ?thesis
        using less.IH [of "Suc (Suc k')" c1 "acc + j"] st c1 less.prems(2-4)
          same_modes_trans [OF c1(5)]
        by (fastforce simp: k' same_modes_def)
    qed
  qed
qed

section \<open>The calls of the interface\<close>

lemma pump_output_sync_returns:
  assumes "streams given taken sent received c" "output_ok wr taken" "length (cbuf c) + 4 \<le> k"
  shows "\<exists>n c'. pump_output_sync rd wr k c = Some (n, c') \<and> streams given taken sent received c'
     \<and> same_modes c c' \<and> in_stream given sent c' = in_stream given sent c
     \<and> (consumer_passive (ccons c) \<longrightarrow> c' = c)"
proof -
  obtain k' where k': "k = Suc k'" "length (cbuf c) + 3 \<le> k'"
    using assms(3) by (cases k) auto
  have "circ_data c + 3 \<le> k'"
    using k'(2) assms(1) circ_sizes(1) [of c] by (simp add: streams_def)
  from pump_output_loop_returns [OF assms(1) _ _ assms(2) this, of rd 0] show ?thesis
    using assms(1) by (auto simp: k'(1) pump_output_sync.simps)
qed

lemma pump_input_sync_returns:
  assumes "streams given taken sent received c" "input_ok rd given" "length (cbuf c) + 4 \<le> k"
  shows "\<exists>n c'. pump_input_sync rd wr k c = Some (n, c') \<and> streams given taken sent received c'
     \<and> same_modes c c' \<and> out_stream taken received c' = out_stream taken received c
     \<and> (producer_passive (cprod c) \<longrightarrow> c' = c)"
proof -
  obtain k' where k': "k = Suc k'" "length (cbuf c) + 3 \<le> k'"
    using assms(3) by (cases k) auto
  have "circ_free c + 3 \<le> k'"
    using k'(2) assms(1) circ_sizes(1) [of c] by (simp add: streams_def)
  from pump_input_loop_returns [OF assms(1) _ _ assms(2) this, of wr 0] show ?thesis
    using assms(1) by (fastforce simp: k'(1) pump_input_sync.simps)
qed

end
