(* ===== verification/Circ_Stream.thy ===== *)
theory Circ_Stream
  imports Circ_Fifo
begin

text \<open>
  The calls of the circular buffer's halves (\<open>spsc_.rs\<close>: \<open>Producer\<close>, \<open>Consumer\<close>) as a transition
  system: borrow a region, move items, drop the segment, or close. A device end has no half, its
  pump runs inside the other half's calls. The property is the stream of \<open>Circ_Fifo\<close>, for every
  sequence of calls.
\<close>

section \<open>Calls\<close>

datatype 'a half_call =
    WriteItems "usize demand" "'a list"
  | ReadItems "usize demand" nat
  | CloseTxCall
  | CloseRxCall

type_synonym ('a, 'i, 'o) circ_run = "('a, 'i, 'o) circ \<times> 'a list \<times> 'a option list"

text \<open>The producer half exists beside a passive producer only, the consumer half beside a passive consumer.\<close>

fun has_half :: "'a half_call \<Rightarrow> ('a, 'i, 'o) circ \<Rightarrow> bool" where
  "has_half (WriteItems d xs) c = producer_passive (cprod c)"
| "has_half CloseTxCall c = producer_passive (cprod c)"
| "has_half (ReadItems d n) c = consumer_passive (ccons c)"
| "has_half CloseRxCall c = consumer_passive (ccons c)"

fun circ_call ::
    "('a, 'e, 'i) input_dev \<Rightarrow> ('a, 'f, 'o) output_dev \<Rightarrow> nat \<Rightarrow> 'a half_call
     \<Rightarrow> ('a, 'i, 'o) circ_run \<Rightarrow> ('a, 'i, 'o) circ_run option" where
  "circ_call rd wr k (WriteItems d xs) (c, sent, received) =
     (case circ_try_write rd wr k d c of
        None \<Rightarrow> None
      | Some (Inl e, c') \<Rightarrow> Some (c', sent, received)
      | Some (Inr g, c') \<Rightarrow>
          (let (m, g', n) = recl_move_items_from_buff (cbuf c') g (map Some xs)
           in map_option (\<lambda>c2. (c2, sent @ take n xs, received))
                (circ_drop_write rd wr k g' (c'\<lparr>cbuf := m\<rparr>))))"
| "circ_call rd wr k (ReadItems d n) (c, sent, received) =
     (case circ_try_read rd wr k d c of
        None \<Rightarrow> None
      | Some (Inl e, c') \<Rightarrow> Some (c', sent, received)
      | Some (Inr g, c') \<Rightarrow>
          (let (dst, g', j) = recl_move_items_to_buff (cbuf c') g (replicate n None)
           in map_option (\<lambda>c2. (c2, sent, received @ take j dst)) (circ_drop_read rd wr k g' c')))"
| "circ_call rd wr k CloseTxCall (c, sent, received) =
     map_option (\<lambda>c'. (c', sent, received)) (circ_close_tx rd wr k c)"
| "circ_call rd wr k CloseRxCall (c, sent, received) = Some (circ_close_rx c, sent, received)"

fun circ_calls ::
    "('a, 'e, 'i) input_dev \<Rightarrow> ('a, 'f, 'o) output_dev \<Rightarrow> nat \<Rightarrow> 'a half_call list
     \<Rightarrow> ('a, 'i, 'o) circ_run \<Rightarrow> ('a, 'i, 'o) circ_run option" where
  "circ_calls rd wr k [] s = Some s"
| "circ_calls rd wr k (a # as) s =
     (if has_half a (fst s) then Option.bind (circ_call rd wr k a s) (circ_calls rd wr k as)
      else circ_calls rd wr k as s)"

section \<open>Each call moves the stream on\<close>

lemma write_at_lends:
  assumes "circ_try_write_at c d = Inr (s, tk)"
  shows "s = pos_wp (circ_pos c)" "unat tk \<le> circ_free c" "min_of d \<le> circ_free_size c"
  using assms
  by (auto simp: circ_try_write_at_def Let_def circ_free_def circ_free_size_def unat_min
      split: if_splits)

lemma read_at_lends:
  assumes "circ_try_read_at c d = Inr (s, tk)"
  shows "s = pos_rp (circ_pos c)" "unat tk \<le> circ_data c"
  using assms
  by (auto simp: circ_try_read_at_def Let_def circ_data_def circ_data_size_def unat_min
      split: if_splits)

lemma try_write_returns:
  assumes "streams given taken sent received c" "output_ok wr taken" "length (cbuf c) + 4 \<le> k"
  obtains r c' where "circ_try_write rd wr k d c = Some (r, c')"
    "streams given taken sent received c'" "same_modes c c'"
    "\<And>g. r = Inr g \<Longrightarrow> \<exists>tk. g = create_write_segm c' (pos_wp (circ_pos c')) tk \<and> unat tk \<le> circ_free c'"
proof -
  let ?at = "\<lambda>c. case circ_try_write_at c d of Inl e \<Rightarrow> Inl e
                  | Inr (start, tk) \<Rightarrow> Inr (create_write_segm c start tk)"
  have at: "\<exists>tk. g = create_write_segm c (pos_wp (circ_pos c)) tk \<and> unat tk \<le> circ_free c"
    if "?at c = Inr g" for g and c :: "('b, 'a, 'c) circ"
    using that write_at_lends(1,2) [of c d] by (auto split: sum.splits)
  obtain n c1 where p: "pump_output_sync rd wr k c = Some (n, c1)"
    "streams given taken sent received c1" "same_modes c c1"
    using pump_output_sync_returns [OF assms, of rd] by blast
  show thesis
  proof (cases "\<exists>e. ?at c = Inl e \<and> \<not> write_should_terminate (producer_err_tag e)")
    case True
    then show thesis
      using that [of "?at c1" c1] at [of c1] p
      by (auto simp: circ_try_write_def Let_def simp del: write_should_terminate.simps)
  next
    case False
    then show thesis
      using that [of "?at c" c] at [of c] assms(1)
      by (cases "?at c") (auto simp: circ_try_write_def Let_def simp del: write_should_terminate.simps)
  qed
qed

lemma try_read_returns:
  assumes "streams given taken sent received c" "input_ok rd given" "length (cbuf c) + 4 \<le> k"
  obtains r c' where "circ_try_read rd wr k d c = Some (r, c')"
    "streams given taken sent received c'" "same_modes c c'"
    "\<And>g. r = Inr g \<Longrightarrow> \<exists>tk. g = create_read_segm c' (pos_rp (circ_pos c')) tk \<and> unat tk \<le> circ_data c'"
proof -
  let ?at = "\<lambda>c. case circ_try_read_at c d of Inl e \<Rightarrow> Inl e
                  | Inr (start, tk) \<Rightarrow> Inr (create_read_segm c start tk)"
  have at: "\<exists>tk. g = create_read_segm c (pos_rp (circ_pos c)) tk \<and> unat tk \<le> circ_data c"
    if "?at c = Inr g" for g and c :: "('b, 'a, 'c) circ"
    using that read_at_lends [of c d] by (auto split: sum.splits)
  obtain n c1 where p: "pump_input_sync rd wr k c = Some (n, c1)"
    "streams given taken sent received c1" "same_modes c c1"
    using pump_input_sync_returns [OF assms, of wr] by blast
  show thesis
  proof (cases "\<exists>e. ?at c = Inl e \<and> \<not> read_should_terminate (consumer_err_tag e)")
    case True
    then show thesis
      using that [of "?at c1" c1] at [of c1] p
      by (auto simp: circ_try_read_def Let_def simp del: read_should_terminate.simps)
  next
    case False
    then show thesis
      using that [of "?at c" c] at [of c] assms(1)
      by (cases "?at c") (auto simp: circ_try_read_def Let_def simp del: read_should_terminate.simps)
  qed
qed


lemma stream_update_pos [simp]:
  "in_stream given sent (update_pos f c) = in_stream given sent c"
  "out_stream taken received (update_pos f c) = out_stream taken received c"
  by (simp_all add: in_stream_def out_stream_def)

lemma stream_set_buf [simp]:
  "in_stream given sent (c\<lparr>cbuf := m\<rparr>) = in_stream given sent c"
  "out_stream taken received (c\<lparr>cbuf := m\<rparr>) = out_stream taken received c"
  by (simp_all add: in_stream_def out_stream_def)

lemma passive_stream [simp]:
  "producer_passive (cprod c) \<Longrightarrow> in_stream given sent c = sent"
  "consumer_passive (ccons c) \<Longrightarrow> out_stream taken received c = received"
  by (cases "cprod c"; simp add: in_stream_def) (cases "ccons c"; simp add: out_stream_def)

lemma advance_write_streams:
  assumes "streams given taken sent received c1" "output_ok wr taken" "length (cbuf c1) + 5 \<le> k"
    "c1 = update_pos (circ_write_word (circ_capacity c) n) c"
  obtains c' where "circ_advance_write rd wr k n c = Some c'" "streams given taken sent received c'"
    "same_modes c c'" "in_stream given sent c' = in_stream given sent c"
proof -
  obtain k' where k: "k = Suc k'" "length (cbuf c1) + 4 \<le> k'"
    using assms(3) by (cases k) auto
  obtain ev where "circ_advance_write rd wr k n c
      = map_option snd (pump_output_sync rd wr k' (fire_consumer ev c1))"
    by (simp add: k(1) circ_advance_write.simps Let_def assms(4))
  moreover have "streams given taken sent received (fire_consumer ev c1)"
    "length (cbuf (fire_consumer ev c1)) + 4 \<le> k'"
    using assms(1) k(2) by simp_all
  ultimately show thesis
    using that pump_output_sync_returns [of given taken sent received "fire_consumer ev c1" wr k' rd]
      assms(2) by (auto simp: same_modes_def assms(4))
qed

lemma advance_read_streams:
  assumes "streams given taken sent received c1" "input_ok rd given" "length (cbuf c1) + 5 \<le> k"
    "c1 = update_pos (circ_read_word (circ_capacity c) n) c"
  obtains c' where "circ_advance_read rd wr k n c = Some c'" "streams given taken sent received c'"
    "same_modes c c'" "out_stream taken received c' = out_stream taken received c"
proof -
  obtain k' where k: "k = Suc k'" "length (cbuf c1) + 4 \<le> k'"
    using assms(3) by (cases k) auto
  obtain ev where "circ_advance_read rd wr k n c
      = map_option snd (pump_input_sync rd wr k' (fire_producer ev c1))"
    by (simp add: k(1) circ_advance_read.simps Let_def assms(4))
  moreover have "streams given taken sent received (fire_producer ev c1)"
    "length (cbuf (fire_producer ev c1)) + 4 \<le> k'"
    using assms(1) k(2) by simp_all
  ultimately show thesis
    using that pump_input_sync_returns [of given taken sent received "fire_producer ev c1" rd k' wr]
      assms(2) by (auto simp: same_modes_def assms(4))
qed

text \<open>The outcome of a call: it returns, the ends keep their modes and the streams agree.\<close>

definition call_ok ::
    "('i \<Rightarrow> 'a list) \<Rightarrow> ('o \<Rightarrow> 'a option list) \<Rightarrow> ('a, 'i, 'o) circ \<Rightarrow> ('a, 'i, 'o) circ_run option \<Rightarrow> bool" where
  "call_ok given taken c r =
     (case r of None \<Rightarrow> False
      | Some (c', sent, received) \<Rightarrow> streams given taken sent received c' \<and> same_modes c c')"

text \<open>Items moved into a lent segment, and the drop that commits them.\<close>

lemma lent_filled:
  assumes "streams given taken sent received c" "producer_passive (cprod c)" "output_ok wr taken"
    "length (cbuf c) + 5 \<le> k" "unat tk \<le> circ_free c"
    "recl_move_items_from_buff (cbuf c) (create_write_segm c (pos_wp (circ_pos c)) tk) (map Some xs) = (m, g', n)"
  obtains c2 where "circ_drop_write rd wr k g' (c\<lparr>cbuf := m\<rparr>) = Some c2"
    "streams given taken (sent @ take n xs) received c2" "same_modes c c2" "n = min (unat tk) (length xs)"
proof -
  let ?L = "length (cbuf c)" and ?g = "create_write_segm c (pos_wp (circ_pos c)) tk"
  have ok: "circ_ok c"
    using assms(1) by (simp add: streams_def)
  have le: "unat tk \<le> ?L"
    using assms(5) circ_sizes(1) [OF ok] by linarith
  note a = circ_segm_addrs [OF ok circ_sizes(3) [OF ok] le]
  note gok = circ_segm_ok [OF ok circ_sizes(3) [OF ok] le]
  define j where "j = min (unat tk) (length xs)"
  have "n = j \<and> g' = ?g\<lparr>roff := j\<rparr>
      \<and> m = mem_put (cbuf c) (ring_addrs ?L (circ_wp c) j) (take j (map Some xs))"
    using recl_move_from_spec [of "cbuf c" ?g 0 "map Some xs" m g' n j] assms(6) gok(1,2) a(1,3)
    by (simp add: recl_move_items_from_buff_def j_def take_ring_addrs)
  then have n: "n = j" and g': "roff g' = j"
    and m: "m = mem_put (cbuf c) (ring_addrs ?L (circ_wp c) (length (take j xs))) (map Some (take j xs))"
    by (simp_all add: take_map j_def)
  have len: "length (take j xs) \<le> circ_free c"
    using assms(5) by (simp add: j_def)
  let ?c2 = "c\<lparr>cbuf := m\<rparr>"
  let ?c1 = "update_pos (circ_write_word (circ_capacity ?c2) (of_nat j)) ?c2"
  have lj: "length (take j xs) = j"
    by (simp add: j_def)
  note pc = put_commit [OF ok len m, of ?c2, OF _ _ refl, unfolded lj]
  have s1: "streams given taken (sent @ take j xs) received ?c1"
    using assms(1,2) pc by (simp add: streams_def)
  have "length (cbuf ?c1) + 5 \<le> k"
    using pc(4) assms(4) by simp
  then obtain c3 where c3: "circ_advance_write rd wr k (of_nat j) ?c2 = Some c3"
    "streams given taken (sent @ take j xs) received c3" "same_modes ?c2 c3"
    using advance_write_streams [OF s1 assms(3) _ refl, of k rd] by blast
  have "same_modes c c3"
    using c3(3) pc(4) by (simp add: same_modes_def)
  then show thesis
    using c3(1,2) by (intro that) (simp_all add: n g' j_def circ_drop_write_def)
qed

lemma write_call_ok:
  assumes "streams given taken sent received c" "producer_passive (cprod c)" "output_ok wr taken"
    "length (cbuf c) + 5 \<le> k"
  shows "call_ok given taken c (circ_call rd wr k (WriteItems d xs) (c, sent, received))"
proof -
  obtain r c' where tw: "circ_try_write rd wr k d c = Some (r, c')"
    and st: "streams given taken sent received c'" and md: "same_modes c c'"
    and g: "\<And>g. r = Inr g \<Longrightarrow> \<exists>tk. g = create_write_segm c' (pos_wp (circ_pos c')) tk \<and> unat tk \<le> circ_free c'"
    by (rule try_write_returns [OF assms(1,3), of k rd d]) (use assms(4) in \<open>auto intro: that\<close>)
  show ?thesis
  proof (cases r)
    case (Inl e)
    then show ?thesis
      using tw st md by (simp add: call_ok_def)
  next
    case (Inr g0)
    then obtain tk where g0: "g0 = create_write_segm c' (pos_wp (circ_pos c')) tk" "unat tk \<le> circ_free c'"
      using g by blast
    obtain m g' n where mv: "recl_move_items_from_buff (cbuf c') g0 (map Some xs) = (m, g', n)"
      by (metis surj_pair)
    have p: "producer_passive (cprod c')" "length (cbuf c') + 5 \<le> k"
      using md assms(2,4) by (simp_all add: same_modes_def)
    obtain c3 where c3: "circ_drop_write rd wr k g' (c'\<lparr>cbuf := m\<rparr>) = Some c3"
      "streams given taken (sent @ take n xs) received c3" "same_modes c' c3"
      by (rule lent_filled [OF st p(1) assms(3) p(2) g0(2) mv [unfolded g0(1)]])
    have "same_modes c c3"
      using c3(3) md by (rule same_modes_trans [rotated])
    then show ?thesis
      using c3 tw mv by (simp add: Inr call_ok_def)
  qed
qed

text \<open>Items moved out of a lent segment, and the drop that commits them.\<close>

lemma lent_consumed:
  assumes "streams given taken sent received c" "consumer_passive (ccons c)" "input_ok rd given"
    "length (cbuf c) + 5 \<le> k" "unat tk \<le> circ_data c"
    "recl_move_items_to_buff (cbuf c) (create_read_segm c (pos_rp (circ_pos c)) tk) (replicate b None) = (dst, g', n)"
  obtains c2 where "circ_drop_read rd wr k g' c = Some c2" "streams given taken sent (received @ take n dst) c2"
    "same_modes c c2" "take n dst = take (min (unat tk) b) (circ_queue c)"
proof -
  let ?L = "length (cbuf c)"
  have ok: "circ_ok c"
    using assms(1) by (simp add: streams_def)
  have le: "unat tk \<le> ?L"
    using assms(5) circ_sizes(1) [OF ok] by linarith
  note a = circ_segm_addrs [OF ok circ_sizes(2) [OF ok] le]
  note gok = circ_segm_ok [OF ok circ_sizes(2) [OF ok] le]
  define j where "j = min (unat tk) b"
  have "n = j \<and> g' = (create_read_segm c (pos_rp (circ_pos c)) tk)\<lparr>roff := j\<rparr>
      \<and> dst = mem_get (cbuf c) (ring_addrs ?L (circ_rp c) j) @ drop j (replicate b None)"
    using recl_move_to_spec [of "cbuf c" "create_read_segm c (pos_rp (circ_pos c)) tk" 0 "replicate b None" dst g' n j] assms(6) gok(3,4) a(2,4)
    by (simp add: recl_move_items_to_buff_def j_def take_ring_addrs)
  moreover have "mem_get (cbuf c) (ring_addrs ?L (circ_rp c) j) = take j (circ_queue c)"
    using assms(5) by (simp add: circ_queue_def take_mem_get take_ring_addrs j_def)
  ultimately have n: "n = j" and g': "roff g' = j" and dst: "take j dst = take j (circ_queue c)"
    using assms(5) by (simp_all add: j_def)
  have len: "j \<le> circ_data c"
    using assms(5) by (simp add: j_def)
  let ?c1 = "update_pos (circ_read_word (circ_capacity c) (of_nat j)) c"
  have u: "unat (of_nat j :: usize) = j"
    using len le circ_ok_cap(1) [OF ok] circ_sizes(1) [OF ok]
    by (intro unat_of_nat_cap [of _ "circ_capacity c"]) linarith
  then have "unat (of_nat j :: usize) \<le> circ_data c"
    using len by simp
  note cr = commit_read [OF ok this refl, unfolded u]
  have "streams given taken sent (received @ take j dst) ?c1" "length (cbuf ?c1) + 5 \<le> k"
    using assms(1,2,4) cr dst by (simp_all add: streams_def)
  then obtain c3 where "circ_advance_read rd wr k (of_nat j) c = Some c3"
    "streams given taken sent (received @ take j dst) c3" "same_modes c c3"
    using advance_read_streams [where n = "of_nat j" and wr = wr, OF _ assms(3) _ refl] by blast
  then show thesis
    using dst by (intro that) (simp_all add: n g' circ_drop_read_def j_def)
qed

lemma read_call_ok:
  assumes "streams given taken sent received c" "consumer_passive (ccons c)" "input_ok rd given"
    "length (cbuf c) + 5 \<le> k"
  shows "call_ok given taken c (circ_call rd wr k (ReadItems d b) (c, sent, received))"
proof -
  obtain r c' where tw: "circ_try_read rd wr k d c = Some (r, c')"
    and st: "streams given taken sent received c'" and md: "same_modes c c'"
    and g: "\<And>g. r = Inr g \<Longrightarrow> \<exists>tk. g = create_read_segm c' (pos_rp (circ_pos c')) tk \<and> unat tk \<le> circ_data c'"
    by (rule try_read_returns [OF assms(1,3), of k wr d]) (use assms(4) in \<open>auto intro: that\<close>)
  show ?thesis
  proof (cases r)
    case (Inl e)
    then show ?thesis
      using tw st md by (simp add: call_ok_def)
  next
    case (Inr g0)
    then obtain tk where g0: "g0 = create_read_segm c' (pos_rp (circ_pos c')) tk" "unat tk \<le> circ_data c'"
      using g by blast
    obtain dst g' n where mv: "recl_move_items_to_buff (cbuf c') g0 (replicate b None) = (dst, g', n)"
      by (metis surj_pair)
    have p: "consumer_passive (ccons c')" "length (cbuf c') + 5 \<le> k"
      using md assms(2,4) by (simp_all add: same_modes_def)
    obtain c3 where c3: "circ_drop_read rd wr k g' c' = Some c3"
      "streams given taken sent (received @ take n dst) c3" "same_modes c' c3"
      by (rule lent_consumed [OF st p(1) assms(3) p(2) g0(2) mv [unfolded g0(1)]])
    have "same_modes c c3"
      using c3(3) md by (rule same_modes_trans [rotated])
    then show ?thesis
      using c3 tw mv by (simp add: Inr call_ok_def)
  qed
qed


lemma circ_pos_cong:
  assumes "circ_pos c' = circ_pos c" "cbuf c' = cbuf c"
  shows "circ_ok c' = circ_ok c" "circ_data c' = circ_data c" "circ_free c' = circ_free c"
    "circ_queue c' = circ_queue c"
  using assms
  by (simp_all add: circ_ok_def circ_data_def circ_free_def circ_queue_def circ_data_size_def
      circ_free_size_def)

lemma set_flag_frame [simp]:
  "cbuf (circ_set_flag f c) = cbuf c" "cprod (circ_set_flag f c) = cprod c"
  "ccons (circ_set_flag f c) = ccons c" "cwaiters (circ_set_flag f c) = cwaiters c"
  "cwoken (circ_set_flag f c) = cwoken c"
  by (simp_all add: circ_set_flag_def)

lemma set_flag_pos:
  "f \<in> {CIRC_TX_CLOSED, CIRC_RX_CLOSED, TX_STNDBY, RX_STNDBY} \<Longrightarrow> circ_pos (circ_set_flag f c) = circ_pos c"
  using flag_word_unpack(1) [of f "cstat c"]
  by (simp add: circ_set_flag_def circ_pos_def circ_capacity_def atomic_update_def)

lemma set_flag_streams:
  assumes "f \<in> {CIRC_TX_CLOSED, CIRC_RX_CLOSED, TX_STNDBY, RX_STNDBY}"
  shows "streams given taken sent received (circ_set_flag f c) = streams given taken sent received c"
  using circ_pos_cong [OF set_flag_pos [OF assms], of c]
  by (simp add: streams_def in_stream_def out_stream_def)

lemma close_call_ok:
  assumes "streams given taken sent received c" "output_ok wr taken" "length (cbuf c) + 4 \<le> k"
  shows "call_ok given taken c (circ_call rd wr k CloseTxCall (c, sent, received))"
    "call_ok given taken c (circ_call rd wr k CloseRxCall (c, sent, received))"
proof -
  let ?c1 = "fire_consumer (ProducerClose (circ_data_size (circ_set_flag CIRC_TX_CLOSED c)))
      (circ_set_flag CIRC_TX_CLOSED c)"
  have s: "streams given taken sent received ?c1"
    using assms(1) set_flag_streams [of CIRC_TX_CLOSED given taken sent received c] by simp
  have "length (cbuf ?c1) + 4 \<le> k"
    using assms(3) by simp
  from pump_output_sync_returns [OF s assms(2) this, of rd]
  show "call_ok given taken c (circ_call rd wr k CloseTxCall (c, sent, received))"
    by (auto simp: call_ok_def circ_close_tx_def Let_def same_modes_def)
  show "call_ok given taken c (circ_call rd wr k CloseRxCall (c, sent, received))"
    using assms(1) set_flag_streams [of CIRC_RX_CLOSED given taken sent received c]
    by (simp add: call_ok_def circ_close_rx_def Let_def same_modes_def)
qed

lemma any_call_ok:
  assumes "streams given taken sent received c" "has_half a c" "input_ok rd given" "output_ok wr taken"
    "length (cbuf c) + 5 \<le> k"
  shows "call_ok given taken c (circ_call rd wr k a (c, sent, received))"
proof (cases a)
  case (WriteItems d xs)
  then show ?thesis
    using write_call_ok [OF assms(1) _ assms(4,5)] assms(2) by simp
next
  case (ReadItems d n)
  then show ?thesis
    using read_call_ok [OF assms(1) _ assms(3,5)] assms(2) by simp
next
  case CloseTxCall
  then show ?thesis
    using close_call_ok(1) [OF assms(1,4), of k] assms(5) by simp
next
  case CloseRxCall
  then show ?thesis
    using close_call_ok(2) [OF assms(1,4), of k] assms(5) by simp
qed

lemma calls_ok:
  assumes "input_ok rd given" "output_ok wr taken"
  shows "streams given taken sent received c \<Longrightarrow> length (cbuf c) + 5 \<le> k \<Longrightarrow>
     call_ok given taken c (circ_calls rd wr k as (c, sent, received))"
proof (induction as arbitrary: c sent received)
  case Nil
  then show ?case
    by (simp add: call_ok_def)
next
  case (Cons a as)
  show ?case
  proof (cases "has_half a c")
    case False
    then show ?thesis
      using Cons by simp
  next
    case True
    obtain c1 s1 r1 where c1: "circ_call rd wr k a (c, sent, received) = Some (c1, s1, r1)"
      "streams given taken s1 r1 c1" "same_modes c c1"
      using any_call_ok [OF Cons.prems(1) True assms Cons.prems(2)]
      by (auto simp: call_ok_def split: option.splits)
    then have "call_ok given taken c1 (circ_calls rd wr k as (c1, s1, r1))"
      using Cons.IH [OF c1(2)] Cons.prems(2) by (simp add: same_modes_def)
    then show ?thesis
      using c1 same_modes_trans [OF c1(3)]
      by (simp add: True call_ok_def split: option.splits prod.splits)
  qed
qed

section \<open>Properties\<close>

lemma core_new_streams:
  assumes "2 \<le> length buffer" "length buffer < 2 ^ 28" "in_stream given [] (core_new p q buffer) = []"
    "out_stream taken [] (core_new p q buffer) = []"
  shows "streams given taken [] [] (core_new p q buffer)"
proof -
  let ?c = "core_new p q buffer"
  have u: "unat (circ_capacity ?c) = length buffer"
    using assms(2) less_trans [of "length buffer" "2 ^ 28" "2 ^ 64"]
    by (simp add: circ_capacity_def core_new_def unat_of_nat)
  have cap: "circ_cap_ok (circ_capacity ?c)"
    using u assms(1,2) unat_circ_max by (simp add: circ_cap_ok_def MIN_CAPACITY_def word_le_nat_alt)
  have pos: "circ_pos ?c = \<lparr>pos_rv = False, pos_rp = 0, pos_wp = 0, pos_cap = circ_capacity ?c\<rparr>"
    by (simp add: circ_pos_def iopos_unpack_def core_new_def has_flag_def)
  have "0 < unat (circ_capacity ?c)"
    unfolding u using assms(1) by linarith
  then have "0 < circ_capacity ?c"
    by (simp only: word_less_nat_alt unat_0)
  then have "circ_ok ?c"
    using cap assms(2) by (simp add: circ_ok_def iopos_ok_def pos) (simp add: core_new_def)
  moreover have "circ_data ?c = 0"
    by (simp add: circ_data_def circ_data_size_def pos iopos_data_size_def)
  ultimately show ?thesis
    using assms(3,4) by (simp add: streams_def circ_queue_def mem_get_def)
qed

text \<open>
  C15: The circular buffer is a lossless, order-preserving stream between its ends, whichever of
  them are passive halves and whichever active devices: any sequence of writes, reads and closes on
  the halves returns (the pumps terminate for every device that respects its interface, within a
  fuel of the capacity plus five), and what the producer side put in so far, items written through
  the half or handed out by the input device, is exactly what the consumer side got out, through its
  half or into the output device, followed by what is buffered. At most the capacity is buffered and
  no uninitialised cell is delivered.
\<close>

theorem circ_stream_preserved:
  assumes "2 \<le> length buffer" "length buffer < 2 ^ 28" "input_ok rd given" "output_ok wr taken"
    "in_stream given [] (core_new p q buffer) = []" "out_stream taken [] (core_new p q buffer) = []"
    "length buffer + 5 \<le> k"
  shows "\<exists>c sent received. circ_calls rd wr k calls (core_new p q buffer, [], []) = Some (c, sent, received)
     \<and> map Some (in_stream given sent c) = out_stream taken received c @ circ_queue c
     \<and> length (circ_queue c) \<le> length buffer"
proof -
  have l: "length (cbuf (core_new p q buffer)) = length buffer"
    by (simp add: core_new_def)
  have "call_ok given taken (core_new p q buffer) (circ_calls rd wr k calls (core_new p q buffer, [], []))"
    using assms(7) l by (intro calls_ok assms core_new_streams) simp_all
  then obtain c sent received where
    r: "circ_calls rd wr k calls (core_new p q buffer, [], []) = Some (c, sent, received)"
    and s: "streams given taken sent received c" and m: "length (cbuf c) = length buffer"
    using l by (auto simp: call_ok_def same_modes_def split: option.splits)
  have "length (circ_queue c) \<le> length buffer"
    using s m circ_sizes(1) [of c] by (simp add: streams_def)
  then show ?thesis
    using r s by (auto simp: streams_def)
qed

text \<open>A source that hands out a list and a sink that takes one cell at a time.\<close>

definition demo_source :: "(nat, unit, nat list \<times> nat list) input_dev" where
  "demo_source i n =
     (Some (OfLeft (take n (fst i))), (drop n (fst i), snd i @ take n (fst i)))"

definition demo_sink :: "(nat, unit, nat option list) output_dev" where
  "demo_sink p cs = (Some (OfLeft (min 1 (length cs))), p @ take 1 cs)"

lemma demo_devices:
  "input_ok demo_source snd" "output_ok demo_sink (\<lambda>p. p)"
  by (simp_all add: input_ok_def output_ok_def demo_source_def demo_sink_def items_of_def count_of_def
      Let_def min_def)

theorem circ_stream_preserved_witness:
  "\<exists>c sent received. circ_calls demo_source demo_sink 9
       [ReadItems (AtLeast 1) 2, ReadItems (LessThan 4) 3, CloseRxCall]
       (core_new (DevProducer ([1, 2, 3, 4, 5], []) None) (BufConsumer None None) [None, None, None, None],
        [], []) = Some (c, sent, received)
     \<and> map Some (in_stream snd sent c) = out_stream (\<lambda>p. p) received c @ circ_queue c
     \<and> length (circ_queue c) \<le> 4"
proof -
  have len: "length [None, None, None, None :: nat option] = (4 :: nat)"
    by simp
  have "\<exists>c sent received. circ_calls demo_source demo_sink 9
       [ReadItems (AtLeast 1) 2, ReadItems (LessThan 4) 3, CloseRxCall]
       (core_new (DevProducer ([1, 2, 3, 4, 5], []) None) (BufConsumer None None) [None, None, None, None],
        [], []) = Some (c, sent, received)
     \<and> map Some (in_stream snd sent c) = out_stream (\<lambda>p. p) received c @ circ_queue c
     \<and> length (circ_queue c) \<le> length [None, None, None, None :: nat option]"
    by (rule circ_stream_preserved)
      (simp_all add: demo_devices in_stream_def out_stream_def core_new_def)
  then show ?thesis
    unfolding len .
qed

end
