(* ===== verification/Circ_Relay.thy ===== *)
theory Circ_Relay
  imports Segm_Between Circ_Stream
begin

text \<open>
  Two circular buffers in a row. A relay reads from the first and writes to the second by moving items
  from the lent region of the one straight into that of the other (\<open>TrBuffSegmRef::move_items_to_segm\<close>),
  as a client of both halves does; on the outer sides the buffers are used as in \<open>Circ_Stream\<close>.
\<close>

section \<open>The relay\<close>

text \<open>
  Borrow from the consumer of the first buffer and from the producer of the second, move, and drop both
  regions. What was moved is what the first delivered and what the second was sent.
\<close>

definition relay ::
    "('a, 'e, 'i) input_dev \<Rightarrow> ('a, 'f, 'o) output_dev \<Rightarrow> ('a, 'g, 'j) input_dev \<Rightarrow> ('a, 'h, 'p) output_dev
     \<Rightarrow> nat \<Rightarrow> usize demand \<Rightarrow> usize demand \<Rightarrow> ('a, 'i, 'o) circ \<times> ('a, 'j, 'p) circ
     \<Rightarrow> (nat \<times> ('a, 'i, 'o) circ \<times> ('a, 'j, 'p) circ) option" where
  "relay rd wr rd' wr' k d d' x =
     (let (c1, c2) = x in
      case circ_try_read rd wr k d c1 of
        None \<Rightarrow> None
      | Some (Inl e, c1) \<Rightarrow> Some (0, c1, c2)
      | Some (Inr g, c1) \<Rightarrow>
          (case circ_try_write rd' wr' k d' c2 of
             None \<Rightarrow> None
           | Some (Inl e, c2) \<Rightarrow> map_option (\<lambda>c1. (0, c1, c2)) (circ_drop_read rd wr k g c1)
           | Some (Inr t, c2) \<Rightarrow>
               (case recl_move_items_to_segm k (cbuf c1) g (cbuf c2) t 0 of
                  None \<Rightarrow> None
                | Some (g', m, t', n) \<Rightarrow>
                    (case (circ_drop_write rd' wr' k t' (c2\<lparr>cbuf := m\<rparr>), circ_drop_read rd wr k g' c1) of
                       (Some c2, Some c1) \<Rightarrow> Some (n, c1, c2)
                     | _ \<Rightarrow> None))))"

text \<open>Nothing consumed: the drop commits nothing.\<close>

lemma unused_drop:
  assumes "streams given taken sent received c" "consumer_passive (ccons c)" "input_ok rd given"
    "length (cbuf c) + 5 \<le> k" "unat tk \<le> circ_data c"
  obtains c2 where "circ_drop_read rd wr k (create_read_segm c (pos_rp (circ_pos c)) tk) c = Some c2"
    "streams given taken sent received c2" "same_modes c c2"
proof -
  obtain c2 where "circ_drop_read rd wr k (create_read_segm c (pos_rp (circ_pos c)) tk) c = Some c2"
    "streams given taken sent (received @ take 0 []) c2" "same_modes c c2"
    by (rule lent_consumed [OF assms, of 0 "[]" "create_read_segm c (pos_rp (circ_pos c)) tk" 0 wr])
      (simp_all add: recl_move_items_to_buff_def recl_move_to.simps)
  then show thesis
    using that by simp
qed

lemma queue_filled:
  assumes "streams given taken sent received c"
  obtains xs where "take n (circ_queue c) = map Some xs"
proof -
  have "map Some (in_stream given sent c) = out_stream taken received c @ circ_queue c"
    using assms by (simp add: streams_def)
  then have "circ_queue c = map Some (drop (length (out_stream taken received c)) (in_stream given sent c))"
    by (metis append_eq_conv_conj drop_map)
  then show thesis
    using that by (metis take_map)
qed

lemma regions_moved:
  assumes s1: "streams given taken sent received c1" "consumer_passive (ccons c1)" "input_ok rd given"
    "length (cbuf c1) + 5 \<le> k" "unat tk \<le> circ_data c1"
    and s2: "streams given' taken' sent' received' c2" "producer_passive (cprod c2)" "output_ok wr' taken'"
    "length (cbuf c2) + 5 \<le> k" "unat tk' \<le> circ_free c2"
  obtains g m t n xs c3 c4 where
    "recl_move_items_to_segm k (cbuf c1) (create_read_segm c1 (pos_rp (circ_pos c1)) tk)
       (cbuf c2) (create_write_segm c2 (pos_wp (circ_pos c2)) tk') 0 = Some (g, m, t, n)"
    "circ_drop_read rd wr k g c1 = Some c3" "circ_drop_write rd' wr' k t (c2\<lparr>cbuf := m\<rparr>) = Some c4"
    "streams given taken sent (received @ map Some xs) c3" "streams given' taken' (sent' @ xs) received' c4"
    "same_modes c1 c3" "same_modes c2 c4" "length xs = n"
proof -
  define g0 where "g0 = create_read_segm c1 (pos_rp (circ_pos c1)) tk"
  define t0 where "t0 = create_write_segm c2 (pos_wp (circ_pos c2)) tk'"
  have ok: "circ_ok c1" "circ_ok c2"
    using s1(1) s2(1) by (simp_all add: streams_def)
  have le: "unat tk \<le> length (cbuf c1)" "unat tk' \<le> length (cbuf c2)"
    using s1(5) s2(5) circ_sizes(1) [OF ok(1)] circ_sizes(1) [OF ok(2)] by linarith+
  have g0: "recl_ok (cbuf c1) g0"
    using circ_segm_ok(3) [OF ok(1) circ_sizes(2) [OF ok(1)] le(1)] by (simp add: g0_def)
  have t0: "recl_ok (cbuf c2) t0" "recl_least_count t0 = unat tk'"
    using circ_segm_ok(1,2) [OF ok(2) circ_sizes(3) [OF ok(2)] le(2)] by (simp_all add: t0_def)
  obtain dst g n where out: "recl_move_items_to_buff (cbuf c1) g0 (replicate (unat tk') None) = (dst, g, n)"
    by (metis surj_pair)
  obtain c3 where c3: "circ_drop_read rd wr k g c1 = Some c3" "streams given taken sent (received @ take n dst) c3"
    "same_modes c1 c3" and dst: "take n dst = take (min (unat tk) (unat tk')) (circ_queue c1)"
    by (rule lent_consumed [OF s1 out [unfolded g0_def]])
  obtain xs where xs: "take n dst = map Some xs"
    using queue_filled [OF s1(1)] dst by metis
  obtain m t j where mv: "recl_move_items_from_buff (cbuf c2) t0 (map Some xs) = (m, t, j)"
    by (metis surj_pair)
  have "min (recl_least_count g0) (recl_least_count t0) \<le> k"
    using le(2) s2(4) t0(2) by linarith
  note bt = between_through_buffer [OF g0 t0(1) this, unfolded t0(2), OF out, unfolded xs, OF mv]
  obtain c4 where c4: "circ_drop_write rd' wr' k t (c2\<lparr>cbuf := m\<rparr>) = Some c4"
    "streams given' taken' (sent' @ take j xs) received' c4" "same_modes c2 c4" and j: "j = min (unat tk') (length xs)"
    by (rule lent_filled [OF s2 mv [unfolded t0_def]])
  have "length xs = n"
  proof -
    have "length (take n dst) = min (unat tk) (unat tk')"
      using dst s1(5) by simp
    then show ?thesis
      using xs j bt(2) by (simp del: length_take)
  qed
  then show thesis
    using bt c3 c4 xs by (intro that [of g m t n c3 c4 xs]) (simp_all add: g0_def t0_def)
qed

lemma relay_ok:
  assumes s1: "streams given taken sent received c1" "consumer_passive (ccons c1)" "input_ok rd given"
    "length (cbuf c1) + 5 \<le> k"
    and s2: "streams given' taken' sent' received' c2" "producer_passive (cprod c2)" "output_ok wr' taken'"
    "length (cbuf c2) + 5 \<le> k"
  obtains n xs c3 c4 where "relay rd wr rd' wr' k d d' (c1, c2) = Some (n, c3, c4)"
    "streams given taken sent (received @ map Some xs) c3" "streams given' taken' (sent' @ xs) received' c4"
    "same_modes c1 c3" "same_modes c2 c4" "length xs = n"
proof -
  obtain r c1' where rd: "circ_try_read rd wr k d c1 = Some (r, c1')"
    "streams given taken sent received c1'" "same_modes c1 c1'"
    and g: "\<And>g. r = Inr g \<Longrightarrow> \<exists>tk. g = create_read_segm c1' (pos_rp (circ_pos c1')) tk \<and> unat tk \<le> circ_data c1'"
    by (rule try_read_returns [OF s1(1,3), of k wr d]) (use s1(4) in \<open>auto intro: that\<close>)
  show thesis
  proof (cases r)
    case (Inl e)
    then show thesis
      using rd s2(1) by (intro that [of 0 c1' c2 "[]"]) (simp_all add: relay_def same_modes_def)
  next
    case (Inr g0)
    then obtain tk where tk: "g0 = create_read_segm c1' (pos_rp (circ_pos c1')) tk" "unat tk \<le> circ_data c1'"
      using g by blast
    have p1: "consumer_passive (ccons c1')" "length (cbuf c1') + 5 \<le> k"
      using rd(3) s1(2,4) by (simp_all add: same_modes_def)
    obtain r' c2' where wr: "circ_try_write rd' wr' k d' c2 = Some (r', c2')"
      "streams given' taken' sent' received' c2'" "same_modes c2 c2'"
      and t: "\<And>g. r' = Inr g \<Longrightarrow> \<exists>tk. g = create_write_segm c2' (pos_wp (circ_pos c2')) tk \<and> unat tk \<le> circ_free c2'"
      by (rule try_write_returns [OF s2(1,3), of k rd' d']) (use s2(4) in \<open>auto intro: that\<close>)
    show thesis
    proof (cases r')
      case (Inl e)
      obtain c3 where "circ_drop_read rd wr k g0 c1' = Some c3" "streams given taken sent received c3" "same_modes c1' c3"
        by (rule unused_drop [OF rd(2) p1(1) s1(3) p1(2) tk(2), of wr, folded tk(1)])
      then show thesis
        using rd wr Inr Inl same_modes_trans [OF rd(3)]
        by (intro that [of 0 c3 c2' "[]"]) (simp_all add: relay_def)
    next
      case (Inr t0)
      then obtain tk' where tk': "t0 = create_write_segm c2' (pos_wp (circ_pos c2')) tk'" "unat tk' \<le> circ_free c2'"
        using t by blast
      have p2: "producer_passive (cprod c2')" "length (cbuf c2') + 5 \<le> k"
        using wr(3) s2(2,4) by (simp_all add: same_modes_def)
      obtain g m t n xs c3 c4 where mv: "recl_move_items_to_segm k (cbuf c1') g0 (cbuf c2') t0 0 = Some (g, m, t, n)"
        "circ_drop_read rd wr k g c1' = Some c3" "circ_drop_write rd' wr' k t (c2'\<lparr>cbuf := m\<rparr>) = Some c4"
        and st: "streams given taken sent (received @ map Some xs) c3" "streams given' taken' (sent' @ xs) received' c4"
        "same_modes c1' c3" "same_modes c2' c4" "length xs = n"
        by (rule regions_moved [OF rd(2) p1(1) s1(3) p1(2) tk(2) wr(2) p2(1) s2(3) p2(2) tk'(2), of wr rd',
              folded tk(1) tk'(1)])
      have "relay rd wr rd' wr' k d d' (c1, c2) = Some (n, c3, c4)"
        using rd(1) wr(1) mv \<open>r = Inr g0\<close> Inr by (simp add: relay_def)
      then show thesis
        using st same_modes_trans [OF rd(3)] same_modes_trans [OF wr(3)] by (intro that)
    qed
  qed
qed

section \<open>A chain of two buffers\<close>

text \<open>
  Calls on the outer halves and relays, in any order. The inner halves belong to the relay, which alone
  reads from the first buffer and writes to the second; they may be closed at any time.
\<close>

datatype 'a chain_op =
    OnFirst "'a half_call"
  | OnSecond "'a half_call"
  | Relay "usize demand" "usize demand"

type_synonym ('a, 'i, 'o, 'j, 'p) chain = "('a, 'i, 'o) circ \<times> 'a list \<times> ('a, 'j, 'p) circ \<times> 'a option list"

fun reads :: "'a half_call \<Rightarrow> bool" where
  "reads (ReadItems d n) = True"
| "reads _ = False"

fun writes :: "'a half_call \<Rightarrow> bool" where
  "writes (WriteItems d xs) = True"
| "writes _ = False"

fun chain_do ::
    "('a, 'e, 'i) input_dev \<Rightarrow> ('a, 'f, 'o) output_dev \<Rightarrow> ('a, 'g, 'j) input_dev \<Rightarrow> ('a, 'h, 'p) output_dev
     \<Rightarrow> nat \<Rightarrow> 'a chain_op \<Rightarrow> ('a, 'i, 'o, 'j, 'p) chain \<Rightarrow> ('a, 'i, 'o, 'j, 'p) chain option" where
  "chain_do rd wr rd' wr' k (OnFirst a) (c1, sent, c2, received) =
     (if has_half a c1 \<and> \<not> reads a
      then map_option (\<lambda>(c1, xs, ys). (c1, sent @ xs, c2, received)) (circ_call rd wr k a (c1, [], []))
      else Some (c1, sent, c2, received))"
| "chain_do rd wr rd' wr' k (OnSecond a) (c1, sent, c2, received) =
     (if has_half a c2 \<and> \<not> writes a
      then map_option (\<lambda>(c2, xs, ys). (c1, sent, c2, received @ ys)) (circ_call rd' wr' k a (c2, [], []))
      else Some (c1, sent, c2, received))"
| "chain_do rd wr rd' wr' k (Relay d d') (c1, sent, c2, received) =
     map_option (\<lambda>(n, c1, c2). (c1, sent, c2, received)) (relay rd wr rd' wr' k d d' (c1, c2))"

fun chain_run ::
    "('a, 'e, 'i) input_dev \<Rightarrow> ('a, 'f, 'o) output_dev \<Rightarrow> ('a, 'g, 'j) input_dev \<Rightarrow> ('a, 'h, 'p) output_dev
     \<Rightarrow> nat \<Rightarrow> 'a chain_op list \<Rightarrow> ('a, 'i, 'o, 'j, 'p) chain \<Rightarrow> ('a, 'i, 'o, 'j, 'p) chain option" where
  "chain_run rd wr rd' wr' k [] x = Some x"
| "chain_run rd wr rd' wr' k (a # as) x =
     Option.bind (chain_do rd wr rd' wr' k a x) (chain_run rd wr rd' wr' k as)"

text \<open>A call does not depend on what was sent and received before.\<close>

lemma circ_call_from_empty:
  "circ_call rd wr k a (c, sent, received)
   = map_option (\<lambda>(c', xs, ys). (c', sent @ xs, received @ ys)) (circ_call rd wr k a (c, [], []))"
  by (cases a) (auto split: option.splits sum.splits prod.splits simp: option.map_comp comp_def)

lemma circ_call_sides:
  "circ_call rd wr k a (c, [], []) = Some (c', xs, ys) \<Longrightarrow> (\<not> reads a \<longrightarrow> ys = []) \<and> (\<not> writes a \<longrightarrow> xs = [])"
  by (cases a) (auto split: option.splits sum.splits prod.splits)

text \<open>What the relay has moved so far is what the first buffer delivered and the second was sent.\<close>

definition chained ::
    "('i \<Rightarrow> 'a list) \<Rightarrow> ('o \<Rightarrow> 'a option list) \<Rightarrow> ('j \<Rightarrow> 'a list) \<Rightarrow> ('p \<Rightarrow> 'a option list) \<Rightarrow> nat
     \<Rightarrow> ('a, 'i, 'o, 'j, 'p) chain \<Rightarrow> bool" where
  "chained given taken given' taken' k x =
     (let (c1, sent, c2, received) = x
      in \<exists>xs. streams given taken sent (map Some xs) c1 \<and> streams given' taken' xs received c2
           \<and> consumer_passive (ccons c1) \<and> producer_passive (cprod c2)
           \<and> length (cbuf c1) + 5 \<le> k \<and> length (cbuf c2) + 5 \<le> k)"

lemma chain_do_ok:
  assumes "chained given taken given' taken' k x" "input_ok rd given" "output_ok wr taken"
    "input_ok rd' given'" "output_ok wr' taken'"
  shows "\<exists>y. chain_do rd wr rd' wr' k a x = Some y \<and> chained given taken given' taken' k y"
proof -
  obtain c1 sent c2 received xs where x: "x = (c1, sent, c2, received)"
    and s: "streams given taken sent (map Some xs) c1" "streams given' taken' xs received c2"
    and p: "consumer_passive (ccons c1)" "producer_passive (cprod c2)"
    and k: "length (cbuf c1) + 5 \<le> k" "length (cbuf c2) + 5 \<le> k"
    using assms(1) by (cases x) (auto simp: chained_def)
  show ?thesis
  proof (cases a)
    case (OnFirst b)
    show ?thesis
    proof (cases "has_half b c1 \<and> \<not> reads b")
      case True
      then obtain c3 zs where c3: "circ_call rd wr k b (c1, [], []) = Some (c3, zs, [])"
        "streams given taken (sent @ zs) (map Some xs) c3" "same_modes c1 c3"
        using any_call_ok [OF s(1) _ assms(2,3) k(1), of b] circ_call_sides [of rd wr k b c1]
        by (auto simp: call_ok_def circ_call_from_empty [of rd wr k b c1 sent] split: option.splits)
      then have "chained given taken given' taken' k (c3, sent @ zs, c2, received)"
        using s p k by (auto simp: chained_def same_modes_def)
      then show ?thesis
        using True c3 by (simp add: OnFirst x)
    qed (use assms(1) in \<open>auto simp: OnFirst x\<close>)
  next
    case (OnSecond b)
    show ?thesis
    proof (cases "has_half b c2 \<and> \<not> writes b")
      case True
      then obtain c3 zs where c3: "circ_call rd' wr' k b (c2, [], []) = Some (c3, [], zs)"
        "streams given' taken' xs (received @ zs) c3" "same_modes c2 c3"
        using any_call_ok [OF s(2) _ assms(4,5) k(2), of b] circ_call_sides [of rd' wr' k b c2]
        by (auto simp: call_ok_def circ_call_from_empty [of rd' wr' k b c2 xs] split: option.splits)
      then have "chained given taken given' taken' k (c1, sent, c3, received @ zs)"
        using s p k by (auto simp: chained_def same_modes_def)
      then show ?thesis
        using True c3 by (simp add: OnSecond x)
    qed (use assms(1) in \<open>auto simp: OnSecond x\<close>)
  next
    case (Relay d d')
    obtain n zs c3 c4 where r: "relay rd wr rd' wr' k d d' (c1, c2) = Some (n, c3, c4)"
      "streams given taken sent (map Some xs @ map Some zs) c3" "streams given' taken' (xs @ zs) received c4"
      "same_modes c1 c3" "same_modes c2 c4"
      by (rule relay_ok [OF s(1) p(1) assms(2) k(1) s(2) p(2) assms(5) k(2), of wr rd' d d'])
    then have "chained given taken given' taken' k (c3, sent, c4, received)"
      unfolding map_append [symmetric] chained_def using p k
      by (auto simp: same_modes_def intro!: exI [of _ "xs @ zs"])
    then show ?thesis
      using r(1) by (simp add: Relay x)
  qed
qed

lemma chain_run_ok:
  assumes "input_ok rd given" "output_ok wr taken" "input_ok rd' given'" "output_ok wr' taken'"
  shows "chained given taken given' taken' k x
    \<Longrightarrow> \<exists>y. chain_run rd wr rd' wr' k as x = Some y \<and> chained given taken given' taken' k y"
proof (induction as arbitrary: x)
  case (Cons a as)
  then show ?case
    using chain_do_ok [OF Cons.prems assms, of a] by fastforce
qed simp

lemma chained_streams:
  assumes "chained given taken given' taken' k (c1, sent, c2, received)"
  shows "map Some (in_stream given sent c1) = out_stream taken' received c2 @ circ_queue c2 @ circ_queue c1"
proof -
  obtain xs where s: "streams given taken sent (map Some xs) c1" "streams given' taken' xs received c2"
    and p: "consumer_passive (ccons c1)" "producer_passive (cprod c2)"
    using assms by (auto simp: chained_def)
  have "map Some (in_stream given sent c1) = map Some xs @ circ_queue c1"
    "map Some xs = out_stream taken' received c2 @ circ_queue c2"
    using s p by (simp_all add: streams_def)
  then show ?thesis
    by simp
qed

section \<open>Properties\<close>

text \<open>
  C16: Two buffers chained by a relay are one stream. Start from two new buffers, the first with any kind
  of producer and the second with any kind of consumer, passive or a device. However calls on the halves,
  closes included, and relays with any demands follow one another, each of them returns, and what went into
  the first buffer is what came out of the second, then what the second holds, then what the first
  holds: moving items from region to region, wrapped or not, loses, repeats and reorders none.
\<close>

theorem relay_chain:
  assumes "2 \<le> length b1" "length b1 < 2 ^ 28" "2 \<le> length b2" "length b2 < 2 ^ 28"
    "input_ok rd given" "output_ok wr taken" "input_ok rd' given'" "output_ok wr' taken'"
    "c1 = core_new p1 (BufConsumer d1 v1) b1" "in_stream given [] c1 = []"
    "c2 = core_new (BufProducer d2 v2) q2 b2" "out_stream taken' [] c2 = []"
    "length b1 + 5 \<le> k" "length b2 + 5 \<le> k"
  shows "\<exists>c1' sent c2' received. chain_run rd wr rd' wr' k ops (c1, [], c2, []) = Some (c1', sent, c2', received)
    \<and> map Some (in_stream given sent c1') = out_stream taken' received c2' @ circ_queue c2' @ circ_queue c1'"
proof -
  have "out_stream taken [] c1 = []" "in_stream given' [] c2 = []"
    by (simp_all add: in_stream_def out_stream_def core_new_def assms(9,11))
  then have "streams given taken [] [] c1 \<and> streams given' taken' [] [] c2"
    using assms(1-4,10,12) unfolding assms(9,11) by (intro conjI core_new_streams) assumption+
  then have "chained given taken given' taken' k (c1, [], c2, [])"
    using assms(13,14) by (auto simp: chained_def core_new_def assms(9,11) intro!: exI [of _ "[]"])
  then obtain y where y: "chain_run rd wr rd' wr' k ops (c1, [], c2, []) = Some y" "chained given taken given' taken' k y"
    using chain_run_ok [OF assms(5-8)] by blast
  then show ?thesis
    by (cases y) (auto dest: chained_streams)
qed

text \<open>A source device fills the first buffer of three cells, a half empties the second of two.\<close>

definition no_sink :: "(nat, unit, unit) output_dev" where
  "no_sink p cs = (None, p)"

definition no_source :: "(nat, unit, unit) input_dev" where
  "no_source i n = (None, i)"

lemma no_devices: "input_ok no_source (\<lambda>_. [])" "output_ok no_sink (\<lambda>_. [])"
  by (simp_all add: input_ok_def output_ok_def no_sink_def no_source_def items_of_def count_of_def)

theorem relay_chain_witness:
  "\<exists>c1 sent c2 received. chain_run demo_source no_sink no_source no_sink 9
       [Relay (AtLeast 1) (LessThan 8), OnSecond (ReadItems (AtLeast 1) 1), Relay (LessThan 3) (AtLeast 1), OnSecond CloseRxCall]
       (core_new (DevProducer ([1, 2, 3, 4, 5], []) None) (BufConsumer None None) [None, None, None], [],
        core_new (BufProducer None None) (BufConsumer None None) [None, None], []) = Some (c1, sent, c2, received)
     \<and> map Some (in_stream snd sent c1) = out_stream (\<lambda>_. []) received c2 @ circ_queue c2 @ circ_queue c1"
  by (rule relay_chain [where given' = "\<lambda>_. []" and taken = "\<lambda>_. []"])
    (simp_all only: demo_devices no_devices in_stream_def out_stream_def core_new_def list.size circ.simps
      producer.simps consumer.simps snd_conv, simp_all)

end
