(* ===== verification/Io_Half.thy ===== *)
theory Io_Half
  imports Demand Err_Tags Segm_Io
begin

text \<open>
  The halves that generic code moves items between: the reading half \<open>TrBuffRead\<close> with
  \<open>TrBufferState\<close>, the writing half \<open>TrBuffWrite\<close> (\<open>crates/abs_buff/src/reader_.rs\<close>,
  \<open>writer_.rs\<close>, \<open>buffer/state_.rs\<close>), and the contract such code relies on. A half is a parameter of
  the code that uses it; its state includes whatever happens on the other end, and an \<open>await\<close> is the
  answer it ends with. A lent segment is the list of its physical pieces.
\<close>

section \<open>The operations\<close>

text \<open>
  \<open>sh_read\<close> answers \<open>read_async\<close>; when it lends a segment, \<open>sh_take n\<close> is the drop of that segment
  with \<open>n\<close> of its items moved out. \<open>th_space\<close> answers \<open>write_async\<close> with the sizes of the pieces
  lent, and \<open>th_put xs\<close> is the drop of that segment with \<open>xs\<close> moved to its front.
\<close>

record ('e, 'a, 'r) src_half =
  sh_tag :: "'e \<Rightarrow> read_err_tag"
  sh_size :: "'r \<Rightarrow> usize"
  sh_drained :: "'r \<Rightarrow> bool"
  sh_read :: "usize demand \<Rightarrow> 'r \<Rightarrow> ('a list list, 'e) some_of \<times> 'r"
  sh_take :: "nat \<Rightarrow> 'r \<Rightarrow> 'r"

record ('e, 'a, 'w) tgt_half =
  th_tag :: "'e \<Rightarrow> write_err_tag"
  th_stuffed :: "'w \<Rightarrow> bool"
  th_space :: "usize demand \<Rightarrow> 'w \<Rightarrow> (nat list, 'e) some_of \<times> 'w"
  th_put :: "'a list \<Rightarrow> 'w \<Rightarrow> 'w"

definition upper :: "usize demand \<Rightarrow> nat" where
  "upper d = (case demand_max d of None \<Rightarrow> unat (-1 :: usize) | Some u \<Rightarrow> unat u)"

definition lower :: "usize demand \<Rightarrow> nat" where
  "lower d = (case demand_min d of None \<Rightarrow> 0 | Some l \<Rightarrow> unat l)"

lemma bounds_simps [simp]:
  "upper (AtLeast l) = unat (-1 :: usize)" "lower (AtLeast l) = unat l"
  "upper (LessThan u) = unat u" "lower (LessThan u) = 0"
  "upper (Range l u) = unat u" "lower (Range l u) = unat l"
  by (simp_all add: upper_def lower_def)

lemma max_usize: "unat (-1 :: usize) = 2 ^ 64 - 1"
  by (simp add: unsigned_minus_1_eq_mask mask_eq_exp_minus_1)

text \<open>One \<open>move_items_to_segm\<close> of the first pieces of two segments, and what is left of the target's.\<close>

fun first_src :: "'a list list \<Rightarrow> 'a list" where
  "first_src [] = []"
| "first_src (p # ps) = p"

fun first_tgt :: "nat list \<Rightarrow> nat" where
  "first_tgt [] = 0"
| "first_tgt (n # ns) = n"

fun drop_tgt :: "nat \<Rightarrow> nat list \<Rightarrow> nat list" where
  "drop_tgt m [] = []"
| "drop_tgt m (n # ns) = (if m < n then (n - m) # ns else ns)"

definition piece_ok :: "nat list \<Rightarrow> bool" where
  "piece_ok ns = (0 \<notin> set ns)"

lemma drop_tgt_ok:
  "piece_ok ns \<Longrightarrow> m \<le> first_tgt ns \<Longrightarrow> piece_ok (drop_tgt m ns)"
  "m \<le> first_tgt ns \<Longrightarrow> sum_list (drop_tgt m ns) = sum_list ns - m"
  by (cases ns; auto simp: piece_ok_def)+

lemma first_tgt_bounds: "first_tgt ns \<le> sum_list ns"
  "piece_ok ns \<Longrightarrow> 0 < sum_list ns \<Longrightarrow> 0 < first_tgt ns"
  by (cases ns; auto simp: piece_ok_def)+

lemma first_src_bounds:
  "length (first_src ps) \<le> length (concat ps)" "take (length (first_src ps)) (concat ps) = first_src ps"
  "[] \<notin> set ps \<Longrightarrow> concat ps \<noteq> [] \<Longrightarrow> first_src ps \<noteq> []"
  by (cases ps; auto)+

section \<open>The contracts\<close>

text \<open>
  \<open>outs r\<close> is what the source delivers from the state \<open>r\<close> on until it ends. It lends the front of
  that, no more than the upper bound of the demand (which the buffers of this repository take as
  inclusive) and at least the lower one unless nothing else comes; an error that says the end is
  reported when less than the lower bound is left; what is available it still delivers.
\<close>

locale source_half =
  fixes S :: "('e, 'a, 'r) src_half"
    and rok :: "'r \<Rightarrow> bool"
    and outs :: "'r \<Rightarrow> 'a list"
  assumes read_stays: "rok r \<Longrightarrow> sh_read S d r = (x, r') \<Longrightarrow> rok r' \<and> outs r' = outs r"
    and read_lends: "rok r \<Longrightarrow> sh_read S d r = (x, r') \<Longrightarrow> pick_left x = Some ps \<Longrightarrow> 0 < upper d \<Longrightarrow>
        lower d \<le> upper d \<Longrightarrow>
        [] \<notin> set ps \<and> concat ps \<noteq> [] \<and> length (concat ps) \<le> upper d
        \<and> (\<exists>rest. outs r = concat ps @ rest \<and> (length (concat ps) < lower d \<longrightarrow> rest = []))"
    and read_ends: "rok r \<Longrightarrow> sh_read S d r = (x, r') \<Longrightarrow> pick_right x = Some e \<Longrightarrow>
        sh_tag S e \<in> {RClosing, RDrained} \<Longrightarrow> lower d \<le> upper d \<Longrightarrow> length (outs r) < max 1 (lower d)"
    and read_waits: "rok r \<Longrightarrow> sh_read S (AtLeast 1) r = (x, r') \<Longrightarrow> pick_left x = Some ps \<Longrightarrow>
        sh_size S (sh_take S 0 r') \<noteq> 0"
    and take_moves: "rok r \<Longrightarrow> sh_read S d r = (x, r') \<Longrightarrow> pick_left x = Some ps \<Longrightarrow>
        n \<le> length (concat ps) \<Longrightarrow> rok (sh_take S n r') \<and> outs (sh_take S n r') = drop n (outs r)"
    and size_available: "rok r \<Longrightarrow> unat (sh_size S r) \<le> length (outs r)"
    and drained_empty: "rok r \<Longrightarrow> sh_drained S r \<Longrightarrow> outs r = []"

text \<open>\<open>ins w\<close> is what the target has taken so far.\<close>

locale target_half =
  fixes T :: "('e, 'a, 'w) tgt_half"
    and wok :: "'w \<Rightarrow> bool"
    and ins :: "'w \<Rightarrow> 'a list"
  assumes space_stays: "wok w \<Longrightarrow> th_space T d w = (x, w') \<Longrightarrow> wok w' \<and> ins w' = ins w"
    and space_lends: "wok w \<Longrightarrow> th_space T d w = (x, w') \<Longrightarrow> pick_left x = Some ns \<Longrightarrow> 0 < upper d \<Longrightarrow>
        lower d \<le> upper d \<Longrightarrow> piece_ok ns \<and> 0 < sum_list ns \<and> lower d \<le> sum_list ns"
    and put_appends: "wok w \<Longrightarrow> th_space T d w = (x, w') \<Longrightarrow> pick_left x = Some ns \<Longrightarrow>
        length xs \<le> sum_list ns \<Longrightarrow> wok (th_put T xs w') \<and> ins (th_put T xs w') = ins w @ xs"


section \<open>Byte strings\<close>

text \<open>
  Halves over plain byte strings, for runs that can be evaluated: the source lends two bytes at a
  time and ends with \<open>Closing\<close>, the target has room for three at a time, in two pieces.
\<close>

definition bytes_src :: "(read_err_tag, u8, u8 list) src_half" where
  "bytes_src = \<lparr>sh_tag = (\<lambda>t. t), sh_size = (\<lambda>bs. of_nat (min 2 (length bs))),
     sh_drained = (\<lambda>bs. bs = []),
     sh_read = (\<lambda>d bs. if bs = [] then (OfRight RClosing, bs)
        else (OfLeft [take (min (upper d) (max 2 (lower d))) bs], bs)),
     sh_take = drop\<rparr>"

definition bytes_tgt :: "(write_err_tag, u8, u8 list) tgt_half" where
  "bytes_tgt = \<lparr>th_tag = (\<lambda>t. t), th_stuffed = (\<lambda>_. False),
     th_space = (\<lambda>d bs. (OfLeft [1, max 2 (lower d)], bs)), th_put = (\<lambda>xs bs. bs @ xs)\<rparr>"

lemma bytes_halves:
  "source_half bytes_src (\<lambda>_. True) (\<lambda>bs. bs)" "target_half bytes_tgt (\<lambda>_. True) (\<lambda>bs. bs)"
proof -
  have "unat (of_nat (min 2 (length bs)) :: usize) \<le> length bs" for bs :: "u8 list"
    using le_unat_uoi [of "min 2 (length bs)" "2 :: usize"] by simp
  moreover have "\<exists>rest. bs = take n bs @ rest \<and> (min (length bs) n < m \<longrightarrow> rest = [])"
    if "m \<le> n" for bs :: "u8 list" and m n
    using that by (intro exI [of _ "drop n bs"]) auto
  moreover have "(of_nat (min 2 (length bs)) :: usize) \<noteq> 0" if "bs \<noteq> []" for bs :: "u8 list"
    using that le_unat_uoi [of "min 2 (length bs)" "2 :: usize"] by (auto simp: min_def)
  ultimately show "source_half bytes_src (\<lambda>_. True) (\<lambda>bs. bs)"
    by unfold_locales (auto simp: bytes_src_def split: if_splits)
  show "target_half bytes_tgt (\<lambda>_. True) (\<lambda>bs. bs)"
    by unfold_locales (auto simp: bytes_tgt_def piece_ok_def)
qed

end
