(* ===== verification/Half_Segm.thy ===== *)
theory Half_Segm
  imports Io_Half Ring_Segm
begin

text \<open>
  What a lent region of either buffer of \<open>buffex\<close> is to generic code that holds it as a half's segment:
  the items of its slices, and the sizes of its pieces.
\<close>

section \<open>The view of a lent segment\<close>

text \<open>The slices of a lent segment, as items.\<close>

definition recl_view :: "'a memory \<Rightarrow> recl \<Rightarrow> 'a list list" where
  "recl_view m g = map (\<lambda>(start, n). map the (mem_read m start n)) (recl_iter_slices g)"

lemma recl_view_concat:
  assumes "recl_ok m g" "roff g = 0"
  shows "concat (recl_view m g) = map the (mem_get m (pieces_addrs (rpieces g)))"
proof -
  have r: "mem_read m a n = mem_get m [a..<a + n]" if "\<forall>x\<in>set [a..<a + n]. x < length m" for a n
  proof (cases n)
    case 0
    then show ?thesis
      by (simp add: mem_read_def mem_get_def)
  next
    case (Suc j)
    then have "a + j < length m"
      using that by simp
    then show ?thesis
      using Suc by (intro mem_read_get) simp
  qed
  show ?thesis
  proof (cases "rpieces g")
    case (One s)
    then show ?thesis
      using assms r [of "fst s" "snd s"]
      by (cases "snd s = 0") (auto simp: recl_view_def recl_iter_slices_def recl_ok_def slice_from_def
          mem_get_def case_prod_beta)
  next
    case (Two s t)
    then show ?thesis
      using assms r [of "fst s" "snd s"] r [of "fst t" "snd t"]
      by (cases "snd s = 0"; cases "snd t = 0")
        (auto simp: recl_view_def recl_iter_slices_def recl_ok_def slice_from_def mem_get_def case_prod_beta)
  qed
qed

lemma recl_view_nonempty:
  assumes "recl_ok m g" "roff g = 0"
  shows "[] \<notin> set (recl_view m g)"
proof
  assume "[] \<in> set (recl_view m g)"
  then obtain a n where sl: "(a, n) \<in> set (pieces_remaining (rpieces g) 0)" "n \<noteq> 0"
    and e: "mem_read m a n = []"
    using assms(2) by (auto simp: recl_view_def recl_iter_slices_def)
  then have "a \<in> set (pieces_addrs (rpieces g))"
    by (cases "rpieces g") (auto simp: slice_from_def Let_def split: if_splits)
  then have "a < length m"
    using assms(1) by (simp add: recl_ok_def)
  then show False
    using e sl(2) by (simp add: mem_read_def)
qed

section \<open>Its pieces\<close>

text \<open>The pieces a fresh segment is lent in.\<close>

lemma piece_sizes:
  assumes "roff g = 0"
  shows "piece_ok (map snd (recl_iter_slices g))" "sum_list (map snd (recl_iter_slices g)) = pieces_len (rpieces g)"
proof -
  show "piece_ok (map snd (recl_iter_slices g))"
    by (auto simp: piece_ok_def recl_iter_slices_def)
  show "sum_list (map snd (recl_iter_slices g)) = pieces_len (rpieces g)"
    using assms by (cases "rpieces g") (auto simp: recl_iter_slices_def slice_from_def)
qed

end
