(* ===== verification/Ring_Spsc.thy ===== *)
theory Ring_Spsc
  imports Ring_Fifo
begin

text \<open>
  One producer and one consumer on a ring, interleaved at the granularity of the ring's atomic
  operations. The producer is the user's write half or the runtime receiving from the kernel,
  the consumer the user's read half or the runtime sending to the kernel. The two reservations
  of the runtime carry the obligation that \<open>state_.rs\<close> states for their caller: no reservation
  is taken while the user holds a segment of the same region.
\<close>

section \<open>States and steps\<close>

text \<open>
  \<open>wseg\<close> and \<open>rseg\<close> are the segments the user's halves hold, \<open>recv_res\<close> and \<open>send_res\<close> the
  runtime's reservations. \<open>sent\<close> lists the committed items, \<open>pend\<close> those written into the live
  write segment, and \<open>got\<close> the cells the consumer has moved out.
\<close>

record 'a spsc =
  buf :: "'a ring"
  wseg :: "recl option"
  pend :: "'a list"
  rseg :: "recl option"
  recv_res :: "(slice \<times> slice) option"
  send_res :: "(slice \<times> slice) option"
  sent :: "'a list"
  got :: "'a option list"

definition spsc_init :: "'a ring \<Rightarrow> 'a spsc" where
  "spsc_init r = \<lparr>buf = r, wseg = None, pend = [], rseg = None, recv_res = None, send_res = None,
     sent = [], got = []\<rparr>"

definition slices_addrs :: "slice \<times> slice \<Rightarrow> nat list" where
  "slices_addrs v = (let (a, b) = v in [fst a..<fst a + snd a] @ [fst b..<fst b + snd b])"

inductive spsc_step :: "'a spsc \<Rightarrow> 'a spsc \<Rightarrow> bool" where
  w_borrow: "wseg s = None \<Longrightarrow> tx_try_write_at_most (buf s) len = Inr g \<Longrightarrow>
     spsc_step s (s\<lparr>wseg := Some g\<rparr>)"
| w_demand: "wseg s = None \<Longrightarrow> tx_try_write (buf s) d = Inr g \<Longrightarrow>
     spsc_step s (s\<lparr>wseg := Some g\<rparr>)"
| w_fill: "wseg s = Some g \<Longrightarrow>
     recl_move_items_from_buff (rmem (buf s)) g (map Some xs) = (m, g', n) \<Longrightarrow>
     spsc_step s (s\<lparr>buf := (buf s)\<lparr>rmem := m\<rparr>, wseg := Some g', pend := pend s @ take n xs\<rparr>)"
| w_drop: "wseg s = Some g \<Longrightarrow>
     spsc_step s (s\<lparr>buf := drop_write_segm g (buf s), wseg := None, sent := sent s @ pend s,
       pend := []\<rparr>)"
| r_borrow: "rseg s = None \<Longrightarrow> rx_try_read_at_most (buf s) len = Inr g \<Longrightarrow>
     spsc_step s (s\<lparr>rseg := Some g\<rparr>)"
| r_demand: "rseg s = None \<Longrightarrow> rx_try_read (buf s) d = Inr g \<Longrightarrow>
     spsc_step s (s\<lparr>rseg := Some g\<rparr>)"
| r_take: "rseg s = Some g \<Longrightarrow>
     recl_move_items_to_buff (rmem (buf s)) g dst = (dst', g', n) \<Longrightarrow>
     spsc_step s (s\<lparr>rseg := Some g', got := got s @ take n dst'\<rparr>)"
| r_drop: "rseg s = Some g \<Longrightarrow>
     spsc_step s (s\<lparr>buf := drop_read_segm ConsumeRead g (buf s), rseg := None\<rparr>)"
| k_reserve_send: "rseg s = None \<Longrightarrow> take_send_iovecs (buf s) = (Some v, r) \<Longrightarrow>
     spsc_step s (s\<lparr>buf := r, send_res := Some v\<rparr>)"
| k_sent: "send_res s = Some v \<Longrightarrow> n \<le> length (slices_addrs v) \<Longrightarrow>
     spsc_step s (s\<lparr>buf := put_back_send (of_nat n) (buf s), send_res := None,
       got := got s @ mem_get (rmem (buf s)) (take n (slices_addrs v))\<rparr>)"
| k_reserve_recv: "wseg s = None \<Longrightarrow> take_recv_iovecs (buf s) = (Some v, r) \<Longrightarrow>
     spsc_step s (s\<lparr>buf := r, recv_res := Some v\<rparr>)"
| k_received: "recv_res s = Some v \<Longrightarrow> length xs \<le> length (slices_addrs v) \<Longrightarrow>
     spsc_step s (s\<lparr>buf := put_back_recv (of_nat (length xs))
         ((buf s)\<lparr>rmem := mem_put (rmem (buf s)) (take (length xs) (slices_addrs v)) (map Some xs)\<rparr>),
       recv_res := None, sent := sent s @ xs\<rparr>)"
| closing_tx: "spsc_step s (s\<lparr>buf := close_tx (buf s)\<rparr>)"
| closing_rx: "spsc_step s (s\<lparr>buf := close_rx (buf s)\<rparr>)"
| parking: "slot_register side w (buf s) = Some r \<Longrightarrow> spsc_step s (s\<lparr>buf := r\<rparr>)"
| unparking: "spsc_step s (s\<lparr>buf := slot_deregister side w (buf s)\<rparr>)"

inductive spsc_reachable :: "'a memory \<Rightarrow> 'a spsc \<Rightarrow> bool" for buffer where
  start: "try_new buffer = Inr r \<Longrightarrow> spsc_reachable buffer (spsc_init r)"
| step: "spsc_reachable buffer s \<Longrightarrow> spsc_step s t \<Longrightarrow> spsc_reachable buffer t"

section \<open>The invariant\<close>

definition consumed_of :: "recl option \<Rightarrow> nat" where
  "consumed_of rs = (case rs of None \<Rightarrow> 0 | Some g \<Rightarrow> roff g)"

definition queue_inv :: "'a ring \<Rightarrow> recl option \<Rightarrow> 'a list \<Rightarrow> 'a option list \<Rightarrow> bool" where
  "queue_inv r rs st gt =
     (\<exists>P Q. st = P @ Q \<and> ring_queue r = map Some Q \<and> gt = map Some (P @ take (consumed_of rs) Q))"

text \<open>A lent segment covers the first cells of its side's region.\<close>

definition lent_ok :: "nat \<Rightarrow> nat \<Rightarrow> nat \<Rightarrow> recl \<Rightarrow> bool" where
  "lent_ok c start room g =
     (\<exists>n\<le>room. pieces_addrs (rpieces g) = ring_addrs c start n \<and> roff g \<le> n)"

definition reserved_ok :: "nat \<Rightarrow> nat \<Rightarrow> nat \<Rightarrow> slice \<times> slice \<Rightarrow> bool" where
  "reserved_ok c start room v = (\<exists>n\<le>room. slices_addrs v = ring_addrs c start n)"

definition write_inv :: "'a ring \<Rightarrow> recl option \<Rightarrow> 'a list \<Rightarrow> bool" where
  "write_inv r ws pd =
     (case ws of None \<Rightarrow> pd = []
      | Some g \<Rightarrow> lent_ok (length (rmem r)) (wp_of r) (ring_free r) g
          \<and> mem_get (rmem r) (ring_addrs (length (rmem r)) (wp_of r) (roff g)) = map Some pd)"

definition read_inv :: "'a ring \<Rightarrow> recl option \<Rightarrow> bool" where
  "read_inv r rs =
     (case rs of None \<Rightarrow> True
      | Some g \<Rightarrow> lent_ok (length (rmem r)) (rp_of r) (ring_data r) g)"

definition recv_inv :: "'a ring \<Rightarrow> recl option \<Rightarrow> (slice \<times> slice) option \<Rightarrow> bool" where
  "recv_inv r ws v =
     (receiving (ring_view (rword r)) = (v \<noteq> None)
      \<and> (case v of None \<Rightarrow> True
         | Some v \<Rightarrow> ws = None \<and> reserved_ok (length (rmem r)) (wp_of r) (ring_free r) v))"

definition send_inv :: "'a ring \<Rightarrow> recl option \<Rightarrow> (slice \<times> slice) option \<Rightarrow> bool" where
  "send_inv r rs v =
     (sending (ring_view (rword r)) = (v \<noteq> None)
      \<and> (case v of None \<Rightarrow> True
         | Some v \<Rightarrow> rs = None \<and> reserved_ok (length (rmem r)) (rp_of r) (ring_data r) v))"

definition spsc_inv :: "'a spsc \<Rightarrow> bool" where
  "spsc_inv s =
     (ring_ok (buf s) \<and> queue_inv (buf s) (rseg s) (sent s) (got s)
      \<and> write_inv (buf s) (wseg s) (pend s) \<and> read_inv (buf s) (rseg s)
      \<and> recv_inv (buf s) (wseg s) (recv_res s) \<and> send_inv (buf s) (rseg s) (send_res s))"

lemmas spsc_parts = queue_inv_def write_inv_def read_inv_def recv_inv_def send_inv_def

text \<open>Updates of flags and slots keep every part.\<close>

lemma spsc_inv_flags:
  assumes "rmem r' = rmem r" "ring_view (rword r') = (ring_view (rword r))\<lparr>txc := a, rxc := b\<rparr>"
  shows "ring_ok r' = ring_ok r" "queue_inv r' rs st gt = queue_inv r rs st gt"
    "write_inv r' ws pd = write_inv r ws pd" "read_inv r' rs = read_inv r rs"
    "recv_inv r' ws v = recv_inv r ws v" "send_inv r' rs u = send_inv r rs u"
  using ring_update_flags [of r' r] assms by (simp_all add: spsc_parts cong: option.case_cong)

lemma lent_ok_grow: "lent_ok c start room g \<Longrightarrow> room \<le> room' \<Longrightarrow> lent_ok c start room' g"
  by (meson lent_ok_def order_trans)

lemma reserved_ok_grow: "reserved_ok c start room v \<Longrightarrow> room \<le> room' \<Longrightarrow> reserved_ok c start room' v"
  by (meson reserved_ok_def order_trans)

text \<open>What one side commits leaves the other side's part alone.\<close>

lemma producer_frame:
  assumes "ring_ok r" "unat k \<le> ring_free r" "r' = ring_advance_write k r \<or> r' = put_back_recv k r"
  shows "read_inv r rs \<Longrightarrow> read_inv r' rs" "send_inv r rs v \<Longrightarrow> send_inv r' rs v"
proof -
  note q = producer_queue [OF assms]
  have "sending (ring_view (rword r')) = sending (ring_view (rword r))"
    using assms(3) advance_write_view [OF assms(1,2)] by auto
  with q show "read_inv r rs \<Longrightarrow> read_inv r' rs" "send_inv r rs v \<Longrightarrow> send_inv r' rs v"
    by (auto simp: read_inv_def send_inv_def split: option.splits
        elim: lent_ok_grow reserved_ok_grow)
qed

lemma consumer_frame:
  assumes "ring_ok r" "unat k \<le> ring_data r" "r' = ring_advance_read k r \<or> r' = put_back_send k r"
  shows "write_inv r ws pd \<Longrightarrow> write_inv r' ws pd" "recv_inv r ws v \<Longrightarrow> recv_inv r' ws v"
proof -
  note q = consumer_queue [OF assms]
  have "receiving (ring_view (rword r')) = receiving (ring_view (rword r))"
    using assms(3) advance_read_view [OF assms(1,2)] by auto
  with q show "write_inv r ws pd \<Longrightarrow> write_inv r' ws pd" "recv_inv r ws v \<Longrightarrow> recv_inv r' ws v"
    by (auto simp: write_inv_def recv_inv_def split: option.splits
        elim: lent_ok_grow reserved_ok_grow)
qed

lemma queue_inv_push:
  assumes "queue_inv r rs st gt" "read_inv r rs" "ring_queue r' = ring_queue r @ map Some xs"
    "consumed_of rs \<le> ring_data r"
  shows "queue_inv r' rs (st @ xs) gt"
proof -
  obtain P Q where pq: "st = P @ Q" "ring_queue r = map Some Q"
    "gt = map Some (P @ take (consumed_of rs) Q)"
    using assms(1) by (auto simp: queue_inv_def)
  have "length Q = ring_data r"
    using ring_queue_length [of r] unfolding pq(2) by simp
  then have "take (consumed_of rs) (Q @ xs) = take (consumed_of rs) Q"
    using assms(4) by simp
  then show ?thesis
    using pq assms(3) unfolding queue_inv_def by (intro exI [of _ P] exI [of _ "Q @ xs"]) simp
qed

lemma consumed_le: "read_inv r rs \<Longrightarrow> consumed_of rs \<le> ring_data r"
  by (auto simp: read_inv_def consumed_of_def lent_ok_def split: option.splits)

lemma queue_inv_pop:
  assumes "queue_inv r rs st gt" "ring_queue r' = drop (consumed_of rs) (ring_queue r)"
  shows "queue_inv r' None st gt"
proof -
  obtain P Q where pq: "st = P @ Q" "ring_queue r = map Some Q"
    "gt = map Some (P @ take (consumed_of rs) Q)"
    using assms(1) by (auto simp: queue_inv_def)
  then show ?thesis
    using assms(2) unfolding queue_inv_def
    by (intro exI [of _ "P @ take (consumed_of rs) Q"] exI [of _ "drop (consumed_of rs) Q"])
      (simp add: consumed_of_def drop_map)
qed

section \<open>The steps keep the invariant\<close>

text \<open>A borrowed segment is the first cells of its side's region.\<close>

lemma borrowed_write:
  assumes "ring_ok r" "tx_try_write_at_most r len = Inr g \<or> tx_try_write r d = Inr g"
  shows "lent_ok (length (rmem r)) (wp_of r) (ring_free r) g" "roff g = 0"
    "\<not> receiving (ring_view (rword r))"
proof -
  from assms(2) obtain l start n where w: "try_write_at r l = Inr (start, n)"
    and g: "g = write_segm r start n"
    by (auto simp: tx_try_write_at_most_def tx_try_write_def split: sum.splits prod.splits if_splits)
  from w have st: "start = snd (ring_unpack (rword r))" and n: "n = min l (free_of r)"
    and nr: "\<not> receiving (ring_view (rword r))"
    by (auto simp: try_write_at_spec [OF assms(1)] split: if_splits)
  have s: "unat start = wp_of r"
    by (simp add: st view_pos)
  have le: "unat n \<le> ring_free r"
    by (simp add: n unat_min unat_free_of [OF assms(1)])
  have "unat n \<le> length (rmem r)" "unat start < length (rmem r)"
    using le ring_sizes(2) [OF assms(1)] ring_ok_pos [OF assms(1)] s by linarith+
  from segm_addrs [OF assms(1) this(2,1)] le
  show "lent_ok (length (rmem r)) (wp_of r) (ring_free r) g" "roff g = 0"
    by (auto simp: g lent_ok_def s)
  show "\<not> receiving (ring_view (rword r))" by (fact nr)
qed

lemma borrowed_read:
  assumes "ring_ok r" "rx_try_read_at_most r len = Inr g \<or> rx_try_read r d = Inr g"
  shows "lent_ok (length (rmem r)) (rp_of r) (ring_data r) g" "roff g = 0"
    "\<not> sending (ring_view (rword r))"
proof -
  from assms(2) obtain l start n where w: "try_read_at r l = Inr (start, n)"
    and g: "g = read_segm r start n"
    by (auto simp: rx_try_read_at_most_def rx_try_read_def split: sum.splits prod.splits if_splits)
  from w have st: "start = fst (ring_unpack (rword r))" and n: "n = min l (data_of r)"
    and nr: "\<not> sending (ring_view (rword r))"
    by (auto simp: try_read_at_spec [OF assms(1)] split: if_splits)
  have s: "unat start = rp_of r"
    by (simp add: st view_pos)
  have le: "unat n \<le> ring_data r"
    by (simp add: n unat_min unat_data_of [OF assms(1)])
  have "unat n \<le> length (rmem r)" "unat start < length (rmem r)"
    using le ring_sizes(1) [OF assms(1)] ring_ok_pos [OF assms(1)] s by linarith+
  from segm_addrs [OF assms(1) this(2,1)] le
  show "lent_ok (length (rmem r)) (rp_of r) (ring_data r) g" "roff g = 0"
    by (auto simp: g lent_ok_def s)
  show "\<not> sending (ring_view (rword r))" by (fact nr)
qed

lemma reserved_region:
  assumes "ring_ok r" "unat start < length (rmem r)" "unat n \<le> length (rmem r)"
  shows "slices_addrs (region_slices r start n) = ring_addrs (length (rmem r)) (unat start) (unat n)"
proof -
  have "slices_addrs (region_slices r start n) = pieces_addrs (rpieces (read_segm r start n))"
    by (auto simp: slices_addrs_def region_slices_def read_segm_def recl_new_def Let_def min_def)
  then show ?thesis
    by (simp add: segm_addrs(2) [OF assms])
qed

lemma reserve_send:
  assumes "ring_ok r" "take_send_iovecs r = (Some v, r')"
  shows "r' = r\<lparr>rword := set_flag_word SEND_IN_FLIGHT (rword r)\<rparr>"
    "reserved_ok (length (rmem r)) (rp_of r) (ring_data r) v" "\<not> sending (ring_view (rword r))"
proof -
  have *: "v = region_slices r (fst (ring_unpack (rword r))) (data_of r)"
    "r' = r\<lparr>rword := set_flag_word SEND_IN_FLIGHT (rword r)\<rparr>" "\<not> sending (ring_view (rword r))"
    using assms(2)
    by (auto simp: take_send_iovecs_def Let_def data_of_def set_flag_word_def ring_view_def
        split: prod.splits if_splits)
  then show "r' = r\<lparr>rword := set_flag_word SEND_IN_FLIGHT (rword r)\<rparr>"
    "\<not> sending (ring_view (rword r))" by simp_all
  have "unat (fst (ring_unpack (rword r))) < length (rmem r)" "unat (data_of r) \<le> length (rmem r)"
    using ring_ok_pos [OF assms(1)] ring_sizes(1) [OF assms(1)]
    by (simp_all add: view_pos unat_data_of [OF assms(1)])
  from reserved_region [OF assms(1) this]
  show "reserved_ok (length (rmem r)) (rp_of r) (ring_data r) v"
    by (auto simp: reserved_ok_def * view_pos unat_data_of [OF assms(1)])
qed

lemma reserve_recv:
  assumes "ring_ok r" "take_recv_iovecs r = (Some v, r')"
  shows "r' = r\<lparr>rword := set_flag_word RECV_IN_FLIGHT (rword r)\<rparr>"
    "reserved_ok (length (rmem r)) (wp_of r) (ring_free r) v" "\<not> receiving (ring_view (rword r))"
proof -
  have *: "v = region_slices r (snd (ring_unpack (rword r))) (free_of r)"
    "r' = r\<lparr>rword := set_flag_word RECV_IN_FLIGHT (rword r)\<rparr>" "\<not> receiving (ring_view (rword r))"
    using assms(2)
    by (auto simp: take_recv_iovecs_def Let_def free_of_def set_flag_word_def ring_view_def
        split: prod.splits if_splits)
  then show "r' = r\<lparr>rword := set_flag_word RECV_IN_FLIGHT (rword r)\<rparr>"
    "\<not> receiving (ring_view (rword r))" by simp_all
  have "unat (snd (ring_unpack (rword r))) < length (rmem r)" "unat (free_of r) \<le> length (rmem r)"
    using ring_ok_pos [OF assms(1)] ring_sizes(2) [OF assms(1)]
    by (simp_all add: view_pos unat_free_of [OF assms(1)])
  from reserved_region [OF assms(1) this]
  show "reserved_ok (length (rmem r)) (wp_of r) (ring_free r) v"
    by (auto simp: reserved_ok_def * view_pos unat_free_of [OF assms(1)])
qed

lemma lent_recl_ok: "ring_ok r \<Longrightarrow> lent_ok (length (rmem r)) start room g \<Longrightarrow> recl_ok (rmem r) g"
proof -
  assume ok: "ring_ok r" and "lent_ok (length (rmem r)) start room g"
  then obtain n where n: "pieces_addrs (rpieces g) = ring_addrs (length (rmem r)) start n" "roff g \<le> n"
    by (auto simp: lent_ok_def)
  have "pieces_len (rpieces g) = n"
    using length_pieces_addrs [of "rpieces g"] by (simp add: n(1))
  moreover have "0 < length (rmem r)"
    using ok by (auto simp: ring_ok_def)
  ultimately show "recl_ok (rmem r) g"
    using n ring_addrs_less by (auto simp: recl_ok_def)
qed

lemma lent_move:
  assumes "lent_ok c start room g" "k \<le> recl_least_count g"
  shows "lent_ok c start room (g\<lparr>roff := roff g + k\<rparr>)" "roff g + k \<le> room"
    "take k (drop (roff g) (pieces_addrs (rpieces g))) = ring_addrs c ((start + roff g) mod c) k"
    "ring_addrs c start (roff g + k)
       = ring_addrs c start (roff g) @ ring_addrs c ((start + roff g) mod c) k"
proof -
  obtain n where n: "n \<le> room" "pieces_addrs (rpieces g) = ring_addrs c start n" "roff g \<le> n"
    using assms(1) by (auto simp: lent_ok_def)
  have "pieces_len (rpieces g) = n"
    using length_pieces_addrs [of "rpieces g"] by (simp add: n(2))
  then have "roff g + k \<le> n"
    using assms(2) n(3) by (simp add: recl_least_count_def)
  then show "lent_ok c start room (g\<lparr>roff := roff g + k\<rparr>)" "roff g + k \<le> room"
    "take k (drop (roff g) (pieces_addrs (rpieces g))) = ring_addrs c ((start + roff g) mod c) k"
    using n by (auto simp: lent_ok_def drop_ring_addrs take_ring_addrs)
  show "ring_addrs c start (roff g + k)
       = ring_addrs c start (roff g) @ ring_addrs c ((start + roff g) mod c) k"
    by (rule ring_addrs_add)
qed

lemma unat_amount:
  assumes "ring_ok r" "k \<le> ring_free r \<or> k \<le> ring_data r"
  shows "unat (of_nat k :: usize) = k"
proof (rule unat_of_nat_cap)
  show "k \<le> unat (capacity r)"
    using assms ring_sizes(1,2) [OF assms(1)] ring_ok_cap(1) [OF assms(1)] by linarith
qed

text \<open>Writing cells of the free region: the queue and the consumer's parts do not notice.\<close>

lemma put_free_frame:
  assumes "ring_ok r" "k \<le> ring_free r" "set as \<subseteq> set (ring_addrs (length (rmem r)) (wp_of r) k)"
    "r' = r\<lparr>rmem := mem_put (rmem r) as ys\<rparr>"
  shows "ring_ok r'" "ring_queue r' = ring_queue r" "ring_data r' = ring_data r"
    "ring_free r' = ring_free r" "queue_inv r rs st gt \<Longrightarrow> queue_inv r' rs st gt"
    "read_inv r rs \<Longrightarrow> read_inv r' rs" "send_inv r rs v \<Longrightarrow> send_inv r' rs v"
    "recv_inv r ws u \<Longrightarrow> recv_inv r' ws u" "rword r' = rword r" "length (rmem r') = length (rmem r)"
  using ring_queue_put [OF assms(1-3), of ys] assms(1)
    ring_put_frame [of "mem_put (rmem r) as ys" r]
  by (simp_all add: assms(4) spsc_parts cong: option.case_cong)

lemma fill_step:
  assumes "spsc_inv s" "wseg s = Some g"
    "recl_move_items_from_buff (rmem (buf s)) g (map Some xs) = (m, g', n)"
  shows "spsc_inv (s\<lparr>buf := (buf s)\<lparr>rmem := m\<rparr>, wseg := Some g', pend := pend s @ take n xs\<rparr>)"
proof -
  let ?r = "buf s" and ?c = "length (rmem (buf s))"
  have ok: "ring_ok ?r" and lent: "lent_ok ?c (wp_of ?r) (ring_free ?r) g"
    and pend: "mem_get (rmem ?r) (ring_addrs ?c (wp_of ?r) (roff g)) = map Some (pend s)"
    using assms(1,2) by (auto simp: spsc_inv_def write_inv_def)
  let ?as = "ring_addrs ?c ((wp_of ?r + roff g) mod ?c) n"
  let ?ys = "map Some (take n xs)"
  have mv: "recl_move_from (rmem ?r) g (map Some xs) 0 = (m, g', n)"
    using assms(3) by (simp add: recl_move_items_from_buff_def)
  from recl_move_from_spec [OF lent_recl_ok [OF ok lent] _ mv refl]
  have n: "n = min (recl_least_count g) (length xs)" and g': "g' = g\<lparr>roff := roff g + n\<rparr>"
    and m0: "m = mem_put (rmem ?r) (take n (drop (roff g) (pieces_addrs (rpieces g)))) (take n (map Some xs))"
    by auto
  then have nle: "n \<le> recl_least_count g"
    by simp
  note mv = lent_move [OF lent nle]
  have m: "m = mem_put (rmem ?r) ?as ?ys"
    by (simp add: m0 mv(3) take_map)
  have sub: "set ?as \<subseteq> set (ring_addrs ?c (wp_of ?r) (roff g + n))"
    by (simp add: mv(4))
  note fr = put_free_frame [OF ok mv(2) sub, of "?r\<lparr>rmem := m\<rparr>" ?ys]
  have dist: "distinct (ring_addrs ?c (wp_of ?r) (roff g + n))"
    using mv(2) ring_sizes(2) [OF ok] by (intro distinct_ring_addrs) linarith
  then have disj: "set ?as \<inter> set (ring_addrs ?c (wp_of ?r) (roff g)) = {}" and da: "distinct ?as"
    by (auto simp: mv(4))
  have "mem_get m (ring_addrs ?c (wp_of ?r) (roff g + n)) = map Some (pend s @ take n xs)"
  proof -
    have "0 < ?c"
      using ok by (auto simp: ring_ok_def)
    then have "\<forall>a\<in>set ?as. a < ?c"
      using ring_addrs_less by blast
    then have "mem_get m ?as = ?ys"
      unfolding m by (intro mem_get_put da) (simp_all add: n)
    moreover have "mem_get m (ring_addrs ?c (wp_of ?r) (roff g)) = map Some (pend s)"
      by (simp add: m mem_get_put_other [OF disj] pend)
    ultimately show ?thesis
      by (simp add: mv(4) mem_get_append)
  qed
  then show ?thesis
    using assms(1,2) fr mv(1)
    by (simp add: spsc_inv_def write_inv_def g' m recv_inv_def split: option.splits)
qed

lemma take_step:
  assumes "spsc_inv s" "rseg s = Some g"
    "recl_move_items_to_buff (rmem (buf s)) g dst = (dst', g', n)"
  shows "spsc_inv (s\<lparr>rseg := Some g', got := got s @ take n dst'\<rparr>)"
proof -
  let ?r = "buf s" and ?c = "length (rmem (buf s))"
  have ok: "ring_ok ?r" and lent: "lent_ok ?c (rp_of ?r) (ring_data ?r) g"
    using assms(1,2) by (auto simp: spsc_inv_def read_inv_def)
  obtain P Q where pq: "sent s = P @ Q" "ring_queue ?r = map Some Q"
    "got s = map Some (P @ take (roff g) Q)"
    using assms(1,2) by (auto simp: spsc_inv_def queue_inv_def consumed_of_def)
  have mv: "recl_move_to (rmem ?r) g dst 0 = (dst', g', n)"
    using assms(3) by (simp add: recl_move_items_to_buff_def)
  from recl_move_to_spec [OF lent_recl_ok [OF ok lent] _ mv refl]
  have n: "n = min (recl_least_count g) (length dst)" and g': "g' = g\<lparr>roff := roff g + n\<rparr>"
    and d0: "dst' = mem_get (rmem ?r) (take n (drop (roff g) (pieces_addrs (rpieces g)))) @ drop n dst"
    by auto
  then have nle: "n \<le> recl_least_count g"
    by simp
  note mv = lent_move [OF lent nle]
  have "take n dst' = mem_get (rmem ?r) (ring_addrs ?c ((rp_of ?r + roff g) mod ?c) n)"
    by (simp add: d0 mv(3) mem_get_def)
  also have "\<dots> = take n (drop (roff g) (ring_queue ?r))"
    using mv(2) by (simp add: ring_queue_def drop_mem_get take_mem_get drop_ring_addrs take_ring_addrs)
  finally have "take n dst' = map Some (take n (drop (roff g) Q))"
    by (simp add: pq(2) take_map drop_map)
  then have "queue_inv ?r (Some g') (sent s) (got s @ take n dst')"
    using pq by (auto simp: queue_inv_def consumed_of_def g' take_add)
  then show ?thesis
    using assms(1,2) mv(1) by (simp add: spsc_inv_def read_inv_def g' send_inv_def split: option.splits)
qed

lemma write_drop_step:
  assumes "spsc_inv s" "wseg s = Some g"
  shows "spsc_inv (s\<lparr>buf := drop_write_segm g (buf s), wseg := None, sent := sent s @ pend s, pend := []\<rparr>)"
proof -
  let ?r = "buf s" and ?c = "length (rmem (buf s))" and ?k = "of_nat (roff g) :: usize"
  have ok: "ring_ok ?r" and lent: "lent_ok ?c (wp_of ?r) (ring_free ?r) g"
    and pend: "mem_get (rmem ?r) (ring_addrs ?c (wp_of ?r) (roff g)) = map Some (pend s)"
    using assms by (auto simp: spsc_inv_def write_inv_def)
  have le: "roff g \<le> ring_free ?r"
    using lent by (auto simp: lent_ok_def)
  then have u: "unat ?k = roff g"
    using unat_amount [OF ok] by blast
  have k: "unat ?k \<le> ring_free ?r" "drop_write_segm g ?r = ring_advance_write ?k ?r
      \<or> drop_write_segm g ?r = put_back_recv ?k ?r"
    using le u by (simp_all add: drop_write_segm_def)
  note q = producer_queue [OF ok k] and f = producer_frame [OF ok k]
  have rd: "read_inv ?r (rseg s)" and qi: "queue_inv ?r (rseg s) (sent s) (got s)"
    using assms(1) by (simp_all add: spsc_inv_def)
  have "queue_inv (drop_write_segm g ?r) (rseg s) (sent s @ pend s) (got s)"
    using q(4) by (intro queue_inv_push [OF qi rd _ consumed_le [OF rd]]) (simp add: u pend)
  moreover have "receiving (ring_view (rword (drop_write_segm g ?r)))
      = receiving (ring_view (rword ?r))"
    using advance_write_view(1) [OF ok k(1)] by (simp add: drop_write_segm_def)
  ultimately show ?thesis
    using assms q f by (auto simp: spsc_inv_def write_inv_def recv_inv_def split: option.splits)
qed

lemma read_drop_step:
  assumes "spsc_inv s" "rseg s = Some g"
  shows "spsc_inv (s\<lparr>buf := drop_read_segm ConsumeRead g (buf s), rseg := None\<rparr>)"
proof -
  let ?r = "buf s" and ?k = "of_nat (roff g) :: usize"
  have ok: "ring_ok ?r" and lent: "lent_ok (length (rmem ?r)) (rp_of ?r) (ring_data ?r) g"
    using assms by (auto simp: spsc_inv_def read_inv_def)
  have le: "roff g \<le> ring_data ?r"
    using lent by (auto simp: lent_ok_def)
  then have u: "unat ?k = roff g"
    using unat_amount [OF ok] by blast
  have k: "unat ?k \<le> ring_data ?r" "drop_read_segm ConsumeRead g ?r = ring_advance_read ?k ?r
      \<or> drop_read_segm ConsumeRead g ?r = put_back_send ?k ?r"
    using le u by (simp_all add: drop_read_segm_def)
  note q = consumer_queue [OF ok k] and f = consumer_frame [OF ok k]
  have "queue_inv (drop_read_segm ConsumeRead g ?r) None (sent s) (got s)"
    using assms q(4) by (intro queue_inv_pop [of ?r "rseg s"]) (simp_all add: spsc_inv_def u consumed_of_def)
  moreover have "sending (ring_view (rword (drop_read_segm ConsumeRead g ?r)))
      = sending (ring_view (rword ?r))"
    using advance_read_view(1) [OF ok k(1)] by (simp add: drop_read_segm_def)
  ultimately show ?thesis
    using assms q f by (auto simp: spsc_inv_def read_inv_def send_inv_def split: option.splits)
qed

lemma kernel_sent_step:
  assumes "spsc_inv s" "send_res s = Some v" "n \<le> length (slices_addrs v)"
  shows "spsc_inv (s\<lparr>buf := put_back_send (of_nat n) (buf s), send_res := None,
       got := got s @ mem_get (rmem (buf s)) (take n (slices_addrs v))\<rparr>)"
proof -
  let ?r = "buf s" and ?k = "of_nat n :: usize"
  have ok: "ring_ok ?r" and none: "rseg s = None" and qi: "queue_inv ?r None (sent s) (got s)"
    and res: "reserved_ok (length (rmem ?r)) (rp_of ?r) (ring_data ?r) v"
    using assms by (auto simp: spsc_inv_def send_inv_def)
  obtain l where l: "l \<le> ring_data ?r" "slices_addrs v = ring_addrs (length (rmem ?r)) (rp_of ?r) l"
    using res by (auto simp: reserved_ok_def)
  then have le: "n \<le> ring_data ?r"
    using assms(3) by simp
  then have u: "unat ?k = n"
    using unat_amount [OF ok] by blast
  have k: "unat ?k \<le> ring_data ?r" "put_back_send ?k ?r = ring_advance_read ?k ?r
      \<or> put_back_send ?k ?r = put_back_send ?k ?r"
    using le u by simp_all
  note q = consumer_queue [OF ok k] and f = consumer_frame [OF ok k]
  obtain P Q where pq: "sent s = P @ Q" "ring_queue ?r = map Some Q" "got s = map Some P"
    using qi by (auto simp: queue_inv_def consumed_of_def)
  have "mem_get (rmem ?r) (take n (slices_addrs v)) = take n (ring_queue ?r)"
    using assms(3) le l by (simp add: ring_queue_def take_mem_get take_ring_addrs)
  then have "queue_inv (put_back_send ?k ?r) None (sent s)
      (got s @ mem_get (rmem ?r) (take n (slices_addrs v)))"
    using pq q(4) unfolding queue_inv_def
    by (intro exI [of _ "P @ take n Q"] exI [of _ "drop n Q"])
      (simp add: consumed_of_def u take_map drop_map)
  moreover have "\<not> sending (ring_view (rword (put_back_send ?k ?r)))"
    using advance_read_view(2) [OF ok k(1)] by simp
  ultimately show ?thesis
    using assms q f none by (auto simp: spsc_inv_def read_inv_def send_inv_def)
qed

lemma kernel_received_step:
  assumes "spsc_inv s" "recv_res s = Some v" "length xs \<le> length (slices_addrs v)"
  shows "spsc_inv (s\<lparr>buf := put_back_recv (of_nat (length xs))
         ((buf s)\<lparr>rmem := mem_put (rmem (buf s)) (take (length xs) (slices_addrs v)) (map Some xs)\<rparr>),
       recv_res := None, sent := sent s @ xs\<rparr>)"
proof -
  let ?r = "buf s" and ?c = "length (rmem (buf s))" and ?k = "of_nat (length xs) :: usize"
  let ?as = "take (length xs) (slices_addrs v)"
  let ?r1 = "?r\<lparr>rmem := mem_put (rmem ?r) ?as (map Some xs)\<rparr>"
  have ok: "ring_ok ?r" and none: "wseg s = None" and pend: "pend s = []"
    and qi: "queue_inv ?r (rseg s) (sent s) (got s)" and rd: "read_inv ?r (rseg s)"
    and sd: "send_inv ?r (rseg s) (send_res s)"
    and res: "reserved_ok ?c (wp_of ?r) (ring_free ?r) v"
    using assms by (auto simp: spsc_inv_def recv_inv_def write_inv_def)
  obtain l where l: "l \<le> ring_free ?r" "slices_addrs v = ring_addrs ?c (wp_of ?r) l"
    using res by (auto simp: reserved_ok_def)
  then have le: "length xs \<le> ring_free ?r" and as: "?as = ring_addrs ?c (wp_of ?r) (length xs)"
    using assms(3) by (simp_all add: take_ring_addrs)
  have sub: "set ?as \<subseteq> set (ring_addrs ?c (wp_of ?r) (length xs))"
    by (simp add: as)
  note fr = put_free_frame [OF ok le sub refl, where ys = "map Some xs"]
  have u: "unat ?k = length xs"
    using unat_amount [OF ok] le by blast
  have k: "unat ?k \<le> ring_free ?r1" "put_back_recv ?k ?r1 = ring_advance_write ?k ?r1
      \<or> put_back_recv ?k ?r1 = put_back_recv ?k ?r1"
    using le u fr(4) by simp_all
  note q = producer_queue [OF fr(1) k] and f = producer_frame [OF fr(1) k]
  have "0 < ?c"
    using ok by (auto simp: ring_ok_def)
  then have "\<forall>a\<in>set ?as. a < ?c"
    unfolding as using ring_addrs_less by blast
  moreover have "distinct ?as"
    unfolding as using le ring_sizes(2) [OF ok] by (intro distinct_ring_addrs) linarith
  ultimately have "mem_get (rmem ?r1) ?as = map Some xs"
    by (simp add: mem_get_put as)
  then have "ring_queue (put_back_recv ?k ?r1) = ring_queue ?r1 @ map Some xs"
    using q(4) fr(9) by (simp add: u as)
  from queue_inv_push [OF fr(5) [OF qi] fr(6) [OF rd] this consumed_le [OF fr(6) [OF rd]]]
  have "queue_inv (put_back_recv ?k ?r1) (rseg s) (sent s @ xs) (got s)" .
  moreover have "\<not> receiving (ring_view (rword (put_back_recv ?k ?r1)))"
    using advance_write_view(2) [OF fr(1) k(1)] by simp
  ultimately show ?thesis
    using none pend q f fr(6) [OF rd] fr(7) [OF sd]
    by (simp add: spsc_inv_def write_inv_def recv_inv_def)
qed

lemma slot_ops_frame:
  "slot_register side w r = Some r' \<Longrightarrow> rword r' = rword r \<and> rmem r' = rmem r"
  "rword (slot_deregister side w r) = rword r" "rmem (slot_deregister side w r) = rmem r"
  by (auto simp: slot_register_def slot_deregister_def split: option.splits if_splits)

lemma spsc_inv_buf:
  assumes "spsc_inv s" "rmem r = rmem (buf s)"
    "ring_view (rword r) = (ring_view (rword (buf s)))\<lparr>txc := a, rxc := b\<rparr>"
  shows "spsc_inv (s\<lparr>buf := r\<rparr>)"
  using assms(1) by (simp add: spsc_inv_def spsc_inv_flags [OF assms(2,3)])

lemma flag_only:
  assumes "r' = r\<lparr>rword := w\<rparr>" "rpos (ring_view w) = rp_of r" "wpos (ring_view w) = wp_of r"
  shows "ring_ok r' = ring_ok r" "queue_inv r' rs st gt = queue_inv r rs st gt"
    "write_inv r' ws pd = write_inv r ws pd" "read_inv r' rs = read_inv r rs"
  using ring_update_flags [of r' r] assms by (simp_all add: spsc_parts cong: option.case_cong)

lemma reserve_send_step:
  assumes "spsc_inv s" "rseg s = None" "take_send_iovecs (buf s) = (Some v, r)"
  shows "spsc_inv (s\<lparr>buf := r, send_res := Some v\<rparr>)"
proof -
  have ok: "ring_ok (buf s)"
    using assms(1) by (simp add: spsc_inv_def)
  note res = reserve_send [OF ok assms(3)]
  have "rpos (ring_view (rword r)) = rp_of (buf s)" "wpos (ring_view (rword r)) = wp_of (buf s)"
    by (simp_all add: res(1) view_set_flag)
  note fl = flag_only [OF res(1) this [unfolded res(1), simplified]] ring_update_flags [of r "buf s"]
  show ?thesis
    using assms(1,2) fl res
    by (simp add: spsc_inv_def recv_inv_def send_inv_def view_set_flag cong: option.case_cong)
qed

lemma reserve_recv_step:
  assumes "spsc_inv s" "wseg s = None" "take_recv_iovecs (buf s) = (Some v, r)"
  shows "spsc_inv (s\<lparr>buf := r, recv_res := Some v\<rparr>)"
proof -
  have ok: "ring_ok (buf s)"
    using assms(1) by (simp add: spsc_inv_def)
  note res = reserve_recv [OF ok assms(3)]
  have "rpos (ring_view (rword r)) = rp_of (buf s)" "wpos (ring_view (rword r)) = wp_of (buf s)"
    by (simp_all add: res(1) view_set_flag)
  note fl = flag_only [OF res(1) this [unfolded res(1), simplified]] ring_update_flags [of r "buf s"]
  show ?thesis
    using assms(1,2) fl res
    by (simp add: spsc_inv_def recv_inv_def send_inv_def view_set_flag cong: option.case_cong)
qed

lemma write_borrow_step:
  assumes "spsc_inv s" "wseg s = None"
    "tx_try_write_at_most (buf s) len = Inr g \<or> tx_try_write (buf s) d = Inr g"
  shows "spsc_inv (s\<lparr>wseg := Some g\<rparr>)"
  using assms borrowed_write [OF _ assms(3)]
  by (auto simp: spsc_inv_def write_inv_def recv_inv_def mem_get_def split: option.splits)

lemma read_borrow_step:
  assumes "spsc_inv s" "rseg s = None"
    "rx_try_read_at_most (buf s) len = Inr g \<or> rx_try_read (buf s) d = Inr g"
  shows "spsc_inv (s\<lparr>rseg := Some g\<rparr>)"
  using assms borrowed_read [OF _ assms(3)]
  by (auto simp: spsc_inv_def read_inv_def send_inv_def queue_inv_def consumed_of_def
      split: option.splits)

lemma spsc_step_inv:
  assumes "spsc_step s t" "spsc_inv s"
  shows "spsc_inv t"
  using assms(1)
proof cases
  case (parking side w r)
  then show ?thesis
    using slot_ops_frame(1) [of side w "buf s" r] spsc_inv_buf [OF assms(2), where r = r
        and a = "txc (ring_view (rword (buf s)))" and b = "rxc (ring_view (rword (buf s)))"]
    by simp
next
  case (unparking side w)
  then show ?thesis
    by (auto simp: slot_ops_frame intro: spsc_inv_buf [OF assms(2),
          where a = "txc (ring_view (rword (buf s)))" and b = "rxc (ring_view (rword (buf s)))"])
next
  case closing_tx
  then show ?thesis
    by (auto intro: spsc_inv_buf [OF assms(2), where a = True and b = "rxc (ring_view (rword (buf s)))"])
next
  case closing_rx
  then show ?thesis
    by (auto intro: spsc_inv_buf [OF assms(2), where a = "txc (ring_view (rword (buf s)))" and b = True])
qed (use assms(2) in \<open>auto intro: fill_step take_step write_drop_step read_drop_step
    kernel_sent_step kernel_received_step reserve_send_step reserve_recv_step write_borrow_step
    read_borrow_step\<close>)

lemma try_new_facts:
  assumes "try_new buffer = Inr r" "length buffer < 2 ^ 64"
  shows "ring_ok r" "ring_data r = 0" "rmem r = buffer" "rword r = 0"
    "2 \<le> length buffer" "length buffer < 2 ^ 30"
proof -
  let ?c = "of_nat (length buffer) :: usize"
  have r: "r = \<lparr>rword = 0, rmem = buffer, slot = (\<lambda>_. None), waiters = (\<lambda>_. None), woken = []\<rparr>"
    and c: "2 \<le> ?c" "?c \<le> MAX_CAPACITY"
    using assms(1) by (auto simp: try_new_def Let_def split: if_splits)
  have u: "unat ?c = length buffer"
    using assms(2) by (simp add: unat_of_nat)
  have "unat (2 :: usize) \<le> unat ?c" "unat ?c \<le> unat MAX_CAPACITY"
    using c by (simp_all only: word_le_nat_alt)
  then show len: "2 \<le> length buffer" "length buffer < 2 ^ 30"
    unfolding u unat_max_capacity by simp_all
  have v: "rpos (ring_view 0) = 0" "wpos (ring_view 0) = 0"
    by (simp_all add: view_pos ring_unpack_def)
  show "rmem r = buffer" "rword r = 0"
    by (simp_all add: r)
  have "unat (capacity r) = length buffer"
    by (simp add: capacity_def r u)
  then show "ring_ok r" "ring_data r = 0"
    using len v by (auto simp: ring_ok_def pos_ok_def ring_data_def view_data_def data_nat_def r)
qed

lemma spsc_inv_init:
  assumes "try_new buffer = Inr r" "length buffer < 2 ^ 64"
  shows "spsc_inv (spsc_init r)"
proof -
  have "\<not> receiving (ring_view 0)" "\<not> sending (ring_view 0)"
    by (simp_all add: ring_view_def has_flag_def)
  then show ?thesis
    using try_new_facts [OF assms]
    by (simp add: spsc_inv_def spsc_init_def spsc_parts consumed_of_def ring_queue_def mem_get_def)
qed

lemma spsc_reachable_inv:
  assumes "spsc_reachable buffer s" "length buffer < 2 ^ 64"
  shows "spsc_inv s \<and> length (rmem (buf s)) = length buffer"
  using assms(1)
proof induction
  case (start r)
  then show ?case
    using spsc_inv_init [OF start assms(2)] try_new_facts(3) [OF start assms(2)]
    by (simp add: spsc_init_def)
next
  case (step s t)
  have "length (rmem (buf t)) = length (rmem (buf s))"
    using step.hyps(2)
  proof cases
    case (w_fill g xs m g' n)
    have lent: "lent_ok (length (rmem (buf s))) (wp_of (buf s)) (ring_free (buf s)) g"
      and ok: "ring_ok (buf s)"
      using step.IH w_fill by (auto simp: spsc_inv_def write_inv_def)
    have mv: "recl_move_from (rmem (buf s)) g (map Some xs) 0 = (m, g', n)"
      using w_fill by (simp add: recl_move_items_from_buff_def)
    from recl_move_from_spec [OF lent_recl_ok [OF ok lent] _ mv refl] show ?thesis
      by (simp add: w_fill)
  next
    case (parking side w r)
    then show ?thesis
      using slot_ops_frame(1) [of side w "buf s" r] by simp
  next
    case unparking
    then show ?thesis
      by (simp add: slot_ops_frame)
  qed (auto simp: drop_write_segm_def drop_read_segm_def take_send_iovecs_def take_recv_iovecs_def
      Let_def split: prod.splits if_splits)
  then show ?case
    using step spsc_step_inv [OF step.hyps(2)] by simp
qed

text \<open>A run on a ring of three cells, for the concrete instances below.\<close>

definition ring_demo :: "nat ring" where
  "ring_demo = \<lparr>rword = 0, rmem = [None, None, None], slot = (\<lambda>_. None), waiters = (\<lambda>_. None),
     woken = []\<rparr>"

lemma ring_demo_run:
  "\<exists>s. spsc_reachable [None, None, None] s \<and> sent s = [7, 8 :: nat] \<and> got s = [Some 7]"
proof -
  let ?g0 = "\<lparr>rpieces = One (0, 2), roff = 0\<rparr>" and ?g1 = "\<lparr>rpieces = One (0, 2), roff = 1\<rparr>"
    and ?g2 = "\<lparr>rpieces = One (0, 2), roff = 2\<rparr>"
  let ?m = "[Some (7::nat), Some 8, None]"
  let ?r2 = "drop_write_segm ?g2 (ring_demo\<lparr>rmem := ?m\<rparr>)"
  note step = spsc_reachable.step
  have e1: "tx_try_write_at_most ring_demo 2 = Inr ?g0"
    by code_simp
  have e2: "recl_move_items_from_buff (rmem ring_demo) ?g0 [Some 7, Some 8] = (?m, ?g2, 2)"
    by code_simp
  have e3: "rx_try_read_at_most ?r2 2 = Inr ?g0"
    by code_simp
  have e4: "recl_move_items_to_buff (rmem ?r2) ?g0 [None] = ([Some 7], ?g1, 1)"
    by code_simp
  have "try_new [None, None, None] = Inr ring_demo"
    by (simp add: try_new_def ring_demo_def MAX_CAPACITY_def POS_MASK_def)
  then have "spsc_reachable [None, None, None] (spsc_init ring_demo)"
    by (rule spsc_reachable.start)
  from step [OF this spsc_step.w_borrow [of _ 2 ?g0]]
  have "spsc_reachable [None, None, None] ((spsc_init ring_demo)\<lparr>wseg := Some ?g0\<rparr>)"
    by (simp add: spsc_init_def e1)
  from step [OF this spsc_step.w_fill [of _ ?g0 "[7, 8]" ?m ?g2 2]]
  have "spsc_reachable [None, None, None]
      ((spsc_init ring_demo)\<lparr>buf := ring_demo\<lparr>rmem := ?m\<rparr>, wseg := Some ?g2, pend := [7, 8]\<rparr>)"
    by (simp add: spsc_init_def e2)
  from step [OF this spsc_step.w_drop [of _ ?g2]]
  have "spsc_reachable [None, None, None] ((spsc_init ring_demo)
      \<lparr>buf := drop_write_segm ?g2 (ring_demo\<lparr>rmem := ?m\<rparr>), sent := [7, 8]\<rparr>)"
    by (simp add: spsc_init_def)
  from step [OF this spsc_step.r_borrow [of _ 2 ?g0]]
  have "spsc_reachable [None, None, None] ((spsc_init ring_demo)
      \<lparr>buf := drop_write_segm ?g2 (ring_demo\<lparr>rmem := ?m\<rparr>), sent := [7, 8], rseg := Some ?g0\<rparr>)"
    by (simp add: spsc_init_def e3)
  from step [OF this spsc_step.r_take [of _ ?g0 "[None]" "[Some 7]" ?g1 1]]
  have "spsc_reachable [None, None, None] ((spsc_init ring_demo)
      \<lparr>buf := drop_write_segm ?g2 (ring_demo\<lparr>rmem := ?m\<rparr>), sent := [7, 8], rseg := Some ?g1,
       got := [Some 7]\<rparr>)"
    by (simp add: spsc_init_def e4)
  then show ?thesis
    by (intro exI conjI) (assumption, simp_all)
qed

section \<open>Properties\<close>

text \<open>
  C1: On a ring of any accepted capacity shared by one producer and one consumer, under every
  interleaving of their operations (user halves or kernel reservations on either side, closing,
  parking), the cells moved out are exactly the items committed so far, in order, minus at most
  \<open>capacity - 1\<close> that are still buffered. Nothing is lost, duplicated or reordered, and no
  uninitialised cell is ever read.
\<close>

theorem spsc_delivery:
  assumes "spsc_reachable buffer s" "length buffer < 2 ^ 64"
  shows "\<exists>rest. map Some (sent s) = got s @ map Some rest \<and> length rest < length buffer"
proof -
  from spsc_reachable_inv [OF assms] have inv: "spsc_inv s" and len: "length (rmem (buf s)) = length buffer"
    by auto
  then obtain P Q where pq: "sent s = P @ Q" "ring_queue (buf s) = map Some Q"
    "got s = map Some (P @ take (consumed_of (rseg s)) Q)"
    by (auto simp: spsc_inv_def queue_inv_def)
  have "length Q = ring_data (buf s)"
    using ring_queue_length [of "buf s"] unfolding pq(2) by simp
  moreover have "ring_data (buf s) < length (rmem (buf s))"
    using inv ring_sizes(1) [of "buf s"] by (simp add: spsc_inv_def)
  ultimately show ?thesis
    using pq len
    by (intro exI [of _ "drop (consumed_of (rseg s)) Q"]) (simp flip: map_append)
qed

theorem spsc_delivery_witness:
  "\<exists>s rest. spsc_reachable [None, None, None] s \<and> got s = [Some (7 :: nat)]
     \<and> map Some (sent s) = got s @ map Some rest \<and> length rest < 3"
proof -
  obtain s where "spsc_reachable [None, None, None] s" "got s = [Some (7 :: nat)]"
    using ring_demo_run by blast
  then show ?thesis
    using spsc_delivery [of "[None, None, None]" s] by auto
qed

text \<open>The cells each party may touch in a state.\<close>

definition producer_cells :: "'a spsc \<Rightarrow> nat set" where
  "producer_cells s =
     (case wseg s of None \<Rightarrow> {} | Some g \<Rightarrow> set (pieces_addrs (rpieces g)))
     \<union> (case recv_res s of None \<Rightarrow> {} | Some v \<Rightarrow> set (slices_addrs v))"

definition consumer_cells :: "'a spsc \<Rightarrow> nat set" where
  "consumer_cells s =
     (case rseg s of None \<Rightarrow> {} | Some g \<Rightarrow> set (pieces_addrs (rpieces g)))
     \<union> (case send_res s of None \<Rightarrow> {} | Some v \<Rightarrow> set (slices_addrs v))"

lemma set_ring_addrs_mono: "n \<le> k \<Longrightarrow> set (ring_addrs c start n) \<subseteq> set (ring_addrs c start k)"
  by (auto simp: ring_addrs_def)

lemma lent_cells:
  "lent_ok c start room g \<Longrightarrow> set (pieces_addrs (rpieces g)) \<subseteq> set (ring_addrs c start room)"
  unfolding lent_ok_def using set_ring_addrs_mono by metis

lemma reserved_cells:
  "reserved_ok c start room v \<Longrightarrow> set (slices_addrs v) \<subseteq> set (ring_addrs c start room)"
  unfolding reserved_ok_def using set_ring_addrs_mono by metis

lemma party_cells:
  assumes "spsc_inv s"
  shows "producer_cells s \<subseteq> set (ring_addrs (length (rmem (buf s))) (wp_of (buf s)) (ring_free (buf s)))"
    "consumer_cells s \<subseteq> set (ring_addrs (length (rmem (buf s))) (rp_of (buf s)) (ring_data (buf s)))"
proof -
  have "write_inv (buf s) (wseg s) (pend s)" "recv_inv (buf s) (wseg s) (recv_res s)"
    "read_inv (buf s) (rseg s)" "send_inv (buf s) (rseg s) (send_res s)"
    using assms by (simp_all add: spsc_inv_def)
  then have parts: "wseg s = Some g \<Longrightarrow>
        lent_ok (length (rmem (buf s))) (wp_of (buf s)) (ring_free (buf s)) g"
    "recv_res s = Some v \<Longrightarrow>
        reserved_ok (length (rmem (buf s))) (wp_of (buf s)) (ring_free (buf s)) v"
    "rseg s = Some g \<Longrightarrow> lent_ok (length (rmem (buf s))) (rp_of (buf s)) (ring_data (buf s)) g"
    "send_res s = Some v \<Longrightarrow>
        reserved_ok (length (rmem (buf s))) (rp_of (buf s)) (ring_data (buf s)) v" for g v
    by (simp_all only: write_inv_def recv_inv_def read_inv_def send_inv_def option.case)
  show "producer_cells s \<subseteq> set (ring_addrs (length (rmem (buf s))) (wp_of (buf s)) (ring_free (buf s)))"
    unfolding producer_cells_def
    by (cases "wseg s"; cases "recv_res s")
      (simp_all only: option.case parts(1,2) lent_cells reserved_cells Un_subset_iff empty_subsetI simp_thms)
  show "consumer_cells s \<subseteq> set (ring_addrs (length (rmem (buf s))) (rp_of (buf s)) (ring_data (buf s)))"
    unfolding consumer_cells_def
    by (cases "rseg s"; cases "send_res s")
      (simp_all only: option.case parts(3,4) lent_cells reserved_cells Un_subset_iff empty_subsetI simp_thms)
qed

text \<open>
  C2: No cell is ever lent to both sides: as long as a side asks for a kernel reservation only while
  it holds no segment, as the safety section of the module demands, the cells of the write segment or
  receive reservation are disjoint from the cells of the read segment or send reservation in every
  reachable state, and all of them lie inside the buffer.
\<close>

theorem spsc_no_overlap:
  assumes "spsc_reachable buffer s" "length buffer < 2 ^ 64"
  shows "producer_cells s \<inter> consumer_cells s = {}
       \<and> producer_cells s \<union> consumer_cells s \<subseteq> {..<length buffer}"
proof -
  from spsc_reachable_inv [OF assms] have inv: "spsc_inv s"
    and len: "length (rmem (buf s)) = length buffer" by auto
  let ?r = "buf s" and ?c = "length buffer"
  have ok: "ring_ok ?r"
    using inv by (simp add: spsc_inv_def)
  note sz = ring_sizes [OF ok, unfolded len]
  have c: "0 < ?c"
    using ok len by (auto simp: ring_ok_def)
  have "ring_data ?r + ring_free ?r \<le> ?c"
    using sz(2) by simp
  from ring_addrs_disjoint [OF this, of "rp_of ?r"]
  have "set (ring_addrs ?c (rp_of ?r) (ring_data ?r)) \<inter> set (ring_addrs ?c (wp_of ?r) (ring_free ?r)) = {}"
    by (simp add: sz(3))
  then show ?thesis
    using party_cells [OF inv, unfolded len] ring_addrs_less [OF c] by blast
qed

theorem spsc_no_overlap_witness:
  "\<exists>s :: nat spsc. spsc_reachable [None, None, None] s \<and> sent s = [7, 8]
     \<and> producer_cells s \<inter> consumer_cells s = {}"
  using ring_demo_run spsc_no_overlap [of "[None, None, None :: nat option]"] by fastforce

end
