(* ===== verification/Ring_Futures.thy ===== *)
theory Ring_Futures
  imports Ring_Spsc
begin

text \<open>
  Parking and the futures of the ring buffer (\<open>state_.rs\<close>: \<open>Park\<close>; \<open>futures_.rs\<close>:
  \<open>WriteFuture\<close>, \<open>ReadFuture\<close>, \<open>PeekFuture\<close>, the runtime's waits). A poll reads the shared ring
  several times; what other threads do in between is a finite schedule of ring
  transformations, one applied before each access. \<open>None\<close> means that the poll does not return
  (it spins on an occupied slot, or loops).
\<close>

section \<open>Park\<close>

record 'a park =
  pwid :: wid
  registered :: bool
  pside :: park_side
  pcheck :: "'a park_check"

definition park_new :: "park_side \<Rightarrow> 'a park_check \<Rightarrow> wid \<Rightarrow> 'a park" where
  "park_new side check w = \<lparr>pwid = w, registered = False, pside = side, pcheck = check\<rparr>"

definition park_deregister :: "'a park \<Rightarrow> 'a ring \<Rightarrow> 'a park \<times> 'a ring" where
  "park_deregister p r =
     (if registered p then (p\<lparr>registered := False\<rparr>, slot_deregister (pside p) (pwid p) r) else (p, r))"

type_synonym 'a interference = "('a ring \<Rightarrow> 'a ring) list"

text \<open>The ring an access sees, and the rest of the schedule.\<close>

fun observe :: "'a interference \<Rightarrow> 'a ring \<Rightarrow> 'a ring \<times> 'a interference" where
  "observe [] r = (r, [])"
| "observe (f # sch) r = (f r, sch)"

definition park_poll ::
    "'a interference \<Rightarrow> waker \<Rightarrow> usize \<Rightarrow> 'a park \<Rightarrow> 'a ring
     \<Rightarrow> (bool \<times> 'a park \<times> 'a ring \<times> 'a interference) option" where
  "park_poll sch k arg p r0 =
     (let (r1, sch1) = observe sch r0
      in if pcheck p r1 arg then
           (let (p', r') = park_deregister p r1 in Some (True, p', r', sch1))
         else
           (let (r2, sch2) = observe sch1 (r1\<lparr>waiters := (waiters r1)(pwid p := Some k)\<rparr>)
            in case slot_register (pside p) (pwid p) r2 of
                 None \<Rightarrow> None
               | Some r3 \<Rightarrow>
                   (let p3 = p\<lparr>registered := True\<rparr>; (r4, sch4) = observe sch2 r3
                    in if pcheck p r4 arg then
                         (let (p', r') = park_deregister p3 r4 in Some (True, p', r', sch4))
                       else Some (False, p3, r4, sch4))))"

section \<open>Futures\<close>

datatype 'x poll = Pending | Ready 'x | Unreachable

type_synonym ('e, 'a) poll_result = "(('e, recl) rust_result poll \<times> 'a park \<times> 'a ring) option"

text \<open>Returning from a poll deregisters first.\<close>

definition poll_ready :: "('e, recl) rust_result \<Rightarrow> 'a park \<Rightarrow> 'a ring \<Rightarrow> ('e, 'a) poll_result" where
  "poll_ready x p r = (let (p', r') = park_deregister p r in Some (Ready x, p', r'))"

definition write_future_new :: "wid \<Rightarrow> 'a park" where
  "write_future_new w = park_new TxUser check_tx_writable_at_least w"

definition read_future_new :: "wid \<Rightarrow> 'a park" where
  "read_future_new w = park_new RxUser check_rx_readable_at_least w"

definition peek_future_new :: "wid \<Rightarrow> 'a park" where
  "peek_future_new w = park_new RxUser check_rx_peekable w"

definition wait_flushed_new :: "wid \<Rightarrow> 'a park" where
  "wait_flushed_new w = park_new TxRuntime check_tx_flushed w"

definition wait_rx_idle_new :: "wid \<Rightarrow> 'a park" where
  "wait_rx_idle_new w = park_new RxRuntime check_rx_idle w"

definition wait_tx_idle_new :: "wid \<Rightarrow> 'a park" where
  "wait_tx_idle_new w = park_new TxUser check_tx_writable w"

text \<open>
  \<open>cancelled\<close> is what the cancellation token answers during the poll, \<open>k\<close> the context's waker.
\<close>

partial_function (option) write_poll ::
    "'a interference \<Rightarrow> bool \<Rightarrow> waker \<Rightarrow> usize \<Rightarrow> usize \<Rightarrow> 'a park \<Rightarrow> 'a ring
     \<Rightarrow> (tx_error, 'a) poll_result" where
  "write_poll sch cancelled k min_len max_len p r0 =
     (let (r, sch1) = observe sch r0
      in case try_write_at r max_len of
           Inr (start, tk) \<Rightarrow>
             if tk < min_len then
               (if cancelled then poll_ready (Inl (TxStuffed 0)) p r
                else Option.bind (park_poll sch1 k min_len p r)
                  (\<lambda>(ready, p', r', sch'). if \<not> ready then Some (Pending, p', r')
                     else write_poll sch' cancelled k min_len max_len p' r'))
             else poll_ready (Inr (write_segm r start tk)) p r
         | Inl (TxStuffed _) \<Rightarrow>
             (if cancelled then poll_ready (Inl TxCancelled) p r
              else Option.bind (park_poll sch1 k min_len p r)
                (\<lambda>(ready, p', r', sch'). if \<not> ready then Some (Pending, p', r')
                   else write_poll sch' cancelled k min_len max_len p' r'))
         | Inl TxArgument \<Rightarrow> Some (Unreachable, p, r)
         | Inl _ \<Rightarrow> poll_ready (Inl TxClosing) p r)"

text \<open>The two loads of \<open>ring.is_tx_closed() || ring.is_rx_closed()\<close>.\<close>

definition closed_either ::
    "'a interference \<Rightarrow> 'a ring \<Rightarrow> bool \<times> 'a ring \<times> 'a interference" where
  "closed_either sch r =
     (let (r1, sch1) = observe sch r
      in if is_tx_closed r1 then (True, r1, sch1)
         else (let (r2, sch2) = observe sch1 r1 in (is_rx_closed r2, r2, sch2)))"

partial_function (option) read_poll ::
    "'a interference \<Rightarrow> bool \<Rightarrow> waker \<Rightarrow> usize \<Rightarrow> usize \<Rightarrow> 'a park \<Rightarrow> 'a ring
     \<Rightarrow> (rx_error, 'a) poll_result" where
  "read_poll sch cancelled k min_len max_len p r0 =
     (let (r, sch1) = observe sch r0
      in case try_read_at r max_len of
           Inr (start, tk) \<Rightarrow>
             if tk < min_len then
               (let (closed, r2, sch2) = closed_either sch1 r
                in if closed then poll_ready (Inr (read_segm r2 start tk)) p r2
                   else if cancelled then poll_ready (Inl RxCancelled) p r2
                   else Option.bind (park_poll sch2 k min_len p r2)
                     (\<lambda>(ready, p', r', sch'). if \<not> ready then Some (Pending, p', r')
                        else read_poll sch' cancelled k min_len max_len p' r'))
             else poll_ready (Inr (read_segm r start tk)) p r
         | Inl (RxDrained _) \<Rightarrow>
             (if cancelled then poll_ready (Inl (RxDrained 0)) p r
              else
                (let (closed, r2, sch2) = closed_either sch1 r
                 in if closed then poll_ready (Inl RxClosing) p r2
                    else Option.bind (park_poll sch2 k min_len p r2)
                      (\<lambda>(ready, p', r', sch'). if \<not> ready then Some (Pending, p', r')
                         else read_poll sch' cancelled k min_len max_len p' r')))
         | Inl RxArgument \<Rightarrow> Some (Unreachable, p, r)
         | Inl _ \<Rightarrow> poll_ready (Inl RxClosing) p r)"

partial_function (option) peek_poll ::
    "'a interference \<Rightarrow> bool \<Rightarrow> waker \<Rightarrow> 'a park \<Rightarrow> 'a ring \<Rightarrow> (rx_error, 'a) poll_result" where
  "peek_poll sch cancelled k p r0 =
     (let (r, sch1) = observe sch r0
      in case try_peek_at r of
           Inr (start, tk) \<Rightarrow> poll_ready (Inr (peek_segm r start tk)) p r
         | Inl (RxDrained _) \<Rightarrow>
             (if cancelled then poll_ready (Inl RxCancelled) p r
              else Option.bind (park_poll sch1 k 0 p r)
                (\<lambda>(ready, p', r', sch'). if \<not> ready then Some (Pending, p', r')
                   else peek_poll sch' cancelled k p' r'))
         | Inl RxArgument \<Rightarrow> Some (Unreachable, p, r)
         | Inl _ \<Rightarrow> poll_ready (Inl RxClosing) p r)"

text \<open>\<open>ParkFuture\<close> and the \<open>wait_future!\<close> futures poll their park only.\<close>

definition park_future_poll ::
    "'a interference \<Rightarrow> waker \<Rightarrow> usize \<Rightarrow> 'a park \<Rightarrow> 'a ring \<Rightarrow> (unit poll \<times> 'a park \<times> 'a ring) option" where
  "park_future_poll sch k arg p r =
     map_option (\<lambda>(ready, p', r', _). (if ready then Ready () else Pending, p', r'))
       (park_poll sch k arg p r)"

definition drop_future :: "'a park \<Rightarrow> 'a ring \<Rightarrow> 'a ring" where
  "drop_future p r = snd (park_deregister p r)"

section \<open>Rings that differ in their slots\<close>

lemma ring_frame_waiters [simp]:
  "ring_ok (r\<lparr>waiters := ws\<rparr>) = ring_ok r" "ring_data (r\<lparr>waiters := ws\<rparr>) = ring_data r"
  "ring_free (r\<lparr>waiters := ws\<rparr>) = ring_free r" "capacity (r\<lparr>waiters := ws\<rparr>) = capacity r"
  "ring_ok (r\<lparr>slot := sl\<rparr>) = ring_ok r" "ring_data (r\<lparr>slot := sl\<rparr>) = ring_data r"
  "ring_free (r\<lparr>slot := sl\<rparr>) = ring_free r" "capacity (r\<lparr>slot := sl\<rparr>) = capacity r"
  by (simp_all add: ring_ok_def ring_data_def ring_free_def capacity_def)

lemma word_le_data: "ring_ok r \<Longrightarrow> n \<le> data_of r \<longleftrightarrow> unat n \<le> ring_data r"
  by (simp add: word_le_nat_alt unat_data_of)

lemma word_le_free: "ring_ok r \<Longrightarrow> n \<le> free_of r \<longleftrightarrow> unat n \<le> ring_free r"
  by (simp add: word_le_nat_alt unat_free_of)

lemma unat_max_one: "unat (max n (1 :: usize)) = max (unat n) 1"
  by (auto simp: max_def word_le_nat_alt)

text \<open>The conditions on the decoded word.\<close>

lemma flags_view:
  "is_tx_closed r = txc (ring_view (rword r))" "is_rx_closed r = rxc (ring_view (rword r))"
  "has_flag (rword r) SEND_IN_FLIGHT = sending (ring_view (rword r))"
  "has_flag (rword r) RECV_IN_FLIGHT = receiving (ring_view (rword r))"
  by (simp_all add: is_tx_closed_def is_rx_closed_def ring_view_def)

lemma check_view:
  assumes "ring_ok r"
  shows "check_tx_writable r n = (0 < ring_free r \<and> \<not> receiving (ring_view (rword r)))"
    "check_rx_readable r n
       = (0 < ring_data r \<and> \<not> sending (ring_view (rword r)) \<or> rxc (ring_view (rword r)))"
    "check_rx_peekable r n
       = (0 < ring_data r \<and> \<not> sending (ring_view (rword r)) \<or> rxc (ring_view (rword r)))"
    "check_tx_writable_at_least r n
       = (max (unat n) 1 \<le> ring_free r \<and> \<not> receiving (ring_view (rword r)))"
    "check_rx_readable_at_least r n
       = (max (unat n) 1 \<le> ring_data r \<and> \<not> sending (ring_view (rword r)) \<or> rxc (ring_view (rword r)))"
    "check_tx_flushed r n
       = (0 < ring_data r \<and> \<not> sending (ring_view (rword r)) \<or> txc (ring_view (rword r)))"
    "check_rx_idle r n
       = (0 < ring_free r \<and> \<not> receiving (ring_view (rword r)) \<or> rxc (ring_view (rword r)))"
  using unat_data_of [OF assms] unat_free_of [OF assms]
  by (auto simp: check_tx_writable_def check_rx_readable_def check_rx_peekable_def
      check_tx_writable_at_least_def check_rx_readable_at_least_def check_tx_flushed_def
      check_rx_idle_def has_free_at_least_def has_data_at_least_def has_tx_data_def
      has_recv_space_def try_peek_at_read try_write_at_spec [OF assms] try_read_at_spec [OF assms]
      word_le_data [OF assms] word_le_free [OF assms] unat_max_one word_less_nat_alt flags_view
      simp del: max.bounded_iff)

text \<open>The size of a lent segment.\<close>

lemma lent_capacity:
  assumes "ring_ok r"
  shows "recl_capacity (write_segm r (snd (ring_unpack (rword r))) (min n (free_of r)))
      = min (unat n) (ring_free r)"
    and "recl_capacity (read_segm r (fst (ring_unpack (rword r))) (min n (data_of r)))
      = min (unat n) (ring_data r)"
proof -
  have pos: "unat (snd (ring_unpack (rword r))) < length (rmem r)"
    "unat (fst (ring_unpack (rword r))) < length (rmem r)"
    using ring_ok_pos [OF assms] by (simp_all add: view_pos)
  have le: "unat (min n (free_of r)) \<le> length (rmem r)" "unat (min n (data_of r)) \<le> length (rmem r)"
    using ring_sizes(1,2) [OF assms]
    by (auto simp: unat_min unat_free_of [OF assms] unat_data_of [OF assms])
  show "recl_capacity (write_segm r (snd (ring_unpack (rword r))) (min n (free_of r)))
      = min (unat n) (ring_free r)"
    using arg_cong [OF segm_addrs(1) [OF assms pos(1) le(1)], of length]
    by (simp add: recl_capacity_def unat_min unat_free_of [OF assms])
  show "recl_capacity (read_segm r (fst (ring_unpack (rword r))) (min n (data_of r)))
      = min (unat n) (ring_data r)"
    using arg_cong [OF segm_addrs(2) [OF assms pos(2) le(2)], of length]
    by (simp add: recl_capacity_def unat_min unat_data_of [OF assms])
qed

text \<open>A slot that is free or already ours.\<close>

definition slot_mine :: "park_side \<Rightarrow> wid \<Rightarrow> 'a ring \<Rightarrow> bool" where
  "slot_mine side w r = (slot r side = None \<or> slot r side = Some w)"

lemma register_mine:
  "slot_mine side w r \<Longrightarrow> \<exists>r'. slot_register side w r = Some r' \<and> slot r' side = Some w
     \<and> rword r' = rword r \<and> rmem r' = rmem r \<and> waiters r' = waiters r"
  by (auto simp: slot_mine_def slot_register_def)

lemma deregister_frame:
  assumes "park_deregister p r = (p', r')"
  shows "rword r' = rword r" "rmem r' = rmem r" "\<not> registered p'" "pwid p' = pwid p"
    "pside p' = pside p" "pcheck p' = pcheck p"
    "pside p = side \<Longrightarrow> pwid p = w \<Longrightarrow> slot_mine side w r \<Longrightarrow> slot_mine side w r'"
  using assms
  by (auto simp: park_deregister_def slot_deregister_def slot_mine_def split: if_splits)

text \<open>Other threads keep the ring well-formed and do not take the slot of this waiter.\<close>

definition polite :: "park_side \<Rightarrow> wid \<Rightarrow> 'a interference \<Rightarrow> bool" where
  "polite side w sch =
     (\<forall>f\<in>set sch. \<forall>r. ring_ok r \<and> slot_mine side w r \<longrightarrow> ring_ok (f r) \<and> slot_mine side w (f r)
        \<and> length (rmem (f r)) = length (rmem r))"

lemma observe_polite:
  assumes "observe sch r = (r', sch')" "polite side w sch" "ring_ok r" "slot_mine side w r"
  shows "ring_ok r' \<and> slot_mine side w r' \<and> polite side w sch' \<and> length (rmem r') = length (rmem r)
       \<and> (length sch' < length sch \<or> sch = [] \<and> sch' = [] \<and> r' = r)"
  using assms by (cases sch) (auto simp: polite_def)

lemma slot_mine_waiters [simp]: "slot_mine side w (r\<lparr>waiters := ws\<rparr>) = slot_mine side w r"
  by (simp add: slot_mine_def)

text \<open>A condition reads the word and the buffer only.\<close>

definition local_check :: "'a park_check \<Rightarrow> bool" where
  "local_check c = (\<forall>r1 r2 n. rword r1 = rword r2 \<and> rmem r1 = rmem r2 \<longrightarrow> c r1 n = c r2 n)"

lemma local_checks:
  "local_check check_tx_writable" "local_check check_rx_readable" "local_check check_rx_peekable"
  "local_check check_tx_writable_at_least" "local_check check_rx_readable_at_least"
  "local_check check_tx_flushed" "local_check check_rx_idle"
  by (simp_all add: local_check_def check_tx_writable_def check_rx_readable_def check_rx_peekable_def
      check_tx_writable_at_least_def check_rx_readable_at_least_def check_tx_flushed_def
      check_rx_idle_def has_free_at_least_def has_data_at_least_def has_tx_data_def
      has_recv_space_def try_write_at_def try_read_at_def try_peek_at_def data_of_def free_of_def
      capacity_def is_rx_closed_def is_tx_closed_def)

text \<open>What a park poll gives under polite interference.\<close>

lemma park_poll_returns:
  assumes "polite (pside p) (pwid p) sch" "ring_ok r" "slot_mine (pside p) (pwid p) r"
    "local_check (pcheck p)"
  obtains ready p' r' sch' where "park_poll sch k arg p r = Some (ready, p', r', sch')"
    "ring_ok r'" "slot_mine (pside p) (pwid p) r'" "polite (pside p) (pwid p) sch'"
    "length sch' \<le> length sch" "pwid p' = pwid p" "pside p' = pside p" "pcheck p' = pcheck p"
    "registered p' = (\<not> ready)"
    "sch = [] \<Longrightarrow> rword r' = rword r \<and> rmem r' = rmem r"
    "sch = [] \<Longrightarrow> ready \<Longrightarrow> pcheck p r' arg"
proof -
  note loc = assms(4) [unfolded local_check_def, rule_format]
  let ?ok = "\<lambda>r. ring_ok r \<and> slot_mine (pside p) (pwid p) r"
  obtain r1 sch1 where o1: "observe sch r = (r1, sch1)" by fastforce
  note f1 = observe_polite [OF o1 assms(1-3)]
  let ?r1 = "r1\<lparr>waiters := (waiters r1)(pwid p := Some k)\<rparr>"
  obtain r2 sch2 where o2: "observe sch1 ?r1 = (r2, sch2)" by fastforce
  have f2: "?ok r2 \<and> polite (pside p) (pwid p) sch2
      \<and> (length sch2 < length sch1 \<or> sch1 = [] \<and> sch2 = [] \<and> r2 = ?r1)"
    using observe_polite [OF o2, of "pside p" "pwid p"] f1 by simp
  obtain r3 where r3: "slot_register (pside p) (pwid p) r2 = Some r3"
    "slot r3 (pside p) = Some (pwid p)" "rword r3 = rword r2" "rmem r3 = rmem r2"
    using register_mine f2 by blast
  then have ok3: "?ok r3"
    using f2 ring_cong(2) [of r3 r2] by (simp add: slot_mine_def)
  obtain r4 sch4 where o4: "observe sch2 r3 = (r4, sch4)" by fastforce
  have f4: "?ok r4 \<and> polite (pside p) (pwid p) sch4
      \<and> (length sch4 < length sch2 \<or> sch2 = [] \<and> sch4 = [] \<and> r4 = r3)"
    using observe_polite [OF o4, of "pside p" "pwid p"] f2 ok3 by blast
  have l1: "length sch1 \<le> length sch" and l4: "length sch4 \<le> length sch"
    using f1 f2 f4 by auto
  consider (first) "pcheck p r1 arg" | (second) "\<not> pcheck p r1 arg" "pcheck p r4 arg"
    | (pending) "\<not> pcheck p r1 arg" "\<not> pcheck p r4 arg"
    by blast
  then show thesis
  proof cases
    case first
    obtain p' r' where d: "park_deregister p r1 = (p', r')" by fastforce
    note dd = deregister_frame [OF d]
    have "ring_ok r'"
      using f1 dd(1,2) ring_cong(2) [of r' r1] by simp
    moreover have "sch = [] \<Longrightarrow> rword r' = rword r \<and> rmem r' = rmem r"
      using f1 dd(1,2) by auto
    moreover have "pcheck p r' arg"
      using loc [of r' r1 arg] dd(1,2) first by simp
    ultimately show thesis
      using that [of True p' r' sch1] first f1 dd dd(7) [OF refl refl] l1
      by (simp add: park_poll_def o1 d)
  next
    case second
    obtain p' r' where d: "park_deregister (p\<lparr>registered := True\<rparr>) r4 = (p', r')" by fastforce
    note dd = deregister_frame [OF d]
    have "ring_ok r'"
      using f4 dd(1,2) ring_cong(2) [of r' r4] by simp
    moreover have "sch = [] \<Longrightarrow> rword r' = rword r \<and> rmem r' = rmem r"
      using f1 f2 f4 dd(1,2) r3(3,4) by auto
    moreover have "pcheck p r' arg"
      using loc [of r' r4 arg] dd(1,2) second by simp
    ultimately show thesis
      using that [of True p' r' sch4] second f4 dd dd(7) [OF refl refl] l4
      by (simp add: park_poll_def o1 o2 r3(1) o4 d Let_def)
  next
    case pending
    have "sch = [] \<Longrightarrow> rword r4 = rword r \<and> rmem r4 = rmem r"
      using f1 f2 f4 r3(3,4) by auto
    then show thesis
      using that [of False "p\<lparr>registered := True\<rparr>" r4 sch4] pending f4 l4
      by (simp add: park_poll_def o1 o2 r3(1) o4 Let_def)
  qed
qed

section \<open>Every poll returns\<close>

text \<open>
  The outcome of a poll: pending with the waiter registered, or ready and deregistered with a
  segment whose size lies in the demanded interval or one of the errors the source can return.
\<close>

definition poll_outcome ::
    "('e \<Rightarrow> bool) \<Rightarrow> (nat \<Rightarrow> bool) \<Rightarrow> ('e, recl) rust_result poll \<Rightarrow> bool \<Rightarrow> bool" where
  "poll_outcome errs sizes res reg =
     (case res of Pending \<Rightarrow> reg
      | Ready (Inl e) \<Rightarrow> \<not> reg \<and> errs e
      | Ready (Inr g) \<Rightarrow> \<not> reg \<and> sizes (recl_capacity g)
      | Unreachable \<Rightarrow> False)"

lemma poll_ready_outcome:
  assumes "ring_ok r" "poll_outcome errs (sizes (rword r)) (Ready x) False"
  shows "\<exists>res p' r'. poll_ready x p r = Some (res, p', r') \<and> ring_ok r'
      \<and> poll_outcome errs (sizes (rword r')) res (registered p')"
proof -
  obtain p' r' where d: "park_deregister p r = (p', r')" by fastforce
  note dd = deregister_frame [OF d]
  show ?thesis
    using assms dd(1,3) ring_cong(2) [OF dd(1,2)] by (simp add: poll_ready_def d)
qed

definition write_errors :: "tx_error \<Rightarrow> bool" where
  "write_errors e = (e = TxClosing \<or> e = TxCancelled \<or> e = TxStuffed 0)"

definition read_errors :: "rx_error \<Rightarrow> bool" where
  "read_errors e = (e = RxClosing \<or> e = RxCancelled \<or> e = RxDrained 0)"

abbreviation returns_ok :: "('e \<Rightarrow> bool) \<Rightarrow> (usize \<Rightarrow> nat \<Rightarrow> bool) \<Rightarrow> ('e, 'a) poll_result \<Rightarrow> bool" where
  "returns_ok errs sizes x \<equiv>
     \<exists>res p r. x = Some (res, p, r) \<and> ring_ok r \<and> poll_outcome errs (sizes (rword r)) res (registered p)"

text \<open>Parking and going round the loop again, given that the next round returns.\<close>

lemma park_bind:
  assumes "polite (pside p) (pwid p) sch" "ring_ok r" "slot_mine (pside p) (pwid p) r"
    "local_check (pcheck p)"
    "\<And>sch' p' r'. ring_ok r' \<Longrightarrow> slot_mine (pside p) (pwid p) r' \<Longrightarrow> polite (pside p) (pwid p) sch' \<Longrightarrow>
       length sch' \<le> length sch \<Longrightarrow> pwid p' = pwid p \<Longrightarrow> pside p' = pside p \<Longrightarrow>
       pcheck p' = pcheck p \<Longrightarrow> (sch = [] \<Longrightarrow> pcheck p r' arg) \<Longrightarrow>
       returns_ok errs sizes (F sch' p' r')"
  shows "returns_ok errs sizes (Option.bind (park_poll sch k arg p r)
     (\<lambda>(ready, p', r', sch'). if \<not> ready then Some (Pending, p', r') else F sch' p' r'))"
proof -
  obtain ready p' r' sch' where pp: "park_poll sch k arg p r = Some (ready, p', r', sch')"
    and f: "ring_ok r'" "slot_mine (pside p) (pwid p) r'" "polite (pside p) (pwid p) sch'"
      "length sch' \<le> length sch" "pwid p' = pwid p" "pside p' = pside p" "pcheck p' = pcheck p"
      "registered p' = (\<not> ready)" "sch = [] \<Longrightarrow> ready \<Longrightarrow> pcheck p r' arg"
    by (rule park_poll_returns [OF assms(1-4), of k arg]) blast
  show ?thesis
  proof (cases ready)
    case True
    then show ?thesis
      using assms(5) [of r' sch' p'] f by (simp add: pp)
  next
    case False
    then show ?thesis
      using f(1,8) by (simp add: pp poll_outcome_def)
  qed
qed

lemma write_poll_returns:
  assumes "ring_ok r0" "slot_mine TxUser w r0" "polite TxUser w sch" "min_len \<le> max_len"
    "pwid p = w" "pside p = TxUser" "pcheck p = check_tx_writable_at_least"
  shows "returns_ok write_errors (\<lambda>_ n. unat min_len \<le> n \<and> n \<le> unat max_len)
           (write_poll sch cancelled k min_len max_len p r0)"
  using assms
proof (induction "2 * length sch + (if check_tx_writable_at_least r0 min_len then 0 else 1)"
    arbitrary: sch p r0 rule: less_induct)
  case less
  let ?sizes = "\<lambda>_::usize. \<lambda>n. unat min_len \<le> n \<and> n \<le> unat max_len"
  obtain r sch1 where o: "observe sch r0 = (r, sch1)" by fastforce
  have f: "ring_ok r" "slot_mine TxUser w r" "polite TxUser w sch1"
    "length sch1 < length sch \<or> sch = [] \<and> sch1 = [] \<and> r = r0"
    using observe_polite [OF o less.prems(3,1,2)] by blast+
  have sp: "polite (pside p) (pwid p) sch1" "slot_mine (pside p) (pwid p) r"
    "local_check (pcheck p)"
    using f less.prems(5-7) local_checks(4) by simp_all
  note ready = poll_ready_outcome [OF f(1), of write_errors ?sizes]
  have park: "returns_ok write_errors ?sizes (Option.bind (park_poll sch1 k min_len p r)
      (\<lambda>(ready, p', r', sch'). if \<not> ready then Some (Pending, p', r')
         else write_poll sch' cancelled k min_len max_len p' r'))"
    if no: "\<not> check_tx_writable_at_least r min_len"
    using less.hyps [OF _ _ _ _ less.prems(4)] f no less.prems(5-7)
    by (intro park_bind [OF sp(1) f(1) sp(2,3)]) auto
  have ns: "poll_outcome write_errors (?sizes (rword r)) (Ready (Inl e)) False" if "write_errors e" for e
    using that by (simp add: poll_outcome_def)
  show ?case
  proof (cases "ring_free r = 0 \<or> receiving (ring_view (rword r))")
    case True
    then have no: "\<not> check_tx_writable_at_least r min_len"
      by (auto simp: check_view [OF f(1)])
    show ?thesis
      using True ready [of "Inl TxClosing"] ready [of "Inl TxCancelled"] park [OF no]
        ns [of TxClosing] ns [of TxCancelled]
      by (subst write_poll.simps)
        (simp add: o try_write_at_spec [OF f(1)] write_errors_def del: bind_eq_Some_conv)
  next
    case False
    note cap = lent_capacity(1) [OF f(1), of max_len]
    show ?thesis
    proof (cases "min max_len (free_of r) < min_len")
      case True
      then have no: "\<not> check_tx_writable_at_least r min_len"
        using less.prems(4)
        by (auto simp: check_view [OF f(1)] min_def word_less_nat_alt word_le_nat_alt
            unat_free_of [OF f(1)] split: if_splits)
      show ?thesis
        using True False ready [of "Inl (TxStuffed 0)"] park [OF no] ns [of "TxStuffed 0"]
        by (subst write_poll.simps)
          (simp add: o try_write_at_spec [OF f(1)] write_errors_def del: bind_eq_Some_conv)
    next
      case fits: False
      have "poll_outcome write_errors (?sizes (rword r))
          (Ready (Inr (write_segm r (snd (ring_unpack (rword r))) (min max_len (free_of r))))) False"
        using fits by (simp add: poll_outcome_def cap word_less_nat_alt unat_min
            unat_free_of [OF f(1)] not_less del: min_less_iff_conj)
      from ready [OF this] show ?thesis
        using fits False
        by (subst write_poll.simps) (simp add: o try_write_at_spec [OF f(1)])
    qed
  qed
qed

lemma closed_either_facts:
  assumes "closed_either sch r = (c, r', sch')" "polite side w sch" "ring_ok r" "slot_mine side w r"
  shows "ring_ok r'" "slot_mine side w r'" "polite side w sch'" "length sch' \<le> length sch"
    "capacity r' = capacity r" "c \<Longrightarrow> is_tx_closed r' \<or> is_rx_closed r'"
    "sch = [] \<Longrightarrow> r' = r \<and> sch' = [] \<and> c = (is_tx_closed r \<or> is_rx_closed r)"
proof -
  obtain r1 sch1 where o1: "observe sch r = (r1, sch1)" by fastforce
  note f1 = observe_polite [OF o1 assms(2-4)]
  obtain r2 sch2 where o2: "observe sch1 r1 = (r2, sch2)" by fastforce
  have f2: "ring_ok r2 \<and> slot_mine side w r2 \<and> polite side w sch2 \<and> length (rmem r2) = length (rmem r1)
       \<and> (length sch2 < length sch1 \<or> sch1 = [] \<and> sch2 = [] \<and> r2 = r1)"
    using observe_polite [OF o2] f1 by blast
  have "(r', sch') = (r1, sch1) \<or> (r', sch') = (r2, sch2)"
    using assms(1) by (auto simp: closed_either_def o1 o2 split: if_splits)
  then show "ring_ok r'" "slot_mine side w r'" "polite side w sch'" "length sch' \<le> length sch"
    "capacity r' = capacity r"
    using f1 f2 by (auto simp: capacity_def)
  show "c \<Longrightarrow> is_tx_closed r' \<or> is_rx_closed r'"
    using assms(1) by (auto simp: closed_either_def o1 o2 split: if_splits)
  show "sch = [] \<Longrightarrow> r' = r \<and> sch' = [] \<and> c = (is_tx_closed r \<or> is_rx_closed r)"
    using assms(1) by (auto simp: closed_either_def split: if_splits)
qed

lemma read_segm_cap: "capacity r = capacity r' \<Longrightarrow> read_segm r s n = read_segm r' s n"
  by (simp add: read_segm_def)

lemma read_poll_returns:
  fixes r0 :: "'a ring"
  assumes "ring_ok r0" "slot_mine RxUser w r0" "polite RxUser w sch" "min_len \<le> max_len"
    "pwid p = w" "pside p = RxUser" "pcheck p = check_rx_readable_at_least"
  shows "returns_ok read_errors (\<lambda>s n. n \<le> unat max_len
             \<and> (unat min_len \<le> n \<or> has_flag s TX_CLOSED \<or> has_flag s RX_CLOSED))
           (read_poll sch cancelled k min_len max_len p r0)"
  using assms
proof (induction "2 * length sch + (if check_rx_readable_at_least r0 min_len then 0 else 1)"
    arbitrary: sch p r0 rule: less_induct)
  case less
  let ?sizes = "\<lambda>s n. n \<le> unat max_len
      \<and> (unat min_len \<le> n \<or> has_flag s TX_CLOSED \<or> has_flag s RX_CLOSED)"
  obtain r sch1 where o: "observe sch r0 = (r, sch1)" by fastforce
  have f: "ring_ok r" "slot_mine RxUser w r" "polite RxUser w sch1"
    "length sch1 < length sch \<or> sch = [] \<and> sch1 = [] \<and> r = r0"
    using observe_polite [OF o less.prems(3,1,2)] by blast+
  obtain c r2 sch2 where ce: "closed_either sch1 r = (c, r2, sch2)" by (metis surj_pair)
  note g = closed_either_facts [OF ce f(3,1,2)]
  have sp: "polite (pside p) (pwid p) sch2" "slot_mine (pside p) (pwid p) r2"
    "local_check (pcheck p)"
    using g(2,3) less.prems(5-7) local_checks(5) by simp_all
  note ready = poll_ready_outcome [OF f(1), of read_errors ?sizes]
    poll_ready_outcome [OF g(1), of read_errors ?sizes]
  have park: "returns_ok read_errors ?sizes (Option.bind (park_poll sch2 k min_len p r2)
      (\<lambda>(ready, p', r', sch'). if \<not> ready then Some (Pending, p', r')
         else read_poll sch' cancelled k min_len max_len p' r'))"
    if no: "sch = [] \<Longrightarrow> \<not> c \<Longrightarrow> \<not> check_rx_readable_at_least r min_len" and "\<not> c"
  proof (rule park_bind [OF sp(1) g(1) sp(2,3)])
    fix sch' :: "'a interference" and p' :: "'a park" and r'
    assume a: "ring_ok r'" "slot_mine (pside p) (pwid p) r'" "polite (pside p) (pwid p) sch'"
      "length sch' \<le> length sch2" "pwid p' = pwid p" "pside p' = pside p" "pcheck p' = pcheck p"
      "sch2 = [] \<Longrightarrow> pcheck p r' min_len"
    have "2 * length sch' + (if check_rx_readable_at_least r' min_len then 0 else 1)
        < 2 * length sch + (if check_rx_readable_at_least r0 min_len then 0 else 1)"
    proof (cases "sch = []")
      case True
      then have "sch1 = []" "r = r0" "sch2 = []"
        using f(4) g(7) by auto
      then show ?thesis
        using True a(4,8) no \<open>\<not> c\<close> less.prems(7) by simp
    next
      case False
      then have "length sch' < length sch"
        using f(4) g(4) a(4) by simp
      then show ?thesis
        by simp
    qed
    from less.hyps [OF this a(1) _ _ less.prems(4)] a less.prems(5-7)
    show "returns_ok read_errors ?sizes (read_poll sch' cancelled k min_len max_len p' r')"
      by simp
  qed
  have ns: "poll_outcome read_errors (?sizes s) (Ready (Inl e)) False" if "read_errors e" for e s
    using that by (simp add: poll_outcome_def)
  show ?case
  proof (cases "ring_data r = 0 \<or> sending (ring_view (rword r))")
    case True
    have no: "sch = [] \<Longrightarrow> \<not> c \<Longrightarrow> \<not> check_rx_readable_at_least r min_len"
      using True f(4) g(7) check_view(5) [OF f(1), of min_len] by (auto simp: flags_view)
    show ?thesis
      using True ready(1) [of "Inl RxClosing"] ready(1) [of "Inl (RxDrained 0)"]
        ready(2) [of "Inl RxClosing"] park [OF no] ns [of RxClosing] ns [of "RxDrained 0"]
      by (subst read_poll.simps)
        (simp add: o ce try_read_at_spec [OF f(1)] read_errors_def del: bind_eq_Some_conv)
  next
    case False
    note cap = lent_capacity(2) [OF f(1), of max_len]
    show ?thesis
    proof (cases "min max_len (data_of r) < min_len")
      case True
      then have small: "ring_data r < unat min_len"
        using less.prems(4)
        by (auto simp: min_def word_less_nat_alt word_le_nat_alt unat_data_of [OF f(1)] split: if_splits)
      have no: "sch = [] \<Longrightarrow> \<not> c \<Longrightarrow> \<not> check_rx_readable_at_least r min_len"
        using small f(4) g(7) check_view(5) [OF f(1), of min_len] by (auto simp: flags_view)
      have "poll_outcome read_errors (?sizes (rword r2))
          (Ready (Inr (read_segm r2 (fst (ring_unpack (rword r))) (min max_len (data_of r))))) False"
        if c
        using g(6) [OF that] cap read_segm_cap [OF g(5)]
        by (auto simp: poll_outcome_def is_tx_closed_def is_rx_closed_def)
      then show ?thesis
        using True False ready(2) [of "Inr (read_segm r2 (fst (ring_unpack (rword r))) (min max_len (data_of r)))"]
          ready(2) [of "Inl RxCancelled"] park [OF no] ns [of RxCancelled]
        by (subst read_poll.simps)
          (simp add: o ce try_read_at_spec [OF f(1)] read_errors_def del: bind_eq_Some_conv)
    next
      case fits: False
      have "poll_outcome read_errors (?sizes (rword r))
          (Ready (Inr (read_segm r (fst (ring_unpack (rword r))) (min max_len (data_of r))))) False"
        using fits by (simp add: poll_outcome_def cap word_less_nat_alt unat_min
            unat_data_of [OF f(1)] not_less del: min_less_iff_conj)
      from ready(1) [OF this] show ?thesis
        using fits False
        by (subst read_poll.simps) (simp add: o try_read_at_spec [OF f(1)])
    qed
  qed
qed

section \<open>Closing as interference\<close>

lemma slot_signal_mine: "slot_mine side w r \<Longrightarrow> slot_mine side w (slot_signal side' r)"
  by (auto simp: slot_mine_def slot_signal_def Let_def split: option.splits)

lemma signal_all_mine: "slot_mine side w r \<Longrightarrow> slot_mine side w (signal_all r)"
  by (simp add: signal_all_def slot_signal_mine)

lemma close_ok: "ring_ok (close_tx r) = ring_ok r" "ring_ok (close_rx r) = ring_ok r"
  "ring_data (close_tx r) = ring_data r" "ring_data (close_rx r) = ring_data r"
  "ring_free (close_tx r) = ring_free r" "ring_free (close_rx r) = ring_free r"
  using ring_update_flags [of "close_tx r" r] ring_update_flags [of "close_rx r" r] by simp_all

lemma update_state_mine: "slot_mine side w (update_state f r) = slot_mine side w r"
  by (simp add: slot_mine_def update_state_def)

lemma polite_close:
  "polite side w [close_tx]" "polite side w [close_rx]" "polite side w [id, id, id, close_tx]"
  by (auto simp: polite_def close_ok)
    (simp_all add: close_tx_def close_rx_def signal_all_mine update_state_mine)

lemma ring_demo_ok: "ring_ok ring_demo" "slot_mine side w ring_demo" "ring_data ring_demo = 0"
  "ring_free ring_demo = 2"
  by (simp_all add: ring_free_def ring_ok_def ring_demo_def pos_ok_def cw_eval slot_mine_def ring_data_def capacity_def)

section \<open>Properties\<close>

text \<open>
  C11: Every poll of a write future, its first one or one after it was left pending, returns, whatever
  finitely many things other threads do between its accesses, as long as they keep the ring well-formed and
  do not put another waiter into its slot. It is pending with its waiter registered, or deregistered and ready
  with a segment of at least \<open>min\<close> and at most \<open>max\<close> cells, or with \<open>Closing\<close>, \<open>Cancelled\<close> or
  \<open>Stuffed(0)\<close>; the \<open>unreachable!\<close> arm is never taken and the loop never runs on.
\<close>

theorem write_future_returns:
  assumes "ring_ok r" "slot_mine TxUser w r" "polite TxUser w sch" "min_len \<le> max_len"
  shows "\<exists>res p' r'. write_poll sch cancelled k min_len max_len ((write_future_new w)\<lparr>registered := b\<rparr>) r
            = Some (res, p', r') \<and> ring_ok r'
        \<and> poll_outcome write_errors (\<lambda>n. unat min_len \<le> n \<and> n \<le> unat max_len) res (registered p')"
  using write_poll_returns [OF assms, of "(write_future_new w)\<lparr>registered := b\<rparr>"]
  by (simp add: write_future_new_def park_new_def)

theorem write_future_returns_witness:
  "\<exists>res p' r'. write_poll [close_tx] False 5 2 3 ((write_future_new 1)\<lparr>registered := False\<rparr>) ring_demo
        = Some (res, p', r')
      \<and> poll_outcome write_errors (\<lambda>n. 2 \<le> n \<and> n \<le> 3) res (registered p')"
  using write_future_returns [OF ring_demo_ok(1,2) polite_close(1), where min_len = 2 and max_len = 3]
  by fastforce

text \<open>
  Every poll of a read future returns under every finite interference: pending and
  registered, or ready with at most \<open>max\<close> items and at least \<open>min\<close> unless an end was closed, or
  with one of its errors.
\<close>

theorem read_future_returns:
  assumes "ring_ok r" "slot_mine RxUser w r" "polite RxUser w sch" "min_len \<le> max_len"
  shows "\<exists>res p' r'. read_poll sch cancelled k min_len max_len (read_future_new w) r
            = Some (res, p', r') \<and> ring_ok r'
        \<and> poll_outcome read_errors (\<lambda>n. n \<le> unat max_len
             \<and> (unat min_len \<le> n \<or> is_tx_closed r' \<or> is_rx_closed r')) res (registered p')"
  using read_poll_returns [OF assms, of "read_future_new w"]
  by (simp add: read_future_new_def park_new_def is_tx_closed_def is_rx_closed_def)

theorem read_future_returns_witness:
  "\<exists>res p' r'. read_poll [close_rx] False 5 1 3 (read_future_new 1) ring_demo = Some (res, p', r')
      \<and> poll_outcome read_errors (\<lambda>n. n \<le> 3 \<and> (1 \<le> n \<or> is_tx_closed r' \<or> is_rx_closed r'))
          res (registered p')"
  using read_future_returns [OF ring_demo_ok(1,2) polite_close(2), where min_len = 1 and max_len = 3]
  by fastforce



text \<open>
  The peek future ignores the writer's closing altogether: on an empty ring whose write end
  is closed and whose read end is open, an uninterrupted poll parks forever where the read
  future reports \<open>Closing\<close>; the condition it waits for cannot become true, since no writer is
  left.
\<close>

lemma peek_future_ignores_close:
  assumes "ring_ok r" "ring_data r = 0" "is_tx_closed r" "\<not> is_rx_closed r" "slot_mine RxUser w r"
  shows "(\<exists>p' r'. peek_poll [] False k (peek_future_new w) r = Some (Pending, p', r'))
       \<and> (\<exists>p' r'. read_poll [] False k min_len max_len (read_future_new w) r
             = Some (Ready (Inl RxClosing), p', r'))"
proof (rule conjI)
  have no: "\<not> check_rx_peekable r 0"
    using assms by (auto simp: check_view [OF assms(1)] flags_view)
  have no': "\<not> check_rx_peekable r' 0" if "rword r' = rword r" "rmem r' = rmem r" for r'
    using local_checks(3) [unfolded local_check_def, rule_format, of r' r 0] no that by simp
  have tp: "try_peek_at r = Inl (RxDrained (fst (ring_unpack (rword r))))"
    using assms by (auto simp: try_peek_at_read try_read_at_spec flags_view)
  obtain r3 where r3: "slot_register RxUser w (r\<lparr>waiters := (waiters r)(w := Some k)\<rparr>) = Some r3"
    "rword r3 = rword r" "rmem r3 = rmem r"
    using register_mine [of RxUser w "r\<lparr>waiters := (waiters r)(w := Some k)\<rparr>"] assms(5) by auto
  show "\<exists>p' r'. peek_poll [] False k (peek_future_new w) r = Some (Pending, p', r')"
    using r3 no no' [OF r3(2,3)]
    by (subst peek_poll.simps) (simp add: tp park_poll_def peek_future_new_def park_new_def Let_def)
next
  have tr: "try_read_at r max_len = Inl (RxDrained (fst (ring_unpack (rword r))))"
    using assms by (auto simp: try_read_at_spec flags_view)
  show "\<exists>p' r'. read_poll [] False k min_len max_len (read_future_new w) r
             = Some (Ready (Inl RxClosing), p', r')"
    using assms by (subst read_poll.simps) (simp add: tr closed_either_def poll_ready_def
        park_deregister_def read_future_new_def park_new_def)
qed

lemma peek_future_ignores_close_witness:
  "(\<exists>p' r'. peek_poll [] False 5 (peek_future_new 1) (close_tx ring_demo) = Some (Pending, p', r'))
   \<and> (\<exists>p' r'. read_poll [] False 5 0 8 (read_future_new 1) (close_tx ring_demo)
             = Some (Ready (Inl RxClosing), p', r'))"
proof -
  have "is_tx_closed (close_tx ring_demo)" "\<not> is_rx_closed (close_tx ring_demo)"
    by (simp_all add: flags_view) (simp add: ring_demo_def ring_view_def has_flag_def)
  then show ?thesis
    using peek_future_ignores_close [of "close_tx ring_demo" 1] ring_demo_ok
    by (simp add: close_ok) (simp add: close_tx_def signal_all_mine update_state_mine ring_demo_ok)
qed

text \<open>
  A write future that asks for more cells than are free stays pending although its own end
  is closed: with \<open>0 < free < min\<close> the closed flag is not looked at, so an uninterrupted poll
  parks, while with a full ring the same poll reports \<open>Closing\<close>.
\<close>

lemma write_future_pending_when_closed:
  assumes "ring_ok r" "is_tx_closed r" "0 < ring_free r" "ring_free r < unat min_len"
    "min_len \<le> max_len" "\<not> receiving (ring_view (rword r))" "slot_mine TxUser w r"
  shows "\<exists>p' r'. write_poll [] False k min_len max_len (write_future_new w) r = Some (Pending, p', r')"
proof -
  have no: "\<not> check_tx_writable_at_least r min_len"
    using assms by (auto simp: check_view [OF assms(1)])
  have no': "\<not> check_tx_writable_at_least r' min_len" if "rword r' = rword r" "rmem r' = rmem r" for r'
    using local_checks(4) [unfolded local_check_def, rule_format, of r' r min_len] no that by simp
  have small: "min max_len (free_of r) < min_len"
    using assms(4) unat_free_of [OF assms(1)] by (simp add: word_less_nat_alt unat_min min_less_iff_disj)
  obtain r3 where r3: "slot_register TxUser w (r\<lparr>waiters := (waiters r)(w := Some k)\<rparr>) = Some r3"
    "rword r3 = rword r" "rmem r3 = rmem r"
    using register_mine [of TxUser w "r\<lparr>waiters := (waiters r)(w := Some k)\<rparr>"] assms(7) by auto
  show ?thesis
    using r3 no no' [OF r3(2,3)] small assms(3,6)
    by (subst write_poll.simps) (simp add: try_write_at_spec [OF assms(1)] park_poll_def
        write_future_new_def park_new_def Let_def)
qed

lemma write_future_pending_when_closed_witness:
  "\<exists>p' r'. write_poll [] False 5 3 3 (write_future_new 1) (close_tx ring_demo) = Some (Pending, p', r')"
proof -
  let ?r = "close_tx ring_demo"
  have f: "ring_free ?r = 2"
    by (simp add: close_ok ring_demo_ok)
  have "\<not> receiving (ring_view (rword ring_demo))"
    by (simp add: ring_demo_def ring_view_def has_flag_def)
  then have "\<not> receiving (ring_view (rword ?r))"
    by simp
  with f write_future_pending_when_closed [of ?r 3 3 1] show ?thesis
    by (simp add: close_ok ring_demo_ok flags_view)
      (simp add: close_tx_def signal_all_mine update_state_mine ring_demo_ok)
qed

end
