(* ===== verification/Circ_Park.thy ===== *)
theory Circ_Park
  imports Circ_Stream Ring_Futures
begin

text \<open>
  The waits of the passive halves (\<open>core_.rs\<close>: \<open>core_passive_read_async_\<close>,
  \<open>core_passive_write_async_\<close>, \<open>WaitGuard\<close>), one poll of the future at a time, beside a passive other
  end (whose \<open>pump_async\<close> moves nothing). A poll that finds nothing registers the demand, arms the
  standby flag and enters the waker slot; what the other side's commits and closes do to such a
  waiter is the subject of the properties.
\<close>

section \<open>The slots\<close>

fun producer_slot :: "'i producer \<Rightarrow> wid option" where
  "producer_slot (BufProducer d w) = w"
| "producer_slot (DevProducer i w) = w"

fun producer_set_slot :: "wid option \<Rightarrow> 'i producer \<Rightarrow> 'i producer" where
  "producer_set_slot w (BufProducer d _) = BufProducer d w"
| "producer_set_slot w (DevProducer i _) = DevProducer i w"

fun consumer_slot :: "'o consumer \<Rightarrow> wid option" where
  "consumer_slot (BufConsumer d w) = w"
| "consumer_slot (DevConsumer p w) = w"

fun consumer_set_slot :: "wid option \<Rightarrow> 'o consumer \<Rightarrow> 'o consumer" where
  "consumer_set_slot w (BufConsumer d _) = BufConsumer d w"
| "consumer_set_slot w (DevConsumer p _) = DevConsumer p w"

section \<open>Polls\<close>

text \<open>The state of the future between polls: not started, or suspended in its \<open>poll_fn\<close>.\<close>

datatype wait_state = WaitStart | WaitParked bool

definition can_stop_read :: "('a, 'i, 'o) circ \<Rightarrow> usize demand \<Rightarrow> bool" where
  "can_stop_read c d =
     (case circ_try_read_at c d of Inr _ \<Rightarrow> True | Inl e \<Rightarrow> read_should_terminate (consumer_err_tag e))"

definition can_stop_write :: "('a, 'i, 'o) circ \<Rightarrow> usize demand \<Rightarrow> bool" where
  "can_stop_write c d =
     (case circ_try_write_at c d of Inr _ \<Rightarrow> True | Inl e \<Rightarrow> write_should_terminate (producer_err_tag e))"

text \<open>
  The closure polled by \<open>poll_fn\<close>: check, enter the slot, check again. The result says whether it is
  ready and whether the waiter is registered; \<open>None\<close> is a spin on an occupied slot.
\<close>

definition read_park_round ::
    "wid \<Rightarrow> waker \<Rightarrow> usize demand \<Rightarrow> bool \<Rightarrow> ('a, 'i, 'o) circ \<Rightarrow> (bool \<times> bool \<times> ('a, 'i, 'o) circ) option" where
  "read_park_round w kk d reg c =
     (if can_stop_read c d then Some (True, reg, c)
      else
        (let c1 = c\<lparr>cwaiters := (cwaiters c)(w := Some kk)\<rparr>
         in case wakeslot_register w (consumer_slot (ccons c1)) of
              None \<Rightarrow> None
            | Some sl \<Rightarrow>
                (let c2 = c1\<lparr>ccons := consumer_set_slot sl (ccons c1)\<rparr>
                 in Some (can_stop_read c2 d, True, c2))))"

definition write_park_round ::
    "wid \<Rightarrow> waker \<Rightarrow> usize demand \<Rightarrow> bool \<Rightarrow> ('a, 'i, 'o) circ \<Rightarrow> (bool \<times> bool \<times> ('a, 'i, 'o) circ) option" where
  "write_park_round w kk d reg c =
     (if can_stop_write c d then Some (True, reg, c)
      else
        (let c1 = c\<lparr>cwaiters := (cwaiters c)(w := Some kk)\<rparr>
         in case wakeslot_register w (producer_slot (cprod c1)) of
              None \<Rightarrow> None
            | Some sl \<Rightarrow>
                (let c2 = c1\<lparr>cprod := producer_set_slot sl (cprod c1)\<rparr>
                 in Some (can_stop_write c2 d, True, c2))))"

text \<open>\<open>WaitGuard::drop\<close>: leave the slot, disarm, forget the demand.\<close>

definition read_guard_drop :: "bool \<Rightarrow> wid \<Rightarrow> ('a, 'i, 'o) circ \<Rightarrow> ('a, 'i, 'o) circ" where
  "read_guard_drop reg w c =
     (let c1 = (if reg then c\<lparr>ccons := consumer_set_slot (wakeslot_deregister w (consumer_slot (ccons c))) (ccons c)\<rparr>
                else c);
          c2 = unset_rx_standby c1
      in c2\<lparr>ccons := consumer_reset_demand (ccons c2)\<rparr>)"

definition write_guard_drop :: "bool \<Rightarrow> wid \<Rightarrow> ('a, 'i, 'o) circ \<Rightarrow> ('a, 'i, 'o) circ" where
  "write_guard_drop reg w c =
     (let c1 = (if reg then c\<lparr>cprod := producer_set_slot (wakeslot_deregister w (producer_slot (cprod c))) (cprod c)\<rparr>
                else c);
          c2 = unset_tx_standby c1
      in c2\<lparr>cprod := producer_reset_demand (cprod c2)\<rparr>)"

text \<open>
  One poll: the synchronous attempt and, when it is worth waiting, the registration of the demand and
  the armed flag; then the round of \<open>poll_fn\<close>. \<open>None\<close> is a panic (a second concurrent call), a spin, or
  not enough fuel in the pumps; \<open>cancelled\<close> is what the cancellation future answers.
\<close>

definition read_enter ::
    "('a, 'e, 'i) input_dev \<Rightarrow> ('a, 'f, 'o) output_dev \<Rightarrow> nat \<Rightarrow> usize demand \<Rightarrow> wait_state
     \<Rightarrow> ('a, 'i, 'o) circ
     \<Rightarrow> ((consumer_error, recl) rust_result \<times> ('a, 'i, 'o) circ + bool \<times> ('a, 'i, 'o) circ) option" where
  "read_enter rd wr k d st c =
     (case st of
        WaitParked reg \<Rightarrow> Some (Inr (reg, c))
      | WaitStart \<Rightarrow>
          (case circ_try_read rd wr k d c of
             None \<Rightarrow> None
           | Some (Inr g, c1) \<Rightarrow> Some (Inl (Inr g, c1))
           | Some (Inl e, c1) \<Rightarrow>
               if read_should_terminate (consumer_err_tag e) then Some (Inl (Inl e, c1))
               else
                 (let (fresh, q) = consumer_set_demand d (ccons c1)
                  in if \<not> fresh then None else Some (Inr (False, set_rx_standby (c1\<lparr>ccons := q\<rparr>))))))"

partial_function (option) circ_read_poll ::
    "('a, 'e, 'i) input_dev \<Rightarrow> ('a, 'f, 'o) output_dev \<Rightarrow> nat \<Rightarrow> bool \<Rightarrow> wid \<Rightarrow> waker \<Rightarrow> usize demand
     \<Rightarrow> wait_state \<Rightarrow> ('a, 'i, 'o) circ
     \<Rightarrow> ((consumer_error, recl) rust_result poll \<times> wait_state \<times> ('a, 'i, 'o) circ) option" where
  "circ_read_poll rd wr k cancelled w kk d st c =
     Option.bind (read_enter rd wr k d st c)
       (\<lambda>x. case x of
          Inl (r, c1) \<Rightarrow> Some (Ready r, WaitStart, c1)
        | Inr (reg, c1) \<Rightarrow>
            Option.bind (read_park_round w kk d reg c1)
              (\<lambda>(ready, reg', c2).
                 if ready then
                   circ_read_poll rd wr k cancelled w kk d WaitStart (read_guard_drop reg' w c2)
                 else if cancelled then Some (Ready (Inl CCancelled), WaitStart, read_guard_drop reg' w c2)
                 else Some (Pending, WaitParked reg', c2)))"

definition write_enter ::
    "('a, 'e, 'i) input_dev \<Rightarrow> ('a, 'f, 'o) output_dev \<Rightarrow> nat \<Rightarrow> usize demand \<Rightarrow> wait_state
     \<Rightarrow> ('a, 'i, 'o) circ
     \<Rightarrow> ((producer_error, recl) rust_result \<times> ('a, 'i, 'o) circ + bool \<times> ('a, 'i, 'o) circ) option" where
  "write_enter rd wr k d st c =
     (case st of
        WaitParked reg \<Rightarrow> Some (Inr (reg, c))
      | WaitStart \<Rightarrow>
          (case circ_try_write rd wr k d c of
             None \<Rightarrow> None
           | Some (Inr g, c1) \<Rightarrow> Some (Inl (Inr g, c1))
           | Some (Inl e, c1) \<Rightarrow>
               if write_should_terminate (producer_err_tag e) then Some (Inl (Inl e, c1))
               else
                 (let (fresh, q) = producer_set_demand d (cprod c1)
                  in if \<not> fresh then None else Some (Inr (False, set_tx_standby (c1\<lparr>cprod := q\<rparr>))))))"

partial_function (option) circ_write_poll ::
    "('a, 'e, 'i) input_dev \<Rightarrow> ('a, 'f, 'o) output_dev \<Rightarrow> nat \<Rightarrow> bool \<Rightarrow> wid \<Rightarrow> waker \<Rightarrow> usize demand
     \<Rightarrow> wait_state \<Rightarrow> ('a, 'i, 'o) circ
     \<Rightarrow> ((producer_error, recl) rust_result poll \<times> wait_state \<times> ('a, 'i, 'o) circ) option" where
  "circ_write_poll rd wr k cancelled w kk d st c =
     Option.bind (write_enter rd wr k d st c)
       (\<lambda>x. case x of
          Inl (r, c1) \<Rightarrow> Some (Ready r, WaitStart, c1)
        | Inr (reg, c1) \<Rightarrow>
            Option.bind (write_park_round w kk d reg c1)
              (\<lambda>(ready, reg', c2).
                 if ready then
                   circ_write_poll rd wr k cancelled w kk d WaitStart (write_guard_drop reg' w c2)
                 else if cancelled then Some (Ready (Inl PCancelled), WaitStart, write_guard_drop reg' w c2)
                 else Some (Pending, WaitParked reg', c2)))"


text \<open>Dropping the future while it is suspended.\<close>

definition drop_read_wait :: "wid \<Rightarrow> wait_state \<Rightarrow> ('a, 'i, 'o) circ \<Rightarrow> ('a, 'i, 'o) circ" where
  "drop_read_wait w st c = (case st of WaitStart \<Rightarrow> c | WaitParked reg \<Rightarrow> read_guard_drop reg w c)"

definition drop_write_wait :: "wid \<Rightarrow> wait_state \<Rightarrow> ('a, 'i, 'o) circ \<Rightarrow> ('a, 'i, 'o) circ" where
  "drop_write_wait w st c = (case st of WaitStart \<Rightarrow> c | WaitParked reg \<Rightarrow> write_guard_drop reg w c)"

section \<open>When a wait is over\<close>

lemma can_stop_read_iff:
  "can_stop_read c d =
     (circ_tx_closed c \<or> circ_rx_closed c \<or> 0 < circ_data_size c \<and> min_of d \<le> circ_data_size c)"
  by (auto simp: can_stop_read_def circ_try_read_at_def Let_def circ_data_size_def word_gt_0 not_less)

lemma can_stop_write_iff:
  "can_stop_write c d =
     (circ_tx_closed c \<or> 0 < circ_free_size c \<and> min_of d \<le> circ_free_size c)"
  by (auto simp: can_stop_write_def circ_try_write_at_def Let_def circ_free_size_def word_gt_0 not_less)

text \<open>Beside passive ends the synchronous calls do not touch the state.\<close>

lemma try_read_passive:
  assumes "producer_passive (cprod c)" "circ_try_read rd wr k d c = Some (r, c')"
  shows "c' = c" "r = (case circ_try_read_at c d of Inl e \<Rightarrow> Inl e
      | Inr (start, tk) \<Rightarrow> Inr (create_read_segm c start tk))"
  using assms
  by (cases k; auto simp: circ_try_read_def Let_def pump_input_sync.simps
      simp del: read_should_terminate.simps split: sum.splits if_splits prod.splits)+

lemma try_write_passive:
  assumes "consumer_passive (ccons c)" "circ_try_write rd wr k d c = Some (r, c')"
  shows "c' = c" "r = (case circ_try_write_at c d of Inl e \<Rightarrow> Inl e
      | Inr (start, tk) \<Rightarrow> Inr (create_write_segm c start tk))"
  using assms
  by (cases k; auto simp: circ_try_write_def Let_def pump_output_sync.simps
      simp del: write_should_terminate.simps split: sum.splits if_splits prod.splits)+

lemma standby_frame [simp]:
  "cbuf (set_rx_standby c) = cbuf c" "cprod (set_rx_standby c) = cprod c"
  "ccons (set_rx_standby c) = ccons c" "cwoken (set_rx_standby c) = cwoken c"
  "cbuf (set_tx_standby c) = cbuf c" "cprod (set_tx_standby c) = cprod c"
  "ccons (set_tx_standby c) = ccons c" "cwoken (set_tx_standby c) = cwoken c"
  by (simp_all add: set_rx_standby_def set_tx_standby_def)

lemma standby_flags [simp]:
  "has_flag (cstat (set_rx_standby c)) RX_STNDBY" "has_flag (cstat (set_tx_standby c)) TX_STNDBY"
  by (simp_all add: set_rx_standby_def set_tx_standby_def flag_word_flags)

section \<open>A parked half\<close>

definition reader_parked :: "wid \<Rightarrow> waker \<Rightarrow> usize demand \<Rightarrow> ('a, 'i, 'o) circ \<Rightarrow> bool" where
  "reader_parked w kk d c =
     (has_flag (cstat c) RX_STNDBY \<and> ccons c = BufConsumer (Some d) (Some w)
      \<and> cwaiters c w = Some kk \<and> \<not> can_stop_read c d)"

definition writer_parked :: "wid \<Rightarrow> waker \<Rightarrow> usize demand \<Rightarrow> ('a, 'i, 'o) circ \<Rightarrow> bool" where
  "writer_parked w kk d c =
     (has_flag (cstat c) TX_STNDBY \<and> cprod c = BufProducer (Some d) (Some w)
      \<and> cwaiters c w = Some kk \<and> \<not> can_stop_write c d)"

lemma read_round_parks:
  assumes "read_park_round w kk d reg c = Some (False, reg', c')" "ccons c = BufConsumer (Some d) sl"
    "has_flag (cstat c) RX_STNDBY"
  shows "reader_parked w kk d c' \<and> reg' \<and> cstat c' = cstat c \<and> cbuf c' = cbuf c \<and> cprod c' = cprod c"
  using assms
  by (auto simp: read_park_round_def reader_parked_def Let_def wakeslot_register_def
      split: if_splits option.splits)

lemma write_round_parks:
  assumes "write_park_round w kk d reg c = Some (False, reg', c')" "cprod c = BufProducer (Some d) sl"
    "has_flag (cstat c) TX_STNDBY"
  shows "writer_parked w kk d c' \<and> reg' \<and> cstat c' = cstat c \<and> cbuf c' = cbuf c \<and> ccons c' = ccons c"
  using assms
  by (auto simp: write_park_round_def writer_parked_def Let_def wakeslot_register_def
      split: if_splits option.splits)


lemma set_slot_passive [simp]:
  "consumer_passive (consumer_set_slot sl q) = consumer_passive q"
  "producer_passive (producer_set_slot sl p) = producer_passive p"
  "consumer_passive (consumer_reset_demand q) = consumer_passive q"
  "producer_passive (producer_reset_demand p) = producer_passive p"
proof -
  show "consumer_passive (consumer_set_slot sl q) = consumer_passive q"
    "consumer_passive (consumer_reset_demand q) = consumer_passive q"
    by (cases q; simp)+
  show "producer_passive (producer_set_slot sl p) = producer_passive p"
    "producer_passive (producer_reset_demand p) = producer_passive p"
    by (cases p; simp)+
qed

lemma standby_pos [simp]:
  "circ_pos (set_rx_standby c) = circ_pos c" "circ_pos (set_tx_standby c) = circ_pos c"
  "circ_pos (unset_rx_standby c) = circ_pos c" "circ_pos (unset_tx_standby c) = circ_pos c"
  using flag_word_unpack(1) [of RX_STNDBY "cstat c"] flag_word_unpack(1) [of TX_STNDBY "cstat c"]
    flag_word_unpack(2) [of RX_STNDBY "cstat c"] flag_word_unpack(2) [of TX_STNDBY "cstat c"]
  by (simp_all add: set_rx_standby_def set_tx_standby_def unset_rx_standby_def unset_tx_standby_def
      circ_clear_flag_def atomic_update_def circ_pos_def circ_capacity_def update_pos_def)

lemma unset_frame [simp]:
  "cbuf (unset_rx_standby c) = cbuf c" "cprod (unset_rx_standby c) = cprod c"
  "ccons (unset_rx_standby c) = ccons c" "cbuf (unset_tx_standby c) = cbuf c"
  "cprod (unset_tx_standby c) = cprod c" "ccons (unset_tx_standby c) = ccons c"
  by (simp_all add: unset_rx_standby_def unset_tx_standby_def circ_clear_flag_def split: prod.splits)

lemma circ_pos_ends [simp]:
  "circ_pos (c\<lparr>ccons := q\<rparr>) = circ_pos c" "circ_pos (c\<lparr>cprod := p\<rparr>) = circ_pos c"
  "circ_pos (c\<lparr>cwaiters := ws\<rparr>) = circ_pos c"
  by (simp_all add: circ_pos_def circ_capacity_def)

lemma guard_drop_frame [simp]:
  "cbuf (read_guard_drop reg w c) = cbuf c" "cprod (read_guard_drop reg w c) = cprod c"
  "circ_pos (read_guard_drop reg w c) = circ_pos c"
  "consumer_passive (ccons (read_guard_drop reg w c)) = consumer_passive (ccons c)"
  "cbuf (write_guard_drop reg w c) = cbuf c" "ccons (write_guard_drop reg w c) = ccons c"
  "circ_pos (write_guard_drop reg w c) = circ_pos c"
  "producer_passive (cprod (write_guard_drop reg w c)) = producer_passive (cprod c)"
  by (simp_all add: read_guard_drop_def write_guard_drop_def Let_def)

text \<open>What a poll leaves alone, and how the future is resumed.\<close>

definition read_resumes :: "usize demand \<Rightarrow> wait_state \<Rightarrow> ('a, 'i, 'o) circ \<Rightarrow> bool" where
  "read_resumes d st c =
     (producer_passive (cprod c) \<and> consumer_passive (ccons c)
      \<and> (st \<noteq> WaitStart \<longrightarrow> has_flag (cstat c) RX_STNDBY \<and> (\<exists>sl. ccons c = BufConsumer (Some d) sl)))"

definition write_resumes :: "usize demand \<Rightarrow> wait_state \<Rightarrow> ('a, 'i, 'o) circ \<Rightarrow> bool" where
  "write_resumes d st c =
     (producer_passive (cprod c) \<and> consumer_passive (ccons c)
      \<and> (st \<noteq> WaitStart \<longrightarrow> has_flag (cstat c) TX_STNDBY \<and> (\<exists>sl. cprod c = BufProducer (Some d) sl)))"

lemma read_enter_parks:
  assumes "read_enter rd wr k d st c = Some (Inr (reg, c1))" "read_resumes d st c"
  shows "(\<exists>sl. ccons c1 = BufConsumer (Some d) sl) \<and> has_flag (cstat c1) RX_STNDBY
       \<and> cprod c1 = cprod c \<and> cbuf c1 = cbuf c \<and> circ_pos c1 = circ_pos c"
proof (cases st)
  case WaitStart
  then obtain e c0 where t: "circ_try_read rd wr k d c = Some (Inl e, c0)"
    and f: "fst (consumer_set_demand d (ccons c0))"
    and c1: "c1 = set_rx_standby (c0\<lparr>ccons := snd (consumer_set_demand d (ccons c0))\<rparr>)"
    using assms(1)
    by (auto simp: read_enter_def split: option.splits sum.splits if_splits prod.splits)
  have "c0 = c"
    using try_read_passive(1) [OF _ t] assms(2) by (simp add: read_resumes_def)
  moreover have "\<exists>sl. ccons c = BufConsumer None sl"
    using f \<open>c0 = c\<close> by (cases "(d, ccons c)" rule: consumer_set_demand.cases) auto
  ultimately show ?thesis
    by (auto simp: c1)
next
  case (WaitParked b)
  then show ?thesis
    using assms by (simp add: read_enter_def read_resumes_def)
qed

lemma write_enter_parks:
  assumes "write_enter rd wr k d st c = Some (Inr (reg, c1))" "write_resumes d st c"
  shows "(\<exists>sl. cprod c1 = BufProducer (Some d) sl) \<and> has_flag (cstat c1) TX_STNDBY
       \<and> ccons c1 = ccons c \<and> cbuf c1 = cbuf c \<and> circ_pos c1 = circ_pos c"
proof (cases st)
  case WaitStart
  then obtain e c0 where t: "circ_try_write rd wr k d c = Some (Inl e, c0)"
    and f: "fst (producer_set_demand d (cprod c0))"
    and c1: "c1 = set_tx_standby (c0\<lparr>cprod := snd (producer_set_demand d (cprod c0))\<rparr>)"
    using assms(1)
    by (auto simp: write_enter_def split: option.splits sum.splits if_splits prod.splits)
  have "c0 = c"
    using try_write_passive(1) [OF _ t] assms(2) by (simp add: write_resumes_def)
  moreover have "\<exists>sl. cprod c = BufProducer None sl"
    using f \<open>c0 = c\<close> by (cases "(d, cprod c)" rule: producer_set_demand.cases) auto
  ultimately show ?thesis
    by (auto simp: c1)
next
  case (WaitParked b)
  then show ?thesis
    using assms by (simp add: write_enter_def write_resumes_def)
qed

lemma read_poll_parks:
  assumes "circ_read_poll rd wr k cancelled w kk d st c = Some (Pending, st', c')" "read_resumes d st c"
  shows "st' = WaitParked True \<and> reader_parked w kk d c' \<and> cprod c' = cprod c
       \<and> cbuf c' = cbuf c \<and> circ_pos c' = circ_pos c"
proof -
  let ?R = "\<lambda>w kk d c res. (case res of (x, st', c') \<Rightarrow> x = Pending \<longrightarrow>
      st' = WaitParked True \<and> reader_parked w kk d c' \<and> cprod c' = cprod c
       \<and> cbuf c' = cbuf c \<and> circ_pos c' = circ_pos c)"
  have "read_resumes d st c \<longrightarrow> ?R w kk d c res"
    if "circ_read_poll rd wr k cancelled w kk d st c = Some res" for res
    using that
  proof (induction rule: circ_read_poll.raw_induct [rotated, consumes 1])
    case (1 poll rd wr k cancelled w kk d st c res)
    note IH = "1"(1) and eq = "1"(2)
    show "read_resumes d st c \<longrightarrow> ?R w kk d c res"
    proof
      assume res: "read_resumes d st c"
      obtain x where x: "read_enter rd wr k d st c = Some x"
        using eq by (cases "read_enter rd wr k d st c") auto
      consider (fin) r c1 where "read_enter rd wr k d st c = Some (Inl (r, c1))" "res = (Ready r, WaitStart, c1)"
        | (round) reg c1 ready reg' c2 where "read_enter rd wr k d st c = Some (Inr (reg, c1))"
            "read_park_round w kk d reg c1 = Some (ready, reg', c2)"
        using eq x by (cases x) (auto simp: bind_eq_Some_conv)
      then show "?R w kk d c res"
      proof cases
        case fin
        then show ?thesis
          by simp
      next
        case round
        note e = read_enter_parks [OF round(1) res]
        show ?thesis
        proof (cases ready)
          case True
          have c2: "cprod c2 = cprod c1 \<and> cbuf c2 = cbuf c1 \<and> circ_pos c2 = circ_pos c1
              \<and> consumer_passive (ccons c2) = consumer_passive (ccons c1)"
            using round(2) by (auto simp: read_park_round_def Let_def split: if_splits option.splits)
          have "poll rd wr k cancelled w kk d WaitStart (read_guard_drop reg' w c2) = Some res"
            using eq round True by simp
          moreover have "read_resumes d WaitStart (read_guard_drop reg' w c2)"
            using c2 e res by (auto simp: read_resumes_def)
          ultimately have "?R w kk d (read_guard_drop reg' w c2) res"
            using IH by blast
          then show ?thesis
            using c2 e by (auto split: prod.splits)
        next
          case False
          obtain sl where sl: "ccons c1 = BufConsumer (Some d) sl"
            using e by blast
          have pk: "reader_parked w kk d c2 \<and> reg' \<and> cstat c2 = cstat c1 \<and> cbuf c2 = cbuf c1
              \<and> cprod c2 = cprod c1"
            using read_round_parks [of w kk d reg c1 reg' c2 sl] round(2) False sl e by simp
          moreover have "circ_pos c2 = circ_pos c1"
            using pk by (simp add: circ_pos_def circ_capacity_def)
          ultimately show ?thesis
            using eq round False e by (auto split: if_splits)
        qed
      qed
    qed
  qed
  from this [OF assms(1)] show ?thesis
    using assms(2) by simp
qed

lemma write_poll_parks:
  assumes "circ_write_poll rd wr k cancelled w kk d st c = Some (Pending, st', c')" "write_resumes d st c"
  shows "st' = WaitParked True \<and> writer_parked w kk d c' \<and> ccons c' = ccons c
       \<and> cbuf c' = cbuf c \<and> circ_pos c' = circ_pos c"
proof -
  let ?R = "\<lambda>w kk d c res. (case res of (x, st', c') \<Rightarrow> x = Pending \<longrightarrow>
      st' = WaitParked True \<and> writer_parked w kk d c' \<and> ccons c' = ccons c
       \<and> cbuf c' = cbuf c \<and> circ_pos c' = circ_pos c)"
  have "write_resumes d st c \<longrightarrow> ?R w kk d c res"
    if "circ_write_poll rd wr k cancelled w kk d st c = Some res" for res
    using that
  proof (induction rule: circ_write_poll.raw_induct [rotated, consumes 1])
    case (1 poll rd wr k cancelled w kk d st c res)
    note IH = "1"(1) and eq = "1"(2)
    show "write_resumes d st c \<longrightarrow> ?R w kk d c res"
    proof
      assume res: "write_resumes d st c"
      obtain x where x: "write_enter rd wr k d st c = Some x"
        using eq by (cases "write_enter rd wr k d st c") auto
      consider (fin) r c1 where "write_enter rd wr k d st c = Some (Inl (r, c1))" "res = (Ready r, WaitStart, c1)"
        | (round) reg c1 ready reg' c2 where "write_enter rd wr k d st c = Some (Inr (reg, c1))"
            "write_park_round w kk d reg c1 = Some (ready, reg', c2)"
        using eq x by (cases x) (auto simp: bind_eq_Some_conv)
      then show "?R w kk d c res"
      proof cases
        case fin
        then show ?thesis
          by simp
      next
        case round
        note e = write_enter_parks [OF round(1) res]
        show ?thesis
        proof (cases ready)
          case True
          have c2: "ccons c2 = ccons c1 \<and> cbuf c2 = cbuf c1 \<and> circ_pos c2 = circ_pos c1
              \<and> producer_passive (cprod c2) = producer_passive (cprod c1)"
            using round(2) by (auto simp: write_park_round_def Let_def split: if_splits option.splits)
          have "poll rd wr k cancelled w kk d WaitStart (write_guard_drop reg' w c2) = Some res"
            using eq round True by simp
          moreover have "write_resumes d WaitStart (write_guard_drop reg' w c2)"
            using c2 e res by (auto simp: write_resumes_def)
          ultimately have "?R w kk d (write_guard_drop reg' w c2) res"
            using IH by blast
          then show ?thesis
            using c2 e by (auto split: prod.splits)
        next
          case False
          obtain sl where sl: "cprod c1 = BufProducer (Some d) sl"
            using e by blast
          have pk: "writer_parked w kk d c2 \<and> reg' \<and> cstat c2 = cstat c1 \<and> cbuf c2 = cbuf c1
              \<and> ccons c2 = ccons c1"
            using write_round_parks [of w kk d reg c1 reg' c2 sl] round(2) False sl e by simp
          moreover have "circ_pos c2 = circ_pos c1"
            using pk by (simp add: circ_pos_def circ_capacity_def)
          ultimately show ?thesis
            using eq round False e by (auto split: if_splits)
        qed
      qed
    qed
  qed
  from this [OF assms(1)] show ?thesis
    using assms(2) by simp
qed

end
