(* ===== verification/Circ_Wake.thy ===== *)
theory Circ_Wake
  imports Circ_Park
begin

text \<open>
  Who wakes a parked half of the circular buffer: the commits of the other half do, as soon as its
  demand can be served; the closes do not.
\<close>

section \<open>Calls beside passive ends\<close>

lemma advance_write_fires:
  assumes "circ_advance_write rd wr k n c = Some c'" "consumer_passive (ccons c)"
  shows "c' = (let c1 = update_pos (circ_write_word (circ_capacity c) n) c
      in fire_consumer (if circ_tx_closed c1 then ProducerClose (circ_data_size c1)
           else CAvailable (circ_data_size c1)) c1)"
proof -
  from assms(1) obtain j where k: "k = Suc (Suc j)"
    by (cases k; cases "k - 1") (auto simp: pump_simps Let_def)
  show ?thesis
    using assms by (simp add: k pump_simps Let_def)
qed

lemma advance_read_fires:
  assumes "circ_advance_read rd wr k n c = Some c'" "producer_passive (cprod c)"
  shows "c' = (let c1 = update_pos (circ_read_word (circ_capacity c) n) c
      in fire_producer (if circ_rx_closed c1 then ConsumerClose (circ_free_size c1)
           else PAvailable (circ_free_size c1)) c1)"
proof -
  from assms(1) obtain j where k: "k = Suc (Suc j)"
    by (cases k; cases "k - 1") (auto simp: pump_simps Let_def)
  show ?thesis
    using assms by (simp add: k pump_simps Let_def)
qed

lemma write_call_commits:
  assumes "circ_call rd wr k (WriteItems d xs) (c, out0, in0) = Some (c', s', r')"
    "circ_ok c" "producer_passive (cprod c)" "consumer_passive (ccons c)"
  obtains (none) "c' = c"
  | (commit) m n where "length m = length (cbuf c)" "unat n \<le> circ_free c"
      "circ_advance_write rd wr k n (c\<lparr>cbuf := m\<rparr>) = Some c'"
proof -
  from assms(1) obtain r c0 where tw: "circ_try_write rd wr k d c = Some (r, c0)"
    by (auto split: option.splits)
  note p = try_write_passive [OF assms(4) tw]
  show thesis
  proof (cases r)
    case (Inl e)
    then show thesis
      using none assms(1) tw p(1) by simp
  next
    case (Inr g0)
    then obtain s tk where at: "circ_try_write_at c d = Inr (s, tk)" "g0 = create_write_segm c s tk"
      using p(2) by (auto split: sum.splits)
    note w = write_at_lends [OF at(1)]
    obtain m g' n where mv: "recl_move_items_from_buff (cbuf c) g0 (map Some xs) = (m, g', n)"
      by (metis surj_pair)
    define j where "j = min (unat tk) (length xs)"
    have le: "unat tk \<le> length (cbuf c)"
      using w(2) circ_sizes(1) [OF assms(2)] by linarith
    note a = circ_segm_addrs [OF assms(2) circ_sizes(3) [OF assms(2)] le]
    note gok = circ_segm_ok [OF assms(2) circ_sizes(3) [OF assms(2)] le]
    have "n = j \<and> g' = g0\<lparr>roff := j\<rparr>
        \<and> m = mem_put (cbuf c) (ring_addrs (length (cbuf c)) (circ_wp c) j) (take j (map Some xs))"
      using recl_move_from_spec [of "cbuf c" g0 0 "map Some xs" m g' n j] mv gok(1,2) a(1,3)
      by (simp add: at(2) w(1) recl_move_items_from_buff_def j_def take_ring_addrs)
    moreover have "unat (of_nat j :: usize) \<le> circ_free c"
      using w(2) unat_of_nat_cap [of j tk] by (simp add: j_def)
    ultimately show thesis
      using assms(1) tw mv p(1)
      by (intro commit [of m "of_nat j"]) (auto simp: Inr circ_drop_write_def)
  qed
qed

lemma read_call_commits:
  assumes "circ_call rd wr k (ReadItems d b) (c, out0, in0) = Some (c', s', r')"
    "circ_ok c" "producer_passive (cprod c)" "consumer_passive (ccons c)"
  obtains (none) "c' = c"
  | (commit) n where "unat n \<le> circ_data c" "circ_advance_read rd wr k n c = Some c'"
proof -
  from assms(1) obtain r c0 where tr: "circ_try_read rd wr k d c = Some (r, c0)"
    by (auto split: option.splits)
  note p = try_read_passive [OF assms(3) tr]
  show thesis
  proof (cases r)
    case (Inl e)
    then show thesis
      using none assms(1) tr p(1) by simp
  next
    case (Inr g0)
    then obtain s tk where at: "circ_try_read_at c d = Inr (s, tk)" "g0 = create_read_segm c s tk"
      using p(2) by (auto split: sum.splits)
    note w = read_at_lends [OF at(1)]
    obtain dst g' n where mv: "recl_move_items_to_buff (cbuf c) g0 (replicate b None) = (dst, g', n)"
      by (metis surj_pair)
    define j where "j = min (unat tk) b"
    have le: "unat tk \<le> length (cbuf c)"
      using w(2) circ_sizes(1) [OF assms(2)] by linarith
    note a = circ_segm_addrs [OF assms(2) circ_sizes(2) [OF assms(2)] le]
    note gok = circ_segm_ok [OF assms(2) circ_sizes(2) [OF assms(2)] le]
    have "n = j \<and> g' = g0\<lparr>roff := j\<rparr>
        \<and> dst = mem_get (cbuf c) (ring_addrs (length (cbuf c)) (circ_rp c) j) @ drop j (replicate b None)"
      using recl_move_to_spec [of "cbuf c" g0 0 "replicate b None" dst g' n j] mv gok(3,4) a(2,4)
      by (simp add: at(2) w(1) recl_move_items_to_buff_def j_def take_ring_addrs)
    moreover have "unat (of_nat j :: usize) \<le> circ_data c"
      using w(2) unat_of_nat_cap [of j tk] by (simp add: j_def)
    ultimately show thesis
      using assms(1) tr mv p(1)
      by (intro commit [of "of_nat j"]) (auto simp: Inr circ_drop_read_def)
  qed
qed

text \<open>A commit leaves every flag but the reversion bit as it was.\<close>

lemma flags_of_word:
  assumes "t AND NOT IOPOS_MASK = s AND NOT IOPOS_MASK"
  shows "has_flag t CIRC_TX_CLOSED = has_flag s CIRC_TX_CLOSED"
    "has_flag t CIRC_RX_CLOSED = has_flag s CIRC_RX_CLOSED"
    "has_flag t TX_STNDBY = has_flag s TX_STNDBY" "has_flag t RX_STNDBY = has_flag s RX_STNDBY"
proof -
  have "bit t n = bit s n" if "n \<in> {60, 61, 62, 63}" for n
    using arg_cong [OF assms, of "\<lambda>x. bit x n"] that by (auto simp: bit_simps bit_iopos_mask)
  then show "has_flag t CIRC_TX_CLOSED = has_flag s CIRC_TX_CLOSED"
    "has_flag t CIRC_RX_CLOSED = has_flag s CIRC_RX_CLOSED"
    "has_flag t TX_STNDBY = has_flag s TX_STNDBY" "has_flag t RX_STNDBY = has_flag s RX_STNDBY"
    by (simp_all add: circ_flag_bits)
qed

lemma write_commit_flags:
  assumes "circ_ok c" "unat n \<le> circ_free c"
  shows "circ_write_word (circ_capacity c) n (cstat c) AND NOT IOPOS_MASK = cstat c AND NOT IOPOS_MASK"
proof -
  obtain R W where *: "counts (circ_pos c) R W" "circ_free c = length (cbuf c) - (W - R)" "R \<le> W"
    "W \<le> R + length (cbuf c)"
    by (rule circ_counts [OF assms(1)])
  then have "unat n + (W - R) \<le> unat (circ_capacity c)"
    using assms(2) circ_ok_cap(1) [OF assms(1)] by linarith
  then show ?thesis
    by (rule write_word_counts(2) [OF *(1) [unfolded circ_pos_def]])
qed

lemma read_commit_flags:
  assumes "circ_ok c" "unat n \<le> circ_data c"
  shows "circ_read_word (circ_capacity c) n (cstat c) AND NOT IOPOS_MASK = cstat c AND NOT IOPOS_MASK"
proof -
  obtain R W where *: "counts (circ_pos c) R W" "circ_data c = W - R"
    by (rule circ_counts [OF assms(1)])
  then show ?thesis
    using assms(2) by (intro read_word_counts(2) [OF *(1) [unfolded circ_pos_def]]) simp
qed

section \<open>The waiter stays parked or is woken\<close>

definition read_wait_inv :: "wid \<Rightarrow> waker \<Rightarrow> usize demand \<Rightarrow> nat \<Rightarrow> ('a, 'i, 'o) circ \<Rightarrow> bool" where
  "read_wait_inv w kk d n c =
     (circ_ok c \<and> producer_passive (cprod c) \<and> consumer_passive (ccons c)
      \<and> n \<le> length (cwoken c)
      \<and> (kk \<in> set (drop n (cwoken c)) \<or> reader_parked w kk d c))"

definition write_wait_inv :: "wid \<Rightarrow> waker \<Rightarrow> usize demand \<Rightarrow> nat \<Rightarrow> ('a, 'i, 'o) circ \<Rightarrow> bool" where
  "write_wait_inv w kk d n c =
     (circ_ok c \<and> producer_passive (cprod c) \<and> consumer_passive (ccons c)
      \<and> n \<le> length (cwoken c)
      \<and> (kk \<in> set (drop n (cwoken c)) \<or> writer_parked w kk d c))"

lemma fire_consumer_passive:
  assumes "consumer_passive (ccons c)"
  shows "\<exists>ks. cwoken (fire_consumer ev c) = cwoken c @ ks"
    "\<exists>ks. cwoken (fire_producer ev' c) = cwoken c @ ks"
  by (auto simp: fire_consumer_def fire_producer_def split: prod.splits)

lemma commit_wakes_reader:
  assumes "reader_parked w kk d c" "\<not> circ_tx_closed c1"
    "cstat c1 AND NOT IOPOS_MASK = cstat c AND NOT IOPOS_MASK"
    "ccons c1 = ccons c" "cwaiters c1 = cwaiters c" "cwoken c1 = cwoken c"
    "c' = fire_consumer (CAvailable (circ_data_size c1)) c1"
  shows "(\<exists>ks. cwoken c' = cwoken c @ ks \<and> kk \<in> set ks) \<or> reader_parked w kk d c'"
proof -
  note f = flags_of_word [OF assms(3)]
  have cons: "ccons c1 = BufConsumer (Some d) (Some w)" "cwaiters c1 w = Some kk" and st: "has_flag (cstat c1) RX_STNDBY"
    and rx: "\<not> circ_rx_closed c"
    using assms(1) f assms(4,5) by (auto simp: reader_parked_def can_stop_read_iff)
  then have rx1: "\<not> circ_rx_closed c1"
    using f by (simp add: circ_rx_closed_def)
  show ?thesis
  proof (cases "0 < circ_data_size c1 \<and> min_of d \<le> circ_data_size c1")
    case True
    then show ?thesis
      using cons st assms(6) by (auto simp: assms(7) fire_consumer_def wakeslot_signal_def)
  next
    case False
    then have "fire_consumer (CAvailable (circ_data_size c1)) c1 = c1"
      using cons st by (auto simp: fire_consumer_def word_gt_0)
    then show ?thesis
      using False cons st rx1 assms(2) by (auto simp: assms(7) reader_parked_def can_stop_read_iff)
  qed
qed

lemma commit_wakes_writer:
  assumes "writer_parked w kk d c" "\<not> circ_rx_closed c1"
    "cstat c1 AND NOT IOPOS_MASK = cstat c AND NOT IOPOS_MASK"
    "cprod c1 = cprod c" "cwaiters c1 = cwaiters c" "cwoken c1 = cwoken c"
    "c' = fire_producer (PAvailable (circ_free_size c1)) c1"
  shows "(\<exists>ks. cwoken c' = cwoken c @ ks \<and> kk \<in> set ks) \<or> writer_parked w kk d c'"
proof -
  note f = flags_of_word [OF assms(3)]
  have prod: "cprod c1 = BufProducer (Some d) (Some w)" "cwaiters c1 w = Some kk" and st: "has_flag (cstat c1) TX_STNDBY"
    and tx: "\<not> circ_tx_closed c"
    using assms(1) f assms(4,5) by (auto simp: writer_parked_def can_stop_write_iff)
  then have tx1: "\<not> circ_tx_closed c1"
    using f by (simp add: circ_tx_closed_def)
  show ?thesis
  proof (cases "0 < circ_free_size c1 \<and> min_of d \<le> circ_free_size c1")
    case True
    then show ?thesis
      using prod st assms(6) by (auto simp: assms(7) fire_producer_def wakeslot_signal_def)
  next
    case False
    then have "fire_producer (PAvailable (circ_free_size c1)) c1 = c1"
      using prod st by (auto simp: fire_producer_def word_gt_0)
    then show ?thesis
      using False prod st tx1 by (auto simp: assms(7) writer_parked_def can_stop_write_iff)
  qed
qed

lemma parked_not_closed:
  "reader_parked w kk d c \<Longrightarrow> \<not> circ_tx_closed c \<and> \<not> circ_rx_closed c"
  "writer_parked w kk d c \<Longrightarrow> \<not> circ_tx_closed c"
  by (simp_all add: reader_parked_def writer_parked_def can_stop_read_iff can_stop_write_iff)

lemma put_frame_parked [simp]:
  "reader_parked w kk d (c\<lparr>cbuf := m\<rparr>) = reader_parked w kk d c" if "length m = length (cbuf c)"
  using that circ_put_frame [OF that]
  by (simp add: reader_parked_def can_stop_read_iff circ_tx_closed_def circ_rx_closed_def circ_data_size_def)

text \<open>Neither end is closed by the calls considered, so the reader's close flag stays clear too.\<close>

lemma write_call_keeps_waiting:
  assumes "circ_call rd wr k (WriteItems dw xs) (c, out0, in0) = Some (c', s', r')"
    "read_wait_inv w kk d n c"
  shows "read_wait_inv w kk d n c'"
proof -
  have i: "circ_ok c" "producer_passive (cprod c)" "consumer_passive (ccons c)" "n \<le> length (cwoken c)"
    using assms(2) by (simp_all add: read_wait_inv_def)
  show ?thesis
  proof (rule write_call_commits [OF assms(1) i(1-3)])
    fix m a
    assume m: "length m = length (cbuf c)" and a: "unat a \<le> circ_free c"
      and adv: "circ_advance_write rd wr k a (c\<lparr>cbuf := m\<rparr>) = Some c'"
    let ?b = "c\<lparr>cbuf := m\<rparr>"
    define c1 where "c1 = update_pos (circ_write_word (circ_capacity ?b) a) ?b"
    have b: "circ_ok ?b" "unat a \<le> circ_free ?b"
      using i a circ_put_frame [OF m] by simp_all
    note f = write_commit_flags [OF b]
    have ok: "circ_ok c1"
      using commit_write(1) [OF b c1_def] .
    let ?ev = "if circ_tx_closed c1 then ProducerClose (circ_data_size c1) else CAvailable (circ_data_size c1)"
    have c': "c' = fire_consumer ?ev c1"
      using advance_write_fires [OF adv] i(3) by (simp add: c1_def Let_def)
    obtain ks where ks: "cwoken c' = cwoken c @ ks"
      using fire_consumer_passive(1) [of c1 ?ev] i(3) by (auto simp: c' c1_def)
    have "kk \<in> set (drop n (cwoken c')) \<or> reader_parked w kk d c'"
    proof (cases "kk \<in> set (drop n (cwoken c))")
      case True
      then show ?thesis
        using i(4) by (simp add: ks)
    next
      case False
      then have pk: "reader_parked w kk d ?b"
        using assms(2) m by (simp add: read_wait_inv_def)
      have "\<not> circ_tx_closed c1"
        using parked_not_closed(1) [OF pk] flags_of_word(1) [OF f]
        by (simp add: circ_tx_closed_def c1_def)
      then show ?thesis
        using commit_wakes_reader [OF pk, of c1 c'] f i(4) by (auto simp: c' c1_def)
    qed
    then show ?thesis
      using i ok ks by (auto simp: read_wait_inv_def c') (simp_all add: c1_def)
  qed (use assms(2) in simp)
qed

lemma read_call_keeps_waiting:
  assumes "circ_call rd wr k (ReadItems dr b) (c, out0, in0) = Some (c', s', r')"
    "write_wait_inv w kk d n c" "\<not> circ_rx_closed c"
  shows "write_wait_inv w kk d n c'" "\<not> circ_rx_closed c'"
proof -
  have i: "circ_ok c" "producer_passive (cprod c)" "consumer_passive (ccons c)" "n \<le> length (cwoken c)"
    using assms(2) by (simp_all add: write_wait_inv_def)
  have "write_wait_inv w kk d n c' \<and> \<not> circ_rx_closed c'"
  proof (rule read_call_commits [OF assms(1) i(1-3)])
    fix a
    assume a: "unat a \<le> circ_data c" and adv: "circ_advance_read rd wr k a c = Some c'"
    define c1 where "c1 = update_pos (circ_read_word (circ_capacity c) a) c"
    note f = read_commit_flags [OF i(1) a]
    have ok: "circ_ok c1"
      using commit_read(1) [OF i(1) a c1_def] .
    have rx: "\<not> circ_rx_closed c1"
      using assms(3) flags_of_word(2) [OF f] by (simp add: circ_rx_closed_def c1_def)
    let ?ev = "PAvailable (circ_free_size c1)"
    have c': "c' = fire_producer ?ev c1"
      using advance_read_fires [OF adv i(2)] rx by (simp add: c1_def Let_def)
    obtain ks where ks: "cwoken c' = cwoken c @ ks"
      using fire_consumer_passive(2) [of c1 ?ev] i(3) by (auto simp: c' c1_def)
    have "kk \<in> set (drop n (cwoken c')) \<or> writer_parked w kk d c'"
    proof (cases "kk \<in> set (drop n (cwoken c))")
      case True
      then show ?thesis
        using i(4) by (simp add: ks)
    next
      case False
      then have pk: "writer_parked w kk d c"
        using assms(2) by (simp add: write_wait_inv_def)
      show ?thesis
        using commit_wakes_writer [OF pk rx, of c'] f i(4) by (auto simp: c' c1_def)
    qed
    then have "write_wait_inv w kk d n c'"
      using i ok ks by (auto simp: write_wait_inv_def c') (simp_all add: c1_def)
    then show ?thesis
      using rx by (simp add: c' circ_rx_closed_def)
  qed (use assms(2,3) in simp)
  then show "write_wait_inv w kk d n c'" "\<not> circ_rx_closed c'"
    by simp_all
qed

fun only_writes :: "'a half_call \<Rightarrow> bool" where
  "only_writes (WriteItems d xs) = True"
| "only_writes _ = False"

fun only_reads :: "'a half_call \<Rightarrow> bool" where
  "only_reads (ReadItems d n) = True"
| "only_reads _ = False"

lemma writes_keep_waiting:
  "circ_calls rd wr k calls (c, out0, in0) = Some (c', s', r') \<Longrightarrow> list_all only_writes calls \<Longrightarrow>
     read_wait_inv w kk d n c \<Longrightarrow> read_wait_inv w kk d n c'"
proof (induction calls arbitrary: c out0 in0)
  case (Cons a as)
  then obtain dw xs where a: "a = WriteItems dw xs"
    by (cases a) simp_all
  show ?case
  proof (cases "has_half a c")
    case True
    then obtain c1 o1 i1 where 1: "circ_call rd wr k a (c, out0, in0) = Some (c1, o1, i1)"
      "circ_calls rd wr k as (c1, o1, i1) = Some (c', s', r')"
      using Cons.prems(1) by (auto simp: bind_eq_Some_conv)
    then show ?thesis
      using Cons.IH [OF 1(2)] Cons.prems(2,3) write_call_keeps_waiting [of rd wr k dw xs] by (simp add: a)
  next
    case False
    then show ?thesis
      using Cons by simp
  qed
qed simp

lemma reads_keep_waiting:
  "circ_calls rd wr k calls (c, out0, in0) = Some (c', s', r') \<Longrightarrow> list_all only_reads calls \<Longrightarrow>
     write_wait_inv w kk d n c \<Longrightarrow> \<not> circ_rx_closed c \<Longrightarrow> write_wait_inv w kk d n c'"
proof (induction calls arbitrary: c out0 in0)
  case (Cons a as)
  then obtain dr b where a: "a = ReadItems dr b"
    by (cases a) simp_all
  show ?case
  proof (cases "has_half a c")
    case True
    then obtain c1 o1 i1 where 1: "circ_call rd wr k a (c, out0, in0) = Some (c1, o1, i1)"
      "circ_calls rd wr k as (c1, o1, i1) = Some (c', s', r')"
      using Cons.prems(1) by (auto simp: bind_eq_Some_conv)
    then show ?thesis
      using Cons.IH [OF 1(2)] Cons.prems(2-4) read_call_keeps_waiting [of rd wr k dr b c out0 in0 c1 o1 i1]
      by (simp add: a)
  next
    case False
    then show ?thesis
      using Cons by simp
  qed
qed simp

section \<open>Properties\<close>

lemma streams_parked:
  assumes "streams given taken out0 in0 c" "producer_passive (cprod c)" "consumer_passive (ccons c)"
    "producer_passive (cprod c1)" "consumer_passive (ccons c1)" "cbuf c1 = cbuf c" "circ_pos c1 = circ_pos c"
  shows "streams given taken out0 in0 c1"
proof -
  have "circ_ok c1" "circ_data c1 = circ_data c" "circ_queue c1 = circ_queue c"
    using assms(1,6,7) by (simp_all add: streams_def circ_ok_def circ_data_def circ_data_size_def circ_queue_def)
  then show ?thesis
    using assms by (simp add: streams_def)
qed

lemma read_poll_waits:
  assumes "streams given taken out0 in0 c" "producer_passive (cprod c)" "consumer_passive (ccons c)"
    "circ_read_poll rd wr k0 cancelled w kk d WaitStart c = Some (Pending, st, c1)"
  shows "streams given taken out0 in0 c1 \<and> read_wait_inv w kk d (length (cwoken c1)) c1 \<and> cbuf c1 = cbuf c"
proof -
  have "read_resumes d WaitStart c"
    using assms(2,3) by (simp add: read_resumes_def)
  note p = read_poll_parks [OF assms(4) this]
  have "consumer_passive (ccons c1)"
    using p by (simp add: reader_parked_def)
  then have "streams given taken out0 in0 c1"
    using streams_parked [OF assms(1-3)] p assms(2) by simp
  then show ?thesis
    using p assms(2) \<open>consumer_passive (ccons c1)\<close> by (simp add: read_wait_inv_def streams_def)
qed

lemma write_poll_waits:
  assumes "streams given taken out0 in0 c" "producer_passive (cprod c)" "consumer_passive (ccons c)"
    "circ_write_poll rd wr k0 cancelled w kk d WaitStart c = Some (Pending, st, c1)"
  shows "streams given taken out0 in0 c1 \<and> write_wait_inv w kk d (length (cwoken c1)) c1 \<and> cbuf c1 = cbuf c"
proof -
  have "write_resumes d WaitStart c"
    using assms(2,3) by (simp add: write_resumes_def)
  note p = write_poll_parks [OF assms(4) this]
  have "producer_passive (cprod c1)"
    using p by (simp add: writer_parked_def)
  then have "streams given taken out0 in0 c1"
    using streams_parked [OF assms(1-3)] p assms(3) by simp
  then show ?thesis
    using p assms(3) \<open>producer_passive (cprod c1)\<close> by (simp add: write_wait_inv_def streams_def)
qed

text \<open>
  C21: A read that parked is not forgotten by the writer: whatever the producer half writes after the
  poll that returned pending, all its calls return, and as soon as the buffered data satisfies the
  reader's demand the reader's waker has been woken since.
\<close>

theorem circ_reader_woken:
  assumes "streams given taken out0 in0 c" "producer_passive (cprod c)" "consumer_passive (ccons c)"
    "input_ok rd given" "output_ok wr taken" "length (cbuf c) + 5 \<le> k"
    "circ_read_poll rd wr k0 cancelled w kk d WaitStart c = Some (Pending, st, c1)"
    "list_all only_writes calls"
  shows "\<exists>c2 out2 in2. circ_calls rd wr k calls (c1, out0, in0) = Some (c2, out2, in2)
     \<and> (can_stop_read c2 d \<longrightarrow> kk \<in> set (drop (length (cwoken c1)) (cwoken c2)))"
proof -
  note p = read_poll_waits [OF assms(1-3,7)]
  then have "call_ok given taken c1 (circ_calls rd wr k calls (c1, out0, in0))"
    using assms(6) by (intro calls_ok assms(4,5)) auto
  then obtain c2 o2 i2 where r: "circ_calls rd wr k calls (c1, out0, in0) = Some (c2, o2, i2)"
    by (auto simp: call_ok_def split: option.splits)
  have "read_wait_inv w kk d (length (cwoken c1)) c2"
    using writes_keep_waiting [OF r assms(8)] p by blast
  then show ?thesis
    using r by (auto simp: read_wait_inv_def reader_parked_def)
qed

text \<open>
  C22: A write that parked is not forgotten by the reader: as long as the consumer half is open,
  whatever it reads after the poll that returned pending, all its calls return, and as soon as the
  free space satisfies the writer's demand the writer's waker has been woken since.
\<close>

theorem circ_writer_woken:
  assumes "streams given taken out0 in0 c" "producer_passive (cprod c)" "consumer_passive (ccons c)"
    "input_ok rd given" "output_ok wr taken" "length (cbuf c) + 5 \<le> k"
    "circ_write_poll rd wr k0 cancelled w kk d WaitStart c = Some (Pending, st, c1)"
    "\<not> circ_rx_closed c1" "list_all only_reads calls"
  shows "\<exists>c2 out2 in2. circ_calls rd wr k calls (c1, out0, in0) = Some (c2, out2, in2)
     \<and> (can_stop_write c2 d \<longrightarrow> kk \<in> set (drop (length (cwoken c1)) (cwoken c2)))"
proof -
  note p = write_poll_waits [OF assms(1-3,7)]
  then have "call_ok given taken c1 (circ_calls rd wr k calls (c1, out0, in0))"
    using assms(6) by (intro calls_ok assms(4,5)) auto
  then obtain c2 o2 i2 where r: "circ_calls rd wr k calls (c1, out0, in0) = Some (c2, o2, i2)"
    by (auto simp: call_ok_def split: option.splits)
  have "write_wait_inv w kk d (length (cwoken c1)) c2"
    using reads_keep_waiting [OF r assms(9)] p assms(8) by blast
  then show ?thesis
    using r by (auto simp: write_wait_inv_def writer_parked_def)
qed

lemma set_same: "cprod c = p \<Longrightarrow> c\<lparr>cprod := p\<rparr> = c"
  by (cases c) auto

lemma set_flag_word: "circ_set_flag f c = c\<lparr>cstat := (if cstat c AND f = 0 then circ_set_flag_word f (cstat c) else cstat c)\<rparr>"
  by (simp add: circ_set_flag_def atomic_update_def)

text \<open>
  Closing the producer half does not wake a parked reader: the close is visible to the reader
  (its wait would end at the next poll), but no waker is called and the reader is left in its slot.
\<close>

theorem circ_close_leaves_reader_parked:
  assumes "producer_passive (cprod c)" "consumer_passive (ccons c)"
    "circ_read_poll rd wr k0 cancelled w kk d WaitStart c = Some (Pending, st, c1)"
    "circ_close_tx rd wr k c1 = Some c2"
  shows "can_stop_read c2 d \<and> cwoken c2 = cwoken c1 \<and> consumer_slot (ccons c2) = Some w"
proof -
  have "read_resumes d WaitStart c"
    using assms(1,2) by (simp add: read_resumes_def)
  note p = read_poll_parks [OF assms(3) this]
  let ?b = "circ_set_flag CIRC_TX_CLOSED c1"
  have cons: "ccons c1 = BufConsumer (Some d) (Some w)"
    using p by (simp add: reader_parked_def)
  obtain j where k: "k = Suc j"
    using assms(4) by (cases k) (auto simp: circ_close_tx_def pump_simps Let_def)
  have fire: "fire_consumer (ProducerClose n) ?b = ?b" for n
    using cons by (auto simp: fire_consumer_def set_flag_word)
  have "c2 = ?b"
    using assms(4) fire cons by (simp add: circ_close_tx_def k pump_simps Let_def set_flag_word)
  moreover have "circ_tx_closed ?b"
    using parked_not_closed(1) [of w kk d c1] p flag_word_flags(1) [of "cstat c1"]
    by (simp add: set_flag_word circ_tx_closed_def has_flag_def)
  ultimately show ?thesis
    using cons by (simp add: can_stop_read_iff set_flag_word)
qed

text \<open>
  A write that waits for space is never resumed by the reader's close: closing the consumer half
  calls no waker, leaves the writer in its slot, and even when the future is polled again its wait
  is not over (the writer's condition does not look at the reader's close flag).
\<close>

theorem circ_close_leaves_writer_parked:
  assumes "producer_passive (cprod c)" "consumer_passive (ccons c)"
    "circ_write_poll rd wr k0 cancelled w kk d WaitStart c = Some (Pending, st, c1)"
    "c2 = circ_close_rx c1"
  shows "circ_rx_closed c2 \<and> cwoken c2 = cwoken c1 \<and> producer_slot (cprod c2) = Some w
     \<and> circ_write_poll rd wr k0 False w kk d st c2 = Some (Pending, st, c2)"
proof -
  have "write_resumes d WaitStart c"
    using assms(1,2) by (simp add: write_resumes_def)
  note p = write_poll_parks [OF assms(3) this]
  let ?b = "circ_set_flag CIRC_RX_CLOSED c1"
  have prod: "cprod c1 = BufProducer (Some d) (Some w)" "cwaiters c1 w = Some kk"
    and st: "\<not> can_stop_write c1 d"
    using p by (simp_all add: writer_parked_def)
  have "fire_producer (ConsumerClose n) ?b = ?b" for n
    using prod by (auto simp: fire_producer_def set_flag_word)
  then have c2: "c2 = ?b"
    by (simp add: assms(4) circ_close_rx_def Let_def)
  have rx: "circ_rx_closed c2"
    using flag_word_flags(2) [of "cstat c1"]
    by (auto simp: c2 set_flag_word circ_rx_closed_def has_flag_def)
  have "circ_pos c2 = circ_pos c1" "circ_tx_closed c2 = circ_tx_closed c1"
    using flag_word_unpack(1) [of CIRC_RX_CLOSED "cstat c1"] flag_word_flags(4) [of "cstat c1"]
    by (simp_all add: c2 set_flag_word circ_pos_def circ_capacity_def circ_tx_closed_def)
  then have "\<not> can_stop_write c2 d"
    using st by (simp add: can_stop_write_iff circ_free_size_def)
  moreover have "cprod c2 = BufProducer (Some d) (Some w)" "cwaiters c2 w = Some kk" "cwoken c2 = cwoken c1"
    using prod by (simp_all add: c2 set_flag_word)
  moreover from this have "c2\<lparr>cwaiters := (cwaiters c2)(w \<mapsto> kk)\<rparr> = c2"
    by (simp add: fun_upd_idem)
  moreover have "c2\<lparr>cprod := BufProducer (Some d) (Some w)\<rparr> = c2"
    using prod(1) by (intro set_same) (simp add: c2 set_flag_word)
  ultimately have "write_park_round w kk d True c2 = Some (False, True, c2)"
    by (simp add: write_park_round_def wakeslot_register_def set_same)
  then show ?thesis
    using p rx prod by (simp add: circ_write_poll.simps [of rd wr k0 False w kk d "WaitParked True"]
        write_enter_def) (simp add: c2 set_flag_word)
qed

section \<open>Concrete runs\<close>

definition demo_core :: "(nat, unit, unit) circ" where
  "demo_core = core_new (BufProducer None None) (BufConsumer None None) [None, None, None, None]"

definition no_input :: "(nat, unit, unit) input_dev" where
  "no_input i n = (None, i)"

definition no_output :: "(nat, unit, unit) output_dev" where
  "no_output p cs = (None, p)"

lemma demo_start:
  "circ_pos demo_core = \<lparr>pos_rv = False, pos_rp = 0, pos_wp = 0, pos_cap = 4\<rparr>"
  "\<not> circ_tx_closed demo_core" "\<not> circ_rx_closed demo_core" "circ_data_size demo_core = 0"
  "circ_free_size demo_core = 4" "cprod demo_core = BufProducer None None"
  "ccons demo_core = BufConsumer None None" "length (cbuf demo_core) = 4" "cstat demo_core = 0"
  by (simp_all add: demo_core_def core_new_def circ_pos_def circ_capacity_def iopos_unpack_def
      circ_tx_closed_def circ_rx_closed_def circ_data_size_def circ_free_size_def iopos_data_size_def
      iopos_free_size_def has_flag_def)

lemma standby_closed [simp]:
  "circ_tx_closed (set_rx_standby c) = circ_tx_closed c" "circ_rx_closed (set_rx_standby c) = circ_rx_closed c"
  "circ_tx_closed (set_tx_standby c) = circ_tx_closed c" "circ_rx_closed (set_tx_standby c) = circ_rx_closed c"
  by (simp_all add: circ_tx_closed_def circ_rx_closed_def circ_flag_bits set_rx_standby_def
      set_tx_standby_def circ_set_flag_word_def bit_or_iff circ_flag_bit)

lemma end_closed [simp]:
  "circ_tx_closed (c\<lparr>ccons := q\<rparr>) = circ_tx_closed c" "circ_rx_closed (c\<lparr>ccons := q\<rparr>) = circ_rx_closed c"
  "circ_tx_closed (c\<lparr>cprod := p\<rparr>) = circ_tx_closed c" "circ_rx_closed (c\<lparr>cprod := p\<rparr>) = circ_rx_closed c"
  "circ_tx_closed (c\<lparr>cwaiters := ws\<rparr>) = circ_tx_closed c" "circ_rx_closed (c\<lparr>cwaiters := ws\<rparr>) = circ_rx_closed c"
  by (simp_all add: circ_tx_closed_def circ_rx_closed_def)

lemma demo_reads:
  "\<exists>c1. circ_read_poll no_input no_output (Suc 0) False 5 7 (AtLeast 2) WaitStart demo_core
     = Some (Pending, WaitParked True, c1)"
proof -
  have "circ_try_read no_input no_output (Suc 0) (AtLeast 2) demo_core = Some (Inl (CDrained 0), demo_core)"
    by (simp add: circ_try_read_def circ_try_read_at_def Let_def demo_start iopos_data_size_def pump_simps)
  then have "read_enter no_input no_output (Suc 0) (AtLeast 2) WaitStart demo_core
      = Some (Inr (False, set_rx_standby (demo_core\<lparr>ccons := BufConsumer (Some (AtLeast 2)) None\<rparr>)))"
    by (simp add: read_enter_def demo_start)
  moreover have "\<exists>c1. read_park_round 5 7 (AtLeast 2) False
      (set_rx_standby (demo_core\<lparr>ccons := BufConsumer (Some (AtLeast 2)) None\<rparr>)) = Some (False, True, c1)"
    by (simp add: read_park_round_def Let_def can_stop_read_iff wakeslot_register_def
        circ_data_size_def demo_start iopos_data_size_def)
  ultimately show ?thesis
    by (auto simp: circ_read_poll.simps)
qed

text \<open>A full buffer.\<close>

definition demo_full :: "(nat, unit, unit) circ" where
  "demo_full = demo_core\<lparr>cstat := REVERSION, cbuf := [Some 1, Some 2, Some 3, Some 4]\<rparr>"

lemma demo_full_start:
  "circ_pos demo_full = \<lparr>pos_rv = True, pos_rp = 0, pos_wp = 0, pos_cap = 4\<rparr>"
  "\<not> circ_tx_closed demo_full" "\<not> circ_rx_closed demo_full" "cprod demo_full = BufProducer None None"
  "ccons demo_full = BufConsumer None None" "cbuf demo_full = [Some 1, Some 2, Some 3, Some 4]"
  "circ_capacity demo_full = 4"
proof -
  show "circ_pos demo_full = \<lparr>pos_rv = True, pos_rp = 0, pos_wp = 0, pos_cap = 4\<rparr>"
    by (simp add: demo_full_def circ_pos_def circ_capacity_def iopos_unpack_def
        has_flag_def REVERSION_def CIRC_POS_MASK_def)
  show "\<not> circ_tx_closed demo_full" "\<not> circ_rx_closed demo_full"
    by (simp_all add: demo_full_def circ_tx_closed_def circ_rx_closed_def circ_flag_bits bit_reversion)
qed (simp_all add: demo_full_def demo_start circ_capacity_def)

lemma demo_writes:
  "\<exists>c1. circ_write_poll no_input no_output (Suc 0) False 5 7 (AtLeast 2) WaitStart demo_full
     = Some (Pending, WaitParked True, c1) \<and> \<not> circ_rx_closed c1"
proof -
  have "circ_try_write no_input no_output (Suc 0) (AtLeast 2) demo_full = Some (Inl (PStuffed 0), demo_full)"
    by (simp add: circ_try_write_def circ_try_write_at_def Let_def demo_full_start iopos_free_size_def
        iopos_data_size_def pump_simps)
  then have "write_enter no_input no_output (Suc 0) (AtLeast 2) WaitStart demo_full
      = Some (Inr (False, set_tx_standby (demo_full\<lparr>cprod := BufProducer (Some (AtLeast 2)) None\<rparr>)))"
    by (simp add: write_enter_def demo_full_start)
  moreover have "\<exists>c1. write_park_round 5 7 (AtLeast 2) False
      (set_tx_standby (demo_full\<lparr>cprod := BufProducer (Some (AtLeast 2)) None\<rparr>)) = Some (False, True, c1)
      \<and> \<not> circ_rx_closed c1"
    by (simp add: write_park_round_def Let_def can_stop_write_iff wakeslot_register_def
        circ_free_size_def demo_full_start iopos_free_size_def iopos_data_size_def min_of_def del: circ_cap)
  ultimately show ?thesis
    by (auto simp: circ_write_poll.simps)
qed

lemma demo_core_streams:
  "streams (\<lambda>i. []) (\<lambda>p. []) [] [] demo_core"
  "input_ok no_input (\<lambda>i. [])" "output_ok no_output (\<lambda>p. [])"
proof -
  show "streams (\<lambda>i. []) (\<lambda>p. []) [] [] demo_core"
    unfolding demo_core_def
    by (intro core_new_streams) (simp_all add: in_stream_def out_stream_def core_new_def)
qed (simp_all add: input_ok_def output_ok_def no_input_def no_output_def items_of_def count_of_def)

lemma demo_full_streams: "streams (\<lambda>i. []) (\<lambda>p. []) [1, 2, 3, 4] [] demo_full"
proof -
  have "circ_ok demo_full"
    by (simp add: circ_ok_def iopos_ok_def demo_full_start circ_cap_ok_def MIN_CAPACITY_def
        CIRC_MAX_CAPACITY_def CIRC_POS_MASK_def)
  moreover have "circ_queue demo_full = [Some 1, Some 2, Some 3, Some 4]"
    by (simp add: circ_queue_def circ_data_def circ_data_size_def demo_full_start iopos_data_size_def
        mem_get_def ring_addrs_def upt_rec)
  ultimately show ?thesis
    by (simp add: streams_def in_stream_def out_stream_def demo_full_start)
qed

theorem circ_reader_woken_witness:
  "\<exists>c1 c2 out2 in2. circ_read_poll no_input no_output (Suc 0) False 5 7 (AtLeast 2) WaitStart demo_core
       = Some (Pending, WaitParked True, c1)
     \<and> circ_calls no_input no_output 9 [WriteItems (AtLeast 1) [1], WriteItems (AtLeast 1) [2]] (c1, [], [])
       = Some (c2, out2, in2)
     \<and> (can_stop_read c2 (AtLeast 2) \<longrightarrow> 7 \<in> set (drop (length (cwoken c1)) (cwoken c2)))"
proof -
  obtain c1 where c1: "circ_read_poll no_input no_output (Suc 0) False 5 7 (AtLeast 2) WaitStart demo_core
       = Some (Pending, WaitParked True, c1)"
    using demo_reads by blast
  from circ_reader_woken [OF demo_core_streams(1) _ _ demo_core_streams(2,3) _ c1,
      of 9 "[WriteItems (AtLeast 1) [1], WriteItems (AtLeast 1) [2]]"]
  show ?thesis
    using c1 by (simp add: demo_start)
qed

theorem circ_writer_woken_witness:
  "\<exists>c1 c2 out2 in2. circ_write_poll no_input no_output (Suc 0) False 5 7 (AtLeast 2) WaitStart demo_full
       = Some (Pending, WaitParked True, c1)
     \<and> circ_calls no_input no_output 9 [ReadItems (AtLeast 1) 1, ReadItems (AtLeast 1) 3] (c1, [1, 2, 3, 4], [])
       = Some (c2, out2, in2)
     \<and> (can_stop_write c2 (AtLeast 2) \<longrightarrow> 7 \<in> set (drop (length (cwoken c1)) (cwoken c2)))"
proof -
  obtain c1 where c1: "circ_write_poll no_input no_output (Suc 0) False 5 7 (AtLeast 2) WaitStart demo_full
       = Some (Pending, WaitParked True, c1)" "\<not> circ_rx_closed c1"
    using demo_writes by blast
  from circ_writer_woken [OF demo_full_streams _ _ demo_core_streams(2,3) _ c1,
      of 9 "[ReadItems (AtLeast 1) 1, ReadItems (AtLeast 1) 3]"]
  show ?thesis
    using c1 by (simp add: demo_full_start)
qed

theorem circ_close_leaves_reader_parked_witness:
  "\<exists>c1 c2. circ_read_poll no_input no_output (Suc 0) False 5 7 (AtLeast 2) WaitStart demo_core
       = Some (Pending, WaitParked True, c1)
     \<and> circ_close_tx no_input no_output 1 c1 = Some c2
     \<and> can_stop_read c2 (AtLeast 2) \<and> cwoken c2 = cwoken c1 \<and> consumer_slot (ccons c2) = Some 5"
proof -
  obtain c1 where c1: "circ_read_poll no_input no_output (Suc 0) False 5 7 (AtLeast 2) WaitStart demo_core
       = Some (Pending, WaitParked True, c1)"
    using demo_reads by blast
  have "read_resumes (AtLeast 2) WaitStart demo_core"
    by (simp add: read_resumes_def demo_start)
  from read_poll_parks [OF c1 this] have "producer_passive (cprod c1)" "consumer_passive (ccons c1)"
    by (simp_all add: reader_parked_def demo_start)
  then obtain c2 where c2: "circ_close_tx no_input no_output 1 c1 = Some c2"
    by (simp add: circ_close_tx_def Let_def pump_simps set_flag_word)
  from circ_close_leaves_reader_parked [OF _ _ c1 c2] show ?thesis
    using c1 c2 by (auto simp: demo_start)
qed

theorem circ_close_leaves_writer_parked_witness:
  "\<exists>c1. circ_write_poll no_input no_output (Suc 0) False 5 7 (AtLeast 2) WaitStart demo_full
       = Some (Pending, WaitParked True, c1)
     \<and> circ_rx_closed (circ_close_rx c1) \<and> cwoken (circ_close_rx c1) = cwoken c1
     \<and> producer_slot (cprod (circ_close_rx c1)) = Some 5
     \<and> circ_write_poll no_input no_output (Suc 0) False 5 7 (AtLeast 2) (WaitParked True) (circ_close_rx c1)
       = Some (Pending, WaitParked True, circ_close_rx c1)"
proof -
  obtain c1 where c1: "circ_write_poll no_input no_output (Suc 0) False 5 7 (AtLeast 2) WaitStart demo_full
       = Some (Pending, WaitParked True, c1)"
    using demo_writes by blast
  from circ_close_leaves_writer_parked [OF _ _ c1 refl] show ?thesis
    using c1 by (simp add: demo_full_start)
qed

end
