(* ===== verification/Circ_Half.thy ===== *)
theory Circ_Half
  imports Half_Segm Circ_Wake
begin

text \<open>
  The halves of the circular buffer as generic code uses them: the receiving half is a source and the
  sending half a target in the sense of \<open>Io_Half\<close>, when both ends are passive and the reader is
  open. The segment lent last is part of the state, because its drop is what commits. Nobody else acts
  on the buffer here, so a wait that would never be answered is answered with the error of the
  synchronous attempt.
\<close>

text \<open>The slices of a lent segment, as items.\<close>

definition segm_view :: "('a, 'i, 'o) circ \<Rightarrow> recl \<Rightarrow> 'a list list" where
  "segm_view c g = recl_view (cbuf c) g"

lemma segm_view_concat:
  "recl_ok (cbuf c) g \<Longrightarrow> roff g = 0 \<Longrightarrow> concat (segm_view c g) = map the (mem_get (cbuf c) (pieces_addrs (rpieces g)))"
  unfolding segm_view_def by (rule recl_view_concat)

lemma segm_view_nonempty: "recl_ok (cbuf c) g \<Longrightarrow> roff g = 0 \<Longrightarrow> [] \<notin> set (segm_view c g)"
  unfolding segm_view_def by (rule recl_view_nonempty)

section \<open>The halves\<close>

type_synonym ('a, 'i, 'o) circ_half = "('a, 'i, 'o) circ \<times> recl option"

definition circ_is_drained_closing :: "('a, 'i, 'o) circ \<Rightarrow> bool" where
  "circ_is_drained_closing c = (circ_rx_closed c \<or> circ_tx_closed c \<and> circ_data_size c = 0)"

definition circ_is_stuffed_closing :: "('a, 'i, 'o) circ \<Rightarrow> bool" where
  "circ_is_stuffed_closing c = (circ_tx_closed c \<or> \<not> producer_ready c 1)"

text \<open>
  \<open>TrBufferState\<close> for the pipeline, whose \<open>free_size\<close> hands on the data size: it is right only for a
  buffer that is half full.
\<close>

definition pipeline_free_size :: "('a, 'i, 'o) circ \<Rightarrow> usize" where
  "pipeline_free_size c = circ_data_size c"

lemma pipeline_free_size_wrong:
  "circ_ok c \<Longrightarrow> pipeline_free_size c = circ_free_size c \<longleftrightarrow> 2 * circ_data c = length (cbuf c)"
  using circ_sizes(1) [of c]
  by (auto simp: pipeline_free_size_def circ_data_def circ_free_def word_unat_eq_iff)

definition circ_src ::
    "('a, 'e, 'i) input_dev \<Rightarrow> ('a, 'f, 'o) output_dev \<Rightarrow> nat
     \<Rightarrow> (consumer_error, 'a, ('a, 'i, 'o) circ_half) src_half" where
  "circ_src rd wr k =
     \<lparr>sh_tag = consumer_err_tag,
      sh_size = (\<lambda>(c, _). circ_data_size c),
      sh_drained = (\<lambda>(c, _). circ_is_drained_closing c),
      sh_read = (\<lambda>d (c, _).
         case circ_try_read rd wr k d c of
           None \<Rightarrow> (OfRight CUnavailable, c, None)
         | Some (Inl e, c1) \<Rightarrow> (OfRight e, c1, None)
         | Some (Inr g, c1) \<Rightarrow> (OfLeft (segm_view c1 g), c1, Some g)),
      sh_take = (\<lambda>n (c, lent).
         case lent of
           None \<Rightarrow> (c, None)
         | Some g \<Rightarrow>
             (case circ_drop_read rd wr k (g\<lparr>roff := n\<rparr>) c of
                None \<Rightarrow> (c, None) | Some c1 \<Rightarrow> (c1, None)))\<rparr>"

definition circ_tgt ::
    "('a, 'e, 'i) input_dev \<Rightarrow> ('a, 'f, 'o) output_dev \<Rightarrow> nat
     \<Rightarrow> (producer_error, 'a, ('a, 'i, 'o) circ_half) tgt_half" where
  "circ_tgt rd wr k =
     \<lparr>th_tag = producer_err_tag,
      th_stuffed = (\<lambda>(c, _). circ_is_stuffed_closing c),
      th_space = (\<lambda>d (c, _).
         case circ_try_write rd wr k d c of
           None \<Rightarrow> (OfRight PUnavailable, c, None)
         | Some (Inl e, c1) \<Rightarrow> (OfRight e, c1, None)
         | Some (Inr g, c1) \<Rightarrow> (OfLeft (map snd (recl_iter_slices g)), c1, Some g)),
      th_put = (\<lambda>xs (c, lent).
         case lent of
           None \<Rightarrow> (c, None)
         | Some g \<Rightarrow>
             (case recl_move_items_from_buff (cbuf c) g (map Some xs) of
                (m, g', n) \<Rightarrow>
                  (case circ_drop_write rd wr k g' (c\<lparr>cbuf := m\<rparr>) of
                     None \<Rightarrow> (c, None) | Some c1 \<Rightarrow> (c1, None))))\<rparr>"

definition half_ok :: "('a, 'i, 'o) circ_half \<Rightarrow> bool" where
  "half_ok r =
     (circ_ok (fst r) \<and> producer_passive (cprod (fst r)) \<and> consumer_passive (ccons (fst r))
      \<and> \<not> circ_rx_closed (fst r))"

definition half_items :: "('a, 'i, 'o) circ_half \<Rightarrow> 'a list" where
  "half_items r = map the (circ_queue (fst r))"

lemma length_half_items [simp]: "length (half_items r) = circ_data (fst r)"
  by (simp add: half_items_def)

section \<open>The receiving half\<close>

lemma circ_try_read_some:
  "producer_passive (cprod c) \<Longrightarrow> circ_try_read rd wr (Suc (Suc k)) d c
     = Some (case circ_try_read_at c d of Inl e \<Rightarrow> Inl e
         | Inr (start, tk) \<Rightarrow> Inr (create_read_segm c start tk), c)"
  by (auto simp: circ_try_read_def Let_def pump_input_sync.simps
      simp del: read_should_terminate.simps split: sum.split prod.split)

lemma circ_try_write_some:
  "consumer_passive (ccons c) \<Longrightarrow> circ_try_write rd wr (Suc (Suc k)) d c
     = Some (case circ_try_write_at c d of Inl e \<Rightarrow> Inl e
         | Inr (start, tk) \<Rightarrow> Inr (create_write_segm c start tk), c)"
  by (auto simp: circ_try_write_def Let_def pump_output_sync.simps
      simp del: write_should_terminate.simps split: sum.split prod.split)

lemma upper_of: "upper d = unat (max_of d)" "lower d = unat (min_of d)"
  by (cases d; simp add: max_of_def min_of_def)+

text \<open>What a read at the current position lends.\<close>

lemma read_at_cases:
  assumes "circ_try_read_at c d = y"
  obtains (err) e where "y = Inl e" "e \<noteq> CUnavailable" "circ_data c < max 1 (lower d)"
  | (lend) tk where "y = Inr (pos_rp (circ_pos c), tk)" "unat tk = min (upper d) (circ_data c)"
      "0 < circ_data c"
proof -
  have "circ_data_size c = 0 \<longleftrightarrow> circ_data c = 0" "min_of d \<le> circ_data_size c \<longleftrightarrow> lower d \<le> circ_data c"
    by (simp_all add: circ_data_def upper_of word_le_nat_alt unat_eq_zero)
  then show thesis
    using assms err lend unat_min [of "max_of d" "circ_data_size c"]
    by (auto simp: circ_try_read_at_def Let_def circ_data_size_def [symmetric] circ_data_def upper_of
        not_less split: if_splits)
qed


lemma commit_read_half:
  assumes "half_ok (c, g0)" "n \<le> circ_data c"
  obtains c1 where "circ_advance_read rd wr (Suc (Suc k)) (of_nat n) c = Some c1"
    "half_ok (c1, None)" "half_items (c1, None) = drop n (half_items (c, g0))"
    "circ_data c1 = circ_data c - n" "circ_tx_closed c1 = circ_tx_closed c"
proof -
  have h: "circ_ok c" "producer_passive (cprod c)" "consumer_passive (ccons c)" "\<not> circ_rx_closed c"
    using assms(1) by (simp_all add: half_ok_def)
  have u: "unat (of_nat n :: usize) = n"
    using assms(2) unat_of_nat_cap [of n "circ_data_size c"] by (simp add: circ_data_def)
  let ?c1 = "update_pos (circ_read_word (circ_capacity c) (of_nat n)) c"
  obtain ev where ar: "circ_advance_read rd wr (Suc (Suc k)) (of_nat n) c = Some (fire_producer ev ?c1)"
    using advance_read_quiet [of c] h(2) by blast
  have le: "unat (of_nat n :: usize) \<le> circ_data c"
    using assms(2) u by simp
  note cr = commit_read [OF h(1) le refl, unfolded u]
  have "circ_rx_closed (fire_producer ev ?c1) = circ_rx_closed c"
    "circ_tx_closed (fire_producer ev ?c1) = circ_tx_closed c"
    using flags_of_word(1,2) [OF read_commit_flags [OF h(1) le]]
    by (simp_all add: circ_rx_closed_def circ_tx_closed_def update_pos_def atomic_update_def)
  moreover from this have "half_ok (fire_producer ev ?c1, None)"
    using cr(1) h by (simp add: half_ok_def)
  ultimately show thesis
    using that [OF ar] cr by (simp add: half_items_def drop_map)
qed

lemma circ_read_cases:
  assumes "half_ok r" "sh_read (circ_src rd wr (Suc (Suc k))) d r = (x, r')"
  obtains (err) e where "x = OfRight e" "r' = (fst r, None)" "circ_data (fst r) < max 1 (lower d)"
      "e \<noteq> CUnavailable"
  | (lend) g tk where "x = OfLeft (segm_view (fst r) g)" "r' = (fst r, Some g)"
      "g = create_read_segm (fst r) (pos_rp (circ_pos (fst r))) tk"
      "unat tk = min (upper d) (circ_data (fst r))" "0 < circ_data (fst r)"
      "concat (segm_view (fst r) g) = take (unat tk) (half_items r)" "[] \<notin> set (segm_view (fst r) g)"
proof -
  let ?c = "fst r"
  have h: "circ_ok ?c" "producer_passive (cprod ?c)"
    using assms(1) by (simp_all add: half_ok_def)
  note tr = circ_try_read_some [OF h(2), of rd wr k d]
  show thesis
  proof (cases rule: read_at_cases [OF refl, of ?c d])
    case (1 e)
    then show thesis
      using err [of e] assms(2) tr by (cases r) (simp add: circ_src_def)
  next
    case (2 tk)
    define g where "g = create_read_segm ?c (pos_rp (circ_pos ?c)) tk"
    have le: "unat tk \<le> length (cbuf ?c)"
      using 2(2) circ_sizes(1) [OF h(1)] by linarith
    note a = circ_segm_addrs(2,4) [OF h(1) circ_sizes(2) [OF h(1)] le, folded g_def]
    note gok = circ_segm_ok(3) [OF h(1) circ_sizes(2) [OF h(1)] le, folded g_def]
    have "concat (segm_view ?c g) = take (unat tk) (half_items r)"
      using segm_view_concat [OF gok a(2)] 2(2)
      by (simp add: a(1) half_items_def circ_queue_def take_mem_get take_ring_addrs take_map)
    then show thesis
      using lend [OF _ _ g_def 2(2,3)] 2(1) assms(2) tr segm_view_nonempty [OF gok a(2)]
      by (cases r) (simp add: circ_src_def g_def)
  qed
qed

interpretation circ_source: source_half
  "circ_src rd wr (Suc (Suc k)) :: (consumer_error, 'a, ('a, 'i, 'o) circ_half) src_half" half_ok half_items
proof
  fix r r' d x
  assume r: "half_ok r" "sh_read (circ_src rd wr (Suc (Suc k))) d r = (x, r')"
  show "half_ok r' \<and> half_items r' = half_items r"
    by (cases rule: circ_read_cases [OF r]) (use r in \<open>simp_all add: half_ok_def half_items_def\<close>)
  {
    fix ps
    assume ps: "pick_left x = Some ps"
    {
      assume up: "0 < upper d" "lower d \<le> upper d"
      show "[] \<notin> set ps \<and> concat ps \<noteq> [] \<and> length (concat ps) \<le> upper d
        \<and> (\<exists>rest. half_items r = concat ps @ rest \<and> (length (concat ps) < lower d \<longrightarrow> rest = []))"
      proof (cases rule: circ_read_cases [OF r])
        case (2 g tk)
        have cat: "concat ps = take (unat tk) (half_items r)"
          using 2 ps by simp
        then have len: "length (concat ps) = min (upper d) (circ_data (fst r))"
          using 2(4) by (simp only: length_take length_half_items)
        have "half_items r = concat ps @ drop (unat tk) (half_items r)"
          by (simp only: cat append_take_drop_id)
        moreover have "drop (unat tk) (half_items r) = []" if "length (concat ps) < lower d"
          using that 2(4) len up(2) by simp
        moreover have "0 < length (concat ps)" "length (concat ps) \<le> upper d"
          unfolding len using up(1) 2(5) by simp_all
        then have "concat ps \<noteq> []" "length (concat ps) \<le> upper d"
          by (blast dest: length_greater_0_conv [THEN iffD1])+
        moreover have "[] \<notin> set ps"
          using 2(1,7) ps by simp
        ultimately show ?thesis
          by blast
      qed (use ps in simp)
    }
    {
      fix n
      assume n: "n \<le> length (concat ps)"
      show "half_ok (sh_take (circ_src rd wr (Suc (Suc k))) n r')
        \<and> half_items (sh_take (circ_src rd wr (Suc (Suc k))) n r') = drop n (half_items r)"
      proof (cases rule: circ_read_cases [OF r])
        case (2 g tk)
        then have "n \<le> circ_data (fst r)"
          using n ps by simp
        moreover have "half_ok (fst r, snd r)"
          using r(1) by simp
        ultimately obtain c1 where "circ_advance_read rd wr (Suc (Suc k)) (of_nat n) (fst r) = Some c1"
          "half_ok (c1, None)" "half_items (c1, None) = drop n (half_items (fst r, snd r))"
          using commit_read_half [of "fst r" "snd r" n rd wr k] by blast
        then show ?thesis
          using 2 by (simp add: circ_src_def circ_drop_read_def)
      qed (use ps in simp)
    }
  }
next
  fix r r' d x e
  assume r: "half_ok r" "sh_read (circ_src rd wr (Suc (Suc k))) d r = (x, r')"
  show "length (half_items r) < max 1 (lower d)" if "pick_right x = Some e"
    by (cases rule: circ_read_cases [OF r]) (use that in simp_all)
next
  fix r r' x ps
  assume r: "half_ok r" "sh_read (circ_src rd wr (Suc (Suc k))) (AtLeast 1) r = (x, r')"
    and ps: "pick_left x = Some ps"
  show "sh_size (circ_src rd wr (Suc (Suc k))) (sh_take (circ_src rd wr (Suc (Suc k))) 0 r') \<noteq> 0"
  proof (cases rule: circ_read_cases [OF r])
    case (2 g tk)
    have "half_ok (fst r, snd r)"
      using r(1) by simp
    then obtain c1 where "circ_advance_read rd wr (Suc (Suc k)) (of_nat 0) (fst r) = Some c1"
      "circ_data c1 = circ_data (fst r) - 0"
      by (rule commit_read_half [of "fst r" "snd r" 0 rd wr k]) simp
    then show ?thesis
      using 2 by (auto simp: circ_src_def circ_drop_read_def circ_data_def)
  qed (use ps in simp)
next
  fix r :: "('a, 'i, 'o) circ_half"
  assume r: "half_ok r"
  show "unat (sh_size (circ_src rd wr (Suc (Suc k))) r) \<le> length (half_items r)"
    by (cases r) (simp add: circ_src_def circ_data_def)
  assume "sh_drained (circ_src rd wr (Suc (Suc k))) r"
  then have "circ_data (fst r) = 0"
    using r by (cases r) (auto simp: circ_src_def circ_is_drained_closing_def half_ok_def circ_data_def)
  then show "half_items r = []"
    by (metis length_0_conv length_half_items)
qed


text \<open>A buffer whose writer has closed stays closed, so that its reading half is a source with this, too.\<close>

lemma circ_closed_source:
  "source_half (circ_src rd wr (Suc (Suc k)) :: (consumer_error, 'a, ('a, 'i, 'o) circ_half) src_half)
     (\<lambda>r. half_ok r \<and> circ_tx_closed (fst r)) half_items"
proof
  fix r r' x d and ps :: "'a list list"
  assume r: "half_ok r \<and> circ_tx_closed (fst r)" "sh_read (circ_src rd wr (Suc (Suc k))) d r = (x, r')"
  note rr = conjunct1 [OF r(1)] r(2)
  show "(half_ok r' \<and> circ_tx_closed (fst r')) \<and> half_items r' = half_items r"
    using circ_source.read_stays [OF rr]
    by (cases rule: circ_read_cases [OF rr]) (use r(1) in simp_all)
  {
    fix n
    assume n: "pick_left x = Some ps" "n \<le> length (concat ps)"
    have "circ_tx_closed (fst (sh_take (circ_src rd wr (Suc (Suc k))) n r'))"
    proof (cases rule: circ_read_cases [OF rr])
      case (2 g tk)
      have "half_ok (fst r, snd r)" "n \<le> circ_data (fst r)"
        using r(1) n 2 by simp_all
      then obtain c1 where "circ_advance_read rd wr (Suc (Suc k)) (of_nat n) (fst r) = Some c1"
        "circ_tx_closed c1 = circ_tx_closed (fst r)"
        using commit_read_half [of "fst r" "snd r" n rd wr k] by blast
      then show ?thesis
        using 2 r(1) by (simp add: circ_src_def circ_drop_read_def)
    qed (use n in simp)
    then show "(half_ok (sh_take (circ_src rd wr (Suc (Suc k))) n r')
        \<and> circ_tx_closed (fst (sh_take (circ_src rd wr (Suc (Suc k))) n r')))
      \<and> half_items (sh_take (circ_src rd wr (Suc (Suc k))) n r') = drop n (half_items r)"
      using circ_source.take_moves [OF rr n] by blast
  }
qed (use circ_source.read_lends circ_source.read_ends circ_source.read_waits circ_source.size_available
    circ_source.drained_empty in \<open>blast | metis\<close>)+

section \<open>The sending half\<close>

lemma write_at_cases:
  assumes "circ_try_write_at c d = y"
  obtains (err) e where "y = Inl e"
  | (lend) tk where "y = Inr (pos_wp (circ_pos c), tk)" "unat tk = min (upper d) (circ_free c)"
      "0 < circ_free c" "lower d \<le> circ_free c"
proof -
  have "circ_free_size c = 0 \<longleftrightarrow> circ_free c = 0" "min_of d \<le> circ_free_size c \<longleftrightarrow> lower d \<le> circ_free c"
    by (simp_all add: circ_free_def upper_of word_le_nat_alt unat_eq_zero)
  then show thesis
    using assms err lend unat_min [of "max_of d" "circ_free_size c"]
    by (auto simp: circ_try_write_at_def Let_def circ_free_size_def [symmetric] circ_free_def upper_of
        not_less split: if_splits)
qed

lemma circ_space_cases:
  assumes "half_ok w" "th_space (circ_tgt rd wr (Suc (Suc k))) d w = (x, w')"
  obtains (err) e where "x = OfRight e" "w' = (fst w, None)"
  | (lend) g tk where "x = OfLeft (map snd (recl_iter_slices g))" "w' = (fst w, Some g)"
      "g = create_write_segm (fst w) (pos_wp (circ_pos (fst w))) tk" "roff g = 0"
      "unat tk = min (upper d) (circ_free (fst w))" "0 < circ_free (fst w)" "lower d \<le> circ_free (fst w)"
      "pieces_len (rpieces g) = unat tk"
proof -
  let ?c = "fst w"
  have h: "circ_ok ?c" "consumer_passive (ccons ?c)"
    using assms(1) by (simp_all add: half_ok_def)
  note tw = circ_try_write_some [OF h(2), of rd wr k d]
  show thesis
  proof (cases rule: write_at_cases [OF refl, of ?c d])
    case (1 e)
    then show thesis
      using err [of e] assms(2) tw by (cases w) (simp add: circ_tgt_def)
  next
    case (2 tk)
    define g where "g = create_write_segm ?c (pos_wp (circ_pos ?c)) tk"
    have le: "unat tk \<le> length (cbuf ?c)"
      using 2(2) circ_sizes(1) [OF h(1)] by linarith
    note a = circ_segm_addrs(3) [OF h(1) circ_sizes(3) [OF h(1)] le, folded g_def]
    have "pieces_len (rpieces g) = unat tk"
      using circ_segm_ok(2) [OF h(1) circ_sizes(3) [OF h(1)] le, folded g_def] a
      by (simp add: recl_least_count_def)
    then show thesis
      using lend [OF _ _ g_def a 2(2-4)] 2(1) assms(2) tw by (cases w) (simp add: circ_tgt_def g_def)
  qed
qed

lemma commit_write_half:
  assumes "half_ok (c, g0)" "g = create_write_segm c (pos_wp (circ_pos c)) tk" "unat tk \<le> circ_free c"
    "length xs \<le> unat tk"
  obtains m c1 where "recl_move_items_from_buff (cbuf c) g (map Some xs) = (m, g\<lparr>roff := length xs\<rparr>, length xs)"
    "circ_advance_write rd wr (Suc (Suc k)) (of_nat (length xs)) (c\<lparr>cbuf := m\<rparr>) = Some c1"
    "half_ok (c1, None)" "half_items (c1, None) = half_items (c, g0) @ xs"
proof -
  have h: "circ_ok c" "producer_passive (cprod c)" "consumer_passive (ccons c)" "\<not> circ_rx_closed c"
    using assms(1) by (simp_all add: half_ok_def)
  let ?n = "length xs"
  have u: "unat (of_nat ?n :: usize) = ?n"
    using assms(4) unat_of_nat_cap [of ?n tk] by simp
  have le: "unat tk \<le> length (cbuf c)"
    using assms(3) circ_sizes(1) [OF h(1)] by linarith
  note a = circ_segm_addrs(1,3) [OF h(1) circ_sizes(3) [OF h(1)] le, folded assms(2)]
  note gok = circ_segm_ok(1,2) [OF h(1) circ_sizes(3) [OF h(1)] le, folded assms(2)]
  obtain m g' n where mv: "recl_move_items_from_buff (cbuf c) g (map Some xs) = (m, g', n)"
    by (metis surj_pair)
  have res: "n = ?n \<and> g' = g\<lparr>roff := ?n\<rparr>
      \<and> m = mem_put (cbuf c) (ring_addrs (length (cbuf c)) (circ_wp c) ?n) (map Some xs)"
  proof -
    have "recl_move_from (cbuf c) g (map Some xs) 0 = (m, g', n)"
      using mv by (simp add: recl_move_items_from_buff_def)
    moreover have "?n = min (recl_least_count g) (length (map Some xs) - 0)"
      using assms(4) gok(2) by simp
    ultimately have
      "n = ?n \<and> g' = g\<lparr>roff := ?n\<rparr> \<and> m = mem_put (cbuf c) (take ?n (pieces_addrs (rpieces g))) (map Some xs)"
      using recl_move_from_spec [OF gok(1)] a(2) by fastforce
    then show ?thesis
      using assms(4) by (simp add: a(1) take_ring_addrs)
  qed
  let ?c2 = "c\<lparr>cbuf := m\<rparr>"
  let ?c1 = "update_pos (circ_write_word (circ_capacity ?c2) (of_nat ?n)) ?c2"
  have free: "?n \<le> circ_free c"
    using assms(3,4) by linarith
  have m: "m = mem_put (cbuf c) (ring_addrs (length (cbuf c)) (circ_wp c) ?n) (map Some xs)"
    using res by simp
  note pc = put_commit [OF h(1) free m, of ?c2, OF _ _ refl]
  have "consumer_passive (ccons ?c2) \<or> \<not> producer_passive (cprod ?c2)"
    using h(3) by simp
  from advance_write_quiet [OF this, of rd wr k "of_nat ?n"] obtain ev where
    aw: "circ_advance_write rd wr (Suc (Suc k)) (of_nat ?n) ?c2 = Some (fire_consumer ev ?c1)"
    by blast
  have "length m = length (cbuf c)"
    by (simp add: m)
  then have same: "circ_capacity ?c2 = circ_capacity c"
    by (simp add: circ_capacity_def)
  have "circ_rx_closed (fire_consumer ev ?c1) = circ_rx_closed c"
    using flags_of_word(2) [OF write_commit_flags [OF h(1), of "of_nat ?n"]] u free
    by (simp add: circ_rx_closed_def update_pos_def atomic_update_def same)
  then have "half_ok (fire_consumer ev ?c1, None)"
    using pc(1) h by (simp add: half_ok_def)
  then show thesis
    using that [OF _ aw] mv res pc(2) by (simp add: half_items_def comp_def)
qed

interpretation circ_target: target_half
  "circ_tgt rd wr (Suc (Suc k)) :: (producer_error, 'a, ('a, 'i, 'o) circ_half) tgt_half" half_ok half_items
proof
  fix w w' d x
  assume w: "half_ok w" "th_space (circ_tgt rd wr (Suc (Suc k))) d w = (x, w')"
  show "half_ok w' \<and> half_items w' = half_items w"
    by (cases rule: circ_space_cases [OF w]) (use w in \<open>simp_all add: half_ok_def half_items_def\<close>)
  fix ns
  assume ns: "pick_left x = Some ns"
  {
    assume up: "0 < upper d" "lower d \<le> upper d"
    show "piece_ok ns \<and> 0 < sum_list ns \<and> lower d \<le> sum_list ns"
    proof (cases rule: circ_space_cases [OF w])
      case (2 g tk)
      then have "ns = map snd (recl_iter_slices g)"
        using ns by simp
      then show ?thesis
        using piece_sizes [OF 2(4)] 2(5-8) up by (simp del: sum_list_eq_0_iff)
    qed (use ns in simp)
  }
  {
    fix xs :: "'a list"
    assume n: "length xs \<le> sum_list ns"
    show "half_ok (th_put (circ_tgt rd wr (Suc (Suc k))) xs w')
      \<and> half_items (th_put (circ_tgt rd wr (Suc (Suc k))) xs w') = half_items w @ xs"
    proof (cases rule: circ_space_cases [OF w])
      case (2 g tk)
      have "half_ok (fst w, snd w)" "length xs \<le> unat tk" "unat tk \<le> circ_free (fst w)"
        using w(1) n ns 2(1,5,8) piece_sizes(2) [OF 2(4)] by simp_all
      then obtain m c1 where
        "recl_move_items_from_buff (cbuf (fst w)) g (map Some xs) = (m, g\<lparr>roff := length xs\<rparr>, length xs)"
        "circ_advance_write rd wr (Suc (Suc k)) (of_nat (length xs)) ((fst w)\<lparr>cbuf := m\<rparr>) = Some c1"
        "half_ok (c1, None)" "half_items (c1, None) = half_items (fst w, snd w) @ xs"
        using commit_write_half [OF _ 2(3), where rd = rd and wr = wr and k = k] by metis
      then show ?thesis
        using 2(2) by (simp add: circ_tgt_def circ_drop_write_def)
    qed (use ns in simp)
  }
qed

end
