(* ===== verification/Pipe_Join.thy ===== *)
theory Pipe_Join
  imports Circ_Half
begin

text \<open>
  The pipe that moves everything from a reading half into a writing half
  (\<open>crates/abs_buff/src/pipelining/join.rs\<close>), generic in the halves; its instance here joins the
  halves of circular buffers.
\<close>

declare read_should_terminate.simps [simp del] write_should_terminate.simps [simp del]

section \<open>The pipe\<close>

datatype ('re, 'we) join_result =
    JoinTxErr nat 'we | JoinRxErr nat 're | TxBlocked nat | RxDrained nat | SizeLimit nat | NoOps

definition usize_max :: nat where
  "usize_max = 2 ^ 64 - 1"

fun drop_src :: "nat \<Rightarrow> 'a list list \<Rightarrow> 'a list list" where
  "drop_src m [] = []"
| "drop_src m (p # ps) = (if m < length p then drop m p # ps else ps)"

lemma drop_src:
  "m \<le> length (first_src ps) \<Longrightarrow> concat (drop_src m ps) = drop m (concat ps)"
  "[] \<notin> set ps \<Longrightarrow> [] \<notin> set (drop_src m ps)"
  by (cases ps; auto)+

text \<open>
  The inner loop, over one lent segment whose remaining pieces are \<open>ps\<close>; \<open>n\<close> of its items are moved
  already, \<open>c\<close> items in all. An error of the target that is worth a retry only goes round again.
\<close>

fun join_segm ::
    "('we, 'a, 'w) tgt_half \<Rightarrow> nat \<Rightarrow> 'a list list \<Rightarrow> nat \<Rightarrow> nat \<Rightarrow> 'w
     \<Rightarrow> ('we option \<times> nat \<times> nat \<times> 'w) run option" where
  "join_segm T 0 ps n c w = None"
| "join_segm T (Suc k) ps n c w =
     (let cap = length (concat ps)
      in if cap = 0 then
           (if c = 0 then Some (Panic ''read_async returns an empty segment.'')
            else Some (Done (None, n, c, w)))
         else
           (case th_space T (LessThan (of_nat cap)) w of
              (x, w1) \<Rightarrow>
                (let (m, w2) = (case pick_left x of
                        None \<Rightarrow> (0, w1)
                      | Some ns \<Rightarrow>
                          (let m = min (length (first_src ps)) (first_tgt ns)
                           in (m, th_put T (take m (first_src ps)) w1)))
                 in case pick_right x of
                      Some e \<Rightarrow>
                        if write_should_terminate (th_tag T e) then Some (Done (Some e, n + m, c + m, w2))
                        else join_segm T k (drop_src m ps) (n + m) (c + m) w2
                    | None \<Rightarrow> join_segm T k (drop_src m ps) (n + m) (c + m) w2)))"

fun pipe_loop ::
    "('re, 'a, 'r) src_half \<Rightarrow> ('we, 'a, 'w) tgt_half \<Rightarrow> nat \<Rightarrow> nat \<Rightarrow> 'r \<Rightarrow> 'w
     \<Rightarrow> (('re, 'we) join_result \<times> 'r \<times> 'w) run option" where
  "pipe_loop S T 0 c r w = None"
| "pipe_loop S T (Suc k) c r w =
     (if c = usize_max then Some (Done (SizeLimit c, r, w))
      else if th_stuffed T w then Some (Done (TxBlocked c, r, w))
      else if sh_drained S r then Some (Done (RxDrained c, r, w))
      else
        (case sh_read S (LessThan (of_nat (usize_max - c))) r of
           (x, r1) \<Rightarrow>
             (case (case pick_left x of
                      None \<Rightarrow> Some (Done (None, c, r1, w))
                    | Some ps \<Rightarrow>
                        (case join_segm T k ps 0 c w of
                           None \<Rightarrow> None
                         | Some (Panic m) \<Rightarrow> Some (Panic m)
                         | Some (Done (e, n, c1, w1)) \<Rightarrow> Some (Done (e, c1, sh_take S n r1, w1)))) of
                None \<Rightarrow> None
              | Some (Panic m) \<Rightarrow> Some (Panic m)
              | Some (Done (Some e, c1, r2, w1)) \<Rightarrow> Some (Done (JoinTxErr c1 e, r2, w1))
              | Some (Done (None, c1, r2, w1)) \<Rightarrow>
                  (case pick_right x of
                     Some e \<Rightarrow>
                       if read_should_terminate (sh_tag S e) then Some (Done (JoinRxErr c1 e, r2, w1))
                       else pipe_loop S T k c1 r2 w1
                   | None \<Rightarrow> pipe_loop S T k c1 r2 w1))))"

text \<open>\<open>pipe_async_\<close>, for items of the given size.\<close>

definition pipe_join ::
    "('re, 'a, 'r) src_half \<Rightarrow> ('we, 'a, 'w) tgt_half \<Rightarrow> nat \<Rightarrow> nat \<Rightarrow> 'r \<Rightarrow> 'w
     \<Rightarrow> (('re, 'we) join_result \<times> 'r \<times> 'w) run option" where
  "pipe_join S T item_size k r w =
     (if item_size = 0 then Some (Done (NoOps, r, w)) else pipe_loop S T k 0 r w)"

fun join_count :: "('re, 'we) join_result \<Rightarrow> nat" where
  "join_count (JoinTxErr c e) = c"
| "join_count (JoinRxErr c e) = c"
| "join_count (TxBlocked c) = c"
| "join_count (RxDrained c) = c"
| "join_count (SizeLimit c) = c"
| "join_count NoOps = 0"

section \<open>What the pipe moves\<close>

text \<open>
  What the termination of the loops rests on, of the two sides and whoever is behind them: an answer to
  \<open>..=u\<close> that lends nothing either says to stop or lowers a measure of the half. A half whose other side
  never shows up does not have one, and a pipe over it waits for ever.
\<close>

definition src_answers :: "('re, 'a, 'r) src_half \<Rightarrow> ('r \<Rightarrow> bool) \<Rightarrow> ('r \<Rightarrow> nat) \<Rightarrow> bool" where
  "src_answers S rok \<mu> =
     (\<forall>u r x r' e. rok r \<longrightarrow> sh_read S (LessThan u) r = (x, r') \<longrightarrow> pick_left x = None \<longrightarrow> pick_right x = Some e \<longrightarrow>
        read_should_terminate (sh_tag S e) \<or> \<mu> r' < \<mu> r)"

definition tgt_answers :: "('we, 'a, 'w) tgt_half \<Rightarrow> ('w \<Rightarrow> bool) \<Rightarrow> ('w \<Rightarrow> nat) \<Rightarrow> bool" where
  "tgt_answers T wok \<nu> =
     (\<forall>u w x w' e. wok w \<longrightarrow> th_space T (LessThan u) w = (x, w') \<longrightarrow> pick_left x = None \<longrightarrow> pick_right x = Some e \<longrightarrow>
        write_should_terminate (th_tag T e) \<or> \<nu> w' < \<nu> w)"

text \<open>More fuel does not change what the inner loop returns.\<close>

lemma join_segm_mono: "join_segm T k ps n c w = Some y \<Longrightarrow> k \<le> k' \<Longrightarrow> join_segm T k' ps n c w = Some y"
proof (induction k arbitrary: k' ps n c w)
  case (Suc k)
  then obtain k'' where k': "k' = Suc k''" "k \<le> k''"
    by (metis Suc_le_D Suc_le_mono)
  show ?case
    using Suc.prems(1) Suc.IH [OF _ k'(2)]
    by (auto simp: k'(1) Let_def simp del: concat_eq_Nil_conv length_concat split: if_splits prod.splits option.splits)
qed simp

lemma pipe_loop_mono: "pipe_loop S T k c r w = Some y \<Longrightarrow> k \<le> k' \<Longrightarrow> pipe_loop S T k' c r w = Some y"
proof (induction k arbitrary: k' c r w)
  case (Suc k)
  then obtain k'' where k': "k' = Suc k''" "k \<le> k''"
    by (metis Suc_le_D Suc_le_mono)
  obtain x r1 where rd: "sh_read S (LessThan (of_nat (usize_max - c))) r = (x, r1)"
    by fastforce
  have segm: "join_segm T k'' ps 0 c w = join_segm T k ps 0 c w" if "join_segm T k ps 0 c w \<noteq> None" for ps
    using that join_segm_mono [OF _ k'(2)] by fastforce
  show ?case
    using Suc.prems(1) Suc.IH [OF _ k'(2)] segm
    by (fastforce simp: k'(1) rd split: if_splits option.splits run.splits prod.splits)
qed simp

locale half_pair = source_half S rok outs + target_half T wok ins
  for S :: "('re, 'a, 'r) src_half" and rok :: "'r \<Rightarrow> bool" and outs :: "'r \<Rightarrow> 'a list"
    and T :: "('we, 'a, 'w) tgt_half" and wok :: "'w \<Rightarrow> bool" and ins :: "'w \<Rightarrow> 'a list"
begin

lemma join_segm_spec:
  assumes "wok w" "[] \<notin> set ps" "length (concat ps) \<le> usize_max" "concat ps \<noteq> [] \<or> c \<noteq> 0"
    "join_segm T k ps n c w = Some y"
  shows "\<exists>e m w'. y = Done (e, n + m, c + m, w') \<and> wok w' \<and> ins w' = ins w @ take m (concat ps)
    \<and> m \<le> length (concat ps) \<and> (e = None \<longrightarrow> m = length (concat ps))
    \<and> (\<forall>e'. e = Some e' \<longrightarrow> write_should_terminate (th_tag T e'))"
  using assms
proof (induction k arbitrary: ps n c w)
  case 0
  then show ?case by simp
next
  case (Suc k)
  show ?case
  proof (cases "concat ps = []")
    case True
    then have "y = Done (None, n, c, w)"
      using Suc.prems(4,5) by (simp del: concat_eq_Nil_conv length_concat)
    then show ?thesis
      using True Suc.prems(1) by (intro exI [of _ None] exI [of _ 0] exI [of _ w]) auto
  next
    case False
    define d where "d = LessThan (of_nat (length (concat ps)) :: usize)"
    have lt: "length (concat ps) < 2 ^ 64"
      using Suc.prems(3) by (simp add: usize_max_def del: length_concat)
    have up: "upper d = length (concat ps)" "lower d = 0"
      using lt by (simp_all add: d_def unat_of_nat del: length_concat)
    then have pos: "0 < upper d" "lower d \<le> upper d"
      using False by (simp_all only: up length_greater_0_conv zero_le not_False_eq_True)
    obtain x w1 where sp: "th_space T d w = (x, w1)"
      by fastforce
    note st = space_stays [OF Suc.prems(1) sp]
    define m where "m = (case pick_left x of None \<Rightarrow> 0 | Some ns \<Rightarrow> min (length (first_src ps)) (first_tgt ns))"
    define w2 where "w2 = (case pick_left x of None \<Rightarrow> w1 | Some ns \<Rightarrow> th_put T (take m (first_src ps)) w1)"
    have m_w2: "pick_left x = None \<Longrightarrow> m = 0 \<and> w2 = w1"
      "pick_left x = Some ns \<Longrightarrow> m = min (length (first_src ps)) (first_tgt ns)
         \<and> w2 = th_put T (take (min (length (first_src ps)) (first_tgt ns)) (first_src ps)) w1" for ns
      by (simp_all add: m_def w2_def)
    have ml: "m \<le> length (first_src ps)"
      by (simp add: m_def split: option.split)
    then have mc: "m \<le> length (concat ps)"
      using first_src_bounds(1) [of ps] by linarith
    have tk: "take m (first_src ps) = take m (concat ps)"
    proof -
      have "take m (concat ps) = take m (take (length (first_src ps)) (concat ps))"
        using ml by (simp add: min_absorb1)
      then show ?thesis
        by (simp only: first_src_bounds(2))
    qed
    have w2: "wok w2 \<and> ins w2 = ins w @ take m (concat ps)"
    proof (cases "pick_left x")
      case None
      then show ?thesis
        using st by (simp add: w2_def m_def)
    next
      case (Some ns)
      have "length (take m (first_src ps)) \<le> sum_list ns"
        using first_tgt_bounds(1) [of ns] Some by (simp add: m_def)
      then show ?thesis
        using put_appends [OF Suc.prems(1) sp Some] Some by (simp add: w2_def tk)
    qed
    have m0: "m \<noteq> 0 \<or> pick_right x \<noteq> None"
    proof (cases "pick_left x")
      case None
      then show ?thesis
        by (cases x) auto
    next
      case (Some ns)
      then show ?thesis
        using space_lends [OF Suc.prems(1) sp Some pos] first_tgt_bounds(2) [of ns]
          first_src_bounds(3) [OF Suc.prems(2) False] by (auto simp: m_def)
    qed
    have step: "(case pick_right x of
          Some e \<Rightarrow>
            if write_should_terminate (th_tag T e) then Some (Done (Some e, n + m, c + m, w2))
            else join_segm T k (drop_src m ps) (n + m) (c + m) w2
        | None \<Rightarrow> join_segm T k (drop_src m ps) (n + m) (c + m) w2) = Some y"
      using Suc.prems(5) False sp
      by (cases "pick_left x"; cases "pick_right x")
        (simp_all add: d_def [symmetric] m_w2 Let_def del: concat_eq_Nil_conv length_concat split: if_splits)
    show ?thesis
    proof (cases "\<exists>e. pick_right x = Some e \<and> write_should_terminate (th_tag T e)")
      case True
      then obtain e where e: "pick_right x = Some e" "write_should_terminate (th_tag T e)"
        by blast
      then have "y = Done (Some e, n + m, c + m, w2)"
        using step by simp
      then show ?thesis
        using w2 mc e(2) by blast
    next
      case go: False
      have ds: "concat (drop_src m ps) = drop m (concat ps)" "[] \<notin> set (drop_src m ps)"
        using drop_src(1) [OF ml] drop_src(2) [OF Suc.prems(2), of m] by simp_all
      have "join_segm T k (drop_src m ps) (n + m) (c + m) w2 = Some y"
        using step go by (auto split: option.splits if_splits)
      moreover have "concat (drop_src m ps) \<noteq> [] \<or> c + m \<noteq> 0"
        using ds(1) False by (cases "m = 0") (simp_all del: concat_eq_Nil_conv)
      moreover have "length (concat (drop_src m ps)) \<le> usize_max"
        using Suc.prems(3) by (simp only: ds(1) length_drop)
      ultimately obtain e j w' where
        *: "y = Done (e, n + m + j, c + m + j, w')" "wok w'" "ins w' = ins w2 @ take j (drop m (concat ps))"
          "j \<le> length (drop m (concat ps))" "e = None \<longrightarrow> j = length (drop m (concat ps))"
          "\<forall>e'. e = Some e' \<longrightarrow> write_should_terminate (th_tag T e')"
        using Suc.IH [of w2 "drop_src m ps" "c + m" "n + m"] w2 ds by auto
      have "ins w' = ins w @ take (m + j) (concat ps)"
        using *(3) w2 by (simp add: take_add)
      then show ?thesis
        using *(1,2,4-6) mc
        by (intro exI [of _ e] exI [of _ "m + j"] exI [of _ w']) (simp del: length_concat)
    qed
  qed
qed

text \<open>What the result says of the state it is returned in.\<close>

definition join_reason :: "('re, 'we) join_result \<Rightarrow> 'r \<Rightarrow> 'w \<Rightarrow> bool" where
  "join_reason res r w =
     (case res of
        JoinTxErr c e \<Rightarrow> write_should_terminate (th_tag T e)
      | JoinRxErr c e \<Rightarrow> read_should_terminate (sh_tag S e)
      | TxBlocked c \<Rightarrow> th_stuffed T w
      | RxDrained c \<Rightarrow> outs r = []
      | SizeLimit c \<Rightarrow> c = usize_max
      | NoOps \<Rightarrow> False)"

lemma pipe_loop_spec:
  assumes "rok r" "wok w" "c \<le> usize_max" "pipe_loop S T k c r w = Some y"
  shows "\<exists>res m r' w'. y = Done (res, r', w') \<and> join_count res = c + m \<and> c + m \<le> usize_max
    \<and> m \<le> length (outs r) \<and> outs r' = drop m (outs r) \<and> ins w' = ins w @ take m (outs r)
    \<and> join_reason res r' w'"
  using assms
proof (induction k arbitrary: c r w)
  case 0
  then show ?case by simp
next
  case (Suc k)
  show ?case
  proof (cases "c = usize_max \<or> th_stuffed T w \<or> sh_drained S r")
    case True
    then obtain res where "y = Done (res, r, w)" "join_count res = c" "join_reason res r w"
      using Suc.prems(4) drained_empty [OF Suc.prems(1)]
      by (auto simp: join_reason_def split: if_splits)
    then show ?thesis
      using Suc.prems(3) by (intro exI [of _ res] exI [of _ 0] exI [of _ r] exI [of _ w]) simp
  next
    case False
    define d where "d = LessThan (of_nat (usize_max - c) :: usize)"
    have "usize_max - c < 2 ^ 64"
      by (simp add: usize_max_def)
    then have up: "upper d = usize_max - c" "lower d = 0"
      by (simp_all add: d_def unat_of_nat)
    have pos: "0 < upper d" "lower d \<le> upper d"
      using False Suc.prems(3) up by auto
    obtain x r1 where rd: "sh_read S d r = (x, r1)"
      by fastforce
    note st = read_stays [OF Suc.prems(1) rd]
    define z where "z = (case pick_left x of
          None \<Rightarrow> Some (Done (None, c, r1, w))
        | Some ps \<Rightarrow>
            (case join_segm T k ps 0 c w of
               None \<Rightarrow> None
             | Some (Panic m) \<Rightarrow> Some (Panic m)
             | Some (Done (e, n, c1, w1)) \<Rightarrow> Some (Done (e, c1, sh_take S n r1, w1))))"
    have step: "(case z of
          None \<Rightarrow> None
        | Some (Panic m) \<Rightarrow> Some (Panic m)
        | Some (Done (Some e, c1, r2, w1)) \<Rightarrow> Some (Done (JoinTxErr c1 e, r2, w1))
        | Some (Done (None, c1, r2, w1)) \<Rightarrow>
            (case pick_right x of
               Some e \<Rightarrow>
                 if read_should_terminate (sh_tag S e) then Some (Done (JoinRxErr c1 e, r2, w1))
                 else pipe_loop S T k c1 r2 w1
             | None \<Rightarrow> pipe_loop S T k c1 r2 w1)) = Some y"
      using Suc.prems(4) False rd by (simp add: d_def [symmetric] z_def)
    then obtain z' where z': "z = Some z'"
      by (cases z) simp_all
    have "\<exists>e m r2 w1. z' = Done (e, c + m, r2, w1) \<and> rok r2 \<and> wok w1 \<and> outs r2 = drop m (outs r)
        \<and> ins w1 = ins w @ take m (outs r) \<and> m \<le> length (outs r) \<and> c + m \<le> usize_max
        \<and> (\<forall>e'. e = Some e' \<longrightarrow> write_should_terminate (th_tag T e'))"
    proof (cases "pick_left x")
      case None
      then show ?thesis
        using z' st Suc.prems(2,3) by (auto simp: z_def intro!: exI [of _ 0])
    next
      case (Some ps)
      from read_lends [OF Suc.prems(1) rd Some pos] obtain rest where
        l: "[] \<notin> set ps" "concat ps \<noteq> []" "length (concat ps) \<le> usize_max - c" "outs r = concat ps @ rest"
        using up by auto
      obtain y1 where y1: "join_segm T k ps 0 c w = Some y1"
        using z' Some by (auto simp: z_def split: option.splits)
      have "length (concat ps) \<le> usize_max"
        using l(3) by linarith
      from join_segm_spec [OF Suc.prems(2) l(1) this _ y1] l(2) obtain e m w1 where
        j: "y1 = Done (e, m, c + m, w1)" "wok w1" "ins w1 = ins w @ take m (concat ps)"
          "m \<le> length (concat ps)" "\<forall>e'. e = Some e' \<longrightarrow> write_should_terminate (th_tag T e')"
        by (auto simp del: concat_eq_Nil_conv length_concat)
      have "z' = Done (e, c + m, sh_take S m r1, w1)"
        using z' Some y1 j(1) by (simp add: z_def)
      moreover have "take m (outs r) = take m (concat ps)"
        using j(4) by (simp add: l(4) del: length_concat)
      moreover have "m \<le> length (outs r)" "c + m \<le> usize_max"
        using j(4) l(3,4) Suc.prems(3) by (simp_all del: length_concat)
      ultimately show ?thesis
        using take_moves [OF Suc.prems(1) rd Some j(4)] j(2,3,5) by metis
    qed
    then obtain e m r2 w1 where
      *: "z' = Done (e, c + m, r2, w1)" "rok r2" "wok w1" "outs r2 = drop m (outs r)"
        "ins w1 = ins w @ take m (outs r)" "m \<le> length (outs r)" "c + m \<le> usize_max"
        "\<forall>e'. e = Some e' \<longrightarrow> write_should_terminate (th_tag T e')"
      by blast
    show ?thesis
    proof (cases "\<exists>res. y = Done (res, r2, w1) \<and> join_count res = c + m \<and> join_reason res r2 w1")
      case True
      then show ?thesis
        using * by blast
    next
      case go: False
      then have "pipe_loop S T k (c + m) r2 w1 = Some y"
        using step z' *(1,8)
        by (auto simp: join_reason_def
            split: option.splits if_splits)
      from Suc.IH [OF *(2,3,7) this] obtain res j r' w' where
        j: "y = Done (res, r', w')" "join_count res = c + m + j" "c + m + j \<le> usize_max"
          "j \<le> length (outs r2)" "outs r' = drop j (outs r2)" "ins w' = ins w1 @ take j (outs r2)"
          "join_reason res r' w'"
        by blast
      then show ?thesis
        using *(4-6)
        by (intro exI [of _ res] exI [of _ "m + j"] exI [of _ r'] exI [of _ w'])
          (simp add: take_add add.assoc add.commute [of j m])
    qed
  qed
qed

text \<open>
  The loops end when both sides answer finally: they may refuse without saying that they stop, and change
  their state by that, but not for ever.
\<close>

lemma join_segm_ends:
  assumes "tgt_answers T wok \<nu>" "wok w" "[] \<notin> set ps" "length (concat ps) \<le> usize_max"
  shows "\<exists>K. \<forall>k\<ge>K. join_segm T k ps n c w \<noteq> None"
  using assms(2-)
proof (induction "(length (concat ps), \<nu> w)" arbitrary: ps n c w
    rule: wf_induct_rule [OF wf_lex_prod [OF wf_less_than wf_less_than]])
  case 1
  show ?case
  proof (cases "concat ps = []")
    case True
    then have "join_segm T k ps n c w \<noteq> None" if "1 \<le> k" for k
      using that by (cases k) (simp_all del: concat_eq_Nil_conv)
    then show ?thesis
      by blast
  next
    case False
    define d where "d = LessThan (of_nat (length (concat ps)) :: usize)"
    have "length (concat ps) < 2 ^ 64"
      using 1(4) by (simp add: usize_max_def del: length_concat)
    then have up: "upper d = length (concat ps)" "lower d = 0"
      by (simp_all add: d_def unat_of_nat del: length_concat)
    then have pos: "0 < upper d" "lower d \<le> upper d"
      using False by (simp_all only: up length_greater_0_conv zero_le not_False_eq_True)
    obtain x w1 where sp: "th_space T d w = (x, w1)"
      by fastforce
    define m where "m = (case pick_left x of None \<Rightarrow> 0 | Some ns \<Rightarrow> min (length (first_src ps)) (first_tgt ns))"
    define w2 where "w2 = (case pick_left x of None \<Rightarrow> w1 | Some ns \<Rightarrow> th_put T (take m (first_src ps)) w1)"
    have ml: "m \<le> length (first_src ps)"
      by (simp add: m_def split: option.split)
    have ds: "concat (drop_src m ps) = drop m (concat ps)" "[] \<notin> set (drop_src m ps)"
      using drop_src(1) [OF ml] drop_src(2) [OF 1(3), of m] by simp_all
    show ?thesis
    proof (cases "\<exists>e. pick_right x = Some e \<and> write_should_terminate (th_tag T e)")
      case True
      then have "join_segm T (Suc k) ps n c w \<noteq> None" for k
        using False sp by (cases "pick_left x")
          (auto simp: d_def [symmetric] Let_def simp del: concat_eq_Nil_conv length_concat)
      then show ?thesis
        by (metis Suc_le_D)
    next
      case go: False
      have less: "((length (concat (drop_src m ps)), \<nu> w2), length (concat ps), \<nu> w) \<in> less_than <*lex*> less_than"
      proof (cases "pick_left x")
        case None
        then obtain e where "pick_right x = Some e"
          by (cases x) simp_all
        then have "\<nu> w1 < \<nu> w"
          using assms(1) [unfolded tgt_answers_def, rule_format, OF 1(2) sp [unfolded d_def] None] go by blast
        moreover have "m = 0" "w2 = w1"
          using None by (simp_all add: m_def w2_def)
        moreover have "concat (drop_src m ps) = concat ps"
          using ds(1) \<open>m = 0\<close> by (simp only: drop_0)
        ultimately show ?thesis
          by (simp only: in_lex_prod less_than_iff simp_thms)
      next
        case (Some ns)
        then have "0 < m"
          using space_lends [OF 1(2) sp Some pos] first_tgt_bounds(2) [of ns]
            first_src_bounds(3) [OF 1(3) False] by (auto simp: m_def)
        then show ?thesis
          using False by (simp add: ds(1) del: length_concat concat_eq_Nil_conv)
      qed
      have "wok w2"
      proof (cases "pick_left x")
        case None
        then show ?thesis
          using space_stays [OF 1(2) sp] by (simp add: w2_def)
      next
        case (Some ns)
        have "length (take m (first_src ps)) \<le> sum_list ns"
          using first_tgt_bounds(1) [of ns] Some by (simp add: m_def)
        then show ?thesis
          using put_appends [OF 1(2) sp Some] Some by (simp add: w2_def)
      qed
      moreover have "length (concat (drop_src m ps)) \<le> usize_max"
        using 1(4) unfolding ds(1) length_drop by linarith
      ultimately obtain K where K: "\<forall>k\<ge>K. join_segm T k (drop_src m ps) (n + m) (c + m) w2 \<noteq> None"
        using 1(1) [OF less _ ds(2)] by blast
      have "join_segm T (Suc k) ps n c w = join_segm T k (drop_src m ps) (n + m) (c + m) w2" for k
        using False sp go by (cases "pick_left x"; cases "pick_right x")
          (auto simp: d_def [symmetric] m_def w2_def Let_def simp del: concat_eq_Nil_conv length_concat)
      then have "join_segm T k ps n c w \<noteq> None" if "Suc K \<le> k" for k
        using that K by (metis Suc_le_D Suc_le_mono)
      then show ?thesis
        by blast
    qed
  qed
qed

lemma pipe_loop_ends:
  assumes "tgt_answers T wok \<nu>" "src_answers S rok \<mu>" "rok r" "wok w" "c \<le> usize_max"
  shows "\<exists>K. \<forall>k\<ge>K. pipe_loop S T k c r w \<noteq> None"
  using assms(3-)
proof (induction "(length (outs r), \<mu> r)" arbitrary: c r w
    rule: wf_induct_rule [OF wf_lex_prod [OF wf_less_than wf_less_than]])
  case 1
  show ?case
  proof (cases "c = usize_max \<or> th_stuffed T w \<or> sh_drained S r")
    case True
    then have "pipe_loop S T (Suc k) c r w \<noteq> None" for k
      by auto
    then show ?thesis
      by (metis Suc_le_D)
  next
    case False
    define d where "d = LessThan (of_nat (usize_max - c) :: usize)"
    have "usize_max - c < 2 ^ 64"
      by (simp add: usize_max_def)
    then have up: "upper d = usize_max - c" "lower d = 0"
      by (simp_all add: d_def unat_of_nat)
    have pos: "0 < upper d" "lower d \<le> upper d"
      using False 1(4) up by auto
    obtain x r1 where rd: "sh_read S d r = (x, r1)"
      by fastforce
    note st = read_stays [OF 1(2) rd]
    show ?thesis
    proof (cases "pick_left x")
      case None
      then obtain e where e: "pick_right x = Some e"
        by (cases x) simp_all
      show ?thesis
      proof (cases "read_should_terminate (sh_tag S e)")
        case True
        then have "pipe_loop S T (Suc k) c r w \<noteq> None" for k
          using False rd None e by (simp add: d_def [symmetric])
        then show ?thesis
          by (metis Suc_le_D)
      next
        case go: False
        then have "\<mu> r1 < \<mu> r"
          using assms(2) [unfolded src_answers_def, rule_format, OF 1(2) rd [unfolded d_def] None e] by blast
        then obtain K where K: "\<forall>k\<ge>K. pipe_loop S T k c r1 w \<noteq> None"
          using 1(1) [of r1 w c] st 1(3,4) by auto
        have "pipe_loop S T (Suc k) c r w = pipe_loop S T k c r1 w" for k
          using False rd None e go by (simp add: d_def [symmetric])
        then have "pipe_loop S T k c r w \<noteq> None" if "Suc K \<le> k" for k
          using that K by (metis Suc_le_D Suc_le_mono)
        then show ?thesis
          by blast
      qed
    next
      case (Some ps)
      from read_lends [OF 1(2) rd Some pos] obtain rest where
        l: "[] \<notin> set ps" "concat ps \<noteq> []" "length (concat ps) \<le> usize_max - c" "outs r = concat ps @ rest"
        using up by auto
      have lm: "length (concat ps) \<le> usize_max"
        using l(3) by linarith
      obtain K1 where K1: "\<forall>k\<ge>K1. join_segm T k ps 0 c w \<noteq> None"
        using join_segm_ends [OF assms(1) 1(3) l(1) lm] by blast
      obtain y1 where y1: "join_segm T K1 ps 0 c w = Some y1"
        using K1 by blast
      have run: "join_segm T k ps 0 c w = Some y1" if "K1 \<le> k" for k
        using join_segm_mono [OF y1 that] .
      from join_segm_spec [OF 1(3) l(1) lm _ y1] l(2) obtain e m w1 where
        j: "y1 = Done (e, m, c + m, w1)" "wok w1" "m \<le> length (concat ps)" "e = None \<longrightarrow> m = length (concat ps)"
        by (auto simp del: concat_eq_Nil_conv length_concat)
      define r2 where "r2 = sh_take S m r1"
      have r2: "rok r2" "outs r2 = drop m (outs r)"
        using take_moves [OF 1(2) rd Some j(3)] by (simp_all add: r2_def)
      show ?thesis
      proof (cases "e \<noteq> None \<or> (\<exists>e'. pick_right x = Some e' \<and> read_should_terminate (sh_tag S e'))")
        case True
        then have "pipe_loop S T (Suc k) c r w \<noteq> None" if "K1 \<le> k" for k
          using False rd Some run [OF that] j(1) by (auto simp: d_def [symmetric] split: option.split)
        then have "pipe_loop S T k c r w \<noteq> None" if "Suc K1 \<le> k" for k
          using that by (metis Suc_le_D Suc_le_mono)
        then show ?thesis
          by blast
      next
        case go: False
        then have "length (outs r2) < length (outs r)" "c + m \<le> usize_max"
          using l(2-4) j(4) r2(2) 1(4) by (auto simp del: length_concat concat_eq_Nil_conv)
        then obtain K2 where K2: "\<forall>k\<ge>K2. pipe_loop S T k (c + m) r2 w1 \<noteq> None"
          using 1(1) [of r2 w1 "c + m"] r2(1) j(2) by auto
        have "pipe_loop S T (Suc k) c r w = pipe_loop S T k (c + m) r2 w1" if "K1 \<le> k" for k
          using False rd Some run [OF that] j(1) go
          by (auto simp: d_def [symmetric] r2_def split: option.split)
        then have "pipe_loop S T k c r w \<noteq> None" if "Suc (max K1 K2) \<le> k" for k
          using that K2 by (metis Suc_le_D Suc_le_mono max.boundedE)
        then show ?thesis
          by blast
      qed
    qed
  qed
qed

end

interpretation pj_circ: half_pair
  "circ_src rd wr (Suc (Suc k)) :: (consumer_error, 'a, ('a, 'i, 'o) circ_half) src_half" half_ok half_items
  "circ_tgt rd' wr' (Suc (Suc k')) :: (producer_error, 'a, ('a, 'j, 'q) circ_half) tgt_half" half_ok half_items
  by (intro half_pair.intro circ_source.source_half_axioms circ_target.target_half_axioms)


text \<open>A buffer whose writer has closed never keeps its reader waiting.\<close>

lemma closed_circ_answers:
  "src_answers (circ_src rd wr (Suc (Suc k)) :: (consumer_error, 'a, ('a, 'i, 'o) circ_half) src_half)
     (\<lambda>r. half_ok r \<and> circ_tx_closed (fst r)) (\<lambda>_. 0)"
proof -
  have "read_should_terminate (consumer_err_tag e)"
    if r: "half_ok r" "sh_read (circ_src rd wr (Suc (Suc k))) (LessThan u) r = (OfRight e, r')"
      and closed: "circ_tx_closed (fst r)"
    for u r r' e
  proof (cases r)
    case (Pair c l)
    have "producer_passive (cprod c)"
      using r(1) Pair by (simp add: half_ok_def)
    then have "circ_try_read_at c (LessThan u) = Inl e"
      using r(2) circ_try_read_some [of c rd wr k "LessThan u"] Pair
      by (auto simp: circ_src_def split: sum.splits)
    then show ?thesis
      using closed Pair unfolding retriable(4)
      by (auto simp: circ_try_read_at_def Let_def split: if_splits)
  qed
  note terminates = this
  show ?thesis
    unfolding src_answers_def
  proof (intro allI impI disjI1)
    fix u and r r' :: "('a, 'i, 'o) circ_half" and x :: "('a list list, consumer_error) some_of" and e
    assume r: "half_ok r \<and> circ_tx_closed (fst r)" and rd: "sh_read (circ_src rd wr (Suc (Suc k))) (LessThan u) r = (x, r')"
      and x: "pick_left x = None" "pick_right x = Some e"
    have "x = OfRight e"
      using x by (cases x) simp_all
    then show "read_should_terminate (sh_tag (circ_src rd wr (Suc (Suc k))) e)"
      using terminates [OF conjunct1 [OF r] _ conjunct2 [OF r]] rd by (simp add: circ_src_def)
  qed
qed

text \<open>
  C27: The pipe loses, duplicates and reorders nothing. Whenever it returns, over any halves that keep
  their contract, the count it reports is the number of items moved: the target took exactly that
  many items from the front of the source's stream, and the source goes on behind them, whichever
  pieces the two sides lent and whichever errors they reported in between. The count never overflows,
  the \<open>unreachable!\<close> of the inner loop is not reached, an error is reported only when it is one that
  says to stop, and \<open>RxDrained\<close> only when everything is moved. And it does return, with one result for
  every larger number of rounds, over halves of which neither refuses for ever without saying that it
  stops.
\<close>

theorem pipe_join_transfers:
  assumes "source_half S rok outs" "target_half T wok ins" "rok r" "wok w" "item_size \<noteq> 0"
  shows "(\<forall>k y. pipe_join S T item_size k r w = Some y \<longrightarrow>
      (\<exists>res r' w'. y = Done (res, r', w') \<and> join_count res \<le> min usize_max (length (outs r))
        \<and> outs r' = drop (join_count res) (outs r) \<and> ins w' = ins w @ take (join_count res) (outs r)
        \<and> (case res of
             JoinTxErr c e \<Rightarrow> write_should_terminate (th_tag T e)
           | JoinRxErr c e \<Rightarrow> read_should_terminate (sh_tag S e)
           | TxBlocked c \<Rightarrow> th_stuffed T w'
           | RxDrained c \<Rightarrow> c = length (outs r)
           | SizeLimit c \<Rightarrow> c = usize_max
           | NoOps \<Rightarrow> False)))
    \<and> (\<forall>\<mu> \<nu>. src_answers S rok \<mu> \<longrightarrow> tgt_answers T wok \<nu> \<longrightarrow>
        (\<exists>K y. \<forall>k\<ge>K. pipe_join S T item_size k r w = Some y))"
proof (intro conjI allI impI)
  have pair: "half_pair S rok outs T wok ins"
    using assms(1,2) by (rule half_pair.intro)
  have loop: "pipe_join S T item_size k r w = pipe_loop S T k 0 r w" for k
    using assms(5) by (simp add: pipe_join_def)
  show "\<exists>res r' w'. y = Done (res, r', w') \<and> join_count res \<le> min usize_max (length (outs r))
    \<and> outs r' = drop (join_count res) (outs r) \<and> ins w' = ins w @ take (join_count res) (outs r)
    \<and> (case res of
         JoinTxErr c e \<Rightarrow> write_should_terminate (th_tag T e)
       | JoinRxErr c e \<Rightarrow> read_should_terminate (sh_tag S e)
       | TxBlocked c \<Rightarrow> th_stuffed T w'
       | RxDrained c \<Rightarrow> c = length (outs r)
       | SizeLimit c \<Rightarrow> c = usize_max
       | NoOps \<Rightarrow> False)" if "pipe_join S T item_size k r w = Some y" for k y
  proof -
    from half_pair.pipe_loop_spec [OF pair assms(3,4) _ that [unfolded loop]] obtain res r' w' where
      *: "y = Done (res, r', w')" "join_count res \<le> usize_max" "join_count res \<le> length (outs r)"
        "outs r' = drop (join_count res) (outs r)" "ins w' = ins w @ take (join_count res) (outs r)"
        "half_pair.join_reason S outs T res r' w'"
      by auto
    then show ?thesis
      by (cases res) (auto simp: half_pair.join_reason_def [OF pair])
  qed
  show "\<exists>K y. \<forall>k\<ge>K. pipe_join S T item_size k r w = Some y" if "src_answers S rok \<mu>" "tgt_answers T wok \<nu>" for \<mu> \<nu>
    using half_pair.pipe_loop_ends [OF pair that(2,1) assms(3,4), of 0] pipe_loop_mono [of S T _ 0 r w]
    unfolding loop by (metis le_refl not_None_eq zero_le)
qed

theorem pipe_join_transfers_witness:
  "(\<exists>res. pipe_join bytes_src bytes_tgt 1 (Suc (Suc (Suc (Suc 0)))) [5, 6, 7] [8] = Some (Done (res, [], [8, 5, 6, 7]))
    \<and> join_count res = 3)
    \<and> (\<exists>K y. \<forall>k\<ge>K. pipe_join bytes_src bytes_tgt 1 k [5, 6, 7] [8] = Some y)"
proof -
  have run: "pipe_join bytes_src bytes_tgt 1 (Suc (Suc (Suc (Suc 0)))) [5, 6, 7] [8] = Some (Done (RxDrained 3, [], [8, 5, 6, 7]))"
    by (simp add: pipe_join_def bytes_src_def bytes_tgt_def usize_max_def Let_def)
  have ans: "src_answers bytes_src (\<lambda>_. True) (\<lambda>_. 0)" "tgt_answers bytes_tgt (\<lambda>_. True) (\<lambda>_. 0)"
    by (auto simp: src_answers_def tgt_answers_def bytes_src_def bytes_tgt_def Let_def read_should_terminate.simps split: if_splits)
  note all = pipe_join_transfers [OF bytes_halves TrueI TrueI, of 1 "[5, 6, 7]" "[8]"]
  show ?thesis
    using all [THEN conjunct1, rule_format, OF _ run] all [THEN conjunct2, rule_format, OF _ ans] run by auto
qed

text \<open>
  The sending half of the circular buffer calls itself stuffed as soon as it is full, although its
  trait says that this is for good: a pipe into it ends instead of waiting for room.
\<close>

lemma full_is_stuffed:
  "circ_is_stuffed_closing c = (circ_tx_closed c \<or> circ_free_size c = 0)"
proof -
  have "circ_free_size c < 1 \<longleftrightarrow> circ_free_size c = 0"
    by (simp add: word_less_nat_alt unat_eq_zero)
  then show ?thesis
    by (auto simp: circ_is_stuffed_closing_def producer_ready_def lends_def circ_try_write_at_def
        min_of_def circ_free_size_def Let_def split: sum.splits if_splits)
qed

lemma pipe_stops_at_full_buffer:
  assumes "item_size \<noteq> 0" "circ_free_size (fst w) = 0" "\<not> circ_tx_closed (fst w)"
  shows "pipe_join S (circ_tgt rd wr k) item_size (Suc j) r w = Some (Done (TxBlocked 0, r, w))"
  using assms by (cases w) (simp add: pipe_join_def full_is_stuffed circ_tgt_def usize_max_def)

end
