(* ===== verification/Be_Bytes.thy ===== *)
theory Be_Bytes
  imports Cantare_Prelude
begin

text \<open>
  Big-endian byte strings: \<open>to_be_bytes\<close> of the standard library, as the handshake codec and the
  multipart prefixes use it, and the fold that reads such a string back.
\<close>

text \<open>\<open>to_be_bytes\<close> of the standard library, for the last \<open>w\<close> bytes.\<close>

primrec be_bytes :: "nat \<Rightarrow> 'w::len word \<Rightarrow> u8 list" where
  "be_bytes 0 v = []"
| "be_bytes (Suc w) v = be_bytes w (drop_bit 8 v) @ [ucast v]"

lemma length_be_bytes [simp]: "length (be_bytes w v) = w"
  by (induction w arbitrary: v) simp_all

lemma be_bytes_add: "be_bytes (a + b) v = be_bytes a (drop_bit (8 * b) v) @ be_bytes b v"
proof (induction b arbitrary: v)
  case (Suc b)
  then show ?case
    by (simp add: add.commute [of 8])
qed simp

lemma drop_be_bytes: "w \<le> 8 \<Longrightarrow> drop (8 - w) (be_bytes 8 v) = be_bytes w v"
  using be_bytes_add [of "8 - w" w v] by simp

lemma fold_be_bytes: "foldl (\<lambda>v b. push_bit 8 v OR ucast b) 0 (be_bytes w v) = take_bit (8 * w) v"
proof (induction w arbitrary: v)
  case (Suc w)
  have "push_bit 8 (take_bit (8 * w) (drop_bit 8 v)) OR ucast (ucast v :: u8) = take_bit (8 * Suc w) v"
    by (rule bit_word_eqI) (auto simp: bit_simps not_less)
  then show ?case
    using Suc [of "drop_bit 8 v"] by simp
qed simp

end
