(* ===== verification/Multipart.thy ===== *)
theory Multipart
  imports Io_Half Be_Bytes
begin

text \<open>
  The multipart framing of a byte stream of unknown length
  (\<open>crates/abs_buff_utils/src/multipart/\<close>): the prefixes, the encoder that moves what the source has
  into length-prefixed parts until the source has ended, and the decoder that reads the payload back
  out of the parts. Both are generic in the halves they move between.
\<close>

section \<open>Prefixes\<close>

datatype multipart_prefix = U8Prefix | U16Prefix | U32Prefix

fun prefix_bits :: "multipart_prefix \<Rightarrow> nat" where
  "prefix_bits U8Prefix = 8"
| "prefix_bits U16Prefix = 16"
| "prefix_bits U32Prefix = 32"

definition PREFIX_LEN :: "multipart_prefix \<Rightarrow> nat" where
  "PREFIX_LEN p = prefix_bits p div 8"

definition PREFIX_MAX :: "multipart_prefix \<Rightarrow> usize" where
  "PREFIX_MAX p = push_bit (prefix_bits p) 1"

text \<open>\<open>is_read_eof_\<close>.\<close>

definition is_read_eof :: "read_err_tag \<Rightarrow> bool" where
  "is_read_eof t = (t \<in> {RClosing, RDrained})"

section \<open>The encoder\<close>

datatype ('re, 'we) encode_error = EncSource 're | EncTarget 'we | EncInvalid | EncCancelled

type_synonym ('re, 'we) encode_result = "(nat, ('re, 'we) encode_error) some_of"

text \<open>The last bytes of the big-endian \<open>usize\<close>; for the terminator, the first ones of zero.\<close>

definition prefix_bytes :: "multipart_prefix \<Rightarrow> usize \<Rightarrow> u8 list" where
  "prefix_bytes p n = drop (8 - PREFIX_LEN p) (be_bytes 8 n)"

definition zero_bytes :: "multipart_prefix \<Rightarrow> u8 list" where
  "zero_bytes p = take (PREFIX_LEN p) (be_bytes 8 (0 :: usize))"

definition write_zero_prefix ::
    "('we, u8, 'w) tgt_half \<Rightarrow> multipart_prefix \<Rightarrow> 'w \<Rightarrow> ('we option \<times> 'w) run" where
  "write_zero_prefix T p w =
     (case th_space T (AtLeast (of_nat (PREFIX_LEN p))) w of
        (x, w1) \<Rightarrow>
          (case pick_left x of
             Some ns \<Rightarrow>
               if min (sum_list ns) (PREFIX_LEN p) = PREFIX_LEN p
               then Done (None, th_put T (zero_bytes p) w1)
               else Panic ''assertion failed: moved == prefix_len''
           | None \<Rightarrow> Done (pick_right x, w1)))"

definition write_prefix ::
    "('we, u8, 'w) tgt_half \<Rightarrow> multipart_prefix \<Rightarrow> usize \<Rightarrow> 'w \<Rightarrow> ('we option \<times> 'w) run" where
  "write_prefix T p n w =
     (case th_space T (AtLeast (of_nat (PREFIX_LEN p))) w of
        (x, w1) \<Rightarrow>
          (case pick_left x of
             Some ns \<Rightarrow>
               if min (sum_list ns) (PREFIX_LEN p) = PREFIX_LEN p
               then Done (pick_right x, th_put T (prefix_bytes p n) w1)
               else Panic ''assertion failed: moved == prefix_len''
           | None \<Rightarrow> Done (pick_right x, w1)))"

text \<open>
  Filling one target segment, whose pieces are \<open>ns\<close>: \<open>cc\<close> of \<open>sz\<close> payload bytes of this part are
  moved, \<open>acc\<close> are the bytes in the segment so far.
\<close>

function fill_segm ::
    "('re, u8, 'r) src_half \<Rightarrow> nat \<Rightarrow> nat \<Rightarrow> nat list \<Rightarrow> u8 list \<Rightarrow> 'r
     \<Rightarrow> (('re, 'we) encode_error option \<times> nat \<times> u8 list \<times> 'r) run" where
  "fill_segm S sz cc ns acc r =
     (if sum_list ns = 0 \<or> sz \<le> cc then Done (None, cc, acc, r)
      else
        (case sh_read S (LessThan (of_nat (min (sum_list ns) (sz - cc)))) r of
           (x, r1) \<Rightarrow>
             (case pick_left x of
                Some ps \<Rightarrow>
                  (let moved = min (length (first_src ps)) (first_tgt ns)
                   in if moved = 0 then Panic ''assertion failed: moved > 0''
                      else fill_segm S sz (cc + moved) (drop_tgt moved ns)
                             (acc @ take moved (first_src ps)) (sh_take S moved r1))
              | None \<Rightarrow>
                  (case pick_right x of
                     Some err \<Rightarrow>
                       Done (Some (if is_read_eof (sh_tag S err) then EncInvalid else EncSource err), cc, acc, r1)
                   | None \<Rightarrow> Panic ''unreachable''))))"
  by pat_completeness auto
termination
proof (relation "measure (\<lambda>(S, sz, cc, ns, acc, r). sz - cc)", goal_cases)
  case 2
  then show ?case
    by (simp only: in_measure prod.case) arith
qed simp

declare fill_segm.simps [simp del]

text \<open>The payload of a part, over as many target segments as it takes.\<close>

fun move_payload ::
    "('re, u8, 'r) src_half \<Rightarrow> ('we, u8, 'w) tgt_half \<Rightarrow> nat \<Rightarrow> nat \<Rightarrow> nat \<Rightarrow> 'r \<Rightarrow> 'w
     \<Rightarrow> (('re, 'we) encode_error option \<times> nat \<times> 'r \<times> 'w) run option" where
  "move_payload S T 0 sz cc r w = None"
| "move_payload S T (Suc k) sz cc r w =
     (if sz \<le> cc then Some (Done (None, cc, r, w))
      else
        (case th_space T (AtLeast 1) w of
           (x, w1) \<Rightarrow>
             (case pick_left x of
                None \<Rightarrow>
                  (case pick_right x of
                     Some err \<Rightarrow> Some (Done (Some (EncTarget err), cc, r, w1))
                   | None \<Rightarrow> move_payload S T k sz cc r w1)
              | Some ns \<Rightarrow>
                  (case fill_segm S sz cc ns [] r of
                     Panic m \<Rightarrow> Some (Panic m)
                   | Done (Some e, cc', acc, r1) \<Rightarrow> Some (Done (Some e, cc', r1, th_put T acc w1))
                   | Done (None, cc', acc, r1) \<Rightarrow>
                       (case pick_right x of
                          Some err \<Rightarrow> Some (Done (Some (EncTarget err), cc', r1, th_put T acc w1))
                        | None \<Rightarrow> move_payload S T k sz cc' r1 (th_put T acc w1))))))"

text \<open>
  \<open>multipart_send_async_\<close>. \<open>cancelled\<close> is the token, looked at on each round; \<open>c\<close> counts the payload
  bytes moved. Fuel bounds the rounds and is handed down to the payload loop.
\<close>

definition finish_encode ::
    "('we, u8, 'w) tgt_half \<Rightarrow> multipart_prefix \<Rightarrow> nat \<Rightarrow> 'r \<Rightarrow> 'w
     \<Rightarrow> (('re, 'we) encode_result \<times> 'r \<times> 'w) run" where
  "finish_encode T p c r w =
     run_map (\<lambda>(e, w1). (case e of None \<Rightarrow> OfLeft c | Some err \<Rightarrow> OfBoth c (EncTarget err), r, w1))
       (write_zero_prefix T p w)"

fun multipart_send ::
    "('re, u8, 'r) src_half \<Rightarrow> ('we, u8, 'w) tgt_half \<Rightarrow> multipart_prefix \<Rightarrow> ('r \<times> 'w \<Rightarrow> bool)
     \<Rightarrow> nat \<Rightarrow> nat \<Rightarrow> 'r \<Rightarrow> 'w \<Rightarrow> (('re, 'we) encode_result \<times> 'r \<times> 'w) run option" where
  "multipart_send S T p cancelled 0 c r w = None"
| "multipart_send S T p cancelled (Suc k) c r w =
     (if cancelled (r, w) then Some (Done (OfLeft c, r, w))
      else if sh_size S r = 0 then
        (if sh_drained S r then Some (finish_encode T p c r w)
         else
           (case sh_read S (AtLeast 1) r of
              (x, r1) \<Rightarrow>
                (let r2 = (if pick_left x = None then r1 else sh_take S 0 r1)
                 in case pick_right x of
                      Some err \<Rightarrow>
                        if is_read_eof (sh_tag S err) then Some (finish_encode T p c r2 w)
                        else Some (Done (OfBoth c (EncSource err), r2, w))
                    | None \<Rightarrow> multipart_send S T p cancelled k c r2 w)))
      else
        (let sz = min (sh_size S r) (PREFIX_MAX p - 1)
         in case write_prefix T p sz w of
              Panic m \<Rightarrow> Some (Panic m)
            | Done (Some err, w1) \<Rightarrow> Some (Done (OfBoth c (EncTarget err), r, w1))
            | Done (None, w1) \<Rightarrow>
                (case move_payload S T k (unat sz) 0 r w1 of
                   None \<Rightarrow> None
                 | Some (Panic m) \<Rightarrow> Some (Panic m)
                 | Some (Done (Some e, cc, r1, w2)) \<Rightarrow> Some (Done (OfBoth (c + cc) e, r1, w2))
                 | Some (Done (None, cc, r1, w2)) \<Rightarrow> multipart_send S T p cancelled k (c + cc) r1 w2)))"

section \<open>The decoder\<close>

datatype 're recv_error = RecvSource 're | RecvInvalid | RecvEof | RecvCancelled

record multipart_recv =
  mr_payload_left :: nat
  mr_eof :: bool

definition recv_new :: multipart_recv where
  "recv_new = \<lparr>mr_payload_left = 0, mr_eof = False\<rparr>"

definition decode_source_err :: "('re, 'a, 'r) src_half \<Rightarrow> 're \<Rightarrow> 're recv_error" where
  "decode_source_err S e = (if sh_tag S e = RCancelled then RecvCancelled else RecvSource e)"

definition recv_fault :: "('re, 'a, 'r) src_half \<Rightarrow> 're \<Rightarrow> 're recv_error" where
  "recv_fault S e = (if is_read_eof (sh_tag S e) then RecvInvalid else decode_source_err S e)"

definition prefix_value :: "u8 list \<Rightarrow> usize" where
  "prefix_value bs = foldl (\<lambda>n b. push_bit 8 n OR ucast b) 0 bs"

text \<open>The prefix of the next part, unless the current one has payload left.\<close>

definition recv_prefix ::
    "('re, u8, 'r) src_half \<Rightarrow> multipart_prefix \<Rightarrow> multipart_recv \<Rightarrow> 'r
     \<Rightarrow> (('re recv_error, unit) rust_result \<times> multipart_recv \<times> 'r)" where
  "recv_prefix S p st r =
     (if mr_payload_left st \<noteq> 0 then (Inr (), st, r)
      else
        (case sh_read S (AtLeast (of_nat (PREFIX_LEN p))) r of
           (x, r1) \<Rightarrow>
             (case pick_left x of
                None \<Rightarrow>
                  (case pick_right x of
                     Some err \<Rightarrow> (Inl (recv_fault S err), st, r1)
                   | None \<Rightarrow> (Inl RecvInvalid, st, r1))
              | Some ps \<Rightarrow>
                  (let bs = take (PREFIX_LEN p) (concat ps); r2 = sh_take S (length bs) r1
                   in if length bs < PREFIX_LEN p then (Inl RecvInvalid, st, r2)
                      else if prefix_value bs = 0 then (Inl RecvEof, st\<lparr>mr_eof := True\<rparr>, r2)
                      else (Inr (), st\<lparr>mr_payload_left := unat (prefix_value bs)\<rparr>, r2)))))"

text \<open>What is asked of the source: at most the rest of the part, the caller's lower bound if it fits.\<close>

definition recv_demand :: "usize demand \<Rightarrow> nat \<Rightarrow> usize demand run" where
  "recv_demand demand left =
     (case demand_min demand of
        Some m \<Rightarrow> if unat m < left then demand_between m (of_nat left) else Done (LessThan (of_nat left))
      | None \<Rightarrow> Done (LessThan (of_nat left)))"

text \<open>The caller's upper bound is not looked at: more than it allows may be lent.\<close>

lemma recv_ignores_upper:
  "recv_demand (LessThan u) left = Done (LessThan (of_nat left))"
  "recv_demand (Range m u) left = recv_demand (AtLeast m) left"
  by (simp_all add: recv_demand_def)

text \<open>\<open>multipart_decode_read_async_\<close>: the pieces of the lent payload, or an error.\<close>

definition recv_read ::
    "('re, u8, 'r) src_half \<Rightarrow> multipart_prefix \<Rightarrow> bool \<Rightarrow> usize demand \<Rightarrow> multipart_recv \<Rightarrow> 'r
     \<Rightarrow> (('re recv_error, u8 list list) rust_result \<times> multipart_recv \<times> 'r) run" where
  "recv_read S p cancelled demand st r =
     (if cancelled then Done (Inl RecvCancelled, st, r)
      else if mr_eof st then Done (Inl RecvEof, st, r)
      else
        (case recv_prefix S p st r of
           (Inl e, st1, r1) \<Rightarrow> Done (Inl e, st1, r1)
         | (Inr _, st1, r1) \<Rightarrow>
             (case recv_demand demand (mr_payload_left st1) of
                Panic m \<Rightarrow> Panic m
              | Done d \<Rightarrow>
                  (case sh_read S d r1 of
                     (x, r2) \<Rightarrow>
                       (case pick_left x of
                          Some ps \<Rightarrow> Done (Inr ps, st1, r2)
                        | None \<Rightarrow>
                            (case pick_right x of
                               Some err \<Rightarrow> Done (Inl (recv_fault S err), st1, r2)
                             | None \<Rightarrow> Panic ''pick_right''))))))"

text \<open>The drop of the lent segment with \<open>n\<close> of its bytes consumed.\<close>

definition recv_drop ::
    "('re, u8, 'r) src_half \<Rightarrow> nat \<Rightarrow> multipart_recv \<Rightarrow> 'r \<Rightarrow> (multipart_recv \<times> 'r) run" where
  "recv_drop S n st r =
     (if mr_payload_left st < n then Panic ''attempt to subtract with overflow''
      else Done (st\<lparr>mr_payload_left := mr_payload_left st - n\<rparr>, sh_take S n r))"


section \<open>The wire format\<close>

definition part :: "multipart_prefix \<Rightarrow> u8 list \<Rightarrow> u8 list" where
  "part p bs = prefix_bytes p (of_nat (length bs)) @ bs"

definition parts :: "multipart_prefix \<Rightarrow> u8 list list \<Rightarrow> u8 list" where
  "parts p bss = concat (map (part p) bss)"

definition part_ok :: "multipart_prefix \<Rightarrow> u8 list \<Rightarrow> bool" where
  "part_ok p bs = (0 < length bs \<and> length bs < 2 ^ prefix_bits p)"

lemma parts_simps [simp]:
  "parts p [] = []" "parts p (bs # bss) = part p bs @ parts p bss"
  "parts p (bss @ bss') = parts p bss @ parts p bss'"
  by (simp_all add: parts_def)

lemma prefix_len: "PREFIX_LEN p \<in> {1, 2, 4}" "prefix_bits p = 8 * PREFIX_LEN p"
  by (cases p; simp add: PREFIX_LEN_def)+

lemma prefix_len_bounds: "0 < PREFIX_LEN p" "PREFIX_LEN p \<le> 4" "prefix_bits p \<le> 32"
  by (cases p; simp add: PREFIX_LEN_def)+

lemma prefix_bytes: "prefix_bytes p n = be_bytes (PREFIX_LEN p) n"
  unfolding prefix_bytes_def using prefix_len_bounds(2) [of p] by (intro drop_be_bytes) simp

lemma length_prefix_bytes [simp]: "length (prefix_bytes p n) = PREFIX_LEN p"
  by (simp add: prefix_bytes)

lemma be_bytes_zero: "be_bytes w (0 :: usize) = replicate w 0"
  by (induction w) (simp_all add: replicate_append_same)

lemma zero_bytes: "zero_bytes p = prefix_bytes p 0"
  using prefix_len_bounds(2) [of p] by (simp add: zero_bytes_def prefix_bytes be_bytes_zero min_def)

lemma length_zero_bytes [simp]: "length (zero_bytes p) = PREFIX_LEN p"
  by (simp add: zero_bytes)

lemma prefix_value: "prefix_value (prefix_bytes p n) = take_bit (prefix_bits p) n"
  by (simp add: prefix_value_def prefix_bytes fold_be_bytes prefix_len(2))

lemma small_len: "(n :: nat) < 2 ^ prefix_bits p \<Longrightarrow> n < 2 ^ 64"
  using power_increasing [of "prefix_bits p" 64 "2 :: nat"] prefix_len_bounds(3) [of p]
  by (simp del: power_increasing_iff)

lemma unat_small: "n < 2 ^ 64 \<Longrightarrow> unat (of_nat n :: usize) = n"
  by (simp add: unat_of_nat)

lemma prefix_of_part:
  assumes "part_ok p bs"
  shows "unat (prefix_value (prefix_bytes p (of_nat (length bs)))) = length bs"
proof -
  have b: "length bs < 2 ^ prefix_bits p"
    using assms by (simp add: part_ok_def)
  have "unat (take_bit (prefix_bits p) (of_nat (length bs) :: usize)) = length bs"
    unfolding unat_take_bit unat_small [OF small_len [OF b]] using b by simp
  then show ?thesis
    by (simp only: prefix_value)
qed

lemma prefix_of_zero: "prefix_value (zero_bytes p) = 0"
  by (simp only: zero_bytes prefix_value take_bit_of_0)

lemma prefix_max: "unat (PREFIX_MAX p - 1) = 2 ^ prefix_bits p - 1"
  by (cases p) (simp_all add: PREFIX_MAX_def)

section \<open>What the encoder sends\<close>

locale multipart_pair = source_half S rok outs + target_half T wok ins
  for S :: "('re, u8, 'r) src_half" and rok :: "'r \<Rightarrow> bool" and outs :: "'r \<Rightarrow> u8 list"
    and T :: "('we, u8, 'w) tgt_half" and wok :: "'w \<Rightarrow> bool" and ins :: "'w \<Rightarrow> u8 list"
begin

lemma fill_segm_spec:
  assumes "rok r" "piece_ok ns" "cc \<le> sz" "sz - cc \<le> length (outs r)" "sz < 2 ^ 64"
  shows "\<exists>(e :: ('re, 'we) encode_error option) m r'. fill_segm S sz cc ns acc r = Done (e, cc + m, acc @ take m (outs r), r')
    \<and> rok r' \<and> outs r' = drop m (outs r) \<and> m \<le> sum_list ns \<and> cc + m \<le> sz
    \<and> (e = None \<longrightarrow> m = sum_list ns \<or> cc + m = sz) \<and> e \<noteq> Some EncInvalid"
  using assms
proof (induction "sz - cc" arbitrary: cc ns acc r rule: less_induct)
  case less
  show ?case
  proof (cases "sum_list ns = 0 \<or> sz \<le> cc")
    case True
    then show ?thesis
      using less.prems by (subst fill_segm.simps) (rule exI [of _ None], rule exI [of _ 0], auto)
  next
    case False
    define d where "d = LessThan (of_nat (min (sum_list ns) (sz - cc)) :: usize)"
    have up: "upper d = min (sum_list ns) (sz - cc)" "lower d = 0"
      using less.prems(5) by (simp_all add: d_def unat_small)
    have nz: "0 < sum_list ns" "cc < sz"
      using False gr0I not_le by blast+
    then have pos: "0 < upper d" "lower d \<le> upper d"
      by (simp_all only: up min_less_iff_conj zero_less_diff zero_le)
    obtain x r1 where rd: "sh_read S d r = (x, r1)"
      by fastforce
    note st = read_stays [OF less.prems(1) rd]
    show ?thesis
    proof (cases "pick_left x")
      case None
      then obtain e where e: "pick_right x = Some e"
        by (cases x) auto
      have "\<not> is_read_eof (sh_tag S e)"
        using read_ends [OF less.prems(1) rd e] less.prems(4) False up pos(2)
        by (auto simp: is_read_eof_def)
      then have "fill_segm S sz cc ns acc r
          = Done (Some (EncSource e :: ('re, 'we) encode_error), cc, acc, r1)"
        using False rd None e by (subst fill_segm.simps) (simp add: d_def)
      then show ?thesis
        using st less.prems by (intro exI [of _ "Some (EncSource e)"] exI [of _ 0]) auto
    next
      case (Some ps)
      define m where "m = min (length (first_src ps)) (first_tgt ns)"
      from read_lends [OF less.prems(1) rd Some pos] obtain rest where
        l: "[] \<notin> set ps" "concat ps \<noteq> []" "length (concat ps) \<le> upper d" "outs r = concat ps @ rest"
        by blast
      note fs = first_src_bounds [of ps] and ft = first_tgt_bounds [of ns]
      have m0: "m \<noteq> 0"
        using fs(3) [OF l(1,2)] ft(2) [OF less.prems(2) nz(1)] by (auto simp: m_def)
      have mle: "m \<le> length (concat ps)" "m \<le> first_tgt ns" "m \<le> length (first_src ps)"
        using fs(1) by (auto simp: m_def)
      then have mb: "m \<le> sum_list ns" "m \<le> sz - cc"
        using l(3) up by auto
      note tk = take_moves [OF less.prems(1) rd Some mle(1)]
      have pre: "take m (first_src ps) = take m (outs r)"
      proof -
        have "take m (first_src ps) = take m (take (length (first_src ps)) (concat ps))"
          by (simp only: fs(2))
        also have "\<dots> = take m (concat ps)"
          using mle(3) by (simp add: min_absorb1)
        finally show ?thesis
          using mle(1) by (simp add: l(4))
      qed
      have eq: "(fill_segm S sz cc ns acc r
            :: (('re, 'we) encode_error option \<times> nat \<times> u8 list \<times> 'r) run)
          = fill_segm S sz (cc + m) (drop_tgt m ns) (acc @ take m (outs r)) (sh_take S m r1)"
        using False rd Some m0 pre
        by (subst fill_segm.simps) (simp add: d_def m_def [symmetric] Let_def del: sum_list_eq_0_iff)
      have "\<exists>(e :: ('re, 'we) encode_error option) n r'. fill_segm S sz (cc + m) (drop_tgt m ns) (acc @ take m (outs r)) (sh_take S m r1)
            = Done (e, cc + m + n, (acc @ take m (outs r)) @ take n (outs (sh_take S m r1)), r')
          \<and> rok r' \<and> outs r' = drop n (outs (sh_take S m r1)) \<and> n \<le> sum_list (drop_tgt m ns)
          \<and> cc + m + n \<le> sz \<and> (e = None \<longrightarrow> n = sum_list (drop_tgt m ns) \<or> cc + m + n = sz)
          \<and> e \<noteq> Some EncInvalid"
        using less.prems tk m0 mb False drop_tgt_ok(1) [OF less.prems(2) mle(2)]
        by (intro less.hyps) auto
      then obtain e :: "('re, 'we) encode_error option" and n r' where *: "fill_segm S sz cc ns acc r
            = Done (e, cc + m + n, (acc @ take m (outs r)) @ take n (outs (sh_take S m r1)), r')"
          "rok r'" "outs r' = drop n (outs (sh_take S m r1))" "n \<le> sum_list (drop_tgt m ns)"
          "cc + m + n \<le> sz" "e = None \<longrightarrow> n = sum_list (drop_tgt m ns) \<or> cc + m + n = sz"
          "e \<noteq> Some EncInvalid"
        unfolding eq by blast
      have "fill_segm S sz cc ns acc r = Done (e, cc + (m + n), acc @ take (m + n) (outs r), r')"
        using *(1) tk by (simp add: take_add add.assoc)
      moreover have "outs r' = drop (m + n) (outs r)"
        using *(3) tk by (simp add: add.commute)
      ultimately show ?thesis
        using * drop_tgt_ok(2) [OF mle(2)] mb(1)
        by (intro exI [of _ e] exI [of _ "m + n"] exI [of _ r']) auto
    qed
  qed
qed


lemma move_payload_spec:
  assumes "rok r" "wok w" "cc \<le> sz" "sz - cc \<le> length (outs r)" "sz < 2 ^ 64"
    "move_payload S T k sz cc r w = Some y"
  shows "\<exists>e m r' w'. y = Done (e, cc + m, r', w') \<and> rok r' \<and> wok w' \<and> outs r' = drop m (outs r)
    \<and> ins w' = ins w @ take m (outs r) \<and> cc + m \<le> sz \<and> (e = None \<longrightarrow> cc + m = sz) \<and> e \<noteq> Some EncInvalid"
  using assms
proof (induction k arbitrary: cc r w)
  case 0
  then show ?case by simp
next
  case (Suc k)
  show ?case
  proof (cases "sz \<le> cc")
    case True
    then have "y = Done (None, cc, r, w)"
      using Suc.prems(6) by simp
    then show ?thesis
      using True Suc.prems by (intro exI [of _ None] exI [of _ 0]) auto
  next
    case False
    obtain x w1 where sp: "th_space T (AtLeast 1) w = (x, w1)"
      by fastforce
    note st = space_stays [OF Suc.prems(2) sp]
    show ?thesis
    proof (cases "pick_left x")
      case None
      then obtain e where "pick_right x = Some e"
        by (cases x) auto
      then have "y = Done (Some (EncTarget e), cc, r, w1)"
        using Suc.prems(6) False sp None by simp
      then show ?thesis
        using st Suc.prems by (intro exI [of _ "Some (EncTarget e)"] exI [of _ 0]) auto
    next
      case (Some ns)
      have ok: "piece_ok ns"
        using space_lends [OF Suc.prems(2) sp Some] by (simp add: max_usize)
      from fill_segm_spec [OF Suc.prems(1) ok Suc.prems(3-5), of "[]"]
      obtain e :: "('re, 'we) encode_error option" and m r1 where
        f: "fill_segm S sz cc ns [] r = Done (e, cc + m, take m (outs r), r1)" "rok r1"
          "outs r1 = drop m (outs r)" "m \<le> sum_list ns" "cc + m \<le> sz" "e \<noteq> Some EncInvalid"
        by auto
      define w2 where "w2 = th_put T (take m (outs r)) w1"
      have put: "wok w2" "ins w2 = ins w @ take m (outs r)"
        using put_appends [OF Suc.prems(2) sp Some, of "take m (outs r)"] f(4) by (auto simp: w2_def)
      show ?thesis
      proof (cases "e = None \<and> pick_right x = None")
        case True
        then have "move_payload S T k sz (cc + m) r1 w2 = Some y"
          using Suc.prems(6) False sp Some f(1) by (simp add: w2_def)
        moreover have "sz - (cc + m) \<le> length (outs r1)"
          using Suc.prems(4) f(3) by simp
        ultimately obtain e2 n r' w' where *: "y = Done (e2, cc + m + n, r', w')" "rok r'" "wok w'" "outs r' = drop n (outs r1)"
            "ins w' = ins w2 @ take n (outs r1)" "cc + m + n \<le> sz"
            "e2 = None \<longrightarrow> cc + m + n = sz" "e2 \<noteq> Some EncInvalid"
          using Suc.IH [OF f(2) put(1) f(5) _ Suc.prems(5)] by blast
        then show ?thesis
          using f(3) put(2)
          by (intro exI [of _ e2] exI [of _ "m + n"] exI [of _ r'] exI [of _ w'])
            (auto simp: take_add ac_simps)
      next
        case False
        then obtain e' where "e' \<noteq> EncInvalid" "y = Done (Some e', cc + m, r1, w2)"
          using Suc.prems(6) \<open>\<not> sz \<le> cc\<close> sp Some f(1,6)
          by (cases e; cases "pick_right x") (auto simp: w2_def)
        then show ?thesis
          using f put by (intro exI [of _ "Some e'"] exI [of _ m] exI [of _ r1] exI [of _ w2]) auto
      qed
    qed
  qed
qed

lemma write_prefix_spec:
  assumes "wok w"
  shows "\<exists>e w'. write_prefix T p n w = Done (e, w') \<and> wok w'
    \<and> (ins w' = ins w @ prefix_bytes p n \<or> e \<noteq> None \<and> ins w' = ins w)"
    and "\<exists>e w'. write_zero_prefix T p w = Done (e, w') \<and> wok w'
    \<and> (if e = None then ins w' = ins w @ zero_bytes p else ins w' = ins w)"
proof -
  let ?d = "AtLeast (of_nat (PREFIX_LEN p)) :: usize demand"
  have low: "lower ?d = PREFIX_LEN p" "lower ?d \<le> upper ?d" "0 < upper ?d"
    using prefix_len(1) [of p] by (auto simp: max_usize)
  obtain x w1 where sp: "th_space T ?d w = (x, w1)"
    by fastforce
  note st = space_stays [OF assms sp]
  have le: "PREFIX_LEN p \<le> sum_list ns" if "pick_left x = Some ns" for ns
    using space_lends [OF assms sp that low(3,2)] low(1) by simp
  note put = put_appends [OF assms sp]
  have "pick_right x \<noteq> None" if "pick_left x = None"
    using that by (cases x) auto
  then show "\<exists>e w'. write_prefix T p n w = Done (e, w') \<and> wok w'
    \<and> (ins w' = ins w @ prefix_bytes p n \<or> e \<noteq> None \<and> ins w' = ins w)"
    using sp st le put by (auto simp: write_prefix_def split: option.split)
  show "\<exists>e w'. write_zero_prefix T p w = Done (e, w') \<and> wok w'
    \<and> (if e = None then ins w' = ins w @ zero_bytes p else ins w' = ins w)"
  proof (cases "pick_left x")
    case None
    then show ?thesis
      using sp st by (cases x) (auto simp: write_zero_prefix_def)
  next
    case (Some ns)
    then show ?thesis
      using sp le [OF Some] put [OF Some, of "zero_bytes p"]
      by (intro exI [of _ None] exI [of _ "th_put T (zero_bytes p) w1"])
        (simp add: write_zero_prefix_def)
  qed
qed


text \<open>
  A run of the encoder: \<open>m\<close> payload bytes are moved; it ends with the terminator behind whole parts,
  or cancelled between parts, or with an error in front of the end of some part.
\<close>

definition encoded ::
    "multipart_prefix \<Rightarrow> ('r \<times> 'w \<Rightarrow> bool) \<Rightarrow> nat \<Rightarrow> 'r \<Rightarrow> 'w \<Rightarrow> ('re, 'we) encode_result \<Rightarrow> 'r \<Rightarrow> 'w \<Rightarrow> bool" where
  "encoded p cancelled c r w res r' w' =
     (\<exists>m bss. outs r' = drop m (outs r) \<and> (\<forall>bs\<in>set bss. part_ok p bs) \<and> m \<le> length (outs r)
        \<and> (res = OfLeft (c + m) \<and> concat bss = take m (outs r)
             \<and> (m = length (outs r) \<and> ins w' = ins w @ parts p bss @ zero_bytes p
                \<or> cancelled (r', w') \<and> ins w' = ins w @ parts p bss)
           \<or> (\<exists>e rest. res = OfBoth (c + m) e \<and> e \<noteq> EncInvalid
                \<and> ins w @ parts p bss = ins w' @ rest)))"

lemma finish_encode_spec:
  assumes "rok r" "wok w" "outs r = []"
  shows "\<exists>res w'. finish_encode T p c r w = Done (res, r, w') \<and> encoded p cancelled c r w res r w'"
proof -
  from write_prefix_spec(2) [OF assms(2), of p] obtain e w' where
    z: "write_zero_prefix T p w = Done (e, w')"
      "if e = None then ins w' = ins w @ zero_bytes p else ins w' = ins w"
    by blast
  define res :: "('re, 'we) encode_result"
    where "res = (case e of None \<Rightarrow> OfLeft c | Some err \<Rightarrow> OfBoth c (EncTarget err))"
  have "encoded p cancelled c r w res r w'"
    using z(2) assms(3) unfolding encoded_def
    by (intro exI [of _ 0] exI [of _ "[]"]) (auto simp: res_def split: option.splits if_splits)
  then show ?thesis
    using z(1) by (auto simp: finish_encode_def res_def)
qed

lemma encoded_part:
  assumes "encoded p cancelled (c + n) r1 w1 res r' w'" "outs r1 = drop n (outs r)" "n \<le> length (outs r)"
    "ins w1 = ins w @ part p (take n (outs r))" "part_ok p (take n (outs r))"
  shows "encoded p cancelled c r w res r' w'"
proof -
  from assms(1) obtain m bss where
    *: "outs r' = drop m (outs r1)" "\<forall>bs\<in>set bss. part_ok p bs" "m \<le> length (outs r1)"
      "res = OfLeft (c + n + m) \<and> concat bss = take m (outs r1)
             \<and> (m = length (outs r1) \<and> ins w' = ins w1 @ parts p bss @ zero_bytes p
                \<or> cancelled (r', w') \<and> ins w' = ins w1 @ parts p bss)
           \<or> (\<exists>e rest. res = OfBoth (c + n + m) e \<and> e \<noteq> EncInvalid
                \<and> ins w1 @ parts p bss = ins w' @ rest)"
    unfolding encoded_def by blast
  have "take (n + m) (outs r) = take n (outs r) @ take m (outs r1)"
    by (simp add: assms(2) take_add)
  then show ?thesis
    using * assms(2-5) unfolding encoded_def
    by (intro exI [of _ "n + m"] exI [of _ "take n (outs r) # bss"]) (auto simp: add.assoc add.commute)
qed

lemma multipart_send_spec:
  assumes "rok r" "wok w" "length (outs r) < 2 ^ 64" "multipart_send S T p cancelled k c r w = Some y"
  shows "\<exists>res r' w'. y = Done (res, r', w') \<and> encoded p cancelled c r w res r' w'"
  using assms
proof (induction k arbitrary: c r w)
  case 0
  then show ?case by simp
next
  case (Suc k)
  have here: "encoded p cancelled c r w (OfBoth c e) r1 w1" if "outs r1 = outs r" "ins w1 = ins w" "e \<noteq> EncInvalid"
    for e r1 w1
    using that unfolding encoded_def by (intro exI [of _ 0] exI [of _ "[]"]) auto
  have same: "encoded p cancelled c r w res r' w'"
    if "encoded p cancelled c r1 w res r' w'" "outs r1 = outs r" for res r1 r' w'
    using that by (simp add: encoded_def)
  consider (cancel) "cancelled (r, w)" | (drained) "\<not> cancelled (r, w)" "sh_size S r = 0" "sh_drained S r"
    | (wait) "\<not> cancelled (r, w)" "sh_size S r = 0" "\<not> sh_drained S r"
    | (part) "\<not> cancelled (r, w)" "sh_size S r \<noteq> 0"
    by blast
  then show ?case
  proof cases
    case cancel
    then have "encoded p cancelled c r w (OfLeft c) r w"
      unfolding encoded_def by (intro exI [of _ 0] exI [of _ "[]"]) auto
    then show ?thesis
      using cancel Suc.prems(4) by auto
  next
    case drained
    then have "outs r = []"
      using drained_empty [OF Suc.prems(1)] by simp
    then show ?thesis
      using drained Suc.prems(4) finish_encode_spec [OF Suc.prems(1,2), of p c cancelled] by auto
  next
    case wait
    obtain x r1 where rd: "sh_read S (AtLeast 1) r = (x, r1)"
      by fastforce
    define r2 where "r2 = (if pick_left x = None then r1 else sh_take S 0 r1)"
    have r2: "rok r2" "outs r2 = outs r"
      using read_stays [OF Suc.prems(1) rd] take_moves [OF Suc.prems(1) rd, of _ 0] by (auto simp: r2_def)
    show ?thesis
    proof (cases "pick_right x")
      case None
      then have "multipart_send S T p cancelled k c r2 w = Some y"
        using wait rd Suc.prems(4) by (simp add: r2_def Let_def)
      then show ?thesis
        using Suc.IH [OF r2(1) Suc.prems(2)] r2(2) Suc.prems(3) same by metis
    next
      case (Some e)
      show ?thesis
      proof (cases "is_read_eof (sh_tag S e)")
        case True
        then have "outs r = []"
          using read_ends [OF Suc.prems(1) rd Some] by (auto simp: is_read_eof_def max_usize)
        then have "outs r2 = []"
          using r2(2) by simp
        then show ?thesis
          using True wait rd Some Suc.prems(4) finish_encode_spec [OF r2(1) Suc.prems(2), of p c cancelled]
            same r2(2) by (auto simp: r2_def Let_def)
      next
        case False
        then have "y = Done (OfBoth c (EncSource e), r2, w)"
          using wait rd Some Suc.prems(4) by (simp add: r2_def Let_def)
        then show ?thesis
          using here [of r2 w] r2(2) by blast
      qed
    qed
  next
    case part
    define sz where "sz = min (sh_size S r) (PREFIX_MAX p - 1)"
    define bs where "bs = take (unat sz) (outs r)"
    have usz: "unat sz = min (unat (sh_size S r)) (2 ^ prefix_bits p - 1)"
      using prefix_max [of p] by (simp add: sz_def min_def word_le_nat_alt)
    have "unat (sh_size S r) \<noteq> 0" "(1 :: nat) < 2 ^ prefix_bits p"
      using part(2) by (simp add: unat_eq_zero) (cases p; simp)
    then have sz: "0 < unat sz" "unat sz < 2 ^ prefix_bits p" "unat sz \<le> length (outs r)"
      using usz size_available [OF Suc.prems(1)] by auto
    then have ok: "part_ok p bs" and len: "length bs = unat sz"
      by (simp_all add: part_ok_def bs_def)
    have pt: "part p bs = prefix_bytes p sz @ bs"
      by (simp add: part_def len)
    from write_prefix_spec(1) [OF Suc.prems(2), of p sz] obtain e w1 where
      wp: "write_prefix T p sz w = Done (e, w1)" "wok w1"
        "ins w1 = ins w @ prefix_bytes p sz \<or> e \<noteq> None \<and> ins w1 = ins w"
      by blast
    have stop: "encoded p cancelled c r w (OfBoth (c + m) e') r' w'"
      if "outs r' = drop m (outs r)" "ins w' = ins w @ prefix_bytes p sz @ take m (outs r)" "m \<le> unat sz"
        "e' \<noteq> EncInvalid" for m e' r' w'
    proof -
      have "take m (outs r) @ drop m bs = bs"
        using that(3) by (simp add: bs_def drop_take min_absorb1 flip: take_add)
      then show ?thesis
        using that sz(3) ok unfolding encoded_def
        by (intro exI [of _ m] exI [of _ "[bs]"])
          (auto simp: pt intro: exI [of _ "drop m bs"] sym)
    qed
    show ?thesis
    proof (cases e)
      case (Some err)
      then have "y = Done (OfBoth c (EncTarget err), r, w1)"
        using part wp(1) Suc.prems(4) by (simp add: sz_def [symmetric] Let_def)
      then show ?thesis
        using wp(3) here [of r w1 "EncTarget err"] stop [of r 0 w1 "EncTarget err"] by auto
    next
      case None
      obtain z where mp: "move_payload S T k (unat sz) 0 r w1 = Some z"
        using None part wp(1) Suc.prems(4) by (auto simp: sz_def [symmetric] Let_def split: option.splits)
      have lt: "unat sz < 2 ^ 64"
        using sz(3) Suc.prems(3) by linarith
      from move_payload_spec [OF Suc.prems(1) wp(2) _ _ lt mp] sz(3) obtain e2 m r1 w2 where
        *: "z = Done (e2, m, r1, w2)" "rok r1" "wok w2" "outs r1 = drop m (outs r)"
          "ins w2 = ins w1 @ take m (outs r)" "m \<le> unat sz" "e2 = None \<longrightarrow> m = unat sz"
          "e2 \<noteq> Some EncInvalid"
        by auto
      show ?thesis
      proof (cases e2)
        case (Some err)
        then have "y = Done (OfBoth (c + m) err, r1, w2)"
          using None part wp(1) mp *(1) Suc.prems(4) by (simp add: sz_def [symmetric] Let_def)
        then show ?thesis
          using stop [of r1 m w2 err] * None wp(3) Some by auto
      next
        case N2: None
        then have y: "multipart_send S T p cancelled k (c + unat sz) r1 w2 = Some y"
          using None part wp(1) mp * Suc.prems(4) by (simp add: sz_def [symmetric] Let_def)
        have "length (outs r1) < 2 ^ 64"
          using *(4) Suc.prems(3) by simp
        from Suc.IH [OF *(2,3) this y] show ?thesis
          using encoded_part [of p cancelled c "unat sz" r1 w2 _ _ _ r w] N2 * wp(3) None ok sz(3)
          by (auto simp: pt [unfolded bs_def] bs_def)
      qed
    qed
  qed
qed


text \<open>Fuel: every round moves a byte, ends the run, or waits for one to arrive.\<close>

lemma move_payload_fuel:
  assumes "rok r" "wok w" "cc \<le> sz" "sz - cc \<le> length (outs r)" "sz < 2 ^ 64" "sz - cc < k"
  shows "move_payload S T k sz cc r w \<noteq> None"
  using assms
proof (induction k arbitrary: cc r w)
  case 0
  then show ?case by simp
next
  case (Suc k)
  show ?case
  proof (cases "sz \<le> cc")
    case False
    obtain x w1 where sp: "th_space T (AtLeast 1) w = (x, w1)"
      by fastforce
    show ?thesis
    proof (cases "pick_left x")
      case None
      then show ?thesis
        using False sp by (cases x) auto
    next
      case (Some ns)
      have ok: "piece_ok ns" "0 < sum_list ns"
        using space_lends [OF Suc.prems(2) sp Some] by (simp_all add: max_usize)
      from fill_segm_spec [OF Suc.prems(1) ok(1) Suc.prems(3-5), of "[]"]
      obtain e :: "('re, 'we) encode_error option" and m r1 where
        f: "fill_segm S sz cc ns [] r = Done (e, cc + m, take m (outs r), r1)" "rok r1"
          "outs r1 = drop m (outs r)" "m \<le> sum_list ns" "cc + m \<le> sz"
          "e = None \<longrightarrow> m = sum_list ns \<or> cc + m = sz"
        by auto
      have "move_payload S T k sz (cc + m) r1 (th_put T (take m (outs r)) w1) \<noteq> None" if "e = None"
        using that f ok(2) False Suc.prems put_appends [OF Suc.prems(2) sp Some, of "take m (outs r)"]
        by (intro Suc.IH) auto
      then show ?thesis
        using False sp Some f(1) by (cases e) (auto split: option.split)
    qed
  qed simp
qed

lemma multipart_send_fuel:
  assumes "rok r" "wok w" "length (outs r) < 2 ^ 64"
    "2 * length (outs r) + (if sh_size S r = 0 then 1 else 0) < k"
  shows "multipart_send S T p cancelled k c r w \<noteq> None"
  using assms
proof (induction k arbitrary: c r w)
  case 0
  then show ?case by simp
next
  case (Suc k)
  show ?case
  proof (cases "sh_size S r = 0")
    case True
    obtain x r1 where rd: "sh_read S (AtLeast 1) r = (x, r1)"
      by fastforce
    show ?thesis
    proof (cases "pick_right x")
      case (Some e)
      then show ?thesis
        using True rd by (auto simp: Let_def)
    next
      case None
      then obtain ps where ps: "pick_left x = Some ps"
        by (cases x) auto
      have "rok (sh_take S 0 r1)" "outs (sh_take S 0 r1) = outs r" "sh_size S (sh_take S 0 r1) \<noteq> 0"
        using take_moves [OF Suc.prems(1) rd ps, of 0] read_waits [OF Suc.prems(1) rd ps] by auto
      then have "multipart_send S T p cancelled k c (sh_take S 0 r1) w \<noteq> None"
        using Suc.prems True by (intro Suc.IH) auto
      then show ?thesis
        using True rd ps None by (auto simp: Let_def)
    qed
  next
    case False
    define sz where "sz = min (sh_size S r) (PREFIX_MAX p - 1)"
    have "PREFIX_MAX p - 1 \<noteq> 0"
      by (cases p) (simp_all add: PREFIX_MAX_def)
    then have sz: "0 < unat sz" "unat sz \<le> length (outs r)"
      using False size_available [OF Suc.prems(1)]
      by (auto simp: sz_def min_def word_le_nat_alt unat_eq_zero intro: gr0I)
    from write_prefix_spec(1) [OF Suc.prems(2), of p sz] obtain e w1 where
      wp: "write_prefix T p sz w = Done (e, w1)" "wok w1"
      by blast
    have lt: "unat sz < 2 ^ 64"
      using sz(2) Suc.prems(3) by linarith
    have "move_payload S T k (unat sz) 0 r w1 \<noteq> None"
      using sz Suc.prems lt False by (intro move_payload_fuel [OF Suc.prems(1) wp(2)]) auto
    then obtain z where mp: "move_payload S T k (unat sz) 0 r w1 = Some z"
      by blast
    from move_payload_spec [OF Suc.prems(1) wp(2) _ _ lt mp] sz(2) obtain e2 m r1 w2 where
      *: "z = Done (e2, m, r1, w2)" "rok r1" "wok w2" "outs r1 = drop m (outs r)"
        "e2 = None \<longrightarrow> m = unat sz"
      by auto
    have "multipart_send S T p cancelled k (c + m) r1 w2 \<noteq> None" if "e2 = None"
      using that * sz Suc.prems False by (intro Suc.IH) auto
    then show ?thesis
      using False wp(1) mp *(1) by (cases e; cases e2) (auto simp: sz_def [symmetric] Let_def)
  qed
qed

end

section \<open>What the decoder reads\<close>

text \<open>
  A session of the caller: each request has the state of the token, the demand and how much of the
  lent segment the caller consumes before dropping it.
\<close>

fun recv_session ::
    "('re, u8, 'r) src_half \<Rightarrow> multipart_prefix \<Rightarrow> (bool \<times> usize demand \<times> nat) list \<Rightarrow> multipart_recv \<Rightarrow> 'r
     \<Rightarrow> (u8 list \<times> 're recv_error option \<times> multipart_recv \<times> 'r) run" where
  "recv_session S p [] st r = Done ([], None, st, r)"
| "recv_session S p ((cancelled, d, n) # rs) st r =
     (case recv_read S p cancelled d st r of
        Panic m \<Rightarrow> Panic m
      | Done (Inl e, st1, r1) \<Rightarrow> Done ([], Some e, st1, r1)
      | Done (Inr ps, st1, r1) \<Rightarrow>
          (case recv_drop S (min n (length (concat ps))) st1 r1 of
             Panic m \<Rightarrow> Panic m
           | Done (st2, r2) \<Rightarrow>
               run_map (\<lambda>(bs, e, st3, r3). (take n (concat ps) @ bs, e, st3, r3))
                 (recv_session S p rs st2 r2)))"

locale multipart_source = source_half S rok outs
  for S :: "('re, u8, 'r) src_half" and rok :: "'r \<Rightarrow> bool" and outs :: "'r \<Rightarrow> u8 list"
begin

text \<open>
  \<open>cur\<close> is left of the current part, \<open>bss\<close> are the parts to come and \<open>tail\<close> is behind them; once the
  terminator is read only \<open>tail\<close> is left.
\<close>

definition recv_rel ::
    "multipart_prefix \<Rightarrow> u8 list \<Rightarrow> u8 list list \<Rightarrow> u8 list \<Rightarrow> multipart_recv \<Rightarrow> 'r \<Rightarrow> bool" where
  "recv_rel p cur bss rest st r =
     (rok r \<and> (\<forall>bs\<in>set bss. part_ok p bs) \<and> length cur < 2 ^ prefix_bits p
      \<and> (if mr_eof st then cur = [] \<and> bss = [] \<and> outs r = rest
         else mr_payload_left st = length cur \<and> outs r = cur @ parts p bss @ zero_bytes p @ rest))"

lemma recv_rel_new:
  "rok r \<Longrightarrow> outs r = parts p bss @ zero_bytes p @ rest \<Longrightarrow> \<forall>bs\<in>set bss. part_ok p bs \<Longrightarrow>
     recv_rel p [] bss rest recv_new r"
  by (simp add: recv_rel_def recv_new_def)

lemma recv_prefix_spec:
  assumes rel: "recv_rel p cur bss rest st r" and eof: "\<not> mr_eof st"
  shows "\<exists>res st' r' cur' bss'. recv_prefix S p st r = (res, st', r') \<and> recv_rel p cur' bss' rest st' r'
    \<and> cur @ concat bss = cur' @ concat bss'
    \<and> (case res of Inr _ \<Rightarrow> cur' \<noteq> [] \<and> \<not> mr_eof st' | Inl e \<Rightarrow> e \<noteq> RecvInvalid \<and> (e = RecvEof \<longrightarrow> mr_eof st'))"
proof (cases "cur = []")
  case False
  then show ?thesis
    using rel eof by (auto simp: recv_prefix_def recv_rel_def split: if_splits)
next
  case True
  let ?d = "AtLeast (of_nat (PREFIX_LEN p)) :: usize demand"
  have r: "rok r" and out: "outs r = parts p bss @ zero_bytes p @ rest" and pl: "mr_payload_left st = 0"
    using rel eof True by (auto simp: recv_rel_def)
  have low: "lower ?d = PREFIX_LEN p" "lower ?d \<le> upper ?d" "0 < upper ?d"
    using prefix_len(1) [of p] by (auto simp: max_usize)
  obtain h t where ht: "outs r = h @ t" "length h = PREFIX_LEN p"
    and hd: "bss = [] \<and> h = zero_bytes p \<and> t = rest \<or>
      (\<exists>bs bss'. bss = bs # bss' \<and> h = prefix_bytes p (of_nat (length bs))
         \<and> t = bs @ parts p bss' @ zero_bytes p @ rest)"
  proof (cases bss)
    case Nil
    then show ?thesis
      using that [of "zero_bytes p" rest] out by simp
  next
    case (Cons bs bss')
    then show ?thesis
      using that [of "prefix_bytes p (of_nat (length bs))" "bs @ parts p bss' @ zero_bytes p @ rest"] out
      by (simp add: part_def)
  qed
  obtain x r1 where rd: "sh_read S ?d r = (x, r1)"
    by fastforce
  note st = read_stays [OF r rd]
  show ?thesis
  proof (cases "pick_left x")
    case None
    then obtain e where e: "pick_right x = Some e"
      by (cases x) auto
    have "\<not> is_read_eof (sh_tag S e)"
      using read_ends [OF r rd e _ low(2)] ht low(1) prefix_len_bounds(1) [of p] by (auto simp: is_read_eof_def)
    then have "recv_prefix S p st r = (Inl (decode_source_err S e), st, r1)"
      using pl rd None e by (simp add: recv_prefix_def recv_fault_def)
    moreover have "recv_rel p [] bss rest st r1"
      using rel True st by (simp add: recv_rel_def)
    moreover have "decode_source_err S e \<notin> {RecvInvalid, RecvEof}"
      by (simp add: decode_source_err_def)
    ultimately show ?thesis
      using True by auto
  next
    case (Some ps)
    from read_lends [OF r rd Some low(3,2)] obtain tl where
      l: "outs r = concat ps @ tl" "length (concat ps) < lower ?d \<longrightarrow> tl = []"
      by blast
    have len: "PREFIX_LEN p \<le> length (concat ps)"
    proof (rule ccontr)
      assume n: "\<not> PREFIX_LEN p \<le> length (concat ps)"
      then have "tl = []"
        using l(2) low(1) by simp
      then have "concat ps = h @ t"
        using l(1) ht(1) by simp
      then have "length (concat ps) = length h + length t"
        by (simp only: length_append)
      then show False
        using n ht(2) by linarith
    qed
    have h: "take (PREFIX_LEN p) (concat ps) = h"
    proof -
      have "take (PREFIX_LEN p) (outs r) = take (PREFIX_LEN p) (concat ps)"
        unfolding l(1) using len by simp
      then show ?thesis
        using ht by simp
    qed
    define r2 where "r2 = sh_take S (PREFIX_LEN p) r1"
    have r2: "rok r2" "outs r2 = t"
      using take_moves [OF r rd Some len] ht by (simp_all add: r2_def)
    have step: "recv_prefix S p st r =
        (if prefix_value h = 0 then (Inl RecvEof, st\<lparr>mr_eof := True\<rparr>, r2)
         else (Inr (), st\<lparr>mr_payload_left := unat (prefix_value h)\<rparr>, r2))"
      using pl rd Some h ht(2) by (simp add: recv_prefix_def Let_def r2_def)
    from hd show ?thesis
    proof (elim disjE exE conjE)
      assume *: "bss = []" "h = zero_bytes p" "t = rest"
      then have "recv_rel p [] [] rest (st\<lparr>mr_eof := True\<rparr>) r2"
        using r2 by (simp add: recv_rel_def)
      then show ?thesis
        using step * True by (auto simp: prefix_of_zero)
    next
      fix bs bss'
      assume *: "bss = bs # bss'" "h = prefix_bytes p (of_nat (length bs))"
        "t = bs @ parts p bss' @ zero_bytes p @ rest"
      have ok: "part_ok p bs" "\<forall>bs\<in>set bss'. part_ok p bs"
        using rel *(1) by (auto simp: recv_rel_def)
      have v: "unat (prefix_value h) = length bs"
        using prefix_of_part [OF ok(1)] *(2) by simp
      then have "prefix_value h \<noteq> 0"
        using ok(1) by (auto simp: part_ok_def)
      moreover have "recv_rel p bs bss' rest (st\<lparr>mr_payload_left := unat (prefix_value h)\<rparr>) r2"
        using r2 ok eof *(3) by (simp add: recv_rel_def v part_ok_def)
      ultimately show ?thesis
        using step *(1) True ok(1) eof by (auto simp: part_ok_def)
    qed
  qed
qed

lemma recv_demand_bounds:
  assumes "0 < left" "left < 2 ^ 64"
  shows "\<exists>d'. recv_demand d left = Done d' \<and> upper d' = left \<and> lower d' \<le> upper d' \<and> lower d' < left"
  using assms
  by (auto simp: recv_demand_def demand_between_def word_less_nat_alt unat_small split: option.split)

lemma recv_read_spec:
  assumes rel: "recv_rel p cur bss rest st r"
  shows "\<exists>res st' r' cur' bss'. recv_read S p cancelled d st r = Done (res, st', r')
    \<and> cur @ concat bss = cur' @ concat bss'
    \<and> (case res of
         Inl e \<Rightarrow> recv_rel p cur' bss' rest st' r' \<and> e \<noteq> RecvInvalid \<and> (e = RecvEof \<longrightarrow> mr_eof st')
       | Inr ps \<Rightarrow> (\<exists>tl. cur' = concat ps @ tl) \<and> concat ps \<noteq> []
           \<and> (\<forall>n\<le>length (concat ps). \<exists>st2. recv_drop S n st' r' = Done (st2, sh_take S n r')
                \<and> recv_rel p (drop n cur') bss' rest st2 (sh_take S n r')))"
proof (cases "cancelled \<or> mr_eof st")
  case True
  then show ?thesis
    using rel by (cases cancelled) (auto simp: recv_read_def)
next
  case False
  then obtain res st1 r1 cur' bss' where
    pr: "recv_prefix S p st r = (res, st1, r1)" "recv_rel p cur' bss' rest st1 r1"
      "cur @ concat bss = cur' @ concat bss'"
      "case res of Inr _ \<Rightarrow> cur' \<noteq> [] \<and> \<not> mr_eof st1 | Inl e \<Rightarrow> e \<noteq> RecvInvalid \<and> (e = RecvEof \<longrightarrow> mr_eof st1)"
    using recv_prefix_spec [OF rel] by blast
  show ?thesis
  proof (cases res)
    case (Inl e)
    then show ?thesis
      using False pr by (auto simp: recv_read_def)
  next
    case (Inr u)
    then have cur: "cur' \<noteq> []" "\<not> mr_eof st1" "mr_payload_left st1 = length cur'" "rok r1"
      "outs r1 = cur' @ parts p bss' @ zero_bytes p @ rest" "length cur' < 2 ^ 64"
      using pr(2,4) small_len by (auto simp: recv_rel_def split: if_splits)
    from recv_demand_bounds [of "length cur'" d] cur(1,6) obtain d' where
      d': "recv_demand d (length cur') = Done d'" "upper d' = length cur'" "lower d' \<le> upper d'"
        "lower d' < length cur'"
      by auto
    obtain x r2 where rd: "sh_read S d' r1 = (x, r2)"
      by fastforce
    note stays = read_stays [OF cur(4) rd]
    show ?thesis
    proof (cases "pick_left x")
      case None
      then obtain e where e: "pick_right x = Some e"
        by (cases x) auto
      have "\<not> is_read_eof (sh_tag S e)"
        using read_ends [OF cur(4) rd e] cur(1,5) d'(3,4) by (auto simp: is_read_eof_def)
      then have "recv_read S p cancelled d st r = Done (Inl (decode_source_err S e), st1, r2)"
        using False pr(1) Inr cur(3) d'(1) rd None e by (simp add: recv_read_def recv_fault_def)
      moreover have "recv_rel p cur' bss' rest st1 r2"
        using pr(2) stays by (simp add: recv_rel_def)
      moreover have "decode_source_err S e \<notin> {RecvInvalid, RecvEof}"
        by (simp add: decode_source_err_def)
      ultimately show ?thesis
        using pr(3) by auto
    next
      case (Some ps)
      have "0 < upper d'"
        using d'(2) cur(1) by simp
      from read_lends [OF cur(4) rd Some this d'(3)] obtain tl where
        l: "concat ps \<noteq> []" "length (concat ps) \<le> length cur'" "outs r1 = concat ps @ tl"
        using d'(2) by auto
      have front: "\<exists>tl. cur' = concat ps @ tl"
        using l(2,3) cur(5) by (metis append_eq_append_conv_if append_take_drop_id)
      have drop: "\<exists>st2. recv_drop S n st1 r2 = Done (st2, sh_take S n r2)
          \<and> recv_rel p (drop n cur') bss' rest st2 (sh_take S n r2)" if n: "n \<le> length (concat ps)" for n
      proof -
        have "n \<le> length cur'"
          using n l(2) by linarith
        then show ?thesis
          using take_moves [OF cur(4) rd Some n] pr(2) cur by (auto simp: recv_drop_def recv_rel_def)
      qed
      have "recv_read S p cancelled d st r = Done (Inr ps, st1, r2)"
        using False pr(1) Inr cur(3) d'(1) rd Some by (simp add: recv_read_def)
      then show ?thesis
        using pr(3) l(1) front drop by auto
    qed
  qed
qed

lemma recv_session_spec:
  assumes "recv_rel p cur bss rest st r"
  shows "\<exists>got e st' r'. recv_session S p rs st r = Done (got, e, st', r') \<and> e \<noteq> Some RecvInvalid
    \<and> (\<exists>cur' bss'. cur @ concat bss = got @ cur' @ concat bss' \<and> recv_rel p cur' bss' rest st' r')
    \<and> (e = Some RecvEof \<longrightarrow> got = cur @ concat bss \<and> outs r' = rest)
    \<and> (e = None \<longrightarrow> (\<forall>q\<in>set rs. 0 < snd (snd q)) \<longrightarrow> length rs \<le> length got)"
  using assms
proof (induction rs arbitrary: cur bss st r)
  case Nil
  then show ?case
    by auto
next
  case (Cons q rs)
  obtain cancelled d n where q: "q = (cancelled, d, n)"
    by (cases q)
  from recv_read_spec [OF Cons.prems, of cancelled d] obtain res st1 r1 cur' bss' where
    rd: "recv_read S p cancelled d st r = Done (res, st1, r1)" "cur @ concat bss = cur' @ concat bss'"
      "case res of
         Inl e \<Rightarrow> recv_rel p cur' bss' rest st1 r1 \<and> e \<noteq> RecvInvalid \<and> (e = RecvEof \<longrightarrow> mr_eof st1)
       | Inr ps \<Rightarrow> (\<exists>tl. cur' = concat ps @ tl) \<and> concat ps \<noteq> []
           \<and> (\<forall>n\<le>length (concat ps). \<exists>st2. recv_drop S n st1 r1 = Done (st2, sh_take S n r1)
                \<and> recv_rel p (drop n cur') bss' rest st2 (sh_take S n r1))"
    by blast
  show ?case
  proof (cases res)
    case (Inl e)
    then have run: "recv_session S p (q # rs) st r = Done ([], Some e, st1, r1)"
      using q rd(1) by simp
    have e: "recv_rel p cur' bss' rest st1 r1" "e \<noteq> RecvInvalid" "e = RecvEof \<longrightarrow> mr_eof st1"
      using rd(3) Inl by simp_all
    have eof: "Some e = Some RecvEof \<longrightarrow> [] = cur @ concat bss \<and> outs r1 = rest"
      using e(1,3) rd(2) by (auto simp: recv_rel_def)
    have "\<exists>cur' bss'. cur @ concat bss = [] @ cur' @ concat bss' \<and> recv_rel p cur' bss' rest st1 r1"
      using e(1) rd(2) by auto
    then show ?thesis
      using run e(2) eof by blast
  next
    case (Inr ps)
    define m where "m = min n (length (concat ps))"
    obtain tl where tl: "cur' = concat ps @ tl"
      using rd(3) Inr by auto
    have "m \<le> length (concat ps)"
      by (simp add: m_def)
    then obtain st2 where st2: "recv_drop S m st1 r1 = Done (st2, sh_take S m r1)"
      "recv_rel p (drop m cur') bss' rest st2 (sh_take S m r1)"
      using rd(3) Inr by auto
    have tk: "take m cur' = take n (concat ps)"
      by (simp add: tl m_def min_def)
    from Cons.IH [OF st2(2)] obtain got e st' r' cur2 bss2 where
      *: "recv_session S p rs st2 (sh_take S m r1) = Done (got, e, st', r')" "e \<noteq> Some RecvInvalid"
        "drop m cur' @ concat bss' = got @ cur2 @ concat bss2" "recv_rel p cur2 bss2 rest st' r'"
        "e = Some RecvEof \<longrightarrow> got = drop m cur' @ concat bss' \<and> outs r' = rest"
        "e = None \<longrightarrow> (\<forall>q\<in>set rs. 0 < snd (snd q)) \<longrightarrow> length rs \<le> length got"
      by blast
    have run: "recv_session S p (q # rs) st r = Done (take n (concat ps) @ got, e, st', r')"
      using q rd(1) Inr st2(1) *(1) by (simp add: m_def)
    have split: "cur @ concat bss = take n (concat ps) @ drop m cur' @ concat bss'"
      using rd(2) tk by (metis append.assoc append_take_drop_id)
    have "concat ps \<noteq> []"
      using rd(3) Inr by simp
    then have "1 \<le> length (take n (concat ps))" if "0 < n"
      using that by (simp add: Suc_le_eq del: length_concat concat_eq_Nil_conv)
    then have len: "e = None \<longrightarrow> (\<forall>q\<in>set (q # rs). 0 < snd (snd q)) \<longrightarrow>
        length (q # rs) \<le> length (take n (concat ps) @ got)"
      using *(6) q by (auto simp del: length_take length_concat)
    have "\<exists>cur' bss'. cur @ concat bss = (take n (concat ps) @ got) @ cur' @ concat bss'
        \<and> recv_rel p cur' bss' rest st' r'"
      using split *(3,4) by auto
    moreover have "e = Some RecvEof \<longrightarrow> take n (concat ps) @ got = cur @ concat bss \<and> outs r' = rest"
      using split *(5) by auto
    ultimately show ?thesis
      using run *(2) len by blast
  qed
qed

end

end
