(* ===== verification/Ring_Half.thy ===== *)
theory Ring_Half
  imports Ring_Fifo Pipe_Join Multipart
begin

text \<open>
  The halves of the ring buffer as generic code uses them (\<open>buffex/src/ring_buffer/rx_.rs\<close>, \<open>tx_.rs\<close>, their
  impls of the traits of \<open>abs_buff\<close>): the reading half is a source and the writing half a target in the
  sense of \<open>Io_Half\<close>, while the runtime holds no reservation. As in the halves of the circular buffer,
  nobody else acts on the ring here, and a wait that would not be answered is answered with the error
  of the synchronous attempt.
\<close>

section \<open>The halves\<close>

type_synonym 'a ring_half = "'a ring \<times> recl option"

definition ring_src :: "(rx_error, 'a, 'a ring_half) src_half" where
  "ring_src =
     \<lparr>sh_tag = rx_err_tag,
      sh_size = (\<lambda>(r, _). data_of r),
      sh_drained = (\<lambda>(r, _). rx_is_drained_closing r),
      sh_read = (\<lambda>d (r, _).
         case rx_try_read r d of
           Inl e \<Rightarrow> (OfRight e, r, None)
         | Inr g \<Rightarrow> (OfLeft (recl_view (rmem r) g), r, Some g)),
      sh_take = (\<lambda>n (r, lent).
         case lent of
           None \<Rightarrow> (r, None)
         | Some g \<Rightarrow> (drop_read_segm ConsumeRead (g\<lparr>roff := n\<rparr>) r, None))\<rparr>"

definition ring_tgt :: "(tx_error, 'a, 'a ring_half) tgt_half" where
  "ring_tgt =
     \<lparr>th_tag = tx_err_tag,
      th_stuffed = (\<lambda>(r, _). tx_is_blocked_closing r),
      th_space = (\<lambda>d (r, _).
         case tx_try_write r d of
           Inl e \<Rightarrow> (OfRight e, r, None)
         | Inr g \<Rightarrow> (OfLeft (map snd (recl_iter_slices g)), r, Some g)),
      th_put = (\<lambda>xs (r, lent).
         case lent of
           None \<Rightarrow> (r, None)
         | Some g \<Rightarrow>
             (case recl_move_items_from_buff (rmem r) g (map Some xs) of
                (m, g', n) \<Rightarrow> (drop_write_segm g' (r\<lparr>rmem := m\<rparr>), None)))\<rparr>"

definition ring_half_ok :: "'a ring_half \<Rightarrow> bool" where
  "ring_half_ok h =
     (ring_ok (fst h) \<and> \<not> sending (ring_view (rword (fst h))) \<and> \<not> receiving (ring_view (rword (fst h))))"

definition ring_items :: "'a ring_half \<Rightarrow> 'a list" where
  "ring_items h = map the (ring_queue (fst h))"

lemma length_ring_items [simp]: "length (ring_items h) = ring_data (fst h)"
  by (simp add: ring_items_def)

lemma ring_size: "sh_size ring_src h = data_of (fst h)"
  by (cases h) (simp add: ring_src_def)

lemma demand_bounds_nat: "demand_bounds d = (l, u) \<Longrightarrow> unat l = lower d \<and> unat u = upper d"
  by (cases d) (auto simp: demand_bounds_def lower_def upper_def split: option.splits)

lemma ring_segm_ok:
  assumes "ring_ok r" "unat s < length (rmem r)" "unat n \<le> length (rmem r)"
  shows "recl_ok (rmem r) (write_segm r s n)" "pieces_len (rpieces (write_segm r s n)) = unat n"
    "recl_ok (rmem r) (read_segm r s n)" "pieces_len (rpieces (read_segm r s n)) = unat n"
proof -
  note a = segm_addrs [OF assms]
  have "0 < length (rmem r)"
    using assms(2) by linarith
  then show "recl_ok (rmem r) (write_segm r s n)" "recl_ok (rmem r) (read_segm r s n)"
    by (auto simp: recl_ok_def a ring_addrs_less)
  show "pieces_len (rpieces (write_segm r s n)) = unat n" "pieces_len (rpieces (read_segm r s n)) = unat n"
    using arg_cong [OF a(1), of length] arg_cong [OF a(2), of length] by simp_all
qed

section \<open>The reading half\<close>

lemma ring_read_cases:
  assumes "ring_half_ok h" "sh_read ring_src d h = (x, h')"
  obtains (err) e where "x = OfRight e" "h' = (fst h, None)"
      "lower d \<le> upper d \<Longrightarrow> ring_data (fst h) < max 1 (lower d)"
  | (lend) g n where "x = OfLeft (recl_view (rmem (fst h)) g)" "h' = (fst h, Some g)"
      "n = min (upper d) (ring_data (fst h))" "lower d \<le> n" "0 < ring_data (fst h)"
      "concat (recl_view (rmem (fst h)) g) = take n (ring_items h)" "[] \<notin> set (recl_view (rmem (fst h)) g)"
proof -
  let ?r = "fst h"
  have ok: "ring_ok ?r" and ns: "\<not> sending (ring_view (rword ?r))"
    using assms(1) by (simp_all add: ring_half_ok_def)
  obtain l u where b: "demand_bounds d = (l, u)" "unat l = lower d" "unat u = upper d"
    using demand_bounds_nat by (metis surj_pair)
  let ?s = "fst (ring_unpack (rword ?r))" and ?t = "min u (data_of ?r)"
  have t: "unat ?t = min (upper d) (ring_data ?r)"
    by (simp add: unat_min unat_data_of [OF ok] b(3))
  note at = try_read_at_spec [OF ok, of u]
  show thesis
  proof (cases "ring_data ?r = 0 \<or> ?t < l")
    case True
    then have "\<exists>e. rx_try_read ?r d = Inl e"
      using at ns by (auto simp: rx_try_read_def b(1) Let_def split: if_splits)
    then obtain e where "rx_try_read ?r d = Inl e"
      by blast
    moreover have "ring_data ?r < max 1 (lower d)" if "lower d \<le> upper d"
      using True that t b(2) by (auto simp: word_less_nat_alt)
    ultimately show thesis
      using err [of e] assms(2) by (cases h) (simp add: ring_src_def)
  next
    case False
    define g where "g = read_segm ?r ?s ?t"
    have rd: "rx_try_read ?r d = Inr g"
      using False at ns by (simp add: rx_try_read_def b(1) Let_def g_def not_less)
    have s: "unat ?s = rp_of ?r" "unat ?s < length (rmem ?r)"
      using ring_ok_pos [OF ok] by (simp_all add: ring_view_def case_prod_beta)
    have le: "unat ?t \<le> length (rmem ?r)"
      using t ring_sizes(1) [OF ok] by linarith
    note a = segm_addrs(2,4) [OF ok s(2) le, folded g_def] and gok = ring_segm_ok(3) [OF ok s(2) le, folded g_def]
    have "concat (recl_view (rmem ?r) g) = take (unat ?t) (ring_items h)"
      using recl_view_concat [OF gok a(2)] t
      by (simp add: a(1) ring_items_def ring_queue_def take_mem_get take_ring_addrs take_map s(1))
    moreover have "lower d \<le> unat ?t" "0 < ring_data ?r"
      using False b(2) by (simp_all add: not_less word_le_nat_alt)
    ultimately show thesis
      using lend [of g "unat ?t"] rd assms(2) t recl_view_nonempty [OF gok a(2)]
      by (cases h) (simp add: ring_src_def)
  qed
qed

lemma ring_take:
  assumes "ring_half_ok (r, x)" "n \<le> ring_data r" "h' = sh_take ring_src n (r, Some g)"
  shows "ring_half_ok h'" "ring_items h' = drop n (ring_items (r, x))" "ring_data (fst h') = ring_data r - n"
proof -
  have ok: "ring_ok r"
    using assms(1) by (simp add: ring_half_ok_def)
  have "ring_data r < 2 ^ 64"
    using ring_sizes(1) [OF ok] ok by (simp add: ring_ok_def)
  then have u: "unat (of_nat n :: usize) = n"
    using assms(2) by (simp add: unat_of_nat)
  have h: "h' = (ring_advance_read (of_nat n) r, None)"
    by (simp add: assms(3) ring_src_def drop_read_segm_def)
  note q = consumer_queue [of r "of_nat n" "ring_advance_read (of_nat n) r", OF ok, unfolded u, OF assms(2)]
  show "ring_half_ok h'"
    using q(1) assms(1) advance_read_view(1) [OF ok, of "of_nat n", unfolded u, OF assms(2)]
    by (simp add: h ring_half_ok_def)
  show "ring_items h' = drop n (ring_items (r, x))" "ring_data (fst h') = ring_data r - n"
    using q(2,4) by (simp_all add: h ring_items_def drop_map)
qed

interpretation ring_source: source_half "ring_src :: (rx_error, 'a, 'a ring_half) src_half" ring_half_ok ring_items
proof
  fix h h' :: "'a ring_half" and d x
  assume h: "ring_half_ok h" "sh_read ring_src d h = (x, h')"
  show "ring_half_ok h' \<and> ring_items h' = ring_items h"
    by (cases rule: ring_read_cases [OF h]) (use h in \<open>simp_all add: ring_half_ok_def ring_items_def\<close>)
  {
    fix e
    assume "pick_right x = Some e" "lower d \<le> upper d"
    then show "length (ring_items h) < max 1 (lower d)"
      by (cases rule: ring_read_cases [OF h]) simp_all
  }
  fix ps
  assume ps: "pick_left x = Some ps"
  {
    assume up: "0 < upper d" "lower d \<le> upper d"
    show "[] \<notin> set ps \<and> concat ps \<noteq> [] \<and> length (concat ps) \<le> upper d
      \<and> (\<exists>rest. ring_items h = concat ps @ rest \<and> (length (concat ps) < lower d \<longrightarrow> rest = []))"
    proof (cases rule: ring_read_cases [OF h])
      case (2 g n)
      then have cat: "concat ps = take n (ring_items h)" "[] \<notin> set ps"
        using ps by simp_all
      then have len: "length (concat ps) = n"
        using 2(3) by (simp del: length_concat)
      have "ring_items h = concat ps @ drop n (ring_items h)"
        by (simp only: cat append_take_drop_id)
      moreover have "0 < n" "n \<le> upper d" "\<not> n < lower d"
        using 2(3-5) up(1) by auto
      moreover have "concat ps \<noteq> []"
        using len \<open>0 < n\<close> by (metis less_irrefl list.size(3))
      ultimately show ?thesis
        using cat(2) unfolding len by blast
    qed (use ps in simp)
  }
  {
    fix n
    assume n: "n \<le> length (concat ps)"
    show "ring_half_ok (sh_take ring_src n h') \<and> ring_items (sh_take ring_src n h') = drop n (ring_items h)"
    proof (cases rule: ring_read_cases [OF h])
      case (2 g j)
      then have "n \<le> ring_data (fst h)"
        using n ps by (simp del: length_concat)
      then show ?thesis
        using ring_take(1,2) [of "fst h" "snd h" n _ g] h(1) 2(2) by simp
    qed (use ps in simp)
  }
next
  fix h h' :: "'a ring_half" and x ps
  assume h: "ring_half_ok h" "sh_read ring_src (AtLeast 1) h = (x, h')" and ps: "pick_left x = Some ps"
  show "sh_size ring_src (sh_take ring_src 0 h') \<noteq> 0"
  proof (cases rule: ring_read_cases [OF h])
    case (2 g j)
    let ?t = "sh_take ring_src 0 h'"
    have t: "ring_half_ok ?t" "ring_data (fst ?t) = ring_data (fst h)"
      using ring_take(1,3) [of "fst h" "snd h" 0 ?t g] h(1) 2(2) by simp_all
    then have "unat (data_of (fst ?t)) \<noteq> 0"
      using 2(5) unat_data_of [of "fst ?t"] by (simp add: ring_half_ok_def)
    then show ?thesis
      unfolding ring_size by (metis unsigned_0)
  qed (use ps in simp)
next
  fix h :: "'a ring_half"
  assume h: "ring_half_ok h"
  then have d: "unat (data_of (fst h)) = ring_data (fst h)"
    by (simp add: ring_half_ok_def unat_data_of)
  show "unat (sh_size ring_src h) \<le> length (ring_items h)"
    using d by (simp add: ring_size)
  assume "sh_drained ring_src h"
  then have "length (ring_items h) = 0"
    using d by (cases h) (simp add: ring_src_def rx_is_drained_closing_def)
  then show "ring_items h = []"
    by (metis length_0_conv)
qed

section \<open>The writing half\<close>

lemma ring_space_cases:
  assumes "ring_half_ok h" "th_space ring_tgt d h = (x, h')"
  obtains (err) e where "x = OfRight e" "h' = (fst h, None)"
  | (lend) g tk where "x = OfLeft (map snd (recl_iter_slices g))" "h' = (fst h, Some g)"
      "g = write_segm (fst h) (snd (ring_unpack (rword (fst h)))) tk" "unat tk = min (upper d) (ring_free (fst h))"
      "lower d \<le> unat tk" "0 < ring_free (fst h)"
proof -
  let ?r = "fst h"
  have ok: "ring_ok ?r" and nr: "\<not> receiving (ring_view (rword ?r))"
    using assms(1) by (simp_all add: ring_half_ok_def)
  obtain l u where b: "demand_bounds d = (l, u)" "unat l = lower d" "unat u = upper d"
    using demand_bounds_nat by (metis surj_pair)
  let ?t = "min u (free_of ?r)"
  note at = try_write_at_spec [OF ok, of u]
  show thesis
  proof (cases "ring_free ?r = 0 \<or> ?t < l")
    case True
    then have "\<exists>e. tx_try_write ?r d = Inl e"
      using at nr by (auto simp: tx_try_write_def b(1) Let_def split: if_splits)
    then show thesis
      using err assms(2) by (cases h) (auto simp: ring_tgt_def)
  next
    case False
    then have "tx_try_write ?r d = Inr (write_segm ?r (snd (ring_unpack (rword ?r))) ?t)"
      using at nr by (simp add: tx_try_write_def b(1) Let_def not_less)
    then have "x = OfLeft (map snd (recl_iter_slices (write_segm ?r (snd (ring_unpack (rword ?r))) ?t)))"
      "h' = (?r, Some (write_segm ?r (snd (ring_unpack (rword ?r))) ?t))"
      using assms(2) by (cases h; simp add: ring_tgt_def)+
    moreover have "unat ?t = min (upper d) (ring_free ?r)"
      by (simp add: unat_min unat_free_of [OF ok] b(3))
    moreover have "lower d \<le> unat ?t"
      using False b(2) by (simp add: not_less word_le_nat_alt)
    moreover have "0 < ring_free ?r"
      using False by simp
    ultimately show thesis
      by (intro lend [OF _ _ refl])
  qed
qed

lemma ring_put:
  assumes "ring_half_ok (r, x)" "unat tk \<le> ring_free r" "length xs \<le> unat tk"
    "h' = th_put ring_tgt xs (r, Some (write_segm r (snd (ring_unpack (rword r))) tk))"
  shows "ring_half_ok h'" "ring_items h' = ring_items (r, x) @ xs"
proof -
  let ?w = "snd (ring_unpack (rword r))" and ?n = "length xs" and ?L = "length (rmem r)"
  let ?g = "write_segm r ?w tk"
  have ok: "ring_ok r"
    using assms(1) by (simp add: ring_half_ok_def)
  have w: "unat ?w = wp_of r" "unat ?w < ?L"
    using ring_ok_pos [OF ok] by (simp_all add: ring_view_def case_prod_beta)
  have le: "unat tk \<le> ?L" "?n \<le> ring_free r"
    using assms(2,3) ring_sizes(2) [OF ok] by linarith+
  note a = segm_addrs(1,3) [OF ok w(2) le(1)] and gok = ring_segm_ok(1,2) [OF ok w(2) le(1)]
  obtain m g' j where mv: "recl_move_items_from_buff (rmem r) ?g (map Some xs) = (m, g', j)"
    by (metis surj_pair)
  have "recl_move_from (rmem r) ?g (map Some xs) 0 = (m, g', j)" "?n = min (recl_least_count ?g) (length (map Some xs) - 0)"
    using mv assms(3) gok(2) a(2) by (simp_all add: recl_move_items_from_buff_def recl_least_count_def)
  from recl_move_from_spec [OF gok(1) le0 this]
  have g': "roff g' = ?n" and m: "m = mem_put (rmem r) (ring_addrs ?L (wp_of r) ?n) (map Some xs)"
    using a assms(3) w(1) by (simp_all add: take_ring_addrs)
  let ?r2 = "r\<lparr>rmem := m\<rparr>"
  have len: "length m = ?L"
    by (simp add: m)
  have ok2: "ring_ok ?r2" "ring_free ?r2 = ring_free r"
    using ok ring_put_frame [OF len] by simp_all
  have "ring_free r < 2 ^ 64"
  proof (rule less_trans)
    show "ring_free r < 2 ^ 30"
      using ring_sizes(2) [OF ok] ok unfolding ring_ok_def by linarith
  qed simp
  then have u: "unat (of_nat ?n :: usize) = ?n"
    using le(2) by (simp add: unat_of_nat)
  have h: "h' = (ring_advance_write (of_nat ?n) ?r2, None)"
    by (simp add: assms(4) ring_tgt_def mv drop_write_segm_def g')
  have fit: "unat (of_nat ?n :: usize) \<le> ring_free ?r2"
    using le(2) u ok2(2) by simp
  note q = producer_queue [OF ok2(1) fit disjI1 [OF refl]]
  show "ring_half_ok h'"
    using q(1) assms(1) advance_write_view(1) [OF ok2(1) fit] by (simp add: h ring_half_ok_def)
  have "distinct (ring_addrs ?L (wp_of r) ?n)"
    using ring_sizes(2) [OF ok] le(2) by (intro distinct_ring_addrs) linarith
  moreover have "\<forall>a\<in>set (ring_addrs ?L (wp_of r) ?n). a < ?L"
    using ring_addrs_less [of ?L] w(2) by (metis gr_implies_not0 not_gr0)
  ultimately have "mem_get m (ring_addrs ?L (wp_of r) ?n) = map Some xs"
    unfolding m by (intro mem_get_put) simp_all
  moreover have "ring_queue ?r2 = ring_queue r"
    unfolding m by (rule ring_queue_put [OF ok le(2)]) simp
  ultimately show "ring_items h' = ring_items (r, x) @ xs"
    using q(4) u len by (simp add: h ring_items_def comp_def)
qed

interpretation ring_target: target_half "ring_tgt :: (tx_error, 'a, 'a ring_half) tgt_half" ring_half_ok ring_items
proof
  fix h h' :: "'a ring_half" and d x
  assume h: "ring_half_ok h" "th_space ring_tgt d h = (x, h')"
  show "ring_half_ok h' \<and> ring_items h' = ring_items h"
    by (cases rule: ring_space_cases [OF h]) (use h in \<open>simp_all add: ring_half_ok_def ring_items_def\<close>)
  fix ns
  assume ns: "pick_left x = Some ns"
  have lent: "\<exists>tk. ns = map snd (recl_iter_slices g) \<and> h' = (fst h, Some g)
      \<and> g = write_segm (fst h) (snd (ring_unpack (rword (fst h)))) tk \<and> sum_list ns = unat tk \<and> piece_ok ns
      \<and> unat tk = min (upper d) (ring_free (fst h)) \<and> lower d \<le> unat tk \<and> 0 < ring_free (fst h)"
    if "h' = (fst h, Some g)" for g
  proof (cases rule: ring_space_cases [OF h])
    case (2 g' tk)
    have ok: "ring_ok (fst h)"
      using h(1) by (simp add: ring_half_ok_def)
    have "unat (snd (ring_unpack (rword (fst h)))) < length (rmem (fst h))"
      using ring_ok_pos [OF ok] by (simp add: ring_view_def case_prod_beta)
    moreover have "unat tk \<le> length (rmem (fst h))"
      using 2(4) ring_sizes(2) [OF ok] by linarith
    ultimately have "roff g' = 0" "pieces_len (rpieces g') = unat tk"
      using segm_addrs(3) [OF ok] ring_segm_ok(2) [OF ok] 2(3) by simp_all
    then show ?thesis
      using 2 ns that piece_sizes [of g'] by (intro exI [of _ tk]) simp
  qed (use ns in simp)
  obtain g where g: "h' = (fst h, Some g)"
    by (cases rule: ring_space_cases [OF h]) (use ns in auto)
  note l = lent [OF g]
  {
    assume "0 < upper d" "lower d \<le> upper d"
    then show "piece_ok ns \<and> 0 < sum_list ns \<and> lower d \<le> sum_list ns"
      using l by auto
  }
  {
    fix xs :: "'a list"
    assume "length xs \<le> sum_list ns"
    then show "ring_half_ok (th_put ring_tgt xs h') \<and> ring_items (th_put ring_tgt xs h') = ring_items h @ xs"
      using l ring_put [of "fst h" "snd h" _ xs] h(1) g by fastforce
  }
qed

section \<open>Pipes and frames over the ring\<close>

text \<open>With the contracts above, what holds of the pipe and of the multipart framing holds over rings.\<close>

interpretation pj_ring: half_pair
  "ring_src :: (rx_error, 'a, 'a ring_half) src_half" ring_half_ok ring_items
  "ring_tgt :: (tx_error, 'a, 'a ring_half) tgt_half" ring_half_ok ring_items
  by (intro half_pair.intro ring_source.source_half_axioms ring_target.target_half_axioms)

interpretation mp_ring: multipart_pair
  "ring_src :: (rx_error, u8, u8 ring_half) src_half" ring_half_ok ring_items
  "ring_tgt :: (tx_error, u8, u8 ring_half) tgt_half" ring_half_ok ring_items
  by (intro multipart_pair.intro ring_source.source_half_axioms ring_target.target_half_axioms)

interpretation ms_ring: multipart_source
  "ring_src :: (rx_error, u8, u8 ring_half) src_half" ring_half_ok ring_items
  by (intro multipart_source.intro ring_source.source_half_axioms)

text \<open>
  As in the circular buffer, the writing half calls itself stuffed for good whenever it is full, so a
  pipe into a full ring ends instead of waiting for room.
\<close>

lemma full_ring_is_stuffed:
  assumes "ring_half_ok (r, x)"
  shows "tx_is_blocked_closing r = (is_tx_closed r \<or> ring_free r = 0)"
proof -
  have ok: "ring_ok r" and nr: "\<not> receiving (ring_view (rword r))"
    using assms by (simp_all add: ring_half_ok_def)
  show ?thesis
    using try_write_at_spec [OF ok, of 1] nr
    by (auto simp: tx_is_blocked_closing_def has_tx_space_def)
qed

lemma pipe_stops_at_full_ring:
  assumes "ring_half_ok w" "ring_free (fst w) = 0" "item_size \<noteq> 0"
  shows "pipe_join S ring_tgt item_size (Suc j) r w = Some (Done (TxBlocked 0, r, w))"
  using full_ring_is_stuffed [of "fst w" "snd w"] assms
  by (cases w) (simp add: pipe_join_def ring_tgt_def usize_max_def)

text \<open>
  The reading half calls itself drained only when its own end is closed. When the writer has closed
  and everything is read, it neither says so nor reports an error that ends the loop, so a pipe out of
  the ring does not end.
\<close>

lemma pipe_from_closed_ring_never_ends:
  assumes "ring_half_ok r" "ring_data (fst r) = 0" "\<not> is_rx_closed (fst r)" "\<not> th_stuffed T w"
    "item_size \<noteq> 0"
  shows "pipe_join ring_src T item_size k r w = None"
proof -
  have ok: "ring_ok (fst r)" and ns: "\<not> sending (ring_view (rword (fst r)))"
    using assms(1) by (simp_all add: ring_half_ok_def)
  have "\<not> rxc (ring_view (rword (fst r)))"
    using assms(3) by (simp add: is_rx_closed_def ring_view_def case_prod_beta)
  then have e: "try_read_at (fst r) u = Inl (rx_error.RxDrained (fst (ring_unpack (rword (fst r)))))" for u
    using try_read_at_spec [OF ok, of u] assms(2) by simp
  have "pipe_loop ring_src T k 0 (fst r, l) w = None" for l
  proof (induction k arbitrary: l)
    case (Suc k)
    show ?case
      using Suc.IH [of None] assms(3,4)
      by (simp add: ring_src_def rx_is_drained_closing_def rx_try_read_def e usize_max_def case_prod_beta)
  qed simp
  from this [of "snd r"] show ?thesis
    using assms(5) by (simp add: pipe_join_def)
qed

end
