(* ===== verification/Ring_Parking.thy ===== *)
theory Ring_Parking
  imports Ring_Futures
begin

text \<open>
  No wake-up of a parked waiter is lost: \<open>Park::poll\<close> (\<open>state_.rs\<close>) at the granularity of its
  single loads, interleaved with the updates and signals of the other threads. Every update
  that can make a condition true is followed by a signal; until that signal is performed the
  update is owed. The argument is made once in a locale, for conditions that no silent update
  makes true, and interpreted on the conditions of the source.
\<close>

section \<open>Conditions as sequences of loads\<close>

datatype wait_cond =
    TxWritable | RxReadable | RxPeekable | TxWritableAtLeast | RxReadableAtLeast
  | TxFlushed | RxIdle

fun cond_check :: "wait_cond \<Rightarrow> 'a park_check" where
  "cond_check TxWritable = check_tx_writable"
| "cond_check RxReadable = check_rx_readable"
| "cond_check RxPeekable = check_rx_peekable"
| "cond_check TxWritableAtLeast = check_tx_writable_at_least"
| "cond_check RxReadableAtLeast = check_rx_readable_at_least"
| "cond_check TxFlushed = check_tx_flushed"
| "cond_check RxIdle = check_rx_idle"

fun cond_side :: "wait_cond \<Rightarrow> park_side" where
  "cond_side TxWritable = TxUser"
| "cond_side TxWritableAtLeast = TxUser"
| "cond_side RxReadable = RxUser"
| "cond_side RxPeekable = RxUser"
| "cond_side RxReadableAtLeast = RxUser"
| "cond_side TxFlushed = TxRuntime"
| "cond_side RxIdle = RxRuntime"

text \<open>Each disjunct of a condition loads the state word once.\<close>

definition is_ok :: "('e, 'v) rust_result \<Rightarrow> bool" where
  "is_ok x = (case x of Inr _ \<Rightarrow> True | Inl _ \<Rightarrow> False)"

fun cond_loads :: "wait_cond \<Rightarrow> usize \<Rightarrow> ('a ring \<Rightarrow> bool) list" where
  "cond_loads TxWritable n = [\<lambda>r. is_ok (try_write_at r (max n 1))]"
| "cond_loads RxReadable n = [\<lambda>r. is_ok (try_read_at r n), is_rx_closed]"
| "cond_loads RxPeekable n = [\<lambda>r. is_ok (try_peek_at r), is_rx_closed]"
| "cond_loads TxWritableAtLeast n = [\<lambda>r. has_free_at_least r (max n 1)]"
| "cond_loads RxReadableAtLeast n = [\<lambda>r. has_data_at_least r (max n 1), is_rx_closed]"
| "cond_loads TxFlushed n = [has_tx_data, is_tx_closed]"
| "cond_loads RxIdle n = [has_recv_space, is_rx_closed]"

lemma cond_check_loads: "cond_check c r n = (\<exists>a\<in>set (cond_loads c n). a r)"
  by (cases c) (auto simp: check_tx_writable_def check_rx_readable_def check_rx_peekable_def
      check_tx_writable_at_least_def check_rx_readable_at_least_def check_tx_flushed_def
      check_rx_idle_def is_ok_def split: sum.splits)

section \<open>The waiting system\<close>

datatype wait_pc = First nat | Registering | Second nat | Parked | Through

record 'a waitsys =
  wring :: "'a ring"
  wpc :: wait_pc
  owed :: nat

text \<open>The updates that the source follows with \<open>signal_all\<close>.\<close>

definition loud :: "usize \<Rightarrow> (usize \<Rightarrow> usize) \<Rightarrow> bool" where
  "loud cap f =
     ((\<exists>n. f = advance_write_word cap n \<or> f = advance_read_word cap n
         \<or> f = put_back_send_word cap n \<or> f = put_back_recv_word cap n)
      \<or> f = set_flag_word TX_CLOSED \<or> f = set_flag_word RX_CLOSED)"

inductive wait_step ::
    "('a ring \<Rightarrow> bool) list \<Rightarrow> park_side \<Rightarrow> wid \<Rightarrow> waker \<Rightarrow> 'a waitsys \<Rightarrow> 'a waitsys \<Rightarrow> bool"
  for loads side w k where
  first_true: "wpc s = First i \<Longrightarrow> i < length loads \<Longrightarrow> (loads ! i) (wring s) \<Longrightarrow>
     wait_step loads side w k s (s\<lparr>wpc := Through\<rparr>)"
| first_false: "wpc s = First i \<Longrightarrow> i < length loads \<Longrightarrow> \<not> (loads ! i) (wring s) \<Longrightarrow>
     wait_step loads side w k s (s\<lparr>wpc := First (Suc i)\<rparr>)"
| store_waker: "wpc s = First (length loads) \<Longrightarrow>
     wait_step loads side w k s (s\<lparr>wring := (wring s)\<lparr>waiters := (waiters (wring s))(w := Some k)\<rparr>,
       wpc := Registering\<rparr>)"
| registers: "wpc s = Registering \<Longrightarrow> slot_register side w (wring s) = Some r \<Longrightarrow>
     wait_step loads side w k s (s\<lparr>wring := r, wpc := Second 0\<rparr>)"
| second_true: "wpc s = Second i \<Longrightarrow> i < length loads \<Longrightarrow> (loads ! i) (wring s) \<Longrightarrow>
     wait_step loads side w k s (s\<lparr>wring := slot_deregister side w (wring s), wpc := Through\<rparr>)"
| second_false: "wpc s = Second i \<Longrightarrow> i < length loads \<Longrightarrow> \<not> (loads ! i) (wring s) \<Longrightarrow>
     wait_step loads side w k s (s\<lparr>wpc := Second (Suc i)\<rparr>)"
| parks: "wpc s = Second (length loads) \<Longrightarrow> wait_step loads side w k s (s\<lparr>wpc := Parked\<rparr>)"
| update: "loud (capacity (wring s)) f \<Longrightarrow>
     wait_step loads side w k s (s\<lparr>wring := update_state f (wring s), owed := Suc (owed s)\<rparr>)"
| silent_send: "take_send_iovecs (wring s) = (v, r) \<Longrightarrow> wait_step loads side w k s (s\<lparr>wring := r\<rparr>)"
| silent_recv: "take_recv_iovecs (wring s) = (v, r) \<Longrightarrow> wait_step loads side w k s (s\<lparr>wring := r\<rparr>)"
| cells: "length m = length (rmem (wring s)) \<Longrightarrow>
     wait_step loads side w k s (s\<lparr>wring := (wring s)\<lparr>rmem := m\<rparr>\<rparr>)"
| signal: "0 < owed s \<Longrightarrow>
     wait_step loads side w k s (s\<lparr>wring := slot_signal side (wring s), owed := owed s - 1\<rparr>)"
| signal_other: "side' \<noteq> side \<Longrightarrow>
     wait_step loads side w k s (s\<lparr>wring := slot_signal side' (wring s)\<rparr>)"

inductive wait_reachable ::
    "('a ring \<Rightarrow> bool) list \<Rightarrow> park_side \<Rightarrow> wid \<Rightarrow> waker \<Rightarrow> 'a waitsys \<Rightarrow> bool"
  for loads side w k where
  start: "wait_reachable loads side w k \<lparr>wring = r, wpc = First 0, owed = m\<rparr>"
| step: "wait_reachable loads side w k s \<Longrightarrow> wait_step loads side w k s t \<Longrightarrow>
     wait_reachable loads side w k t"

text \<open>
  From registering on, either the waker has been woken or the waiter is still in its slot and
  every disjunct that was seen false and holds now is owed a signal.
\<close>

definition watched :: "('a ring \<Rightarrow> bool) list \<Rightarrow> park_side \<Rightarrow> wid \<Rightarrow> waker \<Rightarrow> nat \<Rightarrow> 'a waitsys \<Rightarrow> bool" where
  "watched loads side w k i s =
     (k \<in> set (woken (wring s))
      \<or> slot (wring s) side = Some w \<and> waiters (wring s) w = Some k
          \<and> (\<forall>j<i. (loads ! j) (wring s) \<longrightarrow> 0 < owed s))"

definition wait_inv :: "('a ring \<Rightarrow> bool) list \<Rightarrow> park_side \<Rightarrow> wid \<Rightarrow> waker \<Rightarrow> 'a waitsys \<Rightarrow> bool" where
  "wait_inv loads side w k s =
     (case wpc s of
        Registering \<Rightarrow> waiters (wring s) w = Some k
      | Second i \<Rightarrow> i \<le> length loads \<and> watched loads side w k i s
      | Parked \<Rightarrow> watched loads side w k (length loads) s
      | _ \<Rightarrow> True)"

section \<open>The contract of a condition\<close>

locale wait_condition =
  fixes loads :: "usize \<Rightarrow> ('a ring \<Rightarrow> bool) list"
  assumes local_load: "a \<in> set (loads n) \<Longrightarrow> rword r1 = rword r2 \<Longrightarrow> length (rmem r1) = length (rmem r2) \<Longrightarrow>
      a r1 = a r2"
    and silent_load: "a \<in> set (loads n) \<Longrightarrow> f = SEND_IN_FLIGHT \<or> f = RECV_IN_FLIGHT \<Longrightarrow>
      a (r\<lparr>rword := rword r OR f\<rparr>) \<Longrightarrow> a r"
begin

lemma watched_mono:
  assumes "watched (loads n) side w k i s" "i \<le> length (loads n)"
    "set (woken (wring s)) \<subseteq> set (woken (wring t))"
    "slot (wring t) side = slot (wring s) side" "waiters (wring t) = waiters (wring s)"
    "\<And>a. a \<in> set (loads n) \<Longrightarrow> a (wring t) \<Longrightarrow> a (wring s) \<or> 0 < owed t" "owed s \<le> owed t"
  shows "watched (loads n) side w k i t"
  using assms by (auto simp: watched_def) (metis gr0I le_zero_eq nth_mem order_less_le_trans)

lemma silent_taken:
  assumes "take_send_iovecs r = (v, r') \<or> take_recv_iovecs r = (v, r')"
  shows "r' = r \<or> (\<exists>f. (f = SEND_IN_FLIGHT \<or> f = RECV_IN_FLIGHT) \<and> r' = r\<lparr>rword := rword r OR f\<rparr>)"
  using assms by (auto simp: take_send_iovecs_def take_recv_iovecs_def Let_def
      split: prod.splits if_splits)

text \<open>The other threads keep the invariant: only the slot, the log and what is owed matter.\<close>

lemma inv_frame:
  assumes "wait_inv (loads n) side w k s" "wpc t = wpc s"
    "set (woken (wring s)) \<subseteq> set (woken (wring t))"
    "slot (wring t) side = slot (wring s) side" "waiters (wring t) = waiters (wring s)"
    "\<And>a. a \<in> set (loads n) \<Longrightarrow> a (wring t) \<Longrightarrow> a (wring s) \<or> 0 < owed t" "owed s \<le> owed t"
  shows "wait_inv (loads n) side w k t"
proof -
  have "watched (loads n) side w k i t" if "watched (loads n) side w k i s" "i \<le> length (loads n)" for i
    by (rule watched_mono [OF that]) (use assms in auto)
  then show ?thesis
    using assms(1,2,5) by (simp add: wait_inv_def split: wait_pc.splits)
qed

lemma step_inv:
  assumes "wait_step (loads n) side w k s t" "wait_inv (loads n) side w k s"
  shows "wait_inv (loads n) side w k t"
  using assms(1)
proof cases
  case (registers r)
  then have "slot r side = Some w" "waiters r = waiters (wring s)" "woken r = woken (wring s)"
    by (auto simp: slot_register_def split: option.splits if_splits)
  then show ?thesis
    using registers assms(2) by (simp add: wait_inv_def watched_def)
next
  case (second_false i)
  then show ?thesis
    using assms(2) by (auto simp: wait_inv_def watched_def less_Suc_eq)
next
  case parks
  then show ?thesis
    using assms(2) by (simp add: wait_inv_def watched_def)
next
  case (update f)
  then show ?thesis
    by (intro inv_frame [OF assms(2)]) (simp_all add: update_state_def)
next
  case (silent_send v r)
  then show ?thesis
    using silent_taken [of "wring s" v r] silent_load
    by (intro inv_frame [OF assms(2)]) auto
next
  case (silent_recv v r)
  then show ?thesis
    using silent_taken [of "wring s" v r] silent_load
    by (intro inv_frame [OF assms(2)]) auto
next
  case (cells m)
  then show ?thesis
    using local_load [of _ n "(wring s)\<lparr>rmem := m\<rparr>" "wring s"]
    by (intro inv_frame [OF assms(2)]) auto
next
  case signal
  have "set (woken (wring s)) \<subseteq> set (woken (slot_signal side (wring s)))"
    by (auto simp: slot_signal_def Let_def split: option.splits)
  moreover have "k \<in> set (woken (slot_signal side (wring s)))"
    if "slot (wring s) side = Some w" "waiters (wring s) w = Some k"
    using that by (simp add: slot_signal_def Let_def)
  ultimately show ?thesis
    using signal assms(2) by (auto simp: wait_inv_def watched_def split: wait_pc.splits)
next
  case (signal_other side')
  have "set (woken (wring s)) \<subseteq> set (woken (slot_signal side' (wring s)))"
    "slot (slot_signal side' (wring s)) side = slot (wring s) side"
    using signal_other by (auto simp: slot_signal_def Let_def split: option.splits)
  then show ?thesis
    using signal_other local_load [of _ n "slot_signal side' (wring s)" "wring s"]
    by (intro inv_frame [OF assms(2)]) auto
qed (auto simp: wait_inv_def)

lemma reachable_inv: "wait_reachable (loads n) side w k s \<Longrightarrow> wait_inv (loads n) side w k s"
proof (induction rule: wait_reachable.induct)
  case (start r m)
  then show ?case
    by (simp add: wait_inv_def)
next
  case (step s t)
  from step_inv [OF step.hyps(2) step.IH] show ?case .
qed

lemma parked_woken:
  assumes "wait_reachable (loads n) side w k s" "wpc s = Parked" "owed s = 0"
    "a \<in> set (loads n)" "a (wring s)"
  shows "k \<in> set (woken (wring s))"
  using reachable_inv [OF assms(1)] assms(2-) by (auto simp: wait_inv_def watched_def in_set_conv_nth)

end

section \<open>The conditions of the ring\<close>

lemma silent_unpack:
  assumes "f = SEND_IN_FLIGHT \<or> f = RECV_IN_FLIGHT"
  shows "ring_unpack (s OR f) = ring_unpack s"
    "has_flag (s OR f) TX_CLOSED = has_flag s TX_CLOSED"
    "has_flag (s OR f) RX_CLOSED = has_flag s RX_CLOSED"
  using assms unfolding ring_defs(1-5)
  by (auto simp: pos_set_flag has_flag_bit bit_simps simp del: push_bit_of_1)

lemma silent_flags:
  "has_flag (s OR SEND_IN_FLIGHT) SEND_IN_FLIGHT" "has_flag (s OR RECV_IN_FLIGHT) RECV_IN_FLIGHT"
  "has_flag (s OR SEND_IN_FLIGHT) RECV_IN_FLIGHT = has_flag s RECV_IN_FLIGHT"
  "has_flag (s OR RECV_IN_FLIGHT) SEND_IN_FLIGHT = has_flag s SEND_IN_FLIGHT"
  unfolding ring_defs(1-5)
  by (auto simp: has_flag_bit bit_simps simp del: push_bit_of_1)

interpretation ring_wait: wait_condition "cond_loads c" for c
proof
  fix a :: "'a ring \<Rightarrow> bool" and n :: usize and r1 r2 :: "'a ring"
  assume "a \<in> set (cond_loads c n)" "rword r1 = rword r2" "length (rmem r1) = length (rmem r2)"
  moreover from this(3) have "capacity r1 = capacity r2"
    by (simp add: capacity_def)
  ultimately show "a r1 = a r2"
    by (cases c) (auto simp: try_write_at_def try_read_at_def try_peek_at_def has_free_at_least_def
        has_data_at_least_def has_tx_data_def has_recv_space_def data_of_def free_of_def
        is_tx_closed_def is_rx_closed_def)
next
  fix a :: "'a ring \<Rightarrow> bool" and n f :: usize and r :: "'a ring"
  assume a: "a \<in> set (cond_loads c n)" and f: "f = SEND_IN_FLIGHT \<or> f = RECV_IN_FLIGHT"
    and "a (r\<lparr>rword := rword r OR f\<rparr>)"
  moreover have "capacity (r\<lparr>rword := rword r OR f\<rparr>) = capacity r"
    by simp
  ultimately show "a r"
    using f
    by (cases c; elim disjE) (auto simp: try_write_at_def try_read_at_def try_peek_at_def has_free_at_least_def
        has_data_at_least_def has_tx_data_def has_recv_space_def data_of_def free_of_def
        is_tx_closed_def is_rx_closed_def is_ok_def Let_def silent_unpack silent_flags
        split: prod.splits if_splits)
qed

section \<open>Properties\<close>

text \<open>
  C13: \<open>Park::poll\<close> loses no wake-up, for any of the seven conditions futures wait for and under
  every interleaving of its loads with other threads' updates and signals: once the waiter is
  parked and the other threads have performed the signals their updates owe, a condition that
  holds means its waker has been woken.
\<close>

theorem park_no_lost_wakeup:
  assumes "wait_reachable (cond_loads c n) (cond_side c) w k s" "wpc s = Parked" "owed s = 0"
    "cond_check c (wring s) n"
  shows "k \<in> set (woken (wring s))"
  using assms(4) ring_wait.parked_woken [OF assms(1-3)] by (auto simp: cond_check_loads)

text \<open>A run that parks a reader, commits two items and signals it.\<close>

lemma wait_demo:
  "\<exists>s :: nat waitsys. wait_reachable (cond_loads RxReadableAtLeast 1) RxUser 1 5 s \<and> wpc s = Parked
     \<and> owed s = 0 \<and> check_rx_readable_at_least (wring s) 1"
proof -
  let ?L = "cond_loads RxReadableAtLeast 1 :: (nat ring \<Rightarrow> bool) list"
  let ?r1 = "ring_demo\<lparr>waiters := (waiters ring_demo)(1 := Some 5)\<rparr>"
  let ?r2 = "?r1\<lparr>slot := (slot ?r1)(RxUser := Some 1)\<rparr>"
  let ?f = "advance_write_word 3 2"
  let ?r3 = "update_state ?f ?r2"
  note st = wait_reachable.step and so = One_nat_def
  have no: "\<not> has_data_at_least ring_demo 1" "\<not> is_rx_closed ring_demo"
    by (simp_all add: has_data_at_least_def is_rx_closed_def has_flag_def data_of_def cw_eval
        data_size_of_def capacity_def ring_demo_def)
  then have no2: "\<not> has_data_at_least ?r2 1" "\<not> is_rx_closed ?r2"
    by (simp_all add: has_data_at_least_def is_rx_closed_def data_of_def)
  have "wait_reachable ?L RxUser 1 5 \<lparr>wring = ring_demo, wpc = First 0, owed = 0\<rparr>"
    by (rule wait_reachable.start)
  from st [OF this wait_step.first_false [of _ 0]]
  have "wait_reachable ?L RxUser 1 5 \<lparr>wring = ring_demo, wpc = First 1, owed = 0\<rparr>"
    using no by simp
  from st [OF this wait_step.first_false [of _ 1]]
  have "wait_reachable ?L RxUser 1 5 \<lparr>wring = ring_demo, wpc = First (Suc 1), owed = 0\<rparr>"
    using no by simp
  from st [OF this wait_step.store_waker]
  have "wait_reachable ?L RxUser 1 5 \<lparr>wring = ?r1, wpc = Registering, owed = 0\<rparr>"
    by simp
  from st [OF this wait_step.registers [of _ _ _ ?r2]]
  have "wait_reachable ?L RxUser 1 5 \<lparr>wring = ?r2, wpc = Second 0, owed = 0\<rparr>"
    by (simp add: slot_register_def ring_demo_def)
  from st [OF this wait_step.second_false [of _ 0]]
  have "wait_reachable ?L RxUser 1 5 \<lparr>wring = ?r2, wpc = Second 1, owed = 0\<rparr>"
    using no2 by simp
  from st [OF this wait_step.second_false [of _ 1]]
  have "wait_reachable ?L RxUser 1 5 \<lparr>wring = ?r2, wpc = Second (Suc 1), owed = 0\<rparr>"
    using no2 by simp
  from st [OF this wait_step.parks]
  have "wait_reachable ?L RxUser 1 5 \<lparr>wring = ?r2, wpc = Parked, owed = 0\<rparr>"
    by simp
  from st [OF this wait_step.update [of _ ?f]]
  have "wait_reachable ?L RxUser 1 5 \<lparr>wring = ?r3, wpc = Parked, owed = 1\<rparr>"
    by (simp add: loud_def capacity_def ring_demo_def) blast
  from st [OF this wait_step.signal]
  have "wait_reachable ?L RxUser 1 5 \<lparr>wring = slot_signal RxUser ?r3, wpc = Parked, owed = 0\<rparr>"
    by simp
  moreover have "check_rx_readable_at_least (slot_signal RxUser ?r3) 1"
    by (simp add: check_rx_readable_at_least_def has_data_at_least_def data_of_def capacity_def
        has_flag_def cw_eval data_size_of_def update_state_def ring_demo_def)
  ultimately show ?thesis
    by (intro exI conjI) (assumption, simp_all)
qed

theorem park_no_lost_wakeup_witness:
  "\<exists>s :: nat waitsys. wpc s = Parked \<and> check_rx_readable_at_least (wring s) 1
     \<and> 5 \<in> set (woken (wring s))"
  using wait_demo park_no_lost_wakeup [of RxReadableAtLeast 1 1 5] by fastforce

end
