(* ===== verification/Hs_Opts.thy ===== *)
theory Hs_Opts
  imports Cantare_Prelude
begin

text \<open>
  The negotiation items of the \<open>smux_v1\<close> handshake (\<open>crates/smux_v1/src/handshake/opts.rs\<close>): the
  keys and value types that share an entry's header byte, the entries, and the four basic options
  with their defaults.
\<close>

section \<open>Options\<close>

text \<open>\<open>core::time::Duration\<close>: whole seconds and the nanoseconds of the rest.\<close>

record duration =
  dur_secs :: "64 word"
  dur_nanos :: "32 word"

definition from_secs :: "64 word \<Rightarrow> duration" where
  "from_secs s = \<lparr>dur_secs = s, dur_nanos = 0\<rparr>"

record basic_opts =
  max_packet_size :: usize
  max_channel_count :: usize
  max_dock_chan_count :: usize
  max_channel_timeout :: duration

definition opts_default :: basic_opts where
  "opts_default =
     \<lparr>max_packet_size = 4096, max_channel_count = push_bit 28 1, max_dock_chan_count = push_bit 28 1,
      max_channel_timeout = from_secs 30\<rparr>"

text \<open>An entry holds the whole header byte and the decoded value.\<close>

record basic_entry =
  opts_key :: u8
  val_data :: usize

section \<open>Headers\<close>

datatype neg_key = MaxPacketSize | MaxChannelCount | MaxDockChanCount | MaxChannelTimeout | Checksum

definition KEY_MASK :: u8 where
  "KEY_MASK = 0x0F"

definition key_try_from :: "u8 \<Rightarrow> (u8, neg_key) rust_result" where
  "key_try_from value =
     (let k = value AND KEY_MASK
      in if k = 0x00 then Inr MaxPacketSize
         else if k = 0x01 then Inr MaxChannelCount
         else if k = 0x02 then Inr MaxDockChanCount
         else if k = 0x03 then Inr MaxChannelTimeout
         else if k = 0x0C then Inr Checksum
         else Inl value)"

fun key_code :: "neg_key \<Rightarrow> u8" where
  "key_code MaxPacketSize = 0x00"
| "key_code MaxChannelCount = 0x01"
| "key_code MaxDockChanCount = 0x02"
| "key_code MaxChannelTimeout = 0x03"
| "key_code Checksum = 0x0C"

definition key_into_u8 :: "neg_key \<Rightarrow> u8" where
  "key_into_u8 k = key_code k AND KEY_MASK"

datatype val_type = BeU8 | BeU16 | BeU32 | BeU64

definition VAL_MASK :: u8 where
  "VAL_MASK = 0x30"

definition val_type_try_from :: "u8 \<Rightarrow> (u8, val_type) rust_result" where
  "val_type_try_from value =
     (let v = value AND VAL_MASK
      in if v = 0x00 then Inr BeU8
         else if v = 0x10 then Inr BeU16
         else if v = 0x20 then Inr BeU32
         else if v = 0x30 then Inr BeU64
         else Inl value)"

fun val_type_code :: "val_type \<Rightarrow> u8" where
  "val_type_code BeU8 = 0x00"
| "val_type_code BeU16 = 0x10"
| "val_type_code BeU32 = 0x20"
| "val_type_code BeU64 = 0x30"

definition val_type_into_u8 :: "val_type \<Rightarrow> u8" where
  "val_type_into_u8 v = val_type_code v AND VAL_MASK"

fun val_width :: "val_type \<Rightarrow> nat" where
  "val_width BeU8 = 1"
| "val_width BeU16 = 2"
| "val_width BeU32 = 4"
| "val_width BeU64 = 8"

text \<open>Every byte has a value type, and a header gives back the two halves it was made of.\<close>

lemma low_two_cases:
  fixes v :: u8
  obtains "take_bit 2 v = 0" | "take_bit 2 v = 1" | "take_bit 2 v = 2" | "take_bit 2 v = 3"
proof -
  have "unat (take_bit 2 v) < 4"
    by (simp add: unat_take_bit)
  then consider "unat (take_bit 2 v) = 0" | "unat (take_bit 2 v) = 1" | "unat (take_bit 2 v) = 2"
    | "unat (take_bit 2 v) = 3"
    by linarith
  then show thesis
    using that by cases (simp_all add: word_unat_eq_iff)
qed

lemma val_mask_split: "v AND VAL_MASK = push_bit 4 (take_bit 2 (drop_bit 4 v))"
proof -
  have m: "VAL_MASK = push_bit 4 (mask 2)"
    by (simp add: VAL_MASK_def mask_eq_exp_minus_1)
  show ?thesis
    unfolding m by (rule bit_word_eqI) (auto simp: bit_and_iff bit_push_bit_iff bit_mask_iff
        bit_take_bit_iff bit_drop_bit_eq)
qed

lemma val_type_total: "\<exists>t. val_type_try_from v = Inr t"
  by (rule low_two_cases [of "drop_bit 4 v"])
    (simp_all add: val_type_try_from_def val_mask_split)

lemma header_halves:
  "key_try_from (val_type_into_u8 t OR key_into_u8 k) = Inr k"
  "val_type_try_from (val_type_into_u8 t OR key_into_u8 k) = Inr t"
  by (cases k; cases t; simp add: key_try_from_def val_type_try_from_def val_type_into_u8_def
      key_into_u8_def VAL_MASK_def KEY_MASK_def)+

section \<open>Reading the options back\<close>

definition put_entry :: "neg_key \<Rightarrow> usize \<Rightarrow> basic_opts \<Rightarrow> basic_opts" where
  "put_entry k v x =
     (case k of
        MaxPacketSize \<Rightarrow> x\<lparr>max_packet_size := v\<rparr>
      | MaxChannelCount \<Rightarrow> x\<lparr>max_channel_count := v\<rparr>
      | MaxDockChanCount \<Rightarrow> x\<lparr>max_dock_chan_count := v\<rparr>
      | MaxChannelTimeout \<Rightarrow> x\<lparr>max_channel_timeout := from_secs (ucast v)\<rparr>
      | Checksum \<Rightarrow> x)"

fun from_entries_loop :: "basic_opts \<Rightarrow> basic_entry list \<Rightarrow> (basic_entry, basic_opts) rust_result" where
  "from_entries_loop x [] = Inr x"
| "from_entries_loop x (e # es) =
     (case key_try_from (opts_key e) of
        Inl _ \<Rightarrow> Inl e
      | Inr k \<Rightarrow> from_entries_loop (put_entry k (val_data e) x) es)"

definition from_entries :: "basic_entry list \<Rightarrow> (basic_entry, basic_opts) rust_result" where
  "from_entries es = from_entries_loop opts_default es"

end
