(* ===== verification/Hs_Codec.thy ===== *)
theory Hs_Codec
  imports Hs_Opts Be_Bytes
begin

text \<open>
  The frames of the \<open>smux_v1\<close> handshake (\<open>crates/smux_v1/src/handshake/codec_.rs\<close>): encoding the
  basic options into a frame, the incremental parser that asks for the bytes it lacks, and the rules
  that complete and compare the negotiated values. The two checksums are parameters (the \<open>crc\<close>
  crate); a byte slice is a list, and \<open>usize\<close> is 64 bits wide, so decoding never overflows it.
\<close>

section \<open>Constants and data\<close>

definition K_MAX_HANDSHAKE_FRAME :: nat where
  "K_MAX_HANDSHAKE_FRAME = 64"

definition K_CHECKSUM_HEADER_CRC16 :: u8 where
  "K_CHECKSUM_HEADER_CRC16 = 0x1C"

definition K_CHECKSUM_HEADER_CRC32 :: u8 where
  "K_CHECKSUM_HEADER_CRC32 = 0x2C"

definition K_BASIC_KEY_COUNT :: nat where
  "K_BASIC_KEY_COUNT = 4"

definition K_INVITE_MAGIC :: "u8 list" where
  "K_INVITE_MAGIC = [95, 27, 0x01, 105]"

definition K_ACCEPT_MAGIC :: "u8 list" where
  "K_ACCEPT_MAGIC = [95, 27, 0x01, 65]"

definition K_REJECT_MAGIC :: "u8 list" where
  "K_REJECT_MAGIC = [95, 27, 0x01, 74]"

definition K_CONFRM_MAGIC :: "u8 list" where
  "K_CONFRM_MAGIC = [95, 27, 0x01, 99]"

definition magics :: "u8 list list" where
  "magics = [K_INVITE_MAGIC, K_ACCEPT_MAGIC, K_CONFRM_MAGIC, K_REJECT_MAGIC]"

lemmas magic_defs = K_INVITE_MAGIC_def K_ACCEPT_MAGIC_def K_REJECT_MAGIC_def K_CONFRM_MAGIC_def

record parsed_frame =
  frame_magic :: "u8 list"
  frame_entries :: "basic_entry option list"

datatype parse_error =
    NeedMore nat | InvalidMagic | UnsupportedOption | MalformedBody | FrameTooLarge | ChecksumErr

text \<open>The checksums of the \<open>crc\<close> crate, on the bytes before the checksum.\<close>

type_synonym crc16 = "u8 list \<Rightarrow> 16 word"
type_synonym crc32 = "u8 list \<Rightarrow> 32 word"

section \<open>Values\<close>

definition decode_value :: "u8 list \<Rightarrow> usize" where
  "decode_value bytes = foldl (\<lambda>v b. push_bit 8 v OR ucast b) 0 bytes"

definition encode_basic_entry :: "u8 \<Rightarrow> usize \<Rightarrow> u8 list \<Rightarrow> (u8 list \<times> nat) option" where
  "encode_basic_entry key v out =
     (let (val_type, width) =
            (if v \<le> 0xFF then (0x00, 1)
             else if v \<le> 0xFFFF then (0x10, 2)
             else if v \<le> 0xFFFFFFFF then (0x20, 4)
             else (0x30, 8))
      in if length out < 1 + width then None
         else Some ((val_type OR (key AND 0x0F)) # drop (8 - width) (be_bytes 8 v) @ drop (1 + width) out,
                    1 + width))"

section \<open>Building a frame\<close>

text \<open>The loop over the four values; the output buffer is updated in place.\<close>

fun build_entries :: "nat \<Rightarrow> usize option list \<Rightarrow> nat \<Rightarrow> u8 list \<Rightarrow> (u8 list \<times> nat) option" where
  "build_entries k [] pos out = Some (out, pos)"
| "build_entries k (None # vs) pos out = build_entries (Suc k) vs pos out"
| "build_entries k (Some v # vs) pos out =
     (case encode_basic_entry (of_nat k) v (drop pos out) of
        None \<Rightarrow> None
      | Some (tail, written) \<Rightarrow> build_entries (Suc k) vs (pos + written) (take pos out @ tail))"

definition build_frame ::
    "crc16 \<Rightarrow> u8 list \<Rightarrow> usize option list \<Rightarrow> u8 list \<Rightarrow> (u8 list \<times> nat) option" where
  "build_frame crc16 magic values out =
     (if length out < 4 then None
      else
        (case build_entries 0 values 4 (magic @ drop 4 out) of
           None \<Rightarrow> None
         | Some (out1, pos) \<Rightarrow>
             if length out1 < pos + 3 then None
             else
               (let out2 = out1[pos := K_CHECKSUM_HEADER_CRC16]; pos1 = pos + 1;
                    crc = crc16 (take pos1 out2)
                in Some (take pos1 out2 @ be_bytes 2 crc @ drop (pos1 + 2) out2, pos1 + 2))))"

section \<open>Parsing a frame\<close>

text \<open>The width the value type stands for.\<close>

definition header_width :: "u8 \<Rightarrow> nat" where
  "header_width val_type =
     (if val_type = 0x00 then 1 else if val_type = 0x10 then 2 else if val_type = 0x20 then 4 else 8)"

function parse_entries ::
    "crc16 \<Rightarrow> crc32 \<Rightarrow> u8 list \<Rightarrow> nat \<Rightarrow> u8 list \<Rightarrow> nat \<Rightarrow> basic_entry option list \<Rightarrow> u8
     \<Rightarrow> (parse_error, parsed_frame \<times> nat) rust_result" where
  "parse_entries crc16 crc32 buf max_size magic pos0 entries seen =
     (if length buf < pos0 + 1 then Inl (NeedMore (pos0 + 1))
      else if pos0 + 1 > max_size then Inl FrameTooLarge
      else
        (let header = buf ! pos0; pos = pos0 + 1; key = header AND 0x0F; val_type = header AND 0x30;
             width = header_width val_type
         in if key = 0x0C then
              (if header \<noteq> K_CHECKSUM_HEADER_CRC16 \<and> header \<noteq> K_CHECKSUM_HEADER_CRC32
               then Inl UnsupportedOption
               else
                 (let crc_len = (if header = K_CHECKSUM_HEADER_CRC16 then 2 else 4 :: nat)
                  in if length buf < pos + crc_len then Inl (NeedMore (pos + crc_len))
                     else if pos + crc_len > max_size then Inl FrameTooLarge
                     else
                       (let expect = take crc_len (drop pos buf);
                            is_ok = (if crc_len = 2 then be_bytes 2 (crc16 (take pos buf)) = expect
                                     else be_bytes 4 (crc32 (take pos buf)) = expect)
                        in if \<not> is_ok then Inl ChecksumErr
                           else Inr (\<lparr>frame_magic = magic, frame_entries = entries\<rparr>, pos + crc_len))))
            else if unat key \<ge> K_BASIC_KEY_COUNT then Inl UnsupportedOption
            else if length buf < pos + width then Inl (NeedMore (pos + width))
            else if pos + width > max_size then Inl FrameTooLarge
            else
              (let v = decode_value (take width (drop pos buf)); bt = push_bit (unat key) 1
               in if v = 0 then Inl MalformedBody
                  else if seen AND bt \<noteq> 0 then Inl MalformedBody
                  else parse_entries crc16 crc32 buf max_size magic (pos + width)
                         (entries[unat key := Some \<lparr>opts_key = header, val_data = v\<rparr>])
                         (seen OR bt))))"
  by pat_completeness auto

termination
  by (relation "measure (\<lambda>(crc16, crc32, buf, max_size, magic, pos, entries, seen). length buf - pos)")
    auto

declare parse_entries.simps [simp del]

definition parse_frame ::
    "crc16 \<Rightarrow> crc32 \<Rightarrow> u8 list \<Rightarrow> nat \<Rightarrow> (parse_error, parsed_frame \<times> nat) rust_result" where
  "parse_frame crc16 crc32 buf max_size =
     (if length buf < 4 then Inl (NeedMore 4)
      else if max_size < 4 then Inl FrameTooLarge
      else
        (let magic = take 4 buf
         in if magic \<notin> set magics then Inl InvalidMagic
            else parse_entries crc16 crc32 buf max_size magic 4 (replicate K_BASIC_KEY_COUNT None) 0))"

section \<open>The negotiated values\<close>

definition or_default :: "usize option \<Rightarrow> usize \<Rightarrow> usize" where
  "or_default v d = (case v of None \<Rightarrow> d | Some x \<Rightarrow> x)"

definition values_to_basic :: "usize option list \<Rightarrow> basic_opts" where
  "values_to_basic values =
     \<lparr>max_packet_size = or_default (values ! 0) (max_packet_size opts_default),
      max_channel_count = or_default (values ! 1) (max_channel_count opts_default),
      max_dock_chan_count = or_default (values ! 2) (max_dock_chan_count opts_default),
      max_channel_timeout = from_secs (ucast (or_default (values ! 3) 30))\<rparr>"

definition basic_to_values :: "basic_opts \<Rightarrow> usize option list" where
  "basic_to_values opts =
     [Some (max_packet_size opts), Some (max_channel_count opts), Some (max_dock_chan_count opts),
      Some (ucast (dur_secs (max_channel_timeout opts)))]"

definition is_complete :: "usize option list \<Rightarrow> bool" where
  "is_complete values = list_all (\<lambda>v. v \<noteq> None) values"

definition complete_invite :: "basic_opts \<Rightarrow> basic_entry option list \<Rightarrow> usize option list" where
  "complete_invite local entries =
     fold (\<lambda>(k, e) values. case e of None \<Rightarrow> values | Some x \<Rightarrow> values[k := Some (val_data x)])
       (List.enumerate 0 entries) (basic_to_values local)"

definition complete_values :: "basic_entry option list \<Rightarrow> usize option list option" where
  "complete_values entries =
     (let values = map (map_option val_data) entries
      in if is_complete values then Some values else None)"

definition confirm_matches :: "basic_entry option list \<Rightarrow> usize option list \<Rightarrow> bool" where
  "confirm_matches entries expected =
     (case complete_values entries of
        None \<Rightarrow> False
      | Some values \<Rightarrow> list_all (\<lambda>(a, b). a = b) (zip values expected))"

end
