(* ===== verification/Hs_Wire.thy ===== *)
theory Hs_Wire
  imports Hs_Codec
begin

text \<open>
  The wire format the frame codec implements: what the builder writes, what the parser answers on a
  frame, on a frame with more bytes behind it and on each of its prefixes, and that reading a frame
  back gives the values that were sent.
\<close>

lemma decode_be_bytes: "decode_value (be_bytes w v) = take_bit (8 * w) v"
  by (simp add: decode_value_def fold_be_bytes)

section \<open>The wire format\<close>

text \<open>An entry: its header, then the value in as few of the widths as hold it.\<close>

definition entry_type :: "usize \<Rightarrow> val_type" where
  "entry_type v = (if v \<le> 0xFF then BeU8 else if v \<le> 0xFFFF then BeU16
     else if v \<le> 0xFFFFFFFF then BeU32 else BeU64)"

definition entry_header :: "nat \<Rightarrow> usize \<Rightarrow> u8" where
  "entry_header k v = val_type_code (entry_type v) OR (of_nat k AND 0x0F)"

definition entry_bytes :: "nat \<Rightarrow> usize \<Rightarrow> u8 list" where
  "entry_bytes k v = entry_header k v # be_bytes (val_width (entry_type v)) v"

fun body_bytes :: "nat \<Rightarrow> usize option list \<Rightarrow> u8 list" where
  "body_bytes k [] = []"
| "body_bytes k (None # vs) = body_bytes (Suc k) vs"
| "body_bytes k (Some v # vs) = entry_bytes k v @ body_bytes (Suc k) vs"

definition close_frame :: "crc16 \<Rightarrow> u8 list \<Rightarrow> u8 list" where
  "close_frame crc16 bs = (let b = bs @ [K_CHECKSUM_HEADER_CRC16] in b @ be_bytes 2 (crc16 b))"

definition frame_bytes :: "crc16 \<Rightarrow> u8 list \<Rightarrow> usize option list \<Rightarrow> u8 list" where
  "frame_bytes crc16 magic vs = close_frame crc16 (magic @ body_bytes 0 vs)"

text \<open>The entries a parser finds in it.\<close>

fun entry_list :: "nat \<Rightarrow> usize option list \<Rightarrow> basic_entry option list" where
  "entry_list k [] = []"
| "entry_list k (None # vs) = None # entry_list (Suc k) vs"
| "entry_list k (Some v # vs) =
     Some \<lparr>opts_key = entry_header k v, val_data = v\<rparr> # entry_list (Suc k) vs"

lemma entry_width: "val_width (entry_type v) \<in> {1, 2, 4, 8}"
  by (simp add: entry_type_def)

lemma entry_fits: "take_bit (8 * val_width (entry_type v)) v = v"
proof -
  have "unat v < 2 ^ (8 * val_width (entry_type v))"
  proof -
    have "unat v < 2 ^ LENGTH(64)"
      by (rule unsigned_less)
    then show ?thesis
      by (simp add: entry_type_def word_le_nat_alt)
  qed
  then show ?thesis
    by (simp add: word_unat_eq_iff unat_take_bit)
qed

lemma decode_entry: "decode_value (be_bytes (val_width (entry_type v)) v) = v"
  by (simp add: decode_be_bytes entry_fits)

lemma length_entry [simp]: "length (entry_bytes k v) = Suc (val_width (entry_type v))"
  by (simp add: entry_bytes_def)

lemma length_close [simp]: "length (close_frame crc16 bs) = length bs + 3"
  by (simp add: close_frame_def Let_def)

lemma length_body: "length (body_bytes k vs) \<le> 9 * length vs"
proof (induction k vs rule: body_bytes.induct)
  case (3 k v vs)
  then show ?case
    using entry_width [of v] by auto
qed simp_all

lemma length_entry_list [simp]: "length (entry_list k vs) = length vs"
  by (induction k vs rule: entry_list.induct) simp_all

lemma entry_list_vals [simp]: "map (map_option val_data) (entry_list k vs) = vs"
  by (induction k vs rule: entry_list.induct) simp_all

lemma entry_header_parts:
  assumes "k < 4"
  shows "entry_header k v AND 0x0F = of_nat k" "unat (entry_header k v AND 0x0F) = k"
    "entry_header k v AND 0x30 = val_type_code (entry_type v)"
proof -
  have "k \<in> {0, 1, 2, 3}"
    using assms by auto
  moreover have "entry_type v \<in> {BeU8, BeU16, BeU32, BeU64}"
    by (simp add: entry_type_def)
  ultimately show "entry_header k v AND 0x0F = of_nat k" "unat (entry_header k v AND 0x0F) = k"
    "entry_header k v AND 0x30 = val_type_code (entry_type v)"
    by (auto simp: entry_header_def)
qed

section \<open>Building\<close>

lemma encode_entry:
  "encode_basic_entry (of_nat k) v out =
     (if length out < length (entry_bytes k v) then None
      else Some (entry_bytes k v @ drop (length (entry_bytes k v)) out, length (entry_bytes k v)))"
proof -
  have "encode_basic_entry (of_nat k) v out =
      (if length out < Suc (val_width (entry_type v)) then None
       else Some ((val_type_code (entry_type v) OR (of_nat k AND 0x0F))
          # drop (8 - val_width (entry_type v)) (be_bytes 8 v) @ drop (Suc (val_width (entry_type v))) out,
          Suc (val_width (entry_type v))))"
    by (simp add: encode_basic_entry_def entry_type_def) (simp add: numeral_eq_Suc)
  moreover have "drop (8 - val_width (entry_type v)) (be_bytes 8 v) = be_bytes (val_width (entry_type v)) v"
    using entry_width [of v] by (intro drop_be_bytes) auto
  ultimately show ?thesis
    by (simp add: entry_bytes_def entry_header_def)
qed

lemma build_entries_spec:
  "length pre = pos \<Longrightarrow> build_entries k vs pos (pre @ out) =
     (if length out < length (body_bytes k vs) then None
      else Some (pre @ body_bytes k vs @ drop (length (body_bytes k vs)) out, pos + length (body_bytes k vs)))"
proof (induction k vs arbitrary: pre pos out rule: body_bytes.induct)
  case (3 k v vs)
  let ?e = "entry_bytes k v"
  show ?case
  proof (cases "length out < length ?e")
    case True
    then show ?thesis
      using 3(2) by (simp add: encode_entry)
  next
    case False
    have "build_entries k (Some v # vs) pos (pre @ out)
        = build_entries (Suc k) vs (pos + length ?e) ((pre @ ?e) @ drop (length ?e) out)"
      using 3(2) False by (simp add: encode_entry)
    also have "\<dots> = (if length out - length ?e < length (body_bytes (Suc k) vs) then None
      else Some ((pre @ ?e) @ body_bytes (Suc k) vs
             @ drop (length (body_bytes (Suc k) vs)) (drop (length ?e) out),
           pos + length ?e + length (body_bytes (Suc k) vs)))"
      using 3(2) by (subst "3.IH") simp_all
    finally show ?thesis
      using False by (auto simp: add.commute)
  qed
qed simp_all

lemma build_frame_spec:
  assumes "length magic = 4"
  shows "build_frame crc16 magic vs out =
     (if length out < length (frame_bytes crc16 magic vs) then None
      else Some (frame_bytes crc16 magic vs @ drop (length (frame_bytes crc16 magic vs)) out,
        length (frame_bytes crc16 magic vs)))"
proof (cases "length out < 4 + length (body_bytes 0 vs)")
  case True
  then show ?thesis
    using build_entries_spec [OF assms, of 0 vs "drop 4 out"] assms
    by (auto simp: build_frame_def frame_bytes_def)
next
  case False
  define b n where "b = magic @ body_bytes 0 vs" and "n = length b"
  define r where "r = drop n out"
  have e: "build_entries 0 vs 4 (magic @ drop 4 out) = Some (b @ r, n)"
    using build_entries_spec [OF assms, of 0 vs "drop 4 out"] assms False
    by (simp add: r_def b_def n_def add.commute)
  have F: "frame_bytes crc16 magic vs = (b @ [K_CHECKSUM_HEADER_CRC16])
      @ be_bytes 2 (crc16 (b @ [K_CHECKSUM_HEADER_CRC16]))" "length (frame_bytes crc16 magic vs) = n + 3"
    by (simp_all add: frame_bytes_def close_frame_def Let_def b_def n_def)
  have "4 \<le> length out" "n \<le> length out"
    using False assms by (simp_all add: b_def n_def)
  then have len: "\<not> length out < 4" "length (b @ r) = length out" "length r = length out - n"
    by (simp_all add: r_def n_def)
  show ?thesis
  proof (cases "length out < n + 3")
    case True
    then show ?thesis
      using e len F(2) by (simp add: build_frame_def)
  next
    case 3: False
    then obtain x r' where r: "r = x # r'"
      using len(3) by (cases r) auto
    have t: "take (n + 1) ((b @ r)[n := K_CHECKSUM_HEADER_CRC16]) = b @ [K_CHECKSUM_HEADER_CRC16]"
      by (simp add: r n_def list_update_append)
    have d: "drop (n + 1 + 2) ((b @ r)[n := K_CHECKSUM_HEADER_CRC16]) = drop (n + 3) out"
      by (simp add: drop_update_cancel n_def [symmetric]) (simp add: r_def n_def add.commute)
    show ?thesis
      unfolding build_frame_def F
      by (simp only: e t d len if_False option.case prod.case Let_def 3)
        (use 3 in \<open>simp add: n_def\<close>)
  qed
qed

section \<open>Parsing\<close>

text \<open>A buffer that holds a frame with more behind it, or a prefix of the frame.\<close>

definition agrees :: "u8 list \<Rightarrow> u8 list \<Rightarrow> bool" where
  "agrees F buf = (take (length F) buf = take (length buf) F)"

lemma agrees_slice:
  assumes "agrees F buf" "a + n \<le> length buf" "a + n \<le> length F"
  shows "take n (drop a buf) = take n (drop a F)" "take a buf = take a F"
proof -
  have eq: "take m buf = take m F" if "m \<le> length buf" "m \<le> length F" for m
    using arg_cong [OF assms(1) [unfolded agrees_def], of "take m"] that by (simp add: min_def)
  show "take a buf = take a F"
    using assms(2,3) by (intro eq) simp_all
  have "drop a (take (a + n) buf) = drop a (take (a + n) F)"
    using eq [OF assms(2,3)] by simp
  then show "take n (drop a buf) = take n (drop a F)"
    by (simp add: drop_take)
qed

lemma agrees_nth:
  assumes "agrees F buf" "i < length buf" "i < length F"
  shows "buf ! i = F ! i"
  using agrees_slice(2) [OF assms(1), of "Suc i" 0] assms(2,3)
  by (metis add.right_neutral lessI nth_take Suc_leI)

text \<open>The answer to a frame, or to a prefix: the bytes asked for are bytes of the frame.\<close>

definition parsed_or_more ::
    "nat \<Rightarrow> nat \<Rightarrow> parsed_frame \<Rightarrow> (parse_error, parsed_frame \<times> nat) rust_result \<Rightarrow> bool" where
  "parsed_or_more l n f r =
     (if n \<le> l then r = Inr (f, n) else \<exists>j. r = Inl (NeedMore j) \<and> l < j \<and> j \<le> n)"

lemma parse_trailer:
  assumes "F = close_frame crc16 pre" "agrees F buf" "length F \<le> max_size"
  shows "parsed_or_more (length buf) (length F) \<lparr>frame_magic = magic, frame_entries = es\<rparr>
     (parse_entries crc16 crc32 buf max_size magic (length pre) es seen)"
proof (cases "length buf < length pre + 1")
  case True
  then show ?thesis
    using assms(1) by (simp add: parsed_or_more_def parse_entries.simps [of crc16 crc32 buf])
next
  case False
  let ?h = "pre @ [K_CHECKSUM_HEADER_CRC16]"
  have F: "F = ?h @ be_bytes 2 (crc16 ?h)"
    by (simp add: assms(1) close_frame_def)
  have hd: "buf ! length pre = K_CHECKSUM_HEADER_CRC16"
    using agrees_nth [OF assms(2), of "length pre"] False by (simp add: F nth_append)
  have max: "\<not> length pre + 1 > max_size" "\<not> length pre + 1 + 2 > max_size"
    using assms(3) by (simp_all add: F)
  show ?thesis
  proof (cases "length buf < length pre + 1 + 2")
    case True
    then show ?thesis
      using False hd max
      by (simp add: parsed_or_more_def parse_entries.simps [of crc16 crc32 buf] F Let_def
          K_CHECKSUM_HEADER_CRC16_def)
  next
    case long: False
    then have "take 2 (drop (length ?h) buf) = take 2 (drop (length ?h) F)" "take (length ?h) buf = take (length ?h) F"
      using agrees_slice [OF assms(2), of "length ?h" 2] by (simp_all add: F)
    then have "take 2 (drop (length pre + 1) buf) = be_bytes 2 (crc16 ?h)" "take (length pre + 1) buf = ?h"
      by (simp_all add: F)
    then show ?thesis
      using False hd max long
      by (simp add: parsed_or_more_def parse_entries.simps [of crc16 crc32 buf] F Let_def
          K_CHECKSUM_HEADER_CRC16_def del: be_bytes.simps)
  qed
qed

lemma val_width_of_header:
  assumes "k < 4"
  shows "header_width (entry_header k v AND 0x30) = val_width (entry_type v)"
  using assms by (simp add: entry_header_parts(3) header_width_def) (simp add: entry_type_def)

lemma small_key:
  assumes "k < 4"
  shows "of_nat k \<noteq> (0x0C :: u8)" "unat (of_nat k :: u8) = k"
proof -
  have "k \<in> {0, 1, 2, 3}"
    using assms by auto
  then show "of_nat k \<noteq> (0x0C :: u8)" "unat (of_nat k :: u8) = k"
    by auto
qed

text \<open>One entry: the parser asks for it, or records it and goes on behind it.\<close>

lemma parse_entry:
  assumes "agrees F buf" "F = pre @ entry_bytes k v @ suf" "length F \<le> max_size" "k < 4" "v \<noteq> 0"
    "seen AND push_bit k 1 = 0"
  shows "length buf < length (pre @ entry_bytes k v) \<and>
       (\<exists>j. parse_entries crc16 crc32 buf max_size magic (length pre) es seen = Inl (NeedMore j)
          \<and> length buf < j \<and> j \<le> length F)
     \<or> length (pre @ entry_bytes k v) \<le> length buf \<and>
       parse_entries crc16 crc32 buf max_size magic (length pre) es seen
       = parse_entries crc16 crc32 buf max_size magic (length (pre @ entry_bytes k v))
           (es[k := Some \<lparr>opts_key = entry_header k v, val_data = v\<rparr>]) (seen OR push_bit k 1)"
proof (cases "length buf < length pre + 1")
  case True
  then show ?thesis
    using assms(2) by (auto simp: parse_entries.simps [of crc16 crc32 buf])
next
  case False
  let ?w = "val_width (entry_type v)"
  note hp = entry_header_parts [OF assms(4), of v]
  have hd: "buf ! length pre = entry_header k v"
    using agrees_nth [OF assms(1), of "length pre"] False
    by (simp add: assms(2) nth_append entry_bytes_def)
  have max: "\<not> length pre + 1 > max_size" "\<not> length pre + 1 + ?w > max_size"
    using assms(3) by (simp_all add: assms(2))
  note step = parse_entries.simps [of crc16 crc32 buf max_size magic "length pre" es seen]
    hd hp(1,2) val_width_of_header [OF assms(4)] small_key [OF assms(4)]
  show ?thesis
  proof (cases "length buf < length pre + 1 + ?w")
    case True
    then have "parse_entries crc16 crc32 buf max_size magic (length pre) es seen
        = Inl (NeedMore (length pre + 1 + ?w))"
      using False max assms(4) by (simp add: step Let_def K_BASIC_KEY_COUNT_def)
    then show ?thesis
      using True by (simp add: assms(2))
  next
    case long: False
    then have "take ?w (drop (length pre + 1) buf) = take ?w (drop (length pre + 1) F)"
      by (intro agrees_slice(1) [OF assms(1)]) (simp_all add: assms(2))
    then have v: "decode_value (take ?w (drop (length pre + 1) buf)) = v"
      by (simp add: assms(2) entry_bytes_def decode_entry)
    then have "parse_entries crc16 crc32 buf max_size magic (length pre) es seen
       = parse_entries crc16 crc32 buf max_size magic (length pre + 1 + ?w)
           (es[k := Some \<lparr>opts_key = entry_header k v, val_data = v\<rparr>]) (seen OR push_bit k 1)"
      using False max long assms(4-6) by (simp add: step Let_def K_BASIC_KEY_COUNT_def)
    then show ?thesis
      using long by simp
  qed
qed

lemma fresh_bit: "(\<And>n. bit seen n \<Longrightarrow> n < k) \<Longrightarrow> seen AND push_bit k 1 = (0 :: u8)"
  by (rule bit_word_eqI) (auto simp: bit_simps)

lemma bit_push_one: "bit (push_bit k (1 :: u8)) n \<Longrightarrow> n = k"
  by (auto simp: bit_simps)

lemma parse_body:
  assumes "agrees F buf" "length F \<le> max_size"
  shows "F = close_frame crc16 (pre @ body_bytes k vs) \<Longrightarrow> k + length vs = 4 \<Longrightarrow> length es = k \<Longrightarrow>
     (\<And>n. bit seen n \<Longrightarrow> n < k) \<Longrightarrow> Some 0 \<notin> set vs \<Longrightarrow>
     parsed_or_more (length buf) (length F) \<lparr>frame_magic = magic, frame_entries = es @ entry_list k vs\<rparr>
       (parse_entries crc16 crc32 buf max_size magic (length pre) (es @ replicate (length vs) None) seen)"
proof (induction k vs arbitrary: pre es seen rule: body_bytes.induct)
  case (1 k)
  then show ?case
    using parse_trailer [of F crc16 pre buf max_size magic es crc32 seen] assms by simp
next
  case (2 k vs)
  have "\<And>n. bit seen n \<Longrightarrow> n < Suc k"
    using "2.prems"(4) less_SucI by blast
  from "2.IH" [of pre "es @ [None]", OF _ _ _ this] "2.prems" show ?case
    by simp
next
  case (3 k v vs)
  let ?e = "entry_bytes k v"
  let ?es = "(es @ [Some \<lparr>opts_key = entry_header k v, val_data = v\<rparr>])"
  have k: "k < 4" "v \<noteq> 0"
    using "3.prems"(2,5) by auto
  have F: "F = pre @ ?e @ body_bytes (Suc k) vs
      @ [K_CHECKSUM_HEADER_CRC16] @ be_bytes 2 (crc16 (pre @ body_bytes k (Some v # vs) @ [K_CHECKSUM_HEADER_CRC16]))"
    by (simp add: "3.prems"(1) close_frame_def Let_def)
  have upd: "(es @ replicate (length (Some v # vs)) None)
      [k := Some \<lparr>opts_key = entry_header k v, val_data = v\<rparr>] = ?es @ replicate (length vs) None"
    using "3.prems"(3) by (simp add: list_update_append)
  have bits: "bit (seen OR push_bit k 1) n \<Longrightarrow> n < Suc k" for n
    using "3.prems"(4) [of n] bit_push_one [of k n] by (auto simp: bit_or_iff)
  have fresh: "seen AND push_bit k 1 = 0"
    by (rule fresh_bit) (rule "3.prems"(4))
  have ih: "parsed_or_more (length buf) (length F)
       \<lparr>frame_magic = magic, frame_entries = ?es @ entry_list (Suc k) vs\<rparr>
       (parse_entries crc16 crc32 buf max_size magic (length (pre @ ?e))
         (?es @ replicate (length vs) None) (seen OR push_bit k 1))"
    using "3.prems" by (intro "3.IH" bits) simp_all
  from parse_entry [OF assms(1) F assms(2) k fresh,
      where ?crc16.0 = crc16 and ?crc32.0 = crc32 and magic = magic
        and es = "es @ replicate (length (Some v # vs)) None"]
  show ?case
  proof (elim disjE conjE)
    assume "length buf < length (pre @ ?e)" "\<exists>j. parse_entries crc16 crc32 buf max_size magic (length pre)
        (es @ replicate (length (Some v # vs)) None) seen = Inl (NeedMore j) \<and> length buf < j \<and> j \<le> length F"
    then show ?thesis
      by (auto simp: parsed_or_more_def F)
  next
    assume "parse_entries crc16 crc32 buf max_size magic (length pre)
         (es @ replicate (length (Some v # vs)) None) seen
       = parse_entries crc16 crc32 buf max_size magic (length (pre @ ?e))
           ((es @ replicate (length (Some v # vs)) None)
             [k := Some \<lparr>opts_key = entry_header k v, val_data = v\<rparr>]) (seen OR push_bit k 1)"
    then show ?thesis
      using ih unfolding upd by simp
  qed
qed

text \<open>A zero option: the parser asks for it, then refuses the body.\<close>

definition refused_or_more ::
    "nat \<Rightarrow> nat \<Rightarrow> (parse_error, parsed_frame \<times> nat) rust_result \<Rightarrow> bool" where
  "refused_or_more l n r = (r = Inl MalformedBody \<or> (\<exists>j. r = Inl (NeedMore j) \<and> l < j \<and> j \<le> n))"

lemma parse_zero_entry:
  assumes "agrees F buf" "F = pre @ entry_bytes k 0 @ suf" "length F \<le> max_size" "k < 4"
  shows "refused_or_more (length buf) (length F)
     (parse_entries crc16 crc32 buf max_size magic (length pre) es seen)"
proof (cases "length buf < length pre + 1")
  case True
  then show ?thesis
    using assms(2) by (auto simp: refused_or_more_def parse_entries.simps [of crc16 crc32 buf])
next
  case False
  note hp = entry_header_parts [OF assms(4), of 0]
  have hd: "buf ! length pre = entry_header k 0"
    using agrees_nth [OF assms(1), of "length pre"] False
    by (simp add: assms(2) nth_append entry_bytes_def)
  have w: "val_width (entry_type 0) = 1"
    by (simp add: entry_type_def)
  have max: "\<not> length pre + 1 > max_size" "\<not> length pre + 1 + 1 > max_size"
    using assms(3) by (simp_all add: assms(2) w)
  note step = parse_entries.simps [of crc16 crc32 buf max_size magic "length pre" es seen]
    hd hp(1,2) val_width_of_header [OF assms(4), of 0, unfolded w] small_key [OF assms(4)]
  show ?thesis
  proof (cases "length buf < length pre + 1 + 1")
    case True
    then show ?thesis
      using False max assms(4) by (simp add: step Let_def K_BASIC_KEY_COUNT_def refused_or_more_def)
        (simp add: assms(2) w)
  next
    case long: False
    then have "take 1 (drop (length pre + 1) buf) = take 1 (drop (length pre + 1) F)"
      by (intro agrees_slice(1) [OF assms(1)]) (simp_all add: assms(2) w)
    then have "decode_value (take 1 (drop (length pre + 1) buf)) = 0"
      using decode_entry [of 0] by (simp add: assms(2) entry_bytes_def w)
    then show ?thesis
      using False max long assms(4) by (simp add: step Let_def K_BASIC_KEY_COUNT_def refused_or_more_def)
  qed
qed

lemma parse_body_zero:
  assumes "agrees F buf" "length F \<le> max_size"
  shows "F = close_frame crc16 (pre @ body_bytes k vs) \<Longrightarrow> k + length vs = 4 \<Longrightarrow>
     (\<And>n. bit seen n \<Longrightarrow> n < k) \<Longrightarrow> Some 0 \<in> set vs \<Longrightarrow>
     refused_or_more (length buf) (length F)
       (parse_entries crc16 crc32 buf max_size magic (length pre) es seen)"
proof (induction k vs arbitrary: pre es seen rule: body_bytes.induct)
  case (2 k vs)
  have "\<And>n. bit seen n \<Longrightarrow> n < Suc k"
    using "2.prems"(3) less_SucI by blast
  from "2.IH" [of pre, OF _ _ this] "2.prems" show ?case
    by simp
next
  case (3 k v vs)
  let ?e = "entry_bytes k v"
  have k: "k < 4"
    using "3.prems"(2) by simp
  have F: "F = pre @ ?e @ body_bytes (Suc k) vs
      @ [K_CHECKSUM_HEADER_CRC16] @ be_bytes 2 (crc16 (pre @ body_bytes k (Some v # vs) @ [K_CHECKSUM_HEADER_CRC16]))"
    by (simp add: "3.prems"(1) close_frame_def Let_def)
  show ?case
  proof (cases "v = 0")
    case True
    show ?thesis
      by (rule parse_zero_entry [OF assms(1) F [unfolded True] assms(2) k])
  next
    case False
    have bits: "bit (seen OR push_bit k 1) n \<Longrightarrow> n < Suc k" for n
      using "3.prems"(3) [of n] bit_push_one [of k n] by (auto simp: bit_or_iff)
    have fresh: "seen AND push_bit k 1 = 0"
      by (rule fresh_bit) (rule "3.prems"(3))
    have ih: "refused_or_more (length buf) (length F)
         (parse_entries crc16 crc32 buf max_size magic (length (pre @ ?e)) es' (seen OR push_bit k 1))" for es'
      using "3.prems" False by (intro "3.IH" bits) simp_all
    from parse_entry [OF assms(1) F assms(2) k False fresh,
        where ?crc16.0 = crc16 and ?crc32.0 = crc32 and magic = magic and es = es]
    show ?thesis
      using ih [of "es[k := Some \<lparr>opts_key = entry_header k v, val_data = v\<rparr>]"]
      by (elim disjE conjE) (auto simp: refused_or_more_def)
  qed
qed simp

lemma parse_frame_enters:
  assumes "magic \<in> set magics" "F = frame_bytes crc16 magic vs" "agrees F buf" "length F \<le> max_size"
    "\<not> length buf < 4"
  shows "parse_frame crc16 crc32 buf max_size
     = parse_entries crc16 crc32 buf max_size magic (length magic) (replicate 4 None) 0"
proof -
  have m: "length magic = 4"
    using assms(1) by (auto simp: magics_def magic_defs)
  then have "take 4 buf = magic"
    using agrees_slice(2) [OF assms(3), of 4 0] assms(5)
    by (simp add: assms(2) frame_bytes_def close_frame_def Let_def)
  moreover have "\<not> max_size < 4"
    using assms(4) m by (simp add: assms(2) frame_bytes_def)
  ultimately show ?thesis
    using assms(1,5) m by (simp add: parse_frame_def K_BASIC_KEY_COUNT_def)
qed

lemma parse_frame_short: "length buf < 4 \<Longrightarrow> parse_frame crc16 crc32 buf max_size = Inl (NeedMore 4)"
  by (simp add: parse_frame_def)

lemma frame_min: "magic \<in> set magics \<Longrightarrow> 4 \<le> length (frame_bytes crc16 magic vs)"
  by (auto simp: frame_bytes_def magics_def magic_defs)

lemma parse_frame_spec:
  assumes "magic \<in> set magics" "length vs = 4" "Some 0 \<notin> set vs" "F = frame_bytes crc16 magic vs"
    "agrees F buf" "length F \<le> max_size"
  shows "parsed_or_more (length buf) (length F) \<lparr>frame_magic = magic, frame_entries = entry_list 0 vs\<rparr>
     (parse_frame crc16 crc32 buf max_size)"
proof (cases "length buf < 4")
  case True
  then show ?thesis
    using frame_min [OF assms(1), of crc16 vs] by (simp add: parse_frame_short parsed_or_more_def assms(4))
next
  case False
  show ?thesis
    using parse_body [OF assms(5,6) assms(4) [unfolded frame_bytes_def], of "[]" 0 magic crc32] assms(2,3)
    by (simp add: parse_frame_enters [OF assms(1,4-6) False])
qed

lemma parse_frame_zero:
  assumes "magic \<in> set magics" "length vs = 4" "Some 0 \<in> set vs" "F = frame_bytes crc16 magic vs"
    "agrees F buf" "length F \<le> max_size"
  shows "refused_or_more (length buf) (length F) (parse_frame crc16 crc32 buf max_size)"
proof (cases "length buf < 4")
  case True
  then show ?thesis
    using frame_min [OF assms(1), of crc16 vs] by (simp add: parse_frame_short refused_or_more_def assms(4))
next
  case False
  show ?thesis
    using parse_body_zero [OF assms(5,6) assms(4) [unfolded frame_bytes_def], of 0] assms(2,3)
    by (simp add: parse_frame_enters [OF assms(1,4-6) False])
qed

lemma frame_length:
  assumes "length magic = 4" "length vs = 4"
  shows "length (frame_bytes crc16 magic vs) \<le> 43"
  using length_body [of 0 vs] assms by (simp add: frame_bytes_def)

section \<open>Properties\<close>

text \<open>
  C17: A handshake frame survives the wire. Whatever four option values are present (none of them
  zero), the builder always succeeds in the 64-byte frame buffer, the frame takes at most 43 bytes,
  and parsing it, with any bytes behind it, gives back the magic and exactly those values and
  consumes exactly the frame; no assumption is made on the checksum function.
\<close>

theorem frame_roundtrip:
  assumes "magic \<in> set magics" "length values = 4" "Some 0 \<notin> set values" "43 \<le> max_size"
  shows "\<exists>out n f. build_frame crc16 magic values (replicate K_MAX_HANDSHAKE_FRAME 0) = Some (out, n)
     \<and> n \<le> 43 \<and> parse_frame crc16 crc32 (take n out @ rest) max_size = Inr (f, n)
     \<and> frame_magic f = magic \<and> map (map_option val_data) (frame_entries f) = values"
proof -
  let ?F = "frame_bytes crc16 magic values"
  have m: "length magic = 4"
    using assms(1) by (auto simp: magics_def magic_defs)
  note len = frame_length [OF m assms(2), of crc16]
  then have b: "build_frame crc16 magic values (replicate K_MAX_HANDSHAKE_FRAME 0)
      = Some (?F @ drop (length ?F) (replicate K_MAX_HANDSHAKE_FRAME 0), length ?F)"
    using build_frame_spec [OF m] by (simp add: K_MAX_HANDSHAKE_FRAME_def)
  have "agrees ?F (?F @ rest)"
    by (simp add: agrees_def)
  from parse_frame_spec [OF assms(1-3) refl this, of max_size crc32]
  have "parse_frame crc16 crc32 (?F @ rest) max_size
      = Inr (\<lparr>frame_magic = magic, frame_entries = entry_list 0 values\<rparr>, length ?F)"
    using len assms(4) by (simp add: parsed_or_more_def)
  then show ?thesis
    using b len by simp
qed

theorem frame_roundtrip_witness:
  "\<exists>out n f. build_frame (\<lambda>bs. of_nat (length bs)) K_INVITE_MAGIC [Some 4096, None, Some 64, Some 30]
         (replicate K_MAX_HANDSHAKE_FRAME 0) = Some (out, n)
     \<and> n \<le> 43 \<and> parse_frame (\<lambda>bs. of_nat (length bs)) (\<lambda>bs. 0) (take n out @ [1, 2]) 4096 = Inr (f, n)
     \<and> frame_magic f = K_INVITE_MAGIC
     \<and> map (map_option val_data) (frame_entries f) = [Some 4096, None, Some 64, Some 30]"
  by (rule frame_roundtrip) (simp_all add: magics_def)

text \<open>
  C18: The parser never asks for a byte behind the frame: on every proper prefix of a frame it
  answers that it needs more, with a length that is more than it has and no more than the frame,
  so a reader that fetches what it is asked for never takes a byte of what follows and never waits
  for one.
\<close>

theorem frame_prefix_asks:
  assumes "magic \<in> set magics" "length values = 4" "Some 0 \<notin> set values"
    "F = frame_bytes crc16 magic values" "length F \<le> max_size" "m < length F"
  shows "\<exists>j. parse_frame crc16 crc32 (take m F) max_size = Inl (NeedMore j) \<and> m < j \<and> j \<le> length F"
proof -
  have "agrees F (take m F)"
    by (simp add: agrees_def)
  from parse_frame_spec [OF assms(1-4) this assms(5), of crc32] show ?thesis
    using assms(6) by (simp add: parsed_or_more_def)
qed

theorem frame_prefix_asks_witness:
  "\<exists>j. parse_frame (\<lambda>bs. 0) (\<lambda>bs. 0)
       (take 5 (frame_bytes (\<lambda>bs. 0) K_REJECT_MAGIC [Some 1, None, None, None])) 64 = Inl (NeedMore j)
     \<and> 5 < j \<and> j \<le> length (frame_bytes (\<lambda>bs. 0) K_REJECT_MAGIC [Some 1, None, None, None])"
  by (rule frame_prefix_asks [OF _ _ _ refl])
    (simp_all add: magics_def frame_bytes_def entry_type_def magic_defs)

end
