(* ===== verification/Hs_Agent.thy ===== *)
theory Hs_Agent
  imports Hs_Wire Demand Err_Tags
begin

text \<open>
  The two sides of the \<open>smux_v1\<close> handshake (\<open>crates/smux_v1/src/handshake/agent.rs\<close>, \<open>error.rs\<close>):
  reading and writing a frame through the buffer traits, and the four-message exchange of the
  initiator and the listener. The receiving half lends a view of its bytes, the sending half takes
  bytes; both are parameters, with the tags of their errors, as they are type parameters of the
  source.
\<close>

section \<open>Errors\<close>

datatype ('re, 'we) handshake_error =
    HsRejected | HsPeerRejected | HsCancelled | HsRxErr 're | HsTxErr 'we | HsInvalidMagic
  | HsChecksumErr | HsFrameTooLarge | HsMalformedBody | HsUnsupportedOption | HsInconsistent
  | HsPeerClosed

definition map_read_err :: "('re \<Rightarrow> read_err_tag) \<Rightarrow> 're \<Rightarrow> ('re, 'we) handshake_error" where
  "map_read_err tag err =
     (case tag err of RCancelled \<Rightarrow> HsCancelled | RClosing \<Rightarrow> HsPeerClosed | _ \<Rightarrow> HsRxErr err)"

definition map_write_err :: "('we \<Rightarrow> write_err_tag) \<Rightarrow> 'we \<Rightarrow> ('re, 'we) handshake_error" where
  "map_write_err tag err = (case tag err of WCancelled \<Rightarrow> HsCancelled | _ \<Rightarrow> HsTxErr err)"

section \<open>The halves\<close>

text \<open>
  \<open>io_view\<close> is \<open>read_async\<close> with the demand, the slices of the lent segment and the state of the half
  once the segment is dropped with nothing taken from it; \<open>io_put\<close> is \<open>write_async\<close> with the demand,
  the bytes copied into the segment, and how many of them fitted.
\<close>

record ('re, 'we, 'r, 'w) hs_io =
  io_crc16 :: crc16
  io_crc32 :: crc32
  io_read_tag :: "'re \<Rightarrow> read_err_tag"
  io_write_tag :: "'we \<Rightarrow> write_err_tag"
  io_view :: "usize demand \<Rightarrow> 'r \<Rightarrow> ('re, u8 list list) rust_result \<times> 'r"
  io_put :: "usize demand \<Rightarrow> u8 list \<Rightarrow> 'w \<Rightarrow> ('we, nat) rust_result \<times> 'w"

definition read_exact_into ::
    "('re, 'we, 'r, 'w) hs_io \<Rightarrow> nat \<Rightarrow> 'r \<Rightarrow> (('re, u8 list) rust_result \<times> 'r) run" where
  "read_exact_into io n r =
     (if n = 0 then Done (Inr [], r)
      else
        (case demand_exactly (of_nat n) of
           Panic e \<Rightarrow> Panic e
         | Done d \<Rightarrow>
             (case io_view io d r of
                (Inr slices, r') \<Rightarrow>
                  if n < length (concat slices) then Panic ''range end index out of range''
                  else Done (Inr (concat slices @ replicate (n - length (concat slices)) 0), r')
              | (Inl e, r') \<Rightarrow> Done (Inl e, r'))))"

text \<open>The bytes read so far are the front of the zeroed frame buffer.\<close>

lemma parse_need_more: "parse_entries crc16 crc32 buf max_size magic pos es seen = Inl (NeedMore j) \<Longrightarrow> length buf < j"
proof (induction crc16 crc32 buf max_size magic pos es seen rule: parse_entries.induct)
  case (1 crc16 crc32 buf max_size magic pos es seen)
  show ?case
    using "1.prems" "1.IH" by (subst (asm) parse_entries.simps) (auto simp: Let_def split: if_splits)
qed

lemma frame_need_more: "parse_frame crc16 crc32 buf max_size = Inl (NeedMore j) \<Longrightarrow> length buf < j"
  by (auto simp: parse_frame_def Let_def split: if_splits dest: parse_need_more)

lemma read_exact_length: "read_exact_into io n r = Done (Inr bs, r') \<Longrightarrow> length bs = n"
  by (auto simp: read_exact_into_def split: if_splits run.splits sum.splits prod.splits)

function read_frame ::
    "('re, 'we, 'r, 'w) hs_io \<Rightarrow> nat \<Rightarrow> u8 list \<Rightarrow> 'r
     \<Rightarrow> ((('re, 'we) handshake_error, parsed_frame) rust_result \<times> 'r) run" where
  "read_frame io max_size got r =
     (case parse_frame (io_crc16 io) (io_crc32 io) got max_size of
        Inr (f, _) \<Rightarrow> Done (Inr f, r)
      | Inl (NeedMore need) \<Rightarrow>
          if min max_size K_MAX_HANDSHAKE_FRAME < need then Done (Inl HsFrameTooLarge, r)
          else
            (case read_exact_into io (need - length got) r of
               Panic e \<Rightarrow> Panic e
             | Done (Inl e, r') \<Rightarrow> Done (Inl (map_read_err (io_read_tag io) e), r')
             | Done (Inr bs, r') \<Rightarrow> read_frame io max_size (got @ bs) r')
      | Inl InvalidMagic \<Rightarrow> Done (Inl HsInvalidMagic, r)
      | Inl UnsupportedOption \<Rightarrow> Done (Inl HsUnsupportedOption, r)
      | Inl MalformedBody \<Rightarrow> Done (Inl HsMalformedBody, r)
      | Inl FrameTooLarge \<Rightarrow> Done (Inl HsFrameTooLarge, r)
      | Inl ChecksumErr \<Rightarrow> Done (Inl HsChecksumErr, r))"
  by pat_completeness auto

termination
  by (relation "measure (\<lambda>(io, max_size, got, r). K_MAX_HANDSHAKE_FRAME - length got)")
    (auto dest!: frame_need_more read_exact_length)

declare read_frame.simps [simp del]

definition write_frame ::
    "('re, 'we, 'r, 'w) hs_io \<Rightarrow> u8 list \<Rightarrow> usize option list \<Rightarrow> 'w
     \<Rightarrow> ((('re, 'we) handshake_error, unit) rust_result \<times> 'w) run" where
  "write_frame io magic values w =
     (case build_frame (io_crc16 io) magic values (replicate K_MAX_HANDSHAKE_FRAME 0) of
        None \<Rightarrow> Done (Inl HsFrameTooLarge, w)
      | Some (buf, len) \<Rightarrow>
          (case demand_exactly (of_nat len) of
             Panic e \<Rightarrow> Panic e
           | Done d \<Rightarrow>
               (case io_put io d (take len buf) w of
                  (Inl e, w') \<Rightarrow> Done (Inl (map_write_err (io_write_tag io) e), w')
                | (Inr n, w') \<Rightarrow> if n = len then Done (Inr (), w') else Panic ''assertion failed'')))"

section \<open>The exchange\<close>

text \<open>A step over both halves that fails with a handshake error, and the \<open>?\<close> operator.\<close>

type_synonym ('re, 'we, 'r, 'w, 'a) hs_step =
  "'r \<times> 'w \<Rightarrow> ((('re, 'we) handshake_error, 'a) rust_result \<times> 'r \<times> 'w) run"

definition hs_then ::
    "('re, 'we, 'r, 'w, 'a) hs_step \<Rightarrow> ('a \<Rightarrow> ('re, 'we, 'r, 'w, 'b) hs_step)
     \<Rightarrow> ('re, 'we, 'r, 'w, 'b) hs_step" where
  "hs_then m f s =
     (case m s of
        Panic e \<Rightarrow> Panic e
      | Done (Inl e, s') \<Rightarrow> Done (Inl e, s')
      | Done (Inr a, s') \<Rightarrow> f a s')"

definition hs_fail :: "('re, 'we) handshake_error \<Rightarrow> ('re, 'we, 'r, 'w, 'a) hs_step" where
  "hs_fail e s = Done (Inl e, s)"

definition hs_ok :: "'a \<Rightarrow> ('re, 'we, 'r, 'w, 'a) hs_step" where
  "hs_ok a s = Done (Inr a, s)"

definition hs_recv :: "('re, 'we, 'r, 'w) hs_io \<Rightarrow> nat \<Rightarrow> ('re, 'we, 'r, 'w, parsed_frame) hs_step" where
  "hs_recv io max_size s = run_map (\<lambda>(x, r). (x, r, snd s)) (read_frame io max_size [] (fst s))"

definition hs_send ::
    "('re, 'we, 'r, 'w) hs_io \<Rightarrow> u8 list \<Rightarrow> usize option list \<Rightarrow> ('re, 'we, 'r, 'w, unit) hs_step" where
  "hs_send io magic values s = run_map (\<lambda>(x, w). (x, fst s, w)) (write_frame io magic values (snd s))"

definition no_values :: "usize option list" where
  "no_values = replicate K_BASIC_KEY_COUNT None"

text \<open>Send \<open>REJECT\<close>, ignore whether it could be sent, and fail.\<close>

definition hs_reject ::
    "('re, 'we, 'r, 'w) hs_io \<Rightarrow> ('re, 'we) handshake_error \<Rightarrow> ('re, 'we, 'r, 'w, 'a) hs_step" where
  "hs_reject io e s =
     (case hs_send io K_REJECT_MAGIC no_values s of
        Panic p \<Rightarrow> Panic p
      | Done (_, s') \<Rightarrow> Done (Inl e, s'))"

text \<open>The check of the entries the initiator is asked to propose.\<close>

fun propose ::
    "basic_entry list \<Rightarrow> u8 \<Rightarrow> usize option list
     \<Rightarrow> (('re, 'we) handshake_error, usize option list) rust_result" where
  "propose [] seen values = Inr values"
| "propose (e # es) seen values =
     (let key = opts_key e AND 0x0F; bt = push_bit (unat key) 1
      in if unat key \<ge> K_BASIC_KEY_COUNT then Inl HsUnsupportedOption
         else if seen AND bt \<noteq> 0 \<or> val_data e = 0 then Inl HsMalformedBody
         else propose es (seen OR bt) (values[unat key := Some (val_data e)]))"

definition initiate_handshake ::
    "('re, 'we, 'r, 'w) hs_io \<Rightarrow> basic_entry list \<Rightarrow> nat \<Rightarrow> (basic_opts \<Rightarrow> bool)
     \<Rightarrow> ('re, 'we, 'r, 'w, basic_opts) hs_step" where
  "initiate_handshake io invite max_size decide =
     (case propose invite 0 no_values of
        Inl e \<Rightarrow> hs_fail e
      | Inr proposed \<Rightarrow>
          hs_then (hs_send io K_INVITE_MAGIC proposed) (\<lambda>_.
          hs_then (hs_recv io max_size) (\<lambda>frame.
            if frame_magic frame = K_REJECT_MAGIC then hs_fail HsPeerRejected
            else if frame_magic frame \<noteq> K_ACCEPT_MAGIC then hs_fail HsInvalidMagic
            else
              (case complete_values (frame_entries frame) of
                 None \<Rightarrow> hs_reject io HsInconsistent
               | Some accepted \<Rightarrow>
                   (let opts = values_to_basic accepted
                    in if \<not> decide opts then hs_reject io HsRejected
                       else
                         hs_then (hs_send io K_CONFRM_MAGIC accepted) (\<lambda>_.
                         hs_then (hs_recv io max_size) (\<lambda>done.
                           if frame_magic done \<noteq> K_CONFRM_MAGIC then hs_fail HsInvalidMagic
                           else if list_ex (\<lambda>e. e \<noteq> None) (frame_entries done) then hs_fail HsInconsistent
                           else hs_ok opts)))))))"

definition accept_handshake ::
    "('re, 'we, 'r, 'w) hs_io \<Rightarrow> basic_opts \<Rightarrow> nat \<Rightarrow> (basic_opts \<Rightarrow> bool)
     \<Rightarrow> ('re, 'we, 'r, 'w, basic_opts) hs_step" where
  "accept_handshake io local max_size decide =
     hs_then (hs_recv io max_size) (\<lambda>frame.
       if frame_magic frame \<noteq> K_INVITE_MAGIC then hs_fail HsInvalidMagic
       else
         (let values = complete_invite local (frame_entries frame); opts = values_to_basic values
          in if \<not> decide opts then hs_reject io HsRejected
             else
               hs_then (hs_send io K_ACCEPT_MAGIC values) (\<lambda>_.
               hs_then (hs_recv io max_size) (\<lambda>confirm.
                 if frame_magic confirm \<noteq> K_CONFRM_MAGIC then hs_reject io HsInvalidMagic
                 else if \<not> confirm_matches (frame_entries confirm) values then hs_reject io HsInconsistent
                 else
                   hs_then (hs_send io K_CONFRM_MAGIC no_values) (\<lambda>_. hs_ok opts)))))"

end
