(* ===== verification/Hs_Run.thy ===== *)
theory Hs_Run
  imports Hs_Agent
begin

text \<open>
  The protocol of the handshake, apart from its reader: what the exchange would do if reading \<open>n\<close> bytes took the next
  \<open>n\<close> bytes off the channel, which is what \<open>agent.rs\<close> takes for granted of its reading half. No half of the
  repository reads like that, and none that keeps the contract of the buffer traits does: over those no handshake
  succeeds (\<open>Hs_Half\<close>). So nothing here is a statement about the handshake as it runs; it shows that the four
  messages themselves are sound, and what remains wrong once the reader is mended (\<open>zero_option_refused\<close>).
\<close>

section \<open>Channels\<close>

text \<open>
  A reader as the exchange has it in mind, which hands out the next bytes of its channel and takes them off it, and a
  half that appends what it is given.
\<close>

definition reads_exactly :: "('re, 'we, 'r, 'w) hs_io \<Rightarrow> ('r \<Rightarrow> u8 list) \<Rightarrow> bool" where
  "reads_exactly io inp =
     (\<forall>n r d. demand_exactly (of_nat n) = Done d \<longrightarrow> n \<le> length (inp r) \<longrightarrow> n < 2 ^ 64 \<longrightarrow>
        (case io_view io d r of
           (Inl e, r') \<Rightarrow> False
         | (Inr slices, r') \<Rightarrow> concat slices = take n (inp r) \<and> inp r' = drop n (inp r)))"

definition writes_fully :: "('re, 'we, 'r, 'w) hs_io \<Rightarrow> ('w \<Rightarrow> u8 list) \<Rightarrow> bool" where
  "writes_fully io outp =
     (\<forall>d bs w. case io_put io d bs w of
        (Inl e, w') \<Rightarrow> False
      | (Inr n, w') \<Rightarrow> n = length bs \<and> outp w' = outp w @ bs)"

lemma exact_demand:
  assumes "0 < n" "n < 2 ^ 64"
  shows "\<exists>d. demand_exactly (of_nat n :: usize) = Done d"
proof -
  have "unat (of_nat n :: usize) = n"
    using assms(2) by (simp add: unat_of_nat)
  then have "(of_nat n :: usize) \<noteq> 0"
    using assms(1) by (metis less_irrefl unat_0)
  then show ?thesis
    by (simp add: demand_exactly_def)
qed

lemma read_exact:
  assumes "reads_exactly io inp" "n \<le> length (inp r)" "n < 2 ^ 64"
  obtains r' where "read_exact_into io n r = Done (Inr (take n (inp r)), r')" "inp r' = drop n (inp r)"
proof (cases "n = 0")
  case True
  then show thesis
    using that [of r] by (simp add: read_exact_into_def)
next
  case False
  then obtain d where d: "demand_exactly (of_nat n :: usize) = Done d"
    using exact_demand [OF _ assms(3)] by auto
  have *: "case io_view io d r of (Inl e, r') \<Rightarrow> False
      | (Inr slices, r') \<Rightarrow> concat slices = take n (inp r) \<and> inp r' = drop n (inp r)"
    using assms(1) [unfolded reads_exactly_def, THEN spec, THEN spec, THEN spec, THEN mp, THEN mp, THEN mp, OF d assms(2,3)] .
  then obtain slices r' where v: "io_view io d r = (Inr slices, r')" "concat slices = take n (inp r)"
    "inp r' = drop n (inp r)"
    by (cases "io_view io d r"; cases "fst (io_view io d r)") auto
  then show thesis
    using that [of r'] False d assms(2) by (simp add: read_exact_into_def)
qed

lemma write_frame_sends:
  assumes "writes_fully io outp" "length magic = 4" "length vs = 4"
  obtains w' where "write_frame io magic vs w = Done (Inr (), w')"
    "outp w' = outp w @ frame_bytes (io_crc16 io) magic vs"
proof -
  let ?F = "frame_bytes (io_crc16 io) magic vs"
  have len: "length ?F \<le> 43" "0 < length ?F"
    using frame_length [OF assms(2,3)] by (simp_all add: frame_bytes_def)
  then have b: "build_frame (io_crc16 io) magic vs (replicate K_MAX_HANDSHAKE_FRAME 0)
      = Some (?F @ drop (length ?F) (replicate K_MAX_HANDSHAKE_FRAME 0), length ?F)"
    using build_frame_spec [OF assms(2)] by (simp add: K_MAX_HANDSHAKE_FRAME_def)
  have "length ?F < 2 ^ 64"
    using len(1) by simp
  then obtain d where d: "demand_exactly (of_nat (length ?F) :: usize) = Done d"
    using exact_demand [OF len(2)] by blast
  obtain n w' where p: "io_put io d ?F w = (Inr n, w')" "n = length ?F" "outp w' = outp w @ ?F"
    using assms(1) [unfolded writes_fully_def, THEN spec, of d, THEN spec, of ?F, THEN spec, of w]
    by (cases "io_put io d ?F w"; cases "fst (io_put io d ?F w)") auto
  show thesis
    using that [of w'] b d p by (simp add: write_frame_def)
qed

section \<open>Reading a frame\<close>

lemma agrees_front: "agrees F (take n F)"
  by (simp add: agrees_def)

text \<open>
  A frame at the head of the channel is read whole and nothing behind it is touched; a frame with a
  zero option is refused.
\<close>

lemma read_frame_takes:
  assumes "reads_exactly io inp" "magic \<in> set magics" "length vs = 4" "Some 0 \<notin> set vs"
    "F = frame_bytes (io_crc16 io) magic vs" "length F \<le> max_size"
  shows "n \<le> length F \<Longrightarrow> inp r = drop n F @ rest \<Longrightarrow>
     \<exists>r'. read_frame io max_size (take n F) r
         = Done (Inr \<lparr>frame_magic = magic, frame_entries = entry_list 0 vs\<rparr>, r') \<and> inp r' = rest"
proof (induction "length F - n" arbitrary: n r rule: less_induct)
  case less
  let ?f = "\<lparr>frame_magic = magic, frame_entries = entry_list 0 vs\<rparr>"
  have m: "length magic = 4"
    using assms(2) by (auto simp: magics_def magic_defs)
  have len: "length F \<le> 43"
    using frame_length [OF m assms(3)] assms(5) by simp
  note spec = parse_frame_spec [OF assms(2-5) agrees_front [of F n] assms(6), of "io_crc32 io"]
  show ?case
  proof (cases "n = length F")
    case True
    then show ?thesis
      using spec less.prems by (simp add: parsed_or_more_def read_frame.simps [of io])
  next
    case False
    then obtain j where j: "parse_frame (io_crc16 io) (io_crc32 io) (take n F) max_size = Inl (NeedMore j)"
      "n < j" "j \<le> length F"
      using spec less.prems(1) by (auto simp: parsed_or_more_def)
    obtain r' where r': "read_exact_into io (j - n) r = Done (Inr (take (j - n) (inp r)), r')"
      "inp r' = drop (j - n) (inp r)"
      by (rule read_exact [OF assms(1), of "j - n" r]) (use j less.prems len in auto)
    have t: "take n F @ take (j - n) (inp r) = take j F"
      using j less.prems by (simp flip: take_add)
    have "inp r' = drop j F @ rest"
      using r'(2) less.prems j by simp
    moreover have "length F - j < length F - n"
      using j by linarith
    ultimately obtain r'' where "read_frame io max_size (take j F) r' = Done (Inr ?f, r'')" "inp r'' = rest"
      using less.hyps [of j r'] j(3) by blast
    moreover have "\<not> min max_size K_MAX_HANDSHAKE_FRAME < j"
      using j(3) len assms(6) by (simp add: K_MAX_HANDSHAKE_FRAME_def)
    then have "read_frame io max_size (take n F) r = read_frame io max_size (take j F) r'"
      using j(1) r'(1) less.prems(1) t by (simp add: read_frame.simps [of io max_size "take n F"])
    ultimately show ?thesis
      by simp
  qed
qed

lemma read_frame_takes_all:
  assumes "reads_exactly io inp" "magic \<in> set magics" "length vs = 4" "Some 0 \<notin> set vs" "43 \<le> max_size"
    "inp r = frame_bytes (io_crc16 io) magic vs @ rest"
  obtains r' where "read_frame io max_size [] r
      = Done (Inr \<lparr>frame_magic = magic, frame_entries = entry_list 0 vs\<rparr>, r')" "inp r' = rest"
proof -
  have "length magic = 4"
    using assms(2) by (auto simp: magics_def magic_defs)
  then have "length (frame_bytes (io_crc16 io) magic vs) \<le> max_size"
    using frame_length [of magic vs "io_crc16 io"] assms(3,5) by linarith
  from read_frame_takes [OF assms(1-4) refl this, of 0 r rest] show thesis
    using that assms(6) by auto
qed

lemma read_frame_refuses:
  assumes "reads_exactly io inp" "magic \<in> set magics" "length vs = 4" "Some 0 \<in> set vs"
    "F = frame_bytes (io_crc16 io) magic vs" "length F \<le> max_size"
  shows "n \<le> length F \<Longrightarrow> inp r = drop n F @ rest \<Longrightarrow>
     \<exists>r'. read_frame io max_size (take n F) r = Done (Inl HsMalformedBody, r')"
proof (induction "length F - n" arbitrary: n r rule: less_induct)
  case less
  have m: "length magic = 4"
    using assms(2) by (auto simp: magics_def magic_defs)
  have len: "length F \<le> 43"
    using frame_length [OF m assms(3)] assms(5) by simp
  note spec = parse_frame_zero [OF assms(2-5) agrees_front [of F n] assms(6), of "io_crc32 io"]
  show ?case
  proof (cases "parse_frame (io_crc16 io) (io_crc32 io) (take n F) max_size = Inl MalformedBody")
    case True
    then show ?thesis
      by (simp add: read_frame.simps [of io])
  next
    case False
    then obtain j where j: "parse_frame (io_crc16 io) (io_crc32 io) (take n F) max_size = Inl (NeedMore j)"
      "n < j" "j \<le> length F"
      using spec less.prems(1) by (auto simp: refused_or_more_def)
    obtain r' where r': "read_exact_into io (j - n) r = Done (Inr (take (j - n) (inp r)), r')"
      "inp r' = drop (j - n) (inp r)"
      by (rule read_exact [OF assms(1), of "j - n" r]) (use j less.prems len in auto)
    have t: "take n F @ take (j - n) (inp r) = take j F"
      using j less.prems by (simp flip: take_add)
    have "inp r' = drop j F @ rest"
      using r'(2) less.prems j by simp
    moreover have "length F - j < length F - n"
      using j by linarith
    ultimately obtain r'' where "read_frame io max_size (take j F) r' = Done (Inl HsMalformedBody, r'')"
      using less.hyps [of j r'] j(3) by blast
    moreover have "\<not> min max_size K_MAX_HANDSHAKE_FRAME < j"
      using j(3) len assms(6) by (simp add: K_MAX_HANDSHAKE_FRAME_def)
    then have "read_frame io max_size (take n F) r = read_frame io max_size (take j F) r'"
      using j(1) r'(1) less.prems(1) t by (simp add: read_frame.simps [of io max_size "take n F"])
    ultimately show ?thesis
      by simp
  qed
qed

section \<open>The values\<close>

lemma values_length: "length (basic_to_values local) = 4" "length no_values = 4"
  by (simp_all add: basic_to_values_def no_values_def K_BASIC_KEY_COUNT_def)

lemma list4: "length xs = 4 \<Longrightarrow> \<exists>a b c d. xs = [a, b, c, d]"
  by (auto simp: numeral_eq_Suc length_Suc_conv)

text \<open>Completion keeps what the invitation mentions and takes the rest from the listener.\<close>

lemma complete_invite_values:
  assumes "length vs = 4"
  shows "complete_invite local (entry_list 0 vs)
     = map2 (\<lambda>v d. if v = None then d else v) vs (basic_to_values local)"
proof -
  obtain a b c d where v: "vs = [a, b, c, d]"
    using list4 [OF assms] by blast
  have "length (entry_list 0 vs) = 4"
    using assms by simp
  then obtain e0 e1 e2 e3 where e: "entry_list 0 vs = [e0, e1, e2, e3]"
    using list4 by blast
  have "map (map_option val_data) [e0, e1, e2, e3] = [a, b, c, d]"
    using entry_list_vals [of 0 vs] by (simp only: e flip: v)
  then show ?thesis
    by (cases e0; cases e1; cases e2; cases e3) (auto simp: e [unfolded v] v complete_invite_def basic_to_values_def)
qed

lemma complete_invite_complete:
  assumes "length vs = 4"
  shows "is_complete (complete_invite local (entry_list 0 vs))"
    "length (complete_invite local (entry_list 0 vs)) = 4"
proof -
  obtain a b c d where v: "vs = [a, b, c, d]"
    using list4 [OF assms] by blast
  show "is_complete (complete_invite local (entry_list 0 vs))"
    "length (complete_invite local (entry_list 0 vs)) = 4"
    unfolding complete_invite_values [OF assms]
    by (simp_all add: v is_complete_def basic_to_values_def)
qed

lemma complete_values_entries:
  "complete_values (entry_list k vs) = (if is_complete vs then Some vs else None)"
  by (simp add: complete_values_def)

lemma confirm_matches_entries:
  "confirm_matches (entry_list k vs) expected = (is_complete vs \<and> list_all (\<lambda>(a, b). a = b) (zip vs expected))"
  by (simp add: confirm_matches_def complete_values_entries)

lemma zip_self [simp]: "list_all (\<lambda>(a, b). a = b) (zip vs vs)"
  by (auto simp: list_all_iff set_zip)

lemma no_values_list: "no_values = [None, None, None, None]"
  by (simp add: no_values_def K_BASIC_KEY_COUNT_def numeral_eq_Suc)

lemma no_entries: "entry_list k no_values = [None, None, None, None]"
  by (simp add: no_values_def K_BASIC_KEY_COUNT_def numeral_eq_Suc)

lemma propose_values:
  "propose invite seen vs = Inr out \<Longrightarrow> length vs = 4 \<Longrightarrow> Some 0 \<notin> set vs \<Longrightarrow>
     length out = 4 \<and> Some 0 \<notin> set out"
proof (induction invite seen vs rule: propose.induct)
  case (2 e es seen vs)
  have "Some 0 \<notin> set (vs[i := Some (val_data e)])" if "val_data e \<noteq> 0" for i
    using 2(4) that set_update_subset_insert [of vs i "Some (val_data e)"] by auto
  then show ?case
    using 2 by (auto simp: Let_def split: if_splits)
qed simp

lemma proposed_ok:
  assumes "propose invite 0 no_values = Inr out"
  shows "length out = 4" "Some 0 \<notin> set out"
  using propose_values [OF assms values_length(2)] by (simp_all add: no_values_def)

section \<open>Steps over both halves\<close>

lemma recv_frame:
  assumes "reads_exactly io inp" "magic \<in> set magics" "length vs = 4" "Some 0 \<notin> set vs" "43 \<le> max_size"
    "inp (fst s) = frame_bytes (io_crc16 io) magic vs @ rest"
  obtains s' where "hs_recv io max_size s
      = Done (Inr \<lparr>frame_magic = magic, frame_entries = entry_list 0 vs\<rparr>, s')"
    "inp (fst s') = rest" "snd s' = snd s"
proof -
  obtain r' where "read_frame io max_size [] (fst s)
      = Done (Inr \<lparr>frame_magic = magic, frame_entries = entry_list 0 vs\<rparr>, r')" "inp r' = rest"
    by (rule read_frame_takes_all [where io = io and inp = inp and r = "fst s" and magic = magic and vs = vs
          and max_size = max_size and rest = rest]) (use assms in auto)
  then show thesis
    using that [of "(r', snd s)"] by (simp add: hs_recv_def)
qed

lemma send_frame:
  assumes "writes_fully io outp" "magic \<in> set magics" "length vs = 4"
  obtains s' where "hs_send io magic vs s = Done (Inr (), s')" "fst s' = fst s"
    "outp (snd s') = outp (snd s) @ frame_bytes (io_crc16 io) magic vs"
proof -
  have "length magic = 4"
    using assms(2) by (auto simp: magics_def magic_defs)
  then obtain w' where "write_frame io magic vs (snd s) = Done (Inr (), w')"
    "outp w' = outp (snd s) @ frame_bytes (io_crc16 io) magic vs"
    using write_frame_sends [OF assms(1) _ assms(3)] by blast
  then show thesis
    using that [of "(fst s, w')"] by (simp add: hs_send_def)
qed

lemma magic_facts [simp]:
  "K_INVITE_MAGIC \<in> set magics" "K_ACCEPT_MAGIC \<in> set magics" "K_CONFRM_MAGIC \<in> set magics"
  "K_REJECT_MAGIC \<in> set magics" "K_ACCEPT_MAGIC \<noteq> K_REJECT_MAGIC" "K_CONFRM_MAGIC \<noteq> K_REJECT_MAGIC"
  by (simp_all add: magics_def magic_defs)

abbreviation frame_of :: "('re, 'we, 'r, 'w) hs_io \<Rightarrow> u8 list \<Rightarrow> usize option list \<Rightarrow> u8 list" where
  "frame_of io \<equiv> frame_bytes (io_crc16 io)"

text \<open>The two sides of a successful exchange, each against what the other one sends.\<close>

lemma initiate_runs:
  fixes io :: "('re, 'we, 'r, 'w) hs_io"
  assumes "reads_exactly io inp" "writes_fully io outp" "43 \<le> max_size"
    "propose invite 0 no_values = (Inr vs :: (('re, 'we) handshake_error, usize option list) rust_result)"
    "is_complete acc" "length acc = 4" "Some 0 \<notin> set acc"
    "inp (fst s) = frame_of io K_ACCEPT_MAGIC acc @ frame_of io K_CONFRM_MAGIC no_values @ rest"
    "decide (values_to_basic acc)"
  shows "\<exists>s'. initiate_handshake io invite max_size decide s = Done (Inr (values_to_basic acc), s')
     \<and> outp (snd s') = outp (snd s) @ frame_of io K_INVITE_MAGIC vs @ frame_of io K_CONFRM_MAGIC acc
     \<and> inp (fst s') = rest"
proof -
  note R = recv_frame [OF assms(1) _ _ _ assms(3)] and W = send_frame [OF assms(2)]
  have nz: "Some 0 \<notin> set no_values"
    by (simp add: no_values_def)
  obtain s1 where s1: "hs_send io K_INVITE_MAGIC vs s = Done (Inr (), s1)" "fst s1 = fst s"
    "outp (snd s1) = outp (snd s) @ frame_of io K_INVITE_MAGIC vs"
    using W [of K_INVITE_MAGIC vs s] proposed_ok(1) [OF assms(4)] by auto
  obtain s2 where s2: "hs_recv io max_size s1
      = Done (Inr \<lparr>frame_magic = K_ACCEPT_MAGIC, frame_entries = entry_list 0 acc\<rparr>, s2)"
    "inp (fst s2) = frame_of io K_CONFRM_MAGIC no_values @ rest" "snd s2 = snd s1"
    using R [of K_ACCEPT_MAGIC acc s1] assms(6-8) s1(2) by auto
  obtain s3 where s3: "hs_send io K_CONFRM_MAGIC acc s2 = Done (Inr (), s3)" "fst s3 = fst s2"
    "outp (snd s3) = outp (snd s2) @ frame_of io K_CONFRM_MAGIC acc"
    using W [of K_CONFRM_MAGIC acc s2] assms(6) by auto
  obtain s4 where s4: "hs_recv io max_size s3
      = Done (Inr \<lparr>frame_magic = K_CONFRM_MAGIC, frame_entries = entry_list 0 no_values\<rparr>, s4)"
    "inp (fst s4) = rest" "snd s4 = snd s3"
    using R [of K_CONFRM_MAGIC no_values s3] values_length(2) nz s2(2) s3(2) by auto
  show ?thesis
    using s1 s2 s3 s4 assms(4,5,9)
    by (cases s4) (simp add: initiate_handshake_def hs_then_def hs_ok_def complete_values_entries Let_def no_entries)
qed

lemma accept_runs:
  assumes "reads_exactly io inp" "writes_fully io outp" "43 \<le> max_size"
    "length vs = 4" "Some 0 \<notin> set vs" "acc = complete_invite local (entry_list 0 vs)" "Some 0 \<notin> set acc"
    "inp (fst s) = frame_of io K_INVITE_MAGIC vs @ frame_of io K_CONFRM_MAGIC acc @ rest"
    "decide (values_to_basic acc)"
  shows "\<exists>s'. accept_handshake io local max_size decide s = Done (Inr (values_to_basic acc), s')
     \<and> outp (snd s') = outp (snd s) @ frame_of io K_ACCEPT_MAGIC acc @ frame_of io K_CONFRM_MAGIC no_values
     \<and> inp (fst s') = rest"
proof -
  note R = recv_frame [OF assms(1) _ _ _ assms(3)] and W = send_frame [OF assms(2)]
  note acc = complete_invite_complete [OF assms(4), of local, folded assms(6)]
  obtain s1 where s1: "hs_recv io max_size s
      = Done (Inr \<lparr>frame_magic = K_INVITE_MAGIC, frame_entries = entry_list 0 vs\<rparr>, s1)"
    "inp (fst s1) = frame_of io K_CONFRM_MAGIC acc @ rest" "snd s1 = snd s"
    using R [of K_INVITE_MAGIC vs s] assms(4,5,8) by auto
  obtain s2 where s2: "hs_send io K_ACCEPT_MAGIC acc s1 = Done (Inr (), s2)" "fst s2 = fst s1"
    "outp (snd s2) = outp (snd s1) @ frame_of io K_ACCEPT_MAGIC acc"
    using W [of K_ACCEPT_MAGIC acc s1] acc(2) by auto
  obtain s3 where s3: "hs_recv io max_size s2
      = Done (Inr \<lparr>frame_magic = K_CONFRM_MAGIC, frame_entries = entry_list 0 acc\<rparr>, s3)"
    "inp (fst s3) = rest" "snd s3 = snd s2"
    using R [of K_CONFRM_MAGIC acc s2] acc(2) assms(7) s1(2) s2(2) by auto
  obtain s4 where s4: "hs_send io K_CONFRM_MAGIC no_values s3 = Done (Inr (), s4)" "fst s4 = fst s3"
    "outp (snd s4) = outp (snd s3) @ frame_of io K_CONFRM_MAGIC no_values"
    using W [of K_CONFRM_MAGIC no_values s3] values_length(2) by auto
  show ?thesis
    using s1 s2 s3 s4 assms(6,9) acc(1)
    by (simp add: accept_handshake_def hs_then_def hs_ok_def confirm_matches_entries Let_def)
qed

lemma recv_refuses:
  assumes "reads_exactly io inp" "magic \<in> set magics" "length vs = 4" "Some 0 \<in> set vs" "43 \<le> max_size"
    "inp (fst s) = frame_of io magic vs @ rest"
  shows "\<exists>s'. hs_recv io max_size s = Done (Inl HsMalformedBody, s')"
proof -
  have "length magic = 4"
    using assms(2) by (auto simp: magics_def magic_defs)
  then have "length (frame_of io magic vs) \<le> max_size"
    using frame_length [of magic vs "io_crc16 io"] assms(3,5) by linarith
  from read_frame_refuses [OF assms(1-4) refl this, of 0 "fst s" rest] assms(6) show ?thesis
    by (auto simp: hs_recv_def)
qed

section \<open>What a successful side has done\<close>

lemma hs_then_ok:
  "hs_then m f s = Done (Inr b, s') \<longleftrightarrow> (\<exists>a s1. m s = Done (Inr a, s1) \<and> f a s1 = Done (Inr b, s'))"
  by (auto simp: hs_then_def split: run.splits sum.splits prod.splits)

lemma hs_no_result [simp]:
  "hs_fail e s \<noteq> Done (Inr b, s')" "hs_reject io e s \<noteq> Done (Inr b, s')"
  by (auto simp: hs_fail_def hs_reject_def split: run.splits prod.splits)

lemma recv_keeps: "hs_recv io max_size s = Done (x, s') \<Longrightarrow> snd s' = snd s"
  by (auto simp: hs_recv_def)

lemma send_appends:
  assumes "writes_fully io outp" "magic \<in> set magics" "length vs = 4" "hs_send io magic vs s = Done (Inr (), s')"
  shows "fst s' = fst s \<and> outp (snd s') = outp (snd s) @ frame_of io magic vs"
proof -
  obtain s1 where "hs_send io magic vs s = Done (Inr (), s1)" "fst s1 = fst s"
    "outp (snd s1) = outp (snd s) @ frame_of io magic vs"
    by (rule send_frame [OF assms(1-3)])
  then show ?thesis
    using assms(4) by simp
qed

lemma entries_map: "length es = 4 \<Longrightarrow> length (map (map_option val_data) es) = 4"
  by simp

lemma complete_values_length: "complete_values es = Some vs \<Longrightarrow> length vs = length es"
  by (auto simp: complete_values_def Let_def split: if_splits)

text \<open>A parsed frame has four entries.\<close>

lemma parse_entries_length:
  "parse_entries crc16 crc32 buf max_size magic pos es seen = Inr (f, n) \<Longrightarrow>
     length (frame_entries f) = length es"
proof (induction crc16 crc32 buf max_size magic pos es seen rule: parse_entries.induct)
  case (1 crc16 crc32 buf max_size magic pos es seen)
  show ?case
    using "1.prems" "1.IH" by (subst (asm) parse_entries.simps) (auto simp: Let_def split: if_splits)
qed

lemma parse_frame_length: "parse_frame crc16 crc32 buf max_size = Inr (f, n) \<Longrightarrow> length (frame_entries f) = 4"
  by (auto simp: parse_frame_def Let_def K_BASIC_KEY_COUNT_def split: if_splits dest: parse_entries_length)

lemma read_frame_length:
  "read_frame io max_size got r = Done (Inr f, r') \<Longrightarrow> length (frame_entries f) = 4"
proof (induction io max_size got r rule: read_frame.induct)
  case (1 io max_size got r)
  show ?case
    using "1.prems" "1.IH"
    by (subst (asm) read_frame.simps)
      (auto dest: parse_frame_length split: sum.splits parse_error.splits run.splits if_splits prod.splits)
qed

lemma recv_length: "hs_recv io max_size s = Done (Inr f, s') \<Longrightarrow> length (frame_entries f) = 4"
  by (auto simp: hs_recv_def dest: read_frame_length)

lemma complete_invite_length:
  "length (complete_invite local es) = 4"
proof -
  have "length (fold (\<lambda>(k, e) values. case e of None \<Rightarrow> values | Some x \<Rightarrow> values[k := Some (val_data x)]) xs vs)
      = length vs" for xs :: "(nat \<times> basic_entry option) list" and vs
    by (induction xs arbitrary: vs) (auto split: option.splits)
  then show ?thesis
    by (simp add: complete_invite_def values_length)
qed

text \<open>A side that succeeded: what it sent, and what it received on the way.\<close>

lemma initiate_ok:
  fixes io :: "('re, 'we, 'r, 'w) hs_io"
  assumes "writes_fully io outp" "initiate_handshake io invite max_size decide s = Done (Inr opts, s')"
  obtains vs acc f s1 s2 where
    "propose invite 0 no_values = (Inr vs :: (('re, 'we) handshake_error, usize option list) rust_result)"
    "fst s1 = fst s" "hs_recv io max_size s1 = Done (Inr f, s2)"
    "complete_values (frame_entries f) = Some acc" "opts = values_to_basic acc"
    "outp (snd s') = outp (snd s) @ frame_of io K_INVITE_MAGIC vs @ frame_of io K_CONFRM_MAGIC acc"
proof -
  from assms(2) obtain vs where vs:
      "propose invite 0 no_values = (Inr vs :: (('re, 'we) handshake_error, usize option list) rust_result)"
    by (auto simp: initiate_handshake_def split: sum.splits)
  from assms(2) obtain s1 f s2 acc s3 g where
    s1: "hs_send io K_INVITE_MAGIC vs s = Done (Inr (), s1)"
    and f: "hs_recv io max_size s1 = Done (Inr f, s2)"
    and acc: "complete_values (frame_entries f) = Some acc" "opts = values_to_basic acc"
    and s3: "hs_send io K_CONFRM_MAGIC acc s2 = Done (Inr (), s3)"
    and g: "hs_recv io max_size s3 = Done (Inr g, s')"
    by (auto simp: initiate_handshake_def vs hs_then_ok Let_def hs_ok_def split: if_splits option.splits)
  note 1 = send_appends [OF assms(1) _ proposed_ok(1) [OF vs] s1]
  have "length acc = 4"
    using complete_values_length [OF acc(1)] recv_length [OF f] by simp
  note 3 = send_appends [OF assms(1) _ this s3]
  show thesis
    using 1 3 recv_keeps [OF f] recv_keeps [OF g] by (intro that [OF vs _ f acc]) simp_all
qed

lemma accept_ok:
  assumes "writes_fully io outp" "accept_handshake io local max_size decide s = Done (Inr opts, s')"
  obtains acc f s1 where "hs_recv io max_size s = Done (Inr f, s1)"
    "acc = complete_invite local (frame_entries f)" "opts = values_to_basic acc"
    "outp (snd s') = outp (snd s) @ frame_of io K_ACCEPT_MAGIC acc @ frame_of io K_CONFRM_MAGIC no_values"
proof -
  from assms(2) obtain f s1 acc s2 g s3 where
    f: "hs_recv io max_size s = Done (Inr f, s1)" "acc = complete_invite local (frame_entries f)"
    and acc: "opts = values_to_basic acc"
    and s2: "hs_send io K_ACCEPT_MAGIC acc s1 = Done (Inr (), s2)"
    and g: "hs_recv io max_size s2 = Done (Inr g, s3)"
    and s': "hs_send io K_CONFRM_MAGIC no_values s3 = Done (Inr (), s')"
    by (auto simp: accept_handshake_def hs_then_ok Let_def hs_ok_def split: if_splits)
  have "length acc = 4"
    by (simp add: f(2) complete_invite_length)
  note 2 = send_appends [OF assms(1) _ this s2]
  note 4 = send_appends [OF assms(1) _ values_length(2) s']
  show thesis
    using 2 4 recv_keeps [OF f(1)] recv_keeps [OF g] by (intro that [OF f acc]) simp_all
qed

section \<open>The exchange as it is meant\<close>

text \<open>
  The four-message exchange would complete: over such channels, with a valid invitation, a
  listener none of whose options is zero and both callers content, the initiator and the listener
  both succeed with the same options, namely the invitation's values completed by the listener's;
  each sends exactly its two frames, reads exactly the other's two and leaves the bytes behind them.
\<close>

lemma exchange_completes:
  fixes io :: "('re, 'we, 'r, 'w) hs_io"
  assumes "reads_exactly io inp" "writes_fully io outp" "43 \<le> max1" "43 \<le> max2"
    "propose invite 0 no_values = (Inr vs :: (('re, 'we) handshake_error, usize option list) rust_result)"
    "Some 0 \<notin> set (basic_to_values local)"
    "acc = map2 (\<lambda>v d. if v = None then d else v) vs (basic_to_values local)"
    "decide1 (values_to_basic acc)" "decide2 (values_to_basic acc)"
    "inp (fst s1) = frame_of io K_ACCEPT_MAGIC acc @ frame_of io K_CONFRM_MAGIC no_values @ rest1"
    "inp (fst s2) = frame_of io K_INVITE_MAGIC vs @ frame_of io K_CONFRM_MAGIC acc @ rest2"
  shows "\<exists>s1' s2'. initiate_handshake io invite max1 decide1 s1 = Done (Inr (values_to_basic acc), s1')
     \<and> accept_handshake io local max2 decide2 s2 = Done (Inr (values_to_basic acc), s2')
     \<and> outp (snd s1') = outp (snd s1) @ frame_of io K_INVITE_MAGIC vs @ frame_of io K_CONFRM_MAGIC acc
     \<and> outp (snd s2') = outp (snd s2) @ frame_of io K_ACCEPT_MAGIC acc @ frame_of io K_CONFRM_MAGIC no_values
     \<and> inp (fst s1') = rest1 \<and> inp (fst s2') = rest2"
proof -
  note vs = proposed_ok [OF assms(5)]
  have acc: "acc = complete_invite local (entry_list 0 vs)"
    by (simp add: assms(7) complete_invite_values [OF vs(1)])
  note c = complete_invite_complete [OF vs(1), of local, folded acc]
  have nz: "Some 0 \<notin> set acc"
    using vs(2) assms(6) unfolding assms(7)
    by (auto simp: set_zip split: if_splits dest!: nth_mem)
  show ?thesis
    using initiate_runs [OF assms(1-3,5) c nz assms(10), of decide1] assms(8,9)
      accept_runs [OF assms(1,2,4) vs acc nz assms(11), of decide2]
    by blast
qed

text \<open>
  The two sides would agree: whenever an initiator and a listener that are connected by such
  channels (each has received exactly what the other one sent) both succeed, they hold the same
  options, whatever was proposed, whatever the listener's own options are and whatever the callers
  decided.
\<close>

lemma exchange_agreement:
  fixes io :: "('re, 'we, 'r, 'w) hs_io"
  assumes "reads_exactly io inp" "writes_fully io outp" "43 \<le> max1" "43 \<le> max2"
    "initiate_handshake io invite max1 decide1 s1 = Done (Inr opts1, s1')"
    "accept_handshake io local max2 decide2 s2 = Done (Inr opts2, s2')"
    "outp (snd s1) = []" "outp (snd s2) = []"
    "inp (fst s1) = outp (snd s2')" "inp (fst s2) = outp (snd s1')"
  shows "opts1 = opts2"
proof -
  obtain vs acc1 f t1 t2 where i:
    "propose invite 0 no_values = (Inr vs :: (('re, 'we) handshake_error, usize option list) rust_result)"
    "fst t1 = fst s1" "hs_recv io max1 t1 = Done (Inr f, t2)"
    "complete_values (frame_entries f) = Some acc1" "opts1 = values_to_basic acc1"
    "outp (snd s1') = frame_of io K_INVITE_MAGIC vs @ frame_of io K_CONFRM_MAGIC acc1"
    by (rule initiate_ok [OF assms(2,5)]) (rule that, simp_all add: assms(7))
  obtain acc2 g t3 where a: "hs_recv io max2 s2 = Done (Inr g, t3)"
    "acc2 = complete_invite local (frame_entries g)" "opts2 = values_to_basic acc2"
    "outp (snd s2') = frame_of io K_ACCEPT_MAGIC acc2 @ frame_of io K_CONFRM_MAGIC no_values"
    by (rule accept_ok [OF assms(2,6)]) (rule that, simp_all add: assms(8))
  have len: "length acc2 = 4"
    by (simp add: a(2) complete_invite_length)
  have inp: "inp (fst t1) = frame_of io K_ACCEPT_MAGIC acc2 @ frame_of io K_CONFRM_MAGIC no_values"
    by (simp add: i(2) assms(9) a(4))
  have "Some 0 \<notin> set acc2"
  proof
    assume "Some 0 \<in> set acc2"
    from recv_refuses [OF assms(1) _ len this assms(3) inp] i(3) show False
      by simp
  qed
  then obtain t where "hs_recv io max1 t1
      = Done (Inr \<lparr>frame_magic = K_ACCEPT_MAGIC, frame_entries = entry_list 0 acc2\<rparr>, t)"
    using recv_frame [OF assms(1) magic_facts(2) len _ assms(3) inp] by metis
  then have "frame_entries f = entry_list 0 acc2"
    using i(3) by simp
  then have "acc1 = acc2"
    using i(4) by (simp add: complete_values_entries split: if_splits)
  then show ?thesis
    by (simp add: i(5) a(3))
qed

text \<open>
  A listener does not check its own options: when one of them that the invitation leaves open
  is zero (a timeout below one second is sent as zero seconds), the \<open>ACCEPT\<close> it sends is one that
  every initiator refuses as malformed.
\<close>

theorem zero_option_refused:
  fixes io :: "('re, 'we, 'r, 'w) hs_io"
  assumes "reads_exactly io inp" "writes_fully io outp" "43 \<le> max_size"
    "propose invite 0 no_values = (Inr vs :: (('re, 'we) handshake_error, usize option list) rust_result)"
    "acc = complete_invite local (entry_list 0 vs)"
    "k < 4" "vs ! k = None" "basic_to_values local ! k = Some 0"
    "inp (fst s) = frame_of io K_ACCEPT_MAGIC acc @ rest"
  shows "\<exists>s'. initiate_handshake io invite max_size decide s = Done (Inl HsMalformedBody, s')"
proof -
  note vs = proposed_ok [OF assms(4)]
  have acc: "acc = map2 (\<lambda>v d. if v = None then d else v) vs (basic_to_values local)"
    by (simp add: assms(5) complete_invite_values [OF vs(1)])
  then have len: "length acc = 4"
    by (simp add: vs(1) values_length)
  have "acc ! k = Some 0"
    using assms(6-8) vs(1) values_length by (simp add: acc)
  then have z: "Some 0 \<in> set acc"
    using assms(6) len nth_mem by metis
  obtain s1 where s1: "hs_send io K_INVITE_MAGIC vs s = Done (Inr (), s1)" "fst s1 = fst s"
    by (rule send_frame [OF assms(2) _ vs(1), of K_INVITE_MAGIC s]) auto
  then have "\<exists>s2. hs_recv io max_size s1 = Done (Inl HsMalformedBody, s2)"
    using recv_refuses [OF assms(1) _ len z assms(3), of K_ACCEPT_MAGIC s1 rest] assms(9) by simp
  then show ?thesis
    using s1 assms(4) by (auto simp: initiate_handshake_def hs_then_def)
qed

section \<open>Concrete runs\<close>

definition demo_io :: "(unit, unit, u8 list, u8 list) hs_io" where
  "demo_io = \<lparr>io_crc16 = (\<lambda>bs. of_nat (length bs)), io_crc32 = (\<lambda>bs. 0), io_read_tag = (\<lambda>_. RClosing),
     io_write_tag = (\<lambda>_. WClosing),
     io_view = (\<lambda>d r. let n = (case demand_min d of None \<Rightarrow> 0 | Some l \<Rightarrow> unat l) in (Inr [take n r], drop n r)),
     io_put = (\<lambda>d bs w. (Inr (length bs), w @ bs))\<rparr>"

lemma demo_io_reliable: "reads_exactly demo_io (\<lambda>r. r)" "writes_fully demo_io (\<lambda>w. w)"
proof -
  have "(case demand_min d of None \<Rightarrow> 0 | Some l \<Rightarrow> unat l) = n"
    if "demand_exactly (of_nat n :: usize) = Done d" "n < 2 ^ 64" for n d
  proof -
    have "unat (of_nat n :: usize) = n"
      using that(2) by (simp add: unat_of_nat)
    then show ?thesis
      using that(1) by (auto simp: demand_exactly_def split: if_splits)
  qed
  then show "reads_exactly demo_io (\<lambda>r. r)"
    unfolding reads_exactly_def by (auto simp: demo_io_def Let_def)
qed (simp add: writes_fully_def demo_io_def)

text \<open>The invitation names the packet size; the listener offers its defaults.\<close>

definition demo_invite :: "basic_entry list" where
  "demo_invite = [\<lparr>opts_key = 0, val_data = 8192\<rparr>]"

lemma demo_proposed:
  "propose demo_invite 0 no_values = Inr [Some 8192, None, None, None]"
  by (simp add: demo_invite_def no_values_list K_BASIC_KEY_COUNT_def Let_def)

abbreviation demo_result :: "usize option list" where
  "demo_result \<equiv> [Some 8192, Some (push_bit 28 1), Some (push_bit 28 1), Some 30]"

lemma demo_local:
  "Some 0 \<notin> set (basic_to_values opts_default)"
  "map2 (\<lambda>v d. if v = None then d else v) [Some 8192, None, None, None] (basic_to_values opts_default)
     = demo_result"
  by (simp_all add: basic_to_values_def opts_default_def from_secs_def)

lemma demo_exchange_completes:
  "\<exists>s1' s2'. initiate_handshake demo_io demo_invite 64 (\<lambda>_. True)
         (frame_of demo_io K_ACCEPT_MAGIC demo_result @ frame_of demo_io K_CONFRM_MAGIC no_values @ [7], [])
       = Done (Inr (values_to_basic demo_result), s1')
     \<and> accept_handshake demo_io opts_default 64 (\<lambda>_. True)
         (frame_of demo_io K_INVITE_MAGIC [Some 8192, None, None, None]
            @ frame_of demo_io K_CONFRM_MAGIC demo_result @ [8, 9], [])
       = Done (Inr (values_to_basic demo_result), s2')
     \<and> fst s1' = [7] \<and> fst s2' = [8, 9]"
  using exchange_completes [OF demo_io_reliable _ _ demo_proposed demo_local(1) demo_local(2) [symmetric],
      where ?max1.0 = 64 and ?max2.0 = 64 and ?decide1.0 = "\<lambda>_. True" and ?decide2.0 = "\<lambda>_. True"
        and ?s1.0 = "(frame_of demo_io K_ACCEPT_MAGIC demo_result @ frame_of demo_io K_CONFRM_MAGIC no_values @ [7], [])"
        and ?s2.0 = "(frame_of demo_io K_INVITE_MAGIC [Some 8192, None, None, None]
            @ frame_of demo_io K_CONFRM_MAGIC demo_result @ [8, 9], [])"
        and ?rest1.0 = "[7]" and ?rest2.0 = "[8, 9]"]
  by auto

lemma demo_frames_exchanged:
  "\<exists>s1' s2'. initiate_handshake demo_io demo_invite 64 (\<lambda>_. True)
         (frame_of demo_io K_ACCEPT_MAGIC demo_result @ frame_of demo_io K_CONFRM_MAGIC no_values, [])
       = Done (Inr (values_to_basic demo_result), s1')
     \<and> accept_handshake demo_io opts_default 64 (\<lambda>_. True)
         (frame_of demo_io K_INVITE_MAGIC [Some 8192, None, None, None]
            @ frame_of demo_io K_CONFRM_MAGIC demo_result, [])
       = Done (Inr (values_to_basic demo_result), s2')
     \<and> snd s1' = frame_of demo_io K_INVITE_MAGIC [Some 8192, None, None, None]
            @ frame_of demo_io K_CONFRM_MAGIC demo_result
     \<and> snd s2' = frame_of demo_io K_ACCEPT_MAGIC demo_result @ frame_of demo_io K_CONFRM_MAGIC no_values"
proof -
  have acc: "demo_result = complete_invite opts_default (entry_list 0 [Some 8192, None, None, None])"
    using complete_invite_values [of "[Some 8192, None, None, None]" opts_default] demo_local(2) by simp
  show ?thesis
    using initiate_runs [OF demo_io_reliable _ demo_proposed,
        of 64 demo_result "(frame_of demo_io K_ACCEPT_MAGIC demo_result @ frame_of demo_io K_CONFRM_MAGIC no_values, [])"
          "[]" "\<lambda>_. True"]
      accept_runs [OF demo_io_reliable _ _ _ acc,
        of 64 "(frame_of demo_io K_INVITE_MAGIC [Some 8192, None, None, None]
            @ frame_of demo_io K_CONFRM_MAGIC demo_result, [])" "[]" "\<lambda>_. True"]
    by (auto simp: is_complete_def)
qed

lemma demo_exchange_agrees:
  "\<exists>s1 s1' s2 s2' opts. initiate_handshake demo_io demo_invite 64 (\<lambda>_. True) s1 = Done (Inr opts, s1')
     \<and> accept_handshake demo_io opts_default 64 (\<lambda>_. True) s2 = Done (Inr opts, s2')
     \<and> fst s1 = snd s2' \<and> fst s2 = snd s1'"
proof -
  obtain s1' s2' where *: "initiate_handshake demo_io demo_invite 64 (\<lambda>_. True)
         (frame_of demo_io K_ACCEPT_MAGIC demo_result @ frame_of demo_io K_CONFRM_MAGIC no_values, [])
       = Done (Inr (values_to_basic demo_result), s1')"
     "accept_handshake demo_io opts_default 64 (\<lambda>_. True)
         (frame_of demo_io K_INVITE_MAGIC [Some 8192, None, None, None]
            @ frame_of demo_io K_CONFRM_MAGIC demo_result, [])
       = Done (Inr (values_to_basic demo_result), s2')"
     "snd s1' = frame_of demo_io K_INVITE_MAGIC [Some 8192, None, None, None]
            @ frame_of demo_io K_CONFRM_MAGIC demo_result"
     "snd s2' = frame_of demo_io K_ACCEPT_MAGIC demo_result @ frame_of demo_io K_CONFRM_MAGIC no_values"
    using demo_frames_exchanged by blast
  have "values_to_basic demo_result = values_to_basic demo_result"
    by (rule exchange_agreement [OF demo_io_reliable _ _ *(1,2)]) (simp_all add: *(3,4))
  then show ?thesis
    using * by (metis fst_conv)
qed

text \<open>A timeout of half a second.\<close>

definition demo_short :: basic_opts where
  "demo_short = opts_default\<lparr>max_channel_timeout := \<lparr>dur_secs = 0, dur_nanos = 500000000\<rparr>\<rparr>"

theorem zero_option_refused_witness:
  "\<exists>s'. initiate_handshake demo_io demo_invite 64 (\<lambda>_. True)
     (frame_of demo_io K_ACCEPT_MAGIC
        (complete_invite demo_short (entry_list 0 [Some 8192, None, None, None])) @ [], [])
     = Done (Inl HsMalformedBody, s')"
  by (rule zero_option_refused [OF demo_io_reliable _ demo_proposed refl, where k = 3 and rest = "[]"])
    (simp_all add: demo_short_def basic_to_values_def)

end
