(* ===== verification/Hs_Circ.thy ===== *)
theory Hs_Circ
  imports Hs_Run Circ_Half
begin

text \<open>
  The handshake's reader over the receiving half of the repository's own circular buffer: what a
  view of exactly \<open>n\<close> bytes is there, and what is left when the segment is dropped.
\<close>

section \<open>A view\<close>

text \<open>
  One synchronous attempt to read: the slices of the lent segment and the buffer after the segment
  is dropped untouched. An attempt that lends nothing is its error.
\<close>

definition circ_byte_view ::
    "('a, 'e, 'i) input_dev \<Rightarrow> ('a, 'f, 'o) output_dev \<Rightarrow> nat \<Rightarrow> usize demand \<Rightarrow> ('a, 'i, 'o) circ
     \<Rightarrow> (consumer_error, 'a list list) rust_result \<times> ('a, 'i, 'o) circ" where
  "circ_byte_view rd wr k d c =
     (case circ_try_read rd wr k d c of
        None \<Rightarrow> (Inl CUnavailable, c)
      | Some (Inl e, c1) \<Rightarrow> (Inl e, c1)
      | Some (Inr g, c1) \<Rightarrow>
          (case circ_drop_read rd wr k g c1 of
             None \<Rightarrow> (Inl CUnavailable, c1)
           | Some c2 \<Rightarrow> (Inr (segm_view c1 g), c2)))"

text \<open>A view beside passive ends: as much as the demand's exclusive bound, and nothing is consumed.\<close>

lemma byte_view_lends:
  assumes "circ_ok c" "producer_passive (cprod c)" "consumer_passive (ccons c)"
    "0 < circ_data c" "unat (min_of d) \<le> circ_data c"
  obtains slices c2 where "circ_byte_view rd wr (Suc (Suc k)) d c = (Inr slices, c2)"
    "concat slices = map the (take (min (unat (max_of d)) (circ_data c)) (circ_queue c))"
    "circ_ok c2" "producer_passive (cprod c2)" "consumer_passive (ccons c2)"
    "circ_data c2 = circ_data c" "circ_queue c2 = circ_queue c"
proof -
  define tk where "tk = min (max_of d) (circ_data_size c)"
  define g where "g = create_read_segm c (pos_rp (circ_pos c)) tk"
  have utk: "unat tk = min (unat (max_of d)) (circ_data c)"
    by (simp add: tk_def unat_min circ_data_def)
  have at: "circ_try_read_at c d = Inr (pos_rp (circ_pos c), tk)"
    using assms(4,5)
    by (auto simp: circ_try_read_at_def Let_def tk_def circ_data_def circ_data_size_def word_less_nat_alt)
  have le: "unat tk \<le> length (cbuf c)"
    using utk circ_sizes(1) [OF assms(1)] by linarith
  note a = circ_segm_addrs(2,4) [OF assms(1) circ_sizes(2) [OF assms(1)] le, folded g_def]
  note gok = circ_segm_ok(3) [OF assms(1) circ_sizes(2) [OF assms(1)] le, folded g_def]
  have tr: "circ_try_read rd wr (Suc (Suc k)) d c = Some (Inr g, c)"
    by (simp add: circ_try_read_def at g_def)
  obtain ev where dr: "circ_drop_read rd wr (Suc (Suc k)) g c
      = Some (fire_producer ev (update_pos (circ_read_word (circ_capacity c) 0) c))"
    using advance_read_quiet [OF disjI1 [OF assms(2)], of rd wr k 0] a(2) by (auto simp: circ_drop_read_def)
  have q: "concat (segm_view c g) = map the (take (unat tk) (circ_queue c))"
    using segm_view_concat [OF gok a(2)] utk
    by (simp add: a(1) circ_queue_def take_mem_get take_ring_addrs)
  note cr = commit_read [OF assms(1), of 0, OF _ refl]
  show thesis
    using that [of "segm_view c g" "fire_producer ev (update_pos (circ_read_word (circ_capacity c) 0) c)"]
      tr dr q utk cr assms(2,3) by (simp add: circ_byte_view_def)
qed

lemma exact_demand_bounds:
  assumes "0 < n" "n < 2 ^ 28"
  obtains d where "demand_exactly (of_nat n :: usize) = Done d" "unat (min_of d) = n" "unat (max_of d) = n + 1"
proof -
  have u: "unat (of_nat m :: usize) = m" if "m \<le> n + 1" for m
  proof -
    have "m < 2 ^ LENGTH(64)"
      using that assms(2) by simp
    then show ?thesis
      by (simp add: unat_of_nat)
  qed
  have "unat (-1 :: usize) = 2 ^ 64 - 1"
    by (simp add: unsigned_minus_1_eq_mask mask_eq_exp_minus_1)
  then have "(of_nat n :: usize) \<noteq> 0" "(of_nat n :: usize) \<noteq> - 1"
    using u [of n] assms by auto
  moreover have "unat (of_nat n + 1 :: usize) = n + 1"
    using u [of "Suc n"] by (simp add: add.commute)
  ultimately show thesis
    using that [of "Range (of_nat n) (of_nat n + 1)"] u [of n]
    by (simp add: demand_exactly_def min_of_def max_of_def)
qed

lemma exact_over_circ:
  assumes "io_view io = circ_byte_view rd wr (Suc (Suc k))" "circ_ok c" "producer_passive (cprod c)"
    "consumer_passive (ccons c)" "0 < n" "n \<le> circ_data c"
  shows "n < circ_data c \<Longrightarrow> panics (read_exact_into io n c)"
    and "n = circ_data c \<Longrightarrow> \<exists>c2. read_exact_into io n c = Done (Inr (map the (circ_queue c)), c2)
       \<and> circ_ok c2 \<and> producer_passive (cprod c2) \<and> consumer_passive (ccons c2)
       \<and> circ_data c2 = circ_data c \<and> circ_queue c2 = circ_queue c"
proof -
  have "circ_data c \<le> length (cbuf c)" "length (cbuf c) < 2 ^ 28"
    using circ_sizes(1) [OF assms(2)] assms(2) by (simp_all add: circ_ok_def)
  then have "n < 2 ^ 28"
    using assms(6) by linarith
  then obtain d where d: "demand_exactly (of_nat n :: usize) = Done d" "unat (min_of d) = n"
    "unat (max_of d) = n + 1"
    by (rule exact_demand_bounds [OF assms(5)])
  have "0 < circ_data c" "unat (min_of d) \<le> circ_data c"
    using assms(5,6) d(2) by linarith+
  from byte_view_lends [OF assms(2-4) this, of rd wr k]
  obtain slices c2 where v: "io_view io d c = (Inr slices, c2)"
    "concat slices = map the (take (min (n + 1) (circ_data c)) (circ_queue c))"
    "circ_ok c2" "producer_passive (cprod c2)" "consumer_passive (ccons c2)"
    "circ_data c2 = circ_data c" "circ_queue c2 = circ_queue c"
    unfolding assms(1) d(3) by metis
  have len: "length (concat slices) = min (n + 1) (circ_data c)"
    by (simp only: v(2) length_map length_take circ_queue_length)
  show "n < circ_data c \<Longrightarrow> panics (read_exact_into io n c)"
    using v(1) len d(1) assms(5) by (simp add: read_exact_into_def)
  show "n = circ_data c \<Longrightarrow> \<exists>c2. read_exact_into io n c = Done (Inr (map the (circ_queue c)), c2)
       \<and> circ_ok c2 \<and> producer_passive (cprod c2) \<and> consumer_passive (ccons c2)
       \<and> circ_data c2 = circ_data c \<and> circ_queue c2 = circ_queue c"
    using v len d(1) assms(5) by (simp add: read_exact_into_def)
qed

section \<open>Property\<close>

lemma parse_nothing: "parse_frame crc16 crc32 [] max_size = Inl (NeedMore 4)"
  by (simp add: parse_frame_short)

lemma parse_magic:
  assumes "magic \<in> set magics" "5 \<le> max_size"
  shows "parse_frame crc16 crc32 magic max_size = Inl (NeedMore 5)"
proof -
  have "length magic = 4"
    using assms(1) by (auto simp: magics_def magic_defs)
  then show ?thesis
    using assms by (simp add: parse_frame_def parse_entries.simps)
qed

text \<open>
  C20: Over the circular buffer of this repository the handshake cannot read its first frame: as soon
  as the peer's magic has arrived, reading the frame panics. A segment lent for \<open>exactly(n)\<close> bytes
  is one byte longer whenever more is buffered, which overruns the target slice, and the bytes of a
  segment that is only looked at stay in the buffer, so there always is more.
\<close>

theorem frame_over_circ_panics:
  assumes "io_view io = circ_byte_view rd wr (Suc (Suc k))" "circ_ok c" "producer_passive (cprod c)"
    "consumer_passive (ccons c)" "take 4 (circ_queue c) = map Some magic" "magic \<in> set magics"
    "5 \<le> max_size"
  shows "panics (read_frame io max_size [] c)"
proof -
  have "length magic = 4"
    using assms(6) by (auto simp: magics_def magic_defs)
  then have n: "4 \<le> circ_data c"
    using arg_cong [OF assms(5), of length] by simp
  note x = exact_over_circ [OF assms(1-4)]
  have first: "read_frame io max_size [] c = (case read_exact_into io 4 c of
       Panic e \<Rightarrow> Panic e
     | Done (Inl e, r') \<Rightarrow> Done (Inl (map_read_err (io_read_tag io) e), r')
     | Done (Inr bs, r') \<Rightarrow> read_frame io max_size bs r')"
  proof -
    have "\<not> min max_size K_MAX_HANDSHAKE_FRAME < 4"
      using assms(7) by (simp add: K_MAX_HANDSHAKE_FRAME_def)
    then show ?thesis
      by (simp add: read_frame.simps [of io max_size "[]"] parse_nothing split: run.split sum.split)
  qed
  show ?thesis
  proof (cases "circ_data c = 4")
    case False
    then have "panics (read_exact_into io 4 c)"
      using x(1) [of 4] n by simp
    then show ?thesis
      by (cases "read_exact_into io 4 c") (simp_all add: first)
  next
    case True
    then have q: "map the (circ_queue c) = magic"
      using assms(5) by simp
    have "\<exists>c2. read_exact_into io 4 c = Done (Inr magic, c2) \<and> circ_ok c2
       \<and> producer_passive (cprod c2) \<and> consumer_passive (ccons c2)
       \<and> circ_data c2 = 4 \<and> circ_queue c2 = circ_queue c"
      using x(2) [OF _ _ True [symmetric]] by (simp only: True q)
    then obtain c2 where c2: "read_exact_into io 4 c = Done (Inr magic, c2)" "circ_ok c2"
      "producer_passive (cprod c2)" "consumer_passive (ccons c2)" "circ_data c2 = 4"
      by (elim exE conjE) (rule that)
    have "panics (read_exact_into io 1 c2)"
      using exact_over_circ(1) [OF assms(1) c2(2-4), of 1] c2(5) by simp
    then obtain e where "read_exact_into io 1 c2 = Panic e"
      by (cases "read_exact_into io 1 c2") simp_all
    moreover have "\<not> min max_size K_MAX_HANDSHAKE_FRAME < 5"
      using assms(7) by (simp add: K_MAX_HANDSHAKE_FRAME_def)
    ultimately show ?thesis
      using assms(6,7) \<open>length magic = 4\<close>
      by (simp add: first c2(1) read_frame.simps [of io max_size magic] parse_magic)
  qed
qed

text \<open>The receiving half as the handshake's reader, with the four bytes of an \<open>INVITE\<close> magic buffered.\<close>

definition idle_input :: "(u8, unit, unit) input_dev" where
  "idle_input i n = (None, i)"

definition idle_output :: "(u8, unit, unit) output_dev" where
  "idle_output p cs = (None, p)"

definition circ_io :: "(consumer_error, unit, (u8, unit, unit) circ, u8 list) hs_io" where
  "circ_io = \<lparr>io_crc16 = (\<lambda>bs. 0), io_crc32 = (\<lambda>bs. 0), io_read_tag = consumer_err_tag,
     io_write_tag = (\<lambda>_. WClosing),
     io_view = circ_byte_view idle_input idle_output 2,
     io_put = (\<lambda>d bs w. (Inr (length bs), w @ bs))\<rparr>"

definition demo_invited :: "(u8, unit, unit) circ" where
  "demo_invited = (core_new (BufProducer None None) (BufConsumer None None)
       (map Some (K_INVITE_MAGIC @ [0, 0, 0, 0])))\<lparr>cstat := push_bit 28 4\<rparr>"

lemma demo_invited_pos:
  "circ_pos demo_invited = \<lparr>pos_rv = False, pos_rp = 0, pos_wp = 4, pos_cap = 8\<rparr>"
  "length (cbuf demo_invited) = 8"
  by (simp_all add: demo_invited_def core_new_def circ_pos_def circ_capacity_def iopos_unpack_def
      has_flag_def REVERSION_def CIRC_POS_MASK_def K_INVITE_MAGIC_def)

theorem frame_over_circ_panics_witness:
  "panics (read_frame circ_io 64 [] demo_invited)"
proof (rule frame_over_circ_panics [where magic = K_INVITE_MAGIC])
  show "io_view circ_io = circ_byte_view idle_input idle_output (Suc (Suc 0))"
    by (simp add: circ_io_def numeral_2_eq_2)
  show "circ_ok demo_invited"
    by (simp add: circ_ok_def iopos_ok_def demo_invited_pos circ_cap_ok_def MIN_CAPACITY_def
        CIRC_MAX_CAPACITY_def CIRC_POS_MASK_def)
  have "circ_data demo_invited = 4"
    by (simp add: circ_data_def circ_data_size_def demo_invited_pos iopos_data_size_def)
  then show "take 4 (circ_queue demo_invited) = map Some K_INVITE_MAGIC"
    by (simp add: circ_queue_def demo_invited_pos mem_get_def ring_addrs_def upt_rec)
      (simp add: demo_invited_def core_new_def K_INVITE_MAGIC_def)
qed (simp_all add: demo_invited_def core_new_def)

end
