(* ===== verification/Hs_Half.thy ===== *)
theory Hs_Half
  imports Hs_Circ
begin

text \<open>
  The handshake (\<open>crates/smux_v1/src/handshake/agent.rs\<close>) over the reading halves there are: all that keep the
  contract of \<open>Io_Half\<close>, of which the halves of the rings, the circular buffers and the slices are instances.
\<close>

section \<open>Reading over any half\<close>

text \<open>
  What the handshake makes of a reading half of the buffer traits: it copies what is lent and drops the
  segment with nothing taken from it.
\<close>

definition half_view ::
    "('e, u8, 'r) src_half \<Rightarrow> usize demand \<Rightarrow> 'r \<Rightarrow> ('e, u8 list list) rust_result \<times> 'r" where
  "half_view S d r =
     (case sh_read S d r of
        (OfRight e, r1) \<Rightarrow> (Inl e, r1)
      | (OfLeft ps, r1) \<Rightarrow> (Inr ps, sh_take S 0 r1)
      | (OfBoth ps e, r1) \<Rightarrow> (Inr ps, sh_take S 0 r1))"

text \<open>A read that succeeds begins with the next byte of the stream, and leaves the stream as it is.\<close>

lemma half_reads:
  assumes "source_half S rok outs" "io_view io = half_view S" "rok r" "n \<in> {1, 4}"
  obtains (panics) m where "read_exact_into io n r = Panic m"
  | (fails) e r1 where "read_exact_into io n r = Done (Inl e, r1)"
  | (reads) bs r1 where "read_exact_into io n r = Done (Inr bs, r1)" "rok r1" "outs r1 = outs r" "length bs = n"
      "hd bs = hd (outs r)"
proof -
  define d where "d = (Range (of_nat n) (of_nat n + 1) :: usize demand)"
  have d: "demand_exactly (of_nat n :: usize) = Done d" "0 < upper d" "lower d \<le> upper d"
    using assms(4) by (auto simp: d_def demand_exactly_def)
  have n: "n \<noteq> 0"
    using assms(4) by auto
  obtain x r1 where rd: "sh_read S d r = (x, r1)"
    by fastforce
  show thesis
  proof (cases "pick_left x")
    case None
    then obtain e where "x = OfRight e"
      by (cases x) simp_all
    then have "read_exact_into io n r = Done (Inl e, r1)"
      using rd d(1) n by (simp add: read_exact_into_def assms(2) half_view_def)
    then show thesis
      by (rule fails)
  next
    case (Some ps)
    then have view: "io_view io d r = (Inr ps, sh_take S 0 r1)"
      using rd by (cases x) (simp_all add: assms(2) half_view_def)
    obtain rest where l: "concat ps \<noteq> []" "outs r = concat ps @ rest"
      using source_half.read_lends [OF assms(1,3) rd Some d(2,3)] by blast
    have kept: "rok (sh_take S 0 r1)" "outs (sh_take S 0 r1) = outs r"
      using source_half.take_moves [OF assms(1,3) rd Some, of 0] by simp_all
    show thesis
    proof (cases "n < length (concat ps)")
      case True
      then show thesis
        using view d(1) n by (intro panics) (simp add: read_exact_into_def)
    next
      case False
      let ?bs = "concat ps @ replicate (n - length (concat ps)) 0"
      have "read_exact_into io n r = Done (Inr ?bs, sh_take S 0 r1)"
        using False view d(1) n by (simp add: read_exact_into_def)
      then show thesis
        by (rule reads) (use False l kept in \<open>simp_all del: length_concat concat_eq_Nil_conv\<close>)
    qed
  qed
qed

lemma parse_magic_twice:
  assumes "magic \<in> set magics" "5 \<le> max_size"
  shows "parse_frame crc16 crc32 (magic @ [hd magic]) max_size = Inl UnsupportedOption"
proof -
  have m: "length magic = 4" "hd magic = 95"
    using assms(1) by (auto simp: magics_def magic_defs)
  have "parse_entries crc16 crc32 (magic @ [95]) max_size magic 4 es seen = Inl UnsupportedOption" for es seen
    using assms(2) m(1)
    by (subst parse_entries.simps) (simp add: nth_append Let_def K_BASIC_KEY_COUNT_def)
  then show ?thesis
    using assms m by (simp add: parse_frame_def)
qed

lemma parse_four:
  assumes "length bs = 4" "4 \<le> max_size"
  shows "parse_frame crc16 crc32 bs max_size = Inl (if bs \<in> set magics then NeedMore 5 else InvalidMagic)"
  using assms by (simp add: parse_frame_def parse_entries.simps)

text \<open>No frame is ever read: the byte behind the magic is the first byte of the magic again.\<close>

lemma frame_never_read:
  assumes "source_half S rok outs" "io_view io = half_view S" "rok r"
  shows "read_frame io max_size [] r \<noteq> Done (Inr f, r')"
proof (cases "min max_size K_MAX_HANDSHAKE_FRAME < 4")
  case True
  then show ?thesis
    by (simp add: read_frame.simps [of io max_size "[]"] parse_nothing)
next
  case False
  note half = half_reads [OF assms(1,2)]
  have m: "4 \<le> max_size"
    using False by simp
  have first: "read_frame io max_size [] r = (case read_exact_into io 4 r of
       Panic e \<Rightarrow> Panic e
     | Done (Inl e, r') \<Rightarrow> Done (Inl (map_read_err (io_read_tag io) e), r')
     | Done (Inr bs, r') \<Rightarrow> read_frame io max_size bs r')"
    using False by (simp add: read_frame.simps [of io max_size "[]"] parse_nothing split: run.split sum.split)
  show ?thesis
  proof (cases rule: half [OF assms(3), of 4])
    case (4 bs r1)
    show ?thesis
    proof (cases "bs \<in> set magics \<and> \<not> min max_size K_MAX_HANDSHAKE_FRAME < 5")
      case no: False
      then show ?thesis
        using 4(1,4) False by (auto simp: first read_frame.simps [of io max_size bs] parse_four [OF 4(4) m])
    next
      case True
      have next_read: "read_frame io max_size bs r1 = (case read_exact_into io 1 r1 of
           Panic e \<Rightarrow> Panic e
         | Done (Inl e, r') \<Rightarrow> Done (Inl (map_read_err (io_read_tag io) e), r')
         | Done (Inr b, r') \<Rightarrow> read_frame io max_size (bs @ b) r')"
        using True 4(4)
        by (simp add: read_frame.simps [of io max_size bs] parse_four [OF 4(4) m] split: run.split sum.split)
      show ?thesis
      proof (cases rule: half [OF 4(2), of 1])
        case read: (4 b r2)
        have "b = [hd bs]"
          using read(4,5) 4(3,5) by (cases b) simp_all
        moreover have "bs \<in> set magics" "5 \<le> max_size"
          using True by auto
        ultimately have "parse_frame (io_crc16 io) (io_crc32 io) (bs @ b) max_size = Inl UnsupportedOption"
          by (simp only: parse_magic_twice)
        then show ?thesis
          by (simp add: first 4(1) next_read read(1) [unfolded One_nat_def] read_frame.simps [of io max_size "bs @ b"])
      qed (simp_all add: first 4(1) next_read)
    qed
  qed (simp_all add: first)
qed

section \<open>Property\<close>

lemma recv_never:
  assumes "source_half S rok outs" "io_view io = half_view S" "rok (fst t)"
  shows "hs_then (hs_recv io max_size) f t \<noteq> Done (Inr a, t')"
proof (cases "read_frame io max_size [] (fst t)")
  case (Done x)
  then show ?thesis
    using frame_never_read [OF assms, of max_size]
    by (cases x; cases "fst x") (auto simp: hs_then_def hs_recv_def)
qed (simp add: hs_then_def hs_recv_def)

lemma send_then:
  "hs_then (hs_send io magic vs) f t = Done (Inr a, t') \<Longrightarrow> \<exists>t1. fst t1 = fst t \<and> f () t1 = Done (Inr a, t')"
  by (cases "write_frame io magic vs (snd t)")
    (auto simp: hs_then_def hs_send_def split: sum.splits)

text \<open>
  C19: No handshake ever succeeds: over any reading half that keeps the contract of the buffer traits, and any writing
  half, neither the initiator nor the listener comes to options, whatever the peer sends and the callers decide.
  Every read takes another look at the front of the stream, which nobody consumes, so that what is read behind the
  magic is its own first byte, which no option has as its header.
\<close>

theorem handshake_never_succeeds:
  assumes "source_half S rok outs" "io_view io = half_view S" "rok (fst s)"
  shows "initiate_handshake io invite max_size decide s \<noteq> Done (Inr opts, s')
    \<and> accept_handshake io local max_size decide s \<noteq> Done (Inr opts, s')"
proof
  note never = recv_never [OF assms(1,2)]
  show "accept_handshake io local max_size decide s \<noteq> Done (Inr opts, s')"
    unfolding accept_handshake_def by (rule never [OF assms(3)])
  show "initiate_handshake io invite max_size decide s \<noteq> Done (Inr opts, s')"
  proof
    assume "initiate_handshake io invite max_size decide s = Done (Inr opts, s')"
    then show False
      using assms(3)
      by (auto simp: initiate_handshake_def hs_fail_def never split: sum.splits dest!: send_then)
  qed
qed

text \<open>A stream that begins with the magic of an invitation.\<close>

theorem handshake_never_succeeds_witness:
  "\<forall>opts s'. accept_handshake \<lparr>io_crc16 = (\<lambda>bs. 0), io_crc32 = (\<lambda>bs. 0), io_read_tag = (\<lambda>t. t),
       io_write_tag = (\<lambda>t. t), io_view = half_view bytes_src, io_put = (\<lambda>d bs w. (Inr (length bs), w @ bs))\<rparr>
     opts_default 64 (\<lambda>_. True) (K_INVITE_MAGIC @ [0, 1], []) \<noteq> Done (Inr opts, s')"
  by (intro allI, rule conjunct2 [OF handshake_never_succeeds [OF bytes_halves(1)]]) simp_all

end
