(* ===== verification/Spin_Mutex.thy ===== *)
theory Spin_Mutex
  imports Atomic_Flags
begin

text \<open>
  The spinning mutex of \<open>atomic_sync\<close> (\<open>crates/atomic_sync/src/mutex/preemptive.rs\<close>): the signals that
  mark a state word as acquired, one round of the acquiring loop, the release of a guard, and any
  number of threads that interleave them around a protected value. The client facts are proved once
  from the contract of a signal; the two signals of the source and the flag of the small lock in
  \<open>crates/cancel_src/src/spin_mutex.rs\<close> are its instances.
\<close>

section \<open>Signals\<close>

text \<open>\<open>MsbAsMutexSignal\<close>: the most significant bit.\<close>

definition K_MSB_FLAG :: usize where
  "K_MSB_FLAG = push_bit 63 1"

definition msb_is_acquired :: "usize \<Rightarrow> bool" where
  "msb_is_acquired v = (v AND K_MSB_FLAG = K_MSB_FLAG)"

definition msb_make_acquired :: "usize \<Rightarrow> usize" where
  "msb_make_acquired v = v OR K_MSB_FLAG"

definition msb_make_released :: "usize \<Rightarrow> usize" where
  "msb_make_released v = v AND NOT K_MSB_FLAG"

text \<open>\<open>PtrAsMutexSignal\<close>: the parity of an address.\<close>

definition ptr_is_acquired :: "usize \<Rightarrow> bool" where
  "ptr_is_acquired v = (v mod 2 = 1)"

definition ptr_make_acquired :: "usize \<Rightarrow> usize" where
  "ptr_make_acquired v = v + 1"

definition ptr_make_released :: "usize \<Rightarrow> usize" where
  "ptr_make_released v = v - 1"

text \<open>The \<open>AtomicBool\<close> of the lock in \<open>cancel_src\<close>.\<close>

definition flag_is_acquired :: "bool \<Rightarrow> bool" where
  "flag_is_acquired v = v"

definition flag_make_acquired :: "bool \<Rightarrow> bool" where
  "flag_make_acquired v = True"

definition flag_make_released :: "bool \<Rightarrow> bool" where
  "flag_make_released v = False"

section \<open>One round and the release\<close>

datatype 'v lock_round = Cancelled | Taken | Again 'v

text \<open>
  \<open>try_spin_acquire_\<close>: the token is polled first; an unexpected value is reloaded, a lost race takes
  over the value that won.
\<close>

definition acquire_round ::
    "('v \<Rightarrow> bool) \<Rightarrow> ('v \<Rightarrow> 'v) \<Rightarrow> bool \<Rightarrow> bool \<Rightarrow> 'v \<Rightarrow> 'v \<Rightarrow> 'v lock_round \<times> 'v" where
  "acquire_round acq mk cancelled spurious cell current =
     (if cancelled then (Cancelled, cell)
      else
        (case try_once_compare_exchange_weak spurious cell current (\<lambda>v. \<not> acq v) mk of
           (Unexpected _, cell') \<Rightarrow> (Again cell', cell')
         | (Succ _, cell') \<Rightarrow> (Taken, cell')
         | (Fail x, cell') \<Rightarrow> (Again x, cell')))"

text \<open>\<open>try_lock\<close>: one attempt on the value just read.\<close>

definition mutex_try_lock ::
    "('v \<Rightarrow> bool) \<Rightarrow> ('v \<Rightarrow> 'v) \<Rightarrow> bool \<Rightarrow> 'v \<Rightarrow> 'v \<Rightarrow> bool \<times> 'v" where
  "mutex_try_lock acq mk spurious cell current =
     (case try_once_compare_exchange_weak spurious cell current (\<lambda>v. \<not> acq v) mk of
        (r, cell') \<Rightarrow> (cx_is_succ r, cell'))"

text \<open>The guard's drop.\<close>

definition mutex_release :: "('v \<Rightarrow> bool) \<Rightarrow> ('v \<Rightarrow> 'v) \<Rightarrow> 'v \<Rightarrow> bool \<times> 'v" where
  "mutex_release acq rel cell =
     (case atomic_update acq rel cell of (Inl _, c) \<Rightarrow> (False, c) | (Inr _, c) \<Rightarrow> (True, c))"

section \<open>Threads\<close>

text \<open>
  A thread is outside, about to make its one attempt, in the loop, or holds the guard; inside it
  reads the value through the guard and later writes back what it made of it.
\<close>

datatype ('v, 't) mutex_pc = MIdle | MTry 'v | MSpin 'v | MHold | MLoaded 't

record ('v, 't) mutex_sys =
  mx_state :: 'v
  mx_value :: 't
  mx_pc :: "nat \<Rightarrow> ('v, 't) mutex_pc"
  mx_log :: "('t \<Rightarrow> 't) list"

definition mx_goto :: "nat \<Rightarrow> ('v, 't) mutex_pc \<Rightarrow> ('v, 't) mutex_sys \<Rightarrow> ('v, 't) mutex_sys" where
  "mx_goto t pc s = s\<lparr>mx_pc := (mx_pc s)(t := pc)\<rparr>"

inductive mutex_step ::
    "('v \<Rightarrow> bool) \<Rightarrow> ('v \<Rightarrow> 'v) \<Rightarrow> ('v \<Rightarrow> 'v) \<Rightarrow> ('v, 't) mutex_sys \<Rightarrow> ('v, 't) mutex_sys \<Rightarrow> bool"
  for acq mk rel where
  try_start: "mx_pc s t = MIdle \<Longrightarrow> mutex_step acq mk rel s (mx_goto t (MTry (mx_state s)) s)"
| lock_start: "mx_pc s t = MIdle \<Longrightarrow> mutex_step acq mk rel s (mx_goto t (MSpin (mx_state s)) s)"
| try_end: "mx_pc s t = MTry cur \<Longrightarrow> mutex_try_lock acq mk sp (mx_state s) cur = (ok, v) \<Longrightarrow>
     mutex_step acq mk rel s (mx_goto t (if ok then MHold else MIdle) (s\<lparr>mx_state := v\<rparr>))"
| lock_round: "mx_pc s t = MSpin cur \<Longrightarrow> acquire_round acq mk cancelled sp (mx_state s) cur = (r, v) \<Longrightarrow>
     mutex_step acq mk rel s
       (mx_goto t (case r of Cancelled \<Rightarrow> MIdle | Taken \<Rightarrow> MHold | Again x \<Rightarrow> MSpin x) (s\<lparr>mx_state := v\<rparr>))"
| load: "mx_pc s t = MHold \<Longrightarrow> mutex_step acq mk rel s (mx_goto t (MLoaded (mx_value s)) s)"
| store: "mx_pc s t = MLoaded x \<Longrightarrow>
     mutex_step acq mk rel s (mx_goto t MHold (s\<lparr>mx_value := f x, mx_log := mx_log s @ [f]\<rparr>))"
| release: "mx_pc s t = MHold \<Longrightarrow> mutex_release acq rel (mx_state s) = (ok, v) \<Longrightarrow>
     mutex_step acq mk rel s (mx_goto t MIdle (s\<lparr>mx_state := v\<rparr>))"

inductive mutex_reachable ::
    "('v \<Rightarrow> bool) \<Rightarrow> ('v \<Rightarrow> 'v) \<Rightarrow> ('v \<Rightarrow> 'v) \<Rightarrow> 'v \<Rightarrow> 't \<Rightarrow> ('v, 't) mutex_sys \<Rightarrow> bool"
  for acq mk rel v0 x0 where
  init: "mutex_reachable acq mk rel v0 x0 \<lparr>mx_state = v0, mx_value = x0, mx_pc = (\<lambda>_. MIdle), mx_log = []\<rparr>"
| step: "mutex_reachable acq mk rel v0 x0 s \<Longrightarrow> mutex_step acq mk rel s s' \<Longrightarrow>
     mutex_reachable acq mk rel v0 x0 s'"

fun mx_holds :: "('v, 't) mutex_pc \<Rightarrow> bool" where
  "mx_holds MHold = True"
| "mx_holds (MLoaded x) = True"
| "mx_holds _ = False"

lemma goto_simps [simp]:
  "mx_state (mx_goto t pc s) = mx_state s" "mx_value (mx_goto t pc s) = mx_value s"
  "mx_log (mx_goto t pc s) = mx_log s" "mx_pc (mx_goto t pc s) = (mx_pc s)(t := pc)"
  by (simp_all add: mx_goto_def)

section \<open>The contract of a signal\<close>

locale mutex_signal =
  fixes acq :: "'v \<Rightarrow> bool" and mk rel :: "'v \<Rightarrow> 'v"
  assumes acquired: "\<not> acq v \<Longrightarrow> acq (mk v)"
    and released: "\<not> acq v \<Longrightarrow> rel (mk v) = v"
begin

definition minv :: "'v \<Rightarrow> 't \<Rightarrow> ('v, 't) mutex_sys \<Rightarrow> bool" where
  "minv v0 x0 s =
     ((if \<exists>t. mx_holds (mx_pc s t) then mx_state s = mk v0 else mx_state s = v0)
      \<and> (\<forall>t u. mx_holds (mx_pc s t) \<longrightarrow> mx_holds (mx_pc s u) \<longrightarrow> t = u)
      \<and> (\<forall>t x. mx_pc s t = MLoaded x \<longrightarrow> x = mx_value s)
      \<and> mx_value s = fold (\<lambda>f. f) (mx_log s) x0)"

lemma minv_free: "minv v0 x0 s \<Longrightarrow> \<not> acq v0 \<Longrightarrow> acq (mx_state s) = (\<exists>t. mx_holds (mx_pc s t))"
  by (auto simp: minv_def acquired split: if_splits)

text \<open>A thread that does not hold the guard moves on without taking it.\<close>

lemma minv_outside:
  assumes "minv v0 x0 s" "\<not> mx_holds (mx_pc s t)" "\<not> mx_holds pc"
  shows "minv v0 x0 (mx_goto t pc s)"
proof -
  have "mx_holds (((mx_pc s)(t := pc)) u) = mx_holds (mx_pc s u)" for u
    using assms(2,3) by simp
  then show ?thesis
    using assms(1,3) by (auto simp: minv_def split: if_splits)
qed

lemma minv_take:
  assumes "minv v0 x0 s" "\<not> acq v0" "\<not> acq (mx_state s)"
  shows "minv v0 x0 (mx_goto t MHold (s\<lparr>mx_state := mk (mx_state s)\<rparr>))"
proof -
  have "\<nexists>t. mx_holds (mx_pc s t)"
    using minv_free [OF assms(1,2)] assms(3) by simp
  then show ?thesis
    using assms(1) by (auto simp: minv_def)
qed

lemma attempt_cases:
  obtains (taken) "try_once_compare_exchange_weak sp cell cur (\<lambda>v. \<not> acq v) mk = (Succ cell, mk cell)"
      "\<not> acq cell"
  | (lost) x where "try_once_compare_exchange_weak sp cell cur (\<lambda>v. \<not> acq v) mk = (Fail x, cell)"
  | (stale) x where "try_once_compare_exchange_weak sp cell cur (\<lambda>v. \<not> acq v) mk = (Unexpected x, cell)"
proof (cases "acq cur")
  case True
  then show thesis
    by (intro stale [of cur]) (simp add: try_once_compare_exchange_weak_def)
next
  case False
  show thesis
  proof (cases "cell = cur \<and> \<not> sp")
    case True
    then show thesis
      using False by (intro taken) (simp_all add: try_once_compare_exchange_weak_def compare_exchange_weak_def)
  next
    case other: False
    then show thesis
      using False by (intro lost [of cell]) (auto simp: try_once_compare_exchange_weak_def compare_exchange_weak_def)
  qed
qed

text \<open>The holder moves on inside.\<close>

lemma minv_held: "minv v0 x0 s \<Longrightarrow> mx_holds (mx_pc s t) \<Longrightarrow> mx_state s = mk v0"
  unfolding minv_def by meson

lemma minv_inside:
  assumes "minv v0 x0 s" "mx_holds (mx_pc s t)" "mx_holds pc" "\<And>x. pc = MLoaded x \<Longrightarrow> x = y"
    "y = fold (\<lambda>f. f) l x0"
  shows "minv v0 x0 (mx_goto t pc (s\<lparr>mx_value := y, mx_log := l\<rparr>))"
proof -
  have st: "mx_state s = mk v0"
    by (rule minv_held [OF assms(1,2)])
  have u: "w = t" if "mx_holds (mx_pc s w)" for w
    using assms(1,2) that by (simp add: minv_def)
  have l: "mx_pc s w = MLoaded x \<Longrightarrow> w = t" for w x
    using u [of w] by simp
  show ?thesis
    using assms(3-5) st by (auto simp: minv_def dest: l u)
qed

lemma same_state: "mx_state s = v \<Longrightarrow> s\<lparr>mx_state := v\<rparr> = s"
  by (cases s) simp

lemma minv_step:
  assumes "mutex_step acq mk rel s s'" "minv v0 x0 s" "\<not> acq v0"
  shows "minv v0 x0 s'"
  using assms(1)
proof cases
  case (try_end t cur sp ok v)
  show ?thesis
    by (cases rule: attempt_cases [of sp "mx_state s" cur])
      (use try_end assms(2,3) in \<open>auto simp: mutex_try_lock_def same_state
        intro!: minv_outside minv_take\<close>)
next
  case (lock_round t cur cancelled sp r v)
  show ?thesis
  proof (cases cancelled)
    case True
    then show ?thesis
      using lock_round assms(2) by (auto simp: acquire_round_def same_state intro!: minv_outside)
  next
    case False
    show ?thesis
      by (cases rule: attempt_cases [of sp "mx_state s" cur])
        (use lock_round False assms(2,3) in \<open>auto simp: acquire_round_def same_state
          intro!: minv_outside minv_take\<close>)
  qed
next
  case (load t)
  have s: "s\<lparr>mx_value := mx_value s, mx_log := mx_log s\<rparr> = s"
    by (cases s) simp
  have "mx_value s = fold (\<lambda>f. f) (mx_log s) x0"
    using assms(2) by (simp add: minv_def)
  from minv_inside [OF assms(2) _ _ _ this, of t "MLoaded (mx_value s)"]
  show ?thesis
    unfolding s using load by simp
next
  case (store t x f)
  then have "x = fold (\<lambda>f. f) (mx_log s) x0"
    using assms(2) by (auto simp: minv_def)
  then show ?thesis
    using minv_inside [OF assms(2), of t MHold "f x" "mx_log s @ [f]"] store by simp
next
  case (release t ok v)
  have h: "mx_holds (mx_pc s t)"
    using release by simp
  have st: "mx_state s = mk v0"
    by (rule minv_held [OF assms(2) h])
  have u: "w = t" if "mx_holds (mx_pc s w)" for w
    using assms(2) h that by (simp add: minv_def)
  from st have "v = v0"
    using release assms(3) by (auto simp: mutex_release_def atomic_update_def acquired released)
  then show ?thesis
    using release assms(2) u by (auto simp: minv_def)
qed (use assms(2) in \<open>auto intro!: minv_outside\<close>)

lemma reachable_minv: "mutex_reachable acq mk rel v0 x0 s \<Longrightarrow> \<not> acq v0 \<Longrightarrow> minv v0 x0 s"
proof (induction rule: mutex_reachable.induct)
  case init
  show ?case
    by (simp add: minv_def)
next
  case (step s s')
  show ?case
    by (rule minv_step [OF step(2) step.IH [OF step.prems] step.prems])
qed

lemma exclusion:
  assumes "mutex_reachable acq mk rel v0 x0 s" "\<not> acq v0"
  shows "(mx_holds (mx_pc s t) \<longrightarrow> mx_holds (mx_pc s u) \<longrightarrow> t = u)
     \<and> acq (mx_state s) = (\<exists>t. mx_holds (mx_pc s t))
     \<and> mx_state s = (if \<exists>t. mx_holds (mx_pc s t) then mk v0 else v0)
     \<and> mx_value s = fold (\<lambda>f. f) (mx_log s) x0"
  using reachable_minv [OF assms] minv_free [OF reachable_minv [OF assms] assms(2)]
  by (simp add: minv_def split: if_splits)

lemma two_rounds:
  assumes "mutex_reachable acq mk rel v0 x0 s" "\<not> acq v0" "\<nexists>t. mx_holds (mx_pc s t)"
  shows "acquire_round acq mk False False (mx_state s) cur = (Taken, mk (mx_state s))
     \<or> acquire_round acq mk False False (mx_state s) cur = (Again (mx_state s), mx_state s)
       \<and> acquire_round acq mk False False (mx_state s) (mx_state s) = (Taken, mk (mx_state s))"
proof -
  have "acq (mx_state s) = (\<exists>t. mx_holds (mx_pc s t))"
    by (rule minv_free [OF reachable_minv [OF assms(1,2)] assms(2)])
  then have "\<not> acq (mx_state s)"
    using assms(3) by blast
  then show ?thesis
    by (cases "acq cur"; cases "mx_state s = cur")
      (simp_all add: acquire_round_def try_once_compare_exchange_weak_def compare_exchange_weak_def)
qed

end

section \<open>The signals of the source\<close>

lemma bit_msb_flag: "bit K_MSB_FLAG n = (n = 63)"
  by (auto simp: K_MSB_FLAG_def bit_simps simp del: push_bit_of_1)

lemma msb_acquired_bit: "msb_is_acquired v = bit v 63"
proof -
  have "(v AND K_MSB_FLAG = K_MSB_FLAG) = bit v 63"
  proof
    assume "v AND K_MSB_FLAG = K_MSB_FLAG"
    then have "bit (v AND K_MSB_FLAG) 63 = bit K_MSB_FLAG 63"
      by simp
    then show "bit v 63"
      by (simp add: bit_and_iff bit_msb_flag)
  next
    assume "bit v 63"
    then show "v AND K_MSB_FLAG = K_MSB_FLAG"
      by (intro bit_word_eqI) (auto simp: bit_and_iff bit_msb_flag)
  qed
  then show ?thesis
    by (simp add: msb_is_acquired_def)
qed

interpretation msb: mutex_signal msb_is_acquired msb_make_acquired msb_make_released
proof unfold_locales
  fix v :: usize
  assume v: "\<not> msb_is_acquired v"
  then show "msb_is_acquired (msb_make_acquired v)"
    by (simp add: msb_acquired_bit msb_make_acquired_def bit_or_iff bit_msb_flag)
  show "msb_make_released (msb_make_acquired v) = v"
    using v unfolding msb_make_released_def msb_make_acquired_def msb_acquired_bit
    by (intro bit_word_eqI) (auto simp: bit_and_iff bit_or_iff bit_not_iff bit_msb_flag)
qed

interpretation ptr: mutex_signal ptr_is_acquired ptr_make_acquired ptr_make_released
proof unfold_locales
  fix v :: usize
  assume "\<not> ptr_is_acquired v"
  then have "v AND 1 \<noteq> 1"
    by (simp add: ptr_is_acquired_def and_one_eq)
  then have "even v"
    by (simp add: and_one_eq even_iff_mod_2_eq_zero split: if_splits)
  then show "ptr_is_acquired (ptr_make_acquired v)"
    by (simp add: ptr_is_acquired_def ptr_make_acquired_def odd_iff_mod_2_eq_one [symmetric])
  show "ptr_make_released (ptr_make_acquired v) = v"
    by (simp add: ptr_make_released_def ptr_make_acquired_def)
qed

interpretation flag: mutex_signal flag_is_acquired flag_make_acquired flag_make_released
  by unfold_locales (simp_all add: flag_is_acquired_def flag_make_acquired_def flag_make_released_def)

section \<open>Properties\<close>

text \<open>The signals a word carries.\<close>

definition word_signals :: "((usize \<Rightarrow> bool) \<times> (usize \<Rightarrow> usize) \<times> (usize \<Rightarrow> usize)) set" where
  "word_signals =
     {(msb_is_acquired, msb_make_acquired, msb_make_released), (ptr_is_acquired, ptr_make_acquired, ptr_make_released)}"

text \<open>
  C23: The spinning mutex excludes, with either of its signals: under every interleaving of threads
  that try, spin, are cancelled, fail spuriously, hold and release, at most one thread holds the guard,
  the word reads as acquired exactly while one does and is the idle word, with nothing else changed,
  whenever none does; and no update made through a guard is lost although it is a read followed later
  by a write: the value is the initial one with all updates applied in the order of the writes.
\<close>

theorem mutex_exclusion:
  assumes "(acq, mk, rel) \<in> word_signals" "mutex_reachable acq mk rel v0 x0 s" "\<not> acq v0"
  shows "(mx_holds (mx_pc s t) \<longrightarrow> mx_holds (mx_pc s u) \<longrightarrow> t = u)
     \<and> acq (mx_state s) = (\<exists>t. mx_holds (mx_pc s t))
     \<and> mx_state s = (if \<exists>t. mx_holds (mx_pc s t) then mk v0 else v0)
     \<and> mx_value s = fold (\<lambda>f. f) (mx_log s) x0"
proof -
  have "mutex_signal acq mk rel"
    using assms(1) msb.mutex_signal_axioms ptr.mutex_signal_axioms by (auto simp: word_signals_def)
  then show ?thesis
    using assms(2,3) by (rule mutex_signal.exclusion)
qed

theorem mutex_exclusion_witness:
  "\<exists>s. mutex_reachable msb_is_acquired msb_make_acquired msb_make_released 0 (10 :: nat) s
     \<and> mx_holds (mx_pc s 3) \<and> \<not> mx_holds (mx_pc s 4) \<and> msb_is_acquired (mx_state s)"
proof -
  let ?step = "mutex_step msb_is_acquired msb_make_acquired msb_make_released"
  let ?s0 = "\<lparr>mx_state = 0, mx_value = (10 :: nat), mx_pc = (\<lambda>_. MIdle), mx_log = []\<rparr> :: (usize, nat) mutex_sys"
  let ?s1 = "mx_goto 3 (MSpin 0) ?s0"
  let ?s2 = "mx_goto 3 MHold (?s1\<lparr>mx_state := K_MSB_FLAG\<rparr>)"
  have "?step ?s0 ?s1"
    using mutex_step.lock_start [of ?s0 3] by simp
  moreover have "acquire_round msb_is_acquired msb_make_acquired False False (mx_state ?s1) 0 = (Taken, K_MSB_FLAG)"
    by (simp add: acquire_round_def try_once_compare_exchange_weak_def compare_exchange_weak_def
        msb_acquired_bit msb_make_acquired_def)
  then have "?step ?s1 ?s2"
    using mutex_step.lock_round [of ?s1 3 0 msb_is_acquired msb_make_acquired False False Taken K_MSB_FLAG] by simp
  ultimately have r: "mutex_reachable msb_is_acquired msb_make_acquired msb_make_released 0 (10 :: nat) ?s2"
    by (intro mutex_reachable.step [OF mutex_reachable.step [OF mutex_reachable.init]])
  have "msb_is_acquired (mx_state ?s2)"
    using mutex_exclusion [OF _ r, of 3 4] by (simp add: msb_acquired_bit word_signals_def)
  then show ?thesis
    using r by (intro exI [of _ ?s2]) simp
qed

text \<open>
  The acquiring loop cannot livelock on a stale value: when nobody holds the guard, a spinning
  thread takes it in at most two undisturbed rounds whatever value it carries, because a value that
  looks acquired is reloaded and a lost race takes over the current one.
\<close>

theorem mutex_two_rounds:
  assumes "mutex_reachable msb_is_acquired msb_make_acquired msb_make_released v0 x0 s"
    "\<not> msb_is_acquired v0" "\<nexists>t. mx_holds (mx_pc s t)"
  shows "acquire_round msb_is_acquired msb_make_acquired False False (mx_state s) cur
       = (Taken, msb_make_acquired (mx_state s))
     \<or> acquire_round msb_is_acquired msb_make_acquired False False (mx_state s) cur
         = (Again (mx_state s), mx_state s)
       \<and> acquire_round msb_is_acquired msb_make_acquired False False (mx_state s) (mx_state s)
         = (Taken, msb_make_acquired (mx_state s))"
  by (rule msb.two_rounds [OF assms])

theorem mutex_two_rounds_witness:
  "acquire_round msb_is_acquired msb_make_acquired False False 0 K_MSB_FLAG = (Again 0, 0)
   \<and> acquire_round msb_is_acquired msb_make_acquired False False 0 0 = (Taken, K_MSB_FLAG)"
  using mutex_two_rounds [OF mutex_reachable.init, where ?v0.0 = 0 and cur = K_MSB_FLAG and ?x0.0 = "()"]
  by (simp add: msb_acquired_bit bit_msb_flag msb_make_acquired_def acquire_round_def
      try_once_compare_exchange_weak_def)

end
