(* ===== verification/Cancel_Src.thy ===== *)
theory Cancel_Src
  imports Cantare_Prelude "HOL-Library.Multiset"
begin

text \<open>
  Cancellation sources and their tokens (\<open>crates/cancel_src/src/lib.rs\<close>): the shared state behind a
  source, registration of callbacks, cancellation futures, child tokens, and \<open>cancel\<close>, which runs the
  callbacks outside the lock and so cancels the children, their children and so on. The sources live
  in a store, because a child token refers to its own source weakly; every critical section of the
  lock is one step of the functions here.
\<close>

section \<open>The shared state\<close>

text \<open>
  A callback is one of the user's, which only reports that it ran, or the one \<open>spawn_child_token\<close>
  registers. What a source does to the outside is a list of events: callbacks that ran and
  cancellation futures whose sender was dropped.
\<close>

datatype callback = UserCallback nat | CancelChild nat
datatype event = Ran nat | Resolved nat

record cancel_state =
  cs_cancelled :: bool
  cs_next_id :: "64 word"
  cs_callbacks :: "(64 word \<times> callback) list"
  cs_senders :: "nat list"

definition state_new :: cancel_state where
  "state_new = \<lparr>cs_cancelled = False, cs_next_id = 0, cs_callbacks = [], cs_senders = []\<rparr>"

record cancel_sys =
  cy_src :: "nat \<Rightarrow> cancel_state option"
  cy_log :: "event list"

definition src_is_cancelled :: "nat \<Rightarrow> cancel_sys \<Rightarrow> bool" where
  "src_is_cancelled n s = (case cy_src s n of None \<Rightarrow> False | Some st \<Rightarrow> cs_cancelled st)"

definition put_src :: "nat \<Rightarrow> cancel_state \<Rightarrow> cancel_sys \<Rightarrow> cancel_sys" where
  "put_src n st s = s\<lparr>cy_src := (cy_src s)(n \<mapsto> st)\<rparr>"

definition emit :: "event list \<Rightarrow> cancel_sys \<Rightarrow> cancel_sys" where
  "emit es s = s\<lparr>cy_log := cy_log s @ es\<rparr>"

lemma sys_simps [simp]:
  "cy_src (put_src n st s) = (cy_src s)(n \<mapsto> st)" "cy_log (put_src n st s) = cy_log s"
  "cy_src (emit es s) = cy_src s" "cy_log (emit es s) = cy_log s @ es"
  "src_is_cancelled m (emit es s) = src_is_cancelled m s"
  by (simp_all add: put_src_def emit_def src_is_cancelled_def)

section \<open>Cancelling\<close>

text \<open>
  The fuel bounds the nesting of cancellations; \<open>None\<close> is not enough of it. A weak reference to a
  source that is gone does nothing.
\<close>

function (sequential) src_cancel :: "nat \<Rightarrow> nat \<Rightarrow> cancel_sys \<Rightarrow> (bool \<times> cancel_sys) option"
  and run_callbacks :: "nat \<Rightarrow> (64 word \<times> callback) list \<Rightarrow> cancel_sys \<Rightarrow> cancel_sys option" where
  "src_cancel 0 n s = None"
| "src_cancel (Suc k) n s =
     (case cy_src s n of
        None \<Rightarrow> Some (False, s)
      | Some st \<Rightarrow>
          if cs_cancelled st then Some (False, s)
          else
            (let s1 = emit (map Resolved (cs_senders st))
                   (put_src n (st\<lparr>cs_cancelled := True, cs_senders := [], cs_callbacks := []\<rparr>) s)
             in map_option (\<lambda>s2. (True, s2)) (run_callbacks k (cs_callbacks st) s1)))"
| "run_callbacks k [] s = Some s"
| "run_callbacks k ((_, UserCallback u) # cbs) s = run_callbacks k cbs (emit [Ran u] s)"
| "run_callbacks k ((_, CancelChild m) # cbs) s =
     (if cy_src s m = None then run_callbacks k cbs s
      else
        (case src_cancel k m s of
           None \<Rightarrow> None
         | Some (_, s1) \<Rightarrow> run_callbacks k cbs s1))"
  by pat_completeness auto
termination
  by (relation "measures [\<lambda>x. case x of Inl (k, n, s) \<Rightarrow> k | Inr (k, cbs, s) \<Rightarrow> k,
        \<lambda>x. case x of Inl (k, n, s) \<Rightarrow> 0 | Inr (k, cbs, s) \<Rightarrow> Suc (length cbs)]")
    simp_all

section \<open>Registering\<close>

text \<open>
  A callback registered too late runs at once. The identifier counts up; its overflow is a panic of
  the checked build.
\<close>

definition src_register ::
    "nat \<Rightarrow> nat \<Rightarrow> callback \<Rightarrow> cancel_sys \<Rightarrow> (64 word option \<times> cancel_sys) option run" where
  "src_register k n cb s =
     (case cy_src s n of
        None \<Rightarrow> Done (Some (None, s))
      | Some st \<Rightarrow>
          if cs_cancelled st then Done (map_option (\<lambda>s1. (None, s1)) (run_callbacks k [(0, cb)] s))
          else if cs_next_id st = -1 then Panic ''attempt to add with overflow''
          else
            Done (Some (Some (cs_next_id st),
              put_src n (st\<lparr>cs_next_id := cs_next_id st + 1,
                 cs_callbacks := cs_callbacks st @ [(cs_next_id st, cb)]\<rparr>) s)))"

definition src_unregister :: "nat \<Rightarrow> 64 word \<Rightarrow> cancel_sys \<Rightarrow> cancel_sys" where
  "src_unregister n i s =
     (case cy_src s n of
        None \<Rightarrow> s
      | Some st \<Rightarrow> put_src n (st\<lparr>cs_callbacks := filter (\<lambda>x. fst x \<noteq> i) (cs_callbacks st)\<rparr>) s)"

text \<open>The registration handle unregisters when it is dropped, if there was anything to register.\<close>

definition drop_registration :: "nat \<Rightarrow> 64 word option \<Rightarrow> cancel_sys \<Rightarrow> cancel_sys" where
  "drop_registration n i s = (case i of None \<Rightarrow> s | Some j \<Rightarrow> src_unregister n j s)"

definition src_cancel_future :: "nat \<Rightarrow> nat \<Rightarrow> cancel_sys \<Rightarrow> cancel_sys" where
  "src_cancel_future n tx s =
     (case cy_src s n of
        None \<Rightarrow> s
      | Some st \<Rightarrow>
          if cs_cancelled st then emit [Resolved tx] s
          else put_src n (st\<lparr>cs_senders := cs_senders st @ [tx]\<rparr>) s)"

text \<open>\<open>spawn_child_token\<close>: the child's source is allocated at the address given.\<close>

definition spawn_child :: "nat \<Rightarrow> nat \<Rightarrow> nat \<Rightarrow> cancel_sys \<Rightarrow> cancel_sys option run" where
  "spawn_child k n m s =
     run_map (map_option snd) (src_register k n (CancelChild m) (put_src m state_new s))"

section \<open>What a cancellation reaches\<close>

definition src_live :: "nat \<Rightarrow> cancel_sys \<Rightarrow> bool" where
  "src_live n s = (cy_src s n \<noteq> None)"

text \<open>The pending child registrations, from a source that is not cancelled.\<close>

definition child_edges :: "cancel_sys \<Rightarrow> (nat \<times> nat) set" where
  "child_edges s =
     {(a, b). \<exists>st. cy_src s a = Some st \<and> \<not> cs_cancelled st \<and> src_live b s
        \<and> CancelChild b \<in> snd ` set (cs_callbacks st)}"

text \<open>What cancelling one source does to the outside.\<close>

fun callback_event :: "callback \<Rightarrow> event list" where
  "callback_event (UserCallback u) = [Ran u]"
| "callback_event (CancelChild m) = []"

definition src_events :: "cancel_sys \<Rightarrow> nat \<Rightarrow> event multiset" where
  "src_events s a =
     (case cy_src s a of
        None \<Rightarrow> {#}
      | Some st \<Rightarrow> mset (map Resolved (cs_senders st))
          + mset (concat (map (callback_event \<circ> snd) (cs_callbacks st))))"

definition newly :: "cancel_sys \<Rightarrow> cancel_sys \<Rightarrow> nat set" where
  "newly s s' = {a. src_is_cancelled a s' \<and> \<not> src_is_cancelled a s}"

text \<open>
  A run of cancellations: the sources it does not cancel are as before, the ones it cancels were
  live, and they pulled their children along.
\<close>

definition cancel_run :: "cancel_sys \<Rightarrow> cancel_sys \<Rightarrow> bool" where
  "cancel_run s s' =
     ((\<forall>a. src_is_cancelled a s \<longrightarrow> src_is_cancelled a s')
      \<and> (\<forall>a. src_live a s' = src_live a s)
      \<and> (\<forall>a. a \<notin> newly s s' \<longrightarrow> cy_src s' a = cy_src s a))"

definition pulled :: "cancel_sys \<Rightarrow> cancel_sys \<Rightarrow> nat set \<Rightarrow> bool" where
  "pulled s s' A = (\<forall>a\<in>A. \<forall>b. (a, b) \<in> child_edges s \<longrightarrow> src_is_cancelled b s')"

lemma cancel_run_refl [simp]: "cancel_run s s"
  by (simp add: cancel_run_def newly_def)

lemma newly_trans:
  assumes "cancel_run s t" "cancel_run t u"
  shows "newly s u = newly s t \<union> newly t u" "newly s t \<inter> newly t u = {}"
  using assms by (auto simp: newly_def cancel_run_def)

lemma cancel_run_trans: "cancel_run s t \<Longrightarrow> cancel_run t u \<Longrightarrow> cancel_run s u"
  using newly_trans [of s t u] by (auto simp: cancel_run_def)

lemma newly_src: "cancel_run s t \<Longrightarrow> a \<in> newly t u \<Longrightarrow> cy_src t a = cy_src s a"
  by (auto simp: cancel_run_def newly_def)

lemma edges_mono:
  assumes "cancel_run s t"
  shows "child_edges t \<subseteq> child_edges s"
proof
  fix e
  assume "e \<in> child_edges t"
  then obtain a b st where e: "e = (a, b)" "cy_src t a = Some st" "\<not> cs_cancelled st" "src_live b t"
    "CancelChild b \<in> snd ` set (cs_callbacks st)"
    by (auto simp: child_edges_def)
  then have "a \<notin> newly s t"
    by (simp add: newly_def src_is_cancelled_def)
  then have "cy_src s a = Some st"
    using assms e(2) by (simp add: cancel_run_def)
  moreover have "src_live b s"
    using assms e(4) by (simp add: cancel_run_def)
  ultimately show "e \<in> child_edges s"
    using e by (auto simp: child_edges_def)
qed

lemma edge_from_newly:
  assumes "cancel_run s t" "a \<in> newly t u" "(a, b) \<in> child_edges s"
  shows "(a, b) \<in> child_edges t"
  using assms newly_src [OF assms(1,2)]
  by (auto simp: child_edges_def cancel_run_def)


text \<open>What a run promises: \<open>R\<close> is where it started, \<open>E\<close> the events of its own.\<close>

definition cancel_ok :: "cancel_sys \<Rightarrow> cancel_sys \<Rightarrow> nat set \<Rightarrow> event multiset \<Rightarrow> bool" where
  "cancel_ok s s' R E =
     (cancel_run s s' \<and> pulled s s' (newly s s') \<and> finite (newly s s')
      \<and> newly s s' \<subseteq> (child_edges s)\<^sup>* `` R
      \<and> mset (cy_log s') = mset (cy_log s) + E + (\<Sum>a\<in>newly s s'. src_events s a))"

lemma cancel_ok_runD: "cancel_ok s s' R E \<Longrightarrow> cancel_run s s'"
  by (simp add: cancel_ok_def)

lemma newly_self [simp]: "newly s s = {}"
  by (simp add: newly_def)

lemma cancel_ok_refl: "cancel_ok s s R {#}"
  by (simp add: cancel_ok_def pulled_def)

lemma cancel_ok_emit: "cancel_ok s (emit es s) R (mset es)"
proof -
  have e: "newly s (emit es s) = {}"
    by (simp add: newly_def)
  moreover have "cancel_run s (emit es s)"
    using e by (simp add: cancel_run_def src_live_def)
  ultimately show ?thesis
    by (simp add: cancel_ok_def pulled_def)
qed

lemma run_events:
  assumes "cancel_run s t"
  shows "(\<Sum>a\<in>newly t u. src_events t a) = (\<Sum>a\<in>newly t u. src_events s a)"
  using newly_src [OF assms] by (intro sum.cong) (simp_all add: src_events_def)

lemma cancel_ok_trans:
  assumes st: "cancel_ok s t R E" and tu: "cancel_ok t u R' E'"
  shows "cancel_ok s u (R \<union> R') (E + E')"
proof -
  have r: "cancel_run s t" "cancel_run t u"
    using st tu by (simp_all add: cancel_ok_def)
  note nt = newly_trans [OF r]
  have p: "pulled s u (newly s u)"
    unfolding pulled_def
  proof (intro ballI allI impI)
    fix a b
    assume "a \<in> newly s u" and e: "(a, b) \<in> child_edges s"
    then consider "a \<in> newly s t" | "a \<in> newly t u"
      using nt(1) by blast
    then show "src_is_cancelled b u"
    proof cases
      case 1
      then have "src_is_cancelled b t"
        using st e by (simp add: cancel_ok_def pulled_def)
      then show ?thesis
        using r(2) by (simp add: cancel_run_def)
    next
      case 2
      then show ?thesis
        using tu edge_from_newly [OF r(1) 2 e] by (simp add: cancel_ok_def pulled_def)
    qed
  qed
  have reach: "newly s u \<subseteq> (child_edges s)\<^sup>* `` (R \<union> R')"
    using st tu rtrancl_mono [OF edges_mono [OF r(1)]]
    unfolding cancel_ok_def nt(1) by blast
  have f: "finite (newly s t)" "finite (newly t u)"
    using st tu by (simp_all add: cancel_ok_def)
  have "(\<Sum>a\<in>newly s u. src_events s a)
      = (\<Sum>a\<in>newly s t. src_events s a) + (\<Sum>a\<in>newly t u. src_events t a)"
    unfolding nt(1) run_events [OF r(1)] using f nt(2) by (rule sum.union_disjoint)
  then show ?thesis
    using st tu p reach f cancel_run_trans [OF r] by (simp add: cancel_ok_def nt(1))
qed

lemma cancel_ok_mono: "cancel_ok s t R E \<Longrightarrow> R \<subseteq> R' \<Longrightarrow> cancel_ok s t R' E"
  unfolding cancel_ok_def by blast

definition live_children :: "(64 word \<times> callback) list \<Rightarrow> cancel_sys \<Rightarrow> nat set" where
  "live_children cbs s = {m. CancelChild m \<in> snd ` set cbs \<and> src_live m s}"

definition own_events :: "(64 word \<times> callback) list \<Rightarrow> event multiset" where
  "own_events cbs = mset (concat (map (callback_event \<circ> snd) cbs))"

text \<open>Marking a source: its own events, and the callbacks still to run.\<close>

lemma cancel_ok_source:
  fixes st :: cancel_state and cbs :: "(64 word \<times> callback) list"
  defines "cbs \<equiv> cs_callbacks st"
  assumes src: "cy_src s n = Some st" "\<not> cs_cancelled st"
    and s1: "s1 = emit (map Resolved (cs_senders st))
        (put_src n (st\<lparr>cs_cancelled := True, cs_senders := [], cs_callbacks := []\<rparr>) s)"
    and ok: "cancel_ok s1 s2 (live_children cbs s1) (own_events cbs)"
    and all: "\<forall>m\<in>live_children cbs s1. src_is_cancelled m s2"
  shows "cancel_ok s s2 {n} {#}"
proof -
  have r1: "cancel_run s s1" and n1: "newly s s1 = {n}"
    using src by (auto simp: cancel_run_def newly_def src_is_cancelled_def src_live_def s1)
  have r2: "cancel_run s1 s2"
    using ok by (rule cancel_ok_runD)
  note nt = newly_trans [OF r1 r2]
  have lc: "(n, m) \<in> child_edges s \<longleftrightarrow> m \<in> live_children cbs s1" for m
    using src r1 by (auto simp: child_edges_def live_children_def cbs_def cancel_run_def)
  have p: "pulled s s2 (newly s s2)"
    unfolding pulled_def
  proof (intro ballI allI impI)
    fix a b
    assume "a \<in> newly s s2" and e: "(a, b) \<in> child_edges s"
    then consider "a = n" | "a \<in> newly s1 s2"
      using nt(1) n1 by blast
    then show "src_is_cancelled b s2"
    proof cases
      case 1
      then show ?thesis
        using all e lc by simp
    next
      case 2
      then show ?thesis
        using ok edge_from_newly [OF r1 2 e] by (simp add: cancel_ok_def pulled_def)
    qed
  qed
  have "newly s1 s2 \<subseteq> (child_edges s)\<^sup>* `` live_children cbs s1"
    using ok rtrancl_mono [OF edges_mono [OF r1]] unfolding cancel_ok_def by blast
  also have "\<dots> \<subseteq> (child_edges s)\<^sup>* `` {n}"
    using lc by (auto intro: converse_rtrancl_into_rtrancl)
  finally have reach: "newly s s2 \<subseteq> (child_edges s)\<^sup>* `` {n}"
    by (simp add: nt(1) n1)
  have f: "finite (newly s1 s2)" and log: "mset (cy_log s2) = mset (cy_log s1) + own_events cbs
      + (\<Sum>a\<in>newly s1 s2. src_events s1 a)"
    using ok by (simp_all add: cancel_ok_def)
  have "n \<notin> newly s1 s2"
    using nt(2) n1 by simp
  then have "(\<Sum>a\<in>newly s s2. src_events s a)
      = src_events s n + (\<Sum>a\<in>newly s1 s2. src_events s1 a)"
    using f by (simp add: nt(1) n1 run_events [OF r1])
  then have "mset (cy_log s2) = mset (cy_log s) + (\<Sum>a\<in>newly s s2. src_events s a)"
    using log src(1) by (simp add: s1 src_events_def own_events_def cbs_def)
  then show ?thesis
    using p reach f cancel_run_trans [OF r1 r2] by (simp add: cancel_ok_def nt(1) n1)
qed

lemma live_children_mono:
  "cancel_run s t \<Longrightarrow> live_children cbs t = live_children cbs s"
  by (simp add: live_children_def cancel_run_def)

lemma live_children_Cons [simp]:
  "live_children ((i, UserCallback u) # cbs) s = live_children cbs s"
  "live_children ((i, CancelChild m) # cbs) s
     = (if src_live m s then {m} else {}) \<union> live_children cbs s"
  "live_children [] s = {}"
  by (auto simp: live_children_def)

lemma own_events_Cons [simp]:
  "own_events ((i, UserCallback u) # cbs) = add_mset (Ran u) (own_events cbs)"
  "own_events ((i, CancelChild m) # cbs) = own_events cbs"
  "own_events [] = {#}"
  by (simp_all add: own_events_def)

lemma run_keeps_cancelled: "cancel_ok s t R E \<Longrightarrow> src_is_cancelled m s \<Longrightarrow> src_is_cancelled m t"
  by (simp add: cancel_ok_def cancel_run_def)

lemma cancel_spec:
  "src_cancel k n s = Some (b, s') \<Longrightarrow>
     cancel_ok s s' {n} {#} \<and> b = (src_live n s \<and> \<not> src_is_cancelled n s)
     \<and> (src_live n s \<longrightarrow> src_is_cancelled n s')"
  "run_callbacks k cbs s = Some s' \<Longrightarrow>
     cancel_ok s s' (live_children cbs s) (own_events cbs)
     \<and> (\<forall>m\<in>live_children cbs s. src_is_cancelled m s')"
proof (induction k n s and k cbs s arbitrary: b s' and s' rule: src_cancel_run_callbacks.induct)
  case (1 n s)
  then show ?case by simp
next
  case (2 k n s)
  show ?case
  proof (cases "cy_src s n")
    case None
    then show ?thesis
      using "2.prems" by (simp add: cancel_ok_refl src_live_def)
  next
    case (Some st)
    show ?thesis
    proof (cases "cs_cancelled st")
      case True
      then show ?thesis
        using "2.prems" Some by (simp add: cancel_ok_refl src_live_def src_is_cancelled_def)
    next
      case False
      define s1 where "s1 = emit (map Resolved (cs_senders st))
        (put_src n (st\<lparr>cs_cancelled := True, cs_senders := [], cs_callbacks := []\<rparr>) s)"
      have run: "run_callbacks k (cs_callbacks st) s1 = Some s'" and b: "b"
        using "2.prems" Some False by (auto simp: s1_def Let_def)
      note ih = "2.IH" [OF Some False s1_def run]
      have ok: "cancel_ok s s' {n} {#}"
        using ih by (intro cancel_ok_source [OF Some False s1_def]) simp_all
      have "src_is_cancelled n s1"
        by (simp add: s1_def src_is_cancelled_def)
      then have "src_is_cancelled n s'"
        using ih run_keeps_cancelled by blast
      then show ?thesis
        using ok b Some False by (simp add: src_live_def src_is_cancelled_def)
    qed
  qed
next
  case (3 k s)
  then show ?case by (simp add: cancel_ok_refl)
next
  case (4 k i u cbs s)
  then have ih: "cancel_ok (emit [Ran u] s) s' (live_children cbs s) (own_events cbs)"
    "\<forall>m\<in>live_children cbs s. src_is_cancelled m s'"
    by (simp_all add: live_children_def src_live_def)
  show ?case
    using cancel_ok_trans [OF cancel_ok_emit [of s "[Ran u]" "{}"] ih(1)] ih(2) by simp
next
  case (5 k i m cbs s)
  show ?case
  proof (cases "cy_src s m = None")
    case True
    then show ?thesis
      using 5 by (simp add: src_live_def)
  next
    case False
    then obtain b1 s1 where c: "src_cancel k m s = Some (b1, s1)" "run_callbacks k cbs s1 = Some s'"
      using "5.prems" by (auto split: option.splits)
    note i1 = "5.IH"(2) [OF False c(1)]
    note i2 = "5.IH"(3) [OF False c(1) refl c(2)]
    have lc: "live_children cbs s1 = live_children cbs s"
      using i1 live_children_mono cancel_ok_runD by blast
    have "cancel_ok s s' ({m} \<union> live_children cbs s) ({#} + own_events cbs)"
      using i1 i2 by (intro cancel_ok_trans [of s s1]) (simp_all add: lc)
    moreover have "src_is_cancelled m s'"
      using i1 i2 False run_keeps_cancelled by (auto simp: src_live_def)
    ultimately show ?thesis
      using i2 False by (simp add: lc src_live_def)
  qed
qed


section \<open>Fuel\<close>

definition uncancelled :: "cancel_sys \<Rightarrow> nat set" where
  "uncancelled s = {a. src_live a s \<and> \<not> src_is_cancelled a s}"

lemma uncancelled_mono: "cancel_run s t \<Longrightarrow> uncancelled t \<subseteq> uncancelled s"
  by (auto simp: uncancelled_def cancel_run_def)

lemma cancel_fuel:
  "finite (uncancelled s) \<Longrightarrow> card (uncancelled s) < k \<Longrightarrow> \<exists>r. src_cancel k n s = Some r"
  "finite (uncancelled s) \<Longrightarrow> card (uncancelled s) < k \<Longrightarrow> \<exists>r. run_callbacks k cbs s = Some r"
proof (induction k n s and k cbs s rule: src_cancel_run_callbacks.induct)
  case (1 n s)
  then show ?case by simp
next
  case (2 k n s)
  show ?case
  proof (cases "\<exists>st. cy_src s n = Some st \<and> \<not> cs_cancelled st")
    case False
    then show ?thesis
      by (auto split: option.splits)
  next
    case True
    then obtain st where st: "cy_src s n = Some st" "\<not> cs_cancelled st"
      by blast
    define s1 where "s1 = emit (map Resolved (cs_senders st))
      (put_src n (st\<lparr>cs_cancelled := True, cs_senders := [], cs_callbacks := []\<rparr>) s)"
    have u: "uncancelled s1 = uncancelled s - {n}" and n: "n \<in> uncancelled s"
      using st by (auto simp: uncancelled_def s1_def src_live_def src_is_cancelled_def)
    then have "card (uncancelled s1) < k"
      using 2 card_Diff_singleton [OF n] card_gt_0_iff [of "uncancelled s"] by fastforce
    then have "\<exists>r. run_callbacks k (cs_callbacks st) s1 = Some r"
      using "2.IH" [OF st s1_def] "2.prems" u by simp
    then show ?thesis
      using st by (auto simp: s1_def Let_def)
  qed
next
  case (3 k s)
  then show ?case by simp
next
  case (4 k i u cbs s)
  then show ?case
    by (simp add: uncancelled_def src_live_def)
next
  case (5 k i m cbs s)
  show ?case
  proof (cases "cy_src s m = None")
    case True
    then show ?thesis
      using 5 by simp
  next
    case False
    then obtain b s1 where c: "src_cancel k m s = Some (b, s1)"
      using 5 by fastforce
    then have sub: "uncancelled s1 \<subseteq> uncancelled s"
      using cancel_spec(1) cancel_ok_runD uncancelled_mono by blast
    have "finite (uncancelled s1)" "card (uncancelled s1) < k"
      using finite_subset [OF sub "5.prems"(1)] card_mono [OF "5.prems"(1) sub] "5.prems"(2)
      by simp_all
    then show ?thesis
      using "5.IH"(3) [OF False c refl] False c by auto
  qed
qed

section \<open>The tree of tokens\<close>

text \<open>What is reached is exactly what is cancelled.\<close>

lemma pulled_closure:
  assumes "cancel_ok s s' {n} E" "src_is_cancelled n s'" "(n, a) \<in> (child_edges s)\<^sup>*"
  shows "src_is_cancelled a s'"
  using assms(3)
proof (induction rule: rtrancl_induct)
  case base
  then show ?case using assms(2) by simp
next
  case (step a b)
  then have "a \<in> newly s s'"
    by (auto simp: newly_def child_edges_def src_is_cancelled_def)
  then show ?case
    using assms(1) step.hyps(2) unfolding cancel_ok_def pulled_def by blast
qed

text \<open>
  C24: Cancelling a source returns, with fuel for the sources there are, and cancels exactly that
  source and the live descendants reached through child registrations; everything else is unchanged.
  Each newly cancelled source runs each of its callbacks once and resolves each of its pending
  futures once, and nothing else happens. The result says whether this call did the cancellation,
  so that a second \<open>cancel\<close> does nothing.
\<close>

theorem cancel_tree:
  assumes "finite {a. src_live a s}" "card {a. src_live a s} < k" "src_live n s"
  shows "\<exists>s'. src_cancel k n s = Some (\<not> src_is_cancelled n s, s')
    \<and> {a. src_is_cancelled a s'} = {a. src_is_cancelled a s} \<union> (child_edges s)\<^sup>* `` {n}
    \<and> (\<forall>a. a \<notin> newly s s' \<longrightarrow> cy_src s' a = cy_src s a)
    \<and> mset (cy_log s') = mset (cy_log s) + (\<Sum>a\<in>newly s s'. src_events s a)
    \<and> src_cancel k n s' = Some (False, s')"
proof -
  have "uncancelled s \<subseteq> {a. src_live a s}"
    by (auto simp: uncancelled_def)
  then have "finite (uncancelled s)" "card (uncancelled s) < k"
    using finite_subset [of "uncancelled s"] card_mono [OF assms(1), of "uncancelled s"] assms(1,2)
    by simp_all
  then obtain b s' where run: "src_cancel k n s = Some (b, s')"
    using cancel_fuel(1) by fastforce
  note sp = cancel_spec(1) [OF run]
  have ok: "cancel_ok s s' {n} {#}" and b: "b = (\<not> src_is_cancelled n s)"
    and n: "src_is_cancelled n s'"
    using sp assms(3) by simp_all
  have "{a. src_is_cancelled a s'} \<subseteq> {a. src_is_cancelled a s} \<union> (child_edges s)\<^sup>* `` {n}"
    using ok by (auto simp: cancel_ok_def newly_def)
  moreover have "{a. src_is_cancelled a s} \<union> (child_edges s)\<^sup>* `` {n} \<subseteq> {a. src_is_cancelled a s'}"
    using pulled_closure [OF ok n] run_keeps_cancelled [OF ok] by auto
  moreover have "src_cancel k n s' = Some (False, s')"
    using n assms(2) by (cases k) (auto simp: src_is_cancelled_def split: option.splits)
  ultimately show ?thesis
    using run b ok by (auto simp: cancel_ok_def cancel_run_def)
qed


text \<open>A grandparent, its child and grandchild, and an unrelated source.\<close>

definition tree_example :: cancel_sys where
  "tree_example = \<lparr>cy_src =
      [0 \<mapsto> state_new\<lparr>cs_next_id := 2, cs_callbacks := [(0, UserCallback 7), (1, CancelChild 1)],
           cs_senders := [3]\<rparr>,
       1 \<mapsto> state_new\<lparr>cs_next_id := 1, cs_callbacks := [(0, CancelChild 2)]\<rparr>,
       2 \<mapsto> state_new\<lparr>cs_senders := [4]\<rparr>,
       5 \<mapsto> state_new],
     cy_log = []\<rparr>"

lemma tree_example_live: "{a. src_live a tree_example} = {0, 1, 2, 5}"
  by (auto simp: tree_example_def src_live_def)

theorem cancel_tree_witness:
  "\<exists>s'. src_cancel 5 0 tree_example = Some (True, s')
    \<and> cy_log s' = [Resolved 3, Ran 7, Resolved 4]
    \<and> mset (cy_log s') = (\<Sum>a\<in>newly tree_example s'. src_events tree_example a)"
proof -
  have n: "\<not> src_is_cancelled 0 tree_example" and l: "cy_log tree_example = []"
    by (simp_all add: tree_example_def src_is_cancelled_def state_new_def)
  have "finite {a. src_live a tree_example}" "card {a. src_live a tree_example} < 5"
    "src_live 0 tree_example"
    by (simp_all add: tree_example_live) (simp add: tree_example_def src_live_def)
  then obtain s' where r: "src_cancel 5 0 tree_example = Some (True, s')"
    "mset (cy_log s') = (\<Sum>a\<in>newly tree_example s'. src_events tree_example a)"
    using cancel_tree [of tree_example 5 0] n l by auto
  moreover have "map_option (cy_log \<circ> snd) (src_cancel 5 0 tree_example)
      = Some [Resolved 3, Ran 7, Resolved 4]"
    by (simp add: tree_example_def state_new_def eval_nat_numeral put_src_def emit_def Let_def)
  ultimately show ?thesis
    by simp
qed

section \<open>Tokens in use\<close>

text \<open>
  The calls of a program that uses sources, tokens and registrations one after another (a
  \<open>cancel\<close> on another thread is between two of these only once it has returned). The tables beside
  the sources are what the program holds: the children it spawned, the registration handles and the
  addresses ever used; a weak reference keeps an address from being used again. A source whose last
  strong reference goes is dropped with its callbacks and senders.
\<close>

record cancel_world =
  cw_sys :: cancel_sys
  cw_family :: "(nat \<times> nat) set"
  cw_handles :: "(nat \<times> 64 word) set"
  cw_used :: "nat set"

definition src_drop :: "nat \<Rightarrow> cancel_sys \<Rightarrow> cancel_sys" where
  "src_drop n s =
     (case cy_src s n of
        None \<Rightarrow> s
      | Some st \<Rightarrow> emit (map Resolved (cs_senders st)) (s\<lparr>cy_src := (cy_src s)(n := None)\<rparr>))"

inductive cancel_step :: "cancel_world \<Rightarrow> cancel_world \<Rightarrow> bool" where
  step_new: "n \<notin> cw_used w \<Longrightarrow>
    cancel_step w (w\<lparr>cw_sys := put_src n state_new (cw_sys w), cw_used := insert n (cw_used w)\<rparr>)"
| step_cancel: "src_cancel k n (cw_sys w) = Some (b, s') \<Longrightarrow> cancel_step w (w\<lparr>cw_sys := s'\<rparr>)"
| step_register: "src_register k n (UserCallback u) (cw_sys w) = Done (Some (i, s')) \<Longrightarrow>
    cancel_step w (w\<lparr>cw_sys := s',
      cw_handles := cw_handles w \<union> {(n, j) | j. i = Some j}\<rparr>)"
| step_unregister: "(n, i) \<in> cw_handles w \<Longrightarrow>
    cancel_step w (w\<lparr>cw_sys := drop_registration n (Some i) (cw_sys w)\<rparr>)"
| step_future: "cancel_step w (w\<lparr>cw_sys := src_cancel_future n tx (cw_sys w)\<rparr>)"
| step_spawn: "src_live n (cw_sys w) \<Longrightarrow> m \<notin> cw_used w \<Longrightarrow>
    spawn_child k n m (cw_sys w) = Done (Some s') \<Longrightarrow>
    cancel_step w (w\<lparr>cw_sys := s', cw_family := insert (n, m) (cw_family w),
      cw_used := insert m (cw_used w)\<rparr>)"
| step_drop: "cancel_step w (w\<lparr>cw_sys := src_drop n (cw_sys w)\<rparr>)"

definition world0 :: cancel_world where
  "world0 = \<lparr>cw_sys = \<lparr>cy_src = \<lambda>_. None, cy_log = []\<rparr>, cw_family = {}, cw_handles = {},
     cw_used = {}\<rparr>"

definition ids_ok :: "cancel_world \<Rightarrow> bool" where
  "ids_ok w =
     (fst ` cw_handles w \<subseteq> cw_used w
      \<and> (\<forall>n st. cy_src (cw_sys w) n = Some st \<longrightarrow> n \<in> cw_used w
          \<and> (\<not> cs_cancelled st \<longrightarrow>
              (\<forall>i. (n, i) \<in> cw_handles w \<or> i \<in> fst ` set (cs_callbacks st) \<longrightarrow> i < cs_next_id st))))"

definition child_ok :: "cancel_world \<Rightarrow> nat \<Rightarrow> nat \<Rightarrow> bool" where
  "child_ok w p c =
     (\<forall>st. cy_src (cw_sys w) p = Some st \<longrightarrow> src_live c (cw_sys w) \<longrightarrow>
        (if cs_cancelled st then src_is_cancelled c (cw_sys w)
         else \<exists>i. (i, CancelChild c) \<in> set (cs_callbacks st) \<and> (p, i) \<notin> cw_handles w))"

definition family_ok :: "cancel_world \<Rightarrow> bool" where
  "family_ok w = (\<forall>p c. (p, c) \<in> cw_family w \<longrightarrow> {p, c} \<subseteq> cw_used w \<and> child_ok w p c)"


definition world_ok :: "cancel_world \<Rightarrow> bool" where
  "world_ok w = (ids_ok w \<and> family_ok w)"

lemma world_ok0: "world_ok world0"
  by (simp add: world_ok_def ids_ok_def family_ok_def world0_def)

lemma world_ok_run:
  assumes w: "world_ok w" and ok: "cancel_ok (cw_sys w) s' R E"
  shows "world_ok (w\<lparr>cw_sys := s'\<rparr>)"
proof -
  let ?s = "cw_sys w"
  have run: "cancel_run ?s s'"
    using ok by (rule cancel_ok_runD)
  have old: "cy_src ?s a = Some st" if "cy_src s' a = Some st" "\<not> cs_cancelled st" for a st
  proof -
    have "a \<notin> newly ?s s'"
      using that by (simp add: newly_def src_is_cancelled_def)
    then show ?thesis
      using run that(1) by (simp add: cancel_run_def)
  qed
  have live: "src_live a s' = src_live a ?s" for a
    using run by (simp add: cancel_run_def)
  have "ids_ok (w\<lparr>cw_sys := s'\<rparr>)"
    using w old live unfolding world_ok_def ids_ok_def src_live_def
    by (simp, metis option.exhaust option.simps(3))
  moreover have "child_ok (w\<lparr>cw_sys := s'\<rparr>) p c" if f: "(p, c) \<in> cw_family w" for p c
    unfolding child_ok_def
  proof (intro allI impI)
    fix st'
    assume st': "cy_src (cw_sys (w\<lparr>cw_sys := s'\<rparr>)) p = Some st'"
      and c: "src_live c (cw_sys (w\<lparr>cw_sys := s'\<rparr>))"
    then obtain st where st: "cy_src ?s p = Some st"
      using live [of p] by (auto simp: src_live_def)
    have ch: "child_ok w p c"
      using w f by (simp add: world_ok_def family_ok_def)
    show "if cs_cancelled st' then src_is_cancelled c (cw_sys (w\<lparr>cw_sys := s'\<rparr>))
      else \<exists>i. (i, CancelChild c) \<in> set (cs_callbacks st')
        \<and> (p, i) \<notin> cw_handles (w\<lparr>cw_sys := s'\<rparr>)"
    proof (cases "cs_cancelled st'")
      case False
      then show ?thesis
        using ch old [of p st'] st' c live by (simp add: child_ok_def)
    next
      case True
      have "src_is_cancelled c s'"
      proof (cases "cs_cancelled st")
        case True
        then show ?thesis
          using ch st c live run_keeps_cancelled [OF ok] by (simp add: child_ok_def)
      next
        case False
        then have "(p, c) \<in> child_edges ?s"
          using ch st c live by (force simp: child_ok_def child_edges_def)
        moreover have "p \<in> newly ?s s'"
          using True False st st' by (simp add: newly_def src_is_cancelled_def)
        ultimately show ?thesis
          using ok by (simp add: cancel_ok_def pulled_def)
      qed
      then show ?thesis
        using True by simp
    qed
  qed
  ultimately show ?thesis
    using w by (simp add: world_ok_def family_ok_def)
qed

lemma world_ok_new:
  assumes "world_ok w" "n \<notin> cw_used w"
  shows "world_ok (w\<lparr>cw_sys := put_src n state_new (cw_sys w), cw_used := insert n (cw_used w)\<rparr>)"
proof -
  have "(n, i) \<notin> cw_handles w" for i
    using assms by (force simp: world_ok_def ids_ok_def)
  then have "ids_ok (w\<lparr>cw_sys := put_src n state_new (cw_sys w), cw_used := insert n (cw_used w)\<rparr>)"
    using assms by (auto simp: world_ok_def ids_ok_def state_new_def)
  moreover have "child_ok (w\<lparr>cw_sys := put_src n state_new (cw_sys w),
      cw_used := insert n (cw_used w)\<rparr>) p c" if "(p, c) \<in> cw_family w" for p c
  proof -
    have "{p, c} \<subseteq> cw_used w" "child_ok w p c"
      using assms that by (auto simp: world_ok_def family_ok_def)
    then show ?thesis
      using assms(2) by (auto simp: child_ok_def src_live_def src_is_cancelled_def)
  qed
  ultimately show ?thesis
    using assms by (auto simp: world_ok_def family_ok_def)
qed

text \<open>A registration on a source that is not cancelled, with or without a handle for it.\<close>

lemma world_ok_push:
  assumes w: "world_ok w" and st: "cy_src (cw_sys w) n = Some st" "\<not> cs_cancelled st"
    and nid: "cs_next_id st \<noteq> -1"
    and H: "H \<subseteq> {(n, cs_next_id st)}"
  shows "world_ok (w\<lparr>cw_sys := put_src n (st\<lparr>cs_next_id := cs_next_id st + 1,
      cs_callbacks := cs_callbacks st @ [(cs_next_id st, cb)]\<rparr>) (cw_sys w),
      cw_handles := cw_handles w \<union> H\<rparr>)"
    (is "world_ok ?w")
proof -
  have up: "i < cs_next_id st + 1" if "i < cs_next_id st \<or> i = cs_next_id st" for i
    using that nid by (auto simp: less_plus_one_iff)
  have "ids_ok ?w"
    using w st H up unfolding world_ok_def ids_ok_def by auto
  moreover have "child_ok ?w p c" if f: "(p, c) \<in> cw_family w" for p c
  proof -
    have ch: "child_ok w p c" and ids: "ids_ok w"
      using w f by (auto simp: world_ok_def family_ok_def)
    show ?thesis
    proof (cases "p = n")
      case False
      then have "(p, i) \<notin> H" for i
        using H by auto
      then show ?thesis
        using False ch st by (auto simp: child_ok_def src_live_def src_is_cancelled_def)
    next
      case True
      have "i < cs_next_id st" if "i \<in> fst ` set (cs_callbacks st)" for i
        using ids st that unfolding ids_ok_def by blast
      then have "(n, i) \<notin> H" if "(i, CancelChild c) \<in> set (cs_callbacks st)" for i
        using H that by force
      then show ?thesis
        using ch st True by (auto simp: child_ok_def src_live_def)
    qed
  qed
  ultimately show ?thesis
    using w by (auto simp: world_ok_def family_ok_def)
qed


lemma world_ok_unregister:
  assumes "world_ok w" "(n, i) \<in> cw_handles w"
  shows "world_ok (w\<lparr>cw_sys := drop_registration n (Some i) (cw_sys w)\<rparr>)"
proof (cases "cy_src (cw_sys w) n")
  case None
  then show ?thesis
    using assms by (simp add: drop_registration_def src_unregister_def)
next
  case (Some st)
  let ?w = "w\<lparr>cw_sys := drop_registration n (Some i) (cw_sys w)\<rparr>"
  have d: "drop_registration n (Some i) (cw_sys w)
      = put_src n (st\<lparr>cs_callbacks := filter (\<lambda>x. fst x \<noteq> i) (cs_callbacks st)\<rparr>) (cw_sys w)"
    using Some by (simp add: drop_registration_def src_unregister_def)
  have ids: "ids_ok w"
    using assms(1) by (simp add: world_ok_def)
  have b: "j < cs_next_id st" if "\<not> cs_cancelled st" "(j, cb) \<in> set (cs_callbacks st)" for j cb
  proof -
    have "j \<in> fst ` set (cs_callbacks st)"
      using that(2) by force
    then show ?thesis
      using ids Some that(1) unfolding ids_ok_def by blast
  qed
  have "ids_ok ?w"
    using ids Some unfolding ids_ok_def by (auto simp: d dest: b)
  moreover have "child_ok ?w p c" if "child_ok w p c" for p c
    using that assms(2) Some by (auto simp: child_ok_def d src_live_def src_is_cancelled_def)
  ultimately show ?thesis
    using assms by (auto simp: world_ok_def family_ok_def)
qed

lemma world_ok_same:
  assumes "world_ok w"
    and "\<And>a st'. cy_src s' a = Some st' \<Longrightarrow> \<exists>st. cy_src (cw_sys w) a = Some st
      \<and> cs_cancelled st' = cs_cancelled st \<and> cs_next_id st' = cs_next_id st
      \<and> cs_callbacks st' = cs_callbacks st"
  shows "world_ok (w\<lparr>cw_sys := s'\<rparr>)"
proof -
  have "ids_ok (w\<lparr>cw_sys := s'\<rparr>)"
    using assms unfolding world_ok_def ids_ok_def by simp metis
  moreover have "child_ok (w\<lparr>cw_sys := s'\<rparr>) p c" if "child_ok w p c" for p c
    unfolding child_ok_def
  proof (intro allI impI)
    fix st'
    assume "cy_src (cw_sys (w\<lparr>cw_sys := s'\<rparr>)) p = Some st'" "src_live c (cw_sys (w\<lparr>cw_sys := s'\<rparr>))"
    then obtain st sc' where s: "cy_src s' p = Some st'" "cy_src s' c = Some sc'"
      by (auto simp: src_live_def)
    show "if cs_cancelled st' then src_is_cancelled c (cw_sys (w\<lparr>cw_sys := s'\<rparr>))
      else \<exists>i. (i, CancelChild c) \<in> set (cs_callbacks st')
        \<and> (p, i) \<notin> cw_handles (w\<lparr>cw_sys := s'\<rparr>)"
      using assms(2) [OF s(1)] assms(2) [OF s(2)] s that
      by (auto simp: child_ok_def src_live_def src_is_cancelled_def)
  qed
  ultimately show ?thesis
    using assms(1) by (simp add: world_ok_def family_ok_def)
qed

lemma world_ok_family:
  "world_ok w \<Longrightarrow> n \<in> cw_used w \<Longrightarrow> m \<in> cw_used w \<Longrightarrow> child_ok w n m
     \<Longrightarrow> world_ok (w\<lparr>cw_family := insert (n, m) (cw_family w)\<rparr>)"
  by (auto simp: world_ok_def family_ok_def ids_ok_def child_ok_def)

lemma world_ok_spawn:
  assumes w: "world_ok w" and n: "src_live n (cw_sys w)" and m: "m \<notin> cw_used w"
    and sp: "spawn_child k n m (cw_sys w) = Done (Some s')"
  shows "world_ok (w\<lparr>cw_sys := s', cw_family := insert (n, m) (cw_family w),
    cw_used := insert m (cw_used w)\<rparr>)"
proof -
  define w1 where "w1 = w\<lparr>cw_sys := put_src m state_new (cw_sys w), cw_used := insert m (cw_used w)\<rparr>"
  have w1: "world_ok w1"
    unfolding w1_def using w m by (rule world_ok_new)
  obtain st where st0: "cy_src (cw_sys w) n = Some st" and used: "n \<in> cw_used w"
    using n w by (auto simp: src_live_def world_ok_def ids_ok_def)
  then have st: "cy_src (cw_sys w1) n = Some st" and live: "src_live m (cw_sys w1)"
    using m by (auto simp: w1_def src_live_def)
  have reg: "\<exists>i. src_register k n (CancelChild m) (cw_sys w1) = Done (Some (i, s'))"
  proof -
    obtain a where "src_register k n (CancelChild m) (cw_sys w1) = Done a" "Some s' = map_option snd a"
      using sp by (auto simp: spawn_child_def w1_def)
    then show ?thesis
      by (cases a) auto
  qed
  have w2: "world_ok (w1\<lparr>cw_sys := s'\<rparr>) \<and> child_ok (w1\<lparr>cw_sys := s'\<rparr>) n m"
  proof (cases "cs_cancelled st")
    case True
    then have "run_callbacks k [(0, CancelChild m)] (cw_sys w1) = Some s'"
      using reg st by (auto simp: src_register_def)
    note c = cancel_spec(2) [OF this]
    then have "world_ok (w1\<lparr>cw_sys := s'\<rparr>)"
      using world_ok_run [OF w1] by blast
    moreover have "src_is_cancelled m s'" "src_is_cancelled n s'"
      using c live run_keeps_cancelled [of "cw_sys w1" s' _ _ n] st True
      by (auto simp: src_is_cancelled_def)
    ultimately show ?thesis
      by (auto simp: child_ok_def src_is_cancelled_def)
  next
    case False
    then have nid: "cs_next_id st \<noteq> -1"
      and s': "s' = put_src n (st\<lparr>cs_next_id := cs_next_id st + 1,
        cs_callbacks := cs_callbacks st @ [(cs_next_id st, CancelChild m)]\<rparr>) (cw_sys w1)"
      using reg st by (auto simp: src_register_def split: if_splits)
    have "world_ok (w1\<lparr>cw_sys := s', cw_handles := cw_handles w1 \<union> {}\<rparr>)"
      unfolding s' using w1 st False nid by (rule world_ok_push) simp
    moreover have "(n, cs_next_id st) \<notin> cw_handles w1"
      using w1 st False by (auto simp: world_ok_def ids_ok_def)
    ultimately show ?thesis
      using False by (auto simp: child_ok_def s')
  qed
  have "world_ok (w1\<lparr>cw_sys := s', cw_family := insert (n, m) (cw_family w1)\<rparr>)"
    using world_ok_family [of "w1\<lparr>cw_sys := s'\<rparr>" n m] w2 used by (simp add: w1_def)
  then show ?thesis
    by (cases w) (simp add: w1_def)
qed

lemma world_ok_step: "cancel_step w w' \<Longrightarrow> world_ok w \<Longrightarrow> world_ok w'"
proof (induction rule: cancel_step.induct)
  case (step_new n w)
  then show ?case
    using world_ok_new by blast
next
  case (step_cancel k n w b s')
  then show ?case
    using cancel_spec(1) world_ok_run by blast
next
  case (step_register k n u w i s')
  show ?case
  proof (cases "cy_src (cw_sys w) n")
    case None
    then have "i = None" "s' = cw_sys w"
      using step_register by (auto simp: src_register_def)
    then show ?thesis
      using step_register.prems by simp
  next
    case (Some st)
    show ?thesis
    proof (cases "cs_cancelled st")
      case True
      then have "i = None" "s' = emit [Ran u] (cw_sys w)"
        using step_register Some by (auto simp: src_register_def)
      then show ?thesis
        using world_ok_run [OF step_register.prems cancel_ok_emit] by simp
    next
      case False
      then have "cs_next_id st \<noteq> -1" "i = Some (cs_next_id st)"
        "s' = put_src n (st\<lparr>cs_next_id := cs_next_id st + 1,
          cs_callbacks := cs_callbacks st @ [(cs_next_id st, UserCallback u)]\<rparr>) (cw_sys w)"
        using step_register Some by (auto simp: src_register_def split: if_splits)
      then show ?thesis
        using world_ok_push [OF step_register.prems Some False,
            of "{(n, cs_next_id st)}" "UserCallback u"] by simp
    qed
  qed
next
  case (step_unregister n i w)
  then show ?case
    using world_ok_unregister by blast
next
  case (step_future w n tx)
  then show ?case
    by (intro world_ok_same) (auto simp: src_cancel_future_def split: option.splits if_splits)
next
  case (step_spawn n w m k s')
  then show ?case
    using world_ok_spawn by blast
next
  case (step_drop w n)
  then show ?case
    by (intro world_ok_same) (auto simp: src_drop_def split: option.splits if_splits)
qed

text \<open>
  C25: A child token follows its parent. However a program interleaves creating and dropping sources,
  cancelling, registering and unregistering callbacks, waiting and spawning children: once the parent
  of a spawned child is cancelled the child is cancelled, and as long as it is not, the child's
  registration is still in place, since no handle of the program can unregister it.
\<close>

theorem child_follows_parent:
  assumes "cancel_step\<^sup>*\<^sup>* world0 w" "(p, c) \<in> cw_family w"
    "src_live p (cw_sys w)" "src_live c (cw_sys w)"
  shows "if src_is_cancelled p (cw_sys w) then src_is_cancelled c (cw_sys w)
    else (p, c) \<in> child_edges (cw_sys w)"
proof -
  have "world_ok w"
    using assms(1) by (induction rule: rtranclp_induct) (auto intro: world_ok0 world_ok_step)
  then have "child_ok w p c"
    using assms(2) by (simp add: world_ok_def family_ok_def)
  then show ?thesis
    using assms(3,4) by (force simp: child_ok_def child_edges_def src_live_def src_is_cancelled_def)
qed


definition family_sys :: "bool \<Rightarrow> cancel_sys" where
  "family_sys b = \<lparr>cy_src =
     [0 \<mapsto> \<lparr>cs_cancelled = b, cs_next_id = 1,
         cs_callbacks = if b then [] else [(0, CancelChild 1)], cs_senders = []\<rparr>,
      1 \<mapsto> state_new\<lparr>cs_cancelled := b\<rparr>], cy_log = []\<rparr>"

definition family_world :: "bool \<Rightarrow> cancel_world" where
  "family_world b = \<lparr>cw_sys = family_sys b, cw_family = {(0, 1)}, cw_handles = {}, cw_used = {1, 0}\<rparr>"

lemma family_reached: "cancel_step\<^sup>*\<^sup>* world0 (family_world b)"
proof -
  let ?w1 = "world0\<lparr>cw_sys := put_src 0 state_new (cw_sys world0), cw_used := {0}\<rparr>"
  have 1: "cancel_step world0 ?w1"
    using step_new [of 0 world0] by (simp add: world0_def)
  have "spawn_child 0 0 1 (cw_sys ?w1) = Done (Some (family_sys False))"
    by (simp add: spawn_child_def src_register_def state_new_def world0_def family_sys_def
        put_src_def fun_upd_twist)
  then have 2: "cancel_step ?w1 (family_world False)"
    using step_spawn [of 0 ?w1 1 0 "family_sys False"]
    by (simp add: world0_def family_world_def src_live_def)
  have "src_cancel 3 0 (family_sys False) = Some (True, family_sys True)"
    by (simp add: family_sys_def state_new_def eval_nat_numeral put_src_def emit_def Let_def
        fun_upd_twist)
  then have 3: "cancel_step (family_world False) (family_world True)"
    using step_cancel [of 3 0 "family_world False" True "family_sys True"]
    by (simp add: family_world_def)
  show ?thesis
    using 1 2 3 by (cases b) (simp_all add: converse_rtranclp_into_rtranclp)
qed

theorem child_follows_parent_witness:
  "(0, 1) \<in> child_edges (family_sys False) \<and> src_is_cancelled 1 (family_sys True)"
proof -
  have "src_live 0 (family_sys b)" "src_live 1 (family_sys b)"
    "src_is_cancelled 0 (family_sys b) = b" for b
    by (simp_all add: family_sys_def src_live_def src_is_cancelled_def)
  then show ?thesis
    using child_follows_parent [OF family_reached [of False], of 0 1]
      child_follows_parent [OF family_reached [of True], of 0 1]
    by (simp add: family_world_def)
qed

end
