(* ===== verification/Multipart_Circ.thy ===== *)
theory Multipart_Circ
  imports Multipart Circ_Half
begin

text \<open>
  The multipart framing end to end: between any halves that keep the contract of \<open>Io_Half\<close>, and, as
  the instance the repository itself uses, between the halves of circular buffers.
\<close>

interpretation mp_circ: multipart_pair
  "circ_src rd wr (Suc (Suc k)) :: (consumer_error, u8, (u8, 'i, 'o) circ_half) src_half" half_ok half_items
  "circ_tgt rd' wr' (Suc (Suc k')) :: (producer_error, u8, (u8, 'j, 'q) circ_half) tgt_half" half_ok half_items
  by (intro multipart_pair.intro circ_source.source_half_axioms circ_target.target_half_axioms)

interpretation ms_circ: multipart_source
  "circ_src rd wr (Suc (Suc k)) :: (consumer_error, u8, (u8, 'i, 'o) circ_half) src_half" half_ok half_items
  by (intro multipart_source.intro circ_source.source_half_axioms)

text \<open>
  C26: The multipart framing is a round trip. Whatever the source lends at a time, however the target
  cuts its space into segments and for each of the prefixes: the encoder ends after a bounded number
  of rounds, either with the error of a half, or having moved the whole stream. In that case a decoder
  over any source that delivers the bytes the target took, and more behind them, hands out exactly
  the stream in order, whatever its caller demands and consumes of each segment; it reports the end
  exactly when everything is consumed, leaving what is behind untouched, never reports a broken
  stream, and makes progress with every request that consumes something.
\<close>

theorem multipart_roundtrip:
  assumes "source_half S okS outS" "target_half T okT insT" "source_half R okR outR"
    and "okS r" "okT w" "length (outS r) < 2 ^ 64" "2 * length (outS r) + 1 < k"
  shows "\<exists>res r' w'. multipart_send S T p (\<lambda>_. False) k 0 r w = Some (Done (res, r', w'))
    \<and> ((\<exists>m e. res = OfBoth m e \<and> e \<noteq> EncInvalid)
      \<or> res = OfLeft (length (outS r))
        \<and> (\<forall>q rest rs. okR q \<longrightarrow> insT w @ outR q = insT w' @ rest \<longrightarrow>
            (\<exists>got e st' q'. recv_session R p rs recv_new q = Done (got, e, st', q')
              \<and> e \<noteq> Some RecvInvalid \<and> (\<exists>more. outS r = got @ more)
              \<and> (e = Some RecvEof \<longrightarrow> got = outS r \<and> outR q' = rest)
              \<and> (length (outS r) < length rs \<longrightarrow> (\<forall>q\<in>set rs. 0 < snd (snd q)) \<longrightarrow> e \<noteq> None))))"
proof -
  have pair: "multipart_pair S okS outS T okT insT" and src: "multipart_source R okR outR"
    using assms(1-3) by (simp_all add: multipart_pair_def multipart_source_def)
  have "multipart_send S T p (\<lambda>_. False) k 0 r w \<noteq> None"
    using assms(4-7) by (intro multipart_pair.multipart_send_fuel [OF pair]) auto
  then obtain y where y: "multipart_send S T p (\<lambda>_. False) k 0 r w = Some y"
    by blast
  from multipart_pair.multipart_send_spec [OF pair assms(4-6) y] obtain res r' w' where
    run: "y = Done (res, r', w')" and
    enc: "multipart_pair.encoded outS insT p (\<lambda>_. False) 0 r w res r' w'"
    by blast
  from enc obtain m bss where
    e: "\<forall>bs\<in>set bss. part_ok p bs"
      "res = OfLeft m \<and> concat bss = take m (outS r)
         \<and> m = length (outS r) \<and> insT w' = insT w @ parts p bss @ zero_bytes p
       \<or> (\<exists>e. res = OfBoth m e \<and> e \<noteq> EncInvalid)"
    unfolding multipart_pair.encoded_def [OF pair] by auto
  show ?thesis
  proof (cases "\<exists>e. res = OfBoth m e \<and> e \<noteq> EncInvalid")
    case True
    then show ?thesis
      using y run by auto
  next
    case False
    then have ok: "res = OfLeft (length (outS r))" "concat bss = outS r"
      "insT w' = insT w @ parts p bss @ zero_bytes p"
      using e(2) by auto
    have "\<exists>got e st' q'. recv_session R p rs recv_new q = Done (got, e, st', q')
        \<and> e \<noteq> Some RecvInvalid \<and> (\<exists>more. outS r = got @ more)
        \<and> (e = Some RecvEof \<longrightarrow> got = outS r \<and> outR q' = rest)
        \<and> (length (outS r) < length rs \<longrightarrow> (\<forall>q\<in>set rs. 0 < snd (snd q)) \<longrightarrow> e \<noteq> None)"
      if q: "okR q" "insT w @ outR q = insT w' @ rest" for q rest rs
    proof -
      have "multipart_source.recv_rel okR outR p [] bss rest recv_new q"
        using q ok(3) e(1) by (intro multipart_source.recv_rel_new [OF src]) simp_all
      from multipart_source.recv_session_spec [OF src this, of rs] obtain got e st' q' cur' bss' where
        *: "recv_session R p rs recv_new q = Done (got, e, st', q')" "e \<noteq> Some RecvInvalid"
          "outS r = got @ cur' @ concat bss'" "e = Some RecvEof \<longrightarrow> got = outS r \<and> outR q' = rest"
          "e = None \<longrightarrow> (\<forall>q\<in>set rs. 0 < snd (snd q)) \<longrightarrow> length rs \<le> length got"
        unfolding ok(2) append_Nil by blast
      then have "length got \<le> length (outS r)"
        by simp
      then show ?thesis
        using * by (intro exI [of _ got] exI [of _ e] exI [of _ st'] exI [of _ q']) auto
    qed
    then show ?thesis
      using y run ok(1) by blast
  qed
qed


theorem multipart_roundtrip_witness:
  "multipart_send bytes_src bytes_tgt U8Prefix (\<lambda>_. False) 8 0 [5, 6, 7] []
     = Some (Done (OfLeft 3, [], [2, 5, 6, 1, 7, 0]))
   \<and> (\<exists>got e st' q'. recv_session bytes_src U8Prefix [(False, AtLeast 1, 1), (False, LessThan 1, 3)]
        recv_new [2, 5, 6, 1, 7, 0, 9] = Done (got, e, st', q') \<and> (\<exists>more. [5, 6, 7] = got @ more))"
proof -
  have run: "multipart_send bytes_src bytes_tgt U8Prefix (\<lambda>_. False) 8 0 [5, 6, 7] []
      = Some (Done (OfLeft 3, [], [2, 5, 6, 1, 7, 0]))"
    by code_simp
  have "\<forall>q rest rs. True \<longrightarrow> [] @ q = [2, 5, 6, 1, 7, 0] @ rest \<longrightarrow>
      (\<exists>got e st' q'. recv_session bytes_src U8Prefix rs recv_new q = Done (got, e, st', q')
        \<and> e \<noteq> Some RecvInvalid \<and> (\<exists>more. [5, 6, 7] = got @ more)
        \<and> (e = Some RecvEof \<longrightarrow> got = [5, 6, 7] \<and> q' = rest)
        \<and> (length [5 :: u8, 6, 7] < length rs \<longrightarrow> (\<forall>q\<in>set rs. 0 < snd (snd q)) \<longrightarrow> e \<noteq> None))"
    using multipart_roundtrip [OF bytes_halves bytes_halves(1), where r = "[5, 6, 7]" and w = "[]"
        and k = 8 and p = U8Prefix] unfolding run by simp
  from this [rule_format, of "[2, 5, 6, 1, 7, 0, 9]" "[9]" "[(False, AtLeast 1, 1), (False, LessThan 1, 3)]"]
  show ?thesis
    using run by auto
qed

end
