(* ===== verification/Mem_Vfs.thy ===== *)
theory Mem_Vfs
  imports Cantare_Prelude
begin

text \<open>
  The in-memory file system tree (\<open>crates/mem_vfs/src/tree_node_.rs\<close>, \<open>opr_.rs\<close>): directories with
  their two maps between names and node identifiers, the tree of nodes, and the resolution of paths.
  A name is the sequence of its octets: the maps order names by content.
\<close>

section \<open>Nodes\<close>

type_synonym node_id = "64 word"
type_synonym name_segm = "8 word list"

record node_base =
  nb_node_id :: node_id
  nb_parent :: node_id
  nb_link_count :: usize
  nb_name :: name_segm

definition node_base_new :: "node_id \<Rightarrow> node_id \<Rightarrow> name_segm \<Rightarrow> node_base" where
  "node_base_new i p n = \<lparr>nb_node_id = i, nb_parent = p, nb_link_count = 0, nb_name = n\<rparr>"

record dir_node =
  dn_base :: node_base
  dn_name_id :: "name_segm \<rightharpoonup> node_id"
  dn_id_name :: "node_id \<rightharpoonup> name_segm"

definition dir_node_new :: "node_id \<Rightarrow> node_id \<Rightarrow> name_segm \<Rightarrow> dir_node" where
  "dir_node_new i p n =
     \<lparr>dn_base = node_base_new i p n, dn_name_id = Map.empty, dn_id_name = Map.empty\<rparr>"

definition root_dir :: dir_node where
  "root_dir = dir_node_new 0 0 []"

datatype fs_node = LocalDir dir_node | LocalFile node_base

fun fs_is_dir :: "fs_node \<Rightarrow> bool" where
  "fs_is_dir (LocalDir d) = True"
| "fs_is_dir (LocalFile f) = False"

fun fs_name :: "fs_node \<Rightarrow> name_segm" where
  "fs_name (LocalDir d) = nb_name (dn_base d)"
| "fs_name (LocalFile f) = nb_name f"

section \<open>Directories\<close>

definition get_dentry_by_id :: "dir_node \<Rightarrow> node_id \<Rightarrow> (node_id \<times> name_segm) option" where
  "get_dentry_by_id d i =
     (case dn_id_name d i of
        None \<Rightarrow> None
      | Some n \<Rightarrow> (case dn_name_id d n of None \<Rightarrow> None | Some j \<Rightarrow> Some (j, n)))"

definition get_dentry_by_name :: "dir_node \<Rightarrow> name_segm \<Rightarrow> (node_id \<times> name_segm) option run" where
  "get_dentry_by_name d n =
     (case dn_name_id d n of
        None \<Rightarrow> Done None
      | Some i \<Rightarrow>
          (case dn_id_name d i of
             None \<Rightarrow> Panic ''Broken entry encountered''
           | Some m \<Rightarrow> Done (Some (i, m))))"

definition remove_child_by_id :: "node_id \<Rightarrow> dir_node \<Rightarrow> bool \<times> dir_node" where
  "remove_child_by_id i d =
     (case dn_id_name d i of
        None \<Rightarrow> (False, d)
      | Some n \<Rightarrow>
          (dn_name_id d n \<noteq> None,
           d\<lparr>dn_id_name := (dn_id_name d)(i := None), dn_name_id := (dn_name_id d)(n := None)\<rparr>))"

text \<open>\<open>insert\<close> of the standard map returns the value that was there before.\<close>

definition insert_child :: "node_id \<Rightarrow> name_segm \<Rightarrow> dir_node \<Rightarrow> (name_segm + node_id) option \<times> dir_node" where
  "insert_child i n d =
     (let r1 = dn_name_id d n; d1 = d\<lparr>dn_name_id := (dn_name_id d)(n \<mapsto> i)\<rparr>
      in if r1 \<noteq> None then
           (let r2 = dn_id_name d1 i; d2 = d1\<lparr>dn_id_name := (dn_id_name d1)(i \<mapsto> n)\<rparr>
            in if r2 \<noteq> None then (None, d2)
               else (Some (Inr i), d2\<lparr>dn_name_id := (dn_name_id d2)(n := None)\<rparr>))
         else (Some (Inl n), d1))"

text \<open>A directory is consistent when its maps are inverse to each other.\<close>

definition dir_ok :: "dir_node \<Rightarrow> bool" where
  "dir_ok d = (\<forall>n i. dn_name_id d n = Some i \<longleftrightarrow> dn_id_name d i = Some n)"

lemma dir_okD: "dir_ok d \<Longrightarrow> dn_name_id d n = Some i \<longleftrightarrow> dn_id_name d i = Some n"
  by (simp add: dir_ok_def)

lemma root_dir_ok: "dir_ok root_dir"
  by (simp add: dir_ok_def root_dir_def dir_node_new_def)

lemma lookup_by_name:
  "dir_ok d \<Longrightarrow> get_dentry_by_name d n = Done (map_option (\<lambda>i. (i, n)) (dn_name_id d n))"
proof (cases "dn_name_id d n")
  case (Some i)
  assume "dir_ok d"
  then have "dn_id_name d i = Some n"
    using Some by (simp add: dir_ok_def)
  then show ?thesis
    using Some by (simp add: get_dentry_by_name_def)
qed (simp add: get_dentry_by_name_def)

lemma lookup_by_id:
  assumes "dir_ok d"
  shows "get_dentry_by_id d i = map_option (\<lambda>n. (i, n)) (dn_id_name d i)"
proof (cases "dn_id_name d i")
  case (Some n)
  then have "dn_name_id d n = Some i"
    using assms by (simp add: dir_ok_def)
  then show ?thesis
    using Some by (simp add: get_dentry_by_id_def)
qed (simp add: get_dentry_by_id_def)

lemma remove_dir_ok:
  assumes "dir_ok d"
  shows "dir_ok (snd (remove_child_by_id i d))"
    and "fst (remove_child_by_id i d) = (dn_id_name d i \<noteq> None)"
    and "get_dentry_by_id (snd (remove_child_by_id i d)) i = None"
proof -
  note ok = dir_okD [OF assms]
  show "fst (remove_child_by_id i d) = (dn_id_name d i \<noteq> None)"
    using ok by (auto simp: remove_child_by_id_def split: option.splits)
  show "get_dentry_by_id (snd (remove_child_by_id i d)) i = None"
    by (simp add: get_dentry_by_id_def remove_child_by_id_def split: option.splits)
  have "dn_name_id d m = Some i \<longleftrightarrow> m = n" if "dn_id_name d i = Some n" for m n
    using ok that by auto
  moreover have "dn_id_name d j = Some n \<longleftrightarrow> j = i" if "dn_id_name d i = Some n" for j n
    using ok [of n i] ok [of n j] that by auto
  ultimately show "dir_ok (snd (remove_child_by_id i d))"
    using ok by (auto simp: remove_child_by_id_def dir_ok_def split: option.splits)
qed

text \<open>
  C28: \<open>insert_child\<close> has its conditions the wrong way round. Adding a fresh child to a consistent
  directory reports the name as an error and leaves a broken entry, so that the next lookup of the
  name panics and a lookup of the identifier finds nothing; adding the same child again reports
  success but takes the name away, so that the child can be found neither way.
\<close>

theorem insert_child_breaks_directory:
  assumes "dir_ok d" "dn_name_id d n = None" "dn_id_name d i = None"
  shows "\<exists>d1 d2. insert_child i n d = (Some (Inl n), d1)
     \<and> get_dentry_by_name d1 n = Panic ''Broken entry encountered'' \<and> get_dentry_by_id d1 i = None
     \<and> insert_child i n d1 = (Some (Inr i), d2)
     \<and> get_dentry_by_name d2 n = Done None \<and> get_dentry_by_id d2 i = None \<and> \<not> dir_ok d2"
  using assms
  by (simp add: insert_child_def Let_def get_dentry_by_name_def get_dentry_by_id_def dir_ok_def)
    (metis option.distinct(1))

theorem insert_child_breaks_directory_witness:
  "get_dentry_by_name (snd (insert_child 1 [97] root_dir)) [97] = Panic ''Broken entry encountered''"
  using insert_child_breaks_directory [OF root_dir_ok, of "[97]" 1]
  by (auto simp: root_dir_def dir_node_new_def)

section \<open>The tree\<close>

datatype fs_opr_error = NodeIsDir node_id | NodeIsFile node_id | InvalidNodeId node_id | InvalidPath nat

type_synonym fs_tree = "node_id \<rightharpoonup> fs_node"

definition fs_new :: fs_tree where
  "fs_new = [0 \<mapsto> LocalDir root_dir]"

definition get_inode_by_id :: "fs_tree \<Rightarrow> node_id \<Rightarrow> fs_opr_error + fs_node" where
  "get_inode_by_id t i = (case t i of None \<Rightarrow> Inl (InvalidNodeId i) | Some nd \<Rightarrow> Inr nd)"

definition get_inode_name :: "fs_tree \<Rightarrow> node_id \<Rightarrow> fs_opr_error + name_segm" where
  "get_inode_name t i = (case t i of None \<Rightarrow> Inl (InvalidNodeId i) | Some nd \<Rightarrow> Inr (fs_name nd))"

definition get_path :: "fs_tree \<Rightarrow> node_id \<Rightarrow> fs_opr_error + name_segm list" where
  "get_path t i = Inl (InvalidNodeId i)"

text \<open>The loop of \<open>find_inode_with_path\<close>: the remaining segments, the index of the first of them.\<close>

fun find_loop ::
    "fs_tree \<Rightarrow> node_id \<Rightarrow> fs_node \<Rightarrow> nat \<Rightarrow> name_segm list \<Rightarrow> (fs_opr_error + fs_node) run" where
  "find_loop t curr_id nd k [] = Done (Inl (InvalidPath k))"
| "find_loop t curr_id nd k (name # rest) =
     (case nd of
        LocalFile _ \<Rightarrow> Done (Inl (NodeIsFile curr_id))
      | LocalDir dir \<Rightarrow>
          (case get_dentry_by_name dir name of
             Panic msg \<Rightarrow> Panic msg
           | Done None \<Rightarrow> Done (Inl (InvalidPath k))
           | Done (Some (i, _)) \<Rightarrow>
               (case t i of
                  None \<Rightarrow> Done (Inl (InvalidNodeId i))
                | Some child \<Rightarrow> find_loop t i child (k + 1) rest)))"

definition find_inode_with_path ::
    "fs_tree \<Rightarrow> node_id \<Rightarrow> name_segm list \<Rightarrow> (fs_opr_error + fs_node) run" where
  "find_inode_with_path t root path =
     (case t root of
        None \<Rightarrow> Done (Inl (InvalidNodeId root))
      | Some nd \<Rightarrow> if path = [] then Done (Inr nd) else find_loop t root nd 0 path)"

text \<open>What a path means: every segment is an entry of the directory reached so far.\<close>

inductive path_leads :: "fs_tree \<Rightarrow> node_id \<Rightarrow> name_segm list \<Rightarrow> node_id \<Rightarrow> bool" for t where
  here: "t i = Some nd \<Longrightarrow> path_leads t i [] i"
| there: "t i = Some (LocalDir d) \<Longrightarrow> dn_name_id d n = Some j \<Longrightarrow> path_leads t j ns k
    \<Longrightarrow> path_leads t i (n # ns) k"

inductive_simps path_leads_Cons: "path_leads t i (n # ns) k"

lemma path_leads_start: "path_leads t i ns k \<Longrightarrow> \<exists>nd. t i = Some nd"
  by (cases rule: path_leads.cases) auto

lemma path_leads_end: "path_leads t i ns k \<Longrightarrow> \<exists>nd. t k = Some nd"
  by (induction rule: path_leads.induct) auto

definition fs_ok :: "fs_tree \<Rightarrow> bool" where
  "fs_ok t = (\<forall>i d. t i = Some (LocalDir d) \<longrightarrow> dir_ok d)"

lemma find_loop_never_ok: "find_loop t i nd k ns \<noteq> Done (Inr x)"
  by (induction t i nd k ns rule: find_loop.induct)
    (auto split: fs_node.splits option.splits run.splits)

lemma find_loop_error:
  assumes "fs_ok t" "path_leads t i ns j" "t i = Some nd"
  shows "find_loop t i nd k ns = Done (Inl (InvalidPath (k + length ns)))"
  using assms(2,3)
proof (induction arbitrary: nd k rule: path_leads.induct)
  case (here i nd')
  then show ?case by simp
next
  case (there i d n j ns l)
  then obtain c where c: "t j = Some c"
    using path_leads_start by blast
  have "get_dentry_by_name d n = Done (Some (j, n))"
    using assms(1) there.hyps by (simp add: fs_ok_def lookup_by_name)
  then show ?case
    using there.IH [OF c, of "Suc k"] there.prems there.hyps(1) c by auto
qed

text \<open>
  C29: The resolution of a path never finds a file: \<open>find_inode_with_path\<close> succeeds for the empty
  path only, whatever the tree. In a tree with consistent directories a path
  that does lead to a node is answered with \<open>InvalidPath\<close> of its own length, because the error
  behind the loop is what a fully resolved path runs into.
\<close>

theorem find_never_succeeds:
  assumes "fs_ok t"
  shows "(\<forall>x. find_inode_with_path t r (n # ns) \<noteq> Done (Inr x))
    \<and> (path_leads t r (n # ns) j \<longrightarrow>
       find_inode_with_path t r (n # ns) = Done (Inl (InvalidPath (Suc (length ns)))))"
proof (intro conjI allI impI)
  show "find_inode_with_path t r (n # ns) \<noteq> Done (Inr x)" for x
    by (simp add: find_inode_with_path_def find_loop_never_ok del: find_loop.simps split: option.split)
  assume p: "path_leads t r (n # ns) j"
  then obtain nd where "t r = Some nd"
    using path_leads_start by blast
  then show "find_inode_with_path t r (n # ns) = Done (Inl (InvalidPath (Suc (length ns))))"
    using find_loop_error [OF assms p, of nd 0]
    by (simp add: find_inode_with_path_def del: find_loop.simps)
qed

definition vfs_example :: fs_tree where
  "vfs_example =
     [0 \<mapsto> LocalDir (root_dir\<lparr>dn_name_id := [[97] \<mapsto> 1], dn_id_name := [1 \<mapsto> [97]]\<rparr>),
      1 \<mapsto> LocalFile (node_base_new 1 0 [97])]"

theorem find_never_succeeds_witness:
  "path_leads vfs_example 0 [[97]] 1
   \<and> find_inode_with_path vfs_example 0 [[97]] = Done (Inl (InvalidPath 1))"
proof -
  have "fs_ok vfs_example"
    by (auto simp: fs_ok_def vfs_example_def dir_ok_def root_dir_def dir_node_new_def)
  moreover have p: "path_leads vfs_example 0 [[97]] 1"
    by (rule path_leads.there [where j = 1])
      (auto simp: vfs_example_def intro!: path_leads.here)
  ultimately show ?thesis
    using find_never_succeeds [of vfs_example 0 "[97]" "[]" 1] by simp
qed

end
