(* ===== verification/Circ_Pipeline.thy ===== *)
theory Circ_Pipeline
  imports Circ_Wake
begin

text \<open>
  The pipeline of a circular buffer between two active ends (\<open>core_.rs\<close>: \<open>pipe_input_once\<close>,
  \<open>pipe_output_once\<close>, \<open>park_producer\<close>, \<open>park_consumer\<close>, \<open>ActiveParkGuard\<close>; \<open>spsc_.rs\<close>:
  \<open>pipeline_piping_async_\<close>), one poll of its future at a time. The future is the only one that touches
  the buffer; the two devices are parameters as in \<open>Segm_Io\<close>.
\<close>

section \<open>The future\<close>

text \<open>
  Where the future is: at the head of its loop, in a read of the input device into a region, between
  the two pumps, in a write of a region to the output device (with the count of the read before), at
  the end of a round with both counts, in the wait of either park, or in \<open>core::future::pending\<close>.
\<close>

datatype pipe_at =
    AtTop
  | AtRead usize usize
  | AtOutput usize
  | AtWrite usize usize usize
  | AtRoundEnd usize usize
  | AtParkTx
  | AtParkRx
  | AtForever

type_synonym ('a, 'i, 'o) pipe_next =
  "unit poll \<times> pipe_at \<times> ('a, 'i, 'o) circ + pipe_at \<times> ('a, 'i, 'o) circ"

text \<open>The physically contiguous region the next read of the input (write to the output) gets.\<close>

definition pipe_input_region :: "('a, 'i, 'o) circ \<Rightarrow> (usize \<times> usize) option" where
  "pipe_input_region c =
     (if circ_tx_closed c \<or> circ_rx_closed c then None
      else
        (let pos = circ_pos c; free = iopos_free_size pos
         in if free = 0 then None else Some (pos_wp pos, min free (circ_capacity c - pos_wp pos))))"

definition pipe_output_region :: "('a, 'i, 'o) circ \<Rightarrow> (usize \<times> usize) option" where
  "pipe_output_region c =
     (if circ_rx_closed c then None
      else
        (let pos = circ_pos c; ready = iopos_data_size pos
         in if ready = 0 then None else Some (pos_rp pos, min ready (circ_capacity c - pos_rp pos))))"

text \<open>
  The rest of \<open>pipe_input_once\<close> once the device is polled: the count it moved, or \<open>Inl\<close> when it is not
  ready. \<open>None\<close> is an end that has no device, which the types of the source exclude.
\<close>

definition pipe_input_poll ::
    "('a, 'e, 'i) input_dev \<Rightarrow> ('a, 'f, 'o) output_dev \<Rightarrow> nat \<Rightarrow> usize \<Rightarrow> usize \<Rightarrow> ('a, 'i, 'o) circ
     \<Rightarrow> (('a, 'i, 'o) circ + usize \<times> ('a, 'i, 'o) circ) option" where
  "pipe_input_poll rd wr k start tk c =
     (case cprod c of
        BufProducer d w \<Rightarrow> None
      | DevProducer i w \<Rightarrow>
          (case rd i (unat tk) of
             (None, i') \<Rightarrow> Some (Inl (c\<lparr>cprod := DevProducer i' w\<rparr>))
           | (Some x, i') \<Rightarrow>
               (let xs = items_of (Some x); n = of_nat (length xs);
                    c1 = c\<lparr>cbuf := mem_write (cbuf c) (unat start) (map Some xs),
                           cprod := DevProducer i' w\<rparr>
                in if n = 0 then Some (Inr (0, c1))
                   else map_option (\<lambda>c2. Inr (n, c2)) (circ_advance_write rd wr k n c1))))"

definition pipe_output_poll ::
    "('a, 'e, 'i) input_dev \<Rightarrow> ('a, 'f, 'o) output_dev \<Rightarrow> nat \<Rightarrow> usize \<Rightarrow> usize \<Rightarrow> ('a, 'i, 'o) circ
     \<Rightarrow> (('a, 'i, 'o) circ + usize \<times> ('a, 'i, 'o) circ) option" where
  "pipe_output_poll rd wr k start tk c =
     (case ccons c of
        BufConsumer d w \<Rightarrow> None
      | DevConsumer p w \<Rightarrow>
          (case wr p (mem_read (cbuf c) (unat start) (unat tk)) of
             (None, p') \<Rightarrow> Some (Inl (c\<lparr>ccons := DevConsumer p' w\<rparr>))
           | (Some x, p') \<Rightarrow>
               (let n = of_nat (count_of (Some x)); c1 = c\<lparr>ccons := DevConsumer p' w\<rparr>
                in if n = 0 then Some (Inr (0, c1))
                   else map_option (\<lambda>c2. Inr (n, c2)) (circ_advance_read rd wr k n c1))))"

text \<open>
  One poll of \<open>park_producer\<close> (\<open>park_consumer\<close>) after it has armed the flag: enter the slot, then check.
  When the wait is over the guard leaves the slot and disarms. \<open>None\<close> is a spin on an occupied slot.
\<close>

definition park_producer_poll ::
    "wid \<Rightarrow> waker \<Rightarrow> ('a, 'i, 'o) circ \<Rightarrow> (bool \<times> ('a, 'i, 'o) circ) option" where
  "park_producer_poll w kk c =
     (case wakeslot_register w (producer_slot (cprod c)) of
        None \<Rightarrow> None
      | Some sl \<Rightarrow>
          (let c1 = c\<lparr>cwaiters := (cwaiters c)(w := Some kk), cprod := producer_set_slot sl (cprod c)\<rparr>
           in if lends (circ_try_write_at c1 (AtLeast 1)) \<or> circ_tx_closed c1 \<or> circ_rx_closed c1 then
                Some (True, unset_tx_standby
                  (c1\<lparr>cprod := producer_set_slot (wakeslot_deregister w (producer_slot (cprod c1))) (cprod c1)\<rparr>))
              else Some (False, c1)))"

definition park_consumer_poll ::
    "wid \<Rightarrow> waker \<Rightarrow> ('a, 'i, 'o) circ \<Rightarrow> (bool \<times> ('a, 'i, 'o) circ) option" where
  "park_consumer_poll w kk c =
     (case wakeslot_register w (consumer_slot (ccons c)) of
        None \<Rightarrow> None
      | Some sl \<Rightarrow>
          (let c1 = c\<lparr>cwaiters := (cwaiters c)(w := Some kk), ccons := consumer_set_slot sl (ccons c)\<rparr>
           in if lends (circ_try_read_at c1 (AtLeast 1)) \<or> circ_tx_closed c1 \<or> circ_rx_closed c1 then
                Some (True, unset_rx_standby
                  (c1\<lparr>ccons := consumer_set_slot (wakeslot_deregister w (consumer_slot (ccons c1))) (ccons c1)\<rparr>))
              else Some (False, c1)))"

text \<open>
  The pieces of \<open>pipeline_piping_async_\<close> between two awaits or branches: a piece ends the poll (\<open>Inl\<close>) or
  goes on (\<open>Inr\<close>). \<open>cancelled\<close> is what the token says during the poll.
\<close>

definition pipe_top :: "bool \<Rightarrow> ('a, 'i, 'o) circ \<Rightarrow> ('a, 'i, 'o) pipe_next" where
  "pipe_top cancelled c =
     (if cancelled \<or> circ_tx_closed c \<and> circ_rx_closed c then Inl (Ready (), AtTop, c)
      else Inr (case pipe_input_region c of None \<Rightarrow> AtOutput 0 | Some (start, tk) \<Rightarrow> AtRead start tk, c))"

definition pipe_output :: "usize \<Rightarrow> ('a, 'i, 'o) circ \<Rightarrow> ('a, 'i, 'o) pipe_next" where
  "pipe_output m c =
     Inr (case pipe_output_region c of None \<Rightarrow> AtRoundEnd m 0 | Some (start, tk) \<Rightarrow> AtWrite m start tk, c)"

definition pipe_round_end :: "usize \<Rightarrow> usize \<Rightarrow> ('a, 'i, 'o) circ \<Rightarrow> ('a, 'i, 'o) pipe_next" where
  "pipe_round_end m n c =
     (if m = 0 \<and> n = 0 then
        (if circ_tx_closed c \<and> circ_data_size c = 0 then Inl (Ready (), AtTop, c)
         else if circ_free_size c = 0 then Inr (AtParkTx, set_tx_standby c)
         else if circ_data_size c = 0 then Inr (AtParkRx, set_rx_standby c)
         else Inr (AtForever, c))
      else Inr (AtTop, c))"

definition pipe_step ::
    "('a, 'e, 'i) input_dev \<Rightarrow> ('a, 'f, 'o) output_dev \<Rightarrow> nat \<Rightarrow> bool \<Rightarrow> wid \<Rightarrow> waker \<Rightarrow> pipe_at
     \<Rightarrow> ('a, 'i, 'o) circ \<Rightarrow> ('a, 'i, 'o) pipe_next option" where
  "pipe_step rd wr k cancelled w kk st c =
     (case st of
        AtTop \<Rightarrow> Some (pipe_top cancelled c)
      | AtRead start tk \<Rightarrow>
          map_option (case_sum (\<lambda>c1. Inl (Pending, st, c1)) (\<lambda>(n, c1). Inr (AtOutput n, c1)))
            (pipe_input_poll rd wr k start tk c)
      | AtOutput m \<Rightarrow> Some (pipe_output m c)
      | AtWrite m start tk \<Rightarrow>
          map_option (case_sum (\<lambda>c1. Inl (Pending, st, c1)) (\<lambda>(n, c1). Inr (AtRoundEnd m n, c1)))
            (pipe_output_poll rd wr k start tk c)
      | AtRoundEnd m n \<Rightarrow> Some (pipe_round_end m n c)
      | AtParkTx \<Rightarrow>
          map_option (\<lambda>(ready, c1). if ready then Inr (AtTop, c1) else Inl (Pending, st, c1))
            (park_producer_poll w kk c)
      | AtParkRx \<Rightarrow>
          map_option (\<lambda>(ready, c1). if ready then Inr (AtTop, c1) else Inl (Pending, st, c1))
            (park_consumer_poll w kk c)
      | AtForever \<Rightarrow> Some (Inl (Pending, st, c)))"

text \<open>
  A poll of a future runs its pieces until one ends the poll; a future is polled until it is ready. The
  fuel bounds the pieces of a poll.
\<close>

primrec run_steps :: "('s \<Rightarrow> ('r + 's) option) \<Rightarrow> nat \<Rightarrow> 's \<Rightarrow> 'r option" where
  "run_steps step 0 s = None"
| "run_steps step (Suc f) s =
     (case step s of None \<Rightarrow> None | Some (Inl r) \<Rightarrow> Some r | Some (Inr s') \<Rightarrow> run_steps step f s')"

primrec run_polls ::
    "('x \<Rightarrow> 's \<Rightarrow> ('v poll \<times> 's) option) \<Rightarrow> 'x list \<Rightarrow> 's \<Rightarrow> ('v poll \<times> 's) option" where
  "run_polls poll [] s = Some (Pending, s)"
| "run_polls poll (x # xs) s =
     (case poll x s of
        None \<Rightarrow> None
      | Some (r, s') \<Rightarrow> if r = Pending then run_polls poll xs s' else Some (r, s'))"

definition pipe_poll ::
    "('a, 'e, 'i) input_dev \<Rightarrow> ('a, 'f, 'o) output_dev \<Rightarrow> nat \<Rightarrow> bool \<Rightarrow> wid \<Rightarrow> waker \<Rightarrow> nat \<Rightarrow> pipe_at
     \<Rightarrow> ('a, 'i, 'o) circ \<Rightarrow> (unit poll \<times> pipe_at \<times> ('a, 'i, 'o) circ) option" where
  "pipe_poll rd wr k cancelled w kk j st c =
     run_steps (\<lambda>(st, c). pipe_step rd wr k cancelled w kk st c) j (st, c)"

text \<open>
  A sequence of polls, each with what the token says and the waker of its task; the flag says whether the
  future has ended.
\<close>

definition pipe_polls ::
    "('a, 'e, 'i) input_dev \<Rightarrow> ('a, 'f, 'o) output_dev \<Rightarrow> nat \<Rightarrow> wid \<Rightarrow> nat \<Rightarrow> (bool \<times> waker) list \<Rightarrow> pipe_at
     \<Rightarrow> ('a, 'i, 'o) circ \<Rightarrow> (bool \<times> pipe_at \<times> ('a, 'i, 'o) circ) option" where
  "pipe_polls rd wr k w j polls st c =
     map_option (\<lambda>(r, s). (r \<noteq> Pending, s))
       (run_polls (\<lambda>x (st, c). pipe_poll rd wr k (fst x) w (snd x) j st c) polls (st, c))"

lemma pipe_poll_simps [simp]:
  "pipe_poll rd wr k cancelled w kk 0 st c = None"
  "pipe_poll rd wr k cancelled w kk (Suc j) st c =
     (case pipe_step rd wr k cancelled w kk st c of
        None \<Rightarrow> None
      | Some (Inl r) \<Rightarrow> Some r
      | Some (Inr (st', c')) \<Rightarrow> pipe_poll rd wr k cancelled w kk j st' c')"
  by (simp_all add: pipe_poll_def split: option.splits sum.splits prod.splits)

lemma pipe_polls_simps [simp]:
  "pipe_polls rd wr k w j [] st c = Some (False, st, c)"
  "pipe_polls rd wr k w j (x # xs) st c =
     (case pipe_poll rd wr k (fst x) w (snd x) j st c of
        None \<Rightarrow> None
      | Some (r, st', c') \<Rightarrow>
          if r = Pending then pipe_polls rd wr k w j xs st' c' else Some (True, st', c'))"
  by (simp_all add: pipe_polls_def split: option.splits prod.splits)

text \<open>
  A poll returns when every piece either ends it or keeps what holds and gets nearer to the end, and what
  a pending poll leaves is where the next one starts.
\<close>

lemma run_steps_return:
  assumes "\<And>s. I s \<Longrightarrow> \<exists>x. step s = Some x
      \<and> (case x of Inl r \<Rightarrow> Q r | Inr s' \<Rightarrow> I s' \<and> rank s' < (rank s :: nat))"
  shows "I s \<Longrightarrow> rank s < f \<Longrightarrow> \<exists>r. run_steps step f s = Some r \<and> Q r"
proof (induction f arbitrary: s)
  case (Suc f)
  then show ?case
    using assms [OF Suc.prems(1)] by (fastforce split: sum.splits)
qed simp

lemma run_polls_return:
  assumes "\<And>x s. x \<in> set xs \<Longrightarrow> I s \<Longrightarrow>
      \<exists>r s'. poll x s = Some (r, s') \<and> (if r = Pending then I s' else Q r s')"
  shows "I s \<Longrightarrow> \<exists>r s'. run_polls poll xs s = Some (r, s') \<and> (if r = Pending then I s' else Q r s')"
  using assms
proof (induction xs arbitrary: s)
  case (Cons x xs)
  obtain r s' where r: "poll x s = Some (r, s')" "if r = Pending then I s' else Q r s'"
    using Cons.prems(2) [OF _ Cons.prems(1), of x] by auto
  then show ?case
    using Cons.IH [of s'] Cons.prems(2) by (cases "r = Pending") auto
qed simp

section \<open>Flags and slots\<close>

lemma fire_closed [simp]:
  "circ_tx_closed (fire_producer ev c) = circ_tx_closed c" "circ_rx_closed (fire_producer ev c) = circ_rx_closed c"
  "circ_tx_closed (fire_consumer ev' c) = circ_tx_closed c" "circ_rx_closed (fire_consumer ev' c) = circ_rx_closed c"
  by (simp_all add: circ_tx_closed_def circ_rx_closed_def)

lemma not_passive:
  "\<not> producer_passive p \<longleftrightarrow> (\<exists>i w. p = DevProducer i w)"
  "\<not> consumer_passive q \<longleftrightarrow> (\<exists>j w. q = DevConsumer j w)"
  by (cases p; simp) (cases q; simp)

text \<open>The slots hold the future's waiter or nothing; a signal only empties them.\<close>

definition slots_free :: "wid \<Rightarrow> ('a, 'i, 'o) circ \<Rightarrow> bool" where
  "slots_free w c = (producer_slot (cprod c) \<in> {None, Some w} \<and> consumer_slot (ccons c) \<in> {None, Some w})"

lemma check_slots:
  "producer_slot (fst (snd (producer_check ws p ev))) \<in> {None, producer_slot p}"
  "consumer_slot (fst (snd (consumer_check ws q ev'))) \<in> {None, consumer_slot q}"
  by (cases "(ws, p, ev)" rule: producer_check.cases; auto split: option.splits producer_event.splits)
    (cases "(ws, q, ev')" rule: consumer_check.cases; auto split: option.splits consumer_event.splits)

lemma fire_slots [simp]:
  assumes "slots_free w c"
  shows "slots_free w (fire_producer ev c)" "slots_free w (fire_consumer ev' c)"
  using assms check_slots(1) [of "cwaiters c" "cprod c" ev] check_slots(2) [of "cwaiters c" "ccons c" ev']
  by (auto simp: slots_free_def fire_producer_def fire_consumer_def split: prod.splits)

section \<open>What holds between the pieces\<close>

text \<open>The buffer is open, its ends are active, and the streams agree.\<close>

definition pipe_core ::
    "('i \<Rightarrow> 'a list) \<Rightarrow> ('o \<Rightarrow> 'a option list) \<Rightarrow> wid \<Rightarrow> ('a, 'i, 'o) circ \<Rightarrow> bool" where
  "pipe_core given taken w c =
     (streams given taken [] [] c \<and> \<not> producer_passive (cprod c) \<and> \<not> consumer_passive (ccons c)
      \<and> \<not> circ_tx_closed c \<and> \<not> circ_rx_closed c \<and> slots_free w c)"

text \<open>A region being filled is the front of the free space, a region being emptied the oldest data; parks are for a reason.\<close>

fun pipe_loc :: "pipe_at \<Rightarrow> ('a, 'i, 'o) circ \<Rightarrow> bool" where
  "pipe_loc (AtRead s tk) c =
     (s = pos_wp (circ_pos c) \<and> unat tk \<le> circ_free c \<and> unat s + unat tk \<le> length (cbuf c))"
| "pipe_loc (AtWrite m s tk) c =
     (s = pos_rp (circ_pos c) \<and> unat tk \<le> circ_data c \<and> unat s + unat tk \<le> length (cbuf c))"
| "pipe_loc AtParkTx c = (circ_free c = 0)"
| "pipe_loc AtParkRx c = (circ_data c = 0)"
| "pipe_loc st c = True"

lemma pipe_input_region:
  assumes "circ_ok c" "pipe_input_region c = Some (s, tk)"
  shows "pipe_loc (AtRead s tk) c"
proof -
  note z = circ_sizes(3) [OF assms(1)] circ_ok_cap(1) [OF assms(1)]
  have s: "s = pos_wp (circ_pos c)" "tk = min (iopos_free_size (circ_pos c)) (circ_capacity c - s)"
    using assms(2) by (auto simp: pipe_input_region_def Let_def split: if_splits)
  have "s \<le> circ_capacity c"
    using z s(1) by (simp add: word_le_nat_alt)
  then have "unat (circ_capacity c - s) = length (cbuf c) - unat s"
    using z(2) by (simp add: unat_sub)
  then show ?thesis
    using s z by (simp add: unat_min circ_free_def circ_free_size_def)
qed

lemma pipe_output_region:
  assumes "circ_ok c" "pipe_output_region c = Some (s, tk)"
  shows "pipe_loc (AtWrite m s tk) c"
proof -
  note z = circ_sizes(2) [OF assms(1)] circ_ok_cap(1) [OF assms(1)]
  have s: "s = pos_rp (circ_pos c)" "tk = min (iopos_data_size (circ_pos c)) (circ_capacity c - s)"
    using assms(2) by (auto simp: pipe_output_region_def Let_def split: if_splits)
  have "s \<le> circ_capacity c"
    using z s(1) by (simp add: word_le_nat_alt)
  then have "unat (circ_capacity c - s) = length (cbuf c) - unat s"
    using z(2) by (simp add: unat_sub)
  then show ?thesis
    using s z by (simp add: unat_min circ_data_def circ_data_size_def)
qed

lemma write_commit_closed:
  assumes "circ_ok c" "unat n \<le> circ_free c" "c' = update_pos (circ_write_word (circ_capacity c) n) c"
  shows "circ_tx_closed c' = circ_tx_closed c" "circ_rx_closed c' = circ_rx_closed c"
  using flags_of_word [OF write_commit_flags [OF assms(1,2)]]
  by (simp_all add: circ_tx_closed_def circ_rx_closed_def assms(3))

lemma read_commit_closed:
  assumes "circ_ok c" "unat n \<le> circ_data c" "c' = update_pos (circ_read_word (circ_capacity c) n) c"
  shows "circ_tx_closed c' = circ_tx_closed c" "circ_rx_closed c' = circ_rx_closed c"
  using flags_of_word [OF read_commit_flags [OF assms(1,2)]]
  by (simp_all add: circ_tx_closed_def circ_rx_closed_def assms(3))

lemma update_pos_slots [simp]: "slots_free w (update_pos f c) = slots_free w c"
  by (simp add: slots_free_def)

text \<open>A read of the device: nothing but the device changes, or what it handed out is behind the queue.\<close>

lemma pipe_input_poll_spec:
  assumes "pipe_core given taken w c" "pipe_loc (AtRead s tk) c" "input_ok rd given" "2 \<le> k"
  obtains c1 where "pipe_input_poll rd wr k s tk c = Some (Inl c1)" "pipe_core given taken w c1"
      "pipe_loc (AtRead s tk) c1" "cbuf c1 = cbuf c" "ccons c1 = ccons c" "cstat c1 = cstat c"
      "in_stream given [] c1 = in_stream given [] c"
  | n c1 xs where "pipe_input_poll rd wr k s tk c = Some (Inr (n, c1))" "pipe_core given taken w c1"
      "unat n = length xs" "in_stream given [] c1 = in_stream given [] c @ xs"
      "circ_data c1 = circ_data c + length xs" "length (cbuf c1) = length (cbuf c)"
proof -
  from assms(1) have ok: "circ_ok c" and st: "map Some (in_stream given [] c) = out_stream taken [] c @ circ_queue c"
    and act: "\<not> producer_passive (cprod c)" "\<not> consumer_passive (ccons c)"
    and op: "\<not> circ_tx_closed c" "\<not> circ_rx_closed c" and sl: "slots_free w c"
    by (simp_all add: pipe_core_def streams_def)
  from assms(2) have s: "s = pos_wp (circ_pos c)" "unat tk \<le> circ_free c" "unat s + unat tk \<le> length (cbuf c)"
    unfolding pipe_loc.simps by blast+
  obtain i v where p: "cprod c = DevProducer i v"
    using act(1) by (auto simp: not_passive)
  obtain x i' where rd: "rd i (unat tk) = (x, i')"
    by fastforce
  have gv: "length (items_of x) \<le> unat tk" "given i' = given i @ items_of x"
    using assms(3) rd by (auto simp: input_ok_def split: prod.splits dest: spec2 [where x = i and y = "unat tk"])
  show thesis
  proof (cases x)
    case None
    let ?c1 = "c\<lparr>cprod := DevProducer i' v\<rparr>"
    have "in_stream given [] ?c1 = in_stream given [] c" "out_stream taken [] ?c1 = out_stream taken [] c"
      using None gv(2) by (simp_all add: in_stream_def out_stream_def p items_of_def)
    moreover have "circ_ok ?c1 = circ_ok c" "circ_queue ?c1 = circ_queue c" "circ_free ?c1 = circ_free c"
      "circ_tx_closed ?c1 = circ_tx_closed c" "circ_rx_closed ?c1 = circ_rx_closed c"
      by (simp_all add: circ_cong(1) [of ?c1 c] circ_cong(4) [of ?c1 c] circ_cong(3) [of ?c1 c])
    moreover have "slots_free w ?c1"
      using sl by (simp add: slots_free_def p)
    ultimately have core: "pipe_core given taken w ?c1" and i1: "in_stream given [] ?c1 = in_stream given [] c"
      and loc: "pipe_loc (AtRead s tk) ?c1"
      using ok st act op s by (simp_all add: pipe_core_def streams_def)
    show thesis
      by (rule that(1) [OF _ core loc _ _ _ i1]) (simp_all add: pipe_input_poll_def p rd None)
  next
    case (Some y)
    let ?xs = "items_of x" and ?L = "length (cbuf c)"
    let ?m = "mem_write (cbuf c) (unat s) (map Some ?xs)"
    let ?c2 = "c\<lparr>cbuf := ?m, cprod := DevProducer i' v\<rparr>"
    have lx: "length ?xs \<le> circ_free c" "unat s + length ?xs \<le> ?L"
      using gv(1) s by linarith+
    have m: "?m = mem_put (cbuf c) (ring_addrs ?L (circ_wp c) (length ?xs)) (map Some ?xs)"
      using lx(2) mem_write_put [of "unat s" "map Some ?xs" "cbuf c"]
      by (simp add: ring_addrs_linear s(1))
    have "?L < 2 ^ 64"
      using ok by (auto simp: circ_ok_def intro: less_trans)
    then have un: "unat (of_nat (length ?xs) :: usize) = length ?xs"
      using lx(2) by (simp add: unat_of_nat)
    show thesis
    proof (cases "?xs = []")
      case True
      have i0: "in_stream given [] ?c2 = in_stream given [] c" "out_stream taken [] ?c2 = out_stream taken [] c"
        using True gv(2) by (simp_all add: in_stream_def out_stream_def p)
      have mm: "?m = cbuf c"
        by (simp add: True mem_write_def)
      have "pipe_core given taken w ?c2"
        using i0 ok st act op sl circ_cong(1,4) [of ?c2 c] mm
        by (simp add: pipe_core_def streams_def slots_free_def p circ_tx_closed_def circ_rx_closed_def)
      moreover have "circ_data ?c2 = circ_data c"
        by (rule circ_cong) (simp_all add: mm)
      moreover have "pipe_input_poll rd wr k s tk c = Some (Inr (0, ?c2))"
        using True by (simp add: pipe_input_poll_def p Let_def rd Some)
      moreover have "length (cbuf ?c2) = ?L"
        by (simp add: mm)
      ultimately show thesis
        using i0(1) by (intro that(2) [of 0 ?c2 "[]"]) (simp_all only: list.size append_Nil2 unat_0 add_0_right)
    next
      case False
      have nz: "(of_nat (length ?xs) :: usize) \<noteq> 0"
        using un False by (metis length_0_conv unat_0)
      let ?c3 = "update_pos (circ_write_word (circ_capacity ?c2) (of_nat (length ?xs))) ?c2"
      have a2: "\<not> producer_passive (cprod ?c2)" "\<not> consumer_passive (ccons ?c2)"
        using act by simp_all
      obtain k' where k: "k = Suc (Suc k')"
        using assms(4) by (metis add_2_eq_Suc le_Suc_ex)
      obtain ev where adv: "circ_advance_write rd wr k (of_nat (length ?xs)) ?c2 = Some (fire_consumer ev ?c3)"
        unfolding k by (rule advance_write_quiet [OF disjI2 [OF a2(1)], where rd = rd and wr = wr and k = k'])
      note pc = put_commit [OF ok lx(1) m, of ?c2 ?c3, OF _ _ refl]
      have q: "circ_ok ?c3" "circ_queue ?c3 = circ_queue c @ map Some ?xs" "length (cbuf ?c3) = ?L"
        using pc by simp_all
      have lm: "length ?m = ?L"
        using lx(2) by simp
      have ok2: "circ_ok ?c2" "circ_free ?c2 = circ_free c"
        using circ_put_frame [OF lm] ok circ_cong(1,3) [of ?c2 "c\<lparr>cbuf := ?m\<rparr>"] by simp_all
      have cl: "circ_tx_closed ?c3 = circ_tx_closed c" "circ_rx_closed ?c3 = circ_rx_closed c"
        using write_commit_closed [OF ok2(1) _ refl, of "of_nat (length ?xs)"] un lx(1) ok2(2)
        by (simp_all add: circ_tx_closed_def circ_rx_closed_def)
      have i3: "in_stream given [] ?c3 = in_stream given [] c @ ?xs" "out_stream taken [] ?c3 = out_stream taken [] c"
        using gv(2) by (simp_all add: in_stream_def out_stream_def p)
      have "slots_free w ?c3"
        using sl by (simp add: slots_free_def p)
      then have "pipe_core given taken w (fire_consumer ev ?c3)"
        using q i3 cl st act op by (simp add: pipe_core_def streams_def)
      moreover have "circ_data ?c3 = circ_data c + length ?xs"
        using q(2) by (metis circ_queue_length length_append length_map)
      moreover have "pipe_input_poll rd wr k s tk c = Some (Inr (of_nat (length ?xs), fire_consumer ev ?c3))"
        using adv nz by (simp add: pipe_input_poll_def p Let_def rd Some)
      moreover have "in_stream given [] (fire_consumer ev ?c3) = in_stream given [] c @ ?xs"
        "circ_data (fire_consumer ev ?c3) = circ_data c + length ?xs"
        "length (cbuf (fire_consumer ev ?c3)) = ?L"
        using i3(1) q(3) calculation(2) by simp_all
      ultimately show thesis
        using un by (intro that(2) [of "of_nat (length ?xs)" "fire_consumer ev ?c3" ?xs])
    qed
  qed
qed

text \<open>A write to the device: nothing but the device changes, or what it took was the oldest data.\<close>

lemma pipe_output_poll_spec:
  assumes "pipe_core given taken w c" "pipe_loc (AtWrite m s tk) c" "output_ok wr taken" "2 \<le> k"
  obtains c1 where "pipe_output_poll rd wr k s tk c = Some (Inl c1)" "pipe_core given taken w c1"
      "pipe_loc (AtWrite m s tk) c1" "cbuf c1 = cbuf c" "cprod c1 = cprod c" "cstat c1 = cstat c"
      "in_stream given [] c1 = in_stream given [] c"
  | n c1 where "pipe_output_poll rd wr k s tk c = Some (Inr (n, c1))" "pipe_core given taken w c1"
      "in_stream given [] c1 = in_stream given [] c"
      "circ_data c1 + unat n = circ_data c" "length (cbuf c1) = length (cbuf c)"
proof -
  from assms(1) have ok: "circ_ok c" and st: "map Some (in_stream given [] c) = out_stream taken [] c @ circ_queue c"
    and act: "\<not> producer_passive (cprod c)" "\<not> consumer_passive (ccons c)"
    and op: "\<not> circ_tx_closed c" "\<not> circ_rx_closed c" and sl: "slots_free w c"
    by (simp_all add: pipe_core_def streams_def)
  from assms(2) have s: "s = pos_rp (circ_pos c)" "unat tk \<le> circ_data c" "unat s + unat tk \<le> length (cbuf c)"
    unfolding pipe_loc.simps by blast+
  obtain p v where q: "ccons c = DevConsumer p v"
    using act(2) by (auto simp: not_passive)
  let ?cs = "mem_read (cbuf c) (unat s) (unat tk)" and ?L = "length (cbuf c)"
  obtain x p' where wr: "wr p ?cs = (x, p')"
    by fastforce
  let ?n = "count_of x"
  have tk: "?n \<le> unat tk" "taken p' = taken p @ take ?n ?cs"
    using assms(3) wr s(3)
    by (auto simp: output_ok_def split: prod.splits dest: spec2 [where x = p and y = ?cs])
  have "?cs = mem_get (cbuf c) (ring_addrs ?L (circ_rp c) (unat tk))"
    using mem_read_get [OF s(3)] s(1,3) by (simp add: ring_addrs_linear)
  also have "\<dots> = take (unat tk) (circ_queue c)"
    using s(2) by (simp add: circ_queue_def take_mem_get take_ring_addrs)
  finally have cells: "take ?n ?cs = take ?n (circ_queue c)"
    using tk(1) by (simp add: min_absorb1)
  let ?c1 = "c\<lparr>ccons := DevConsumer p' v\<rparr>"
  have out: "out_stream taken [] ?c1 = out_stream taken [] c @ take ?n (circ_queue c)"
    "in_stream given [] ?c1 = in_stream given [] c"
    using tk(2) cells by (simp_all add: out_stream_def in_stream_def q)
  have same: "circ_ok ?c1" "circ_queue ?c1 = circ_queue c" "circ_data ?c1 = circ_data c"
    using ok by (simp_all add: circ_cong(1) [of ?c1 c] circ_cong(4) [of ?c1 c] circ_cong(2) [of ?c1 c])
  have sl1: "slots_free w ?c1"
    using sl by (simp add: slots_free_def q)
  have none: "pipe_core given taken w ?c1" if "?n = 0"
    using that out same st act op sl1 by (simp add: pipe_core_def streams_def)
  show thesis
  proof (cases x)
    case None
    have core: "pipe_core given taken w ?c1"
      by (rule none) (simp add: None count_of_def)
    have loc: "pipe_loc (AtWrite m s tk) ?c1"
      using s same(3) by simp
    show thesis
      by (rule that(1) [OF _ core loc _ _ _ out(2)]) (simp_all add: pipe_output_poll_def q wr None)
  next
    case (Some y)
    have "?L < 2 ^ 64"
      using ok by (auto simp: circ_ok_def intro: less_trans)
    then have un: "unat (of_nat ?n :: usize) = ?n"
      using tk(1) s by (simp add: unat_of_nat)
    show thesis
    proof (cases "?n = 0")
      case True
      have "pipe_output_poll rd wr k s tk c = Some (Inr (0, ?c1))"
        using True by (simp add: pipe_output_poll_def q Let_def wr Some)
      then show thesis
        using that(2) [of 0 ?c1] none [OF True] out(2) same(3) by simp
    next
      case False
      have nz: "(of_nat ?n :: usize) \<noteq> 0"
        using un False by (metis unat_0)
      let ?c2 = "update_pos (circ_read_word (circ_capacity ?c1) (of_nat ?n)) ?c1"
      have a1: "\<not> producer_passive (cprod ?c1)" "\<not> consumer_passive (ccons ?c1)"
        using act by simp_all
      obtain k' where k: "k = Suc (Suc k')"
        using assms(4) by (metis add_2_eq_Suc le_Suc_ex)
      obtain ev where adv: "circ_advance_read rd wr k (of_nat ?n) ?c1 = Some (fire_producer ev ?c2)"
        unfolding k by (rule advance_read_quiet [OF disjI2 [OF a1(2)], where rd = rd and wr = wr and k = k'])
      have le: "unat (of_nat ?n :: usize) \<le> circ_data ?c1"
        using un tk(1) s(2) same(3) by simp
      note cr = commit_read [OF same(1) le refl]
      note cl = read_commit_closed [OF same(1) le refl]
      have "out_stream taken [] ?c2 = out_stream taken [] c @ take ?n (circ_queue c)"
        "in_stream given [] ?c2 = in_stream given [] c"
        using out by simp_all
      then have "streams given taken [] [] ?c2"
        using cr(1,4) st same(2) un by (simp add: streams_def)
      then have "pipe_core given taken w (fire_producer ev ?c2)"
        using cl act op sl1 by (simp add: pipe_core_def)
      moreover have "pipe_output_poll rd wr k s tk c = Some (Inr (of_nat ?n, fire_producer ev ?c2))"
        using adv nz by (simp add: pipe_output_poll_def q Let_def wr Some)
      moreover have "circ_data (fire_producer ev ?c2) + unat (of_nat ?n :: usize) = circ_data c"
        using cr(2) le same(3) by simp
      moreover have "in_stream given [] (fire_producer ev ?c2) = in_stream given [] c"
        "length (cbuf (fire_producer ev ?c2)) = ?L"
        using out(2) by simp_all
      ultimately show thesis
        by (intro that(2) [of "of_nat ?n" "fire_producer ev ?c2"])
    qed
  qed
qed

section \<open>Progress\<close>

lemma pos_cong:
  assumes "circ_pos c' = circ_pos c" "cbuf c' = cbuf c"
  shows "circ_ok c' = circ_ok c" "circ_data c' = circ_data c" "circ_free c' = circ_free c"
    "circ_queue c' = circ_queue c"
  using assms
  by (simp_all add: circ_ok_def circ_data_def circ_free_def circ_queue_def circ_data_size_def circ_free_size_def)

lemma set_slot_streams [simp]:
  "in_stream given snt (c\<lparr>cprod := producer_set_slot sl (cprod c)\<rparr>) = in_stream given snt c"
  "out_stream taken rc (c\<lparr>ccons := consumer_set_slot sl (ccons c)\<rparr>) = out_stream taken rc c"
  by (cases "cprod c"; simp add: in_stream_def) (cases "ccons c"; simp add: out_stream_def)

lemma set_slot_slot [simp]:
  "producer_slot (producer_set_slot sl p) = sl" "consumer_slot (consumer_set_slot sl q) = sl"
  by (cases p; simp) (cases q; simp)

lemma end_streams [simp]:
  "in_stream given snt (c\<lparr>ccons := q\<rparr>) = in_stream given snt c"
  "out_stream taken rc (c\<lparr>cprod := p\<rparr>) = out_stream taken rc c"
  "in_stream given snt (c\<lparr>cwaiters := ws\<rparr>) = in_stream given snt c"
  "out_stream taken rc (c\<lparr>cwaiters := ws\<rparr>) = out_stream taken rc c"
  by (simp_all add: in_stream_def out_stream_def)

lemma standby_core:
  assumes "pipe_core given taken w c"
  shows "pipe_core given taken w (set_tx_standby c)" "pipe_core given taken w (set_rx_standby c)"
  using assms
    pos_cong [of "set_tx_standby c" c] pos_cong [of "set_rx_standby c" c]
  by (simp_all add: pipe_core_def streams_def slots_free_def in_stream_def out_stream_def)

lemma nothing_lent:
  "circ_free c = 0 \<Longrightarrow> \<not> lends (circ_try_write_at c d)" "circ_data c = 0 \<Longrightarrow> \<not> lends (circ_try_read_at c d)"
  by (simp_all add: circ_try_write_at_def circ_try_read_at_def Let_def lends_def circ_free_def
      circ_free_size_def circ_data_def circ_data_size_def unat_eq_zero)

text \<open>A park beside which nothing changes stays one.\<close>

lemma park_producer_stays:
  assumes "pipe_core given taken w c" "circ_free c = 0"
  obtains c1 where "park_producer_poll w kk c = Some (False, c1)" "pipe_core given taken w c1"
    "circ_free c1 = 0" "cbuf c1 = cbuf c" "ccons c1 = ccons c" "cstat c1 = cstat c"
    "cprod c1 = producer_set_slot (Some w) (cprod c)"
proof -
  let ?c1 = "c\<lparr>cwaiters := (cwaiters c)(w := Some kk), cprod := producer_set_slot (Some w) (cprod c)\<rparr>"
  note pc = pos_cong [of ?c1 c]
  have *: "in_stream given [] ?c1 = in_stream given [] c" "out_stream taken [] ?c1 = out_stream taken [] c"
    by (cases "cprod c"; simp add: in_stream_def) (simp add: out_stream_def)
  have core: "pipe_core given taken w ?c1"
    using assms(1) * pc by (simp add: pipe_core_def streams_def slots_free_def)
  have reg: "wakeslot_register w (producer_slot (cprod c)) = Some (Some w)"
    using assms(1) by (auto simp: pipe_core_def slots_free_def wakeslot_register_def)
  have fr: "circ_free ?c1 = 0"
    using assms(2) pc by simp
  have "park_producer_poll w kk c = Some (False, ?c1)"
    using reg nothing_lent(1) [OF fr] core by (simp add: park_producer_poll_def pipe_core_def)
  then show thesis
    by (rule that [OF _ core fr]) simp_all
qed

lemma park_consumer_stays:
  assumes "pipe_core given taken w c" "circ_data c = 0"
  obtains c1 where "park_consumer_poll w kk c = Some (False, c1)" "pipe_core given taken w c1"
    "circ_data c1 = 0" "cbuf c1 = cbuf c" "cprod c1 = cprod c" "cstat c1 = cstat c"
    "ccons c1 = consumer_set_slot (Some w) (ccons c)"
proof -
  let ?c1 = "c\<lparr>cwaiters := (cwaiters c)(w := Some kk), ccons := consumer_set_slot (Some w) (ccons c)\<rparr>"
  note pc = pos_cong [of ?c1 c]
  have *: "in_stream given [] ?c1 = in_stream given [] c" "out_stream taken [] ?c1 = out_stream taken [] c"
    by (simp add: in_stream_def) (cases "ccons c"; simp add: out_stream_def)
  have core: "pipe_core given taken w ?c1"
    using assms(1) * pc by (simp add: pipe_core_def streams_def slots_free_def)
  have reg: "wakeslot_register w (consumer_slot (ccons c)) = Some (Some w)"
    using assms(1) by (auto simp: pipe_core_def slots_free_def wakeslot_register_def)
  have fr: "circ_data ?c1 = 0"
    using assms(2) pc by simp
  have "park_consumer_poll w kk c = Some (False, ?c1)"
    using reg nothing_lent(2) [OF fr] core by (simp add: park_consumer_poll_def pipe_core_def)
  then show thesis
    by (rule that [OF _ core fr]) simp_all
qed

text \<open>
  How far the poll can still go, when the input has at most \<open>N\<close> items: an item read in costs two units,
  an item written out one, and a round that moved nothing is the last.
\<close>

definition pipe_budget :: "('i \<Rightarrow> 'a list) \<Rightarrow> nat \<Rightarrow> ('a, 'i, 'o) circ \<Rightarrow> nat" where
  "pipe_budget given N c = 2 * (N - length (in_stream given [] c)) + circ_data c"

fun pipe_rank :: "nat \<Rightarrow> pipe_at \<Rightarrow> nat" where
  "pipe_rank B AtTop = 6 * B + 6"
| "pipe_rank B (AtRead s tk) = 6 * B + 5"
| "pipe_rank B (AtOutput m) = 6 * (B + unat m) + 4"
| "pipe_rank B (AtWrite m s tk) = 6 * (B + unat m) + 3"
| "pipe_rank B (AtRoundEnd m n) = 6 * (B + unat m + unat n) + 2"
| "pipe_rank B st = 1"

text \<open>Well-formed locations are never stuck, keep what holds, and get nearer to the end of the poll.\<close>

fun pipe_held :: "pipe_at \<Rightarrow> nat" where
  "pipe_held (AtOutput m) = unat m"
| "pipe_held (AtWrite m s tk) = unat m"
| "pipe_held st = 0"

definition pipe_ok ::
    "('i \<Rightarrow> 'a list) \<Rightarrow> ('o \<Rightarrow> 'a option list) \<Rightarrow> wid \<Rightarrow> nat \<Rightarrow> pipe_at \<Rightarrow> ('a, 'i, 'o) circ \<Rightarrow> bool" where
  "pipe_ok given taken w L st c = (pipe_core given taken w c \<and> pipe_loc st c \<and> length (cbuf c) = L \<and> pipe_held st \<le> L)"

definition pipe_progress ::
    "('i \<Rightarrow> 'a list) \<Rightarrow> ('o \<Rightarrow> 'a option list) \<Rightarrow> wid \<Rightarrow> nat \<Rightarrow> nat \<Rightarrow> bool \<Rightarrow> pipe_at \<Rightarrow> ('a, 'i, 'o) circ
     \<Rightarrow> ('a, 'i, 'o) pipe_next option \<Rightarrow> bool" where
  "pipe_progress given taken w L N cancelled st c res =
     (case res of
        None \<Rightarrow> False
      | Some (Inl (r, st', c')) \<Rightarrow>
          pipe_ok given taken w L st' c' \<and> (r = Pending \<or> r = Ready () \<and> cancelled)
      | Some (Inr (st', c')) \<Rightarrow> pipe_ok given taken w L st' c'
          \<and> pipe_rank (pipe_budget given N c') st' < pipe_rank (pipe_budget given N c) st)"

lemma pipe_step_progress:
  assumes "pipe_ok given taken w L st c" "input_ok rd given" "output_ok wr taken" "2 \<le> k"
    "\<And>i. length (given i) \<le> N"
  shows "pipe_progress given taken w L N cancelled st c (pipe_step rd wr k cancelled w kk st c)"
proof -
  have core: "pipe_core given taken w c" and loc: "pipe_loc st c" and L: "length (cbuf c) = L"
    and held: "pipe_held st \<le> L"
    using assms(1) by (simp_all add: pipe_ok_def)
  have ok: "circ_ok c" and op: "\<not> circ_tx_closed c" "\<not> circ_rx_closed c"
    using core by (simp_all add: pipe_core_def streams_def)
  show ?thesis
  proof (cases st)
    case AtTop
    then show ?thesis
      using core op L pipe_input_region [OF ok]
      by (auto simp: pipe_progress_def pipe_step_def pipe_top_def pipe_ok_def simp del: pipe_loc.simps(1) split: option.splits)
  next
    case (AtRead s tk)
    show ?thesis
    proof (rule pipe_input_poll_spec [OF core loc [unfolded AtRead] assms(2,4), of wr])
      fix c1 assume "pipe_input_poll rd wr k s tk c = Some (Inl c1)" "pipe_core given taken w c1"
        "pipe_loc (AtRead s tk) c1" "cbuf c1 = cbuf c"
      then show ?thesis
        using AtRead L by (simp add: pipe_progress_def pipe_step_def pipe_ok_def del: pipe_loc.simps(1))
    next
      fix n c1 xs
      assume n: "pipe_input_poll rd wr k s tk c = Some (Inr (n, c1))" "pipe_core given taken w c1"
        "unat n = length xs" "in_stream given [] c1 = in_stream given [] c @ xs"
        "circ_data c1 = circ_data c + length xs" "length (cbuf c1) = length (cbuf c)"
      have "length (in_stream given [] c @ xs) \<le> N"
        unfolding n(4) [symmetric] using assms(5) n(2) by (auto simp: pipe_core_def not_passive in_stream_def)
      then have "pipe_budget given N c1 + unat n = pipe_budget given N c"
        by (simp add: pipe_budget_def n(3-5))
      moreover have "length xs \<le> L"
        using circ_sizes(1) [of c1] n(2,5,6) L by (simp add: pipe_core_def streams_def)
      ultimately show ?thesis
        using AtRead L n by (simp add: pipe_progress_def pipe_step_def pipe_ok_def)
    qed
  next
    case (AtOutput m)
    then show ?thesis
      using core op L held pipe_output_region [OF ok]
      by (auto simp: pipe_progress_def pipe_step_def pipe_output_def pipe_ok_def simp del: pipe_loc.simps(2) split: option.splits)
  next
    case (AtWrite m s tk)
    show ?thesis
    proof (rule pipe_output_poll_spec [OF core loc [unfolded AtWrite] assms(3,4), of rd])
      fix c1 assume "pipe_output_poll rd wr k s tk c = Some (Inl c1)" "pipe_core given taken w c1"
        "pipe_loc (AtWrite m s tk) c1" "cbuf c1 = cbuf c"
      then show ?thesis
        using AtWrite L held by (simp add: pipe_progress_def pipe_step_def pipe_ok_def del: pipe_loc.simps(2))
    next
      fix n c1
      assume n: "pipe_output_poll rd wr k s tk c = Some (Inr (n, c1))" "pipe_core given taken w c1"
        "in_stream given [] c1 = in_stream given [] c" "circ_data c1 + unat n = circ_data c"
        "length (cbuf c1) = length (cbuf c)"
      then have "pipe_budget given N c1 + unat n = pipe_budget given N c"
        by (simp add: pipe_budget_def)
      then show ?thesis
        using AtWrite L n by (simp add: pipe_progress_def pipe_step_def pipe_ok_def)
    qed
  next
    case (AtRoundEnd m n)
    have sb: "pipe_ok given taken w L AtParkTx (set_tx_standby c)" if "circ_free_size c = 0"
      using that standby_core(1) [OF core] pos_cong(3) [of "set_tx_standby c" c] L
      by (simp add: pipe_ok_def circ_free_def)
    have sr: "pipe_ok given taken w L AtParkRx (set_rx_standby c)" if "circ_data_size c = 0"
      using that standby_core(2) [OF core] pos_cong(2) [of "set_rx_standby c" c] L
      by (simp add: pipe_ok_def circ_data_def)
    show ?thesis
    proof (cases "m = 0 \<and> n = 0")
      case True
      then show ?thesis
        using AtRoundEnd core op L sb sr
        by (simp add: pipe_progress_def pipe_step_def pipe_round_end_def) (simp add: pipe_ok_def)
    next
      case False
      then have "0 < unat m + unat n"
        by (auto simp: unat_gt_0)
      then show ?thesis
        using AtRoundEnd core L False by (auto simp: pipe_progress_def pipe_step_def pipe_round_end_def pipe_ok_def)
    qed
  next
    case AtParkTx
    then have "circ_free c = 0"
      using loc by simp
    from park_producer_stays [OF core this] obtain c1 where
      "park_producer_poll w kk c = Some (False, c1)" "pipe_core given taken w c1" "circ_free c1 = 0" "cbuf c1 = cbuf c"
      by metis
    then show ?thesis
      using AtParkTx L by (simp add: pipe_progress_def pipe_step_def pipe_ok_def)
  next
    case AtParkRx
    then have "circ_data c = 0"
      using loc by simp
    from park_consumer_stays [OF core this] obtain c1 where
      "park_consumer_poll w kk c = Some (False, c1)" "pipe_core given taken w c1" "circ_data c1 = 0" "cbuf c1 = cbuf c"
      by metis
    then show ?thesis
      using AtParkRx L by (simp add: pipe_progress_def pipe_step_def pipe_ok_def)
  next
    case AtForever
    then show ?thesis
      using core L by (simp add: pipe_progress_def pipe_step_def pipe_ok_def)
  qed
qed

text \<open>A poll returns.\<close>

lemma pipe_poll_returns:
  assumes "input_ok rd given" "output_ok wr taken" "2 \<le> k" "\<And>i. length (given i) \<le> N"
    "pipe_ok given taken w L st c" "pipe_rank (pipe_budget given N c) st < j"
  shows "\<exists>r st' c'. pipe_poll rd wr k cancelled w kk j st c = Some (r, st', c') \<and> pipe_ok given taken w L st' c'
      \<and> (r = Pending \<or> r = Ready () \<and> cancelled)"
proof -
  let ?step = "\<lambda>(st, c). pipe_step rd wr k cancelled w kk st c"
  let ?I = "\<lambda>(st, c). pipe_ok given taken w L st c"
  let ?Q = "\<lambda>(r, st, c). pipe_ok given taken w L st c \<and> (r = Pending \<or> r = Ready () \<and> cancelled)"
  let ?rank = "\<lambda>(st, c). pipe_rank (pipe_budget given N c) st"
  have "\<exists>x. ?step s = Some x \<and> (case x of Inl r \<Rightarrow> ?Q r | Inr s' \<Rightarrow> ?I s' \<and> ?rank s' < ?rank s)" if "?I s" for s
    using pipe_step_progress [OF _ assms(1-4), of w L "fst s" "snd s" cancelled kk] that
    by (cases s) (auto simp: pipe_progress_def split: option.splits sum.splits prod.splits)
  from run_steps_return [of ?I ?step ?Q ?rank, OF this, of "(st, c)" j] show ?thesis
    using assms(5,6) by (auto simp: pipe_poll_def)
qed

lemma pipe_rank_bound:
  assumes "pipe_ok given taken w L st c" "\<nexists>m n. st = AtRoundEnd m n"
  shows "pipe_rank (pipe_budget given N c) st \<le> 12 * (N + L) + 6"
proof -
  have "circ_data c \<le> L"
    using assms(1) circ_sizes(1) [of c] by (simp add: pipe_ok_def pipe_core_def streams_def)
  then have "pipe_budget given N c \<le> 2 * N + L"
    by (simp add: pipe_budget_def)
  then show ?thesis
    using assms by (cases st) (simp_all add: pipe_ok_def)
qed

text \<open>A poll is suspended elsewhere than at the end of a round.\<close>

lemma pipe_step_suspends:
  "pipe_step rd wr k cancelled w kk st c = Some (Inl (r, st', c')) \<Longrightarrow> \<nexists>m n. st' = AtRoundEnd m n"
  by (cases st; auto simp: pipe_step_def pipe_top_def pipe_output_def pipe_round_end_def
      split: if_splits sum.splits; metis old.sum.exhaust surj_pair)

lemma pipe_poll_suspends:
  "pipe_poll rd wr k cancelled w kk j st c = Some (r, st', c') \<Longrightarrow> \<nexists>m n. st' = AtRoundEnd m n"
proof (induction j arbitrary: st c)
  case (Suc j)
  then show ?case
    using pipe_step_suspends [of rd wr k cancelled w kk st c r st' c']
    by (auto split: option.splits sum.splits)
qed simp

lemma pipe_polls_return:
  assumes "input_ok rd given" "output_ok wr taken" "2 \<le> k" "\<And>i. length (given i) \<le> N"
    "12 * (N + L) + 6 < j"
  shows "pipe_ok given taken w L st c \<Longrightarrow> \<nexists>m n. st = AtRoundEnd m n \<Longrightarrow>
    \<exists>e st' c'. pipe_polls rd wr k w j polls st c = Some (e, st', c') \<and> pipe_ok given taken w L st' c'
      \<and> (e \<longrightarrow> True \<in> set (map fst polls))"
proof (induction polls arbitrary: st c)
  case Nil
  then show ?case
    by (intro exI [of _ False]) simp
next
  case (Cons x xs)
  have "pipe_rank (pipe_budget given N c) st < j"
    using pipe_rank_bound [OF Cons.prems, of N] assms(5) by linarith
  from pipe_poll_returns [OF assms(1-4) Cons.prems(1) this, of "fst x" "snd x"]
  obtain r st' c' where p: "pipe_poll rd wr k (fst x) w (snd x) j st c = Some (r, st', c')"
    "pipe_ok given taken w L st' c'" "r = Pending \<or> r = Ready () \<and> fst x"
    by blast
  show ?case
  proof (cases "r = Pending")
    case True
    then show ?thesis
      using p Cons.IH [OF p(2) pipe_poll_suspends [OF p(1)]] by auto
  next
    case False
    then show ?thesis
      using p by auto
  qed
qed

lemma pipe_start_ok:
  assumes "2 \<le> length buffer" "length buffer < 2 ^ 28" "given i = []" "taken p = []"
  shows "pipe_ok given taken w (length buffer) AtTop (core_new (DevProducer i None) (DevConsumer p None) buffer)"
  using core_new_streams [OF assms(1,2), of given "DevProducer i None" "DevConsumer p None" taken] assms(3,4)
  by (simp add: pipe_ok_def pipe_core_def slots_free_def in_stream_def out_stream_def)
    (simp add: core_new_def circ_tx_closed_def circ_rx_closed_def has_flag_def)

text \<open>
  C30: A pipeline loses, duplicates and reorders nothing, and every poll of its future returns: for every
  input device that has finitely many items to give, every output device, and every sequence of polls,
  what the input handed out is what the output took followed by what is buffered. The future ends only
  in a poll that is told to cancel.
\<close>

theorem pipeline_streams:
  assumes "2 \<le> length buffer" "length buffer < 2 ^ 28" "given i = []" "taken p = []"
    "input_ok rd given" "output_ok wr taken" "\<And>i. length (given i) \<le> N" "2 \<le> k"
    "12 * (N + length buffer) + 6 < j"
  shows "\<exists>ended st c. pipe_polls rd wr k w j polls AtTop
       (core_new (DevProducer i None) (DevConsumer p None) buffer) = Some (ended, st, c)
     \<and> map Some (in_stream given [] c) = out_stream taken [] c @ circ_queue c
     \<and> length (circ_queue c) \<le> length buffer \<and> (ended \<longrightarrow> True \<in> set (map fst polls))"
proof -
  obtain e st c where "pipe_polls rd wr k w j polls AtTop
       (core_new (DevProducer i None) (DevConsumer p None) buffer) = Some (e, st, c)"
    "pipe_ok given taken w (length buffer) st c" "e \<longrightarrow> True \<in> set (map fst polls)"
    using pipe_polls_return [OF assms(5,6,8,7,9) pipe_start_ok [of buffer given i taken p, OF assms(1-4)]]
    by blast
  then show ?thesis
    using circ_sizes(1) [of c] by (auto simp: pipe_ok_def pipe_core_def streams_def)
qed

section \<open>A pipeline that has stalled\<close>

text \<open>Parked or pending for ever, the future is polled in vain, whatever the devices and the token say.\<close>

definition same_devices :: "('a, 'i, 'o) circ \<Rightarrow> ('a, 'i, 'o) circ \<Rightarrow> bool" where
  "same_devices c c' = (producer_set_slot None (cprod c') = producer_set_slot None (cprod c)
     \<and> consumer_set_slot None (ccons c') = consumer_set_slot None (ccons c)
     \<and> cbuf c' = cbuf c \<and> cstat c' = cstat c)"

lemma set_slot_set_slot [simp]:
  "producer_set_slot u (producer_set_slot v p) = producer_set_slot u p"
  "consumer_set_slot u (consumer_set_slot v q) = consumer_set_slot u q"
  by (cases p; simp) (cases q; simp)

lemma same_devices_trans: "same_devices a b \<Longrightarrow> same_devices b c \<Longrightarrow> same_devices a c"
  by (simp add: same_devices_def)

lemma same_devices_refl [simp]: "same_devices c c"
  by (simp add: same_devices_def)

lemma stalled_poll:
  assumes "pipe_core given taken w c" "pipe_loc st c" "st \<in> {AtParkTx, AtParkRx, AtForever}"
  shows "\<exists>c'. pipe_poll rd wr k cancelled w kk (Suc j) st c = Some (Pending, st, c')
    \<and> pipe_core given taken w c' \<and> pipe_loc st c' \<and> same_devices c c'"
proof -
  consider "st = AtParkTx" "circ_free c = 0" | "st = AtParkRx" "circ_data c = 0" | "st = AtForever"
    using assms(2,3) by auto
  then show ?thesis
  proof cases
    case 1
    obtain c1 where "park_producer_poll w kk c = Some (False, c1)" "pipe_core given taken w c1"
      "circ_free c1 = 0" "same_devices c c1"
      by (rule park_producer_stays [OF assms(1) 1(2), of kk]) (simp add: same_devices_def)
    then show ?thesis
      using 1(1) by (simp add: pipe_step_def)
  next
    case 2
    obtain c1 where "park_consumer_poll w kk c = Some (False, c1)" "pipe_core given taken w c1"
      "circ_data c1 = 0" "same_devices c c1"
      by (rule park_consumer_stays [OF assms(1) 2(2), of kk]) (simp add: same_devices_def)
    then show ?thesis
      using 2(1) by (simp add: pipe_step_def)
  next
    case 3
    then show ?thesis
      using assms(1) by (simp add: pipe_step_def)
  qed
qed

lemma stalled_polls:
  "pipe_core given taken w c \<Longrightarrow> pipe_loc st c \<Longrightarrow> st \<in> {AtParkTx, AtParkRx, AtForever} \<Longrightarrow>
    \<exists>c'. pipe_polls rd wr k w (Suc j) polls st c = Some (False, st, c') \<and> same_devices c c'"
proof (induction polls arbitrary: c)
  case (Cons x xs)
  from stalled_poll [OF Cons.prems, of rd wr k "fst x" "snd x" j] obtain c1 where
    p: "pipe_poll rd wr k (fst x) w (snd x) (Suc j) st c = Some (Pending, st, c1)"
      "pipe_core given taken w c1" "pipe_loc st c1" "same_devices c c1"
    by blast
  from Cons.IH [OF p(2,3) Cons.prems(3)] p(1,4) show ?case
    by (auto intro: same_devices_trans)
qed simp

text \<open>
  C31: With nothing buffered, a device that once reports an error, or just nothing, ends the flow for good, not
  the future. When the input answers so while the buffer is empty, the poll parks; from then on every poll is pending
  whatever the devices have and although the token is cancelled, neither device is asked again, and
  nobody is left who could wake the park, because only this future moves items.
\<close>

theorem pipeline_error_hangs:
  assumes "pipe_core given taken w c" "circ_data c = 0" "input_ok rd given"
    "cprod c = DevProducer i v" "pipe_input_region c = Some (s, tk)"
    "rd i (unat tk) = (Some x, i')" "items_of (Some x) = []" "5 \<le> j" "2 \<le> k"
  shows "\<exists>c1. pipe_poll rd wr k False w kk j AtTop c = Some (Pending, AtParkRx, c1)
     \<and> (\<exists>v1. cprod c1 = DevProducer i' v1)
     \<and> (\<forall>rd' wr' polls. \<exists>c2. pipe_polls rd' wr' k w j polls AtParkRx c1 = Some (False, AtParkRx, c2)
          \<and> same_devices c1 c2)"
proof -
  obtain j' where j: "j = Suc (Suc (Suc (Suc (Suc j'))))"
    by (rule that [of "j - 5"]) (use assms(8) in simp)
  have ok: "circ_ok c" and op: "\<not> circ_tx_closed c" "\<not> circ_rx_closed c"
    using assms(1) by (simp_all add: pipe_core_def streams_def)
  let ?c1 = "c\<lparr>cprod := DevProducer i' v\<rparr>"
  have rd: "pipe_input_poll rd wr k s tk c = Some (Inr (0, ?c1))"
    using assms(4,6,7) by (simp add: pipe_input_poll_def Let_def mem_write_def)
  have core1: "pipe_core given taken w ?c1"
    by (rule pipe_input_poll_spec [OF assms(1) pipe_input_region [OF ok assms(5)] assms(3,9), of wr])
      (use rd in auto)
  have d1: "circ_data ?c1 = 0" "circ_data_size ?c1 = 0" "circ_free_size ?c1 \<noteq> 0"
    using assms(2) ok circ_sizes(1) [OF ok] circ_ok_cap(3) [OF ok]
    by (auto simp: circ_data_def circ_data_size_def circ_free_def circ_free_size_def unat_eq_zero)
  let ?c2 = "set_rx_standby ?c1"
  have core2: "pipe_core given taken w ?c2" "circ_data ?c2 = 0"
    using standby_core(2) [OF core1] pos_cong(2) [of ?c2 ?c1] d1(1) by simp_all
  obtain c3 where c3: "park_consumer_poll w kk ?c2 = Some (False, c3)" "pipe_core given taken w c3"
    "circ_data c3 = 0" "cprod c3 = cprod ?c2"
    by (rule park_consumer_stays [OF core2, of kk])
  have no: "pipe_output_region ?c1 = None"
    using d1(2) by (simp add: pipe_output_region_def Let_def circ_data_size_def)
  have "pipe_poll rd wr k False w kk j AtTop c = Some (Pending, AtParkRx, c3)"
    using op rd assms(5) no d1(2,3) c3(1)
    by (simp add: j pipe_step_def pipe_top_def pipe_output_def pipe_round_end_def)
  moreover have "\<exists>c2. pipe_polls rd' wr' k w j polls AtParkRx c3 = Some (False, AtParkRx, c2) \<and> same_devices c3 c2"
    for rd' wr' polls
    using stalled_polls [OF c3(2), of AtParkRx rd' wr' k _ polls] c3(3) by (simp add: j)
  ultimately show ?thesis
    using c3(4) by auto
qed

section \<open>Two devices\<close>

text \<open>An input that hands out a list, its state the number of items given, and an output that keeps what it takes.\<close>

definition list_input :: "'a list \<Rightarrow> ('a, unit, nat) input_dev" where
  "list_input items i n = (Some (OfLeft (take n (drop i items))), i + length (take n (drop i items)))"

definition list_output :: "('a, unit, 'a option list) output_dev" where
  "list_output p cs = (Some (OfLeft (length cs)), p @ cs)"

lemma list_devices_ok:
  "input_ok (list_input items) (\<lambda>i. take i items)" "output_ok list_output (\<lambda>p. p)"
proof -
  have "take (i + length (take n (drop i items))) items = take i items @ take n (drop i items)" for i n
    by (simp add: take_add min_def)
  then show "input_ok (list_input items) (\<lambda>i. take i items)"
    by (simp add: input_ok_def list_input_def items_of_def Let_def)
  show "output_ok list_output (\<lambda>p. p)"
    by (simp add: output_ok_def list_output_def count_of_def)
qed

theorem pipeline_streams_witness:
  "\<exists>ended st c. pipe_polls (list_input [1, 2, 3 :: nat]) list_output 2 9 100 [(False, 7), (True, 7)] AtTop
       (core_new (DevProducer 0 None) (DevConsumer [] None) [None, None]) = Some (ended, st, c)
     \<and> map Some (in_stream (\<lambda>i. take i [1, 2, 3]) [] c) = out_stream (\<lambda>p. p) [] c @ circ_queue c
     \<and> length (circ_queue c) \<le> length [None, None :: nat option]
     \<and> (ended \<longrightarrow> True \<in> set (map fst [(False, 7 :: nat), (True, 7)]))"
  by (rule pipeline_streams [where N = 3]) (simp_all add: list_devices_ok)

text \<open>An input that has ended.\<close>

theorem pipeline_error_hangs_witness:
  "\<exists>c1 :: (nat, nat, nat option list) circ.
     pipe_poll (\<lambda>i n. (Some (OfRight ()), i)) list_output 2 False 9 7 5 AtTop
       (core_new (DevProducer 0 None) (DevConsumer [] None) [None, None]) = Some (Pending, AtParkRx, c1)"
proof -
  let ?c = "core_new (DevProducer 0 None) (DevConsumer [] None) [None, None] :: (nat, nat, nat option list) circ"
  have "pipe_ok (\<lambda>i. []) (\<lambda>p. p) 9 (length [None, None :: nat option]) AtTop ?c"
    by (rule pipe_start_ok) simp_all
  then have core: "pipe_core (\<lambda>i. []) (\<lambda>p. p) 9 ?c"
    by (simp add: pipe_ok_def)
  have inp: "input_ok (\<lambda>i n. (Some (OfRight ()), i)) (\<lambda>i :: nat. [] :: nat list)"
    by (simp add: input_ok_def items_of_def)
  have pos: "circ_pos ?c = \<lparr>pos_rv = False, pos_rp = 0, pos_wp = 0, pos_cap = 2\<rparr>"
    by (simp add: circ_pos_def circ_capacity_def iopos_unpack_def core_new_def has_flag_def)
  then have reg: "pipe_input_region ?c = Some (0, 2)" and dat: "circ_data ?c = 0"
    by (simp_all add: pipe_input_region_def circ_data_def circ_data_size_def iopos_data_size_def
        iopos_free_size_def circ_tx_closed_def circ_rx_closed_def has_flag_def circ_capacity_def Let_def)
      (simp_all add: core_new_def)
  have dev: "cprod ?c = DevProducer 0 None"
    by (simp add: core_new_def)
  show ?thesis
    using pipeline_error_hangs [OF core dat inp dev reg, of "OfRight ()" 0 5 2 list_output 7]
    by (auto simp: items_of_def)
qed

end
