(* ===== verification/Circ_Pump.thy ===== *)
theory Circ_Pump
  imports Circ_Pipeline
begin

text \<open>
  The asynchronous pumps of an active end (\<open>circ_buff_.rs\<close>: \<open>dev_producer_react_async_\<close>,
  \<open>dev_producer_pump_async_\<close>, their consumer twins and the two \<open>init_async\<close>; \<open>core_.rs\<close>:
  \<open>drain_output_async_\<close>, \<open>close_tx_async\<close>), one poll of a future at a time. A future that meets a device that
  is not ready keeps its borrowed segment with the cells filled so far, and goes on from there in the
  next poll.
\<close>

section \<open>Reactions across polls\<close>

text \<open>
  \<open>move_items_from_input_async\<close> and \<open>move_items_to_output_async\<close> from their suspension on: the child
  segment has an offset already, and the amount agreed on at its start is the same.
\<close>

definition segm_mut_input_from ::
    "('a, 'e, 'i) input_dev \<Rightarrow> 'a memory \<Rightarrow> segm \<Rightarrow> 'i \<Rightarrow> usize demand
     \<Rightarrow> ((nat, 'e) some_of option \<times> 'a memory \<times> segm \<times> 'i) run" where
  "segm_mut_input_from rd m s i d =
     run_bind (agreed_max d (slen s)) (\<lambda>a. case a of
         None \<Rightarrow> Done (Some (OfLeft 0), m, s, i)
       | Some mx \<Rightarrow> Done (input_loop rd (slen s) (unat mx) m s i (soff s)))"

definition segm_ref_output_from ::
    "('a, 'e, 'o) output_dev \<Rightarrow> 'a memory \<Rightarrow> segm \<Rightarrow> 'o \<Rightarrow> usize demand
     \<Rightarrow> ((nat, 'e) some_of option \<times> segm \<times> 'o) run" where
  "segm_ref_output_from wr m s p d =
     run_bind (agreed_max d (slen s)) (\<lambda>a. case a of
         None \<Rightarrow> Done (Some (OfLeft 0), s, p)
       | Some mx \<Rightarrow> Done (output_loop wr (slen s) (unat mx) m s p (soff s)))"

text \<open>
  One poll of \<open>react_async\<close>, with the child it is suspended in, if any: the reaction and the segment,
  or the segment, the count of the finished children and the child when the device is not ready.
\<close>

function dev_producer_react_poll ::
    "('a, 'e, 'i) input_dev \<Rightarrow> 'a memory \<Rightarrow> recl \<Rightarrow> 'i \<Rightarrow> nat \<Rightarrow> segm option
     \<Rightarrow> ('a memory \<times> 'i \<times> (receiver_react \<times> recl + recl \<times> nat \<times> segm)) run" where
  "dev_producer_react_poll rd m g i moved aw =
     (if aw = None \<and> recl_is_empty g then
        Done (m, i, Inl (if 0 < moved then Reacted else ContinueReact, g))
      else
        (case segm_mut_input_from rd m (case aw of None \<Rightarrow> recl_as_segm g | Some s \<Rightarrow> s) i
                (LessThan (of_nat (recl_least_count g))) of
           Panic e \<Rightarrow> Panic e
         | Done (None, m', child, i') \<Rightarrow> Done (m', i', Inr (g, moved, child))
         | Done (Some x, m', child, i') \<Rightarrow>
             (let g' = recl_drop_child g child; n = (case pick_left x of None \<Rightarrow> 0 | Some k \<Rightarrow> k)
              in if pick_right x \<noteq> None \<or> n = 0 then
                   Done (m', i', Inl (if 0 < moved then Reacted else ContinueReact, g'))
                 else dev_producer_react_poll rd m' g' i' (moved + n) None)))"
  by pat_completeness auto

function dev_consumer_react_poll ::
    "('a, 'e, 'o) output_dev \<Rightarrow> 'a memory \<Rightarrow> recl \<Rightarrow> 'o \<Rightarrow> nat \<Rightarrow> segm option
     \<Rightarrow> ('o \<times> (receiver_react \<times> recl + recl \<times> nat \<times> segm)) run" where
  "dev_consumer_react_poll wr m g p moved aw =
     (if aw = None \<and> recl_is_empty g then
        Done (p, Inl (if 0 < moved then Reacted else ContinueReact, g))
      else
        (case segm_ref_output_from wr m (case aw of None \<Rightarrow> recl_as_segm g | Some s \<Rightarrow> s) p
                (LessThan (of_nat (recl_least_count g))) of
           Panic e \<Rightarrow> Panic e
         | Done (None, child, p') \<Rightarrow> Done (p', Inr (g, moved, child))
         | Done (Some x, child, p') \<Rightarrow>
             (let g' = recl_drop_child g child; n = (case pick_left x of None \<Rightarrow> 0 | Some k \<Rightarrow> k)
              in if pick_right x \<noteq> None \<or> n = 0 then
                   Done (p', Inl (if 0 < moved then Reacted else ContinueReact, g'))
                 else dev_consumer_react_poll wr m g' p' (moved + n) None)))"
  by pat_completeness auto

text \<open>A finished child has passed over what it reports, so that a further round has less to fill.\<close>

lemma input_from_offset:
  "segm_mut_input_from rd m s i (LessThan w) = Done (Some x, m', child, i') \<Longrightarrow>
    pick_left x = Some n \<Longrightarrow> soff child = n"
  using input_loop_offset [of rd "slen s" _ m s i "soff s" x m' child i']
  by (fastforce simp: segm_mut_input_from_def agreed_max_less_than)

lemma output_from_offset:
  "segm_ref_output_from wr m s p (LessThan w) = Done (Some x, child, p') \<Longrightarrow>
    pick_left x = Some n \<Longrightarrow> soff child = n"
  using output_loop_offset [of wr "slen s" _ m s p "soff s" x child p']
  by (fastforce simp: segm_ref_output_from_def agreed_max_less_than)

lemma dropped_child_rank: "2 * recl_least_count (recl_drop_child g child) < Suc (2 * recl_least_count g)"
  by (simp add: recl_least_count_def recl_drop_child_def less_Suc_eq_le diff_le_mono2)

termination dev_producer_react_poll
proof (relation "measure (\<lambda>(rd, m, g, i, moved, aw). 2 * recl_least_count g + (if aw = None then 0 else 1))",
    goal_cases)
  case (2 rd m g i moved aw)
  then show ?case
    by (auto simp: recl_is_empty_def intro!: dropped_child_rank dropped_child_smaller
        dest: input_from_offset split: option.splits)
qed simp

termination dev_consumer_react_poll
proof (relation "measure (\<lambda>(wr, m, g, p, moved, aw). 2 * recl_least_count g + (if aw = None then 0 else 1))",
    goal_cases)
  case (2 wr m g p moved aw)
  then show ?case
    by (auto simp: recl_is_empty_def intro!: dropped_child_rank dropped_child_smaller
        dest: output_from_offset split: option.splits)
qed simp

declare dev_producer_react_poll.simps [simp del] dev_consumer_react_poll.simps [simp del]

section \<open>What a reaction does\<close>

text \<open>
  A suspended child is the segment's next piece with some, but not all, of its cells used. The segment
  stands where it would if the child were dropped now.
\<close>

definition child_of :: "recl \<Rightarrow> segm \<Rightarrow> bool" where
  "child_of g s = (0 < recl_least_count g \<and> (\<exists>n. s = (recl_as_segm g)\<lparr>soff := n\<rparr> \<and> n \<le> slen s))"

definition stands_at :: "recl \<Rightarrow> segm option \<Rightarrow> recl" where
  "stands_at g aw = (case aw of None \<Rightarrow> g | Some s \<Rightarrow> recl_drop_child g s)"

definition await_ok :: "recl \<Rightarrow> segm option \<Rightarrow> bool" where
  "await_ok g aw = (case aw of None \<Rightarrow> True | Some s \<Rightarrow> child_of g s)"

lemma stands_at_simps [simp]:
  "stands_at g None = g" "stands_at g (Some s) = recl_drop_child g s"
  "await_ok g None" "await_ok g (Some s) = child_of g s"
  by (simp_all add: stands_at_def await_ok_def)

lemma fresh_child: "0 < recl_least_count g \<Longrightarrow> child_of g (recl_as_segm g)"
  using as_segm_offset [of g] by (auto simp: child_of_def intro!: exI [of _ 0])

lemma segm_mut_input_fresh:
  "segm_mut_input rd m (recl_as_segm g) i d = segm_mut_input_from rd m (recl_as_segm g) i d"
  by (simp add: segm_mut_input_def segm_mut_input_from_def as_segm_offset Let_def cong: option.case_cong)

text \<open>The child's cells are the next ones of the segment.\<close>

lemma child_addrs:
  assumes "recl_ok m g" "child_of g s" "soff s + k \<le> slen s"
  shows "soff s + k \<le> recl_least_count g" "segm_ok m s"
    "[sbase s + soff s..<sbase s + soff s + k] = take k (drop (roff g + soff s) (pieces_addrs (rpieces g)))"
proof -
  let ?s = "recl_as_segm g"
  obtain n where s: "s = ?s\<lparr>soff := n\<rparr>" "n \<le> slen ?s" "0 < recl_least_count g"
    using assms(2) by (auto simp: child_of_def)
  note ok = recl_as_segm_ok [OF assms(1) s(3)]
  note off = as_segm_offset [of g]
  have le: "soff s + k \<le> least_count ?s"
    using assms(3) s by (simp add: least_count_def off)
  note ch = recl_child_addrs [OF s(3) le]
  show "soff s + k \<le> recl_least_count g"
    using ch(2) le by simp
  show "segm_ok m s"
    using ok(1) s by (simp add: segm_ok_def off)
  have "take k (drop (roff g + soff s) (pieces_addrs (rpieces g)))
      = drop (soff s) (take (soff s + k) (drop (roff g) (pieces_addrs (rpieces g))))"
    by (simp add: drop_take add.commute)
  also have "\<dots> = [sbase s + soff s..<sbase s + soff s + k]"
    using ch(1) s by (simp add: add.assoc)
  finally show "[sbase s + soff s..<sbase s + soff s + k]
      = take k (drop (roff g + soff s) (pieces_addrs (rpieces g)))" ..
qed

lemma child_advanced:
  "child_of g s \<Longrightarrow> soff s + k \<le> slen s \<Longrightarrow> child_of g (s\<lparr>soff := soff s + k\<rparr>)"
  by (auto simp: child_of_def)

lemma input_from_spec:
  assumes "recl_ok m g" "child_of g s" "input_ok rd given"
    "segm_mut_input_from rd m s i (LessThan w) = Done (x, m', child, i')"
  obtains xs where "input_reacted given m (recl_drop_child g s) i xs m' (recl_drop_child g child) i'"
    "child_of g child" "\<And>y. x = Some y \<Longrightarrow> pick_left y = Some (soff child)"
proof -
  have ok: "segm_ok m s" and le: "soff s \<le> slen s"
    using child_addrs [OF assms(1,2), of 0] assms(2) by (auto simp: child_of_def)
  let ?mx = "unat (min w (of_nat (slen s)))"
  have l: "input_loop rd (slen s) ?mx m s i (soff s) = (x, m', child, i')"
    using assms(4) by (simp add: segm_mut_input_from_def agreed_max_less_than)
  show thesis
  proof (cases "soff s \<le> ?mx")
    case True
    have "?mx \<le> unat (of_nat (slen s) :: usize)"
      by (simp add: unat_min)
    also have "\<dots> \<le> slen s"
      by (simp add: unat_of_nat)
    finally have mx: "?mx \<le> slen s" .
    obtain xs where xs: "child = s\<lparr>soff := soff s + length xs\<rparr>" "length xs \<le> ?mx - soff s"
      "m' = mem_write m (sbase s + soff s) (map Some xs)" "given i' = given i @ xs"
      "\<And>y. x = Some y \<Longrightarrow> pick_left y = Some (soff s + length xs)"
      by (rule input_loop_spec [OF l assms(3) ok mx _ True]) (auto intro!: that)
    have k: "soff s + length xs \<le> slen s"
      using xs(2) mx True by linarith
    note ca = child_addrs [OF assms(1,2) k]
    have "sbase s + soff s + length (map Some xs) \<le> length m"
      using ok k by (simp add: segm_ok_def)
    from mem_write_put [OF this] have "m' = mem_put m
        (take (length xs) (drop (roff g + soff s) (pieces_addrs (rpieces g)))) (map Some xs)"
      using xs(3) ca(3) by simp
    then have "input_reacted given m (recl_drop_child g s) i xs m' (recl_drop_child g child) i'"
      using ca(1) xs(1,4) by (simp add: input_reacted_def recl_drop_child_def recl_least_count_def)
    then show thesis
      using that child_advanced [OF assms(2) k] xs(1,5) by simp
  next
    case False
    then have "x = Some (OfLeft (soff s))" "m' = m" "child = s" "i' = i"
      using l by (auto simp: input_loop.simps)
    then show thesis
      using assms(2) by (intro that [of "[]"]) (simp_all add: input_reacted_refl)
  qed
qed

lemma output_from_spec:
  assumes "recl_ok m g" "child_of g s" "output_ok wr taken"
    "segm_ref_output_from wr m s p (LessThan w) = Done (x, child, p')"
  obtains k where "output_reacted taken m (recl_drop_child g s) p k (recl_drop_child g child) p'"
    "child_of g child" "\<And>y. x = Some y \<Longrightarrow> pick_left y = Some (soff child)"
proof -
  have ok: "segm_ok m s" and le: "soff s \<le> slen s"
    using child_addrs [OF assms(1,2), of 0] assms(2) by (auto simp: child_of_def)
  let ?mx = "unat (min w (of_nat (slen s)))"
  have l: "output_loop wr (slen s) ?mx m s p (soff s) = (x, child, p')"
    using assms(4) by (simp add: segm_ref_output_from_def agreed_max_less_than)
  show thesis
  proof (cases "soff s \<le> ?mx")
    case True
    have "?mx \<le> unat (of_nat (slen s) :: usize)"
      by (simp add: unat_min)
    also have "\<dots> \<le> slen s"
      by (simp add: unat_of_nat)
    finally have mx: "?mx \<le> slen s" .
    obtain k where k: "child = s\<lparr>soff := soff s + k\<rparr>" "k \<le> ?mx - soff s"
      "taken p' = taken p @ mem_read m (sbase s + soff s) k"
      "\<And>y. x = Some y \<Longrightarrow> pick_left y = Some (soff s + k)"
      by (rule output_loop_spec [OF l assms(3) ok mx _ True]) (auto intro!: that)
    have le: "soff s + k \<le> slen s"
      using k(2) mx True by linarith
    note ca = child_addrs [OF assms(1,2) le]
    have "sbase s + soff s + k \<le> length m"
      using ok le by (simp add: segm_ok_def)
    from mem_read_get [OF this] have "output_reacted taken m (recl_drop_child g s) p k (recl_drop_child g child) p'"
      using ca(1,3) k(1,3) by (simp add: output_reacted_def recl_drop_child_def recl_least_count_def)
    then show thesis
      using that child_advanced [OF assms(2) le] k(1,4) by simp
  next
    case False
    then have "x = Some (OfLeft (soff s))" "child = s" "p' = p"
      using l by (auto simp: output_loop.simps)
    then show thesis
      using assms(2) by (intro that [of 0]) (simp_all add: output_reacted_refl)
  qed
qed

lemma from_returns:
  "\<exists>x m' child i'. segm_mut_input_from rd m s i (LessThan w) = Done (x, m', child, i')"
  "\<exists>x child p'. segm_ref_output_from wr m s p (LessThan w) = Done (x, child, p')"
  by (simp_all add: segm_mut_input_from_def segm_ref_output_from_def agreed_max_less_than) (metis surj_pair)+

lemma entered_child:
  assumes "await_ok g aw" "\<not> (aw = None \<and> recl_is_empty g)"
    "s = (case aw of None \<Rightarrow> recl_as_segm g | Some s \<Rightarrow> s)"
  shows "child_of g s" "recl_drop_child g s = stands_at g aw"
  using assms fresh_child [of g] as_segm_offset [of g]
  by (auto simp: recl_is_empty_def recl_drop_child_def split: option.splits)

text \<open>
  A poll of a reaction fills the next cells. It ends with a reaction or suspended in a child.
\<close>

fun input_answer ::
    "('i \<Rightarrow> 'a list) \<Rightarrow> 'a memory \<Rightarrow> recl \<Rightarrow> 'i \<Rightarrow> 'a list
     \<Rightarrow> 'a memory \<times> 'i \<times> (receiver_react \<times> recl + recl \<times> nat \<times> segm) \<Rightarrow> bool" where
  "input_answer given m g i xs (m', i', Inl (x, g')) = input_reacted given m g i xs m' g' i'"
| "input_answer given m g i xs (m', i', Inr (g', moved, s)) =
     (input_reacted given m g i xs m' (recl_drop_child g' s) i' \<and> child_of g' s \<and> rpieces g' = rpieces g)"

fun output_answer ::
    "('o \<Rightarrow> 'a option list) \<Rightarrow> 'a memory \<Rightarrow> recl \<Rightarrow> 'o \<Rightarrow> nat
     \<Rightarrow> 'o \<times> (receiver_react \<times> recl + recl \<times> nat \<times> segm) \<Rightarrow> bool" where
  "output_answer taken m g p k (p', Inl (x, g')) = output_reacted taken m g p k g' p'"
| "output_answer taken m g p k (p', Inr (g', moved, s)) =
     (output_reacted taken m g p k (recl_drop_child g' s) p' \<and> child_of g' s \<and> rpieces g' = rpieces g)"

lemma reacted_pieces:
  "input_reacted given m g i xs m' g' i' \<Longrightarrow> rpieces g' = rpieces g"
  "output_reacted taken m g p k g' p' \<Longrightarrow> rpieces g' = rpieces g"
  by (simp_all add: input_reacted_def output_reacted_def)

lemma input_answer_trans:
  "input_reacted given m g i xs m1 g1 i1 \<Longrightarrow> input_answer given m1 g1 i1 ys r \<Longrightarrow>
    input_answer given m g i (xs @ ys) r"
  using reacted_pieces(1) [of given m g i xs m1 g1 i1]
  by (cases "(given, m1, g1, i1, ys, r)" rule: input_answer.cases)
    (auto intro: input_reacted_trans)

lemma output_answer_trans:
  "output_reacted taken m g p k g1 p1 \<Longrightarrow> output_answer taken m g1 p1 j r \<Longrightarrow>
    output_answer taken m g p (k + j) r"
  using reacted_pieces(2) [of taken m g p k g1 p1]
  by (cases "(taken, m, g1, p1, j, r)" rule: output_answer.cases)
    (auto intro: output_reacted_trans)

lemma child_ok: "recl_ok m g \<Longrightarrow> child_of g s \<Longrightarrow> recl_ok m (recl_drop_child g s)"
  using child_addrs(1) [of m g s 0]
  by (auto simp: recl_ok_def recl_drop_child_def recl_least_count_def child_of_def)

lemma stands_pieces [simp]: "rpieces (stands_at g aw) = rpieces g" "rpieces (recl_drop_child g s) = rpieces g"
  by (simp_all add: stands_at_def recl_drop_child_def split: option.splits)

lemma dev_producer_react_poll_spec:
  "recl_ok m g \<Longrightarrow> await_ok g aw \<Longrightarrow> input_ok rd given \<Longrightarrow>
   \<exists>r xs. dev_producer_react_poll rd m g i moved aw = Done r
      \<and> input_answer given m (stands_at g aw) i xs r"
proof (induction rd m g i moved aw rule: dev_producer_react_poll.induct)
  case (1 rd m g i moved aw)
  let ?A = "input_answer given m (stands_at g aw) i"
  show ?case
  proof (cases "aw = None \<and> recl_is_empty g")
    case True
    then have "?A [] (m, i, Inl (if 0 < moved then Reacted else ContinueReact, g))"
      by (simp add: input_reacted_refl)
    moreover have "dev_producer_react_poll rd m g i moved aw
        = Done (m, i, Inl (if 0 < moved then Reacted else ContinueReact, g))"
      using True by (subst dev_producer_react_poll.simps) simp
    ultimately show ?thesis
      by blast
  next
    case False
    define s where "s = (case aw of None \<Rightarrow> recl_as_segm g | Some s \<Rightarrow> s)"
    note s = entered_child [OF "1.prems"(2) False s_def]
    obtain x m1 child i1 where f: "segm_mut_input_from rd m s i (LessThan (of_nat (recl_least_count g)))
        = Done (x, m1, child, i1)"
      using from_returns(1) [of rd m s i "of_nat (recl_least_count g)"] by blast
    obtain xs where step: "input_reacted given m (stands_at g aw) i xs m1 (recl_drop_child g child) i1"
      and ch: "child_of g child" and n: "\<And>y. x = Some y \<Longrightarrow> pick_left y = Some (soff child)"
      by (rule input_from_spec [OF "1.prems"(1) s(1) "1.prems"(3) f], unfold s(2), rule that)
    note unf = dev_producer_react_poll.simps [of rd m g i moved aw, folded s_def, unfolded f]
    consider (susp) "x = None" | (stop) y where "x = Some y" "pick_right y \<noteq> None \<or> soff child = 0"
      | (go) y where "x = Some y" "pick_right y = None" "soff child \<noteq> 0"
      by (cases x) auto
    then show ?thesis
    proof cases
      case susp
      then have "?A xs (m1, i1, Inr (g, moved, child))"
        using step ch by simp
      then show ?thesis
        using False susp by (auto simp: unf)
    next
      case stop
      then have "?A xs (m1, i1, Inl (if 0 < moved then Reacted else ContinueReact, recl_drop_child g child))"
        using step by simp
      then show ?thesis
        using False stop n by (auto simp: unf)
    next
      case go
      obtain r ys where r: "dev_producer_react_poll rd m1 (recl_drop_child g child) i1
            (moved + soff child) None = Done r"
        "input_answer given m1 (recl_drop_child g child) i1 ys r"
        using "1.IH" [OF False f [unfolded s_def go(1)] refl refl refl refl refl refl] go n "1.prems"(3)
          input_reacted_ok [OF step] child_ok [OF "1.prems"(1) s(1)] s(2)
        by auto
      have "dev_producer_react_poll rd m g i moved aw = Done r"
        using go n r(1) False by (auto simp: unf)
      moreover have "?A (xs @ ys) r"
        by (rule input_answer_trans [OF step r(2)])
      ultimately show ?thesis
        by blast
    qed
  qed
qed

lemma dev_consumer_react_poll_spec:
  "recl_ok m g \<Longrightarrow> await_ok g aw \<Longrightarrow> output_ok wr taken \<Longrightarrow>
   \<exists>r k. dev_consumer_react_poll wr m g p moved aw = Done r
      \<and> output_answer taken m (stands_at g aw) p k r"
proof (induction wr m g p moved aw rule: dev_consumer_react_poll.induct)
  case (1 wr m g p moved aw)
  let ?A = "output_answer taken m (stands_at g aw) p"
  show ?case
  proof (cases "aw = None \<and> recl_is_empty g")
    case True
    then have "?A 0 (p, Inl (if 0 < moved then Reacted else ContinueReact, g))"
      by (simp add: output_reacted_refl)
    moreover have "dev_consumer_react_poll wr m g p moved aw
        = Done (p, Inl (if 0 < moved then Reacted else ContinueReact, g))"
      using True by (subst dev_consumer_react_poll.simps) simp
    ultimately show ?thesis
      by blast
  next
    case False
    define s where "s = (case aw of None \<Rightarrow> recl_as_segm g | Some s \<Rightarrow> s)"
    note s = entered_child [OF "1.prems"(2) False s_def]
    obtain x child p1 where f: "segm_ref_output_from wr m s p (LessThan (of_nat (recl_least_count g)))
        = Done (x, child, p1)"
      using from_returns(2) [of wr m s p "of_nat (recl_least_count g)"] by blast
    obtain k where step: "output_reacted taken m (stands_at g aw) p k (recl_drop_child g child) p1"
      and ch: "child_of g child" and n: "\<And>y. x = Some y \<Longrightarrow> pick_left y = Some (soff child)"
      by (rule output_from_spec [OF "1.prems"(1) s(1) "1.prems"(3) f], unfold s(2), rule that)
    note unf = dev_consumer_react_poll.simps [of wr m g p moved aw, folded s_def, unfolded f]
    consider (susp) "x = None" | (stop) y where "x = Some y" "pick_right y \<noteq> None \<or> soff child = 0"
      | (go) y where "x = Some y" "pick_right y = None" "soff child \<noteq> 0"
      by (cases x) auto
    then show ?thesis
    proof cases
      case susp
      then have "?A k (p1, Inr (g, moved, child))"
        using step ch by simp
      then show ?thesis
        using False susp by (auto simp: unf)
    next
      case stop
      then have "?A k (p1, Inl (if 0 < moved then Reacted else ContinueReact, recl_drop_child g child))"
        using step by simp
      then show ?thesis
        using False stop n by (auto simp: unf)
    next
      case go
      obtain r j where r: "dev_consumer_react_poll wr m (recl_drop_child g child) p1
            (moved + soff child) None = Done r"
        "output_answer taken m (recl_drop_child g child) p1 j r"
        using "1.IH" [OF False f [unfolded s_def go(1)] refl refl refl refl refl] go n "1.prems"(3)
          output_reacted_ok [OF step] child_ok [OF "1.prems"(1) s(1)] s(2)
        by auto
      have "dev_consumer_react_poll wr m g p moved aw = Done r"
        using go n r(1) False by (auto simp: unf)
      moreover have "?A (k + j) r"
        by (rule output_answer_trans [OF step r(2)])
      ultimately show ?thesis
        by blast
    qed
  qed
qed

section \<open>The pumps as futures\<close>

text \<open>\<open>try_write_init\<close> and \<open>try_read_init\<close>: all the free space, all the data.\<close>

definition try_write_init :: "('a, 'i, 'o) circ \<Rightarrow> recl option" where
  "try_write_init c =
     (case circ_try_write_at c (LessThan (circ_capacity c)) of
        Inl e \<Rightarrow> None | Inr (start, tk) \<Rightarrow> Some (create_write_segm c start tk))"

definition try_read_init :: "('a, 'i, 'o) circ \<Rightarrow> recl option" where
  "try_read_init c =
     (case circ_try_read_at c (LessThan (circ_capacity c)) of
        Inl e \<Rightarrow> None | Inr (start, tk) \<Rightarrow> Some (create_read_segm c start tk))"

text \<open>
  Where a pump is between polls: at the head of its loop, or in a reaction on a borrowed segment, with
  the count the segment had, the count of the reaction's finished children and the current child.
\<close>

datatype pump_at = PumpTop | PumpIn recl nat nat segm

definition pump_segm :: "recl option \<Rightarrow> pump_at \<Rightarrow> (recl \<times> nat \<times> nat \<times> segm option) option" where
  "pump_segm fresh st =
     (case st of
        PumpTop \<Rightarrow> map_option (\<lambda>g. (g, recl_least_count g, 0, None)) fresh
      | PumpIn g before moved s \<Rightarrow> Some (g, before, moved, Some s))"

text \<open>
  One poll of \<open>dev_producer_pump_async_\<close> (\<open>dev_consumer_pump_async_\<close>): the total, or where it is suspended
  and the total so far. \<open>j\<close> bounds the rounds, \<open>k\<close> the calls of a commit.
\<close>

primrec producer_pump_loop ::
    "('a, 'e, 'i) input_dev \<Rightarrow> ('a, 'f, 'o) output_dev \<Rightarrow> nat \<Rightarrow> nat \<Rightarrow> pump_at \<Rightarrow> nat \<Rightarrow> ('a, 'i, 'o) circ
     \<Rightarrow> ((nat + pump_at \<times> nat) \<times> ('a, 'i, 'o) circ) option" where
  "producer_pump_loop rd wr k 0 st acc c = None"
| "producer_pump_loop rd wr k (Suc j) st acc c =
     (case cprod c of
        BufProducer d w \<Rightarrow> None
      | DevProducer i w \<Rightarrow>
          (case pump_segm (try_write_init c) st of
             None \<Rightarrow> Some (Inl acc, c)
           | Some (g, before, moved, aw) \<Rightarrow>
               (case dev_producer_react_poll rd (cbuf c) g i moved aw of
                  Panic e \<Rightarrow> None
                | Done (m', i', Inr (g', moved', s)) \<Rightarrow>
                    Some (Inr (PumpIn g' before moved' s, acc), c\<lparr>cbuf := m', cprod := DevProducer i' w\<rparr>)
                | Done (m', i', Inl (r, g')) \<Rightarrow>
                    (let n = before - recl_least_count g'
                     in case circ_advance_write rd wr k (of_nat (roff g'))
                               (c\<lparr>cbuf := m', cprod := DevProducer i' w\<rparr>) of
                          None \<Rightarrow> None
                        | Some c' \<Rightarrow>
                            if n = 0 \<or> r = ContinueReact then Some (Inl (acc + n), c')
                            else producer_pump_loop rd wr k j PumpTop (acc + n) c'))))"

primrec consumer_pump_loop ::
    "('a, 'e, 'i) input_dev \<Rightarrow> ('a, 'f, 'o) output_dev \<Rightarrow> nat \<Rightarrow> nat \<Rightarrow> pump_at \<Rightarrow> nat \<Rightarrow> ('a, 'i, 'o) circ
     \<Rightarrow> ((nat + pump_at \<times> nat) \<times> ('a, 'i, 'o) circ) option" where
  "consumer_pump_loop rd wr k 0 st acc c = None"
| "consumer_pump_loop rd wr k (Suc j) st acc c =
     (case ccons c of
        BufConsumer d w \<Rightarrow> None
      | DevConsumer p w \<Rightarrow>
          (case pump_segm (try_read_init c) st of
             None \<Rightarrow> Some (Inl acc, c)
           | Some (g, before, moved, aw) \<Rightarrow>
               (case dev_consumer_react_poll wr (cbuf c) g p moved aw of
                  Panic e \<Rightarrow> None
                | Done (p', Inr (g', moved', s)) \<Rightarrow>
                    Some (Inr (PumpIn g' before moved' s, acc), c\<lparr>ccons := DevConsumer p' w\<rparr>)
                | Done (p', Inl (r, g')) \<Rightarrow>
                    (let n = before - recl_least_count g'
                     in case circ_advance_read rd wr k (of_nat (roff g')) (c\<lparr>ccons := DevConsumer p' w\<rparr>) of
                          None \<Rightarrow> None
                        | Some c' \<Rightarrow>
                            if n = 0 \<or> r = ContinueReact then Some (Inl (acc + n), c')
                            else consumer_pump_loop rd wr k j PumpTop (acc + n) c'))))"

text \<open>\<open>pump_async\<close>: of a passive end it is ready at once with nothing moved.\<close>

definition producer_pump_poll ::
    "('a, 'e, 'i) input_dev \<Rightarrow> ('a, 'f, 'o) output_dev \<Rightarrow> nat \<Rightarrow> nat \<Rightarrow> pump_at \<times> nat \<Rightarrow> ('a, 'i, 'o) circ
     \<Rightarrow> ((nat + pump_at \<times> nat) \<times> ('a, 'i, 'o) circ) option" where
  "producer_pump_poll rd wr k j st c =
     (if producer_passive (cprod c) then Some (Inl 0, c)
      else producer_pump_loop rd wr k j (fst st) (snd st) c)"

definition consumer_pump_poll ::
    "('a, 'e, 'i) input_dev \<Rightarrow> ('a, 'f, 'o) output_dev \<Rightarrow> nat \<Rightarrow> nat \<Rightarrow> pump_at \<times> nat \<Rightarrow> ('a, 'i, 'o) circ
     \<Rightarrow> ((nat + pump_at \<times> nat) \<times> ('a, 'i, 'o) circ) option" where
  "consumer_pump_poll rd wr k j st c =
     (if consumer_passive (ccons c) then Some (Inl 0, c)
      else consumer_pump_loop rd wr k j (fst st) (snd st) c)"

text \<open>Dropping a suspended pump drops the child and then the segment, which commits.\<close>

definition drop_producer_pump ::
    "('a, 'e, 'i) input_dev \<Rightarrow> ('a, 'f, 'o) output_dev \<Rightarrow> nat \<Rightarrow> pump_at \<Rightarrow> ('a, 'i, 'o) circ
     \<Rightarrow> ('a, 'i, 'o) circ option" where
  "drop_producer_pump rd wr k st c =
     (case st of
        PumpTop \<Rightarrow> Some c
      | PumpIn g before moved s \<Rightarrow> circ_advance_write rd wr k (of_nat (roff (recl_drop_child g s))) c)"

definition drop_consumer_pump ::
    "('a, 'e, 'i) input_dev \<Rightarrow> ('a, 'f, 'o) output_dev \<Rightarrow> nat \<Rightarrow> pump_at \<Rightarrow> ('a, 'i, 'o) circ
     \<Rightarrow> ('a, 'i, 'o) circ option" where
  "drop_consumer_pump rd wr k st c =
     (case st of
        PumpTop \<Rightarrow> Some c
      | PumpIn g before moved s \<Rightarrow> circ_advance_read rd wr k (of_nat (roff (recl_drop_child g s))) c)"

section \<open>What a commit beside an active end leaves alone\<close>

fun producer_demand :: "'i producer \<Rightarrow> usize demand option" where
  "producer_demand (BufProducer d w) = d"
| "producer_demand (DevProducer i w) = None"

fun consumer_demand :: "'o consumer \<Rightarrow> usize demand option" where
  "consumer_demand (BufConsumer d w) = d"
| "consumer_demand (DevConsumer p w) = None"

lemma check_demand:
  "producer_demand (fst (snd (producer_check ws p ev))) = producer_demand p"
  "consumer_demand (fst (snd (consumer_check ws q ev'))) = consumer_demand q"
  by (cases "(ws, p, ev)" rule: producer_check.cases; auto split: option.splits producer_event.splits)
    (cases "(ws, q, ev')" rule: consumer_check.cases; auto split: option.splits consumer_event.splits)

lemma fire_demand [simp]:
  "producer_demand (cprod (fire_producer ev c)) = producer_demand (cprod c)"
  "consumer_demand (ccons (fire_consumer ev' c)) = consumer_demand (ccons c)"
  using check_demand(1) [of "cwaiters c" "cprod c" ev] check_demand(2) [of "cwaiters c" "ccons c" ev']
  by (auto simp: fire_producer_def fire_consumer_def split: prod.splits)

lemma advance_write_frame:
  assumes "circ_advance_write rd wr (Suc (Suc k)) n c = Some c'" "\<not> producer_passive (cprod c)"
    "circ_ok c" "unat n \<le> circ_free c"
  shows "circ_tx_closed c' = circ_tx_closed c" "circ_rx_closed c' = circ_rx_closed c"
    "slots_free w c \<Longrightarrow> slots_free w c'" "consumer_demand (ccons c') = consumer_demand (ccons c)"
    "cprod c' = cprod c"
proof -
  obtain ev where "c' = fire_consumer ev (update_pos (circ_write_word (circ_capacity c) n) c)"
    using advance_write_quiet [of c rd wr k n] assms(1,2) by auto
  then show "circ_tx_closed c' = circ_tx_closed c" "circ_rx_closed c' = circ_rx_closed c"
    "slots_free w c \<Longrightarrow> slots_free w c'" "consumer_demand (ccons c') = consumer_demand (ccons c)"
    "cprod c' = cprod c"
    using write_commit_closed [OF assms(3,4) refl] by simp_all
qed

lemma advance_read_frame:
  assumes "circ_advance_read rd wr (Suc (Suc k)) n c = Some c'" "\<not> consumer_passive (ccons c)"
    "circ_ok c" "unat n \<le> circ_data c"
  shows "circ_tx_closed c' = circ_tx_closed c" "circ_rx_closed c' = circ_rx_closed c"
    "slots_free w c \<Longrightarrow> slots_free w c'" "producer_demand (cprod c') = producer_demand (cprod c)"
    "ccons c' = ccons c"
proof -
  obtain ev where "c' = fire_producer ev (update_pos (circ_read_word (circ_capacity c) n) c)"
    using advance_read_quiet [of c rd wr k n] assms(1,2) by auto
  then show "circ_tx_closed c' = circ_tx_closed c" "circ_rx_closed c' = circ_rx_closed c"
    "slots_free w c \<Longrightarrow> slots_free w c'" "producer_demand (cprod c') = producer_demand (cprod c)"
    "ccons c' = ccons c"
    using read_commit_closed [OF assms(3,4) refl] by simp_all
qed

section \<open>What the input pump does\<close>

lemma write_init:
  assumes "circ_ok c"
  shows "try_write_init c
    = (if circ_free c = 0 then None else Some (create_write_segm c (pos_wp (circ_pos c)) (circ_free_size c)))"
proof -
  have "circ_free_size c \<le> circ_capacity c"
    using circ_sizes(1) [OF assms] circ_ok_cap(1) [OF assms]
    by (simp add: circ_free_def word_le_nat_alt)
  then show ?thesis
    by (simp add: try_write_init_def circ_try_write_at_def Let_def min_of_def max_of_def circ_free_def
        circ_free_size_def min_absorb2 unat_eq_zero)
qed

lemma read_init:
  assumes "circ_ok c"
  shows "try_read_init c
    = (if circ_data c = 0 then None else Some (create_read_segm c (pos_rp (circ_pos c)) (circ_data_size c)))"
proof -
  have "circ_data_size c \<le> circ_capacity c"
    using circ_sizes(1) [OF assms] circ_ok_cap(1) [OF assms]
    by (simp add: circ_data_def word_le_nat_alt)
  then show ?thesis
    by (simp add: try_read_init_def circ_try_read_at_def Let_def min_of_def max_of_def circ_data_def
        circ_data_size_def min_absorb2 unat_eq_zero)
qed

text \<open>
  The buffer after the commit of some items, and the buffer in which a suspended pump has cells of a
  borrowed segment filled that are not committed yet.
\<close>

definition filled ::
    "('i \<Rightarrow> 'a list) \<Rightarrow> ('o \<Rightarrow> 'a option list) \<Rightarrow> wid \<Rightarrow> ('a, 'i, 'o) circ \<Rightarrow> 'a list \<Rightarrow> ('a, 'i, 'o) circ \<Rightarrow> bool" where
  "filled given taken w c xs c' =
     (circ_ok c' \<and> circ_queue c' = circ_queue c @ map Some xs \<and> circ_free c = circ_free c' + length xs
      \<and> same_modes c c' \<and> in_stream given [] c' = in_stream given [] c @ xs
      \<and> (\<forall>received. out_stream taken received c' = out_stream taken received c)
      \<and> circ_tx_closed c' = circ_tx_closed c \<and> circ_rx_closed c' = circ_rx_closed c
      \<and> (slots_free w c \<longrightarrow> slots_free w c') \<and> consumer_demand (ccons c') = consumer_demand (ccons c))"

definition write_all :: "('a, 'i, 'o) circ \<Rightarrow> recl" where
  "write_all c = create_write_segm c (pos_wp (circ_pos c)) (circ_free_size c)"

definition filling ::
    "('i \<Rightarrow> 'a list) \<Rightarrow> ('a, 'i, 'o) circ \<Rightarrow> pump_at \<Rightarrow> ('a, 'i, 'o) circ \<Rightarrow> bool" where
  "filling given c0 st c =
     (case st of
        PumpTop \<Rightarrow> c = c0
      | PumpIn g before moved s \<Rightarrow>
          (\<exists>i0 i v m xs. cprod c0 = DevProducer i0 v \<and> c = c0\<lparr>cbuf := m, cprod := DevProducer i v\<rparr>
             \<and> input_reacted given (cbuf c0) (write_all c0) i0 xs m (recl_drop_child g s) i
             \<and> child_of g s \<and> rpieces g = rpieces (write_all c0) \<and> before = circ_free c0))"

lemma filled_refl: "circ_ok c \<Longrightarrow> filled given taken w c [] c"
  by (simp add: filled_def)

lemma filled_trans:
  "filled given taken w a xs b \<Longrightarrow> filled given taken w b ys c \<Longrightarrow> filled given taken w a (xs @ ys) c"
  by (auto simp: filled_def dest: same_modes_trans)

lemma write_all_ok:
  assumes "circ_ok c"
  shows "recl_ok (cbuf c) (write_all c)" "recl_least_count (write_all c) = circ_free c"
proof -
  have "unat (circ_free_size c) \<le> length (cbuf c)"
    using circ_sizes(1) [OF assms] by (simp add: circ_free_def)
  from circ_segm_ok [OF assms circ_sizes(3) [OF assms] this]
  show "recl_ok (cbuf c) (write_all c)" "recl_least_count (write_all c) = circ_free c"
    by (simp_all add: write_all_def circ_free_def)
qed

lemma filling_enters:
  assumes "circ_ok c0" "filling given c0 st c" "\<not> producer_passive (cprod c0)" "\<not> (st = PumpTop \<and> circ_free c0 = 0)"
  obtains i0 v i g moved aw m xs where "cprod c0 = DevProducer i0 v" "c = c0\<lparr>cbuf := m, cprod := DevProducer i v\<rparr>"
    "pump_segm (try_write_init c) st = Some (g, circ_free c0, moved, aw)" "recl_ok m g" "await_ok g aw"
    "input_reacted given (cbuf c0) (write_all c0) i0 xs m (stands_at g aw) i" "rpieces g = rpieces (write_all c0)"
proof (cases st)
  case PumpTop
  obtain i0 v where p: "cprod c0 = DevProducer i0 v"
    using assms(3) by (auto simp: not_passive)
  have c: "c = c0" "c0 = c0\<lparr>cbuf := cbuf c0, cprod := DevProducer i0 v\<rparr>"
    using assms(2) PumpTop p by (simp_all add: filling_def)
  have "try_write_init c = Some (write_all c0)"
    using write_init [OF assms(1)] assms(4) PumpTop c(1) by (simp add: write_all_def)
  then show thesis
    using c PumpTop write_all_ok [OF assms(1)]
    by (intro that [OF p, where m = "cbuf c0" and i = i0 and g = "write_all c0" and moved = 0 and aw = None and xs = "[]"])
      (simp_all add: pump_segm_def input_reacted_refl)
next
  case (PumpIn g before moved s)
  then obtain i0 i v m xs where x: "cprod c0 = DevProducer i0 v" "c = c0\<lparr>cbuf := m, cprod := DevProducer i v\<rparr>"
    "input_reacted given (cbuf c0) (write_all c0) i0 xs m (recl_drop_child g s) i" "child_of g s"
    "rpieces g = rpieces (write_all c0)" "before = circ_free c0"
    using assms(2) by (auto simp: filling_def)
  have "recl_ok m (recl_drop_child g s)"
    by (rule input_reacted_ok [OF x(3) write_all_ok(1) [OF assms(1)]])
  then have "recl_ok m g"
    using x(4) by (simp add: recl_ok_def child_of_def recl_least_count_def)
  then show thesis
    using x PumpIn by (intro that [OF x(1,2), where g = g and moved = moved and aw = "Some s" and xs = xs]) (simp_all add: pump_segm_def)
qed

lemma filled_commit:
  assumes "circ_ok c0" "cprod c0 = DevProducer i0 v"
    "input_reacted given (cbuf c0) (write_all c0) i0 xs m g i"
  obtains c1 where "circ_advance_write rd wr (Suc (Suc k)) (of_nat (roff g)) (c0\<lparr>cbuf := m, cprod := DevProducer i v\<rparr>)
      = Some c1" "filled given taken w c0 xs c1" "circ_free c0 - recl_least_count g = length xs"
proof -
  let ?c2 = "c0\<lparr>cbuf := m, cprod := DevProducer i v\<rparr>"
  note rx = assms(3) [unfolded write_all_def]
  have free: "unat (circ_free_size c0) = circ_free c0"
    by (simp add: circ_free_def)
  note cm = input_commit [OF assms(1,2) eq_refl [OF free] rx, unfolded free]
  obtain c1 where c1: "circ_advance_write rd wr (Suc (Suc k)) (of_nat (length xs)) ?c2 = Some c1"
    using cm(5) [of rd wr k] by blast
  have after: "circ_ok c1" "circ_queue c1 = circ_queue c0 @ map Some xs" "circ_free c1 = circ_free c0 - length xs"
    "same_modes c0 c1" "in_stream given [] c1 = in_stream given [] c0 @ xs"
    "out_stream taken received c1 = out_stream taken received c0" for received
    using cm(5) [of rd wr k "[]" taken received] c1 by auto
  have "length m = length (cbuf c0)"
    using rx by (simp add: input_reacted_def)
  then have same: "circ_ok ?c2" "circ_free ?c2 = circ_free c0"
    using circ_cong [of ?c2 "c0\<lparr>cbuf := m\<rparr>"] circ_put_frame [of m c0] assms(1) by simp_all
  have "unat (of_nat (length xs) :: usize) \<le> length xs"
    by (simp add: unat_of_nat)
  then have le: "unat (of_nat (length xs) :: usize) \<le> circ_free ?c2"
    using cm(3) same(2) by linarith
  note fr = advance_write_frame [OF c1 _ same(1) le]
  have "slots_free w ?c2 = slots_free w c0"
    by (simp add: slots_free_def assms(2))
  then have "filled given taken w c0 xs c1"
    using after cm(3) fr by (simp add: filled_def circ_tx_closed_def circ_rx_closed_def)
  then show thesis
    using that c1 cm(2,4) cm(3) by simp
qed

lemma producer_pump_loop_spec:
  "circ_ok c0 \<Longrightarrow> filling given c0 st c \<Longrightarrow> \<not> producer_passive (cprod c0) \<Longrightarrow> input_ok rd given \<Longrightarrow>
   circ_free c0 < j \<Longrightarrow>
   \<exists>r c'. producer_pump_loop rd wr (Suc (Suc k)) j st acc c = Some (r, c')
     \<and> (case r of
          Inl n \<Rightarrow> \<exists>xs. filled given taken w c0 xs c' \<and> n = acc + length xs
        | Inr (st', acc') \<Rightarrow> \<exists>c1 xs. filled given taken w c0 xs c1 \<and> filling given c1 st' c' \<and> acc' = acc + length xs)"
proof (induction j arbitrary: c0 st c acc)
  case (Suc j)
  note ok = Suc.prems(1)
  show ?case
  proof (cases "st = PumpTop \<and> circ_free c0 = 0")
    case True
    then have "producer_pump_loop rd wr (Suc (Suc k)) (Suc j) st acc c = Some (Inl acc, c)" "c = c0"
      using Suc.prems(1-3) write_init [OF ok]
      by (auto simp: filling_def pump_segm_def not_passive)
    then show ?thesis
      using filled_refl [OF ok, of given taken w] by force
  next
    case False
    obtain i0 v i g moved aw m xs where p: "cprod c0 = DevProducer i0 v"
      and c: "c = c0\<lparr>cbuf := m, cprod := DevProducer i v\<rparr>"
      and ps: "pump_segm (try_write_init c) st = Some (g, circ_free c0, moved, aw)"
      and g: "recl_ok m g" "await_ok g aw"
      and rx: "input_reacted given (cbuf c0) (write_all c0) i0 xs m (stands_at g aw) i"
      by (rule filling_enters [OF ok Suc.prems(2,3) False], rule that)
    obtain r ys where r: "dev_producer_react_poll rd m g i moved aw = Done r"
      and ans: "input_answer given m (stands_at g aw) i ys r"
      using dev_producer_react_poll_spec [OF g Suc.prems(4), of i moved] by blast
    have full: "input_answer given (cbuf c0) (write_all c0) i0 (xs @ ys) r"
      by (rule input_answer_trans [OF rx ans])
    note unf = producer_pump_loop.simps(2) [of rd wr "Suc (Suc k)" j st acc c]
    show ?thesis
    proof (cases "snd (snd r)")
      case (Inr y)
      then obtain m' i' g' moved' s where y: "r = (m', i', Inr (g', moved', s))"
        by (cases r; cases y) auto
      have "filling given c0 (PumpIn g' (circ_free c0) moved' s) (c0\<lparr>cbuf := m', cprod := DevProducer i' v\<rparr>)"
        using full p by (auto simp: y filling_def)
      then show ?thesis
        using ps r filled_refl [OF ok, of given taken w] by (force simp: unf c y)
    next
      case (Inl y)
      then obtain m' i' x g' where y: "r = (m', i', Inl (x, g'))"
        by (cases r; cases y) auto
      let ?n = "length (xs @ ys)"
      obtain c1 where c1: "circ_advance_write rd wr (Suc (Suc k)) (of_nat (roff g'))
            (c0\<lparr>cbuf := m', cprod := DevProducer i' v\<rparr>) = Some c1"
        and fl: "filled given taken w c0 (xs @ ys) c1" and n: "circ_free c0 - recl_least_count g' = ?n"
        by (rule filled_commit [OF ok p full [unfolded y input_answer.simps]], rule that)
      have step: "producer_pump_loop rd wr (Suc (Suc k)) (Suc j) st acc c
          = (if ?n = 0 \<or> x = ContinueReact then Some (Inl (acc + ?n), c1)
             else producer_pump_loop rd wr (Suc (Suc k)) j PumpTop (acc + ?n) c1)"
        using ps r c1 n by (simp add: unf c y Let_def)
      show ?thesis
      proof (cases "?n = 0 \<or> x = ContinueReact")
        case True
        then show ?thesis
          using step fl by fastforce
      next
        case False
        have fr: "circ_free c0 = circ_free c1 + ?n" "circ_ok c1"
          using fl by (simp_all only: filled_def)
        then have "circ_free c1 < j"
          using False Suc.prems(5) by linarith
        moreover have "filling given c1 PumpTop c1" "\<not> producer_passive (cprod c1)"
          using fl Suc.prems(3) by (simp_all add: filling_def filled_def same_modes_def)
        ultimately obtain r' c' where "producer_pump_loop rd wr (Suc (Suc k)) j PumpTop (acc + ?n) c1 = Some (r', c')"
          "case r' of
             Inl n \<Rightarrow> \<exists>zs. filled given taken w c1 zs c' \<and> n = acc + ?n + length zs
           | Inr (st', acc') \<Rightarrow> \<exists>c2 zs. filled given taken w c1 zs c2 \<and> filling given c2 st' c' \<and> acc' = acc + ?n + length zs"
          using Suc.IH [of c1 PumpTop c1 "acc + ?n"] Suc.prems(4) fr(2) by blast
        then show ?thesis
          using step False filled_trans [OF fl] by (fastforce split: sum.splits)
      qed
    qed
  qed
qed simp

section \<open>What the output pump does\<close>

definition drained ::
    "('i \<Rightarrow> 'a list) \<Rightarrow> ('o \<Rightarrow> 'a option list) \<Rightarrow> wid \<Rightarrow> ('a, 'i, 'o) circ \<Rightarrow> nat \<Rightarrow> ('a, 'i, 'o) circ \<Rightarrow> bool" where
  "drained given taken w c n c' =
     (circ_ok c' \<and> circ_queue c' = drop n (circ_queue c) \<and> circ_data c = circ_data c' + n
      \<and> same_modes c c' \<and> (\<forall>sent. in_stream given sent c' = in_stream given sent c)
      \<and> out_stream taken [] c' = out_stream taken [] c @ take n (circ_queue c)
      \<and> circ_tx_closed c' = circ_tx_closed c \<and> circ_rx_closed c' = circ_rx_closed c
      \<and> (slots_free w c \<longrightarrow> slots_free w c') \<and> producer_demand (cprod c') = producer_demand (cprod c))"

definition read_all :: "('a, 'i, 'o) circ \<Rightarrow> recl" where
  "read_all c = create_read_segm c (pos_rp (circ_pos c)) (circ_data_size c)"

definition draining ::
    "('o \<Rightarrow> 'a option list) \<Rightarrow> ('a, 'i, 'o) circ \<Rightarrow> pump_at \<Rightarrow> ('a, 'i, 'o) circ \<Rightarrow> bool" where
  "draining taken c0 st c =
     (case st of
        PumpTop \<Rightarrow> c = c0
      | PumpIn g before moved s \<Rightarrow>
          (\<exists>p0 p v n. ccons c0 = DevConsumer p0 v \<and> c = c0\<lparr>ccons := DevConsumer p v\<rparr>
             \<and> output_reacted taken (cbuf c0) (read_all c0) p0 n (recl_drop_child g s) p
             \<and> child_of g s \<and> rpieces g = rpieces (read_all c0) \<and> before = circ_data c0))"

lemma drained_refl: "circ_ok c \<Longrightarrow> drained given taken w c 0 c"
  by (simp add: drained_def)

lemma drained_trans:
  assumes "drained given taken w a n b" "drained given taken w b k c"
  shows "drained given taken w a (n + k) c"
proof -
  have q: "circ_queue b = drop n (circ_queue a)"
    using assms(1) by (simp only: drained_def)
  have "take (n + k) (circ_queue a) = take n (circ_queue a) @ take k (circ_queue b)"
    by (simp only: q take_add)
  moreover have "drop (n + k) (circ_queue a) = drop k (circ_queue b)"
    by (simp add: q add.commute)
  moreover note q
  ultimately show ?thesis
    using assms same_modes_trans [of a b c] by (simp add: drained_def)
qed

lemma read_all_ok:
  assumes "circ_ok c"
  shows "recl_ok (cbuf c) (read_all c)" "recl_least_count (read_all c) = circ_data c"
proof -
  have "unat (circ_data_size c) \<le> length (cbuf c)"
    using circ_sizes(1) [OF assms] by (simp add: circ_data_def)
  from circ_segm_ok [OF assms circ_sizes(2) [OF assms] this]
  show "recl_ok (cbuf c) (read_all c)" "recl_least_count (read_all c) = circ_data c"
    by (simp_all add: read_all_def circ_data_def)
qed

lemma draining_enters:
  assumes "circ_ok c0" "draining taken c0 st c" "\<not> consumer_passive (ccons c0)"
    "\<not> (st = PumpTop \<and> circ_data c0 = 0)"
  obtains p0 v p g moved aw n where "ccons c0 = DevConsumer p0 v" "c = c0\<lparr>ccons := DevConsumer p v\<rparr>"
    "pump_segm (try_read_init c) st = Some (g, circ_data c0, moved, aw)" "recl_ok (cbuf c0) g" "await_ok g aw"
    "output_reacted taken (cbuf c0) (read_all c0) p0 n (stands_at g aw) p"
proof (cases st)
  case PumpTop
  obtain p0 v where p: "ccons c0 = DevConsumer p0 v"
    using assms(3) by (auto simp: not_passive)
  have c: "c = c0" "c0 = c0\<lparr>ccons := DevConsumer p0 v\<rparr>"
    using assms(2) PumpTop p by (simp_all add: draining_def)
  have "try_read_init c = Some (read_all c0)"
    using read_init [OF assms(1)] assms(4) PumpTop c(1) by (simp add: read_all_def)
  then show thesis
    using c PumpTop read_all_ok [OF assms(1)]
    by (intro that [OF p, where p = p0 and g = "read_all c0" and moved = 0 and aw = None and n = 0])
      (simp_all add: pump_segm_def output_reacted_refl)
next
  case (PumpIn g before moved s)
  then obtain p0 p v n where x: "ccons c0 = DevConsumer p0 v" "c = c0\<lparr>ccons := DevConsumer p v\<rparr>"
    "output_reacted taken (cbuf c0) (read_all c0) p0 n (recl_drop_child g s) p" "child_of g s"
    "rpieces g = rpieces (read_all c0)" "before = circ_data c0"
    using assms(2) by (auto simp: draining_def)
  have "recl_ok (cbuf c0) (recl_drop_child g s)"
    by (rule output_reacted_ok [OF x(3) read_all_ok(1) [OF assms(1)]])
  then have "recl_ok (cbuf c0) g"
    using x(4) by (simp add: recl_ok_def child_of_def recl_least_count_def)
  then show thesis
    using x PumpIn
    by (intro that [OF x(1,2), where g = g and moved = moved and aw = "Some s" and n = n]) (simp_all add: pump_segm_def)
qed

lemma drained_commit:
  assumes "circ_ok c0" "ccons c0 = DevConsumer p0 v"
    "output_reacted taken (cbuf c0) (read_all c0) p0 n g p"
  obtains c1 where "circ_advance_read rd wr (Suc (Suc k)) (of_nat (roff g)) (c0\<lparr>ccons := DevConsumer p v\<rparr>) = Some c1"
    "drained given taken w c0 n c1" "circ_data c0 - recl_least_count g = n"
proof -
  let ?c2 = "c0\<lparr>ccons := DevConsumer p v\<rparr>"
  note rx = assms(3) [unfolded read_all_def]
  have size: "unat (circ_data_size c0) = circ_data c0"
    by (simp add: circ_data_def)
  note cm = output_commit [OF assms(1,2) eq_refl [OF size] rx, unfolded size]
  obtain c1 where c1: "circ_advance_read rd wr (Suc (Suc k)) (of_nat n) ?c2 = Some c1"
    using cm(5) [of rd wr k] by blast
  have after: "circ_ok c1" "circ_queue c1 = drop n (circ_queue c0)" "circ_data c1 = circ_data c0 - n"
    "same_modes c0 c1" "in_stream given sent c1 = in_stream given sent c0"
    "out_stream taken [] c1 = out_stream taken [] c0 @ take n (circ_queue c0)" for sent
    using cm(5) [of rd wr k given sent "[]"] c1 by auto
  have same: "circ_ok ?c2" "circ_data ?c2 = circ_data c0"
    using circ_cong [of ?c2 c0] assms(1) by simp_all
  have "unat (of_nat n :: usize) \<le> n"
    by (simp add: unat_of_nat)
  then have le: "unat (of_nat n :: usize) \<le> circ_data ?c2"
    using cm(3) same(2) by linarith
  note fr = advance_read_frame [OF c1 _ same(1) le]
  have "slots_free w ?c2 = slots_free w c0"
    by (simp add: slots_free_def assms(2))
  then have "drained given taken w c0 n c1"
    using after cm(3) fr by (simp add: drained_def circ_tx_closed_def circ_rx_closed_def)
  then show thesis
    using that c1 cm(2,4) cm(3) by simp
qed

lemma consumer_pump_loop_spec:
  "circ_ok c0 \<Longrightarrow> draining taken c0 st c \<Longrightarrow> \<not> consumer_passive (ccons c0) \<Longrightarrow> output_ok wr taken \<Longrightarrow>
   circ_data c0 < j \<Longrightarrow>
   \<exists>r c'. consumer_pump_loop rd wr (Suc (Suc k)) j st acc c = Some (r, c')
     \<and> (case r of
          Inl n \<Rightarrow> \<exists>m. drained given taken w c0 m c' \<and> n = acc + m
        | Inr (st', acc') \<Rightarrow> \<exists>c1 m. drained given taken w c0 m c1 \<and> draining taken c1 st' c' \<and> acc' = acc + m)"
proof (induction j arbitrary: c0 st c acc)
  case (Suc j)
  note ok = Suc.prems(1)
  show ?case
  proof (cases "st = PumpTop \<and> circ_data c0 = 0")
    case True
    then have "consumer_pump_loop rd wr (Suc (Suc k)) (Suc j) st acc c = Some (Inl acc, c)" "c = c0"
      using Suc.prems(1-3) read_init [OF ok]
      by (auto simp: draining_def pump_segm_def not_passive)
    then show ?thesis
      using drained_refl [OF ok, of given taken w] by force
  next
    case False
    obtain p0 v p g moved aw n where q: "ccons c0 = DevConsumer p0 v"
      and c: "c = c0\<lparr>ccons := DevConsumer p v\<rparr>"
      and ps: "pump_segm (try_read_init c) st = Some (g, circ_data c0, moved, aw)"
      and g: "recl_ok (cbuf c0) g" "await_ok g aw"
      and rx: "output_reacted taken (cbuf c0) (read_all c0) p0 n (stands_at g aw) p"
      by (rule draining_enters [OF ok Suc.prems(2,3) False], rule that)
    obtain r k1 where r: "dev_consumer_react_poll wr (cbuf c0) g p moved aw = Done r"
      and ans: "output_answer taken (cbuf c0) (stands_at g aw) p k1 r"
      using dev_consumer_react_poll_spec [OF g Suc.prems(4), of p moved] by blast
    have full: "output_answer taken (cbuf c0) (read_all c0) p0 (n + k1) r"
      by (rule output_answer_trans [OF rx ans])
    note unf = consumer_pump_loop.simps(2) [of rd wr "Suc (Suc k)" j st acc c]
    show ?thesis
    proof (cases "snd r")
      case (Inr y)
      then obtain p' g' moved' s where y: "r = (p', Inr (g', moved', s))"
        by (cases r; cases y) auto
      have "draining taken c0 (PumpIn g' (circ_data c0) moved' s) (c0\<lparr>ccons := DevConsumer p' v\<rparr>)"
        using full q by (auto simp: y draining_def)
      then show ?thesis
        using ps r drained_refl [OF ok, of given taken w] by (force simp: unf c y)
    next
      case (Inl y)
      then obtain p' x g' where y: "r = (p', Inl (x, g'))"
        by (cases r; cases y) auto
      let ?n = "n + k1"
      obtain c1 where c1: "circ_advance_read rd wr (Suc (Suc k)) (of_nat (roff g'))
            (c0\<lparr>ccons := DevConsumer p' v\<rparr>) = Some c1"
        and fl: "drained given taken w c0 ?n c1" and n: "circ_data c0 - recl_least_count g' = ?n"
        by (rule drained_commit [OF ok q full [unfolded y output_answer.simps]], rule that)
      have step: "consumer_pump_loop rd wr (Suc (Suc k)) (Suc j) st acc c
          = (if ?n = 0 \<or> x = ContinueReact then Some (Inl (acc + ?n), c1)
             else consumer_pump_loop rd wr (Suc (Suc k)) j PumpTop (acc + ?n) c1)"
        using ps r c1 n by (simp add: unf c y Let_def)
      show ?thesis
      proof (cases "?n = 0 \<or> x = ContinueReact")
        case True
        then show ?thesis
          using step fl by fastforce
      next
        case False
        have fr: "circ_data c0 = circ_data c1 + ?n" "circ_ok c1"
          using fl by (simp_all only: drained_def)
        then have "circ_data c1 < j"
          using False Suc.prems(5) by linarith
        moreover have "draining taken c1 PumpTop c1" "\<not> consumer_passive (ccons c1)"
          using fl Suc.prems(3) by (simp_all add: draining_def drained_def same_modes_def)
        ultimately obtain r' c' where "consumer_pump_loop rd wr (Suc (Suc k)) j PumpTop (acc + ?n) c1 = Some (r', c')"
          "case r' of
             Inl n' \<Rightarrow> \<exists>z. drained given taken w c1 z c' \<and> n' = acc + ?n + z
           | Inr (st', acc') \<Rightarrow> \<exists>c2 z. drained given taken w c1 z c2 \<and> draining taken c2 st' c' \<and> acc' = acc + ?n + z"
          using Suc.IH [of c1 PumpTop c1 "acc + ?n"] Suc.prems(4) fr(2) by blast
        then show ?thesis
          using step False drained_trans [OF fl] by (fastforce split: sum.splits)
      qed
    qed
  qed
qed simp

end
