(* ===== verification/Circ_Async.thy ===== *)
theory Circ_Async
  imports Circ_Pump
begin

text \<open>
  The waits of a passive half whose other end may be active (\<open>core_.rs\<close>: \<open>core_passive_read_async_\<close>,
  \<open>core_passive_write_async_\<close>), one poll of a future at a time. Unlike in \<open>Circ_Park\<close> the pump of the other end may move items, or leave
  the future suspended in a device.
\<close>

section \<open>The futures\<close>

text \<open>At the head of the loop, in the pump of the other end, or parked (registered or not).\<close>

datatype half_at = HalfTop | HalfPump pump_at nat | HalfPark bool

type_synonym ('e, 'a, 'i, 'o) half_next =
  "(('e, recl) rust_result poll \<times> half_at \<times> ('a, 'i, 'o) circ) + (half_at \<times> ('a, 'i, 'o) circ)"

text \<open>
  The pieces of the two futures between an await and the next: a piece ends the poll (\<open>Inl\<close>) or goes on
  (\<open>Inr\<close>). \<open>None\<close> is the panic of a second concurrent call, a spin on an occupied slot, or not enough fuel.
\<close>

definition core_read_step ::
    "('a, 'e, 'i) input_dev \<Rightarrow> ('a, 'f, 'o) output_dev \<Rightarrow> nat \<Rightarrow> nat \<Rightarrow> bool \<Rightarrow> wid \<Rightarrow> waker \<Rightarrow> usize demand
     \<Rightarrow> half_at \<Rightarrow> ('a, 'i, 'o) circ \<Rightarrow> (consumer_error, 'a, 'i, 'o) half_next option" where
  "core_read_step rd wr k j cancelled w kk d st c =
     (case st of
        HalfTop \<Rightarrow>
          (case circ_try_read rd wr k d c of
             None \<Rightarrow> None
           | Some (Inr g, c1) \<Rightarrow> Some (Inl (Ready (Inr g), HalfTop, c1))
           | Some (Inl e, c1) \<Rightarrow>
               if read_should_terminate (consumer_err_tag e) then Some (Inl (Ready (Inl e), HalfTop, c1))
               else Some (Inr (HalfPump PumpTop 0, c1)))
      | HalfPump p acc \<Rightarrow>
          (case producer_pump_poll rd wr k j (p, acc) c of
             None \<Rightarrow> None
           | Some (Inr (p', acc'), c1) \<Rightarrow> Some (Inl (Pending, HalfPump p' acc', c1))
           | Some (Inl n, c1) \<Rightarrow>
               if 0 < n then Some (Inr (HalfTop, c1))
               else
                 (let (fresh, q) = consumer_set_demand d (ccons c1)
                  in if \<not> fresh then None
                     else Some (Inr (HalfPark False, set_rx_standby (c1\<lparr>ccons := q\<rparr>)))))
      | HalfPark reg \<Rightarrow>
          (case read_park_round w kk d reg c of
             None \<Rightarrow> None
           | Some (ready, reg', c1) \<Rightarrow>
               if ready then Some (Inr (HalfTop, read_guard_drop reg' w c1))
               else if cancelled then Some (Inl (Ready (Inl CCancelled), HalfTop, read_guard_drop reg' w c1))
               else Some (Inl (Pending, HalfPark reg', c1))))"

definition core_write_step ::
    "('a, 'e, 'i) input_dev \<Rightarrow> ('a, 'f, 'o) output_dev \<Rightarrow> nat \<Rightarrow> nat \<Rightarrow> bool \<Rightarrow> wid \<Rightarrow> waker \<Rightarrow> usize demand
     \<Rightarrow> half_at \<Rightarrow> ('a, 'i, 'o) circ \<Rightarrow> (producer_error, 'a, 'i, 'o) half_next option" where
  "core_write_step rd wr k j cancelled w kk d st c =
     (case st of
        HalfTop \<Rightarrow>
          (case circ_try_write rd wr k d c of
             None \<Rightarrow> None
           | Some (Inr g, c1) \<Rightarrow> Some (Inl (Ready (Inr g), HalfTop, c1))
           | Some (Inl e, c1) \<Rightarrow>
               if write_should_terminate (producer_err_tag e) then Some (Inl (Ready (Inl e), HalfTop, c1))
               else Some (Inr (HalfPump PumpTop 0, c1)))
      | HalfPump p acc \<Rightarrow>
          (case consumer_pump_poll rd wr k j (p, acc) c of
             None \<Rightarrow> None
           | Some (Inr (p', acc'), c1) \<Rightarrow> Some (Inl (Pending, HalfPump p' acc', c1))
           | Some (Inl n, c1) \<Rightarrow>
               if 0 < n then Some (Inr (HalfTop, c1))
               else
                 (let (fresh, q) = producer_set_demand d (cprod c1)
                  in if \<not> fresh then None
                     else Some (Inr (HalfPark False, set_tx_standby (c1\<lparr>cprod := q\<rparr>)))))
      | HalfPark reg \<Rightarrow>
          (case write_park_round w kk d reg c of
             None \<Rightarrow> None
           | Some (ready, reg', c1) \<Rightarrow>
               if ready then Some (Inr (HalfTop, write_guard_drop reg' w c1))
               else if cancelled then Some (Inl (Ready (Inl PCancelled), HalfTop, write_guard_drop reg' w c1))
               else Some (Inl (Pending, HalfPark reg', c1))))"

definition core_read_poll ::
    "('a, 'e, 'i) input_dev \<Rightarrow> ('a, 'f, 'o) output_dev \<Rightarrow> nat \<Rightarrow> wid \<Rightarrow> usize demand \<Rightarrow> nat \<Rightarrow> bool \<times> waker
     \<Rightarrow> half_at \<times> ('a, 'i, 'o) circ
     \<Rightarrow> ((consumer_error, recl) rust_result poll \<times> half_at \<times> ('a, 'i, 'o) circ) option" where
  "core_read_poll rd wr k w d f x s =
     run_steps (\<lambda>(st, c). core_read_step rd wr k k (fst x) w (snd x) d st c) f s"

definition core_write_poll ::
    "('a, 'e, 'i) input_dev \<Rightarrow> ('a, 'f, 'o) output_dev \<Rightarrow> nat \<Rightarrow> wid \<Rightarrow> usize demand \<Rightarrow> nat \<Rightarrow> bool \<times> waker
     \<Rightarrow> half_at \<times> ('a, 'i, 'o) circ
     \<Rightarrow> ((producer_error, recl) rust_result poll \<times> half_at \<times> ('a, 'i, 'o) circ) option" where
  "core_write_poll rd wr k w d f x s =
     run_steps (\<lambda>(st, c). core_write_step rd wr k k (fst x) w (snd x) d st c) f s"

text \<open>Dropping the future where it is.\<close>

definition drop_read_future ::
    "('a, 'e, 'i) input_dev \<Rightarrow> ('a, 'f, 'o) output_dev \<Rightarrow> nat \<Rightarrow> wid \<Rightarrow> half_at \<Rightarrow> ('a, 'i, 'o) circ
     \<Rightarrow> ('a, 'i, 'o) circ option" where
  "drop_read_future rd wr k w st c =
     (case st of
        HalfTop \<Rightarrow> Some c
      | HalfPump p acc \<Rightarrow> drop_producer_pump rd wr k p c
      | HalfPark reg \<Rightarrow> Some (read_guard_drop reg w c))"

definition drop_write_future ::
    "('a, 'e, 'i) input_dev \<Rightarrow> ('a, 'f, 'o) output_dev \<Rightarrow> nat \<Rightarrow> wid \<Rightarrow> half_at \<Rightarrow> ('a, 'i, 'o) circ
     \<Rightarrow> ('a, 'i, 'o) circ option" where
  "drop_write_future rd wr k w st c =
     (case st of
        HalfTop \<Rightarrow> Some c
      | HalfPump p acc \<Rightarrow> drop_consumer_pump rd wr k p c
      | HalfPark reg \<Rightarrow> Some (write_guard_drop reg w c))"

section \<open>The shape of the futures\<close>

text \<open>
  The two futures have one shape: attempt, pump, enter the demand, park. Its correctness is shown once, from
  what the five pieces promise.
\<close>

definition half_step ::
    "('c \<Rightarrow> (('e, 'g) rust_result \<times> 'c) option) \<Rightarrow> ('e \<Rightarrow> bool)
     \<Rightarrow> (pump_at \<times> nat \<Rightarrow> 'c \<Rightarrow> ((nat + pump_at \<times> nat) \<times> 'c) option) \<Rightarrow> ('c \<Rightarrow> 'c option)
     \<Rightarrow> (bool \<Rightarrow> 'c \<Rightarrow> (bool \<times> bool \<times> 'c) option) \<Rightarrow> (bool \<Rightarrow> 'c \<Rightarrow> 'c) \<Rightarrow> 'e \<Rightarrow> bool \<Rightarrow> half_at \<times> 'c
     \<Rightarrow> ((('e, 'g) rust_result poll \<times> half_at \<times> 'c) + (half_at \<times> 'c)) option" where
  "half_step attempt final pump enter round leave stopped cancelled s =
     (case s of
        (HalfTop, c) \<Rightarrow>
          map_option (\<lambda>(r, c1). if (case r of Inl e \<Rightarrow> final e | Inr g \<Rightarrow> True) then Inl (Ready r, HalfTop, c1)
                              else Inr (HalfPump PumpTop 0, c1)) (attempt c)
      | (HalfPump p acc, c) \<Rightarrow>
          Option.bind (pump (p, acc) c) (\<lambda>(r, c1). case r of
             Inr (p', acc') \<Rightarrow> Some (Inl (Pending, HalfPump p' acc', c1))
           | Inl n \<Rightarrow> if 0 < n then Some (Inr (HalfTop, c1))
                      else map_option (\<lambda>c2. Inr (HalfPark False, c2)) (enter c1))
      | (HalfPark reg, c) \<Rightarrow>
          map_option (\<lambda>(ready, reg', c1). if ready then Inr (HalfTop, leave reg' c1)
                              else if cancelled then Inl (Ready (Inl stopped), HalfTop, leave reg' c1)
                              else Inl (Pending, HalfPark reg', c1)) (round reg c))"

fun half_rests ::
    "('c \<Rightarrow> bool) \<Rightarrow> ('c \<Rightarrow> bool) \<Rightarrow> ('c \<Rightarrow> pump_at \<Rightarrow> 'c \<Rightarrow> bool) \<Rightarrow> half_at \<times> 'c \<Rightarrow> bool" where
  "half_rests ok parked mid (HalfTop, c) = ok c"
| "half_rests ok parked mid (HalfPump p acc, c) = (\<exists>c0. ok c0 \<and> mid c0 p c)"
| "half_rests ok parked mid (HalfPark reg, c) = parked c"

locale half_future =
  fixes attempt :: "'c \<Rightarrow> (('e, 'g) rust_result \<times> 'c) option"
    and final :: "'e \<Rightarrow> bool"
    and pump :: "pump_at \<times> nat \<Rightarrow> 'c \<Rightarrow> ((nat + pump_at \<times> nat) \<times> 'c) option"
    and enter :: "'c \<Rightarrow> 'c option"
    and round :: "waker \<Rightarrow> bool \<Rightarrow> 'c \<Rightarrow> (bool \<times> bool \<times> 'c) option"
    and leave :: "bool \<Rightarrow> 'c \<Rightarrow> 'c"
    and stopped :: "'e"
    and drop_pump :: "pump_at \<Rightarrow> 'c \<Rightarrow> 'c option"
    and ok :: "'c \<Rightarrow> bool"
    and parked :: "'c \<Rightarrow> bool"
    and mid :: "'c \<Rightarrow> pump_at \<Rightarrow> 'c \<Rightarrow> bool"
    and room :: "'c \<Rightarrow> nat"
    and stop :: "'c \<Rightarrow> bool"
    and answer :: "('e, 'g) rust_result \<Rightarrow> 'c \<Rightarrow> bool"
    and bound :: "nat"
  assumes attempt_law: "ok c \<Longrightarrow> \<exists>r c1. attempt c = Some (r, c1) \<and> ok c1 \<and> room c1 \<le> room c
      \<and> (if (case r of Inl e \<Rightarrow> final e | Inr g \<Rightarrow> True) then answer r c1 else \<not> stop c)"
    and pump_law: "ok c0 \<Longrightarrow> mid c0 p c \<Longrightarrow> \<exists>r c1. pump (p, acc) c = Some (r, c1)
      \<and> (case r of
           Inl n \<Rightarrow> ok c1 \<and> room c + acc = room c1 + n \<and> acc \<le> n
         | Inr (p', acc') \<Rightarrow> \<exists>c2. ok c2 \<and> mid c2 p' c1)"
    and mid_top: "ok c \<Longrightarrow> mid c PumpTop c"
    and mid_room: "ok c0 \<Longrightarrow> mid c0 p c \<Longrightarrow> room c \<le> bound"
    and room_bound: "ok c \<Longrightarrow> room c \<le> bound"
    and enter_law: "ok c \<Longrightarrow> \<exists>c1. enter c = Some c1 \<and> parked c1"
    and round_law: "parked c \<Longrightarrow> \<exists>ready reg' c1. round kk reg c = Some (ready, reg', c1) \<and> parked c1 \<and> (ready \<longrightarrow> stop c1)"
    and leave_law: "parked c \<Longrightarrow> ok (leave reg c) \<and> (stop (leave reg c) = stop c)"
    and stopped_law: "ok c \<Longrightarrow> answer (Inl stopped) c"
    and drop_law: "ok c0 \<Longrightarrow> mid c0 p c \<Longrightarrow> \<exists>c1. drop_pump p c = Some c1 \<and> ok c1"
begin

fun rank :: "half_at \<times> 'c \<Rightarrow> nat" where
  "rank (HalfTop, c) = (if stop c then 1 else 3 * room c + 4)"
| "rank (HalfPump p acc, c) = 3 * room c + (if acc = 0 then 3 else 5)"
| "rank (HalfPark reg, c) = 2"

lemma rank_bound: "half_rests ok parked mid s \<Longrightarrow> rank s \<le> 3 * bound + 5"
proof (cases s rule: rank.cases)
  case (1 c)
  then show "half_rests ok parked mid s \<Longrightarrow> ?thesis"
    using room_bound [of c] by simp
next
  case (2 p acc c)
  then show "half_rests ok parked mid s \<Longrightarrow> ?thesis"
    using mid_room [of _ p c] by fastforce
qed simp

lemma progress:
  assumes "half_rests ok parked mid s"
  shows "\<exists>x. half_step attempt final pump enter (round kk) leave stopped cancelled s = Some x
    \<and> (case x of
         Inl (r, s') \<Rightarrow> if r = Pending then half_rests ok parked mid s' else \<exists>y. r = Ready y \<and> ok (snd s') \<and> answer y (snd s')
       | Inr s' \<Rightarrow> half_rests ok parked mid s' \<and> rank s' < rank s)"
proof (cases s rule: rank.cases)
  case (1 c)
  obtain r c1 where "attempt c = Some (r, c1)" "ok c1" "room c1 \<le> room c"
    "if (case r of Inl e \<Rightarrow> final e | Inr g \<Rightarrow> True) then answer r c1 else \<not> stop c"
    using attempt_law [of c] assms 1 by auto
  then show ?thesis
    using mid_top [of c1] by (auto simp: 1 half_step_def split: if_splits)
next
  case (2 p acc c)
  then obtain c0 where c0: "ok c0" "mid c0 p c"
    using assms by auto
  obtain r c1 where r: "pump (p, acc) c = Some (r, c1)" "case r of
      Inl n \<Rightarrow> ok c1 \<and> room c + acc = room c1 + n \<and> acc \<le> n
    | Inr (p', acc') \<Rightarrow> \<exists>c2. ok c2 \<and> mid c2 p' c1"
    using pump_law [OF c0, of acc] by blast
  then show ?thesis
    using enter_law [of c1] by (auto simp: 2 half_step_def split: sum.splits)
next
  case (3 reg c)
  obtain ready reg' c1 where "round kk reg c = Some (ready, reg', c1)" "parked c1" "ready \<longrightarrow> stop c1"
    using round_law [of c kk reg] assms 3 by auto
  then show ?thesis
    using leave_law [of c1 reg'] stopped_law by (auto simp: 3 half_step_def)
qed

lemma polls_return:
  assumes "ok c" "3 * bound + 6 \<le> f"
  shows "\<exists>r s. run_polls (\<lambda>x. run_steps (half_step attempt final pump enter (round (snd x)) leave stopped (fst x)) f)
      polls (HalfTop, c) = Some (r, s)
    \<and> (if r = Pending then half_rests ok parked mid s else \<exists>y. r = Ready y \<and> ok (snd s) \<and> answer y (snd s))"
proof (rule run_polls_return [where I = "half_rests ok parked mid"])
  show "half_rests ok parked mid (HalfTop, c)"
    using assms(1) by simp
  fix x s
  assume s: "half_rests ok parked mid s"
  have "rank s < f"
    using rank_bound [OF s] assms(2) by linarith
  then have "\<exists>y. run_steps (half_step attempt final pump enter (round (snd x)) leave stopped (fst x)) f s = Some y
      \<and> (case y of (r, s') \<Rightarrow> if r = Pending then half_rests ok parked mid s'
            else \<exists>y. r = Ready y \<and> ok (snd s') \<and> answer y (snd s'))"
    using s progress by (intro run_steps_return [where rank = rank and I = "half_rests ok parked mid"]) (simp_all only: split_beta)
  then show "\<exists>r s'. run_steps (half_step attempt final pump enter (round (snd x)) leave stopped (fst x)) f s = Some (r, s')
      \<and> (if r = Pending then half_rests ok parked mid s' else \<exists>y. r = Ready y \<and> ok (snd s') \<and> answer y (snd s'))"
    by auto
qed

lemma dropped:
  assumes "half_rests ok parked mid (st, c)"
  shows "\<exists>c'. (case st of HalfTop \<Rightarrow> Some c | HalfPump p acc \<Rightarrow> drop_pump p c | HalfPark reg \<Rightarrow> Some (leave reg c)) = Some c'
    \<and> ok c'"
  using assms drop_law leave_law by (cases st) auto

end

section \<open>The pump inside the synchronous attempt\<close>

text \<open>It leaves the demand of the passive end alone, and the slots to their waiters; a closed end stays closed.\<close>

lemma pack_keeps_closed:
  "has_flag s f \<Longrightarrow> f \<in> {CIRC_TX_CLOSED, CIRC_RX_CLOSED} \<Longrightarrow> has_flag (iopos_pack p s) f"
  by (cases "pos_rv p") (auto simp: iopos_pack_def Let_def circ_flag_bit circ_flag_bits bit_simps bit_iopos_mask
      bit_reversion)

lemma commit_keeps_closed:
  "circ_tx_closed c \<Longrightarrow> circ_tx_closed (update_pos (circ_write_word cap n) c)"
  "circ_rx_closed c \<Longrightarrow> circ_rx_closed (update_pos (circ_write_word cap n) c)"
  "circ_tx_closed c \<Longrightarrow> circ_tx_closed (update_pos (circ_read_word cap n) c)"
  "circ_rx_closed c \<Longrightarrow> circ_rx_closed (update_pos (circ_read_word cap n) c)"
  by (simp_all add: circ_tx_closed_def circ_rx_closed_def circ_write_word_def circ_read_word_def pack_keeps_closed)

definition end_kept :: "wid \<Rightarrow> ('a, 'i, 'o) circ \<Rightarrow> ('a, 'i, 'o) circ \<Rightarrow> bool" where
  "end_kept w c c' =
     (consumer_demand (ccons c') = consumer_demand (ccons c) \<and> producer_demand (cprod c') = producer_demand (cprod c)
      \<and> (slots_free w c \<longrightarrow> slots_free w c') \<and> (circ_tx_closed c \<longrightarrow> circ_tx_closed c')
      \<and> (circ_rx_closed c \<longrightarrow> circ_rx_closed c'))"

lemma end_kept_refl [simp]: "end_kept w c c"
  by (simp add: end_kept_def)

lemma end_kept_trans: "end_kept w a b \<Longrightarrow> end_kept w b c \<Longrightarrow> end_kept w a c"
  by (simp add: end_kept_def)

lemma advance_kept:
  "circ_advance_write rd wr k n c = Some c' \<Longrightarrow> \<not> producer_passive (cprod c) \<Longrightarrow>
    end_kept w c c' \<and> \<not> producer_passive (cprod c')"
  "circ_advance_read rd wr k n c = Some c' \<Longrightarrow> \<not> consumer_passive (ccons c) \<Longrightarrow>
    end_kept w c c' \<and> \<not> consumer_passive (ccons c')"
proof -
  have k: "k = Suc (Suc (k - 2))"
    if "circ_advance_write rd wr k n c \<noteq> None \<or> circ_advance_read rd wr k n c \<noteq> None"
    using that by (cases k; cases "k - 1") (auto simp: pump_simps Let_def)
  show "end_kept w c c' \<and> \<not> producer_passive (cprod c')"
    if c': "circ_advance_write rd wr k n c = Some c'" and a: "\<not> producer_passive (cprod c)"
  proof -
    obtain ev where "circ_advance_write rd wr (Suc (Suc (k - 2))) n c
        = Some (fire_consumer ev (update_pos (circ_write_word (circ_capacity c) n) c))"
      using advance_write_quiet [OF disjI2 [OF a], of rd wr "k - 2" n] by blast
    then show ?thesis
      using c' k a by (auto simp: end_kept_def commit_keeps_closed)
  qed
  show "end_kept w c c' \<and> \<not> consumer_passive (ccons c')"
    if c': "circ_advance_read rd wr k n c = Some c'" and a: "\<not> consumer_passive (ccons c)"
  proof -
    obtain ev where "circ_advance_read rd wr (Suc (Suc (k - 2))) n c
        = Some (fire_producer ev (update_pos (circ_read_word (circ_capacity c) n) c))"
      using advance_read_quiet [OF disjI2 [OF a], of rd wr "k - 2" n] by blast
    then show ?thesis
      using c' k a by (auto simp: end_kept_def commit_keeps_closed)
  qed
qed

lemma react_kept:
  "producer_react rd m g (cprod c) = Done (x, m', g', p') \<Longrightarrow>
    end_kept w c (c\<lparr>cbuf := m', cprod := p'\<rparr>) \<and> producer_passive p' = producer_passive (cprod c)"
  "consumer_react wr m g (ccons c) = Done (y, g', q') \<Longrightarrow>
    end_kept w c (c\<lparr>ccons := q'\<rparr>) \<and> consumer_passive q' = consumer_passive (ccons c)"
  by (cases "cprod c"; auto simp: producer_react_def end_kept_def slots_free_def circ_tx_closed_def
        circ_rx_closed_def split: prod.splits)
    (cases "ccons c"; auto simp: consumer_react_def end_kept_def slots_free_def circ_tx_closed_def
        circ_rx_closed_def split: prod.splits)

lemma pump_input_loop_kept:
  "pump_input_loop rd wr k acc c = Some (n, c') \<Longrightarrow> \<not> producer_passive (cprod c) \<Longrightarrow> end_kept w c c'"
proof (induction k arbitrary: acc c)
  case (Suc k)
  show ?case
  proof (cases "circ_tx_closed c \<or> circ_rx_closed c \<or> iopos_free_size (circ_pos c) = 0")
    case True
    then show ?thesis
      using Suc.prems(1) by (auto simp: pump_input_loop.simps Let_def split: if_splits)
  next
    case False
    let ?r = "producer_react rd (cbuf c) (create_write_segm c (pos_wp (circ_pos c)) (iopos_free_size (circ_pos c)))
      (cprod c)"
    obtain x m' g' p' c1 where r: "?r = Done (x, m', g', p')"
      and c1: "circ_advance_write rd wr k (of_nat (roff g')) (c\<lparr>cbuf := m', cprod := p'\<rparr>) = Some c1"
      and rest: "c' = c1 \<or> (\<exists>acc'. pump_input_loop rd wr k acc' c1 = Some (n, c'))"
      using False Suc.prems(1)
      by (auto simp: pump_input_loop.simps(2) Let_def split: run.splits prod.splits option.splits if_splits)
    note rk = react_kept(1) [OF r, of w]
    have np: "\<not> producer_passive (cprod (c\<lparr>cbuf := m', cprod := p'\<rparr>))"
      using rk Suc.prems(2) by simp
    note ak = advance_kept(1) [OF c1 np, of w]
    from rest show ?thesis
    proof
      assume "c' = c1"
      then show ?thesis
        using rk ak end_kept_trans by blast
    next
      assume "\<exists>acc'. pump_input_loop rd wr k acc' c1 = Some (n, c')"
      then have "end_kept w c1 c'"
        using Suc.IH ak by blast
      then show ?thesis
        using rk ak end_kept_trans by blast
    qed
  qed
qed (simp add: pump_input_loop.simps)

lemma pump_output_loop_kept:
  "pump_output_loop rd wr k acc c = Some (n, c') \<Longrightarrow> \<not> consumer_passive (ccons c) \<Longrightarrow> end_kept w c c'"
proof (induction k arbitrary: acc c)
  case (Suc k)
  show ?case
  proof (cases "circ_rx_closed c \<or> iopos_data_size (circ_pos c) = 0")
    case True
    then show ?thesis
      using Suc.prems(1) by (auto simp: pump_output_loop.simps Let_def split: if_splits)
  next
    case False
    let ?r = "consumer_react wr (cbuf c) (create_read_segm c (pos_rp (circ_pos c)) (iopos_data_size (circ_pos c)))
      (ccons c)"
    obtain x g' p' c1 where r: "?r = Done (x, g', p')"
      and c1: "circ_advance_read rd wr k (of_nat (roff g')) (c\<lparr>ccons := p'\<rparr>) = Some c1"
      and rest: "c' = c1 \<or> (\<exists>acc'. pump_output_loop rd wr k acc' c1 = Some (n, c'))"
      using False Suc.prems(1)
      by (auto simp: pump_output_loop.simps(2) Let_def split: run.splits prod.splits option.splits if_splits)
    note rk = react_kept(2) [OF r, of w]
    have np: "\<not> consumer_passive (ccons (c\<lparr>ccons := p'\<rparr>))"
      using rk Suc.prems(2) by simp
    note ak = advance_kept(2) [OF c1 np, of w]
    from rest show ?thesis
    proof
      assume "c' = c1"
      then show ?thesis
        using rk ak end_kept_trans by blast
    next
      assume "\<exists>acc'. pump_output_loop rd wr k acc' c1 = Some (n, c')"
      then have "end_kept w c1 c'"
        using Suc.IH ak by blast
      then show ?thesis
        using rk ak end_kept_trans by blast
    qed
  qed
qed (simp add: pump_output_loop.simps)

lemma drops_kept:
  "circ_advance_read rd wr k n c = Some c' \<Longrightarrow> \<not> producer_passive (cprod c) \<Longrightarrow> end_kept w c c'"
  "circ_advance_write rd wr k n c = Some c' \<Longrightarrow> \<not> consumer_passive (ccons c) \<Longrightarrow> end_kept w c c'"
proof -
  show "end_kept w c c'" if d: "circ_advance_read rd wr k n c = Some c'" "\<not> producer_passive (cprod c)"
  proof -
    obtain k' where k: "k = Suc k'"
      using d(1) by (cases k) (auto simp: circ_advance_read.simps)
    let ?u = "update_pos (circ_read_word (circ_capacity c) n) c"
    obtain ev m where p: "pump_input_sync rd wr k' (fire_producer ev ?u) = Some (m, c')"
      using d(1) by (auto simp: k circ_advance_read.simps Let_def)
    have "end_kept w c (fire_producer ev ?u)"
      using d(2) by (auto simp: end_kept_def commit_keeps_closed)
    moreover have "end_kept w (fire_producer ev ?u) c'"
      using p d(2) pump_input_loop_kept [of rd wr _ 0 "fire_producer ev ?u" m c']
      by (cases k') (auto simp: pump_input_sync.simps split: if_splits)
    ultimately show ?thesis
      by (rule end_kept_trans)
  qed
  show "end_kept w c c'" if d: "circ_advance_write rd wr k n c = Some c'" "\<not> consumer_passive (ccons c)"
  proof -
    obtain k' where k: "k = Suc k'"
      using d(1) by (cases k) (auto simp: circ_advance_write.simps)
    let ?u = "update_pos (circ_write_word (circ_capacity c) n) c"
    obtain ev m where p: "pump_output_sync rd wr k' (fire_consumer ev ?u) = Some (m, c')"
      using d(1) by (auto simp: k circ_advance_write.simps Let_def)
    have "end_kept w c (fire_consumer ev ?u)"
      using d(2) by (auto simp: end_kept_def commit_keeps_closed)
    moreover have "end_kept w (fire_consumer ev ?u) c'"
      using p d(2) pump_output_loop_kept [of rd wr _ 0 "fire_consumer ev ?u" m c']
      by (cases k') (auto simp: pump_output_sync.simps split: if_splits)
    ultimately show ?thesis
      by (rule end_kept_trans)
  qed
qed

lemma try_kept:
  "circ_try_read rd wr k d c = Some (r, c') \<Longrightarrow> end_kept w c c'"
  "circ_try_write rd wr k d c = Some (s, c'') \<Longrightarrow> end_kept w c c''"
proof -
  have "end_kept w c c1" if "pump_input_sync rd wr k c = Some (n, c1)" for n c1
    using that pump_input_loop_kept by (cases k) (auto simp: pump_input_sync.simps split: if_splits)
  then show "circ_try_read rd wr k d c = Some (r, c') \<Longrightarrow> end_kept w c c'"
    by (auto simp: circ_try_read_def Let_def split: sum.splits if_splits prod.splits simp del: read_should_terminate.simps)
  have "end_kept w c c1" if "pump_output_sync rd wr k c = Some (n, c1)" for n c1
    using that pump_output_loop_kept by (cases k) (auto simp: pump_output_sync.simps split: if_splits)
  then show "circ_try_write rd wr k d c = Some (s, c'') \<Longrightarrow> end_kept w c c''"
    by (auto simp: circ_try_write_def Let_def split: sum.splits if_splits prod.splits simp del: write_should_terminate.simps)
qed

section \<open>Parking touches no data\<close>

fun producer_device :: "'i producer \<Rightarrow> 'i option" where
  "producer_device (BufProducer d w) = None"
| "producer_device (DevProducer i w) = Some i"

fun consumer_device :: "'o consumer \<Rightarrow> 'o option" where
  "consumer_device (BufConsumer d w) = None"
| "consumer_device (DevConsumer p w) = Some p"

definition same_data :: "('a, 'i, 'o) circ \<Rightarrow> ('a, 'i, 'o) circ \<Rightarrow> bool" where
  "same_data c c' =
     (circ_pos c' = circ_pos c \<and> cbuf c' = cbuf c \<and> circ_tx_closed c' = circ_tx_closed c
      \<and> circ_rx_closed c' = circ_rx_closed c \<and> producer_device (cprod c') = producer_device (cprod c)
      \<and> consumer_device (ccons c') = consumer_device (ccons c))"

lemma passive_device:
  "producer_passive p = (producer_device p = None)" "consumer_passive q = (consumer_device q = None)"
  by (cases p; simp) (cases q; simp)

lemma stream_device:
  "in_stream given snt c = (case producer_device (cprod c) of None \<Rightarrow> snt | Some i \<Rightarrow> given i)"
  "out_stream taken rc c = (case consumer_device (ccons c) of None \<Rightarrow> rc | Some p \<Rightarrow> taken p)"
  by (cases "cprod c"; simp add: in_stream_def) (cases "ccons c"; simp add: out_stream_def)

lemma same_data:
  assumes "same_data c c'"
  shows "circ_ok c' = circ_ok c" "circ_data c' = circ_data c" "circ_free c' = circ_free c"
    "circ_queue c' = circ_queue c" "length (cbuf c') = length (cbuf c)"
    "streams given taken snt rc c' = streams given taken snt rc c"
    "producer_passive (cprod c') = producer_passive (cprod c)" "consumer_passive (ccons c') = consumer_passive (ccons c)"
    "can_stop_read c' d = can_stop_read c d" "can_stop_write c' d = can_stop_write c d"
proof -
  have eqs: "circ_pos c' = circ_pos c" "cbuf c' = cbuf c" "circ_tx_closed c' = circ_tx_closed c"
    "circ_rx_closed c' = circ_rx_closed c" "producer_device (cprod c') = producer_device (cprod c)"
    "consumer_device (ccons c') = consumer_device (ccons c)"
    using assms by (simp_all only: same_data_def)
  note pc = pos_cong [OF eqs(1,2)]
  show "circ_ok c' = circ_ok c" "circ_data c' = circ_data c" "circ_free c' = circ_free c"
    "circ_queue c' = circ_queue c" "length (cbuf c') = length (cbuf c)"
    "streams given taken snt rc c' = streams given taken snt rc c"
    "producer_passive (cprod c') = producer_passive (cprod c)" "consumer_passive (ccons c') = consumer_passive (ccons c)"
    using pc eqs by (simp_all add: streams_def stream_device passive_device)
  show "can_stop_read c' d = can_stop_read c d" "can_stop_write c' d = can_stop_write c d"
    using eqs by (simp_all add: can_stop_read_iff can_stop_write_iff circ_data_size_def circ_free_size_def)
qed

lemma same_data_trans: "same_data a b \<Longrightarrow> same_data b c \<Longrightarrow> same_data a c"
  by (simp add: same_data_def)

lemma end_set_device [simp]:
  "producer_device (producer_set_slot sl p) = producer_device p" "consumer_device (consumer_set_slot sl q) = consumer_device q"
  "producer_device (producer_reset_demand p) = producer_device p" "consumer_device (consumer_reset_demand q) = consumer_device q"
  "producer_device (snd (producer_set_demand d p)) = producer_device p"
  "consumer_device (snd (consumer_set_demand d q)) = consumer_device q"
proof -
  show "producer_device (producer_set_slot sl p) = producer_device p"
    "producer_device (producer_reset_demand p) = producer_device p"
    by (cases p; simp)+
  show "consumer_device (consumer_set_slot sl q) = consumer_device q"
    "consumer_device (consumer_reset_demand q) = consumer_device q"
    by (cases q; simp)+
  show "producer_device (snd (producer_set_demand d p)) = producer_device p"
    by (cases "(d, p)" rule: producer_set_demand.cases) auto
  show "consumer_device (snd (consumer_set_demand d q)) = consumer_device q"
    by (cases "(d, q)" rule: consumer_set_demand.cases) auto
qed

lemma unset_closed [simp]:
  "circ_tx_closed (unset_rx_standby c) = circ_tx_closed c" "circ_rx_closed (unset_rx_standby c) = circ_rx_closed c"
  "circ_tx_closed (unset_tx_standby c) = circ_tx_closed c" "circ_rx_closed (unset_tx_standby c) = circ_rx_closed c"
  by (simp_all add: unset_rx_standby_def unset_tx_standby_def circ_clear_flag_def atomic_update_def Let_def
      circ_tx_closed_def circ_rx_closed_def circ_flag_bits circ_clear_flag_word_def bit_and_iff bit_not_iff
      circ_flag_bit split: prod.splits if_splits)

lemma parking_same_data:
  "same_data c (set_rx_standby (c\<lparr>ccons := snd (consumer_set_demand d (ccons c))\<rparr>))"
  "same_data c (set_tx_standby (c\<lparr>cprod := snd (producer_set_demand d (cprod c))\<rparr>))"
  "same_data c (read_guard_drop reg w c)" "same_data c (write_guard_drop reg w c)"
  "same_data c (c\<lparr>cwaiters := ws, ccons := consumer_set_slot sl (ccons c)\<rparr>)"
  "same_data c (c\<lparr>cwaiters := ws, cprod := producer_set_slot sl (cprod c)\<rparr>)"
  by (simp_all add: same_data_def read_guard_drop_def write_guard_drop_def Let_def)

section \<open>A read beside an active producer\<close>

text \<open>
  What holds between the pieces of a read: the streams agree (in a suspended pump those of the buffer its
  segment was borrowed from), and the demand is registered exactly while the future is parked.
\<close>

definition reading ::
    "('a, 'e, 'i) input_dev \<Rightarrow> nat \<Rightarrow> ('i \<Rightarrow> 'a list) \<Rightarrow> ('o \<Rightarrow> 'a option list) \<Rightarrow> 'a option list \<Rightarrow> wid \<Rightarrow> nat
     \<Rightarrow> usize demand option \<Rightarrow> ('a, 'i, 'o) circ \<Rightarrow> bool" where
  "reading rd k given taken rc w L dm c =
     (input_ok rd given \<and> L + 4 \<le> k \<and> streams given taken [] rc c \<and> \<not> producer_passive (cprod c)
      \<and> consumer_passive (ccons c) \<and> slots_free w c \<and> length (cbuf c) = L \<and> consumer_demand (ccons c) = dm)"

text \<open>A ready read: a segment over the oldest items, of an amount in the demand, or a final error.\<close>

definition read_answer :: "usize demand \<Rightarrow> (consumer_error, recl) rust_result \<Rightarrow> ('a, 'i, 'o) circ \<Rightarrow> bool" where
  "read_answer d r c =
     (case r of
        Inl e \<Rightarrow> e \<in> {CClosing, CCancelled}
      | Inr g \<Rightarrow> \<exists>start tk. circ_try_read_at c d = Inr (start, tk) \<and> g = create_read_segm c start tk)"

definition read_enter_park :: "usize demand \<Rightarrow> ('a, 'i, 'o) circ \<Rightarrow> ('a, 'i, 'o) circ option" where
  "read_enter_park d c =
     (let (fresh, q) = consumer_set_demand d (ccons c) in if fresh then Some (set_rx_standby (c\<lparr>ccons := q\<rparr>)) else None)"

lemma core_read_step_shape:
  "core_read_step rd wr k j cancelled w kk d st c =
     half_step (circ_try_read rd wr k d) (\<lambda>e. read_should_terminate (consumer_err_tag e)) (producer_pump_poll rd wr k j)
       (read_enter_park d) (read_park_round w kk d) (\<lambda>reg. read_guard_drop reg w) CCancelled cancelled (st, c)"
  by (cases st) (auto simp: core_read_step_def half_step_def read_enter_park_def Let_def
      split: option.splits prod.splits sum.splits)

lemma stop_iff_answer:
  "can_stop_read c d = (case circ_try_read_at c d of Inl e \<Rightarrow> e = CClosing | Inr x \<Rightarrow> True)"
  by (auto simp: can_stop_read_def circ_try_read_at_def Let_def)

lemma set_demand_passive:
  "consumer_passive q \<Longrightarrow> consumer_demand q = None \<Longrightarrow>
    fst (consumer_set_demand d q) \<and> consumer_demand (snd (consumer_set_demand d q)) = Some d
      \<and> consumer_slot (snd (consumer_set_demand d q)) = consumer_slot q"
  "producer_passive p \<Longrightarrow> producer_demand p = None \<Longrightarrow>
    fst (producer_set_demand d p) \<and> producer_demand (snd (producer_set_demand d p)) = Some d
      \<and> producer_slot (snd (producer_set_demand d p)) = producer_slot p"
  by (cases q; simp) (cases p; simp)

lemma reading_same:
  "same_data c c' \<Longrightarrow> reading rd k given taken rc w L dm c \<Longrightarrow> slots_free w c' \<Longrightarrow>
    reading rd k given taken rc w L (consumer_demand (ccons c')) c'"
  by (simp add: reading_def same_data)

lemma reading_filled:
  "reading rd k given taken rc w L dm c0 \<Longrightarrow> filled given taken w c0 xs c1 \<Longrightarrow>
    reading rd k given taken rc w L dm c1 \<and> circ_free c0 = circ_free c1 + length xs"
  by (auto simp: reading_def filled_def streams_def same_modes_def)

lemma filling_free:
  assumes "filling given c0 p c"
  shows "circ_free c = circ_free c0" "\<not> producer_passive (cprod c0) \<Longrightarrow> \<not> producer_passive (cprod c)"
proof -
  have "cstat c = cstat c0 \<and> length (cbuf c) = length (cbuf c0)"
    using assms by (auto simp: filling_def input_reacted_def split: pump_at.splits)
  then show "circ_free c = circ_free c0"
    by (simp add: circ_free_def circ_free_size_def circ_pos_def circ_capacity_def)
  show "\<not> producer_passive (cprod c0) \<Longrightarrow> \<not> producer_passive (cprod c)"
    using assms by (auto simp: filling_def split: pump_at.splits)
qed

lemma two_sucs: "2 \<le> k \<Longrightarrow> \<exists>m. k = Suc (Suc m)"
  by (cases k; cases "k - 1") auto

text \<open>The pieces of the read keep their promises.\<close>

lemma read_attempt:
  fixes c :: "('a, 'i, 'o) circ"
  assumes "reading rd k given taken rc w L None c"
  shows "\<exists>r c1. circ_try_read rd wr k d c = Some (r, c1) \<and> reading rd k given taken rc w L None c1
    \<and> circ_free c1 \<le> circ_free c
    \<and> (if (case r of Inl e \<Rightarrow> read_should_terminate (consumer_err_tag e) | Inr g \<Rightarrow> True) then read_answer d r c1
       else \<not> can_stop_read c d)"
proof -
  let ?at = "\<lambda>c. case circ_try_read_at c d of Inl e \<Rightarrow> Inl e
                  | Inr (start, tk) \<Rightarrow> Inr (create_read_segm c start tk)"
  have b: "streams given taken [] rc c" "length (cbuf c) + 4 \<le> k" "\<not> producer_passive (cprod c)"
    "consumer_passive (ccons c)" "input_ok rd given"
    using assms by (simp_all add: reading_def)
  have final: "if (case ?at c of Inl e \<Rightarrow> read_should_terminate (consumer_err_tag e) | Inr g \<Rightarrow> True) then read_answer d (?at c) c
      else \<not> can_stop_read c d" for c :: "('a, 'i, 'o) circ"
    by (cases "circ_try_read_at c d") (auto simp: read_answer_def can_stop_read_def circ_try_read_at_def Let_def
        split: prod.splits if_splits)
  show ?thesis
  proof (cases "can_stop_read c d")
    case True
    then have "circ_try_read rd wr k d c = Some (?at c, c)"
      by (cases "circ_try_read_at c d") (auto simp: circ_try_read_def Let_def stop_iff_answer split: prod.splits)
    then show ?thesis
      using assms final [of c] True by auto
  next
    case False
    have "k = Suc (k - 1)" "circ_free c + 3 \<le> k - 1"
      using b(1,2) circ_sizes(1) [of c] by (simp_all add: streams_def)
    then obtain n c1 xs where p: "pump_input_sync rd wr k c = Some (n, c1)" "streams given taken [] rc c1"
      "same_modes c c1" "out_stream taken rc c1 = out_stream taken rc c"
      "in_stream given [] c1 = in_stream given [] c @ xs"
      using pump_input_loop_returns [OF b(1,3,4,5), of "k - 1" wr 0] b(3,4)
        pump_input_sync.simps(2) [of rd wr "k - 1" c] by fastforce
    have t: "circ_try_read rd wr k d c = Some (?at c1, c1)"
      using False p(1) by (cases "circ_try_read_at c d") (auto simp: circ_try_read_def Let_def stop_iff_answer
          circ_try_read_at_def split: prod.splits if_splits)
    have ok: "circ_ok c" "circ_ok c1"
      using b(1) p(2) by (simp_all add: streams_def)
    have "map Some (in_stream given [] c) @ map Some xs = out_stream taken rc c @ circ_queue c1"
      using p(2,4,5) by (simp add: streams_def)
    moreover have "map Some (in_stream given [] c) = out_stream taken rc c @ circ_queue c"
      using b(1) by (simp add: streams_def)
    ultimately have "circ_queue c1 = circ_queue c @ map Some xs"
      by simp
    from arg_cong [OF this, of length] have "circ_data c \<le> circ_data c1"
      by simp
    then have "circ_free c1 \<le> circ_free c"
      using circ_sizes(1) [OF ok(1)] circ_sizes(1) [OF ok(2)] p(3) by (simp add: same_modes_def)
    moreover have "reading rd k given taken rc w L None c1"
      using assms p try_kept(1) [OF t, of w] by (simp add: reading_def end_kept_def same_modes_def)
    ultimately show ?thesis
      using t final [of c1] False by auto
  qed
qed

lemma read_pump:
  assumes "reading rd k given taken rc w L None c0" "filling given c0 p c"
  shows "\<exists>r c1. producer_pump_poll rd wr k k (p, acc) c = Some (r, c1)
      \<and> (case r of
           Inl n \<Rightarrow> reading rd k given taken rc w L None c1 \<and> circ_free c + acc = circ_free c1 + n \<and> acc \<le> n
         | Inr (p', acc') \<Rightarrow> \<exists>c2. reading rd k given taken rc w L None c2 \<and> filling given c2 p' c1)"
proof -
  have ok: "circ_ok c0" "\<not> producer_passive (cprod c0)" "circ_free c0 < k" "input_ok rd given" "2 \<le> k"
    using assms(1) circ_sizes(1) [of c0] by (auto simp: reading_def streams_def)
  obtain m where m: "k = Suc (Suc m)"
    using two_sucs [OF ok(5)] by blast
  obtain r c1 where r: "producer_pump_loop rd wr k k p acc c = Some (r, c1)"
    and out: "case r of
        Inl n \<Rightarrow> \<exists>xs. filled given taken w c0 xs c1 \<and> n = acc + length xs
      | Inr (p', acc') \<Rightarrow> \<exists>c2 xs. filled given taken w c0 xs c2 \<and> filling given c2 p' c1 \<and> acc' = acc + length xs"
    using producer_pump_loop_spec [OF ok(1) assms(2) ok(2,4,3), of wr m acc taken w] unfolding m by blast
  have "case r of
      Inl n \<Rightarrow> reading rd k given taken rc w L None c1 \<and> circ_free c + acc = circ_free c1 + n \<and> acc \<le> n
    | Inr (p', acc') \<Rightarrow> \<exists>c2. reading rd k given taken rc w L None c2 \<and> filling given c2 p' c1"
    using out reading_filled [OF assms(1)] filling_free(1) [OF assms(2)] by (auto split: sum.splits)
  then show ?thesis
    using r filling_free(2) [OF assms(2) ok(2)] by (auto simp: producer_pump_poll_def)
qed

lemma read_parks:
  assumes "reading rd k given taken rc w L None c"
  shows "\<exists>c1. read_enter_park d c = Some c1 \<and> reading rd k given taken rc w L (Some d) c1"
proof -
  let ?q = "consumer_set_demand d (ccons c)"
  let ?c1 = "set_rx_standby (c\<lparr>ccons := snd ?q\<rparr>)"
  have q: "fst ?q" "consumer_demand (snd ?q) = Some d" "consumer_slot (snd ?q) = consumer_slot (ccons c)"
    using set_demand_passive(1) [of "ccons c" d] assms by (simp_all add: reading_def)
  then have "slots_free w ?c1"
    using assms by (simp add: reading_def slots_free_def)
  from reading_same [OF parking_same_data(1) assms this] show ?thesis
    using q by (cases ?q) (simp add: read_enter_park_def)
qed

lemma read_parked:
  assumes "reading rd k given taken rc w L (Some d) c"
  shows "\<exists>ready reg' c1. read_park_round w kk d reg c = Some (ready, reg', c1)
    \<and> reading rd k given taken rc w L (Some d) c1 \<and> (ready \<longrightarrow> can_stop_read c1 d)"
proof -
  let ?c1 = "c\<lparr>cwaiters := (cwaiters c)(w := Some kk), ccons := consumer_set_slot (Some w) (ccons c)\<rparr>"
  have reg: "wakeslot_register w (consumer_slot (ccons c)) = Some (Some w)"
    using assms by (auto simp: reading_def slots_free_def wakeslot_register_def)
  have dd: "consumer_demand (consumer_set_slot sl (ccons c)) = consumer_demand (ccons c)"
    "consumer_slot (consumer_set_slot sl (ccons c)) = sl" for sl
    by (cases "ccons c"; simp)+
  have "slots_free w ?c1"
    using assms dd(2) by (simp add: reading_def slots_free_def)
  from reading_same [OF parking_same_data(5) assms this]
  have "reading rd k given taken rc w L (Some d) ?c1"
    using assms dd(1) by (simp add: reading_def)
  then show ?thesis
    using assms reg by (cases "can_stop_read c d") (auto simp: read_park_round_def Let_def)
qed

lemma read_unparked:
  assumes "reading rd k given taken rc w L dm c"
  shows "reading rd k given taken rc w L None (read_guard_drop reg w c)"
    "can_stop_read (read_guard_drop reg w c) d = can_stop_read c d"
proof -
  have "slots_free w (read_guard_drop reg w c)"
    using assms by (cases "ccons c") (auto simp: reading_def slots_free_def read_guard_drop_def Let_def
        wakeslot_deregister_def)
  from reading_same [OF parking_same_data(3) assms this]
  show "reading rd k given taken rc w L None (read_guard_drop reg w c)"
    by (cases "ccons c") (auto simp: read_guard_drop_def Let_def)
  show "can_stop_read (read_guard_drop reg w c) d = can_stop_read c d"
    by (rule same_data(9) [OF parking_same_data(3)])
qed

lemma read_pump_dropped:
  assumes "reading rd k given taken rc w L None c0" "filling given c0 p c"
  shows "\<exists>c1. drop_producer_pump rd wr k p c = Some c1 \<and> reading rd k given taken rc w L None c1"
proof (cases p)
  case PumpTop
  then show ?thesis
    using assms by (simp add: drop_producer_pump_def filling_def)
next
  case (PumpIn g before moved s)
  then obtain i0 i v m xs where x: "cprod c0 = DevProducer i0 v" "c = c0\<lparr>cbuf := m, cprod := DevProducer i v\<rparr>"
    "input_reacted given (cbuf c0) (write_all c0) i0 xs m (recl_drop_child g s) i"
    using assms(2) by (auto simp: filling_def)
  have ok: "circ_ok c0" "2 \<le> k"
    using assms(1) by (simp_all add: reading_def streams_def)
  obtain k' where k: "k = Suc (Suc k')"
    using two_sucs [OF ok(2)] by blast
  obtain c1 where "circ_advance_write rd wr k (of_nat (roff (recl_drop_child g s))) c = Some c1"
    "filled given taken w c0 xs c1"
    by (rule filled_commit [OF ok(1) x(1,3), of rd wr k' taken w]) (rule that, simp_all add: k x(2))
  then show ?thesis
    using reading_filled [OF assms(1)] PumpIn by (auto simp: drop_producer_pump_def)
qed

lemma read_room: "reading rd k given taken rc w L dm c \<Longrightarrow> circ_free c \<le> L"
  using circ_sizes(1) [of c] by (auto simp: reading_def streams_def)

interpretation async_read: half_future "circ_try_read rd wr k d" "\<lambda>e. read_should_terminate (consumer_err_tag e)"
  "producer_pump_poll rd wr k k" "read_enter_park d" "\<lambda>kk. read_park_round w kk d" "\<lambda>reg. read_guard_drop reg w"
  CCancelled "drop_producer_pump rd wr k" "reading rd k given taken rc w L None" "reading rd k given taken rc w L (Some d)"
  "filling given" circ_free "\<lambda>c. can_stop_read c d" "read_answer d" L
proof (unfold_locales, goal_cases)
  case (1 c)
  then show ?case
    by (rule read_attempt)
next
  case (2 c0 p c acc)
  then show ?case
    by (rule read_pump)
next
  case (4 c0 p c)
  then show ?case
    using read_room [of rd k given taken rc w L None c0] filling_free(1) [of given c0 p c] by simp
next
  case (6 c)
  then show ?case
    by (rule read_parks)
next
  case (7 c kk reg)
  then show ?case
    by (rule read_parked)
next
  case (8 c reg)
  then show ?case
    by (intro conjI; rule read_unparked)
next
  case (10 c0 p c)
  then show ?case
    by (rule read_pump_dropped)
qed (simp_all add: filling_def read_answer_def read_room)

lemma read_lends_queue:
  assumes "circ_ok c" "circ_try_read_at c d = Inr (s, tk)"
  defines "g \<equiv> create_read_segm c s tk"
  shows "roff g = 0" "recl_least_count g = min (unat (max_of d)) (length (circ_queue c))"
    "mem_get (cbuf c) (pieces_addrs (rpieces g)) = take (unat (max_of d)) (circ_queue c)"
    "circ_queue c \<noteq> []" "unat (min_of d) \<le> length (circ_queue c) \<or> circ_tx_closed c \<or> circ_rx_closed c"
proof -
  have tk: "s = pos_rp (circ_pos c)" "unat tk = min (unat (max_of d)) (circ_data c)" "circ_data c \<noteq> 0"
    "unat (min_of d) \<le> circ_data c \<or> circ_tx_closed c \<or> circ_rx_closed c"
    using assms(2) by (auto simp: circ_try_read_at_def Let_def circ_data_def circ_data_size_def unat_min
        word_less_nat_alt unat_eq_zero split: if_splits)
  have le: "unat tk \<le> length (cbuf c)"
    using tk(2) circ_sizes(1) [OF assms(1)] by linarith
  note a = circ_segm_addrs(2,4) [OF assms(1) circ_sizes(2) [OF assms(1)] le]
  show "roff g = 0"
    by (simp add: g_def tk(1) a(2))
  show "recl_least_count g = min (unat (max_of d)) (length (circ_queue c))"
    using circ_segm_ok(4) [OF assms(1) circ_sizes(2) [OF assms(1)] le] tk by (simp add: g_def)
  show "circ_queue c \<noteq> []" "unat (min_of d) \<le> length (circ_queue c) \<or> circ_tx_closed c \<or> circ_rx_closed c"
    using tk(3,4) by (auto simp flip: length_0_conv)
  have "take (unat (max_of d)) (circ_queue c) = take (unat tk) (circ_queue c)"
    by (simp add: tk(2) min_def)
  then show "mem_get (cbuf c) (pieces_addrs (rpieces g)) = take (unat (max_of d)) (circ_queue c)"
    using tk(1,2) by (simp add: g_def a(1) circ_queue_def take_mem_get take_ring_addrs)
qed

lemma read_polls:
  assumes "reading rd k given taken rc w L None c" "3 * L + 6 \<le> f"
  shows "\<exists>r st c'. run_polls (core_read_poll rd wr k w d f) polls (HalfTop, c) = Some (r, st, c')
    \<and> (case r of
         Pending \<Rightarrow> \<exists>c2. drop_read_future rd wr k w st c' = Some c2 \<and> reading rd k given taken rc w L None c2
       | Unreachable \<Rightarrow> False
       | Ready y \<Rightarrow> reading rd k given taken rc w L None c' \<and> read_answer d y c')"
proof -
  let ?R = "reading rd k given taken rc w L None" and ?P = "reading rd k given taken rc w L (Some d)"
  have poll: "core_read_poll rd wr k w d f = (\<lambda>x. run_steps (half_step (circ_try_read rd wr k d)
      (\<lambda>e. read_should_terminate (consumer_err_tag e)) (producer_pump_poll rd wr k k) (read_enter_park d)
      (read_park_round w (snd x) d) (\<lambda>reg. read_guard_drop reg w) CCancelled (fst x)) f)"
    by (simp add: core_read_poll_def core_read_step_shape fun_eq_iff case_prod_eta)
  from async_read.polls_return [OF assms, of wr d polls, folded poll]
  obtain r s where rs: "run_polls (core_read_poll rd wr k w d f) polls (HalfTop, c) = Some (r, s)"
    "if r = Pending then half_rests ?R ?P (filling given) s else \<exists>y. r = Ready y \<and> ?R (snd s) \<and> read_answer d y (snd s)"
    by blast
  obtain st c' where "s = (st, c')"
    by (cases s)
  note r = rs [unfolded this snd_conv]
  show ?thesis
  proof (cases "r = Pending")
    case True
    with r(2) have "half_rests ?R ?P (filling given) (st, c')"
      by simp
    from async_read.dropped [OF this, of wr] have "\<exists>c2. drop_read_future rd wr k w st c' = Some c2 \<and> ?R c2"
      by (auto simp: drop_read_future_def split: half_at.splits)
    then show ?thesis
      using r(1) True by auto
  next
    case False
    then show ?thesis
      using r by auto
  qed
qed

text \<open>
  C33: \<open>read_async\<close> of a passive consumer beside a producer device. Whatever the device answers (items, an error,
  not ready) and whatever is fired to the token between, every poll returns with fuel \<open>3 * capacity + 6\<close>. A pending
  future can be dropped wherever it is suspended, in a half-filled segment too: what the device gave is what
  was taken before and is in the buffer, in order, and the demand is withdrawn. A ready future lends a segment over the
  oldest items, as many as there are and the demand allows, and no fewer than it asks while both ends are
  open; or reports the close or the cancellation. No call panics.
\<close>

theorem async_read_streams:
  assumes "streams given taken [] rc c" "\<not> producer_passive (cprod c)" "consumer_passive (ccons c)"
    "consumer_demand (ccons c) = None" "slots_free w c" "input_ok rd given" "length (cbuf c) + 4 \<le> k"
    "3 * length (cbuf c) + 6 \<le> f"
  shows "\<exists>r st c'. run_polls (core_read_poll rd wr k w d f) polls (HalfTop, c) = Some (r, st, c')
    \<and> (case r of
         Pending \<Rightarrow> \<exists>c2. drop_read_future rd wr k w st c' = Some c2 \<and> streams given taken [] rc c2
                       \<and> consumer_demand (ccons c2) = None
       | Unreachable \<Rightarrow> False
       | Ready (Inl e) \<Rightarrow> streams given taken [] rc c' \<and> e \<in> {CClosing, CCancelled}
       | Ready (Inr g) \<Rightarrow> streams given taken [] rc c' \<and> roff g = 0 \<and> circ_queue c' \<noteq> []
           \<and> mem_get (cbuf c') (pieces_addrs (rpieces g)) = take (unat (max_of d)) (circ_queue c')
           \<and> (unat (min_of d) \<le> length (circ_queue c') \<or> circ_tx_closed c' \<or> circ_rx_closed c'))"
proof -
  let ?R = "reading rd k given taken rc w (length (cbuf c)) None"
  have start: "?R c"
    using assms by (simp add: reading_def)
  have out: "circ_ok c' \<and> streams given taken [] rc c' \<and> consumer_demand (ccons c') = None" if "?R c'" for c'
    using that by (simp add: reading_def streams_def)
  have lend: "roff g = 0 \<and> circ_queue c' \<noteq> []
      \<and> mem_get (cbuf c') (pieces_addrs (rpieces g)) = take (unat (max_of d)) (circ_queue c')
      \<and> (unat (min_of d) \<le> length (circ_queue c') \<or> circ_tx_closed c' \<or> circ_rx_closed c')"
    if "?R c'" "read_answer d (Inr g) c'" for g c'
    using that(2) out [OF that(1)] read_lends_queue [of c' d] by (auto simp: read_answer_def)
  from read_polls [OF start assms(8), of wr d polls] show ?thesis
    by (elim ex_forward conj_forward) (auto dest: out lend simp: read_answer_def split: poll.splits sum.splits)
qed

theorem async_read_streams_witness:
  "\<exists>r st c. run_polls (core_read_poll (list_input [1, 2, 3 :: nat]) (list_output :: (nat, unit, nat option list) output_dev)
       6 9 (LessThan 2) 12) [(False, 7), (True, 7)]
       (HalfTop, core_new (DevProducer 0 None) (BufConsumer None None) [None, None]) = Some (r, st, c) \<and> r \<noteq> Unreachable"
proof -
  let ?c = "core_new (DevProducer 0 None) (BufConsumer None None) [None, None] :: (nat, nat, nat option list) circ"
  have ends: "cprod ?c = DevProducer 0 None" "ccons ?c = BufConsumer None None" "length (cbuf ?c) = 2"
    by (simp_all add: core_new_def)
  have "streams (\<lambda>i. take i [1, 2, 3]) (\<lambda>p. p) [] [] ?c"
    by (rule core_new_streams) (simp_all add: in_stream_def out_stream_def ends)
  from async_read_streams [OF this, of 9 "list_input [1, 2, 3]" 6 12 list_output "LessThan 2"
      "[(False, 7), (True, 7)]"] show ?thesis
    by (fastforce simp: ends slots_free_def list_devices_ok)
qed

end
