(* ===== verification/Circ_Async_End.thy ===== *)
theory Circ_Async_End
  imports Circ_Async
begin

text \<open>
  \<open>read_async\<close> of a passive consumer beside a producer device that has no more items to give.
\<close>

section \<open>A pump that moves nothing\<close>

text \<open>In the states \<open>P\<close> the device answers without an item, now and from then on: it has ended, or reports errors.\<close>

definition answers_nothing :: "('a, 'e, 'i) input_dev \<Rightarrow> ('i \<Rightarrow> bool) \<Rightarrow> bool" where
  "answers_nothing rd P = (\<forall>i n. P i \<longrightarrow> (\<exists>x i'. rd i n = (Some x, i') \<and> items_of (Some x) = [] \<and> P i'))"

definition idle_producer :: "('i \<Rightarrow> bool) \<Rightarrow> ('a, 'i, 'o) circ \<Rightarrow> bool" where
  "idle_producer P c = (case cprod c of BufProducer wk d \<Rightarrow> False | DevProducer i v \<Rightarrow> P i)"

lemma idle_producerE:
  assumes "idle_producer P c"
  obtains i v where "cprod c = DevProducer i v" "P i"
  using assms by (auto simp: idle_producer_def split: producer.splits)

definition idle_kept :: "('i \<Rightarrow> bool) \<Rightarrow> wid \<Rightarrow> ('a, 'i, 'o) circ \<Rightarrow> ('a, 'i, 'o) circ \<Rightarrow> bool" where
  "idle_kept P w c c' =
     (circ_ok c' \<and> circ_data_size c' = circ_data_size c \<and> circ_tx_closed c' = circ_tx_closed c
      \<and> circ_rx_closed c' = circ_rx_closed c \<and> idle_producer P c'
      \<and> consumer_passive (ccons c') = consumer_passive (ccons c)
      \<and> consumer_demand (ccons c') = consumer_demand (ccons c) \<and> (slots_free w c \<longrightarrow> slots_free w c'))"

lemma idle_input_loop:
  assumes "answers_nothing rd P" "P i" "\<And>n. Q (snd (rd i n))"
  shows "\<exists>x i'. input_loop rd sz mx m s i 0 = (Some x, m, s, i') \<and> pick_left x = Some 0 \<and> P i' \<and> (mx \<noteq> 0 \<longrightarrow> Q i')"
proof (cases "mx = 0")
  case False
  obtain x i' where x: "rd i (min sz mx) = (Some x, i')" "items_of (Some x) = []" "P i'" "Q i'"
    using assms(1,2) assms(3) [of "min sz mx"] by (fastforce simp: answers_nothing_def)
  then show ?thesis
    using False by (cases x) (auto simp: input_loop.simps [of rd sz mx m s i 0] items_of_def)
qed (use assms in \<open>simp add: input_loop.simps\<close>)

lemma as_segm_within: "0 < recl_least_count g \<Longrightarrow> least_count (recl_as_segm g) \<le> recl_least_count g"
  using recl_current(2) [of g] by (cases "pieces_current (rpieces g) (roff g)")
    (auto simp: recl_as_segm_def segm_new_def least_count_def recl_least_count_def)

lemma idle_react:
  assumes "answers_nothing rd P" "P i" "0 < recl_least_count g" "recl_ok m g" "recl_least_count g < 2 ^ 64"
    "\<And>n. Q (snd (rd i n))"
  obtains i' where "dev_producer_react rd m g i 0 = Done (Some ContinueReact, m, g, i')"
    "dev_producer_react_poll rd m g i 0 None = Done (m, i', Inl (ContinueReact, g))" "P i'" "Q i'"
proof -
  have g: "recl_drop_child g (recl_as_segm g) = g" "\<not> recl_is_empty g"
    using assms(3) by (simp_all add: recl_drop_child_def as_segm_offset recl_is_empty_def)
  let ?w = "of_nat (recl_least_count g) :: usize"
  obtain x i' where x: "segm_mut_input rd m (recl_as_segm g) i (LessThan ?w) = Done (Some x, m, recl_as_segm g, i')"
    "pick_left x = Some 0" "P i'" "Q i'"
  proof -
    let ?s = "recl_as_segm g"
    let ?sz = "slen ?s - soff ?s"
    have sz: "0 < ?sz" "?sz \<le> recl_least_count g"
      using recl_as_segm_ok(2) [OF assms(4,3)] as_segm_within [OF assms(3)] by (simp_all add: least_count_def)
    then have "unat (of_nat ?sz :: usize) = ?sz" "unat ?w = recl_least_count g"
      using assms(5) by (simp_all add: unat_of_nat del: of_nat_diff)
    then have "unat (min ?w (of_nat ?sz)) = ?sz"
      using sz(2) by (simp add: unat_min del: of_nat_diff)
    then show thesis
      using idle_input_loop [where Q = Q, OF assms(1,2,6), of ?sz ?sz m ?s] sz(1) that
      by (fastforce simp: segm_mut_input_def agreed_max_less_than Let_def)
    qed
  have "dev_producer_react rd m g i 0 = Done (Some ContinueReact, m, g, i')"
    using x g by (subst dev_producer_react.simps) simp
  moreover have "dev_producer_react_poll rd m g i 0 None = Done (m, i', Inl (ContinueReact, g))"
    using x g by (subst dev_producer_react_poll.simps) (simp flip: segm_mut_input_fresh)
  ultimately show thesis
    using x(3,4) by (rule that)
qed

lemma idle_commit:
  assumes "circ_ok c" "cprod c = DevProducer i v" "P i'"
  obtains c' where "circ_advance_write rd wr (Suc (Suc k)) 0 (c\<lparr>cprod := DevProducer i' v\<rparr>) = Some c'"
    "idle_kept P w c c'" "cprod c' = DevProducer i' v"
proof -
  let ?g = "create_write_segm c (pos_wp (circ_pos c)) 0" and ?c = "c\<lparr>cprod := DevProducer i' v\<rparr>"
  have c: "c\<lparr>cbuf := cbuf c, cprod := DevProducer i' v\<rparr> = ?c"
    by simp
  have "input_reacted (\<lambda>i. []) (cbuf c) ?g i [] (cbuf c) ?g i'"
    by (simp add: input_reacted_def)
  from input_commit(5) [OF assms(1,2) _ this, of rd wr k "[]" "\<lambda>p. []" "[]"]
  obtain c' where c': "circ_advance_write rd wr (Suc (Suc k)) 0 ?c = Some c'" "circ_ok c'"
    "circ_queue c' = circ_queue c" "same_modes c c'"
    unfolding c by auto
  have "circ_data c' = circ_data c"
    using arg_cong [OF c'(3), of length] by simp
  then have "circ_data_size c' = circ_data_size c"
    by (simp add: circ_data_def word_unat_eq_iff)
  moreover have "circ_ok ?c" "slots_free w c \<Longrightarrow> slots_free w ?c"
    using assms(1,2) circ_cong(1) [of ?c c] by (simp_all add: slots_free_def)
  ultimately show thesis
    using that [OF c'(1)] advance_write_frame [OF c'(1)] c'(2,4) assms(2,3)
    by (simp add: idle_kept_def same_modes_def idle_producer_def circ_tx_closed_def circ_rx_closed_def)
qed

lemma idle_pumps:
  assumes "circ_ok c" "idle_producer P c" "answers_nothing rd P" "\<And>i n. P i \<Longrightarrow> Q (snd (rd i n))"
  shows "\<exists>c'. pump_input_sync rd wr (Suc (Suc (Suc (Suc k)))) c = Some (0, c') \<and> idle_kept P w c c'
      \<and> (consumer_passive (ccons c) \<and> \<not> circ_tx_closed c \<and> \<not> circ_rx_closed c \<and> circ_free c \<noteq> 0 \<longrightarrow> idle_producer Q c')"
    "\<exists>c'. producer_pump_poll rd wr (Suc (Suc k)) (Suc j) (PumpTop, 0) c = Some (Inl 0, c') \<and> idle_kept P w c c'"
proof -
  obtain i v where p: "cprod c = DevProducer i v" "P i"
    using assms(2) by (rule idle_producerE)
  have same: "idle_kept P w c c"
    using assms(1,2) by (simp add: idle_kept_def)
  note all = write_all_ok [OF assms(1)]
  have roff: "roff (write_all c) = 0"
    by (simp add: write_all_def create_write_segm_def recl_new_def Let_def)
  have free: "write_all c = create_write_segm c (pos_wp (circ_pos c)) (iopos_free_size (circ_pos c))"
    by (simp add: write_all_def circ_free_size_def)
  have cap: "recl_capacity (write_all c) = recl_least_count (write_all c)"
    using roff by (simp add: recl_capacity_def recl_least_count_def)
  have keeps: "P (snd (rd i n))" if "P i" for i n
    using assms(3) that unfolding answers_nothing_def by (metis snd_conv)
  have buf: "c\<lparr>cbuf := cbuf c, cprod := DevProducer i' v\<rparr> = c\<lparr>cprod := DevProducer i' v\<rparr>" for i'
    by simp
  have small: "recl_least_count (write_all c) < 2 ^ 64"
    using all(2) unsigned_less [of "circ_free_size c"] by (simp add: circ_free_def)
  show "\<exists>c'. pump_input_sync rd wr (Suc (Suc (Suc (Suc k)))) c = Some (0, c') \<and> idle_kept P w c c'
      \<and> (consumer_passive (ccons c) \<and> \<not> circ_tx_closed c \<and> \<not> circ_rx_closed c \<and> circ_free c \<noteq> 0 \<longrightarrow> idle_producer Q c')"
  proof (cases "\<not> consumer_passive (ccons c) \<or> circ_tx_closed c \<or> circ_rx_closed c \<or> circ_free c = 0")
    case True
    then show ?thesis
      using same p(1) by (auto simp: pump_input_sync.simps pump_input_loop.simps Let_def circ_free_def
          circ_free_size_def unat_eq_zero)
  next
    case False
    then have nz: "iopos_free_size (circ_pos c) \<noteq> 0" "0 < recl_least_count (write_all c)"
      using all(2) by (auto simp: circ_free_def circ_free_size_def)
    obtain i' where i': "dev_producer_react rd (cbuf c) (write_all c) i 0
        = Done (Some ContinueReact, cbuf c, write_all c, i')" "P i'" "Q i'"
      by (rule idle_react [where Q = Q, OF assms(3) p(2) nz(2) all(1) small assms(4) [OF p(2)]])
    obtain c' where "circ_advance_write rd wr (Suc (Suc k)) 0 (c\<lparr>cprod := DevProducer i' v\<rparr>) = Some c'"
      "idle_kept P w c c'" "cprod c' = DevProducer i' v"
      by (rule idle_commit [where P = P and w = w, OF assms(1) p(1) i'(2)])
    then show ?thesis
      using False nz(1) i'(1,3) cap roff
      by (simp add: idle_producer_def pump_input_sync.simps pump_input_loop.simps(2) Let_def producer_react_def p(1) buf flip: free)
  qed
  show "\<exists>c'. producer_pump_poll rd wr (Suc (Suc k)) (Suc j) (PumpTop, 0) c = Some (Inl 0, c') \<and> idle_kept P w c c'"
  proof (cases "circ_free c = 0")
    case True
    then show ?thesis
      using same write_init [OF assms(1)] by (simp add: producer_pump_poll_def p(1) pump_segm_def)
  next
    case False
    then have nz: "0 < recl_least_count (write_all c)"
      using all(2) by simp
    obtain i' where i': "dev_producer_react_poll rd (cbuf c) (write_all c) i 0 None
        = Done (cbuf c, i', Inl (ContinueReact, write_all c))" "P i'"
      by (rule idle_react [where Q = P, OF assms(3) p(2) nz all(1) small keeps [OF p(2)]])
    obtain c' where "circ_advance_write rd wr (Suc (Suc k)) 0 (c\<lparr>cprod := DevProducer i' v\<rparr>) = Some c'"
      "idle_kept P w c c'"
      by (rule idle_commit [where P = P and w = w, OF assms(1) p(1) i'(2)])
    then show ?thesis
      using False write_init [OF assms(1)] i'(1) all(2) roff
      by (simp add: producer_pump_poll_def p(1) pump_segm_def buf Let_def flip: write_all_def)
  qed
qed

lemma idle_keeps_stop: "idle_kept P w c c' \<Longrightarrow> can_stop_read c' d = can_stop_read c d"
  by (simp add: idle_kept_def can_stop_read_iff)

lemma idle_try:
  assumes "circ_ok c" "idle_producer P c" "answers_nothing rd P" "\<not> can_stop_read c d" "4 \<le> k"
    "\<And>i n. P i \<Longrightarrow> Q (snd (rd i n))" "consumer_passive (ccons c)"
  obtains q c' where "circ_try_read rd wr k d c = Some (Inl (CDrained q), c')" "idle_kept P w c c'"
    "circ_free c \<noteq> 0 \<longrightarrow> idle_producer Q c'"
proof -
  obtain k' where k: "k = Suc (Suc (Suc (Suc k')))"
    using assms(5) le_Suc_ex [of 4 k] by (auto simp: numeral_eq_Suc)
  have drained: "\<exists>q. circ_try_read_at c d = Inl (CDrained q)" if "\<not> can_stop_read c d" for c :: "('a, 'b, 'c) circ"
    using that by (auto simp: stop_iff_answer circ_try_read_at_def Let_def split: if_splits)
  have flags: "\<not> circ_tx_closed c" "\<not> circ_rx_closed c"
    using assms(4) by (simp_all add: can_stop_read_iff)
  obtain c' where c': "pump_input_sync rd wr k c = Some (0, c')" "idle_kept P w c c'"
    "circ_free c \<noteq> 0 \<longrightarrow> idle_producer Q c'"
    using idle_pumps(1) [where Q = Q and w = w and wr = wr and k = k', OF assms(1-3,6)] flags assms(7)
    unfolding k by blast
  obtain q q' where "circ_try_read_at c d = Inl (CDrained q)" "circ_try_read_at c' d = Inl (CDrained q')"
    using drained [OF assms(4)] drained [of c'] idle_keeps_stop [OF c'(2)] assms(4) by auto
  then show thesis
    using c' by (intro that [of q' c']) (simp_all add: circ_try_read_def Let_def)
qed

definition parked_at :: "'i producer \<Rightarrow> wid \<Rightarrow> usize demand \<Rightarrow> half_at \<times> ('a, 'i, 'o) circ \<Rightarrow> bool" where
  "parked_at p w d s = (fst s = HalfPark True \<and> cprod (snd s) = p \<and> slots_free w (snd s) \<and> \<not> can_stop_read (snd s) d)"

lemma parked_stays:
  assumes "cprod c = p" "slots_free w c" "\<not> can_stop_read c d" "f \<noteq> 0"
  shows "\<exists>s. core_read_poll rd wr k w d f (False, kk) (HalfPark reg, c) = Some (Pending, s) \<and> parked_at p w d s
    \<and> circ_data (snd s) = circ_data c"
proof -
  let ?c1 = "c\<lparr>cwaiters := (cwaiters c)(w := Some kk), ccons := consumer_set_slot (Some w) (ccons c)\<rparr>"
  have reg: "wakeslot_register w (consumer_slot (ccons c)) = Some (Some w)"
    using assms(2) by (auto simp: slots_free_def wakeslot_register_def)
  have stop: "\<not> can_stop_read ?c1 d"
    using assms(3) same_data(9) [OF parking_same_data(5) [of c], of _ _ d] by simp
  have "consumer_slot (consumer_set_slot (Some w) (ccons c)) = Some w"
    by (cases "ccons c") auto
  then have "parked_at p w d (HalfPark True, ?c1)"
    using assms(1,2) stop by (simp add: parked_at_def slots_free_def)
  moreover have "read_park_round w kk d reg c = Some (False, True, ?c1)"
    using reg assms(3) stop by (simp add: read_park_round_def Let_def)
  then have "core_read_poll rd wr k w d f (False, kk) (HalfPark reg, c) = Some (Pending, HalfPark True, ?c1)"
    using assms(4) by (cases f) (simp_all add: core_read_poll_def core_read_step_def)
  moreover have "circ_data ?c1 = circ_data c"
    by (rule circ_cong(2)) simp_all
  ultimately show ?thesis
    by fastforce
qed

lemma hangs_at_end:
  assumes "circ_ok c" "idle_producer P c" "answers_nothing rd P" "\<not> can_stop_read c d"
    "consumer_passive (ccons c)" "consumer_demand (ccons c) = None" "slots_free w c" "4 \<le> k" "4 \<le> f"
    "\<And>i n. P i \<or> Q i \<Longrightarrow> Q (snd (rd i n))"
  shows "\<exists>c1. core_read_poll rd wr k w d f (False, kk) (HalfTop, c) = Some (Pending, HalfPark True, c1)
    \<and> idle_producer P c1 \<and> circ_data c1 = circ_data c \<and> (circ_free c \<noteq> 0 \<longrightarrow> idle_producer Q c1)
    \<and> \<not> can_stop_read c1 d
    \<and> (\<forall>rd' wr' wakers. \<exists>c2. run_polls (\<lambda>kk'. core_read_poll rd' wr' k w d f (False, kk')) wakers (HalfPark True, c1)
         = Some (Pending, HalfPark True, c2) \<and> cprod c2 = cprod c1)"
proof -
  have seen: "Q (snd (rd i n))" if "P i" for i n
    using assms(10) that by blast
  obtain q c1 where t: "circ_try_read rd wr k d c = Some (Inl (CDrained q), c1)" "idle_kept P w c c1"
    "circ_free c \<noteq> 0 \<longrightarrow> idle_producer Q c1"
    by (rule idle_try [where Q = Q and w = w and wr = wr, OF assms(1-4,8) seen assms(5)])
  define P' where "P' = (\<lambda>i. P i \<and> (circ_free c \<noteq> 0 \<longrightarrow> Q i))"
  have rd': "answers_nothing rd P'"
  proof -
    have "\<exists>x i'. rd i n = (Some x, i') \<and> items_of (Some x) = [] \<and> P' i'" if p: "P' i" for i n
    proof -
      obtain x i' where x: "rd i n = (Some x, i')" "items_of (Some x) = []" "P i'"
        using assms(3) p unfolding answers_nothing_def P'_def by blast
      then show ?thesis
        using assms(10) [of i n] p by (auto simp: P'_def)
    qed
    then show ?thesis
      by (simp add: answers_nothing_def)
  qed
  obtain j where j: "k = Suc (Suc j)"
    using assms(8) by (cases k; cases "k - 1") auto
  have "circ_ok c1" "idle_producer P' c1"
    using t(2,3) by (auto simp: idle_kept_def idle_producer_def P'_def split: producer.splits)
  then obtain c2 where p: "producer_pump_poll rd wr k k (PumpTop, 0) c1 = Some (Inl 0, c2)" "idle_kept P' w c1 c2"
    using idle_pumps(2) [where Q = "\<lambda>i. True", OF _ _ rd' TrueI, of c1 wr j "Suc j" w] unfolding j by blast
  let ?q = "consumer_set_demand d (ccons c2)"
  let ?c3 = "set_rx_standby (c2\<lparr>ccons := snd ?q\<rparr>)" and ?P = "parked_at (cprod c2) w d"
  have c2: "consumer_passive (ccons c2)" "consumer_demand (ccons c2) = None" "slots_free w c2" "idle_producer P' c2"
    "\<not> can_stop_read c2 d" "circ_data c2 = circ_data c"
    using t(2) p(2) assms(5-7) idle_keeps_stop [OF t(2)] idle_keeps_stop [OF p(2)] assms(4)
    by (simp_all add: idle_kept_def circ_data_def)
  note q = set_demand_passive(1) [OF c2(1,2), of d]
  have c3: "cprod ?c3 = cprod c2" "slots_free w ?c3" "\<not> can_stop_read ?c3 d" "circ_data ?c3 = circ_data c"
    using c2(3-6) q same_data(9) [OF parking_same_data(1) [of c2 d], of d]
      same_data(2) [OF parking_same_data(1) [of c2 d]] by (simp_all add: slots_free_def)
  obtain f' where f: "f = Suc (Suc f')" "f' \<noteq> 0"
    using assms(9) by (cases f; cases "f - 1") auto
  obtain s where s: "core_read_poll rd wr k w d f' (False, kk) (HalfPark False, ?c3) = Some (Pending, s)" "?P s"
    "circ_data (snd s) = circ_data c"
    using parked_stays [OF c3(1-3) f(2), of rd wr k kk False] c3(4) by auto
  have "core_read_poll rd wr k w d f (False, kk) (HalfTop, c) = Some (Pending, s)"
    using t(1) p(1) q s(1) by (simp add: core_read_poll_def core_read_step_def f(1) split_beta)
  moreover obtain c4 where c4: "s = (HalfPark True, c4)"
    using s(2) by (cases s) (simp add: parked_at_def)
  moreover have "\<exists>s'. run_polls (\<lambda>kk'. core_read_poll rd' wr' k w d f (False, kk')) wakers s = Some (Pending, s') \<and> ?P s'"
    for rd' wr' wakers
  proof -
    have stays: "\<exists>r s'. core_read_poll rd' wr' k w d f (False, x) s = Some (r, s') \<and> (if r = Pending then ?P s' else False)"
      if "?P s" for x s
      using that parked_stays [of "snd s" "cprod c2" w d f rd' wr' k x True] f(1)
      by (cases s) (auto simp: parked_at_def)
    from s(2) have "\<exists>r s'. run_polls (\<lambda>kk'. core_read_poll rd' wr' k w d f (False, kk')) wakers s = Some (r, s')
        \<and> (if r = Pending then ?P s' else False)"
      by (rule run_polls_return [where I = ?P and Q = "\<lambda>r s. False", rotated]) (rule stays)
    then show ?thesis
      by (auto split: if_splits)
  qed
  ultimately show ?thesis
    using s(2,3) c2(4) by (fastforce simp: parked_at_def idle_producer_def P'_def split: producer.splits)
qed

text \<open>
  \<open>read_async\<close> beside a device that has ended or failed (it answers, with errors or without, but hands out no
  item any more), with less in the buffer than the read asks for and both ends open. The answer of the device is
  dropped and the read parks: its first poll is pending, and so is every later one, whatever the device would
  answer by then: no call asks it again, and only a cancellation can end the read.
\<close>

theorem async_read_hangs_at_end:
  assumes "circ_ok c" "cprod c = DevProducer i v" "P i" "answers_nothing rd P" "\<not> can_stop_read c d"
    "consumer_passive (ccons c)" "consumer_demand (ccons c) = None" "slots_free w c" "4 \<le> k" "4 \<le> f"
  shows "\<exists>c1. core_read_poll rd wr k w d f (False, kk) (HalfTop, c) = Some (Pending, HalfPark True, c1)
    \<and> circ_data c1 = circ_data c
    \<and> (\<forall>rd' wr' wakers. \<exists>c2. run_polls (\<lambda>kk'. core_read_poll rd' wr' k w d f (False, kk')) wakers (HalfPark True, c1)
         = Some (Pending, HalfPark True, c2) \<and> cprod c2 = cprod c1)"
  using hangs_at_end [where Q = "\<lambda>i. True", OF assms(1) _ assms(4-10) TrueI, of wr kk] assms(2,3)
  by (fastforce simp: idle_producer_def)

theorem async_read_hangs_at_end_witness:
  "\<exists>c1 :: (nat, nat, nat option list) circ. core_read_poll (\<lambda>i n. (Some (OfRight ()), i)) list_output 4 9 (LessThan 2) 4
     (False, 7) (HalfTop, core_new (DevProducer 0 None) (BufConsumer None None) [None, None])
     = Some (Pending, HalfPark True, c1)"
proof -
  let ?c = "core_new (DevProducer 0 None) (BufConsumer None None) [None, None] :: (nat, nat, nat option list) circ"
  have ends: "cprod ?c = DevProducer 0 None" "ccons ?c = BufConsumer None None" "cstat ?c = 0"
    by (simp_all add: core_new_def)
  have "streams (\<lambda>i. []) (\<lambda>p. p) [] [] ?c"
    by (rule core_new_streams) (simp_all add: in_stream_def out_stream_def ends)
  then have "circ_ok ?c" "circ_data ?c = 0"
    using circ_queue_length [of ?c] by (simp_all add: in_stream_def out_stream_def ends streams_def)
  moreover from this(2) have "\<not> can_stop_read ?c (LessThan 2)"
    by (simp add: can_stop_read_iff circ_tx_closed_def circ_rx_closed_def ends has_flag_def circ_data_def unat_eq_zero)
  moreover have "answers_nothing (\<lambda>i n. (Some (OfRight ()), i)) (\<lambda>i :: nat. True)"
    by (simp add: answers_nothing_def items_of_def)
  ultimately show ?thesis
    using async_read_hangs_at_end [of ?c 0 None "\<lambda>i. True" "\<lambda>i n. (Some (OfRight ()), i)" "LessThan 2" 9 4 4 list_output 7]
    by (auto simp: ends slots_free_def)
qed

end
