(* ===== verification/Circ_Async_Write.thy ===== *)
theory Circ_Async_Write
  imports Circ_Async
begin

text \<open>
  \<open>write_async\<close> of a passive producer before an active consumer (\<open>core_.rs\<close>: \<open>core_passive_write_async_\<close>): the
  second instance of the future of \<open>Circ_Async\<close>.
\<close>

text \<open>
  What holds between the pieces of a write: the streams agree (in a suspended pump those of the buffer its
  segment was borrowed from), and the demand is registered exactly while the future is parked.
\<close>

definition writing ::
    "('a, 'f, 'o) output_dev \<Rightarrow> nat \<Rightarrow> ('i \<Rightarrow> 'a list) \<Rightarrow> ('o \<Rightarrow> 'a option list) \<Rightarrow> 'a list \<Rightarrow> wid \<Rightarrow> nat
     \<Rightarrow> usize demand option \<Rightarrow> ('a, 'i, 'o) circ \<Rightarrow> bool" where
  "writing wr k given taken snt w L dm c =
     (output_ok wr taken \<and> L + 4 \<le> k \<and> streams given taken snt [] c \<and> producer_passive (cprod c)
      \<and> \<not> consumer_passive (ccons c) \<and> slots_free w c \<and> length (cbuf c) = L \<and> producer_demand (cprod c) = dm)"

text \<open>A ready write: a segment over the free cells, of an amount in the demand, or a final error.\<close>

definition write_answer :: "usize demand \<Rightarrow> (producer_error, recl) rust_result \<Rightarrow> ('a, 'i, 'o) circ \<Rightarrow> bool" where
  "write_answer d r c =
     (case r of
        Inl e \<Rightarrow> e \<in> {PClosing, PCancelled}
      | Inr g \<Rightarrow> \<exists>start tk. circ_try_write_at c d = Inr (start, tk) \<and> g = create_write_segm c start tk)"

definition write_enter_park :: "usize demand \<Rightarrow> ('a, 'i, 'o) circ \<Rightarrow> ('a, 'i, 'o) circ option" where
  "write_enter_park d c =
     (let (fresh, q) = producer_set_demand d (cprod c) in if fresh then Some (set_tx_standby (c\<lparr>cprod := q\<rparr>)) else None)"

lemma core_write_step_shape:
  "core_write_step rd wr k j cancelled w kk d st c =
     half_step (circ_try_write rd wr k d) (\<lambda>e. write_should_terminate (producer_err_tag e)) (consumer_pump_poll rd wr k j)
       (write_enter_park d) (write_park_round w kk d) (\<lambda>reg. write_guard_drop reg w) PCancelled cancelled (st, c)"
  by (cases st) (auto simp: core_write_step_def half_step_def write_enter_park_def Let_def
      split: option.splits prod.splits sum.splits)

lemma stop_iff_write_answer:
  "can_stop_write c d = (case circ_try_write_at c d of Inl e \<Rightarrow> e = PClosing | Inr x \<Rightarrow> True)"
  by (auto simp: can_stop_write_def circ_try_write_at_def Let_def)

lemma writing_same:
  "same_data c c' \<Longrightarrow> writing wr k given taken snt w L dm c \<Longrightarrow> slots_free w c' \<Longrightarrow>
    writing wr k given taken snt w L (producer_demand (cprod c')) c'"
  by (simp add: writing_def same_data)

lemma writing_drained:
  assumes "writing wr k given taken snt w L dm c0" "drained given taken w c0 n c1"
  shows "writing wr k given taken snt w L dm c1 \<and> circ_data c0 = circ_data c1 + n"
proof -
  have "take n (circ_queue c0) @ circ_queue c1 = circ_queue c0"
    using assms(2) by (simp add: drained_def)
  then have "streams given taken snt [] c1"
    using assms by (auto simp: writing_def drained_def streams_def)
  then show ?thesis
    using assms by (auto simp: writing_def drained_def same_modes_def)
qed

text \<open>The pieces of the write keep their promises.\<close>

lemma write_attempt:
  fixes c :: "('a, 'i, 'o) circ"
  assumes "writing wr k given taken snt w L None c"
  shows "\<exists>r c1. circ_try_write rd wr k d c = Some (r, c1) \<and> writing wr k given taken snt w L None c1
    \<and> circ_data c1 \<le> circ_data c
    \<and> (if (case r of Inl e \<Rightarrow> write_should_terminate (producer_err_tag e) | Inr g \<Rightarrow> True) then write_answer d r c1
       else \<not> can_stop_write c d)"
proof -
  let ?at = "\<lambda>c. case circ_try_write_at c d of Inl e \<Rightarrow> Inl e
                  | Inr (start, tk) \<Rightarrow> Inr (create_write_segm c start tk)"
  have b: "streams given taken snt [] c" "length (cbuf c) + 4 \<le> k" "\<not> consumer_passive (ccons c)"
    "producer_passive (cprod c)" "output_ok wr taken"
    using assms by (simp_all add: writing_def)
  have final: "if (case ?at c of Inl e \<Rightarrow> write_should_terminate (producer_err_tag e) | Inr g \<Rightarrow> True) then write_answer d (?at c) c
      else \<not> can_stop_write c d" for c :: "('a, 'i, 'o) circ"
    by (cases "circ_try_write_at c d") (auto simp: write_answer_def can_stop_write_def circ_try_write_at_def Let_def
        split: prod.splits if_splits)
  show ?thesis
  proof (cases "can_stop_write c d")
    case True
    then have "circ_try_write rd wr k d c = Some (?at c, c)"
      by (cases "circ_try_write_at c d") (auto simp: circ_try_write_def Let_def stop_iff_write_answer split: prod.splits)
    then show ?thesis
      using assms final [of c] True by auto
  next
    case False
    have "k = Suc (k - 1)" "circ_data c + 3 \<le> k - 1"
      using b(1,2) circ_sizes(1) [of c] by (simp_all add: streams_def)
    then obtain n c1 where p: "pump_output_sync rd wr k c = Some (n, c1)" "streams given taken snt [] c1"
      "same_modes c c1" "circ_data c1 \<le> circ_data c"
      using pump_output_loop_returns [OF b(1,3,4,5), of "k - 1" rd 0] b(3,4)
        pump_output_sync.simps(2) [of rd wr "k - 1" c] by fastforce
    have t: "circ_try_write rd wr k d c = Some (?at c1, c1)"
      using False p(1) by (cases "circ_try_write_at c d") (auto simp: circ_try_write_def Let_def stop_iff_write_answer
          circ_try_write_at_def split: prod.splits if_splits)
    then have "writing wr k given taken snt w L None c1"
      using assms p try_kept(2) [OF t, of w] by (simp add: writing_def end_kept_def same_modes_def)
    then show ?thesis
      using t final [of c1] False p(4) can_stop_write_iff by auto
  qed
qed

lemma draining_data:
  assumes "draining taken c0 p c"
  shows "circ_data c = circ_data c0" "\<not> consumer_passive (ccons c0) \<Longrightarrow> \<not> consumer_passive (ccons c)"
proof -
  have "cstat c = cstat c0 \<and> cbuf c = cbuf c0"
    using assms by (auto simp: draining_def split: pump_at.splits)
  then show "circ_data c = circ_data c0"
    by (simp add: circ_data_def circ_data_size_def circ_pos_def circ_capacity_def)
  show "\<not> consumer_passive (ccons c0) \<Longrightarrow> \<not> consumer_passive (ccons c)"
    using assms by (auto simp: draining_def split: pump_at.splits)
qed

lemma write_pump:
  assumes "writing wr k given taken snt w L None c0" "draining taken c0 p c"
  shows "\<exists>r c1. consumer_pump_poll rd wr k k (p, acc) c = Some (r, c1)
      \<and> (case r of
           Inl n \<Rightarrow> writing wr k given taken snt w L None c1 \<and> circ_data c + acc = circ_data c1 + n \<and> acc \<le> n
         | Inr (p', acc') \<Rightarrow> \<exists>c2. writing wr k given taken snt w L None c2 \<and> draining taken c2 p' c1)"
proof -
  have ok: "circ_ok c0" "\<not> consumer_passive (ccons c0)" "circ_data c0 < k" "output_ok wr taken" "2 \<le> k"
    using assms(1) circ_sizes(1) [of c0] by (auto simp: writing_def streams_def)
  obtain m where m: "k = Suc (Suc m)"
    using two_sucs [OF ok(5)] by blast
  obtain r c1 where r: "consumer_pump_loop rd wr k k p acc c = Some (r, c1)"
    and out: "case r of
        Inl n \<Rightarrow> \<exists>m. drained given taken w c0 m c1 \<and> n = acc + m
      | Inr (p', acc') \<Rightarrow> \<exists>c2 m. drained given taken w c0 m c2 \<and> draining taken c2 p' c1 \<and> acc' = acc + m"
    using consumer_pump_loop_spec [OF ok(1) assms(2) ok(2,4,3), of rd m acc given w] unfolding m by blast
  have "case r of
      Inl n \<Rightarrow> writing wr k given taken snt w L None c1 \<and> circ_data c + acc = circ_data c1 + n \<and> acc \<le> n
    | Inr (p', acc') \<Rightarrow> \<exists>c2. writing wr k given taken snt w L None c2 \<and> draining taken c2 p' c1"
    using out writing_drained [OF assms(1)] draining_data(1) [OF assms(2)] by (auto split: sum.splits)
  then show ?thesis
    using r draining_data(2) [OF assms(2) ok(2)] by (auto simp: consumer_pump_poll_def)
qed

lemma write_parks:
  assumes "writing wr k given taken snt w L None c"
  shows "\<exists>c1. write_enter_park d c = Some c1 \<and> writing wr k given taken snt w L (Some d) c1"
proof -
  let ?q = "producer_set_demand d (cprod c)"
  let ?c1 = "set_tx_standby (c\<lparr>cprod := snd ?q\<rparr>)"
  have q: "fst ?q" "producer_demand (snd ?q) = Some d" "producer_slot (snd ?q) = producer_slot (cprod c)"
    using set_demand_passive(2) [of "cprod c" d] assms by (simp_all add: writing_def)
  then have "slots_free w ?c1"
    using assms by (simp add: writing_def slots_free_def)
  from writing_same [OF parking_same_data(2) assms this] show ?thesis
    using q by (cases ?q) (simp add: write_enter_park_def)
qed

lemma write_parked:
  assumes "writing wr k given taken snt w L (Some d) c"
  shows "\<exists>ready reg' c1. write_park_round w kk d reg c = Some (ready, reg', c1)
    \<and> writing wr k given taken snt w L (Some d) c1 \<and> (ready \<longrightarrow> can_stop_write c1 d)"
proof -
  let ?c1 = "c\<lparr>cwaiters := (cwaiters c)(w := Some kk), cprod := producer_set_slot (Some w) (cprod c)\<rparr>"
  have reg: "wakeslot_register w (producer_slot (cprod c)) = Some (Some w)"
    using assms by (auto simp: writing_def slots_free_def wakeslot_register_def)
  have dd: "producer_demand (producer_set_slot sl (cprod c)) = producer_demand (cprod c)"
    "producer_slot (producer_set_slot sl (cprod c)) = sl" for sl
    by (cases "cprod c"; simp)+
  have "slots_free w ?c1"
    using assms dd(2) by (simp add: writing_def slots_free_def)
  from writing_same [OF parking_same_data(6) assms this]
  have "writing wr k given taken snt w L (Some d) ?c1"
    using assms dd(1) by (simp add: writing_def)
  then show ?thesis
    using assms reg by (cases "can_stop_write c d") (auto simp: write_park_round_def Let_def)
qed

lemma write_unparked:
  assumes "writing wr k given taken snt w L dm c"
  shows "writing wr k given taken snt w L None (write_guard_drop reg w c)"
    "can_stop_write (write_guard_drop reg w c) d = can_stop_write c d"
proof -
  have "slots_free w (write_guard_drop reg w c)"
    using assms by (cases "cprod c") (auto simp: writing_def slots_free_def write_guard_drop_def Let_def
        wakeslot_deregister_def)
  from writing_same [OF parking_same_data(4) assms this]
  show "writing wr k given taken snt w L None (write_guard_drop reg w c)"
    by (cases "cprod c") (auto simp: write_guard_drop_def Let_def)
  show "can_stop_write (write_guard_drop reg w c) d = can_stop_write c d"
    by (rule same_data(10) [OF parking_same_data(4)])
qed

lemma write_pump_dropped:
  assumes "writing wr k given taken snt w L None c0" "draining taken c0 p c"
  shows "\<exists>c1. drop_consumer_pump rd wr k p c = Some c1 \<and> writing wr k given taken snt w L None c1"
proof (cases p)
  case PumpTop
  then show ?thesis
    using assms by (simp add: drop_consumer_pump_def draining_def)
next
  case (PumpIn g before moved s)
  then obtain p0 q v n where x: "ccons c0 = DevConsumer p0 v" "c = c0\<lparr>ccons := DevConsumer q v\<rparr>"
    "output_reacted taken (cbuf c0) (read_all c0) p0 n (recl_drop_child g s) q"
    using assms(2) by (auto simp: draining_def)
  have ok: "circ_ok c0" "2 \<le> k"
    using assms(1) by (simp_all add: writing_def streams_def)
  obtain k' where k: "k = Suc (Suc k')"
    using two_sucs [OF ok(2)] by blast
  obtain c1 where "circ_advance_read rd wr k (of_nat (roff (recl_drop_child g s))) c = Some c1"
    "drained given taken w c0 n c1"
    by (rule drained_commit [OF ok(1) x(1,3), of rd wr k' given w]) (rule that, simp_all add: k x(2))
  then show ?thesis
    using writing_drained [OF assms(1)] PumpIn by (auto simp: drop_consumer_pump_def)
qed

lemma write_room: "writing wr k given taken snt w L dm c \<Longrightarrow> circ_data c \<le> L"
  using circ_sizes(1) [of c] by (auto simp: writing_def streams_def)

interpretation async_write: half_future "circ_try_write rd wr k d" "\<lambda>e. write_should_terminate (producer_err_tag e)"
  "consumer_pump_poll rd wr k k" "write_enter_park d" "\<lambda>kk. write_park_round w kk d" "\<lambda>reg. write_guard_drop reg w"
  PCancelled "drop_consumer_pump rd wr k" "writing wr k given taken snt w L None" "writing wr k given taken snt w L (Some d)"
  "draining taken" circ_data "\<lambda>c. can_stop_write c d" "write_answer d" L
proof (unfold_locales, goal_cases)
  case (1 c)
  then show ?case
    by (rule write_attempt)
next
  case (2 c0 p c acc)
  then show ?case
    by (rule write_pump)
next
  case (4 c0 p c)
  then show ?case
    using write_room [of wr k given taken snt w L None c0] draining_data(1) [of taken c0 p c] by simp
next
  case (6 c)
  then show ?case
    by (rule write_parks)
next
  case (7 c kk reg)
  then show ?case
    by (rule write_parked)
next
  case (8 c reg)
  then show ?case
    by (intro conjI; rule write_unparked)
next
  case (10 c0 p c)
  then show ?case
    by (rule write_pump_dropped)
qed (simp_all add: draining_def write_answer_def write_room)

lemma write_lends_free:
  assumes "circ_ok c" "circ_try_write_at c d = Inr (s, tk)"
  defines "g \<equiv> create_write_segm c s tk"
  shows "recl_ok (cbuf c) g" "recl_least_count g = min (unat (max_of d)) (circ_free c)" "0 < circ_free c"
    "unat (min_of d) \<le> circ_free c"
    "pieces_addrs (rpieces g) = ring_addrs (length (cbuf c)) (circ_wp c) (min (unat (max_of d)) (circ_free c))"
proof -
  have tk: "s = pos_wp (circ_pos c)" "unat tk = min (unat (max_of d)) (circ_free c)" "0 < circ_free c"
    "unat (min_of d) \<le> circ_free c"
    using assms(2) by (auto simp: circ_try_write_at_def Let_def circ_free_def circ_free_size_def unat_min
        unat_gt_0 not_less word_le_nat_alt split: if_splits)
  have le: "unat tk \<le> length (cbuf c)"
    using tk(2) circ_sizes(1) [OF assms(1)] by linarith
  note ok = circ_segm_ok(1,2) [OF assms(1) circ_sizes(3) [OF assms(1)] le]
  show "recl_ok (cbuf c) g" "recl_least_count g = min (unat (max_of d)) (circ_free c)"
    using ok tk by (simp_all add: g_def)
  show "0 < circ_free c" "unat (min_of d) \<le> circ_free c"
    by (rule tk)+
  show "pieces_addrs (rpieces g) = ring_addrs (length (cbuf c)) (circ_wp c) (min (unat (max_of d)) (circ_free c))"
    using circ_segm_addrs(1) [OF assms(1) circ_sizes(3) [OF assms(1)] le] tk by (simp add: g_def)
qed

lemma write_polls:
  assumes "writing wr k given taken snt w L None c" "3 * L + 6 \<le> f"
  shows "\<exists>r st c'. run_polls (core_write_poll rd wr k w d f) polls (HalfTop, c) = Some (r, st, c')
    \<and> (case r of
         Pending \<Rightarrow> \<exists>c2. drop_write_future rd wr k w st c' = Some c2 \<and> writing wr k given taken snt w L None c2
       | Unreachable \<Rightarrow> False
       | Ready y \<Rightarrow> writing wr k given taken snt w L None c' \<and> write_answer d y c')"
proof -
  let ?R = "writing wr k given taken snt w L None" and ?P = "writing wr k given taken snt w L (Some d)"
  have poll: "core_write_poll rd wr k w d f = (\<lambda>x. run_steps (half_step (circ_try_write rd wr k d)
      (\<lambda>e. write_should_terminate (producer_err_tag e)) (consumer_pump_poll rd wr k k) (write_enter_park d)
      (write_park_round w (snd x) d) (\<lambda>reg. write_guard_drop reg w) PCancelled (fst x)) f)"
    by (simp add: core_write_poll_def core_write_step_shape fun_eq_iff case_prod_eta)
  from async_write.polls_return [OF assms, of rd d polls, folded poll]
  obtain r s where rs: "run_polls (core_write_poll rd wr k w d f) polls (HalfTop, c) = Some (r, s)"
    "if r = Pending then half_rests ?R ?P (draining taken) s else \<exists>y. r = Ready y \<and> ?R (snd s) \<and> write_answer d y (snd s)"
    by blast
  obtain st c' where "s = (st, c')"
    by (cases s)
  note r = rs [unfolded this snd_conv]
  show ?thesis
  proof (cases "r = Pending")
    case True
    with r(2) have "half_rests ?R ?P (draining taken) (st, c')"
      by simp
    from async_write.dropped [OF this, of rd] have "\<exists>c2. drop_write_future rd wr k w st c' = Some c2 \<and> ?R c2"
      by (auto simp: drop_write_future_def split: half_at.splits)
    then show ?thesis
      using r(1) True by auto
  next
    case False
    then show ?thesis
      using r by auto
  qed
qed

text \<open>
  C34: \<open>write_async\<close> of a passive producer before a consumer device. Whatever the device answers (it takes items,
  reports an error, or is not ready), every poll returns with fuel \<open>3 * capacity + 6\<close>. A pending future can be dropped
  wherever it is suspended, in a half-taken segment too: what was sent is what the device has taken and
  what is in the buffer, in order, and the demand is withdrawn. A ready future lends the free cells behind the last
  item, as many as the demand allows and no fewer than it asks; or reports the close or the cancellation.
\<close>

theorem async_write_streams:
  assumes "streams given taken snt [] c" "producer_passive (cprod c)" "\<not> consumer_passive (ccons c)"
    "producer_demand (cprod c) = None" "slots_free w c" "output_ok wr taken" "length (cbuf c) + 4 \<le> k"
    "3 * length (cbuf c) + 6 \<le> f"
  shows "\<exists>r st c'. run_polls (core_write_poll rd wr k w d f) polls (HalfTop, c) = Some (r, st, c')
    \<and> (case r of
         Pending \<Rightarrow> \<exists>c2. drop_write_future rd wr k w st c' = Some c2 \<and> streams given taken snt [] c2
                       \<and> producer_demand (cprod c2) = None
       | Unreachable \<Rightarrow> False
       | Ready (Inl e) \<Rightarrow> streams given taken snt [] c' \<and> e \<in> {PClosing, PCancelled}
       | Ready (Inr g) \<Rightarrow> streams given taken snt [] c' \<and> 0 < circ_free c' \<and> unat (min_of d) \<le> circ_free c'
           \<and> pieces_addrs (rpieces g)
               = ring_addrs (length (cbuf c')) (circ_wp c') (min (unat (max_of d)) (circ_free c')))"
proof -
  let ?R = "writing wr k given taken snt w (length (cbuf c)) None"
  have start: "?R c"
    using assms by (simp add: writing_def)
  have out: "circ_ok c' \<and> streams given taken snt [] c' \<and> producer_demand (cprod c') = None" if "?R c'" for c'
    using that unfolding writing_def by (metis streams_def)
  have lend: "0 < circ_free c' \<and> unat (min_of d) \<le> circ_free c'
      \<and> pieces_addrs (rpieces g) = ring_addrs (length (cbuf c')) (circ_wp c') (min (unat (max_of d)) (circ_free c'))"
    if "?R c'" "write_answer d (Inr g) c'" for g c'
    using that(2) out [OF that(1)] write_lends_free [of c' d] by (auto simp: write_answer_def)
  from write_polls [OF start assms(8), of rd d polls] show ?thesis
    by (elim ex_forward conj_forward) (auto dest: out lend simp: write_answer_def split: poll.splits sum.splits)
qed

theorem async_write_streams_witness:
  "\<exists>r st c. run_polls (core_write_poll (list_input [] :: (nat, unit, nat) input_dev) list_output
       6 9 (LessThan 2) 12) [(False, 7), (True, 7)]
       (HalfTop, core_new (BufProducer None None) (DevConsumer [] None) [None, None]) = Some (r, st, c) \<and> r \<noteq> Unreachable"
proof -
  let ?c = "core_new (BufProducer None None) (DevConsumer [] None) [None, None] :: (nat, nat, nat option list) circ"
  have ends: "cprod ?c = BufProducer None None" "ccons ?c = DevConsumer [] None" "length (cbuf ?c) = 2"
    by (simp_all add: core_new_def)
  have "streams (\<lambda>i. []) (\<lambda>p. p) [] [] ?c"
    by (rule core_new_streams) (simp_all add: in_stream_def out_stream_def ends)
  from async_write_streams [OF this, of 9 list_output 6 12 "list_input []" "LessThan 2"
      "[(False, 7), (True, 7)]"] show ?thesis
    by (fastforce simp: ends slots_free_def list_devices_ok)
qed

end
