(* ===== verification/Circ_Close.thy ===== *)
theory Circ_Close
  imports Circ_Async_Write
begin

text \<open>
  The asynchronous close of a passive producer before a device (\<open>core_.rs\<close>: \<open>close_tx_async\<close>,
  \<open>drain_output_async_\<close>), one poll of the future at a time.
\<close>

section \<open>The future\<close>

text \<open>\<open>close_tx_async\<close>: the close, then the draining loop.\<close>

datatype close_at = CloseStart | DrainTop | DrainPump pump_at nat

definition close_tx_step ::
    "('a, 'e, 'i) input_dev \<Rightarrow> ('a, 'f, 'o) output_dev \<Rightarrow> nat \<Rightarrow> nat \<Rightarrow> bool \<Rightarrow> close_at \<Rightarrow> ('a, 'i, 'o) circ
     \<Rightarrow> ((unit poll \<times> close_at \<times> ('a, 'i, 'o) circ) + (close_at \<times> ('a, 'i, 'o) circ)) option" where
  "close_tx_step rd wr k j cancelled st c =
     (case st of
        CloseStart \<Rightarrow> map_option (\<lambda>c1. Inr (DrainTop, c1)) (circ_close_tx rd wr k c)
      | DrainTop \<Rightarrow>
          Some (if cancelled then Inl (Ready (), DrainTop, c) else Inr (DrainPump PumpTop 0, c))
      | DrainPump p acc \<Rightarrow>
          (case consumer_pump_poll rd wr k j (p, acc) c of
             None \<Rightarrow> None
           | Some (Inr (p', acc'), c1) \<Rightarrow> Some (Inl (Pending, DrainPump p' acc', c1))
           | Some (Inl n, c1) \<Rightarrow>
               Some (if circ_data_size c1 = 0 \<and> circ_rx_closed c1 \<or> n = 0 then Inl (Ready (), DrainTop, c1)
                     else Inr (DrainTop, c1))))"

definition close_tx_poll ::
    "('a, 'e, 'i) input_dev \<Rightarrow> ('a, 'f, 'o) output_dev \<Rightarrow> nat \<Rightarrow> nat \<Rightarrow> bool \<times> waker
     \<Rightarrow> close_at \<times> ('a, 'i, 'o) circ \<Rightarrow> (unit poll \<times> close_at \<times> ('a, 'i, 'o) circ) option" where
  "close_tx_poll rd wr k f x s = run_steps (\<lambda>(st, c). close_tx_step rd wr k k (fst x) st c) f s"

definition drop_close_future ::
    "('a, 'e, 'i) input_dev \<Rightarrow> ('a, 'f, 'o) output_dev \<Rightarrow> nat \<Rightarrow> close_at \<Rightarrow> ('a, 'i, 'o) circ
     \<Rightarrow> ('a, 'i, 'o) circ option" where
  "drop_close_future rd wr k st c =
     (case st of DrainPump p acc \<Rightarrow> drop_consumer_pump rd wr k p c | _ \<Rightarrow> Some c)"

section \<open>A device that takes something whenever it is ready\<close>

text \<open>Unless it has \<open>failed\<close>, which its state remembers.\<close>

definition output_takes :: "('a, 'e, 'o) output_dev \<Rightarrow> ('o \<Rightarrow> bool) \<Rightarrow> bool" where
  "output_takes wr failed =
     (\<forall>p cs x q. wr p cs = (x, q) \<longrightarrow> (failed p \<longrightarrow> failed q)
        \<and> (cs \<noteq> [] \<longrightarrow> x \<noteq> None \<longrightarrow> count_of x = 0 \<longrightarrow> failed q))"

definition consumer_failed :: "('o \<Rightarrow> bool) \<Rightarrow> ('a, 'i, 'o) circ \<Rightarrow> bool" where
  "consumer_failed failed c = (case ccons c of BufConsumer d w \<Rightarrow> False | DevConsumer p w \<Rightarrow> failed p)"

lemma never_failed [simp]: "\<not> consumer_failed (\<lambda>_. False) c"
  by (simp add: consumer_failed_def split: consumer.split)

lemma output_loop_grows:
  "output_loop wr sz mx m s p c = (x, child, p') \<Longrightarrow> soff s \<le> soff child"
proof (induction wr sz mx m s p c rule: output_loop.induct)
  case (1 wr sz mx m s p c)
  note unf = output_loop.simps [of wr sz mx m s p c]
  obtain y p1 where y: "wr p (mem_read m (sbase s + soff s) (min (sz - c) (mx - c))) = (y, p1)"
    by fastforce
  show ?case
  proof (cases "\<exists>z n. \<not> mx \<le> c \<and> y = Some z \<and> pick_left z = Some n \<and> n \<noteq> 0 \<and> pick_right z = None")
    case True
    then obtain z n where z: "\<not> mx \<le> c" "y = Some z" "pick_left z = Some n" "n \<noteq> 0" "pick_right z = None"
      by blast
    have "output_loop wr sz mx m (s\<lparr>soff := soff s + n\<rparr>) p1 (c + n) = (x, child, p')"
      using "1.prems" y z by (simp add: unf Let_def)
    from "1.IH" [OF z(1) y [symmetric] z(2,3,4) refl refl z(5) this] show ?thesis
      by simp
  next
    case False
    then show ?thesis
      using "1.prems" y by (cases y) (auto simp: unf Let_def split: if_splits option.splits)
  qed
qed

lemma output_loop_fails:
  "output_loop wr sz mx m s p c = (x, child, p') \<Longrightarrow> output_takes wr failed \<Longrightarrow> failed p \<Longrightarrow> failed p'"
proof (induction wr sz mx m s p c rule: output_loop.induct)
  case (1 wr sz mx m s p c)
  note unf = output_loop.simps [of wr sz mx m s p c]
  obtain y p1 where y: "wr p (mem_read m (sbase s + soff s) (min (sz - c) (mx - c))) = (y, p1)"
    by fastforce
  have p1: "failed p1"
    using "1.prems"(2,3) y by (auto simp: output_takes_def)
  show ?case
  proof (cases "\<exists>z n. \<not> mx \<le> c \<and> y = Some z \<and> pick_left z = Some n \<and> n \<noteq> 0 \<and> pick_right z = None")
    case True
    then obtain z n where z: "\<not> mx \<le> c" "y = Some z" "pick_left z = Some n" "n \<noteq> 0" "pick_right z = None"
      by blast
    have "output_loop wr sz mx m (s\<lparr>soff := soff s + n\<rparr>) p1 (c + n) = (x, child, p')"
      using "1.prems" y z by (simp add: unf Let_def)
    from "1.IH" [OF z(1) y [symmetric] z(2,3,4) refl refl z(5) this "1.prems"(2) p1] show ?thesis .
  next
    case False
    then show ?thesis
      using "1.prems" y p1 by (cases y) (auto simp: unf Let_def split: if_splits option.splits)
  qed
qed

lemma output_loop_takes:
  assumes "output_loop wr sz mx m s p c = (Some x, child, p')" "c < mx" "mx \<le> sz" "output_takes wr failed"
    "sbase s + soff s < length m"
  shows "soff s < soff child \<or> failed p'"
proof -
  let ?cs = "mem_read m (sbase s + soff s) (min (sz - c) (mx - c))"
  have "?cs \<noteq> []"
    using assms(2,3,5) by (auto simp: mem_read_def)
  obtain z p1 where z: "wr p ?cs = (z, p1)"
    by fastforce
  have "z \<noteq> None"
    using assms(1,2) z by (cases z) (auto simp: output_loop.simps [of wr sz mx m s p c])
  then obtain y where y: "wr p ?cs = (Some y, p1)" "count_of (Some y) = 0 \<Longrightarrow> failed p1"
    using z assms(4) \<open>?cs \<noteq> []\<close> unfolding output_takes_def by blast
  show ?thesis
  proof (cases "count_of (Some y) = 0")
    case True
    then have "p' = p1"
      using assms(1,2) y(1) by (auto simp: output_loop.simps [of wr sz mx m s p c] count_of_def Let_def
          split: option.splits if_splits)
    then show ?thesis
      using y(2) True by simp
  next
    case False
    then obtain n where n: "pick_left y = Some n" "n \<noteq> 0"
      by (auto simp: count_of_def split: option.splits)
    show ?thesis
    proof (cases "pick_right y")
      case (Some err)
      then show ?thesis
        using assms(1,2) y(1) n by (auto simp: output_loop.simps [of wr sz mx m s p c] Let_def)
    next
      case None
      then have "output_loop wr sz mx m (s\<lparr>soff := soff s + n\<rparr>) p1 (c + n) = (Some x, child, p')"
        using assms(1,2) y(1) n by (simp add: output_loop.simps [of wr sz mx m s p c] Let_def)
      from output_loop_grows [OF this] show ?thesis
        using n(2) by simp
    qed
  qed
qed

lemma output_from_takes:
  assumes "recl_ok m g" "child_of g s" "output_takes wr failed" "recl_least_count g < 2 ^ 64"
    "segm_ref_output_from wr m s p (LessThan (of_nat (recl_least_count g))) = Done (Some x, child, p')"
  shows "0 < soff child \<or> failed p'"
proof -
  have le: "soff s \<le> slen s" and ne: "0 < recl_least_count g"
    using assms(2) by (auto simp: child_of_def)
  note ca = child_addrs [OF assms(1,2), of "slen s - soff s"]
  have "slen s \<le> recl_least_count g" and ok: "segm_ok m s"
    using ca(1,2) le by simp_all
  then have "unat (min (of_nat (recl_least_count g)) (of_nat (slen s)) :: usize) = slen s"
    using assms(4) by (simp add: unat_min unat_of_nat)
  then have l: "output_loop wr (slen s) (slen s) m s p (soff s) = (Some x, child, p')"
    using assms(5) by (simp add: segm_ref_output_from_def agreed_max_less_than)
  show ?thesis
  proof (cases "soff s < slen s")
    case True
    then have "sbase s + soff s < length m"
      using ok by (simp add: segm_ok_def)
    then show ?thesis
      using output_loop_takes [OF l True order_refl assms(3)] by auto
  next
    case False
    have "0 < slen s"
      using recl_as_segm_ok(2) [OF assms(1) ne] assms(2) by (auto simp: child_of_def least_count_def)
    then show ?thesis
      using output_loop_grows [OF l] False le by simp
  qed
qed

lemma output_from_fails:
  "segm_ref_output_from wr m s p d = Done (x, child, p') \<Longrightarrow> output_takes wr failed \<Longrightarrow> failed p \<Longrightarrow> failed p'"
  by (cases "agreed_max d (slen s)")
    (auto simp: segm_ref_output_from_def dest: output_loop_fails split: option.splits)

lemma react_poll_fails:
  "dev_consumer_react_poll wr m g p moved aw = Done (p', r) \<Longrightarrow> output_takes wr failed \<Longrightarrow> failed p \<Longrightarrow> failed p'"
proof (induction wr m g p moved aw rule: dev_consumer_react_poll.induct)
  case (1 wr m g p moved aw)
  define f where "f = segm_ref_output_from wr m (case aw of None \<Rightarrow> recl_as_segm g | Some s \<Rightarrow> s) p
      (LessThan (of_nat (recl_least_count g)))"
  note unf = dev_consumer_react_poll.simps [of wr m g p moved aw, folded f_def]
  show ?case
  proof (cases "aw = None \<and> recl_is_empty g")
    case False
    then obtain x child p1 where f: "f = Done (x, child, p1)"
      using "1.prems"(1) by (cases f) (auto simp: unf)
    have p1: "failed p1"
      using output_from_fails [OF f [unfolded f_def] "1.prems"(2,3)] .
    then show ?thesis
      using "1.prems" "1.IH" [OF False f [unfolded f_def]] False f
      by (cases x) (auto simp: unf Let_def split: if_splits)
  next
    case True
    then have "p' = p"
      using "1.prems"(1) unfolding unf by simp
    then show ?thesis
      using "1.prems"(3) by simp
  qed
qed

lemma consumer_react_takes:
  assumes "recl_ok m g" "await_ok g aw" "output_ok wr taken" "output_takes wr failed" "recl_least_count g < 2 ^ 64"
    "\<not> (aw = None \<and> recl_is_empty g)" "dev_consumer_react_poll wr m g p moved aw = Done (p', Inl (x, g'))"
  shows "roff g < roff g' \<or> failed p'"
proof -
  define s where "s = (case aw of None \<Rightarrow> recl_as_segm g | Some s \<Rightarrow> s)"
  note s = entered_child [OF assms(2,6) s_def]
  obtain y child p1 where f: "segm_ref_output_from wr m s p (LessThan (of_nat (recl_least_count g)))
      = Done (y, child, p1)"
    using from_returns(2) [of wr m s p "of_nat (recl_least_count g)"] by blast
  obtain k where step: "output_reacted taken m (stands_at g aw) p k (recl_drop_child g child) p1"
    by (rule output_from_spec [OF assms(1) s(1) assms(3) f], unfold s(2), rule that)
  note unf = dev_consumer_react_poll.simps [of wr m g p moved aw, folded s_def, unfolded f]
  show ?thesis
  proof (cases y)
    case None
    then show ?thesis
      using assms(6,7) by (auto simp: unf)
  next
    case (Some z)
    have pos: "0 < soff child \<or> failed p1"
      by (rule output_from_takes [OF assms(1) s(1) assms(4,5) f [unfolded Some]])
    have ok1: "recl_ok m (recl_drop_child g child)"
      using output_reacted_ok [OF step] child_ok [OF assms(1) s(1)] s(2) by simp
    have go: "roff (recl_drop_child g child) \<le> roff g'"
      if "dev_consumer_react_poll wr m (recl_drop_child g child) p1 n None = Done (p', Inl (x, g'))" for n
      using dev_consumer_react_poll_spec [OF ok1 _ assms(3), of None p1 n] that by (auto simp: output_reacted_def)
    have "roff (recl_drop_child g child) \<le> roff g'"
      using assms(6,7) go Some by (auto simp: unf Let_def split: if_splits)
    moreover have "failed p'" if "failed p1"
      using assms(4,6,7) Some that react_poll_fails by (auto simp: unf Let_def split: if_splits)
    ultimately show ?thesis
      using pos by (auto simp: recl_drop_child_def)
  qed
qed

text \<open>So a pump that moves nothing has met an empty buffer, or the device has failed.\<close>

lemma consumer_pump_takes':
  assumes "circ_ok c0" "draining taken c0 st c" "\<not> consumer_passive (ccons c0)" "output_ok wr taken" "output_takes wr failed"
    "circ_data c0 < j" "consumer_pump_loop rd wr (Suc (Suc k)) j st 0 c = Some (Inl 0, c')"
  shows "circ_data c' = 0 \<or> consumer_failed failed c'"
proof (cases "st = PumpTop \<and> circ_data c0 = 0")
  case True
  then have "c = c0" "try_read_init c0 = None"
    using assms(1,2) read_init [OF assms(1)] by (simp_all add: draining_def)
  then show ?thesis
    using True assms(3,6,7) by (cases j) (auto simp: pump_segm_def not_passive)
next
  case False
  obtain p0 v p g moved aw n where q: "ccons c0 = DevConsumer p0 v"
    and c: "c = c0\<lparr>ccons := DevConsumer p v\<rparr>"
    and ps: "pump_segm (try_read_init c) st = Some (g, circ_data c0, moved, aw)"
    and g: "recl_ok (cbuf c0) g" "await_ok g aw"
    and rx: "output_reacted taken (cbuf c0) (read_all c0) p0 n (stands_at g aw) p"
    by (rule draining_enters [OF assms(1-3) False], rule that)
  obtain i where j: "j = Suc i"
    using assms(6) by (cases j) auto
  have pieces: "rpieces g = rpieces (read_all c0)"
    using reacted_pieces(2) [OF rx] by simp
  note all = read_all_ok [OF assms(1)]
  have roff: "roff (read_all c0) = 0"
    by (simp add: read_all_def create_read_segm_def recl_new_def Let_def)
  have "recl_least_count g \<le> circ_data c0"
    using all(2) pieces roff by (simp add: recl_least_count_def)
  moreover have "circ_data c0 < 2 ^ 64"
    using unsigned_less [of "circ_data_size c0"] by (simp add: circ_data_def)
  ultimately have small: "recl_least_count g < 2 ^ 64"
    by linarith
  have entered: "\<not> (aw = None \<and> recl_is_empty g)"
    using False ps all(2) read_init [OF assms(1)] c
    by (cases st) (auto simp: pump_segm_def recl_is_empty_def)
  obtain r k1 where r: "dev_consumer_react_poll wr (cbuf c0) g p moved aw = Done r"
    and ans: "output_answer taken (cbuf c0) (stands_at g aw) p k1 r"
    using dev_consumer_react_poll_spec [OF g assms(4), of p moved] by blast
  have full: "output_answer taken (cbuf c0) (read_all c0) p0 (n + k1) r"
    by (rule output_answer_trans [OF rx ans])
  obtain p' x g' where y: "r = (p', Inl (x, g'))"
    using assms(7) ps r by (cases r; cases "snd r") (auto simp: j c)
  let ?n = "n + k1"
  obtain c1 where c1: "circ_advance_read rd wr (Suc (Suc k)) (of_nat (roff g')) (c0\<lparr>ccons := DevConsumer p' v\<rparr>) = Some c1"
    and fl: "drained given taken w c0 ?n c1" and n: "circ_data c0 - recl_least_count g' = ?n"
    by (rule drained_commit [OF assms(1) q full [unfolded y output_answer.simps]], rule that)
  have "roff g' = ?n"
    using full roff by (simp add: y output_reacted_def)
  then have took: "0 < ?n \<or> failed p'"
    using consumer_react_takes [OF g assms(4,5) small entered r [unfolded y]] by linarith
  let ?cc = "c0\<lparr>ccons := DevConsumer p' v\<rparr>"
  have dev: "ccons c1 = DevConsumer p' v"
    by (rule advance_read_quiet [of ?cc rd wr k "of_nat (roff g')"]) (use c1 in auto)
  show ?thesis
  proof (cases "?n = 0")
    case True
    then have "c' = c1"
      using assms(7) ps r c1 n \<open>roff g' = ?n\<close> by (auto simp: j c y Let_def split: if_splits)
    then show ?thesis
      using took dev True by (simp add: consumer_failed_def)
  next
    case False
    then have pos: "0 < ?n"
      by simp
    have "consumer_pump_loop rd wr (Suc (Suc k)) i PumpTop ?n c1 = Some (Inl 0, c')"
      using assms(7) ps r c1 n pos by (auto simp: j c y Let_def split: if_splits)
    moreover have fr: "circ_data c0 = circ_data c1 + ?n" "circ_ok c1"
      using fl by (simp_all only: drained_def)
    have "draining taken c1 PumpTop c1" "\<not> consumer_passive (ccons c1)"
      using fl assms(3) by (simp_all add: draining_def drained_def same_modes_def)
    moreover have "circ_data c1 < i"
      using fr(1) pos assms(6) j by linarith
    ultimately show ?thesis
      using consumer_pump_loop_spec [OF fr(2) _ _ assms(4), of PumpTop c1 i rd k ?n undefined w] pos by force
  qed
qed

lemma consumer_pump_takes:
  assumes "circ_ok c0" "draining taken c0 st c" "\<not> consumer_passive (ccons c0)" "output_ok wr taken" "output_takes wr failed"
    "circ_data c0 < j" "2 \<le> i" "consumer_pump_loop rd wr i j st 0 c = Some (Inl 0, c')"
  shows "circ_data c' = 0 \<or> consumer_failed failed c'"
proof -
  obtain k where i: "i = Suc (Suc k)"
    using assms(7) by (cases i; cases "i - 1") auto
  show ?thesis
    using consumer_pump_takes' [OF assms(1-6)] assms(8) unfolding i by blast
qed

section \<open>The close\<close>

definition close_base ::
    "('i \<Rightarrow> 'a list) \<Rightarrow> ('o \<Rightarrow> 'a option list) \<Rightarrow> 'a list \<Rightarrow> nat \<Rightarrow> ('a, 'i, 'o) circ \<Rightarrow> bool" where
  "close_base given taken snt L c =
     (streams given taken snt [] c \<and> producer_passive (cprod c) \<and> \<not> consumer_passive (ccons c) \<and> length (cbuf c) = L)"

fun closing ::
    "('i \<Rightarrow> 'a list) \<Rightarrow> ('o \<Rightarrow> 'a option list) \<Rightarrow> 'a list \<Rightarrow> nat \<Rightarrow> close_at \<times> ('a, 'i, 'o) circ \<Rightarrow> bool" where
  "closing given taken snt L (CloseStart, c) = close_base given taken snt L c"
| "closing given taken snt L (DrainTop, c) = (close_base given taken snt L c \<and> circ_tx_closed c)"
| "closing given taken snt L (DrainPump p acc, c) =
     (\<exists>c0. close_base given taken snt L c0 \<and> circ_tx_closed c0 \<and> draining taken c0 p c)"

fun close_rank :: "nat \<Rightarrow> close_at \<times> ('a, 'i, 'o) circ \<Rightarrow> nat" where
  "close_rank L (CloseStart, c) = 2 * L + 3"
| "close_rank L (DrainTop, c) = 2 * circ_data c + 2"
| "close_rank L (DrainPump p acc, c) = 2 * circ_data c + (if acc = 0 then 1 else 3)"

lemma close_base_drained:
  assumes "close_base given taken snt L c0" "drained given taken w c0 n c1"
  shows "close_base given taken snt L c1" "circ_tx_closed c1 = circ_tx_closed c0" "circ_data c0 = circ_data c1 + n"
proof -
  have "take n (circ_queue c0) @ circ_queue c1 = circ_queue c0"
    using assms(2) by (simp add: drained_def)
  then show "close_base given taken snt L c1"
    using assms by (auto simp: close_base_def drained_def streams_def same_modes_def)
  show "circ_tx_closed c1 = circ_tx_closed c0" "circ_data c0 = circ_data c1 + n"
    using assms(2) by (simp_all only: drained_def)
qed

lemma close_base_data: "close_base given taken snt L c \<Longrightarrow> circ_ok c \<and> circ_data c \<le> L"
  using circ_sizes(1) [of c] by (auto simp: close_base_def streams_def)

lemma closing_data: "closing given taken snt L s \<Longrightarrow> circ_data (snd s) \<le> L"
  using close_base_data draining_data(1)
  by (cases "(given, taken, snt, L, s)" rule: closing.cases) (fastforce dest: close_base_data)+

text \<open>The close itself: the flag, and a synchronous pump of the device.\<close>

lemma close_start:
  assumes "close_base given taken snt L c" "output_ok wr taken" "L + 4 \<le> k"
  obtains c1 where "circ_close_tx rd wr k c = Some c1" "close_base given taken snt L c1" "circ_tx_closed c1"
proof -
  let ?f = "circ_set_flag CIRC_TX_CLOSED c"
  let ?c0 = "fire_consumer (ProducerClose (circ_data_size ?f)) ?f"
  have b: "streams given taken snt [] c" "producer_passive (cprod c)" "\<not> consumer_passive (ccons c)" "length (cbuf c) = L"
    using assms(1) by (simp_all add: close_base_def)
  have s: "streams given taken snt [] ?c0" "length (cbuf ?c0) + 4 \<le> k"
    using b(1,4) assms(3) set_flag_streams [of CIRC_TX_CLOSED given taken snt "[]" c] by simp_all
  obtain n c1 where p: "pump_output_sync rd wr k ?c0 = Some (n, c1)" "streams given taken snt [] c1" "same_modes ?c0 c1"
    using pump_output_sync_returns [OF s(1) assms(2) s(2), of rd] by blast
  have fl: "circ_tx_closed ?c0"
    using flag_word_flags(1) by (auto simp: circ_tx_closed_def circ_set_flag_def atomic_update_def Let_def has_flag_def
        split: prod.splits if_splits)
  have pas: "\<not> consumer_passive (ccons ?c0)" "producer_passive (cprod ?c0)"
    using b(2,3) by simp_all
  have "circ_tx_closed c1"
  proof (cases k)
    case (Suc j)
    then have "pump_output_loop rd wr j 0 ?c0 = Some (n, c1)"
      using p(1) pas by (simp add: pump_output_sync.simps)
    from pump_output_loop_kept [OF this pas(1), of 0] show ?thesis
      using fl by (simp add: end_kept_def)
  qed (use assms(3) in simp)
  then show thesis
    using that [of c1] p b by (simp add: circ_close_tx_def Let_def close_base_def same_modes_def)
qed

lemma close_step_progress:
  assumes "closing given taken snt L s" "output_ok wr taken" "L + 4 \<le> k"
  shows "\<exists>x. (\<lambda>(st, c). close_tx_step rd wr k k cancelled st c) s = Some x
    \<and> (case x of
         Inl (r, s') \<Rightarrow>
           if r = Pending then closing given taken snt L s'
           else r = Ready () \<and> close_base given taken snt L (snd s') \<and> circ_tx_closed (snd s')
                \<and> (cancelled \<or> \<not> output_takes wr failed \<or> circ_data (snd s') = 0 \<or> consumer_failed failed (snd s'))
       | Inr s' \<Rightarrow> closing given taken snt L s' \<and> close_rank L s' < close_rank L s)"
proof -
  obtain st c where s: "s = (st, c)"
    by (cases s)
  show ?thesis
  proof (cases st)
    case CloseStart
    obtain c1 where c1: "circ_close_tx rd wr k c = Some c1" "close_base given taken snt L c1" "circ_tx_closed c1"
      by (rule close_start [of given taken snt L c wr k rd]) (use assms s CloseStart in \<open>auto intro: that\<close>)
    then show ?thesis
      using close_base_data [OF c1(2)] by (simp add: s CloseStart close_tx_step_def)
  next
    case DrainTop
    then show ?thesis
      using assms(1) by (auto simp: s close_tx_step_def draining_def)
  next
    case (DrainPump p acc)
    then obtain c0 where b: "close_base given taken snt L c0" "circ_tx_closed c0" "draining taken c0 p c"
      using assms(1) s by auto
    have ok: "circ_ok c0" "\<not> consumer_passive (ccons c0)" "circ_data c0 < k"
      using b(1) close_base_data [OF b(1)] assms(3) by (auto simp: close_base_def)
    note dr = draining_data(1) [OF b(3)] draining_data(2) [OF b(3) ok(2)]
    obtain m where m: "k = Suc (Suc m)"
      using assms(3) by (cases k; cases "k - 1") auto
    obtain r c1 where r: "consumer_pump_loop rd wr k k p acc c = Some (r, c1)"
      and out: "case r of
          Inl n \<Rightarrow> \<exists>m. drained given taken 0 c0 m c1 \<and> n = acc + m
        | Inr (p', acc') \<Rightarrow> \<exists>c2 m. drained given taken 0 c0 m c2 \<and> draining taken c2 p' c1 \<and> acc' = acc + m"
      using consumer_pump_loop_spec [OF ok(1) b(3) ok(2) assms(2) ok(3), of rd m acc given 0] unfolding m by blast
    show ?thesis
    proof (cases r)
      case (Inr y)
      then obtain p' acc' c2 m where y: "y = (p', acc')" "drained given taken 0 c0 m c2" "draining taken c2 p' c1"
        using out by (cases y) auto
      have "closing given taken snt L (DrainPump p' acc', c1)"
        using close_base_drained(1,2) [OF b(1) y(2)] b(2) y(3) by auto
      then show ?thesis
        using r dr(2) by (simp add: s DrainPump close_tx_step_def consumer_pump_poll_def Inr y(1) del: closing.simps)
    next
      case (Inl n)
      then obtain j where j: "drained given taken 0 c0 j c1" "n = acc + j"
        using out by auto
      note c1 = close_base_drained [OF b(1) j(1)]
      have "circ_data c1 = 0 \<or> consumer_failed failed c1" if "n = 0" "output_takes wr failed"
      proof (rule consumer_pump_takes [OF ok(1) b(3) ok(2) assms(2) that(2) ok(3)])
        show "2 \<le> k"
          using m by simp
        show "consumer_pump_loop rd wr k k p 0 c = Some (Inl 0, c1)"
          using r that(1) j(2) Inl by simp
      qed
      then show ?thesis
        using r dr c1 b(2) j(2)
        by (auto simp: s DrainPump close_tx_step_def consumer_pump_poll_def Inl circ_data_def)
    qed
  qed
qed

lemma close_dropped:
  assumes "closing given taken snt L (st, c)" "2 \<le> k"
  obtains c' where "drop_close_future rd wr k st c = Some c'" "close_base given taken snt L c'"
proof (cases "\<exists>g before moved s acc. st = DrainPump (PumpIn g before moved s) acc")
  case True
  then obtain g before moved s acc where st: "st = DrainPump (PumpIn g before moved s) acc"
    by blast
  then obtain c0 where b: "close_base given taken snt L c0" "draining taken c0 (PumpIn g before moved s) c"
    using assms(1) by auto
  then obtain p0 p v n where x: "ccons c0 = DevConsumer p0 v" "c = c0\<lparr>ccons := DevConsumer p v\<rparr>"
    "output_reacted taken (cbuf c0) (read_all c0) p0 n (recl_drop_child g s) p"
    by (auto simp: draining_def)
  obtain k' where k: "k = Suc (Suc k')"
    using assms(2) by (cases k; cases "k - 1") auto
  obtain c1 where "circ_advance_read rd wr k (of_nat (roff (recl_drop_child g s))) c = Some c1"
    "drained given taken 0 c0 n c1"
    by (rule drained_commit [OF conjunct1 [OF close_base_data [OF b(1)]] x(1,3), of rd wr k' given 0])
      (rule that, simp_all add: k x(2))
  then show thesis
    using close_base_drained(1) [OF b(1)] st
    by (intro that [of c1]) (simp_all add: drop_close_future_def drop_consumer_pump_def)
next
  case False
  then have "drop_close_future rd wr k st c = Some c" "close_base given taken snt L c"
    using assms(1) by (cases st; auto simp: drop_close_future_def drop_consumer_pump_def draining_def
        split: pump_at.splits; metis pump_at.exhaust)+
  then show thesis
    by (rule that)
qed

text \<open>
  C35: \<open>close_tx_async\<close> of a passive producer before a device. Whatever the device answers, every poll returns with
  fuel \<open>2 * capacity + 4\<close>, and what was sent is what the device has and the buffer holds, in order, also
  when the future is dropped in the middle of a segment. When it ends the producer is closed; and if no poll was
  cancelled and the device takes something whenever it is ready, or remembers that it has failed, then it has taken
  everything that was ever sent, or has failed.
\<close>

theorem async_close_drains:
  assumes "streams given taken snt [] c" "producer_passive (cprod c)" "\<not> consumer_passive (ccons c)"
    "output_ok wr taken" "length (cbuf c) + 4 \<le> k" "2 * length (cbuf c) + 4 \<le> f"
  shows "\<exists>r st c'. run_polls (close_tx_poll rd wr k f) polls (CloseStart, c) = Some (r, st, c')
    \<and> (case r of
         Pending \<Rightarrow> \<exists>c2. drop_close_future rd wr k st c' = Some c2 \<and> streams given taken snt [] c2
       | Unreachable \<Rightarrow> False
       | Ready u \<Rightarrow> streams given taken snt [] c' \<and> circ_tx_closed c'
           \<and> producer_passive (cprod c') \<and> \<not> consumer_passive (ccons c')
           \<and> (output_takes wr failed \<and> True \<notin> fst ` set polls \<longrightarrow>
               out_stream taken [] c' = map Some snt \<or> consumer_failed failed c'))"
proof -
  let ?L = "length (cbuf c)"
  let ?I = "closing given taken snt ?L"
  let ?E = "\<lambda>b r s. r = Ready () \<and> close_base given taken snt ?L (snd s) \<and> circ_tx_closed (snd s)
      \<and> (b \<or> \<not> output_takes wr failed \<or> circ_data (snd s) = 0 \<or> consumer_failed failed (snd s))"
  let ?Q = "?E (True \<in> fst ` set polls)"
  have poll: "\<exists>r s'. close_tx_poll rd wr k f x s = Some (r, s') \<and> (if r = Pending then ?I s' else ?Q r s')"
    if "x \<in> set polls" "?I s" for x s
  proof -
    have "close_rank ?L s < f"
      using closing_data [OF that(2)] assms(6) by (cases "(?L, s)" rule: close_rank.cases) auto
    moreover have "\<exists>y. (\<lambda>(st, c). close_tx_step rd wr k k (fst x) st c) s = Some y
        \<and> (case y of Inl r \<Rightarrow> (case r of (r, s') \<Rightarrow> if r = Pending then ?I s' else ?E (fst x) r s')
             | Inr s' \<Rightarrow> ?I s' \<and> close_rank ?L s' < close_rank ?L s)" if "?I s" for s
      using close_step_progress [OF that assms(4,5), of rd "fst x" failed] by (simp only: split_beta)
    ultimately have "\<exists>y. close_tx_poll rd wr k f x s = Some y
        \<and> (case y of (r, s') \<Rightarrow> if r = Pending then ?I s' else ?E (fst x) r s')"
      unfolding close_tx_poll_def using that(2) by (intro run_steps_return [where rank = "close_rank ?L" and I = ?I])
    moreover have "?Q r s'" if "?E (fst x) r s'" for r s'
      using that \<open>x \<in> set polls\<close> by (cases "fst x") force+
    ultimately show ?thesis
      by (fastforce split: if_splits)
  qed
  have "?I (CloseStart, c)"
    using assms by (simp add: close_base_def)
  then have "\<exists>r s. run_polls (close_tx_poll rd wr k f) polls (CloseStart, c) = Some (r, s)
      \<and> (if r = Pending then ?I s else ?Q r s)"
    by (rule run_polls_return [where I = ?I and Q = ?Q, rotated]) (rule poll)
  then obtain r st c' where r: "run_polls (close_tx_poll rd wr k f) polls (CloseStart, c) = Some (r, st, c')"
    "if r = Pending then ?I (st, c') else ?Q r (st, c')"
    by auto
  show ?thesis
  proof (cases "r = Pending")
    case True
    obtain c2 where "drop_close_future rd wr k st c' = Some c2" "close_base given taken snt ?L c2"
      by (rule close_dropped [of given taken snt ?L st c' k rd wr]) (use r(2) True assms(5) in \<open>auto intro: that\<close>)
    then show ?thesis
      using r(1) True by (auto simp: close_base_def)
  next
    case False
    then have e: "r = Ready ()" "close_base given taken snt ?L c'" "circ_tx_closed c'"
      "True \<in> fst ` set polls \<or> \<not> output_takes wr failed \<or> circ_data c' = 0 \<or> consumer_failed failed c'"
      using r(2) by simp_all
    have st: "streams given taken snt [] c'" "in_stream given snt c' = snt"
      using e(2) by (cases "cprod c'"; simp add: close_base_def in_stream_def)+
    have "out_stream taken [] c' = map Some snt" if "circ_data c' = 0"
      using st that length_0_conv [of "circ_queue c'"] by (simp add: streams_def)
    then show ?thesis
      using r(1) e st(1) by (auto simp: close_base_def)
  qed
qed

text \<open>One item is in the buffer when the producer closes.\<close>

theorem async_close_drains_witness:
  "\<exists>r st c. run_polls (close_tx_poll (list_input []) list_output 6 8) [(False, 7), (False, 7)]
       (CloseStart, (core_new (BufProducer None None) (DevConsumer [] None) [Some (5 :: nat), None])\<lparr>cstat := 2 ^ 28\<rparr>)
       = Some (r, st, c) \<and> (r = Ready () \<longrightarrow> out_stream (\<lambda>p. p) [] c = [Some 5])"
proof -
  define c :: "(nat, nat, nat option list) circ"
    where "c = (core_new (BufProducer None None) (DevConsumer [] None) [Some 5, None])\<lparr>cstat := 2 ^ 28\<rparr>"
  have ends: "cprod c = BufProducer None None" "ccons c = DevConsumer [] None" "cbuf c = [Some (5 :: nat), None]"
    by (simp_all add: c_def core_new_def)
  have cap: "circ_capacity c = 2"
    by (simp add: circ_capacity_def ends)
  have "circ_pos c = iopos_unpack (2 ^ 28) 2"
    unfolding circ_pos_def cap by (simp add: c_def)
  also have "\<dots> = \<lparr>pos_rv = False, pos_rp = 0, pos_wp = 1, pos_cap = 2\<rparr>"
    by code_simp
  finally have pos: "circ_pos c = \<dots>" .
  have "circ_data c = 1"
    by (simp add: circ_data_def circ_data_size_def iopos_data_size_def pos del: circ_cap)
  moreover have "circ_ok c"
    by (simp add: circ_ok_def iopos_ok_def pos ends circ_cap_ok_def MIN_CAPACITY_def CIRC_MAX_CAPACITY_def del: circ_cap)
      code_simp
  ultimately have st: "streams (\<lambda>i. []) (\<lambda>p. p) [5] [] c"
    by (simp add: streams_def in_stream_def out_stream_def ends circ_queue_def pos mem_get_def ring_addrs_def)
  have takes: "output_takes (list_output :: (nat, unit, nat option list) output_dev) (\<lambda>_. False)"
    by (auto simp: output_takes_def list_output_def count_of_def)
  have pre: "producer_passive (cprod c)" "\<not> consumer_passive (ccons c)" "length (cbuf c) + 4 \<le> 6"
    "2 * length (cbuf c) + 4 \<le> 8"
    by (simp_all add: ends)
  from async_close_drains [OF st pre(1,2) list_devices_ok(2) pre(3,4), of "list_input []" "[(False, 7), (False, 7)]"
      "\<lambda>_. False"] takes
  have "\<exists>r st c'. run_polls (close_tx_poll (list_input []) list_output 6 8) [(False, 7), (False, 7)]
        (CloseStart, c) = Some (r, st, c') \<and> (r = Ready () \<longrightarrow> out_stream (\<lambda>p. p) [] c' = [Some 5])"
    by (elim exE conjE) (rule exI conjI impI | assumption | simp del: run_polls.simps)+
  then show ?thesis
    unfolding c_def by blast
qed

end
