(* ===== verification/Circ_Build.thy ===== *)
theory Circ_Build
  imports Circ_Async
begin

text \<open>
  The builder of the circular buffer (\<open>builder.rs\<close>) and the start-up of its ends (\<open>circ_buff_.rs\<close>:
  the four \<open>init_async\<close>). The type-state of the source, which forces both modes to be chosen before
  anything can be built, is the types of the steps here.
\<close>

section \<open>The steps of the builder\<close>

datatype builder_error = SizeTooSmall usize | SizeTooBig usize | BCancelled | ProducerInit | ConsumerInit

record 'a buff_builder =
  bb_buffer :: "'a memory"

record ('a, 'i) producer_set =
  ps_producer :: "'i producer"
  ps_buffer :: "'a memory"

record ('a, 'o) consumer_set =
  cs_consumer :: "'o consumer"
  cs_buffer :: "'a memory"

record ('a, 'i, 'o) essential =
  es_producer :: "'i producer option"
  es_consumer :: "'o consumer option"
  es_buffer :: "'a memory option"

definition essential_new :: "'i producer \<Rightarrow> 'o consumer \<Rightarrow> 'a memory \<Rightarrow> ('a, 'i, 'o) essential" where
  "essential_new p c b = \<lparr>es_producer = Some p, es_consumer = Some c, es_buffer = Some b\<rparr>"

definition try_capacity :: "usize \<Rightarrow> (builder_error, usize) rust_result" where
  "try_capacity n =
     (if CIRC_MAX_CAPACITY < n then Inl (SizeTooBig n)
      else if n < MIN_CAPACITY then Inl (SizeTooSmall n)
      else Inr n)"

definition try_with_buffer :: "'a memory \<Rightarrow> (builder_error, 'a buff_builder) rust_result" where
  "try_with_buffer buffer =
     (case try_capacity (of_nat (length buffer)) of Inl e \<Rightarrow> Inl e | Inr _ \<Rightarrow> Inr \<lparr>bb_buffer = buffer\<rparr>)"

text \<open>\<open>Owned::new_uninit_slice\<close> is that many uninitialised cells.\<close>

definition with_capacity :: "usize \<Rightarrow> (builder_error, 'a buff_builder) rust_result" where
  "with_capacity n =
     (case try_capacity n of Inl e \<Rightarrow> Inl e | Inr cap \<Rightarrow> Inr \<lparr>bb_buffer = replicate (unat cap) None\<rparr>)"

abbreviation buf_producer :: "'i producer" where "buf_producer \<equiv> BufProducer None None"
abbreviation buf_consumer :: "'o consumer" where "buf_consumer \<equiv> BufConsumer None None"

definition bb_producer_passive :: "'a buff_builder \<Rightarrow> ('a, 'i) producer_set" where
  "bb_producer_passive b = \<lparr>ps_producer = buf_producer, ps_buffer = bb_buffer b\<rparr>"

definition bb_pipe_from_input :: "'i \<Rightarrow> 'a buff_builder \<Rightarrow> ('a, 'i) producer_set" where
  "bb_pipe_from_input i b = \<lparr>ps_producer = DevProducer i None, ps_buffer = bb_buffer b\<rparr>"

definition bb_consumer_passive :: "'a buff_builder \<Rightarrow> ('a, 'o) consumer_set" where
  "bb_consumer_passive b = \<lparr>cs_consumer = buf_consumer, cs_buffer = bb_buffer b\<rparr>"

definition bb_pipe_into_output :: "'o \<Rightarrow> 'a buff_builder \<Rightarrow> ('a, 'o) consumer_set" where
  "bb_pipe_into_output p b = \<lparr>cs_consumer = DevConsumer p None, cs_buffer = bb_buffer b\<rparr>"

definition bb_pipe_between :: "'i \<Rightarrow> 'o \<Rightarrow> 'a buff_builder \<Rightarrow> ('a, 'i, 'o) essential" where
  "bb_pipe_between i p b = essential_new (DevProducer i None) (DevConsumer p None) (bb_buffer b)"

definition ps_consumer_passive :: "('a, 'i) producer_set \<Rightarrow> ('a, 'i, 'o) essential" where
  "ps_consumer_passive s = essential_new (ps_producer s) buf_consumer (ps_buffer s)"

definition ps_pipe_into_output :: "'o \<Rightarrow> ('a, 'i) producer_set \<Rightarrow> ('a, 'i, 'o) essential" where
  "ps_pipe_into_output p s = essential_new (ps_producer s) (DevConsumer p None) (ps_buffer s)"

definition cs_producer_passive :: "('a, 'o) consumer_set \<Rightarrow> ('a, 'i, 'o) essential" where
  "cs_producer_passive s = essential_new buf_producer (cs_consumer s) (cs_buffer s)"

definition cs_pipe_from_input :: "'i \<Rightarrow> ('a, 'o) consumer_set \<Rightarrow> ('a, 'i, 'o) essential" where
  "cs_pipe_from_input i s = essential_new (DevProducer i None) (cs_consumer s) (cs_buffer s)"

section \<open>The start-up of the ends\<close>

text \<open>
  The reaction is polled once and dropped, suspended or not; then the borrowed segment is dropped, which
  commits; then the end is armed. A passive end does nothing. No \<open>init_async\<close> ever fails.
\<close>

definition init_producer ::
    "('a, 'e, 'i) input_dev \<Rightarrow> ('a, 'f, 'o) output_dev \<Rightarrow> nat \<Rightarrow> ('a, 'i, 'o) circ
     \<Rightarrow> (unit + unit) option \<times> ('a, 'i, 'o) circ" where
  "init_producer rd wr k c =
     (case cprod c of
        BufProducer d w \<Rightarrow> (Some (Inr ()), c)
      | DevProducer i w \<Rightarrow>
          (let after = (case try_write_init c of
                 None \<Rightarrow> Some c
               | Some g \<Rightarrow>
                   (case dev_producer_react_poll rd (cbuf c) g i 0 None of
                      Panic e \<Rightarrow> None
                    | Done (m', i', r) \<Rightarrow>
                        circ_advance_write rd wr k
                          (of_nat (roff (case r of Inl (_, g') \<Rightarrow> g' | Inr (g', _, s) \<Rightarrow> recl_drop_child g' s)))
                          (c\<lparr>cbuf := m', cprod := DevProducer i' w\<rparr>)))
           in case after of None \<Rightarrow> (None, c) | Some c1 \<Rightarrow> (Some (Inr ()), set_tx_standby c1)))"

definition init_consumer ::
    "('a, 'e, 'i) input_dev \<Rightarrow> ('a, 'f, 'o) output_dev \<Rightarrow> nat \<Rightarrow> ('a, 'i, 'o) circ
     \<Rightarrow> (unit + unit) option \<times> ('a, 'i, 'o) circ" where
  "init_consumer rd wr k c =
     (case ccons c of
        BufConsumer d w \<Rightarrow> (Some (Inr ()), c)
      | DevConsumer p w \<Rightarrow>
          (let after = (case try_read_init c of
                 None \<Rightarrow> Some c
               | Some g \<Rightarrow>
                   (case dev_consumer_react_poll wr (cbuf c) g p 0 None of
                      Panic e \<Rightarrow> None
                    | Done (p', r) \<Rightarrow>
                        circ_advance_read rd wr k
                          (of_nat (roff (case r of Inl (_, g') \<Rightarrow> g' | Inr (g', _, s) \<Rightarrow> recl_drop_child g' s)))
                          (c\<lparr>ccons := DevConsumer p' w\<rparr>)))
           in case after of None \<Rightarrow> (None, c) | Some c1 \<Rightarrow> (Some (Inr ()), set_rx_standby c1)))"

section \<open>Building\<close>

text \<open>An active end yields no half; two active ends yield a pipeline.\<close>

datatype ('a, 'i, 'o) build_outcome =
    SpscPair "('a, 'i, 'o) circ"
  | OnlyConsumer "('a, 'i, 'o) circ"
  | OnlyProducer "('a, 'i, 'o) circ"
  | PipelineOf "('a, 'i, 'o) circ"

definition assemble :: "('a, 'i, 'o) circ \<Rightarrow> ('a, 'i, 'o) build_outcome" where
  "assemble c =
     (case (cprod c, ccons c) of
        (BufProducer _ _, BufConsumer _ _) \<Rightarrow> SpscPair c
      | (DevProducer _ _, BufConsumer _ _) \<Rightarrow> OnlyConsumer c
      | (BufProducer _ _, DevConsumer _ _) \<Rightarrow> OnlyProducer c
      | (DevProducer _ _, DevConsumer _ _) \<Rightarrow> PipelineOf c)"

text \<open>
  \<open>essential_build_async_\<close>: it takes the parts out of the builder, so that a second call panics (\<open>None\<close>).
\<close>

definition essential_build ::
    "('a, 'e, 'i) input_dev \<Rightarrow> ('a, 'f, 'o) output_dev \<Rightarrow> nat \<Rightarrow> ('a, 'i, 'o) essential
     \<Rightarrow> ((builder_error, ('a, 'i, 'o) build_outcome) rust_result \<times> ('a, 'i, 'o) essential) option" where
  "essential_build rd wr k es =
     (case (es_producer es, es_consumer es, es_buffer es) of
        (Some p, Some q, Some b) \<Rightarrow>
          (let es' = \<lparr>es_producer = None, es_consumer = None, es_buffer = None\<rparr>;
               (r1, c1) = init_producer rd wr k (core_new p q b)
           in case r1 of
                None \<Rightarrow> None
              | Some (Inl _) \<Rightarrow> Some (Inl ProducerInit, es')
              | Some (Inr _) \<Rightarrow>
                  (let (r2, c2) = init_consumer rd wr k c1
                   in case r2 of
                        None \<Rightarrow> None
                      | Some (Inl _) \<Rightarrow> Some (Inl ConsumerInit, es')
                      | Some (Inr _) \<Rightarrow> Some (Inr (assemble c2), es')))
      | _ \<Rightarrow> None)"

text \<open>\<open>CircularBuffBuilder::build_async\<close> without any choice: both ends passive.\<close>

definition build_default ::
    "('a, 'e, 'i) input_dev \<Rightarrow> ('a, 'f, 'o) output_dev \<Rightarrow> nat \<Rightarrow> 'a buff_builder
     \<Rightarrow> ((builder_error, ('a, 'i, 'o) build_outcome) rust_result \<times> ('a, 'i, 'o) essential) option" where
  "build_default rd wr k b = essential_build rd wr k (essential_new buf_producer buf_consumer (bb_buffer b))"

section \<open>What is built\<close>

text \<open>The two orders of choosing; \<open>None\<close> is a passive end, \<open>Some\<close> a device.\<close>

definition producer_first :: "'i option \<Rightarrow> 'o option \<Rightarrow> 'a buff_builder \<Rightarrow> ('a, 'i, 'o) essential" where
  "producer_first i p b =
     (let s = (case i of None \<Rightarrow> bb_producer_passive b | Some x \<Rightarrow> bb_pipe_from_input x b)
      in case p of None \<Rightarrow> ps_consumer_passive s | Some y \<Rightarrow> ps_pipe_into_output y s)"

definition consumer_first :: "'i option \<Rightarrow> 'o option \<Rightarrow> 'a buff_builder \<Rightarrow> ('a, 'i, 'o) essential" where
  "consumer_first i p b =
     (let s = (case p of None \<Rightarrow> bb_consumer_passive b | Some y \<Rightarrow> bb_pipe_into_output y b)
      in case i of None \<Rightarrow> cs_producer_passive s | Some x \<Rightarrow> cs_pipe_from_input x s)"

text \<open>
  A core as every other part of the development wants it: nothing lost, nobody waiting, nothing closed. The documentation
  has an active end registered in its own wake slot by \<open>init_async\<close>; the code only arms it, so both slots are free
  here.
\<close>

definition core_started ::
    "('i \<Rightarrow> 'a list) \<Rightarrow> ('o \<Rightarrow> 'a option list) \<Rightarrow> nat \<Rightarrow> ('a, 'i, 'o) circ \<Rightarrow> bool" where
  "core_started given taken L c =
     (streams given taken [] [] c \<and> length (cbuf c) = L \<and> \<not> circ_tx_closed c \<and> \<not> circ_rx_closed c
      \<and> (\<forall>w. slots_free w c) \<and> producer_demand (cprod c) = None \<and> consumer_demand (ccons c) = None)"

lemma core_started_same:
  "same_data c c' \<Longrightarrow> core_started given taken L c \<Longrightarrow> cprod c' = cprod c \<Longrightarrow> ccons c' = ccons c \<Longrightarrow>
    core_started given taken L c'"
  using same_data(5,6) [of c c'] by (simp add: core_started_def slots_free_def) (simp add: same_data_def)

lemma standby_same_data: "same_data c (set_tx_standby c)" "same_data c (set_rx_standby c)"
  by (simp_all add: same_data_def)

lemma core_started_filled:
  assumes "core_started given taken L c" "\<And>w. filled given taken w c xs c'" "producer_demand (cprod c') = None"
  shows "core_started given taken L c'"
proof -
  have slots: "slots_free w c'" for w
    using assms(1) assms(2) [of w] by (simp add: core_started_def filled_def)
  show ?thesis
    using assms(1,3) assms(2) [of 0] slots by (simp add: core_started_def filled_def streams_def same_modes_def)
qed

lemma core_started_drained:
  assumes "core_started given taken L c" "\<And>w. drained given taken w c n c'" "consumer_demand (ccons c') = None"
  shows "core_started given taken L c'"
proof -
  have slots: "slots_free w c'" for w
    using assms(1) assms(2) [of w] by (simp add: core_started_def drained_def)
  then show ?thesis
    using assms(1,3) assms(2) [of 0] by (simp add: core_started_def drained_def streams_def same_modes_def)
qed

lemma init_producer_starts:
  assumes "core_started given taken L c" "input_ok rd given" "2 \<le> k"
  shows "\<exists>c'. init_producer rd wr k c = (Some (Inr ()), c') \<and> core_started given taken L c'
    \<and> producer_passive (cprod c') = producer_passive (cprod c) \<and> consumer_passive (ccons c') = consumer_passive (ccons c)"
proof (cases "cprod c")
  case (BufProducer d w)
  then show ?thesis
    using assms(1) by (simp add: init_producer_def)
next
  case (DevProducer i w)
  have ok: "circ_ok c"
    using assms(1) by (simp add: core_started_def streams_def)
  obtain k' where k: "k = Suc (Suc k')"
    using two_sucs [OF assms(3)] by blast
  have armed: "core_started given taken L (set_tx_standby c')" if "core_started given taken L c'" for c'
    by (rule core_started_same [OF standby_same_data(1) that]) simp_all
  show ?thesis
  proof (cases "circ_free c = 0")
    case True
    then show ?thesis
      using armed [OF assms(1)] write_init [OF ok] by (simp add: init_producer_def DevProducer)
  next
    case False
    then have wi: "try_write_init c = Some (write_all c)"
      using write_init [OF ok] by (simp add: write_all_def)
    obtain m' i' r xs where r: "dev_producer_react_poll rd (cbuf c) (write_all c) i 0 None = Done (m', i', r)"
      and ans: "input_answer given (cbuf c) (write_all c) i xs (m', i', r)"
      using dev_producer_react_poll_spec [OF write_all_ok(1) [OF ok] _ assms(2), of None i 0] by fastforce
    let ?g = "case r of Inl (_, g') \<Rightarrow> g' | Inr (g', _, s) \<Rightarrow> recl_drop_child g' s"
    have rx: "input_reacted given (cbuf c) (write_all c) i xs m' ?g i'"
      using ans by (auto split: sum.splits)
    obtain c1 where c1: "circ_advance_write rd wr k (of_nat (roff ?g)) (c\<lparr>cbuf := m', cprod := DevProducer i' w\<rparr>) = Some c1"
      by (rule filled_commit [OF ok DevProducer rx, of rd wr k']) (simp add: k that)
    have fl: "filled given taken v c xs c1" for v
      by (rule filled_commit [OF ok DevProducer rx, of rd wr k' taken v]) (use c1 in \<open>simp add: k\<close>)
    have np: "\<not> producer_passive (cprod c1)"
      using fl [of 0] DevProducer by (simp add: filled_def same_modes_def)
    then have "core_started given taken L c1"
      by (intro core_started_filled [OF assms(1) fl]) (auto simp: not_passive)
    then show ?thesis
      using armed [of c1] wi r c1 fl [of 0] np by (simp add: init_producer_def DevProducer filled_def same_modes_def)
  qed
qed

lemma init_consumer_starts:
  assumes "core_started given taken L c" "output_ok wr taken" "2 \<le> k"
  shows "\<exists>c'. init_consumer rd wr k c = (Some (Inr ()), c') \<and> core_started given taken L c'
    \<and> producer_passive (cprod c') = producer_passive (cprod c) \<and> consumer_passive (ccons c') = consumer_passive (ccons c)"
proof (cases "ccons c")
  case (BufConsumer d w)
  then show ?thesis
    using assms(1) by (simp add: init_consumer_def)
next
  case (DevConsumer p w)
  have ok: "circ_ok c"
    using assms(1) by (simp add: core_started_def streams_def)
  obtain k' where k: "k = Suc (Suc k')"
    using two_sucs [OF assms(3)] by blast
  have armed: "core_started given taken L (set_rx_standby c')" if "core_started given taken L c'" for c'
    by (rule core_started_same [OF standby_same_data(2) that]) simp_all
  show ?thesis
  proof (cases "circ_data c = 0")
    case True
    then show ?thesis
      using armed [OF assms(1)] read_init [OF ok] by (simp add: init_consumer_def DevConsumer)
  next
    case False
    then have ri: "try_read_init c = Some (read_all c)"
      using read_init [OF ok] by (simp add: read_all_def)
    obtain p' r n where r: "dev_consumer_react_poll wr (cbuf c) (read_all c) p 0 None = Done (p', r)"
      and ans: "output_answer taken (cbuf c) (read_all c) p n (p', r)"
      using dev_consumer_react_poll_spec [OF read_all_ok(1) [OF ok] _ assms(2), of None p 0] by fastforce
    let ?g = "case r of Inl (_, g') \<Rightarrow> g' | Inr (g', _, s) \<Rightarrow> recl_drop_child g' s"
    have rx: "output_reacted taken (cbuf c) (read_all c) p n ?g p'"
      using ans by (auto split: sum.splits)
    obtain c1 where c1: "circ_advance_read rd wr k (of_nat (roff ?g)) (c\<lparr>ccons := DevConsumer p' w\<rparr>) = Some c1"
      by (rule drained_commit [OF ok DevConsumer rx, of rd wr k']) (simp add: k that)
    have dr: "drained given taken v c n c1" for v
      by (rule drained_commit [OF ok DevConsumer rx, of rd wr k' given v]) (use c1 in \<open>simp add: k\<close>)
    have np: "\<not> consumer_passive (ccons c1)"
      using dr [of 0] DevConsumer by (simp add: drained_def same_modes_def)
    then have "core_started given taken L c1"
      by (intro core_started_drained [OF assms(1) dr]) (auto simp: not_passive)
    then show ?thesis
      using armed [of c1] ri r c1 dr [of 0] np by (simp add: init_consumer_def DevConsumer drained_def same_modes_def)
  qed
qed

lemma capacity_checked:
  "with_capacity n = Inr b \<longleftrightarrow> MIN_CAPACITY \<le> n \<and> n \<le> CIRC_MAX_CAPACITY \<and> b = \<lparr>bb_buffer = replicate (unat n) None\<rparr>"
  by (auto simp: with_capacity_def try_capacity_def)

lemma built_length:
  assumes "with_capacity n = Inr b"
  shows "length (bb_buffer b) = unat n" "2 \<le> unat n" "unat n < 2 ^ 28"
  using assms unat_circ_max by (auto simp: capacity_checked MIN_CAPACITY_def word_le_nat_alt)

definition end_producer :: "'i option \<Rightarrow> 'i producer" where
  "end_producer i = (case i of None \<Rightarrow> buf_producer | Some x \<Rightarrow> DevProducer x None)"

definition end_consumer :: "'o option \<Rightarrow> 'o consumer" where
  "end_consumer p = (case p of None \<Rightarrow> buf_consumer | Some y \<Rightarrow> DevConsumer y None)"

lemma chains:
  "producer_first i p b = essential_new (end_producer i) (end_consumer p) (bb_buffer b)"
  "consumer_first i p b = essential_new (end_producer i) (end_consumer p) (bb_buffer b)"
  by (auto simp: producer_first_def consumer_first_def end_producer_def end_consumer_def Let_def
      bb_producer_passive_def bb_pipe_from_input_def bb_consumer_passive_def bb_pipe_into_output_def
      ps_consumer_passive_def ps_pipe_into_output_def cs_producer_passive_def cs_pipe_from_input_def
      split: option.splits)

lemma core_new_sel:
  "cprod (core_new p q b) = p" "ccons (core_new p q b) = q" "cbuf (core_new p q b) = b" "cstat (core_new p q b) = 0"
  by (simp_all add: core_new_def)

lemma core_new_started:
  assumes "2 \<le> length b" "length b < 2 ^ 28" "\<And>x. i = Some x \<Longrightarrow> given x = []" "\<And>y. p = Some y \<Longrightarrow> taken y = []"
  shows "core_started given taken (length b) (core_new (end_producer i) (end_consumer p) b)"
proof -
  let ?c = "core_new (end_producer i) (end_consumer p) b"
  have "in_stream given [] ?c = []" "out_stream taken [] ?c = []"
    using assms(3,4) by (auto simp: in_stream_def out_stream_def core_new_sel end_producer_def end_consumer_def split: option.splits)
  from core_new_streams [OF assms(1,2) this] show ?thesis
    by (auto simp: core_started_def core_new_sel slots_free_def circ_tx_closed_def circ_rx_closed_def has_flag_def
        end_producer_def end_consumer_def split: option.splits)
qed

text \<open>
  C36: The builder. With an accepted capacity, and whatever modes are chosen, in whatever order, \<open>build_async\<close>
  succeeds for every pair of fresh devices: the outcome is the one the modes call for (a pair of halves, one half, or a pipeline), and its core is one that all of the development
  starts from: what the input handed out during the start-up is what the output took and the buffer holds,
  no demand is registered, nothing is closed, and both wake slots are free: active ends are not registered in theirs,
  although the documentation of the core says that \<open>init_async\<close> does so. Building a second time panics.
\<close>

theorem build_starts:
  assumes "with_capacity n = Inr b" "\<And>x. i = Some x \<Longrightarrow> given x = []" "\<And>y. p = Some y \<Longrightarrow> taken y = []"
    "input_ok rd given" "output_ok wr taken" "2 \<le> k"
  shows "consumer_first i p b = producer_first i p b
    \<and> (\<exists>c es. essential_build rd wr k (producer_first i p b)
        = Some (Inr (case (i, p) of (None, None) \<Rightarrow> SpscPair c | (Some x, None) \<Rightarrow> OnlyConsumer c
                     | (None, Some y) \<Rightarrow> OnlyProducer c | (Some x, Some y) \<Rightarrow> PipelineOf c), es)
      \<and> core_started given taken (unat n) c \<and> essential_build rd wr k es = None)"
proof -
  note len = built_length [OF assms(1)]
  let ?c0 = "core_new (end_producer i) (end_consumer p) (bb_buffer b)"
  have start: "core_started given taken (unat n) ?c0"
    using core_new_started [of "bb_buffer b" i given p taken] len assms(2,3) by simp
  obtain c1 where c1: "init_producer rd wr k ?c0 = (Some (Inr ()), c1)" "core_started given taken (unat n) c1"
    "producer_passive (cprod c1) = producer_passive (cprod ?c0)" "consumer_passive (ccons c1) = consumer_passive (ccons ?c0)"
    using init_producer_starts [OF start assms(4,6), of wr] by blast
  obtain c2 where c2: "init_consumer rd wr k c1 = (Some (Inr ()), c2)" "core_started given taken (unat n) c2"
    "producer_passive (cprod c2) = producer_passive (cprod c1)" "consumer_passive (ccons c2) = consumer_passive (ccons c1)"
    using init_consumer_starts [OF c1(2) assms(5,6), of rd] by blast
  have "producer_passive (cprod c2) = (i = None)" "consumer_passive (ccons c2) = (p = None)"
    using c1(3,4) c2(3,4) by (auto simp: core_new_def end_producer_def end_consumer_def split: option.splits)
  then have "assemble c2 = (case (i, p) of (None, None) \<Rightarrow> SpscPair c2 | (Some x, None) \<Rightarrow> OnlyConsumer c2
      | (None, Some y) \<Rightarrow> OnlyProducer c2 | (Some x, Some y) \<Rightarrow> PipelineOf c2)"
    by (cases "cprod c2"; cases "ccons c2") (auto simp: assemble_def split: option.splits)
  then have "\<exists>c es. essential_build rd wr k (producer_first i p b)
        = Some (Inr (case (i, p) of (None, None) \<Rightarrow> SpscPair c | (Some x, None) \<Rightarrow> OnlyConsumer c
                     | (None, Some y) \<Rightarrow> OnlyProducer c | (Some x, Some y) \<Rightarrow> PipelineOf c), es)
      \<and> core_started given taken (unat n) c \<and> essential_build rd wr k es = None"
    using c1(1) c2(1,2) by (intro exI [of _ c2]) (simp add: chains essential_build_def essential_new_def)
  then show ?thesis
    by (simp only: chains simp_thms)
qed

theorem build_starts_witness:
  "\<exists>c es. essential_build (list_input [1, 2, 3 :: nat]) list_output 2 (producer_first (Some 0) (None :: nat option list option)
      \<lparr>bb_buffer = [None, None]\<rparr>) = Some (Inr (OnlyConsumer c), es)"
proof -
  have two: "replicate 2 None = [None, None :: nat option]"
    by (simp add: numeral_2_eq_2)
  have "with_capacity 2 = Inr \<lparr>bb_buffer = [None, None :: nat option]\<rparr>"
    using two by (simp add: capacity_checked MIN_CAPACITY_def CIRC_MAX_CAPACITY_def CIRC_POS_MASK_def)
  from build_starts [OF this, of "Some 0" "\<lambda>i. take i [1, 2, 3]" None "\<lambda>p. p" "list_input [1, 2, 3]" list_output 2]
  show ?thesis
    by (auto simp: list_devices_ok)
qed

end
