(* ===== verification/Slice_Buff.thy ===== *)
theory Slice_Buff
  imports Pipe_Join
begin

text \<open>
  Plain byte slices as buffers (\<open>crates/abs_buff/src/slice_impl_.rs\<close>): whatever borrows as a byte
  slice is a reading half, whatever borrows mutably a writing half. A slice reference advances past what
  was consumed when the lent segment drops; for every other owner the default does nothing.
\<close>

section \<open>Borrowed bytes\<close>

text \<open>
  The implementing type decides whether the value advances (the specialisations of \<open>TrReadAdvance\<close> and
  \<open>TrWriteAdvance\<close>): \<open>&[u8]\<close>, \<open>&mut [u8]\<close>, or anything else. The slice is what is behind the start.
\<close>

datatype borrow_kind = SharedSlice | MutSlice | Owner

record borrow =
  bw_mem :: "u8 list"
  bw_start :: nat

definition borrowed :: "borrow \<Rightarrow> u8 list" where
  "borrowed b = drop (bw_start b) (bw_mem b)"

definition read_advance :: "borrow_kind \<Rightarrow> nat \<Rightarrow> borrow \<Rightarrow> borrow run" where
  "read_advance kind amount b =
     (if kind = Owner then Done b
      else if amount \<le> length (borrowed b) then Done (b\<lparr>bw_start := bw_start b + amount\<rparr>)
      else Panic ''slice index'')"

definition write_advance :: "borrow_kind \<Rightarrow> nat \<Rightarrow> borrow \<Rightarrow> borrow run" where
  "write_advance kind amount b =
     (if kind \<noteq> MutSlice then Done b
      else if amount \<le> length (borrowed b) then Done (b\<lparr>bw_start := bw_start b + amount\<rparr>)
      else Panic ''slice index'')"

section \<open>Segments\<close>

text \<open>\<open>BorrowedReadSegm\<close> and \<open>BorrowedWriteSegm\<close>, beside the value they borrow.\<close>

record borrow_segm =
  bs_offset :: nat
  bs_end :: nat

definition bs_with_limit :: "borrow \<Rightarrow> usize option \<Rightarrow> borrow_segm" where
  "bs_with_limit b mx =
     (let len = length (borrowed b)
      in \<lparr>bs_offset = 0, bs_end = (case mx of Some m \<Rightarrow> if unat m < len then unat m else len | None \<Rightarrow> len)\<rparr>)"

definition bs_remaining :: "borrow \<Rightarrow> borrow_segm \<Rightarrow> u8 list" where
  "bs_remaining b s = mem_read (borrowed b) (bs_offset s) (bs_end s - bs_offset s)"

definition bs_is_empty :: "borrow \<Rightarrow> borrow_segm \<Rightarrow> bool" where
  "bs_is_empty b s = (bs_remaining b s = [])"

definition bs_least_count :: "borrow \<Rightarrow> borrow_segm \<Rightarrow> nat" where
  "bs_least_count b s = length (bs_remaining b s)"

definition bs_iter_slices :: "borrow \<Rightarrow> borrow_segm \<Rightarrow> u8 list option" where
  "bs_iter_slices b s = (if bs_remaining b s = [] then None else Some (bs_remaining b s))"

definition bs_as_segm :: "borrow \<Rightarrow> borrow_segm \<Rightarrow> segm" where
  "bs_as_segm b s = segm_new (bw_start b + bs_offset s) (bs_end s - bs_offset s)"

definition bs_take_segm :: "borrow \<Rightarrow> borrow_segm \<Rightarrow> usize demand \<Rightarrow> segm option run" where
  "bs_take_segm b s d =
     run_map (map_option (\<lambda>m. segm_new (bw_start b + bs_offset s) (unat m)))
       (take_child_len d (of_nat (bs_end s - bs_offset s)))"

text \<open>A child reports what it consumed to the offset; the segment's own drop advances the value.\<close>

definition bs_drop_child :: "borrow_segm \<Rightarrow> segm \<Rightarrow> borrow_segm" where
  "bs_drop_child s child = s\<lparr>bs_offset := bs_offset s + soff child\<rparr>"

definition read_segm_drop :: "borrow_kind \<Rightarrow> borrow \<Rightarrow> borrow_segm \<Rightarrow> borrow run" where
  "read_segm_drop kind b s = read_advance kind (bs_offset s) b"

definition write_segm_drop :: "borrow_kind \<Rightarrow> borrow \<Rightarrow> borrow_segm \<Rightarrow> borrow run" where
  "write_segm_drop kind b s = write_advance kind (bs_offset s) b"

section \<open>The halves\<close>

datatype 'tag slice_error = EmptySlice 'tag

fun slice_err_tag :: "'tag slice_error \<Rightarrow> 'tag" where
  "slice_err_tag (EmptySlice t) = t"

definition slice_is_drained :: "borrow \<Rightarrow> bool" where
  "slice_is_drained b = (borrowed b = [])"

definition slice_is_stuffed :: "borrow \<Rightarrow> bool" where
  "slice_is_stuffed b = (borrowed b = [])"

text \<open>\<open>read_async\<close> is always ready and answers as \<open>try_read\<close>; so do the writing ones.\<close>

definition slice_try_read :: "borrow \<Rightarrow> usize demand \<Rightarrow> (read_err_tag slice_error, borrow_segm) rust_result" where
  "slice_try_read b d =
     (let len = length (borrowed b); min_len = (case demand_min d of None \<Rightarrow> 0 | Some l \<Rightarrow> unat l)
      in if len = 0 \<or> len < min_len then Inl (EmptySlice RClosing)
         else Inr (bs_with_limit b (demand_max d)))"

definition slice_try_write :: "borrow \<Rightarrow> usize demand \<Rightarrow> (write_err_tag slice_error, borrow_segm) rust_result" where
  "slice_try_write b d =
     (let len = length (borrowed b); min_len = (case demand_min d of None \<Rightarrow> 0 | Some l \<Rightarrow> unat l)
      in if len = 0 \<or> len < min_len then Inl (EmptySlice WClosing)
         else Inr (bs_with_limit b (demand_max d)))"

text \<open>
  The halves as generic code sees them, with the segment lent last. Slices have no \<open>TrBufferState\<close>; the
  size is there for the contract only.
\<close>

type_synonym slice_half = "borrow \<times> borrow_segm option"

definition slice_src :: "borrow_kind \<Rightarrow> (read_err_tag slice_error, u8, slice_half) src_half" where
  "slice_src kind =
     \<lparr>sh_tag = slice_err_tag,
      sh_size = (\<lambda>(b, _). of_nat (length (borrowed b))),
      sh_drained = (\<lambda>(b, _). slice_is_drained b),
      sh_read = (\<lambda>d (b, _). case slice_try_read b d of
           Inl e \<Rightarrow> (OfRight e, b, None)
         | Inr s \<Rightarrow> (OfLeft (case bs_iter_slices b s of None \<Rightarrow> [] | Some xs \<Rightarrow> [xs]), b, Some s)),
      sh_take = (\<lambda>n (b, lent). case lent of
           None \<Rightarrow> (b, None)
         | Some s \<Rightarrow> (case read_segm_drop kind b (s\<lparr>bs_offset := bs_offset s + n\<rparr>) of
              Panic m \<Rightarrow> (b, None) | Done b' \<Rightarrow> (b', None)))\<rparr>"

definition slice_tgt :: "borrow_kind \<Rightarrow> (write_err_tag slice_error, u8, slice_half) tgt_half" where
  "slice_tgt kind =
     \<lparr>th_tag = slice_err_tag,
      th_stuffed = (\<lambda>(b, _). slice_is_stuffed b),
      th_space = (\<lambda>d (b, _). case slice_try_write b d of
           Inl e \<Rightarrow> (OfRight e, b, None)
         | Inr s \<Rightarrow> (OfLeft (case bs_iter_slices b s of None \<Rightarrow> [] | Some xs \<Rightarrow> [length xs]), b, Some s)),
      th_put = (\<lambda>xs (b, lent). case lent of
           None \<Rightarrow> (b, None)
         | Some s \<Rightarrow>
             (let b1 = b\<lparr>bw_mem := mem_write (bw_mem b) (bw_start b + bs_offset s) xs\<rparr>
              in case write_segm_drop kind b1 (s\<lparr>bs_offset := bs_offset s + length xs\<rparr>) of
                   Panic m \<Rightarrow> (b, None) | Done b' \<Rightarrow> (b', None)))\<rparr>"

section \<open>Children\<close>

text \<open>Moving items through a child and dropping it is what the halves say of a move.\<close>

definition bs_ok :: "borrow \<Rightarrow> borrow_segm \<Rightarrow> bool" where
  "bs_ok b s = (bs_offset s \<le> bs_end s \<and> bs_end s \<le> length (borrowed b) \<and> bw_start b \<le> length (bw_mem b))"

lemma bs_child_ok: "bs_ok b s \<Longrightarrow> segm_ok (bw_mem b) (bs_as_segm b s)"
  by (auto simp: bs_ok_def segm_ok_def bs_as_segm_def segm_new_def borrowed_def)

lemma bs_child_least: "bs_ok b s \<Longrightarrow> least_count (bs_as_segm b s) = bs_least_count b s"
  by (simp add: bs_ok_def least_count_def bs_as_segm_def segm_new_def bs_least_count_def bs_remaining_def)

lemma bs_remaining_mem:
  "n \<le> bs_least_count b s \<Longrightarrow> bs_ok b s \<Longrightarrow> mem_read (bw_mem b) (bw_start b + bs_offset s) n = take n (bs_remaining b s)"
  by (simp add: bs_remaining_def mem_read_def borrowed_def bs_least_count_def add.commute min_absorb1)

lemma bs_child_to_buff:
  assumes "bs_ok b s" "move_items_to_buff (bw_mem b) (bs_as_segm b s) dst = (dst', child, n)"
  shows "n = min (length dst) (bs_least_count b s)" "dst' = take n (bs_remaining b s) @ drop n dst"
    "bs_drop_child s child = s\<lparr>bs_offset := bs_offset s + n\<rparr>"
  using move_items_to_buff_spec(1-3) [OF bs_child_ok [OF assms(1)] assms(2)] bs_child_least [OF assms(1)]
    bs_remaining_mem [of n b s] assms(1)
  by (simp_all add: bs_drop_child_def bs_as_segm_def segm_new_def)

lemma bs_child_from_buff:
  assumes "bs_ok b s" "move_items_from_buff (bw_mem b) (bs_as_segm b s) xs = (m, child, n)"
  shows "n = min (bs_least_count b s) (length xs)"
    "m = mem_write (bw_mem b) (bw_start b + bs_offset s) (take n xs)"
    "bs_drop_child s child = s\<lparr>bs_offset := bs_offset s + n\<rparr>"
  using move_items_from_buff_spec(1-3) [OF bs_child_ok [OF assms(1)] assms(2)] bs_child_least [OF assms(1)]
  by (simp_all add: bs_drop_child_def bs_as_segm_def segm_new_def)

lemma bs_take_never_beyond:
  assumes "bs_ok b s" "bs_end s < 2 ^ 64" "bs_take_segm b s d = Done (Some t)"
  shows "segm_ok (bw_mem b) t" "least_count t \<le> bs_least_count b s"
proof -
  have "take_segm (bs_as_segm b s) d = Done (Some t)"
    using assms(3) by (simp add: take_segm_def bs_take_segm_def bs_as_segm_def segm_new_def least_count_def)
  moreover have "slen (bs_as_segm b s) < 2 ^ 64"
    using assms(2) by (simp add: bs_as_segm_def segm_new_def)
  ultimately show "segm_ok (bw_mem b) t" "least_count t \<le> bs_least_count b s"
    using take_segm_ok [OF bs_child_ok [OF assms(1)]] bs_child_least [OF assms(1)] by auto
qed

section \<open>Slices keep the contract\<close>

definition slice_ok :: "slice_half \<Rightarrow> bool" where
  "slice_ok h = (bw_start (fst h) \<le> length (bw_mem (fst h)) \<and> length (bw_mem (fst h)) < 2 ^ 63)"

lemma slice_small: "slice_ok (b, l) \<Longrightarrow> length (borrowed b) < 2 ^ 63"
  by (auto simp: slice_ok_def borrowed_def)

lemma limit_size:
  assumes "slice_ok (b, l)"
  shows "bs_with_limit b (demand_max d) = \<lparr>bs_offset = 0, bs_end = min (upper d) (length (borrowed b))\<rparr>"
  using slice_small [OF assms]
  by (auto simp: bs_with_limit_def Let_def upper_def max_usize min_def split: option.splits)

lemma limit_remaining:
  assumes "slice_ok (b, l)"
  shows "bs_remaining b (bs_with_limit b (demand_max d)) = take (upper d) (borrowed b)"
  by (simp add: limit_size [OF assms] bs_remaining_def mem_read_def min_def)

text \<open>What an attempt lends.\<close>

lemma slice_read:
  assumes "slice_ok (b, l)"
  shows "sh_read (slice_src kind) d (b, l) =
    (if borrowed b = [] \<or> length (borrowed b) < lower d then (OfRight (EmptySlice RClosing), b, None)
     else (OfLeft (if upper d = 0 then [] else [take (upper d) (borrowed b)]), b,
       Some \<lparr>bs_offset = 0, bs_end = min (upper d) (length (borrowed b))\<rparr>))"
  using limit_remaining [OF assms, of d]
  by (auto simp: slice_src_def slice_try_read_def Let_def lower_def bs_iter_slices_def
      limit_size [OF assms] split: option.splits)

lemma slice_space:
  assumes "slice_ok (b, l)"
  shows "th_space (slice_tgt kind) d (b, l) =
    (if borrowed b = [] \<or> length (borrowed b) < lower d then (OfRight (EmptySlice WClosing), b, None)
     else (OfLeft (if upper d = 0 then [] else [min (upper d) (length (borrowed b))]), b,
       Some \<lparr>bs_offset = 0, bs_end = min (upper d) (length (borrowed b))\<rparr>))"
  using limit_remaining [OF assms, of d]
  by (auto simp: slice_tgt_def slice_try_write_def Let_def lower_def bs_iter_slices_def
      limit_size [OF assms] min.commute split: option.splits)

lemma slice_take:
  "kind \<noteq> Owner \<Longrightarrow> n \<le> length (borrowed b) \<Longrightarrow>
     sh_take (slice_src kind) n (b, Some \<lparr>bs_offset = 0, bs_end = e\<rparr>) = (b\<lparr>bw_start := bw_start b + n\<rparr>, None)"
  by (simp add: slice_src_def read_segm_drop_def read_advance_def)

lemma slice_put:
  assumes "length xs \<le> length (borrowed b)" "bw_start b \<le> length (bw_mem b)"
  shows "th_put (slice_tgt MutSlice) xs (b, Some \<lparr>bs_offset = 0, bs_end = e\<rparr>) =
     (\<lparr>bw_mem = mem_write (bw_mem b) (bw_start b) xs, bw_start = bw_start b + length xs\<rparr>, None)"
  using assms by (simp add: slice_tgt_def write_segm_drop_def write_advance_def borrowed_def mem_write_def Let_def)

lemma slice_source_half:
  assumes "kind \<noteq> Owner"
  shows "source_half (slice_src kind) slice_ok (\<lambda>h. borrowed (fst h))"
proof (unfold_locales, goal_cases)
  case (1 r d x r')
  then show ?case
    by (cases r) (auto simp: slice_read slice_ok_def split: if_splits)
next
  case (2 r d x r' ps)
  then show ?case
    by (cases r) (auto simp: slice_read split: if_splits intro!: exI [of _ "drop (upper d) (borrowed (fst r))"])
next
  case (3 r d x r' e)
  then show ?case
    by (cases r) (auto simp: slice_read split: if_splits)
next
  case (4 r x r' ps)
  obtain b l where r: "r = (b, l)" by (cases r)
  have "unat (of_nat (length (borrowed b)) :: usize) = length (borrowed b)"
    using slice_small [of b l] 4(1) r by (simp add: unat_of_nat)
  then have "borrowed b \<noteq> [] \<Longrightarrow> (of_nat (length (borrowed b)) :: usize) \<noteq> 0"
    by (metis length_0_conv unat_0)
  moreover have "sh_size (slice_src kind) (b, None) = of_nat (length (borrowed b))"
    by (simp add: slice_src_def)
  ultimately show ?case
    using 4 r assms by (auto simp: slice_read slice_take split: if_splits)
next
  case (5 r d x r' ps n)
  obtain b l where r: "r = (b, l)" by (cases r)
  have "n \<le> length (borrowed b)"
    using 5 r by (auto simp: slice_read split: if_splits)
  then show ?case
    using 5 r assms
    by (auto simp: slice_read slice_take slice_ok_def borrowed_def add.commute split: if_splits)
next
  case (6 r)
  then show ?case
    by (auto simp: slice_src_def unat_of_nat split: prod.splits)
next
  case (7 r)
  then show ?case
    by (auto simp: slice_src_def slice_is_drained_def split: prod.splits)
qed

interpretation slice_source: source_half "slice_src SharedSlice" slice_ok "\<lambda>h. borrowed (fst h)"
  by (rule slice_source_half) simp

interpretation mut_slice_source: source_half "slice_src MutSlice" slice_ok "\<lambda>h. borrowed (fst h)"
  by (rule slice_source_half) simp

interpretation slice_target: target_half "slice_tgt MutSlice" slice_ok "\<lambda>h. take (bw_start (fst h)) (bw_mem (fst h))"
proof (unfold_locales, goal_cases)
  case (1 w d x w')
  then show ?case
    by (cases w) (auto simp: slice_space slice_ok_def split: if_splits)
next
  case (2 w d x w' ns)
  then show ?case
    by (cases w) (auto simp: slice_space piece_ok_def min_def split: if_splits)
next
  case (3 w d x w' ns xs)
  obtain b l where w: "w = (b, l)" by (cases w)
  have le: "length xs \<le> length (borrowed b)" "bw_start b \<le> length (bw_mem b)"
    and w': "w' = (b, Some \<lparr>bs_offset = 0, bs_end = min (upper d) (length (borrowed b))\<rparr>)"
    using 3 w by (auto simp: slice_space slice_ok_def split: if_splits)
  have "bw_start b + length xs \<le> length (bw_mem b)"
    using le by (simp add: borrowed_def)
  then show ?case
    using 3(1) w le by (simp add: w' slice_put slice_ok_def mem_write_def)
qed

section \<open>Pipes between slices\<close>

interpretation pj_slice: half_pair
  "slice_src SharedSlice" slice_ok "\<lambda>h. borrowed (fst h)"
  "slice_tgt MutSlice" slice_ok "\<lambda>h. take (bw_start (fst h)) (bw_mem (fst h))"
  by (intro half_pair.intro slice_source.source_half_axioms slice_target.target_half_axioms)

text \<open>
  A slice answers finally: a refusal says \<open>Closing\<close>. So a pipe into a slice returns whenever its source
  answers finally, and what it moved is what the contract of the pipe says; for example the pipe that
  takes the rest out of a circular buffer whose writer has closed.
\<close>

lemma slice_answers:
  "src_answers (slice_src kind) slice_ok (\<lambda>_. 0)" "tgt_answers (slice_tgt MutSlice) slice_ok (\<lambda>_. 0)"
proof -
  have tags: "sh_tag (slice_src kind) = slice_err_tag" "th_tag (slice_tgt MutSlice) = slice_err_tag"
    by (simp_all add: slice_src_def slice_tgt_def)
  show "src_answers (slice_src kind) slice_ok (\<lambda>_. 0)" "tgt_answers (slice_tgt MutSlice) slice_ok (\<lambda>_. 0)"
    by (auto simp: src_answers_def tgt_answers_def slice_read slice_space tags
        read_should_terminate.simps write_should_terminate.simps split: if_splits)
qed

lemma pipe_closed_circ_into_slice:
  fixes r :: "(u8, 'i, 'o) circ_half"
  assumes "half_ok r" "circ_tx_closed (fst r)" "slice_ok w"
  shows "\<exists>K. \<forall>n\<ge>K. pipe_loop (circ_src rd wr (Suc (Suc k))) (slice_tgt MutSlice) n 0 r w \<noteq> None"
  using assms
  by (intro half_pair.pipe_loop_ends [OF half_pair.intro [OF circ_closed_source slice_target.target_half_axioms]
        slice_answers(2) closed_circ_answers]) simp_all

text \<open>One lent segment into a slice that has room for all of it, and into one that has not.\<close>

lemma join_segm_slice:
  assumes "src \<noteq> []" "length dst < 2 ^ 63" "length src < 2 ^ 63" "i < length dst"
    "n = min (length src) (length dst - i)"
  shows "join_segm (slice_tgt MutSlice) (Suc (Suc k)) [src] 0 c (\<lparr>bw_mem = dst, bw_start = i\<rparr>, l) =
    Some (Done (if length src \<le> length dst - i then None else Some (EmptySlice WClosing), n, c + n,
      \<lparr>bw_mem = mem_write dst i (take n src), bw_start = i + n\<rparr>, None))"
proof -
  let ?w = "\<lparr>bw_mem = dst, bw_start = i\<rparr>"
  let ?w1 = "\<lparr>bw_mem = mem_write dst i (take n src), bw_start = i + n\<rparr>"
  have u: "upper (LessThan (of_nat (length src))) = length src"
    using assms(3) by (simp add: unat_of_nat)
  have b: "borrowed ?w \<noteq> []" "length (borrowed ?w) = length dst - i"
    using assms(4) by (simp_all add: borrowed_def)
  have n: "0 < n" "n \<le> length src"
    using assms(1,4,5) by auto
  have ok: "slice_ok (?w, l)" "slice_ok (?w1, None)"
    using assms(2,4,5) by (auto simp: slice_ok_def mem_write_def)
  have sp: "th_space (slice_tgt MutSlice) (LessThan (of_nat (length src))) (?w, l)
      = (OfLeft [n], ?w, Some \<lparr>bs_offset = 0, bs_end = n\<rparr>)"
    using slice_space [OF ok(1), of MutSlice "LessThan (of_nat (length src))"] b u assms(1,5) by simp
  have pt: "th_put (slice_tgt MutSlice) (take n src) (?w, Some \<lparr>bs_offset = 0, bs_end = n\<rparr>) = (?w1, None)"
    using slice_put [of "take n src" ?w n] assms(4,5) n b by simp
  have first: "join_segm (slice_tgt MutSlice) (Suc (Suc k)) [src] 0 c (?w, l)
      = join_segm (slice_tgt MutSlice) (Suc k) (drop_src n [src]) n (c + n) (?w1, None)"
    using assms(1) n
    by (subst join_segm.simps(2)) (simp add: sp pt min_absorb2 Let_def del: join_segm.simps)
  have dr: "drop_src n [src] = (if n < length src then [drop n src] else [])"
    using n by (simp add: drop_src.simps)
  show ?thesis
  proof (cases "length src \<le> length dst - i")
    case True
    then show ?thesis
      using first dr assms(1,5) n by (simp add: Let_def)
  next
    case False
    then have "borrowed ?w1 = []" "n < length src"
      using assms(4,5) by (auto simp: borrowed_def mem_write_def)
    then have "th_space (slice_tgt MutSlice) d (?w1, None) = (OfRight (EmptySlice WClosing), ?w1, None)" for d
      using slice_space [OF ok(2)] by simp
    moreover have "write_should_terminate (th_tag (slice_tgt MutSlice) (EmptySlice WClosing))"
      by (simp add: slice_tgt_def write_should_terminate.simps)
    ultimately show ?thesis
      using first False n dr \<open>n < length src\<close> by (simp add: Let_def)
  qed
qed

text \<open>
  C32: A pipe from one slice into another returns after at most two rounds and copies exactly the bytes
  that fit: the front of the target is overwritten with the front of the source, the rest of the target
  is untouched and both slices stand behind what was copied. A source that is shorter ends as drained, one
  of the same length leaves the target blocked, a longer one ends with the target's \<open>Closing\<close>.
\<close>

theorem pipe_slices:
  assumes "length src < 2 ^ 63" "length dst < 2 ^ 63" "5 \<le> k" "n = min (length src) (length dst)"
  shows "pipe_join (slice_src SharedSlice) (slice_tgt MutSlice) 1 k
      (\<lparr>bw_mem = src, bw_start = 0\<rparr>, None) (\<lparr>bw_mem = dst, bw_start = 0\<rparr>, None) =
    Some (Done (if length src < length dst then RxDrained n
        else if length src = length dst \<or> dst = [] then TxBlocked n
        else JoinTxErr n (EmptySlice WClosing),
      (\<lparr>bw_mem = src, bw_start = n\<rparr>, None),
      \<lparr>bw_mem = take n src @ drop n dst, bw_start = n\<rparr>, None))"
proof -
  let ?S = "slice_src SharedSlice" and ?T = "slice_tgt MutSlice"
  let ?r = "(\<lparr>bw_mem = src, bw_start = 0\<rparr>, None) :: slice_half"
  let ?w = "(\<lparr>bw_mem = dst, bw_start = 0\<rparr>, None) :: slice_half"
  obtain k' where k: "k = Suc (Suc (Suc k'))"
    by (rule that [of "k - 3"]) (use assms(3) in simp)
  have st: "th_stuffed ?T (\<lparr>bw_mem = m, bw_start = i\<rparr>, l) = (length m \<le> i)"
    "sh_drained ?S (\<lparr>bw_mem = m, bw_start = i\<rparr>, l) = (length m \<le> i)" for m i l
    by (simp_all add: slice_tgt_def slice_src_def slice_is_stuffed_def slice_is_drained_def borrowed_def)
  consider "dst = []" | "dst \<noteq> []" "src = []" | "dst \<noteq> []" "src \<noteq> []"
    by blast
  then show ?thesis
  proof cases
    case 3
    let ?w1 = "(\<lparr>bw_mem = mem_write dst 0 (take n src), bw_start = n\<rparr>, None) :: slice_half"
    let ?r1 = "(\<lparr>bw_mem = src, bw_start = n\<rparr>, None) :: slice_half"
    have n: "0 < n" "n \<le> length src" "n < usize_max"
      using 3 assms(1,4) by (auto simp: usize_max_def)
    have u: "upper (LessThan (of_nat usize_max)) = usize_max"
      by (simp add: usize_max_def unat_of_nat)
    have "slice_ok ?r"
      using assms(1) by (simp add: slice_ok_def)
    from slice_read [OF this, of SharedSlice "LessThan (of_nat usize_max)"] 3(2) assms(1)
    have rd: "sh_read ?S (LessThan (of_nat usize_max)) ?r
        = (OfLeft [src], \<lparr>bw_mem = src, bw_start = 0\<rparr>, Some \<lparr>bs_offset = 0, bs_end = length src\<rparr>)"
      by (simp only: u) (simp add: borrowed_def usize_max_def)
    have jn: "join_segm ?T (Suc (Suc k')) [src] 0 0 ?w = Some (Done
        (if length src \<le> length dst then None else Some (EmptySlice WClosing), n, n, ?w1))"
      using join_segm_slice [of src dst 0 n k' 0 None] 3 assms by (simp del: join_segm.simps)
    have tk: "sh_take ?S n (\<lparr>bw_mem = src, bw_start = 0\<rparr>, Some \<lparr>bs_offset = 0, bs_end = length src\<rparr>) = ?r1"
      using slice_take [of SharedSlice n "\<lparr>bw_mem = src, bw_start = 0\<rparr>"] n by (simp add: borrowed_def)
    have m: "mem_write dst 0 (take n src) = take n src @ drop n dst"
      using n by (simp add: mem_write_def min_absorb2)
    have "pipe_loop ?S ?T k 0 ?r ?w =
        (if length src \<le> length dst then pipe_loop ?S ?T (Suc (Suc k')) n ?r1 ?w1
         else Some (Done (JoinTxErr n (EmptySlice WClosing), ?r1, ?w1)))"
      using 3 rd jn tk by (simp add: k st usize_max_def del: join_segm.simps)
    moreover have "pipe_loop ?S ?T (Suc (Suc k')) n ?r1 ?w1
        = Some (Done (if length src = length dst then TxBlocked n else RxDrained n, ?r1, ?w1))"
      if "length src \<le> length dst"
      using that n assms(4) by (simp add: st m)
    ultimately show ?thesis
      using 3 by (cases "length src" "length dst" rule: linorder_cases)
        (simp_all add: pipe_join_def m del: pipe_loop.simps)
  qed (use assms in \<open>simp_all add: pipe_join_def k st usize_max_def\<close>)
qed

theorem pipe_slices_witness:
  "pipe_join (slice_src SharedSlice) (slice_tgt MutSlice) 1 5
      (\<lparr>bw_mem = [1, 2, 3], bw_start = 0\<rparr>, None) (\<lparr>bw_mem = [0, 0], bw_start = 0\<rparr>, None) =
    Some (Done (JoinTxErr 2 (EmptySlice WClosing),
      (\<lparr>bw_mem = [1, 2, 3], bw_start = 2\<rparr>, None), \<lparr>bw_mem = [1, 2], bw_start = 2\<rparr>, None))"
proof -
  have "length [1::u8, 2, 3] < 2 ^ 63" "length [0::u8, 0] < 2 ^ 63"
    by (simp_all only: list.size) simp_all
  from pipe_slices [OF this order.refl refl] show ?thesis
    by simp
qed

section \<open>Owners as sources\<close>

text \<open>
  A value that only borrows as a slice (a vector, an array) does not advance: a pipe out of it goes on
  delivering its bytes from the start again, never ends as drained, and stops only when the target
  does or the counter is full.
\<close>

lemma owner_take: "sh_take (slice_src Owner) n (b, l) = (b, None)"
  by (simp add: slice_src_def read_segm_drop_def read_advance_def split: option.splits)

lemma owner_read:
  "\<exists>x l'. sh_read (slice_src Owner) d (b, l) = (x, b, l')"
  "sh_drained (slice_src Owner) (b, l) = (borrowed b = [])"
  by (simp_all add: slice_src_def slice_is_drained_def split: sum.splits)

lemma owner_repeats:
  "pipe_loop (slice_src Owner) T k c (b, l) w = Some (Done (res, r', w')) \<Longrightarrow> borrowed b \<noteq> [] \<Longrightarrow>
    fst r' = b \<and> (\<forall>m. res \<noteq> RxDrained m)"
proof (induction k arbitrary: c l w)
  case (Suc k)
  obtain x l' where "sh_read (slice_src Owner) (LessThan (of_nat (usize_max - c))) (b, l) = (x, b, l')"
    using owner_read(1) by blast
  then show ?case
    using Suc.prems Suc.IH
    by (auto simp: owner_take owner_read(2) split: if_splits option.splits run.splits)
qed simp

end
