(* ===== verification/Std_Adapt.thy ===== *)
theory Std_Adapt
  imports Circ_Half
begin

text \<open>
  The adapters that show a buffer's half as \<open>std::io::Read\<close> or \<open>std::io::Write\<close>
  (\<open>crates/abs_buff_stdio_adapt/src/as_std_read.rs\<close>, \<open>as_std_write.rs\<close>): clients of the contract of the
  halves. What the cancellation token answers in each round is an argument.
\<close>

section \<open>The loops\<close>

text \<open>\<open>c\<close> bytes of the caller's buffer are filled already; the round left is the fuel.\<close>

fun std_read_loop ::
    "('e, 'a, 'r) src_half \<Rightarrow> (nat \<Rightarrow> bool) \<Rightarrow> nat \<Rightarrow> 'a list \<Rightarrow> nat \<Rightarrow> 'r
     \<Rightarrow> (('e, nat) rust_result \<times> 'a list \<times> 'r) option" where
  "std_read_loop S cancelled 0 bs c r = None"
| "std_read_loop S cancelled (Suc k) bs c r =
     (if length bs \<le> c \<or> sh_drained S r \<or> cancelled k then Some (Inr c, bs, r)
      else
        (case sh_read S (LessThan (of_nat (length bs - c))) r of
           (x, r1) \<Rightarrow>
             (case pick_left x of
                Some ps \<Rightarrow>
                  (let moved = min (length (first_src ps)) (length bs - c);
                       bs' = mem_write bs c (take moved (first_src ps));
                       r2 = sh_take S moved r1; c' = c + moved
                   in if moved = 0 then Some (Inr c', bs', r2)
                      else (case pick_right x of
                              Some e \<Rightarrow> Some (if 0 < c' then Inr c' else Inl e, bs', r2)
                            | None \<Rightarrow> std_read_loop S cancelled k bs' c' r2))
              | None \<Rightarrow>
                  (case pick_right x of
                     Some e \<Rightarrow> Some (if 0 < c then Inr c else Inl e, bs, r1)
                   | None \<Rightarrow> std_read_loop S cancelled k bs c r1))))"

definition as_std_read ::
    "('e, 'a, 'r) src_half \<Rightarrow> (nat \<Rightarrow> bool) \<Rightarrow> nat \<Rightarrow> 'a list \<Rightarrow> 'r
     \<Rightarrow> (('e, nat) rust_result \<times> 'a list \<times> 'r) option" where
  "as_std_read S cancelled k bs r = std_read_loop S cancelled k bs 0 r"

fun std_write_loop ::
    "('e, 'a, 'w) tgt_half \<Rightarrow> (nat \<Rightarrow> bool) \<Rightarrow> nat \<Rightarrow> 'a list \<Rightarrow> nat \<Rightarrow> 'w
     \<Rightarrow> (('e, nat) rust_result \<times> 'w) option" where
  "std_write_loop T cancelled 0 bs c w = None"
| "std_write_loop T cancelled (Suc k) bs c w =
     (if length bs \<le> c \<or> th_stuffed T w \<or> cancelled k then Some (Inr c, w)
      else
        (case th_space T (LessThan (of_nat (length bs - c))) w of
           (x, w1) \<Rightarrow>
             (case pick_left x of
                Some ns \<Rightarrow>
                  (let moved = min (first_tgt ns) (length bs - c);
                       w2 = th_put T (take moved (drop c bs)) w1; c' = c + moved
                   in if moved = 0 then Some (Inr c', w2)
                      else (case pick_right x of
                              Some e \<Rightarrow> Some (if 0 < c' then Inr c' else Inl e, w2)
                            | None \<Rightarrow> std_write_loop T cancelled k bs c' w2))
              | None \<Rightarrow>
                  (case pick_right x of
                     Some e \<Rightarrow> Some (if 0 < c then Inr c else Inl e, w1)
                   | None \<Rightarrow> std_write_loop T cancelled k bs c w1))))"

definition as_std_write ::
    "('e, 'a, 'w) tgt_half \<Rightarrow> (nat \<Rightarrow> bool) \<Rightarrow> nat \<Rightarrow> 'a list \<Rightarrow> 'w \<Rightarrow> (('e, nat) rust_result \<times> 'w) option" where
  "as_std_write T cancelled k bs w = std_write_loop T cancelled k bs 0 w"

text \<open>\<open>io::Write::flush\<close>: the adapter buffers nothing.\<close>

definition std_flush :: "'w \<Rightarrow> ('e, unit) rust_result \<times> 'w" where
  "std_flush w = (Inr (), w)"

section \<open>What they move\<close>

text \<open>
  A source that still holds the rest of \<open>xs\<close> behind at most \<open>n\<close> items reported an error, and a target
  that holds \<open>ys\<close> and at most \<open>n\<close> items of \<open>xs\<close> behind them.
\<close>

definition source_erred ::
    "('e, 'a, 'r) src_half \<Rightarrow> ('r \<Rightarrow> bool) \<Rightarrow> ('r \<Rightarrow> 'a list) \<Rightarrow> 'a list \<Rightarrow> nat \<Rightarrow> bool" where
  "source_erred S rok outs xs n =
     (\<exists>r d x r1 e. rok r \<and> (\<exists>m \<le> n. outs r = drop m xs) \<and> 0 < upper d \<and> lower d = 0
        \<and> sh_read S d r = (x, r1) \<and> pick_right x = Some e)"

definition target_erred ::
    "('e, 'a, 'w) tgt_half \<Rightarrow> ('w \<Rightarrow> bool) \<Rightarrow> ('w \<Rightarrow> 'a list) \<Rightarrow> 'a list \<Rightarrow> 'a list \<Rightarrow> nat \<Rightarrow> bool" where
  "target_erred T wok ins ys xs n =
     (\<exists>w d x w1 e. wok w \<and> (\<exists>m \<le> n. ins w = ys @ take m xs) \<and> 0 < upper d \<and> lower d = 0
        \<and> th_space T d w = (x, w1) \<and> pick_right x = Some e)"

lemma erred_later:
  "source_erred S rok outs (drop m xs) n \<Longrightarrow> source_erred S rok outs xs (m + n)"
  "target_erred T wok ins (ys @ take m xs) (drop m xs) n \<Longrightarrow> target_erred T wok ins ys xs (m + n)"
  unfolding source_erred_def target_erred_def
  by (metis add.commute add_le_cancel_left drop_drop)
    (metis add_le_cancel_left append.assoc take_add)

lemma some_of_sides: "pick_left x = None \<Longrightarrow> \<exists>e. pick_right x = Some e"
  by (cases x) auto

lemma upper_less_than: "n < 2 ^ 64 \<Longrightarrow> upper (LessThan (of_nat n)) = n"
  by (simp add: take_bit_nat_eq_self unsigned_of_nat)

lemma mem_write_parts:
  "c + length xs \<le> length bs \<Longrightarrow> take (c + length xs) (mem_write bs c xs) = take c bs @ xs"
  "c + length xs \<le> length bs \<Longrightarrow> drop (c + length xs) (mem_write bs c xs) = drop (c + length xs) bs"
  by (simp_all add: mem_write_def)

context source_half
begin

text \<open>A segment's first piece fits, is not empty, and is what comes next.\<close>

lemma first_piece:
  assumes "rok r" "sh_read S d r = (x, r1)" "pick_left x = Some ps" "0 < upper d" "lower d = 0" "n = length (first_src ps)"
  shows "0 < n" "n \<le> upper d" "first_src ps = take n (outs r)" "n \<le> length (outs r)"
    "rok (sh_take S n r1)" "outs (sh_take S n r1) = drop n (outs r)"
proof -
  obtain rest where l: "[] \<notin> set ps" "concat ps \<noteq> []" "length (concat ps) \<le> upper d" "outs r = concat ps @ rest"
    using read_lends [OF assms(1-4)] assms(5) by auto
  note f = first_src_bounds [of ps]
  show "0 < n" "n \<le> upper d" "n \<le> length (outs r)"
    using f(1,3) l assms(6) by (auto simp del: length_concat)
  show "first_src ps = take n (outs r)"
    using f(1,2) l(4) assms(6) by (simp del: length_concat)
  have "n \<le> length (concat ps)"
    using f(1) assms(6) by simp
  from take_moves [OF assms(1-3) this] show "rok (sh_take S n r1)" "outs (sh_take S n r1) = drop n (outs r)"
    by simp_all
qed

lemma std_read_loop_spec:
  assumes "rok r" "length bs < 2 ^ 64" "c \<le> length bs" "length bs - c < k"
  shows "\<exists>res n bs' r'. std_read_loop S cancelled k bs c r = Some (res, bs', r') \<and> rok r'
    \<and> c + n \<le> length bs \<and> n \<le> length (outs r) \<and> outs r' = drop n (outs r)
    \<and> bs' = mem_write bs c (take n (outs r))
    \<and> (c + n < length bs \<longrightarrow> n = length (outs r) \<or> Ex cancelled \<or> source_erred S rok outs (outs r) n)
    \<and> (case res of Inr m \<Rightarrow> m = c + n \<and> (m = 0 \<longrightarrow> bs = [] \<or> outs r = [] \<or> (\<exists>i. cancelled i))
         | Inl e \<Rightarrow> c = 0 \<and> n = 0)"
  using assms
proof (induction k arbitrary: bs c r)
  case (Suc k)
  have none: "mem_write bs c (take 0 (outs r)) = bs"
    by (simp add: mem_write_def)
  show ?case
  proof (cases "length bs \<le> c \<or> sh_drained S r \<or> cancelled k")
    case True
    then show ?thesis
      using Suc.prems drained_empty [OF Suc.prems(1)] none by (intro exI [of _ "Inr c"] exI [of _ 0]) auto
  next
    case False
    let ?d = "LessThan (of_nat (length bs - c)) :: usize demand"
    have up: "upper ?d = length bs - c" "0 < upper ?d"
      using False Suc.prems(2) upper_less_than [of "length bs - c"] by simp_all
    obtain x r1 where rd: "sh_read S ?d r = (x, r1)"
      by fastforce
    note st = read_stays [OF Suc.prems(1) rd]
    show ?thesis
    proof (cases "pick_left x")
      case None
      then obtain e where e: "pick_right x = Some e"
        using some_of_sides by blast
      then have "source_erred S rok outs (outs r) 0"
        unfolding source_erred_def using Suc.prems(1) rd up by fastforce
      with e show ?thesis
        using False rd None st none Suc.prems(3)
        by (intro exI [of _ "if 0 < c then Inr c else Inl e"] exI [of _ 0] exI [of _ bs] exI [of _ r1]) simp
    next
      case (Some ps)
      define n where "n = length (first_src ps)"
      have "lower ?d = 0" by simp
      note fp = first_piece [OF Suc.prems(1) rd Some up(2) this n_def]
      have n: "0 < n" "n \<le> length bs - c"
        using fp(1,2) [unfolded up(1)] by (simp_all only:)
      let ?xs = "take n (outs r)"
      let ?b = "mem_write bs c ?xs" and ?r = "sh_take S n r1"
      have fit: "c + n \<le> length bs"
        using n(2) False by linarith
      then have len: "length ?xs = n" "c + n \<le> length bs" "length ?b = length bs"
        using fp(4) by (simp_all add: mem_write_def)
      have mv: "min (length (first_src ps)) (length bs - c) = n" "take n (first_src ps) = ?xs"
        by (use n(2) in \<open>simp add: n_def\<close>) (simp add: fp(3))
      have go: "std_read_loop S cancelled (Suc k) bs c r = (case pick_right x of
            Some e \<Rightarrow> Some (Inr (c + n), ?b, ?r)
          | None \<Rightarrow> std_read_loop S cancelled k ?b (c + n) ?r)"
        using False rd Some n(1) mv by (simp add: Let_def split: option.splits del: of_nat_diff)
      show ?thesis
      proof (cases "pick_right x")
        case (Some e)
        have "source_erred S rok outs (outs r) n"
          unfolding source_erred_def using Suc.prems(1) rd up Some by fastforce
        then show ?thesis
          using Some go fp(4-6) len n by (intro exI [of _ "Inr (c + n)"] exI [of _ n] exI [of _ ?b] exI [of _ ?r]) simp
      next
        case None
        have pre: "length ?b < 2 ^ 64" "c + n \<le> length ?b" "length ?b - (c + n) < k"
          using len Suc.prems(2,4) n by simp_all
        obtain res m bs' r' where ih: "std_read_loop S cancelled k ?b (c + n) ?r = Some (res, bs', r')" "rok r'"
          "c + n + m \<le> length ?b" "m \<le> length (outs ?r)" "outs r' = drop m (outs ?r)"
          "bs' = mem_write ?b (c + n) (take m (outs ?r))"
          "c + n + m < length ?b \<longrightarrow> m = length (outs ?r) \<or> Ex cancelled \<or> source_erred S rok outs (outs ?r) m"
          "case res of Inr j \<Rightarrow> j = c + n + m \<and> (j = 0 \<longrightarrow> ?b = [] \<or> outs ?r = [] \<or> Ex cancelled)
             | Inl e \<Rightarrow> c + n = 0 \<and> m = 0"
          using Suc.IH [OF fp(5) pre] by (elim exE conjE) (rule that)
        have "take (n + m) (outs r) = ?xs @ take m (outs ?r)"
          using fp(6) by (simp add: take_add)
        moreover have "mem_write bs c (?xs @ ys) = mem_write ?b (c + n) ys" if "c + n + length ys \<le> length bs" for ys
          using len that by (simp add: mem_write_def ac_simps)
        ultimately have "bs' = mem_write bs c (take (n + m) (outs r))"
          using ih(3,4,6) len(3) by simp
        moreover have "outs r' = drop (n + m) (outs r)" "n + m \<le> length (outs r)"
          using ih(4,5) fp(4,6) by (simp_all add: add.commute)
        moreover have "n + m = length (outs r) \<or> Ex cancelled \<or> source_erred S rok outs (outs r) (n + m)"
          if "c + (n + m) < length bs"
          using ih(7) that erred_later(1) [of S rok outs n "outs r" m] fp(4,6) len(3) by (auto simp: add.assoc)
        ultimately show ?thesis
          using go None ih(1-3,8) len(3) n(1)
          by (intro exI [of _ res] exI [of _ "n + m"] exI [of _ bs'] exI [of _ r']) (auto split: sum.splits)
      qed
    qed
  qed
qed simp

end

context target_half
begin

lemma std_write_loop_spec:
  assumes "wok w" "length bs < 2 ^ 64" "c \<le> length bs" "length bs - c < k"
  shows "\<exists>res n w'. std_write_loop T cancelled k bs c w = Some (res, w') \<and> wok w'
    \<and> c + n \<le> length bs \<and> ins w' = ins w @ take n (drop c bs)
    \<and> (c + n < length bs \<longrightarrow> th_stuffed T w' \<or> Ex cancelled \<or> target_erred T wok ins (ins w) (drop c bs) n)
    \<and> (case res of Inr m \<Rightarrow> m = c + n \<and> (m = 0 \<longrightarrow> bs = [] \<or> th_stuffed T w \<or> (\<exists>i. cancelled i))
         | Inl e \<Rightarrow> c = 0 \<and> n = 0)"
  using assms
proof (induction k arbitrary: c w)
  case (Suc k)
  show ?case
  proof (cases "length bs \<le> c \<or> th_stuffed T w \<or> cancelled k")
    case True
    then show ?thesis
      using Suc.prems by (intro exI [of _ "Inr c"] exI [of _ 0] exI [of _ w]) auto
  next
    case False
    let ?d = "LessThan (of_nat (length bs - c)) :: usize demand"
    have up: "upper ?d = length bs - c" "0 < upper ?d"
      using False Suc.prems(2) upper_less_than [of "length bs - c"] by simp_all
    obtain x w1 where sp: "th_space T ?d w = (x, w1)"
      by fastforce
    note st = space_stays [OF Suc.prems(1) sp]
    show ?thesis
    proof (cases "pick_left x")
      case None
      then obtain e where e: "pick_right x = Some e"
        using some_of_sides by blast
      then have "target_erred T wok ins (ins w) (drop c bs) 0"
        unfolding target_erred_def using Suc.prems(1) sp up by fastforce
      with e show ?thesis
        using False sp None st Suc.prems(3)
        by (intro exI [of _ "if 0 < c then Inr c else Inl e"] exI [of _ 0] exI [of _ w1]) simp
    next
      case (Some ns)
      have ns: "piece_ok ns" "0 < sum_list ns"
        using space_lends [OF Suc.prems(1) sp Some up(2)] by simp_all
      define n where "n = min (first_tgt ns) (length bs - c)"
      have n: "0 < n" "n \<le> length bs - c" "n \<le> sum_list ns"
        using first_tgt_bounds [of ns] ns up(1,2) by (simp_all add: n_def min.coboundedI1 del: bounds_simps)
      let ?xs = "take n (drop c bs)"
      let ?w = "th_put T ?xs w1"
      have put: "wok ?w" "ins ?w = ins w @ ?xs"
        using put_appends [OF Suc.prems(1) sp Some, of ?xs] n(2,3) by (simp_all add: min.coboundedI2)
      have go: "std_write_loop T cancelled (Suc k) bs c w = (case pick_right x of
            Some e \<Rightarrow> Some (Inr (c + n), ?w)
          | None \<Rightarrow> std_write_loop T cancelled k bs (c + n) ?w)"
        using False sp Some n(1) by (simp add: Let_def split: option.splits flip: n_def)
      show ?thesis
      proof (cases "pick_right x")
        case (Some e)
        have "target_erred T wok ins (ins w) (drop c bs) n"
          unfolding target_erred_def using Suc.prems(1) sp up Some by fastforce
        then show ?thesis
          using Some go put n by (intro exI [of _ "Inr (c + n)"] exI [of _ n] exI [of _ ?w]) simp
      next
        case None
        have pre: "c + n \<le> length bs" "length bs - (c + n) < k"
          using Suc.prems(4) False n by linarith+
        obtain res m w' where ih: "std_write_loop T cancelled k bs (c + n) ?w = Some (res, w')" "wok w'"
          "c + n + m \<le> length bs" "ins w' = ins ?w @ take m (drop (c + n) bs)"
          "c + n + m < length bs \<longrightarrow> th_stuffed T w' \<or> Ex cancelled \<or> target_erred T wok ins (ins ?w) (drop (c + n) bs) m"
          "case res of Inr j \<Rightarrow> j = c + n + m \<and> (j = 0 \<longrightarrow> bs = [] \<or> th_stuffed T ?w \<or> Ex cancelled)
             | Inl e \<Rightarrow> c + n = 0 \<and> m = 0"
          using Suc.IH [OF put(1) Suc.prems(2) pre] by (elim exE conjE) (rule that)
        have "ins w' = ins w @ take (n + m) (drop c bs)"
          using ih(4) put(2) by (simp add: take_add drop_drop add.commute [of c n])
        moreover have "th_stuffed T w' \<or> Ex cancelled \<or> target_erred T wok ins (ins w) (drop c bs) (n + m)"
          if "c + (n + m) < length bs"
          using ih(5) that erred_later(2) [of T wok ins "ins w" n "drop c bs" m] put(2)
          by (auto simp: drop_drop add.assoc add.commute [of c n])
        ultimately show ?thesis
          using go None ih(1-3,6) n(1) by (intro exI [of _ res] exI [of _ "n + m"] exI [of _ w']) (auto split: sum.splits)
      qed
    qed
  qed
qed simp

end

lemma mem_write_front:
  "length xs \<le> length bs \<Longrightarrow> take (length xs) (mem_write bs 0 xs) = xs"
  "length xs \<le> length bs \<Longrightarrow> drop (length xs) (mem_write bs 0 xs) = drop (length xs) bs"
  by (simp_all add: mem_write_def)

text \<open>
  C40: A read through the adapter returns, over any source that keeps the contract of the halves and
  whatever the cancellation token answers: some \<open>n\<close> bytes, the next ones of the source, are in the
  front of the caller's buffer, whose rest is untouched, and the source goes on behind them. It is
  \<open>Ok(n)\<close>, unless nothing was moved and the source reported an error; less than the whole buffer is
  filled only when the source is at its end, the token was cancelled, or the source reported an error;
  and \<open>Ok(0)\<close>, the end of the stream for \<open>std::io::Read\<close>, for a non-empty buffer is the end, or a
  cancellation.
\<close>

theorem std_read_delivers:
  assumes "source_half S rok outs" "rok r" "length bs < 2 ^ 64" "length bs < k"
  shows "\<exists>res n bs' r'. as_std_read S cancelled k bs r = Some (res, bs', r') \<and> rok r'
    \<and> n \<le> length bs \<and> take n bs' = take n (outs r) \<and> drop n bs' = drop n bs
    \<and> n \<le> length (outs r) \<and> outs r' = drop n (outs r)
    \<and> (n < length bs \<longrightarrow> outs r' = [] \<or> Ex cancelled \<or> source_erred S rok outs (outs r) n)
    \<and> (case res of Inr m \<Rightarrow> m = n \<and> (m = 0 \<longrightarrow> bs = [] \<or> outs r = [] \<or> Ex cancelled)
         | Inl e \<Rightarrow> n = 0)"
proof -
  have z: "length bs - 0 < k"
    using assms(4) by simp
  obtain res n bs' r' where *: "std_read_loop S cancelled k bs 0 r = Some (res, bs', r')" "rok r'"
    "0 + n \<le> length bs" "n \<le> length (outs r)" "outs r' = drop n (outs r)" "bs' = mem_write bs 0 (take n (outs r))"
    "0 + n < length bs \<longrightarrow> n = length (outs r) \<or> Ex cancelled \<or> source_erred S rok outs (outs r) n"
    "case res of Inr m \<Rightarrow> m = 0 + n \<and> (m = 0 \<longrightarrow> bs = [] \<or> outs r = [] \<or> Ex cancelled) | Inl e \<Rightarrow> 0 = (0 :: nat) \<and> n = 0"
    using source_half.std_read_loop_spec [OF assms(1-3) le0 z, of cancelled]
    by (elim exE conjE) (rule that)
  have "length (take n (outs r)) = n"
    using *(4) by simp
  then show ?thesis
    using * mem_write_front [of "take n (outs r)" bs] unfolding as_std_read_def
    by (intro exI [of _ res] exI [of _ n] exI [of _ bs'] exI [of _ r']) (auto split: sum.splits)
qed

theorem std_read_delivers_witness:
  "as_std_read bytes_src (\<lambda>_. False) 9 [0, 0, 0, 0, 9] [5, 6, 7] = Some (Inr 3, [5, 6, 7, 0, 9], [])
   \<and> take 3 [5, 6, 7, 0, 9] = take 3 [5 :: u8, 6, 7]"
proof -
  have run: "as_std_read bytes_src (\<lambda>_. False) 9 [0, 0, 0, 0, 9] [5, 6, 7] = Some (Inr 3, [5, 6, 7, 0, 9], [])"
    by code_simp
  show ?thesis
    using std_read_delivers [OF bytes_halves(1), where r = "[5, 6, 7]" and bs = "[0, 0, 0, 0, 9]" and k = 9 and cancelled = "\<lambda>_. False"] run by auto
qed

text \<open>
  A write through the adapter returns, over any target that keeps the contract of the halves: some
  \<open>n\<close> bytes from the front of the caller's buffer, and nothing else, are behind what the target had
  taken. It is \<open>Ok(n)\<close>, unless nothing was moved and the target reported an error; less than the whole
  buffer is written only when the target calls itself stuffed, the token was cancelled, or the target
  reported an error.
\<close>

theorem std_write_appends:
  assumes "target_half T wok ins" "wok w" "length bs < 2 ^ 64" "length bs < k"
  shows "\<exists>res n w'. as_std_write T cancelled k bs w = Some (res, w') \<and> wok w'
    \<and> n \<le> length bs \<and> ins w' = ins w @ take n bs
    \<and> (n < length bs \<longrightarrow> th_stuffed T w' \<or> Ex cancelled \<or> target_erred T wok ins (ins w) bs n)
    \<and> (case res of Inr m \<Rightarrow> m = n \<and> (m = 0 \<longrightarrow> bs = [] \<or> th_stuffed T w \<or> Ex cancelled)
         | Inl e \<Rightarrow> n = 0)"
proof -
  have z: "length bs - 0 < k"
    using assms(4) by simp
  show ?thesis
    using target_half.std_write_loop_spec [OF assms(1-3) le0 z, of cancelled]
    unfolding as_std_write_def drop_0 add_0 simp_thms .
qed

theorem std_write_appends_witness:
  "as_std_write bytes_tgt (\<lambda>_. False) 9 [5, 6, 7] [1] = Some (Inr 3, [1, 5, 6, 7])
   \<and> [1, 5, 6, 7] = [1] @ take 3 [5 :: u8, 6, 7]"
proof -
  have run: "as_std_write bytes_tgt (\<lambda>_. False) 9 [5, 6, 7] [1] = Some (Inr 3, [1, 5, 6, 7])"
    by code_simp
  show ?thesis
    using std_write_appends [OF bytes_halves(2), where w = "[1]" and bs = "[5, 6, 7]" and k = 9 and cancelled = "\<lambda>_. False"] run by auto
qed

text \<open>
  The sending half of the circular buffer calls itself stuffed as soon as it is full, so a write into a
  full buffer is \<open>Ok(0)\<close>, which \<open>write_all\<close> turns into \<open>WriteZero\<close>, while the reader is there and
  will make room.
\<close>

lemma std_write_full_is_zero:
  assumes "circ_ok c" "circ_data c = length (cbuf c)"
  shows "as_std_write (circ_tgt rd wr f) cancelled (Suc k) bs (c, g) = Some (Inr 0, c, g)"
proof -
  have "\<not> lends (circ_try_write_at c (AtLeast 1))"
    by (cases rule: write_at_cases [OF refl, of c "AtLeast 1"]) (use assms circ_sizes(1) [of c] in \<open>auto simp: lends_def\<close>)
  then have "th_stuffed (circ_tgt rd wr f) (c, g)"
    by (simp add: circ_tgt_def circ_is_stuffed_closing_def producer_ready_def)
  then show ?thesis
    by (simp add: as_std_write_def)
qed

text \<open>A cancelled read is \<open>Ok(0)\<close> too, although the source has more to come.\<close>

lemma std_read_cancelled_is_end:
  "cancelled k \<Longrightarrow> as_std_read S cancelled (Suc k) bs r = Some (Inr 0, bs, r)"
  by (simp add: as_std_read_def)

end
