(* ===== verification/Tokio_Adapt.thy ===== *)
theory Tokio_Adapt
  imports Segm_Io Err_Tags Cantare_Prelude
begin

text \<open>
  The adapters that show a tokio stream as a device of a buffer (\<open>crates/abs_buff_tokio_adapt/src/read_as_input.rs\<close>,
  \<open>write_as_output.rs\<close>). The stream is code of tokio: a parameter that, polled, is not ready (\<open>None\<close>), fails, or
  has moved some bytes.
\<close>

section \<open>Streams of tokio\<close>

text \<open>One poll of \<open>AsyncReadExt::read\<close> with a buffer of \<open>n\<close> bytes, and of \<open>AsyncWriteExt::write\<close>.\<close>

type_synonym ('e, 's) tokio_reader = "'s \<Rightarrow> nat \<Rightarrow> ('e, u8 list) rust_result option \<times> 's"
type_synonym ('e, 's) tokio_writer = "'s \<Rightarrow> u8 option list \<Rightarrow> ('e, nat) rust_result option \<times> 's"

text \<open>
  What tokio documents. \<open>handed s\<close> is what the stream has handed out, \<open>wrote s\<close> what was written to it: a read or a
  write moves no more than the buffer holds, and nothing when it fails or is not ready.
\<close>

definition tokio_read_ok :: "('e, 's) tokio_reader \<Rightarrow> ('s \<Rightarrow> u8 list) \<Rightarrow> bool" where
  "tokio_read_ok tr handed =
     (\<forall>s n. case tr s n of
        (Some (Inr bs), s') \<Rightarrow> length bs \<le> n \<and> handed s' = handed s @ bs
      | (_, s') \<Rightarrow> handed s' = handed s)"

definition tokio_write_ok :: "('e, 's) tokio_writer \<Rightarrow> ('s \<Rightarrow> u8 option list) \<Rightarrow> bool" where
  "tokio_write_ok tw wrote =
     (\<forall>s cs. case tw s cs of
        (Some (Inr n), s') \<Rightarrow> n \<le> length cs \<and> wrote s' = wrote s @ take n cs
      | (_, s') \<Rightarrow> wrote s' = wrote s)"

text \<open>
  A stream at its end reads zero bytes from then on, and a broken one fails from then on. A writer that can no longer
  accept bytes answers zero to a non-empty write: \<open>refused\<close> holds of a stream that has done so once. It only keeps a
  record of the answers, so every stream has one.
\<close>

definition tokio_ended :: "('e, 's) tokio_reader \<Rightarrow> ('s \<Rightarrow> bool) \<Rightarrow> bool" where
  "tokio_ended tr ended = (\<forall>s n. ended s \<longrightarrow> (\<exists>s'. tr s n = (Some (Inr []), s') \<and> ended s'))"

definition tokio_broken :: "('e, 's) tokio_reader \<Rightarrow> ('s \<Rightarrow> bool) \<Rightarrow> bool" where
  "tokio_broken tr broken = (\<forall>s n. broken s \<longrightarrow> (\<exists>e s'. tr s n = (Some (Inl e), s') \<and> broken s'))"

definition tokio_refusals :: "('e, 's) tokio_writer \<Rightarrow> ('s \<Rightarrow> bool) \<Rightarrow> bool" where
  "tokio_refusals tw refused =
     (\<forall>s cs x s'. tw s cs = (x, s') \<longrightarrow> refused s \<or> cs \<noteq> [] \<and> x = Some (Inr 0) \<longrightarrow> refused s')"

section \<open>The adapters\<close>

definition read_as_input :: "('e, 's) tokio_reader \<Rightarrow> (u8, 'e \<times> read_err_tag, 's) input_dev" where
  "read_as_input tr s n =
     (case tr s n of
        (None, s') \<Rightarrow> (None, s')
      | (Some (Inl e), s') \<Rightarrow> (Some (OfRight (e, RPropagated)), s')
      | (Some (Inr bs), s') \<Rightarrow> (Some (OfLeft bs), s'))"

definition write_as_output :: "('e, 's) tokio_writer \<Rightarrow> (u8, 'e \<times> write_err_tag, 's) output_dev" where
  "write_as_output tw s cs =
     (case tw s cs of
        (None, s') \<Rightarrow> (None, s')
      | (Some (Inl e), s') \<Rightarrow> (Some (OfRight (e, WPropagated)), s')
      | (Some (Inr n), s') \<Rightarrow> (Some (OfLeft n), s'))"

text \<open>They are devices in the sense of \<open>Segm_Io\<close>.\<close>

lemma tokio_readD:
  assumes "tokio_read_ok tr handed" "tr s n = (x, s')"
  shows "handed s' = handed s @ (case x of Some (Inr bs) \<Rightarrow> bs | _ \<Rightarrow> [])" "x = Some (Inr bs) \<Longrightarrow> length bs \<le> n"
proof -
  have "case tr s n of (Some (Inr bs), s') \<Rightarrow> length bs \<le> n \<and> handed s' = handed s @ bs | (_, s') \<Rightarrow> handed s' = handed s"
    by (rule assms(1) [unfolded tokio_read_ok_def, THEN spec, THEN spec])
  then show "handed s' = handed s @ (case x of Some (Inr bs) \<Rightarrow> bs | _ \<Rightarrow> [])" "x = Some (Inr bs) \<Longrightarrow> length bs \<le> n"
    using assms(2) by (auto split: option.splits sum.splits)
qed

lemma tokio_writeD:
  assumes "tokio_write_ok tw wrote" "tw s cs = (x, s')"
  shows "wrote s' = wrote s @ (case x of Some (Inr n) \<Rightarrow> take n cs | _ \<Rightarrow> [])" "x = Some (Inr n) \<Longrightarrow> n \<le> length cs"
proof -
  have "case tw s cs of (Some (Inr n), s') \<Rightarrow> n \<le> length cs \<and> wrote s' = wrote s @ take n cs | (_, s') \<Rightarrow> wrote s' = wrote s"
    by (rule assms(1) [unfolded tokio_write_ok_def, THEN spec, THEN spec])
  then show "wrote s' = wrote s @ (case x of Some (Inr n) \<Rightarrow> take n cs | _ \<Rightarrow> [])" "x = Some (Inr n) \<Longrightarrow> n \<le> length cs"
    using assms(2) by (auto split: option.splits sum.splits)
qed

lemma read_as_input_ok: "tokio_read_ok tr handed \<Longrightarrow> input_ok (read_as_input tr) handed"
  by (auto simp: input_ok_def read_as_input_def items_of_def dest: tokio_readD
      split: prod.split option.split sum.split)

lemma write_as_output_ok: "tokio_write_ok tw wrote \<Longrightarrow> output_ok (write_as_output tw) wrote"
  by (auto simp: output_ok_def write_as_output_def count_of_def dest: tokio_writeD
      split: prod.split option.split sum.split)

lemma adapters_never_both:
  "read_as_input tr s n \<noteq> (Some (OfBoth bs e), s')"
  "write_as_output tw s cs \<noteq> (Some (OfBoth m e'), s')"
  by (auto simp: read_as_input_def write_as_output_def split: prod.splits option.splits sum.splits)

end
