(* ===== verification/Iroh_Stream.thy ===== *)
theory Iroh_Stream
  imports Tokio_Adapt Circ_Half Circ_Async_Write Circ_Async_End Circ_Close Circ_Build
begin

text \<open>
  Buffered QUIC streams (\<open>crates/buffex_iroh/src/device.rs\<close>, \<open>reader.rs\<close>, \<open>writer.rs\<close>): a stream behind its tokio
  adapter as the active end of a circular buffer whose other end is the user's. The flag and the errors that the
  source shares between the device and the half are fields of the device here; their locks are held for
  one access at a time.
\<close>

section \<open>The devices\<close>

record ('e, 's) stream_input =
  si_stream :: 's
  si_eof :: bool
  si_err :: "('e \<times> read_err_tag) option"

definition stream_input_new :: "'s \<Rightarrow> ('e, 's) stream_input" where
  "stream_input_new s = \<lparr>si_stream = s, si_eof = False, si_err = None\<rparr>"

definition stream_input_read ::
    "('e, 's) tokio_reader \<Rightarrow> (u8, 'e \<times> read_err_tag, ('e, 's) stream_input) input_dev" where
  "stream_input_read tr i n =
     (case read_as_input tr (si_stream i) n of
        (None, s') \<Rightarrow> (None, i\<lparr>si_stream := s'\<rparr>)
      | (Some (OfLeft bs), s') \<Rightarrow> (Some (OfLeft bs), i\<lparr>si_stream := s', si_eof := si_eof i \<or> bs = []\<rparr>)
      | (Some (OfRight e), s') \<Rightarrow> (Some (OfLeft []), i\<lparr>si_stream := s', si_err := Some e\<rparr>)
      | (Some (OfBoth bs e), s') \<Rightarrow> (Some (OfLeft []), i\<lparr>si_stream := s', si_err := Some e\<rparr>))"

text \<open>The stream of an output can be taken back; then there is nothing to write to.\<close>

datatype 'e os_error = OsError 'e | OtherError string

record ('e, 's) stream_output =
  so_stream :: "'s option"
  so_err :: "('e \<times> write_err_tag) option"

definition stream_output_new :: "'s \<Rightarrow> ('e, 's) stream_output" where
  "stream_output_new s = \<lparr>so_stream = Some s, so_err = None\<rparr>"

definition stream_output_write ::
    "('e, 's) tokio_writer \<Rightarrow> (u8, 'e os_error \<times> write_err_tag, ('e, 's) stream_output) output_dev" where
  "stream_output_write tw p cs =
     (case so_stream p of
        None \<Rightarrow> (Some (OfRight (OtherError ''Stream missing'', WUnknown)), p)
      | Some s \<Rightarrow>
          (case write_as_output tw s cs of
             (None, s') \<Rightarrow> (None, p\<lparr>so_stream := Some s'\<rparr>)
           | (Some (OfLeft n), s') \<Rightarrow> (Some (OfLeft n), p\<lparr>so_stream := Some s'\<rparr>)
           | (Some (OfRight e), s') \<Rightarrow> (Some (OfLeft 0), p\<lparr>so_stream := Some s', so_err := Some e\<rparr>)
           | (Some (OfBoth n e), s') \<Rightarrow> (Some (OfLeft 0), p\<lparr>so_stream := Some s', so_err := Some e\<rparr>)))"

section \<open>The reader\<close>

text \<open>The consumer half of a buffer; the ends that are not devices need none.\<close>

type_synonym ('e, 's) iroh_reader = "(u8, ('e, 's) stream_input, unit) circ"

definition no_output :: "(u8, unit, unit) output_dev" where
  "no_output p cs = (None, p)"

definition no_input :: "(u8, unit, unit) input_dev" where
  "no_input i n = (None, i)"

definition reader_eof :: "('e, 's) iroh_reader \<Rightarrow> bool" where
  "reader_eof c = (case producer_device (cprod c) of None \<Rightarrow> False | Some i \<Rightarrow> si_eof i)"

text \<open>\<open>None\<close> is a panic of the builder or not enough fuel.\<close>

definition iroh_reader_try_new ::
    "('e, 's) tokio_reader \<Rightarrow> nat \<Rightarrow> 's \<Rightarrow> usize \<Rightarrow> (usize, ('e, 's) iroh_reader) rust_result option" where
  "iroh_reader_try_new tr k s cap =
     (case with_capacity cap of
        Inl e \<Rightarrow> Some (Inl cap)
      | Inr b \<Rightarrow>
          (case essential_build (stream_input_read tr) no_output k
                  (ps_consumer_passive (bb_pipe_from_input (stream_input_new s) b)) of
             Some (Inr (OnlyConsumer c), _) \<Rightarrow> Some (Inr c)
           | Some (Inl e, _) \<Rightarrow> Some (Inl cap)
           | _ \<Rightarrow> None))"

definition iroh_try_read ::
    "('e, 's) tokio_reader \<Rightarrow> nat \<Rightarrow> usize demand \<Rightarrow> ('e, 's) iroh_reader
     \<Rightarrow> ((consumer_error, recl) rust_result \<times> ('e, 's) iroh_reader) option" where
  "iroh_try_read tr k d c =
     (case circ_try_read (stream_input_read tr) no_output k d c of
        None \<Rightarrow> None
      | Some (r, c1) \<Rightarrow>
          Some (case r of
                  Inl (CDrained q) \<Rightarrow> if reader_eof c1 then Inl CClosing else r
                | _ \<Rightarrow> r, c1))"

definition iroh_read_poll ::
    "('e, 's) tokio_reader \<Rightarrow> nat \<Rightarrow> wid \<Rightarrow> usize demand \<Rightarrow> nat \<Rightarrow> bool \<times> waker
     \<Rightarrow> half_at \<times> ('e, 's) iroh_reader
     \<Rightarrow> ((consumer_error, recl) rust_result poll \<times> half_at \<times> ('e, 's) iroh_reader) option" where
  "iroh_read_poll tr k w d f = core_read_poll (stream_input_read tr) no_output k w d f"

definition iroh_drop_read ::
    "('e, 's) tokio_reader \<Rightarrow> nat \<Rightarrow> wid \<Rightarrow> half_at \<Rightarrow> ('e, 's) iroh_reader \<Rightarrow> ('e, 's) iroh_reader option" where
  "iroh_drop_read tr k w = drop_read_future (stream_input_read tr) no_output k w"

definition iroh_is_drained_closing :: "('e, 's) iroh_reader \<Rightarrow> bool" where
  "iroh_is_drained_closing c =
     (circ_is_drained_closing c \<or> reader_eof c \<and> circ_data_size c = 0)"

definition reader_take_error ::
    "('e, 's) iroh_reader \<Rightarrow> ('e \<times> read_err_tag) option \<times> ('e, 's) iroh_reader" where
  "reader_take_error c =
     (case cprod c of
        BufProducer dm w \<Rightarrow> (None, c)
      | DevProducer i w \<Rightarrow> (si_err i, c\<lparr>cprod := DevProducer (i\<lparr>si_err := None\<rparr>) w\<rparr>))"

text \<open>\<open>close_async\<close>, which is also what dropping the reader does.\<close>

definition iroh_reader_close :: "('e, 's) iroh_reader \<Rightarrow> ('e, 's) iroh_reader" where
  "iroh_reader_close c = circ_close_rx c"

section \<open>Sessions of a reader\<close>

text \<open>
  What a user does with a reader: a read, awaited over some polls (each with the state of the token and the waker) or
  not at all, of which up to \<open>n\<close> bytes are moved out before the segment is dropped, and fetching the
  error. A read that is still pending is dropped.
\<close>

datatype reader_op =
    TryRead "usize demand" nat
  | AwaitRead "(bool \<times> waker) list" "usize demand" nat
  | TakeReadError

type_synonym ('e, 's) reader_run = "('e, 's) iroh_reader \<times> u8 option list"

definition consume_lent ::
    "('e, 's) tokio_reader \<Rightarrow> nat \<Rightarrow> nat \<Rightarrow> recl \<Rightarrow> ('e, 's) reader_run \<Rightarrow> ('e, 's) reader_run option" where
  "consume_lent tr k n g x =
     (let (c, rc) = x; (dst, g', j) = recl_move_items_to_buff (cbuf c) g (replicate n None)
      in map_option (\<lambda>c2. (c2, rc @ take j dst)) (circ_drop_read (stream_input_read tr) no_output k g' c))"

fun reader_do ::
    "('e, 's) tokio_reader \<Rightarrow> nat \<Rightarrow> nat \<Rightarrow> wid \<Rightarrow> reader_op \<Rightarrow> ('e, 's) reader_run \<Rightarrow> ('e, 's) reader_run option" where
  "reader_do tr k f w (TryRead d n) (c, rc) =
     (case iroh_try_read tr k d c of
        None \<Rightarrow> None
      | Some (Inl e, c1) \<Rightarrow> Some (c1, rc)
      | Some (Inr g, c1) \<Rightarrow> consume_lent tr k n g (c1, rc))"
| "reader_do tr k f w (AwaitRead polls d n) (c, rc) =
     (case run_polls (iroh_read_poll tr k w d f) polls (HalfTop, c) of
        None \<Rightarrow> None
      | Some (Pending, st, c1) \<Rightarrow> map_option (\<lambda>c2. (c2, rc)) (iroh_drop_read tr k w st c1)
      | Some (Ready (Inl e), st, c1) \<Rightarrow> Some (c1, rc)
      | Some (Ready (Inr g), st, c1) \<Rightarrow> consume_lent tr k n g (c1, rc)
      | Some (Unreachable, st, c1) \<Rightarrow> None)"
| "reader_do tr k f w TakeReadError (c, rc) = Some (snd (reader_take_error c), rc)"

fun reader_session ::
    "('e, 's) tokio_reader \<Rightarrow> nat \<Rightarrow> nat \<Rightarrow> wid \<Rightarrow> reader_op list \<Rightarrow> ('e, 's) reader_run \<Rightarrow> ('e, 's) reader_run option" where
  "reader_session tr k f w [] x = Some x"
| "reader_session tr k f w (a # as) x = Option.bind (reader_do tr k f w a x) (reader_session tr k f w as)"

section \<open>What a reader delivers\<close>

lemma stream_input_read_ok:
  assumes "tokio_read_ok tr handed"
  shows "input_ok (stream_input_read tr) (\<lambda>i. handed (si_stream i))"
proof -
  have "length (items_of x) \<le> n \<and> handed (si_stream i') = handed (si_stream i) @ items_of x"
    if r: "stream_input_read tr i n = (x, i')" for i n x i'
  proof -
    obtain y s' where y: "read_as_input tr (si_stream i) n = (y, s')"
      by fastforce
    have in_ok: "length (items_of y) \<le> n" "handed s' = handed (si_stream i) @ items_of y"
      using read_as_input_ok [OF assms, unfolded input_ok_def, THEN spec [of _ "si_stream i"], THEN spec [of _ n]] y
      by simp_all
    note step = r [unfolded stream_input_read_def y prod.case]
    consider "y = None" | bs where "y = Some (OfLeft bs)" | e where "y = Some (OfRight e)"
      using adapters_never_both(1) y by (metis some_of.exhaust option.exhaust)
    then show ?thesis
    proof cases
      case 1
      then show ?thesis
        using step in_ok by (auto simp: items_of_def)
    next
      case (2 bs)
      then show ?thesis
        using step in_ok by (auto simp: items_of_def)
    next
      case (3 e)
      then show ?thesis
        using step in_ok by (auto simp: items_of_def)
    qed
  qed
  then show ?thesis
    by (auto simp: input_ok_def split: prod.split)
qed

abbreviation reader_given :: "('s \<Rightarrow> u8 list) \<Rightarrow> ('e, 's) stream_input \<Rightarrow> u8 list" where
  "reader_given handed \<equiv> (\<lambda>i. handed (si_stream i))"

definition reader_ok ::
    "('e, 's) tokio_reader \<Rightarrow> nat \<Rightarrow> ('s \<Rightarrow> u8 list) \<Rightarrow> u8 option list \<Rightarrow> wid \<Rightarrow> nat \<Rightarrow> ('e, 's) iroh_reader \<Rightarrow> bool" where
  "reader_ok tr k handed rc w L c = reading (stream_input_read tr) k (reader_given handed) (\<lambda>_. []) rc w L None c"

lemma only_consumer:
  "essential_build rd wr k es = Some (Inr (OnlyConsumer c), es') \<Longrightarrow> \<not> producer_passive (cprod c) \<and> consumer_passive (ccons c)"
  "essential_build rd wr k es = Some (Inr (OnlyProducer c), es') \<Longrightarrow> producer_passive (cprod c) \<and> \<not> consumer_passive (ccons c)"
  by (auto simp: essential_build_def assemble_def Let_def
      split: option.splits prod.splits sum.splits producer.splits consumer.splits)

lemma reader_started:
  assumes "tokio_read_ok tr handed" "handed s = []" "MIN_CAPACITY \<le> cap" "cap \<le> CIRC_MAX_CAPACITY" "unat cap + 5 \<le> k"
  obtains c where "iroh_reader_try_new tr k s cap = Some (Inr c)" "reader_ok tr k handed [] w (unat cap) c"
    "\<not> circ_tx_closed c" "\<not> circ_rx_closed c"
proof -
  obtain b :: "u8 buff_builder" where b: "with_capacity cap = Inr b"
    using assms(3,4) by (simp add: capacity_checked)
  have chain: "producer_first (Some (stream_input_new s)) None b = ps_consumer_passive (bb_pipe_from_input (stream_input_new s) b)"
    by (simp add: producer_first_def)
  have "output_ok no_output (\<lambda>_. [])"
    by (simp add: output_ok_def no_output_def count_of_def)
  then obtain c es where c: "essential_build (stream_input_read tr) no_output k
      (ps_consumer_passive (bb_pipe_from_input (stream_input_new s) b)) = Some (Inr (OnlyConsumer c), es)"
    "core_started (reader_given handed) (\<lambda>_. []) (unat cap) c"
    using build_starts [OF b, of "Some (stream_input_new s)" "reader_given handed" None "\<lambda>_. []" "stream_input_read tr" no_output k]
      stream_input_read_ok [OF assms(1)] assms(2,5) unfolding chain by (auto simp: stream_input_new_def)
  have "reader_ok tr k handed [] w (unat cap) c"
    using c(2) only_consumer(1) [OF c(1)] stream_input_read_ok [OF assms(1)] assms(5)
    by (simp add: reader_ok_def reading_def core_started_def)
  then show thesis
    using that [of c] b c by (simp add: iroh_reader_try_new_def core_started_def)
qed

lemma reader_consumes:
  assumes "reader_ok tr k handed rc w L c" "L + 5 \<le> k" "read_answer d (Inr g) c"
  shows "\<exists>c2 xs. consume_lent tr k n g (c, rc) = Some (c2, rc @ xs) \<and> reader_ok tr k handed (rc @ xs) w L c2"
proof -
  note r = assms(1) [unfolded reader_ok_def reading_def]
  obtain st tk where g: "circ_try_read_at c d = Inr (st, tk)" "g = create_read_segm c st tk"
    using assms(3) by (auto simp: read_answer_def)
  obtain dst g' j where mv: "recl_move_items_to_buff (cbuf c) g (replicate n None) = (dst, g', j)"
    by (metis surj_pair)
  have pre: "streams (reader_given handed) (\<lambda>_. []) [] rc c" "consumer_passive (ccons c)"
    "input_ok (stream_input_read tr) (reader_given handed)" "length (cbuf c) + 5 \<le> k"
    using r assms(2) by simp_all
  obtain c2 where c2: "circ_drop_read (stream_input_read tr) no_output k g' c = Some c2"
    "streams (reader_given handed) (\<lambda>_. []) [] (rc @ take j dst) c2" "same_modes c c2"
    by (rule lent_consumed [OF pre read_at_lends(2) [OF g(1)] mv [unfolded g(2) read_at_lends(1) [OF g(1)]]])
  have "end_kept w c c2"
    using drops_kept(1) [of _ _ k _ c c2 w] c2(1) r by (simp add: circ_drop_read_def)
  then have "reader_ok tr k handed (rc @ take j dst) w L c2"
    using r c2(2,3) by (simp add: reader_ok_def reading_def end_kept_def same_modes_def)
  then show ?thesis
    using mv c2(1) by (auto simp: consume_lent_def)
qed

lemma reader_error_taken:
  assumes "reader_ok tr k handed rc w L c"
  shows "reader_ok tr k handed rc w L (snd (reader_take_error c))"
proof (cases "cprod c")
  case (DevProducer i v)
  let ?c = "c\<lparr>cprod := DevProducer (i\<lparr>si_err := None\<rparr>) v\<rparr>"
  have "streams (reader_given handed) (\<lambda>_. []) [] rc ?c = streams (reader_given handed) (\<lambda>_. []) [] rc c"
    using circ_cong [of ?c c] DevProducer by (simp add: streams_def in_stream_def out_stream_def)
  then show ?thesis
    using assms DevProducer by (simp add: reader_take_error_def reader_ok_def reading_def slots_free_def)
qed (use assms in \<open>simp add: reader_take_error_def\<close>)

lemma reader_do_ok:
  assumes "reader_ok tr k handed rc w L c" "L + 5 \<le> k" "3 * L + 6 \<le> f"
  shows "\<exists>c2 xs. reader_do tr k f w a (c, rc) = Some (c2, rc @ xs) \<and> reader_ok tr k handed (rc @ xs) w L c2"
proof (cases a)
  case (TryRead d n)
  obtain r c1 where t: "circ_try_read (stream_input_read tr) no_output k d c = Some (r, c1)" "reader_ok tr k handed rc w L c1"
    "if (case r of Inl e \<Rightarrow> read_should_terminate (consumer_err_tag e) | Inr g \<Rightarrow> True) then read_answer d r c1
     else \<not> can_stop_read c d"
    using read_attempt [OF assms(1) [unfolded reader_ok_def], of no_output d] unfolding reader_ok_def by blast
  show ?thesis
  proof (cases r)
    case (Inl e)
    then have "\<exists>e'. iroh_try_read tr k d c = Some (Inl e', c1)"
      using t(1) by (cases e) (auto simp: iroh_try_read_def)
    then show ?thesis
      using t(2) TryRead by (auto intro: exI [of _ "[]"])
  next
    case (Inr g)
    then have "iroh_try_read tr k d c = Some (Inr g, c1)"
      using t(1) by (simp add: iroh_try_read_def)
    then show ?thesis
      using TryRead t(3) Inr reader_consumes [OF t(2) assms(2), of d g n] by simp
  qed
next
  case (AwaitRead polls d n)
  obtain r st c1 where p: "run_polls (iroh_read_poll tr k w d f) polls (HalfTop, c) = Some (r, st, c1)"
    and out: "case r of
        Pending \<Rightarrow> \<exists>c2. iroh_drop_read tr k w st c1 = Some c2 \<and> reader_ok tr k handed rc w L c2
      | Unreachable \<Rightarrow> False
      | Ready y \<Rightarrow> reader_ok tr k handed rc w L c1 \<and> read_answer d y c1"
    using read_polls [OF assms(1) [unfolded reader_ok_def] assms(3), of no_output d polls]
    unfolding iroh_read_poll_def iroh_drop_read_def reader_ok_def by blast
  show ?thesis
  proof (cases r)
    case Pending
    then show ?thesis
      using AwaitRead p out by (auto intro: exI [of _ "[]"])
  next
    case (Ready y)
    then show ?thesis
      using AwaitRead p out reader_consumes [of tr k handed rc w L c1 d _ n] assms(2)
      by (cases y) (auto intro: exI [of _ "[]"])
  next
    case Unreachable
    then show ?thesis
      using out by simp
  qed
next
  case TakeReadError
  then show ?thesis
    using reader_error_taken [OF assms(1)] by (auto intro: exI [of _ "[]"])
qed

lemma reader_session_ok:
  assumes "reader_ok tr k handed rc w L c" "L + 5 \<le> k" "3 * L + 6 \<le> f"
  shows "\<exists>c2 xs. reader_session tr k f w as (c, rc) = Some (c2, rc @ xs) \<and> reader_ok tr k handed (rc @ xs) w L c2"
  using assms(1)
proof (induction as arbitrary: c rc)
  case (Cons a as)
  obtain c1 xs where d: "reader_do tr k f w a (c, rc) = Some (c1, rc @ xs)" "reader_ok tr k handed (rc @ xs) w L c1"
    using reader_do_ok [OF Cons.prems assms(2,3)] by blast
  obtain c2 ys where "reader_session tr k f w as (c1, rc @ xs) = Some (c2, (rc @ xs) @ ys)"
    "reader_ok tr k handed ((rc @ xs) @ ys) w L c2"
    using Cons.IH [OF d(2)] by blast
  then show ?case
    using d(1) by (intro exI [of _ c2] exI [of _ "xs @ ys"]) simp
qed (auto intro: exI [of _ "[]"])

lemma reader_stream:
  assumes "reader_ok tr k handed rc w L c"
  obtains i v where "cprod c = DevProducer i v" "map Some (handed (si_stream i)) = rc @ circ_queue c"
proof (cases "cprod c")
  case (DevProducer i v)
  then show thesis
    using assms that by (cases "ccons c") (auto simp: reader_ok_def reading_def streams_def in_stream_def out_stream_def)
qed (use assms in \<open>simp add: reader_ok_def reading_def\<close>)

text \<open>
  C37: A reader delivers its stream. Over any stream that keeps what tokio documents and with an accepted capacity, the
  reader is built, and every session with it runs to its end, whatever the stream answers (bytes, errors, not
  ready), whatever is cancelled or dropped while pending, and however much is moved out of each
  segment: what the user has got is the front of what the stream has handed out, in order, and the rest
  is in the buffer.
\<close>

theorem iroh_reader_delivers:
  assumes "tokio_read_ok tr handed" "handed s = []" "MIN_CAPACITY \<le> cap" "cap \<le> CIRC_MAX_CAPACITY"
    "unat cap + 5 \<le> k" "3 * unat cap + 6 \<le> f"
  shows "\<exists>c0 c rc i v. iroh_reader_try_new tr k s cap = Some (Inr c0)
    \<and> reader_session tr k f w as (c0, []) = Some (c, rc)
    \<and> cprod c = DevProducer i v \<and> map Some (handed (si_stream i)) = rc @ circ_queue c"
proof -
  obtain c0 where c0: "iroh_reader_try_new tr k s cap = Some (Inr c0)" "reader_ok tr k handed [] w (unat cap) c0"
    by (rule reader_started [where w = w, OF assms(1-5)])
  obtain c rc where c: "reader_session tr k f w as (c0, []) = Some (c, rc)" "reader_ok tr k handed rc w (unat cap) c"
    using reader_session_ok [OF c0(2) assms(5,6), of as] by auto
  then show ?thesis
    using c0(1) by (blast elim: reader_stream)
qed

text \<open>A stream over a byte string, with the position as its state.\<close>

definition tokio_list :: "u8 list \<Rightarrow> (unit, nat) tokio_reader" where
  "tokio_list bs i n = (Some (Inr (take n (drop i bs))), i + n)"

lemma tokio_list_ok: "tokio_read_ok (tokio_list bs) (\<lambda>i. take i bs)" "tokio_ended (tokio_list bs) (\<lambda>i. length bs \<le> i)"
  by (simp_all add: tokio_read_ok_def tokio_ended_def tokio_list_def take_add)

lemma small_capacity: "MIN_CAPACITY \<le> (2 :: usize)" "(2 :: usize) \<le> CIRC_MAX_CAPACITY"
  by (simp_all add: MIN_CAPACITY_def CIRC_MAX_CAPACITY_def CIRC_POS_MASK_def)

theorem iroh_reader_delivers_witness:
  "\<exists>c0 c rc i v. iroh_reader_try_new (tokio_list [5, 6, 7]) 7 0 2 = Some (Inr c0)
    \<and> reader_session (tokio_list [5, 6, 7]) 7 12 4 [AwaitRead [(False, 9)] (AtLeast 1) 1, TryRead (AtLeast 1) 8] (c0, []) = Some (c, rc)
    \<and> cprod c = DevProducer i v \<and> map Some (take (si_stream i) [5, 6, 7]) = rc @ circ_queue c"
  by (rule iroh_reader_delivers [OF tokio_list_ok(1) take_0 small_capacity]) simp_all

section \<open>The end of the stream\<close>

lemma stream_input_idle:
  assumes "tokio_ended tr ended"
  shows "answers_nothing (stream_input_read tr) (\<lambda>i. ended (si_stream i))"
    "ended (si_stream i) \<or> si_eof i \<Longrightarrow> si_eof (snd (stream_input_read tr i n))"
proof -
  have "\<exists>s'. stream_input_read tr i n = (Some (OfLeft []), i\<lparr>si_stream := s', si_eof := True\<rparr>) \<and> ended s'"
    if e: "ended (si_stream i)" for i :: "('b, 'a) stream_input" and n
  proof -
    obtain s' where "tr (si_stream i) n = (Some (Inr []), s')" "ended s'"
      using assms e unfolding tokio_ended_def by blast
    then show ?thesis
      by (auto simp: stream_input_read_def read_as_input_def)
  qed
  note at_end = this
  show "answers_nothing (stream_input_read tr) (\<lambda>i. ended (si_stream i))"
    using at_end by (fastforce simp: answers_nothing_def items_of_def)
  have "si_eof (snd (stream_input_read tr i n))" if "si_eof i"
    using that by (auto simp: stream_input_read_def split: prod.split option.split some_of.split)
  then show "ended (si_stream i) \<or> si_eof i \<Longrightarrow> si_eof (snd (stream_input_read tr i n))"
    using at_end [of i n] by auto
qed

lemma idle_eof: "idle_producer si_eof c \<Longrightarrow> reader_eof c"
  by (auto simp: idle_producer_def reader_eof_def split: producer.splits)

text \<open>
  C39: At the end of the stream, with everything read. The documentation says that the end is reported as
  \<open>Closing\<close>. \<open>try_read\<close> does so; \<open>read_async\<close> forwards to the buffer, which knows of no end: its first poll is
  pending, and so is every later one, although \<open>is_drained_closing\<close> is true from then on, and whatever the stream
  would answer.
\<close>

theorem iroh_read_hangs_at_eof:
  fixes tr :: "('e, 's) tokio_reader"
  assumes "reader_ok tr k handed rc w L c" "cprod c = DevProducer i v" "tokio_ended tr ended" "ended (si_stream i)"
    "circ_queue c = []" "\<not> circ_tx_closed c" "\<not> circ_rx_closed c" "4 \<le> f"
  shows "(\<exists>c1. iroh_read_poll tr k w d f (False, kk) (HalfTop, c) = Some (Pending, HalfPark True, c1)
      \<and> iroh_is_drained_closing c1
      \<and> (\<forall>tr' wakers. \<exists>c2. run_polls (\<lambda>kk'. iroh_read_poll tr' k w d f (False, kk')) wakers (HalfPark True, c1)
           = Some (Pending, HalfPark True, c2)))
    \<and> (\<exists>c1. iroh_try_read tr k d c = Some (Inl CClosing, c1))"
proof -
  note r = assms(1) [unfolded reader_ok_def reading_def]
  let ?P = "\<lambda>i. ended (si_stream i)"
  have none: "circ_data c = 0"
    using arg_cong [OF assms(5), of length] by (simp add: circ_queue_length)
  then have stop: "\<not> can_stop_read c d"
    using assms(6,7) by (auto simp: can_stop_read_iff circ_data_def unat_eq_zero)
  have ok: "circ_ok c" "circ_free c \<noteq> 0" "4 \<le> k"
    using r none circ_sizes(1) [of c] circ_ok_cap(3) [of c] by (auto simp: streams_def)
  have pre: "consumer_passive (ccons c)" "consumer_demand (ccons c) = None" "slots_free w c" "idle_producer ?P c"
    using r assms(2,4) by (simp_all add: idle_producer_def)
  note idle = stream_input_idle [OF assms(3)]
  obtain c1 where c1: "iroh_read_poll tr k w d f (False, kk) (HalfTop, c) = Some (Pending, HalfPark True, c1)"
    "circ_data c1 = circ_data c" "idle_producer si_eof c1"
    "\<forall>(rd' :: (u8, 'e \<times> read_err_tag, ('e, 's) stream_input) input_dev) (wr' :: (u8, unit, unit) output_dev) wakers.
       \<exists>c2. run_polls (\<lambda>kk'. core_read_poll rd' wr' k w d f (False, kk')) wakers (HalfPark True, c1)
         = Some (Pending, HalfPark True, c2) \<and> cprod c2 = cprod c1"
    using hangs_at_end [where Q = si_eof, OF ok(1) pre(4) idle(1) stop pre(1-3) ok(3) assms(8) idle(2), of no_output kk] ok(2)
    unfolding iroh_read_poll_def by blast
  have "iroh_is_drained_closing c1"
    using c1(2) none idle_eof [OF c1(3)] by (simp add: iroh_is_drained_closing_def circ_data_def unat_eq_zero)
  moreover obtain q c2 where c2: "circ_try_read (stream_input_read tr) no_output k d c = Some (Inl (CDrained q), c2)"
    "circ_free c \<noteq> 0 \<longrightarrow> idle_producer si_eof c2"
    using idle_try [where Q = si_eof, OF ok(1) pre(4) idle(1) stop ok(3) idle(2) [OF disjI1] pre(1), of no_output] by blast
  then have "iroh_try_read tr k d c = Some (Inl CClosing, c2)"
    using ok(2) idle_eof [of c2] by (simp add: iroh_try_read_def)
  ultimately show ?thesis
    using c1(1,4) unfolding iroh_read_poll_def by blast
qed

theorem iroh_read_hangs_at_eof_witness:
  "\<exists>c0 c1. iroh_reader_try_new (tokio_list []) 7 0 2 = Some (Inr c0)
    \<and> iroh_read_poll (tokio_list []) 7 4 (AtLeast 1) 4 (False, 9) (HalfTop, c0) = Some (Pending, HalfPark True, c1)
    \<and> iroh_is_drained_closing c1"
proof -
  obtain c0 :: "(unit, nat) iroh_reader" where c0: "iroh_reader_try_new (tokio_list []) 7 0 2 = Some (Inr c0)"
    "reader_ok (tokio_list []) 7 (\<lambda>i. take i []) [] 4 (unat (2 :: usize)) c0" "\<not> circ_tx_closed c0" "\<not> circ_rx_closed c0"
    by (rule reader_started [where w = 4, OF tokio_list_ok(1) take_0 small_capacity, of 7]) simp
  obtain i v where dev: "cprod c0 = DevProducer i v" "map Some (take (si_stream i) []) = [] @ circ_queue c0"
    by (rule reader_stream [OF c0(2)])
  then have "circ_queue c0 = []"
    by simp
  from iroh_read_hangs_at_eof [OF c0(2) dev(1) tokio_list_ok(2) _ this c0(3,4), of 4 "AtLeast 1" 9]
  show ?thesis
    using c0(1) by auto
qed

text \<open>
  A stream that fails is never reported: neither the end nor the error reaches the reads, only \<open>take_error\<close> has it.
\<close>

lemma iroh_error_never_closing:
  assumes "reader_ok tr k handed rc w L c" "cprod c = DevProducer i v" "tokio_broken tr broken" "broken (si_stream i)"
    "\<not> si_eof i" "circ_queue c = []" "\<not> circ_tx_closed c" "\<not> circ_rx_closed c"
  shows "\<exists>q c1. iroh_try_read tr k d c = Some (Inl (CDrained q), c1) \<and> \<not> reader_eof c1"
proof -
  note r = assms(1) [unfolded reader_ok_def reading_def]
  let ?P = "\<lambda>i. broken (si_stream i) \<and> \<not> si_eof i"
  have idle: "answers_nothing (stream_input_read tr) ?P"
    unfolding answers_nothing_def
  proof (intro allI impI)
    fix i :: "('b, 'a) stream_input" and n
    assume i: "?P i"
    then obtain e s' where "tr (si_stream i) n = (Some (Inl e), s')" "broken s'"
      using assms(3) unfolding tokio_broken_def by blast
    then show "\<exists>x i'. stream_input_read tr i n = (Some x, i') \<and> items_of (Some x) = [] \<and> ?P i'"
      using i by (auto simp: stream_input_read_def read_as_input_def items_of_def)
  qed
  have "circ_data c = 0"
    using arg_cong [OF assms(6), of length] by simp
  then have stop: "\<not> can_stop_read c d"
    using assms(7,8) by (auto simp: can_stop_read_iff circ_data_def unat_eq_zero)
  have ok: "circ_ok c" "4 \<le> k" "consumer_passive (ccons c)" "idle_producer ?P c"
    using r assms(2,4,5) by (auto simp: streams_def idle_producer_def)
  obtain q c1 where c1: "circ_try_read (stream_input_read tr) no_output k d c = Some (Inl (CDrained q), c1)"
    "idle_kept ?P 0 c c1"
    by (rule idle_try [where Q = "\<lambda>i. True" and w = 0 and wr = no_output, OF ok(1,4) idle stop ok(2) TrueI ok(3)])
  then have "\<not> reader_eof c1"
    by (auto simp: idle_kept_def idle_producer_def reader_eof_def split: producer.splits)
  then show ?thesis
    using c1(1) by (simp add: iroh_try_read_def)
qed

end
