(* ===== verification/Iroh_Writer.thy ===== *)
theory Iroh_Writer
  imports Iroh_Stream
begin

text \<open>
  The writing half of a buffered QUIC stream (\<open>crates/buffex_iroh/src/writer.rs\<close>): the producer half of a circular
  buffer before the device of \<open>Iroh_Stream\<close>, and the close that takes the stream back and finishes it.
\<close>

section \<open>The writer\<close>

type_synonym ('e, 's) iroh_writer = "(u8, unit, ('e, 's) stream_output) circ"

definition iroh_writer_try_new ::
    "('e, 's) tokio_writer \<Rightarrow> nat \<Rightarrow> 's \<Rightarrow> usize \<Rightarrow> (usize, ('e, 's) iroh_writer) rust_result option" where
  "iroh_writer_try_new tw k s cap =
     (case with_capacity cap of
        Inl e \<Rightarrow> Some (Inl cap)
      | Inr b \<Rightarrow>
          (case essential_build no_input (stream_output_write tw) k
                  (ps_pipe_into_output (stream_output_new s) (bb_producer_passive b)) of
             Some (Inr (OnlyProducer c), _) \<Rightarrow> Some (Inr c)
           | Some (Inl e, _) \<Rightarrow> Some (Inl cap)
           | _ \<Rightarrow> None))"

definition iroh_try_write ::
    "('e, 's) tokio_writer \<Rightarrow> nat \<Rightarrow> usize demand \<Rightarrow> ('e, 's) iroh_writer
     \<Rightarrow> ((producer_error, recl) rust_result \<times> ('e, 's) iroh_writer) option" where
  "iroh_try_write tw k d c = circ_try_write no_input (stream_output_write tw) k d c"

definition iroh_write_poll ::
    "('e, 's) tokio_writer \<Rightarrow> nat \<Rightarrow> wid \<Rightarrow> usize demand \<Rightarrow> nat \<Rightarrow> bool \<times> waker
     \<Rightarrow> half_at \<times> ('e, 's) iroh_writer
     \<Rightarrow> ((producer_error, recl) rust_result poll \<times> half_at \<times> ('e, 's) iroh_writer) option" where
  "iroh_write_poll tw k w d f = core_write_poll no_input (stream_output_write tw) k w d f"

definition iroh_drop_write ::
    "('e, 's) tokio_writer \<Rightarrow> nat \<Rightarrow> wid \<Rightarrow> half_at \<Rightarrow> ('e, 's) iroh_writer \<Rightarrow> ('e, 's) iroh_writer option" where
  "iroh_drop_write tw k w = drop_write_future no_input (stream_output_write tw) k w"

definition iroh_is_stuffed_closing :: "('e, 's) iroh_writer \<Rightarrow> bool" where
  "iroh_is_stuffed_closing c = circ_is_stuffed_closing c"

definition writer_take_error ::
    "('e, 's) iroh_writer \<Rightarrow> ('e \<times> write_err_tag) option \<times> ('e, 's) iroh_writer" where
  "writer_take_error c =
     (case ccons c of
        BufConsumer dm w \<Rightarrow> (None, c)
      | DevConsumer p w \<Rightarrow> (so_err p, c\<lparr>ccons := DevConsumer (p\<lparr>so_err := None\<rparr>) w\<rparr>))"

text \<open>
  \<open>close_async\<close>: the close of the producer, poll by poll, and then the stream is taken and finished (\<open>fin\<close>); the
  answer is whether there was a stream. Dropping the writer does the same.
\<close>

definition take_stream :: "('e, 's) iroh_writer \<Rightarrow> 's option \<times> ('e, 's) iroh_writer" where
  "take_stream c =
     (case ccons c of
        BufConsumer dm w \<Rightarrow> (None, c)
      | DevConsumer p w \<Rightarrow> (so_stream p, c\<lparr>ccons := DevConsumer (p\<lparr>so_stream := None\<rparr>) w\<rparr>))"

fun close_done ::
    "('s \<Rightarrow> 's) \<Rightarrow> unit poll \<times> close_at \<times> ('e, 's) iroh_writer
     \<Rightarrow> (bool \<times> 's option) poll \<times> close_at \<times> ('e, 's) iroh_writer" where
  "close_done fin (Pending, st, c) = (Pending, st, c)"
| "close_done fin (Unreachable, st, c) = (Unreachable, st, c)"
| "close_done fin (Ready u, st, c) =
     (case take_stream c of
        (None, c') \<Rightarrow> (Ready (False, None), st, c')
      | (Some s, c') \<Rightarrow> (Ready (True, Some (fin s)), st, c'))"

definition iroh_close_poll ::
    "('e, 's) tokio_writer \<Rightarrow> ('s \<Rightarrow> 's) \<Rightarrow> nat \<Rightarrow> nat \<Rightarrow> bool \<times> waker \<Rightarrow> close_at \<times> ('e, 's) iroh_writer
     \<Rightarrow> ((bool \<times> 's option) poll \<times> close_at \<times> ('e, 's) iroh_writer) option" where
  "iroh_close_poll tw fin k f x s =
     map_option (close_done fin) (close_tx_poll no_input (stream_output_write tw) k f x s)"

section \<open>Sessions of a writer\<close>

datatype writer_op =
    TryWrite "usize demand" "u8 list"
  | AwaitWrite "(bool \<times> waker) list" "usize demand" "u8 list"
  | TakeWriteError

type_synonym ('e, 's) writer_run = "('e, 's) iroh_writer \<times> u8 list"

definition fill_lent ::
    "('e, 's) tokio_writer \<Rightarrow> nat \<Rightarrow> u8 list \<Rightarrow> recl \<Rightarrow> ('e, 's) writer_run \<Rightarrow> ('e, 's) writer_run option" where
  "fill_lent tw k xs g x =
     (let (c, snt) = x; (m, g', j) = recl_move_items_from_buff (cbuf c) g (map Some xs)
      in map_option (\<lambda>c2. (c2, snt @ take j xs))
           (circ_drop_write no_input (stream_output_write tw) k g' (c\<lparr>cbuf := m\<rparr>)))"

fun writer_do ::
    "('e, 's) tokio_writer \<Rightarrow> nat \<Rightarrow> nat \<Rightarrow> wid \<Rightarrow> writer_op \<Rightarrow> ('e, 's) writer_run \<Rightarrow> ('e, 's) writer_run option" where
  "writer_do tw k f w (TryWrite d xs) (c, snt) =
     (case iroh_try_write tw k d c of
        None \<Rightarrow> None
      | Some (Inl e, c1) \<Rightarrow> Some (c1, snt)
      | Some (Inr g, c1) \<Rightarrow> fill_lent tw k xs g (c1, snt))"
| "writer_do tw k f w (AwaitWrite polls d xs) (c, snt) =
     (case run_polls (iroh_write_poll tw k w d f) polls (HalfTop, c) of
        None \<Rightarrow> None
      | Some (Pending, st, c1) \<Rightarrow> map_option (\<lambda>c2. (c2, snt)) (iroh_drop_write tw k w st c1)
      | Some (Ready (Inl e), st, c1) \<Rightarrow> Some (c1, snt)
      | Some (Ready (Inr g), st, c1) \<Rightarrow> fill_lent tw k xs g (c1, snt)
      | Some (Unreachable, st, c1) \<Rightarrow> None)"
| "writer_do tw k f w TakeWriteError (c, snt) = Some (snd (writer_take_error c), snt)"

fun writer_session ::
    "('e, 's) tokio_writer \<Rightarrow> nat \<Rightarrow> nat \<Rightarrow> wid \<Rightarrow> writer_op list \<Rightarrow> ('e, 's) writer_run \<Rightarrow> ('e, 's) writer_run option" where
  "writer_session tw k f w [] x = Some x"
| "writer_session tw k f w (a # as) x = Option.bind (writer_do tw k f w a x) (writer_session tw k f w as)"

section \<open>What the device promises\<close>

text \<open>What the stream has got; a stream that was taken back counts as a cell that no user has written.\<close>

definition writer_taken :: "('s \<Rightarrow> u8 option list) \<Rightarrow> ('e, 's) stream_output \<Rightarrow> u8 option list" where
  "writer_taken wrote p = (case so_stream p of None \<Rightarrow> [None] | Some s \<Rightarrow> wrote s)"

definition writer_failed :: "('s \<Rightarrow> bool) \<Rightarrow> ('e, 's) stream_output \<Rightarrow> bool" where
  "writer_failed refused p =
     (so_err p \<noteq> None \<or> (case so_stream p of None \<Rightarrow> True | Some s \<Rightarrow> refused s))"

lemma stream_output_write_cases:
  assumes "stream_output_write tw p cs = (x, q)"
  obtains (gone) "so_stream p = None" "q = p" "count_of x = 0" "x \<noteq> None"
  | (waits) s s' where "so_stream p = Some s" "tw s cs = (None, s')" "x = None" "q = p\<lparr>so_stream := Some s'\<rparr>"
  | (took) s s' n where "so_stream p = Some s" "tw s cs = (Some (Inr n), s')" "x = Some (OfLeft n)" "q = p\<lparr>so_stream := Some s'\<rparr>"
  | (fails) s s' e where "so_stream p = Some s" "tw s cs = (Some (Inl e), s')" "x = Some (OfLeft 0)"
      "q = p\<lparr>so_stream := Some s', so_err := Some (e, WPropagated)\<rparr>"
proof (cases "so_stream p")
  case None
  then have "x = Some (OfRight (OtherError ''Stream missing'', WUnknown))" "q = p"
    using assms by (simp_all add: stream_output_write_def)
  then show thesis
    by (intro gone) (simp_all add: None count_of_def)
next
  case (Some s)
  obtain y s' where y: "tw s cs = (y, s')"
    by fastforce
  note step = assms [unfolded stream_output_write_def Some option.case write_as_output_def y prod.case]
  show thesis
  proof (cases y)
    case None
    then show thesis
      using step y by (intro waits [OF Some]) auto
  next
    case (Some z)
    then show thesis
    proof (cases z)
      case (Inl e)
      then show thesis
        using step y Some by (intro fails [OF \<open>so_stream p = Some s\<close>]) auto
    next
      case (Inr n)
      then show thesis
        using step y Some by (intro took [OF \<open>so_stream p = Some s\<close>]) auto
    qed
  qed
qed

lemma stream_output_write_ok:
  assumes "tokio_write_ok tw wrote"
  shows "output_ok (stream_output_write tw) (writer_taken wrote)"
  unfolding output_ok_def
proof (intro allI)
  fix p :: "('b, 'a) stream_output" and cs
  obtain x q where r: "stream_output_write tw p cs = (x, q)"
    by fastforce
  have "count_of x \<le> length cs \<and> writer_taken wrote q = writer_taken wrote p @ take (count_of x) cs"
    using r by (cases rule: stream_output_write_cases)
      (use tokio_writeD [OF assms] in \<open>auto simp: writer_taken_def count_of_def\<close>)
  then show "let (x, q) = stream_output_write tw p cs
      in count_of x \<le> length cs \<and> writer_taken wrote q = writer_taken wrote p @ take (count_of x) cs"
    using r by simp
qed

lemma stream_output_takes:
  assumes "tokio_refusals tw refused"
  shows "output_takes (stream_output_write tw) (writer_failed refused)"
proof -
  note keeps = assms [unfolded tokio_refusals_def, rule_format]
  have "(writer_failed refused p \<longrightarrow> writer_failed refused q)
      \<and> (cs \<noteq> [] \<longrightarrow> x \<noteq> None \<longrightarrow> count_of x = 0 \<longrightarrow> writer_failed refused q)"
    if r: "stream_output_write tw p cs = (x, q)" for p :: "('b, 'a) stream_output" and cs x q
    using r
    by (cases rule: stream_output_write_cases) (auto simp: writer_failed_def count_of_def dest: keeps)
  then show ?thesis
    by (simp add: output_takes_def)
qed

section \<open>What a session keeps\<close>

definition writer_ok ::
    "('e, 's) tokio_writer \<Rightarrow> nat \<Rightarrow> ('s \<Rightarrow> u8 option list) \<Rightarrow> u8 list \<Rightarrow> wid \<Rightarrow> nat \<Rightarrow> ('e, 's) iroh_writer \<Rightarrow> bool" where
  "writer_ok tw k wrote snt w L c = writing (stream_output_write tw) k (\<lambda>_. []) (writer_taken wrote) snt w L None c"

lemma writer_started:
  assumes "tokio_write_ok tw wrote" "wrote s = []" "MIN_CAPACITY \<le> cap" "cap \<le> CIRC_MAX_CAPACITY" "unat cap + 5 \<le> k"
  obtains c where "iroh_writer_try_new tw k s cap = Some (Inr c)" "writer_ok tw k wrote [] w (unat cap) c"
proof -
  obtain b :: "u8 buff_builder" where b: "with_capacity cap = Inr b"
    using assms(3,4) by (simp add: capacity_checked)
  have chain: "producer_first None (Some (stream_output_new s)) b = ps_pipe_into_output (stream_output_new s) (bb_producer_passive b)"
    by (simp add: producer_first_def)
  have "input_ok no_input (\<lambda>_. [])"
    by (simp add: input_ok_def no_input_def items_of_def)
  then obtain c es where c: "essential_build no_input (stream_output_write tw) k
      (ps_pipe_into_output (stream_output_new s) (bb_producer_passive b)) = Some (Inr (OnlyProducer c), es)"
    "core_started (\<lambda>_. []) (writer_taken wrote) (unat cap) c"
    using build_starts [OF b, of None "\<lambda>_. []" "Some (stream_output_new s)" "writer_taken wrote" no_input "stream_output_write tw" k]
      stream_output_write_ok [OF assms(1)] assms(2,5) unfolding chain
    by (auto simp: stream_output_new_def writer_taken_def)
  have "writer_ok tw k wrote [] w (unat cap) c"
    using c(2) only_consumer(2) [OF c(1)] stream_output_write_ok [OF assms(1)] assms(5)
    by (simp add: writer_ok_def writing_def core_started_def)
  then show thesis
    using that [of c] b c by (simp add: iroh_writer_try_new_def)
qed

lemma writer_fills:
  assumes "writer_ok tw k wrote snt w L c" "L + 5 \<le> k" "write_answer d (Inr g) c"
  shows "\<exists>c2 n. fill_lent tw k xs g (c, snt) = Some (c2, snt @ take n xs) \<and> writer_ok tw k wrote (snt @ take n xs) w L c2"
proof -
  note r = assms(1) [unfolded writer_ok_def writing_def]
  obtain st tk where g: "circ_try_write_at c d = Inr (st, tk)" "g = create_write_segm c st tk"
    using assms(3) by (auto simp: write_answer_def)
  obtain m g' j where mv: "recl_move_items_from_buff (cbuf c) g (map Some xs) = (m, g', j)"
    by (metis surj_pair)
  have pre: "streams (\<lambda>_. []) (writer_taken wrote) snt [] c" "producer_passive (cprod c)"
    "output_ok (stream_output_write tw) (writer_taken wrote)" "length (cbuf c) + 5 \<le> k"
    using r assms(2) by simp_all
  obtain c2 where c2: "circ_drop_write no_input (stream_output_write tw) k g' (c\<lparr>cbuf := m\<rparr>) = Some c2"
    "streams (\<lambda>_. []) (writer_taken wrote) (snt @ take j xs) [] c2" "same_modes c c2"
    by (rule lent_filled [OF pre write_at_lends(2) [OF g(1)] mv [unfolded g(2) write_at_lends(1) [OF g(1)]]])
  have "end_kept w (c\<lparr>cbuf := m\<rparr>) c2"
    using drops_kept(2) [of _ _ k _ "c\<lparr>cbuf := m\<rparr>" c2 w] c2(1) r by (simp add: circ_drop_write_def)
  then have "writer_ok tw k wrote (snt @ take j xs) w L c2"
    using r c2(2,3) by (simp add: writer_ok_def writing_def end_kept_def same_modes_def slots_free_def)
  then show ?thesis
    using mv c2(1) by (auto simp: fill_lent_def)
qed

lemma writer_error_taken:
  assumes "writer_ok tw k wrote snt w L c"
  shows "writer_ok tw k wrote snt w L (snd (writer_take_error c))"
proof (cases "ccons c")
  case (DevConsumer p v)
  let ?c = "c\<lparr>ccons := DevConsumer (p\<lparr>so_err := None\<rparr>) v\<rparr>"
  have "writer_taken wrote (p\<lparr>so_err := None\<rparr>) = writer_taken wrote p"
    by (simp add: writer_taken_def)
  then have "streams (\<lambda>_. []) (writer_taken wrote) snt [] ?c = streams (\<lambda>_. []) (writer_taken wrote) snt [] c"
    using circ_cong [of ?c c] DevConsumer by (simp add: streams_def in_stream_def out_stream_def)
  then show ?thesis
    using assms DevConsumer by (simp add: writer_take_error_def writer_ok_def writing_def slots_free_def)
qed (use assms in \<open>simp add: writer_take_error_def\<close>)

lemma writer_do_ok:
  assumes "writer_ok tw k wrote snt w L c" "L + 5 \<le> k" "3 * L + 6 \<le> f"
  shows "\<exists>c2 xs. writer_do tw k f w a (c, snt) = Some (c2, snt @ xs) \<and> writer_ok tw k wrote (snt @ xs) w L c2"
proof (cases a)
  case (TryWrite d xs)
  obtain r c1 where t: "iroh_try_write tw k d c = Some (r, c1)" "writer_ok tw k wrote snt w L c1"
    "if (case r of Inl e \<Rightarrow> write_should_terminate (producer_err_tag e) | Inr g \<Rightarrow> True) then write_answer d r c1
     else \<not> can_stop_write c d"
    using write_attempt [OF assms(1) [unfolded writer_ok_def], of no_input d] unfolding writer_ok_def iroh_try_write_def by blast
  show ?thesis
  proof (cases r)
    case (Inl e)
    then show ?thesis
      using t(1,2) TryWrite by (auto intro: exI [of _ "[]"])
  next
    case (Inr g)
    then show ?thesis
      using TryWrite t(1,3) writer_fills [OF t(2) assms(2), of d g xs] by auto
  qed
next
  case (AwaitWrite polls d xs)
  obtain r st c1 where p: "run_polls (iroh_write_poll tw k w d f) polls (HalfTop, c) = Some (r, st, c1)"
    and out: "case r of
        Pending \<Rightarrow> \<exists>c2. iroh_drop_write tw k w st c1 = Some c2 \<and> writer_ok tw k wrote snt w L c2
      | Unreachable \<Rightarrow> False
      | Ready y \<Rightarrow> writer_ok tw k wrote snt w L c1 \<and> write_answer d y c1"
    using write_polls [OF assms(1) [unfolded writer_ok_def] assms(3), of no_input d polls]
    unfolding iroh_write_poll_def iroh_drop_write_def writer_ok_def by blast
  show ?thesis
  proof (cases r)
    case Pending
    then show ?thesis
      using AwaitWrite p out by (auto intro: exI [of _ "[]"])
  next
    case (Ready y)
    show ?thesis
    proof (cases y)
      case (Inl e)
      then show ?thesis
        using AwaitWrite p out Ready by (auto intro: exI [of _ "[]"])
    next
      case (Inr g)
      then show ?thesis
        using AwaitWrite p out Ready writer_fills [of tw k wrote snt w L c1 d g xs] assms(2) by auto
    qed
  next
    case Unreachable
    then show ?thesis
      using out by simp
  qed
next
  case TakeWriteError
  then show ?thesis
    using writer_error_taken [OF assms(1)] by (auto intro: exI [of _ "[]"])
qed

lemma writer_session_ok:
  assumes "writer_ok tw k wrote snt w L c" "L + 5 \<le> k" "3 * L + 6 \<le> f"
  shows "\<exists>c2 xs. writer_session tw k f w as (c, snt) = Some (c2, snt @ xs) \<and> writer_ok tw k wrote (snt @ xs) w L c2"
  using assms(1)
proof (induction as arbitrary: c snt)
  case (Cons a as)
  obtain c1 xs where d: "writer_do tw k f w a (c, snt) = Some (c1, snt @ xs)" "writer_ok tw k wrote (snt @ xs) w L c1"
    using writer_do_ok [OF Cons.prems assms(2,3)] by blast
  obtain c2 ys where "writer_session tw k f w as (c1, snt @ xs) = Some (c2, (snt @ xs) @ ys)"
    "writer_ok tw k wrote ((snt @ xs) @ ys) w L c2"
    using Cons.IH [OF d(2)] by blast
  then show ?case
    using d(1) by (intro exI [of _ c2] exI [of _ "xs @ ys"]) simp
qed (auto intro: exI [of _ "[]"])

section \<open>The close\<close>

lemma close_done_pending: "fst (close_done fin x) = Pending \<longleftrightarrow> fst x = Pending" "fst x = Pending \<Longrightarrow> snd (close_done fin x) = snd x"
  by (cases "(fin, x)" rule: close_done.cases; auto split: prod.split option.split)+

lemma run_polls_close:
  "run_polls (iroh_close_poll tw fin k f) polls s
     = map_option (close_done fin) (run_polls (close_tx_poll no_input (stream_output_write tw) k f) polls s)"
proof (induction polls arbitrary: s)
  case Nil
  then show ?case
    by (cases s) simp
next
  case (Cons x polls)
  show ?case
  proof (cases "close_tx_poll no_input (stream_output_write tw) k f x s")
    case None
    then show ?thesis
      by (simp add: iroh_close_poll_def)
  next
    case (Some y)
    then show ?thesis
      using Cons.IH [of "snd y"] close_done_pending [where fin = fin and x = y]
      by (cases y; cases "close_done fin y") (auto simp: iroh_close_poll_def)
  qed
qed

text \<open>Of a stream whose device still has it, what is in the stream is what the user sent without what is buffered.\<close>

lemma writer_stream:
  assumes "streams (\<lambda>_. []) (writer_taken wrote) snt [] c" "producer_passive (cprod c)" "\<not> consumer_passive (ccons c)"
  obtains p v s where "ccons c = DevConsumer p v" "so_stream p = Some s" "map Some snt = wrote s @ circ_queue c"
    "out_stream (writer_taken wrote) [] c = wrote s"
proof -
  obtain p v where p: "ccons c = DevConsumer p v"
    using assms(3) by (cases "ccons c") auto
  have eq: "map Some snt = writer_taken wrote p @ circ_queue c"
    using assms(1,2) p by (cases "cprod c") (simp_all add: streams_def in_stream_def out_stream_def)
  have "so_stream p \<noteq> None"
  proof
    assume "so_stream p = None"
    then have "None \<in> set (map Some snt)"
      using eq by (simp add: writer_taken_def)
    then show False
      by simp
  qed
  then obtain s where "so_stream p = Some s"
    by blast
  then show thesis
    using that p eq by (simp add: writer_taken_def out_stream_def)
qed

text \<open>
  C38: A writer delivers what it is given. Over any stream that keeps what tokio documents, the writer is built, every
  session with it runs to its end, and so does every poll of the close behind it. When the close is done it has taken
  the stream back and finished it, and the stream has got nothing but the front of what the user wrote, in
  order; it has got all of it, unless the close was cancelled, the device remembers an error, or the stream
  has answered a non-empty write with zero bytes, as tokio lets one that can take no more do.
\<close>

theorem iroh_writer_delivers:
  assumes "tokio_write_ok tw wrote" "tokio_refusals tw refused" "wrote s = []" "MIN_CAPACITY \<le> cap" "cap \<le> CIRC_MAX_CAPACITY"
    "unat cap + 5 \<le> k" "3 * unat cap + 6 \<le> f"
  shows "\<exists>c0 c snt r st c'. iroh_writer_try_new tw k s cap = Some (Inr c0)
    \<and> writer_session tw k f w as (c0, []) = Some (c, snt)
    \<and> run_polls (iroh_close_poll tw fin k f) polls (CloseStart, c) = Some (r, st, c')
    \<and> (case r of
         Pending \<Rightarrow> True
       | Unreachable \<Rightarrow> False
       | Ready (done, s') \<Rightarrow> done \<and> (\<exists>s1 rest. s' = Some (fin s1) \<and> map Some snt = wrote s1 @ rest
           \<and> (True \<notin> fst ` set polls \<and> fst (writer_take_error c') = None \<and> \<not> refused s1 \<longrightarrow> rest = [])))"
proof -
  obtain c0 where c0: "iroh_writer_try_new tw k s cap = Some (Inr c0)" "writer_ok tw k wrote [] w (unat cap) c0"
    by (rule writer_started [where w = w, OF assms(1,3-6)])
  obtain c snt where c: "writer_session tw k f w as (c0, []) = Some (c, snt)" "writer_ok tw k wrote snt w (unat cap) c"
    using writer_session_ok [OF c0(2) assms(6,7), of as] by auto
  note wk = c(2) [unfolded writer_ok_def writing_def]
  have pre: "streams (\<lambda>_. []) (writer_taken wrote) snt [] c" "producer_passive (cprod c)" "\<not> consumer_passive (ccons c)"
    "output_ok (stream_output_write tw) (writer_taken wrote)" "length (cbuf c) + 4 \<le> k" "2 * length (cbuf c) + 4 \<le> f"
    using wk assms(7) by simp_all
  obtain r st c' where cl: "run_polls (close_tx_poll no_input (stream_output_write tw) k f) polls (CloseStart, c) = Some (r, st, c')"
    and out: "case r of
         Pending \<Rightarrow> \<exists>c2. drop_close_future no_input (stream_output_write tw) k st c' = Some c2
           \<and> streams (\<lambda>_. []) (writer_taken wrote) snt [] c2
       | Unreachable \<Rightarrow> False
       | Ready u \<Rightarrow> streams (\<lambda>_. []) (writer_taken wrote) snt [] c' \<and> circ_tx_closed c'
           \<and> producer_passive (cprod c') \<and> \<not> consumer_passive (ccons c')
           \<and> (output_takes (stream_output_write tw) (writer_failed refused) \<and> True \<notin> fst ` set polls \<longrightarrow>
               out_stream (writer_taken wrote) [] c' = map Some snt \<or> consumer_failed (writer_failed refused) c')"
    using async_close_drains [OF pre, of no_input polls "writer_failed refused"] by blast
  note close = run_polls_close [of tw fin k f polls "(CloseStart, c)", unfolded cl option.map]
  show ?thesis
  proof (cases r)
    case (Ready u)
    then have e: "streams (\<lambda>_. []) (writer_taken wrote) snt [] c'" "producer_passive (cprod c')" "\<not> consumer_passive (ccons c')"
      and all: "True \<notin> fst ` set polls \<longrightarrow> out_stream (writer_taken wrote) [] c' = map Some snt \<or> consumer_failed (writer_failed refused) c'"
      using out stream_output_takes [OF assms(2)] by simp_all
    obtain p v s1 where p: "ccons c' = DevConsumer p v" "so_stream p = Some s1" "map Some snt = wrote s1 @ circ_queue c'"
      "out_stream (writer_taken wrote) [] c' = wrote s1"
      by (rule writer_stream [OF e])
    define c2 where "c2 = c'\<lparr>ccons := DevConsumer (p\<lparr>so_stream := None\<rparr>) v\<rparr>"
    have "close_done fin (r, st, c') = (Ready (True, Some (fin s1)), st, c2)"
      using p(1,2) by (simp add: Ready take_stream_def c2_def)
    then have closed: "run_polls (iroh_close_poll tw fin k f) polls (CloseStart, c) = Some (Ready (True, Some (fin s1)), st, c2)"
      by (simp only: close)
    have left: "circ_queue c' = []" if "True \<notin> fst ` set polls" "fst (writer_take_error c2) = None" "\<not> refused s1"
      using all that p by (auto simp: c2_def writer_take_error_def consumer_failed_def writer_failed_def)
    have "\<exists>s2 rest. Some (fin s1) = Some (fin s2) \<and> map Some snt = wrote s2 @ rest
        \<and> (True \<notin> fst ` set polls \<and> fst (writer_take_error c2) = None \<and> \<not> refused s2 \<longrightarrow> rest = [])"
      by (intro exI [of _ s1] exI [of _ "circ_queue c'"] conjI refl p(3) impI) (elim conjE, rule left)
    then show ?thesis
      using c0(1) c(1) closed
      by (intro exI [of _ c0] exI [of _ c] exI [of _ snt] exI [of _ "Ready (True, Some (fin s1))"] exI [of _ st] exI [of _ c2])
        (simp only: poll.case prod.case simp_thms)
  next
    case Pending
    then have "run_polls (iroh_close_poll tw fin k f) polls (CloseStart, c) = Some (Pending, st, c')"
      by (simp only: close close_done.simps)
    then show ?thesis
      using c0(1) c(1)
      by (intro exI [of _ c0] exI [of _ c] exI [of _ snt] exI [of _ Pending] exI [of _ st] exI [of _ c'])
        (simp only: poll.case simp_thms)
  next
    case Unreachable
    then show ?thesis
      using out by (simp only: poll.case)
  qed
qed

text \<open>A stream that accepts everything, with what it has got as its state.\<close>

definition tokio_sink :: "(unit, u8 option list) tokio_writer" where
  "tokio_sink s cs = (Some (Inr (length cs)), s @ cs)"

lemma tokio_sink_ok: "tokio_write_ok tokio_sink (\<lambda>s. s)" "tokio_refusals tokio_sink (\<lambda>_. False)"
  by (simp_all add: tokio_write_ok_def tokio_refusals_def tokio_sink_def)

theorem iroh_writer_delivers_witness:
  "\<exists>c0 c snt r st c'. iroh_writer_try_new tokio_sink 7 [] 2 = Some (Inr c0)
    \<and> writer_session tokio_sink 7 12 4 [AwaitWrite [(False, 9)] (AtLeast 1) [5, 6], TryWrite (AtLeast 1) [7]] (c0, []) = Some (c, snt)
    \<and> run_polls (iroh_close_poll tokio_sink (\<lambda>s. s) 7 12) [(False, 9)] (CloseStart, c) = Some (r, st, c') \<and> r \<noteq> Unreachable"
proof -
  have small: "unat (2 :: usize) + 5 \<le> 7" "3 * unat (2 :: usize) + 6 \<le> 12"
    by simp_all
  note d = iroh_writer_delivers [OF tokio_sink_ok refl small_capacity small, of 4
      "[AwaitWrite [(False, 9)] (AtLeast 1) [5, 6], TryWrite (AtLeast 1) [7]]" "\<lambda>s. s" "[(False, 9)]"]
  show ?thesis
    by (rule ex_forward [OF d], elim ex_forward conj_forward) (assumption | force)+
qed

text \<open>
  That exception is real: a stream that answers every write with zero bytes loses all that was written, and the close is
  done, finishes it and leaves no error to be asked for.
\<close>

definition tokio_full :: "(unit, u8 option list) tokio_writer" where
  "tokio_full s cs = (Some (Inr 0), s)"

lemma refused_write_lost:
  "case Option.bind (iroh_writer_try_new tokio_full 7 [] 2) (\<lambda>x. case x of Inl e \<Rightarrow> None
       | Inr c \<Rightarrow> Option.bind (writer_session tokio_full 7 12 4 [TryWrite (AtLeast 1) [7]] (c, []))
           (\<lambda>(c, snt). map_option (Pair snt) (iroh_close_poll tokio_full (\<lambda>s. s) 7 12 (False, 9) (CloseStart, c)))) of
     Some (snt, Ready (b, Some s), st, c) \<Rightarrow> b \<and> snt = [7] \<and> s = [] \<and> fst (writer_take_error c) = None
   | _ \<Rightarrow> False"
  by code_simp

end
