(* ===== verification/Spec2Isabelle.thy ===== *)
theory Spec2Isabelle
  imports Rw_Wait Atomex_Fetch Circ_Relay Ring_Half Ring_Parking Hs_Half Spin_Mutex Cancel_Src Multipart_Circ Pipe_Join Mem_Vfs Circ_Async_End Circ_Close Circ_Build Slice_Buff Std_Adapt Iroh_Writer
begin

text \<open>
  Verification of the core of \<open>cantare-rs\<close>, a collection of \<open>no_std\<close> Rust crates for moving data
  between asynchronous parties: synchronisation by atomic words (\<open>atomex\<close>, \<open>atomic_sync\<close>,
  \<open>cancel_src\<close>), the buffer interfaces (\<open>abs_buff\<close>), lock-free single-producer single-consumer
  buffers (\<open>buffex\<close>), protocols over those interfaces (\<open>abs_buff_utils\<close>, \<open>smux_v1\<close>) and an
  in-memory file tree (\<open>mem_vfs\<close>). All paths below are under \<open>src/crates\<close>.

  \<^bold>\<open>How the parts fit together.\<close> Every shared state of the program is one machine word that is updated
  by a compare-exchange loop. \<open>Atomic_Flags\<close> models that loop with contention and spurious failures
  and shows that it returns and acts like one atomic update; everything above models an update as
  one step. A buffer lends regions of its cells as segments (\<open>Segm\<close>, \<open>Ring_Segm\<close>), of an amount that is
  a \<open>Demand\<close>; dropping a segment commits what was moved. The two buffers of \<open>buffex\<close> are such words
  with cells, waker slots and closed flags. Generic code (the multipart framing, the pipe) sees a
  buffer's halves only through the traits of \<open>abs_buff\<close>, here \<open>Io_Half\<close>; the handshake reads and
  writes frames through the same traits.

  \<^bold>\<open>Where what is.\<close>
  \<^item> \<open>Cantare_Prelude\<close>: widths, the result type of computations that may panic (\<open>run\<close>), Rust's
    \<open>Result\<close>, and the lemmas on words, masks, positions modulo a capacity and memory that the
    components share. \<open>Be_Bytes\<close>: \<open>to_be_bytes\<close>.
  \<^item> \<open>Demand\<close> (\<open>abs_buff/src/demand_.rs\<close>, and the part of \<open>buffer/segm_.rs\<close> that cuts a child by a
    demand); \<open>Err_Tags\<close> (\<open>abs_buff/src/error.rs\<close> and the error types of both buffers).
  \<^item> \<open>Segm\<close>, \<open>Segm_Io\<close> (\<open>abs_buff/src/buffer/segm_.rs\<close>): borrowed segments over a memory of possibly
    uninitialised cells, and the moves between a segment and a device, poll by poll.
    \<open>Segm_Between\<close>: the moves from one segment straight into another, wrapped or not.
  \<^item> \<open>Atomic_Flags\<close>, \<open>Atomex\<close>, \<open>Atomex_Fetch\<close> (\<open>atomex\<close>: the compare-exchange loop, pointers and counters, the
    fetch operations of the cells), \<open>Rw_Lock\<close> and
    \<open>Rw_Wait\<close> (\<open>atomic_sync/src/rwlock/preemptive\<close>: the word and its guards, the waits for them),
    \<open>Spin_Mutex\<close> (\<open>atomic_sync/src/mutex\<close>, \<open>cancel_src/src/spin_mutex.rs\<close>).
  \<^item> The ring buffer (\<open>buffex/src/ring_buffer\<close>): \<open>Ring_State\<close> the packed word, \<open>Ring_Segm\<close> the
    two-piece segments, \<open>Ring_Buffer\<close> the operations of \<open>RingCore\<close> and its halves, \<open>Ring_Fifo\<close> the
    ring as a queue, \<open>Ring_Spsc\<close> the interleavings of its two sides, \<open>Ring_Futures\<close> the futures poll
    by poll under interference, \<open>Ring_Parking\<close> the parking protocol load by load, \<open>Ring_Half\<close> the halves as
    sources and targets of generic code, with pipes and frames over them (\<open>Half_Segm\<close>: what a lent region of
    either buffer is to such code).
  \<^item> The circular buffer (\<open>buffex/src/circular_buff\<close>): \<open>Circ_State\<close> the packed word, \<open>Circ_Core\<close> the
    operations with passive and active ends and their pumps, \<open>Circ_Fifo\<close> and \<open>Circ_Stream\<close> the
    buffer as a stream, \<open>Circ_Park\<close> the waits of the halves poll by poll, \<open>Circ_Wake\<close> who wakes them,
    \<open>Circ_Half\<close> the halves as sources and targets of generic code, \<open>Circ_Pipeline\<close> the future of a
    pipeline between two devices, \<open>Circ_Pump\<close> the asynchronous pumps of an active end, \<open>Circ_Async\<close>,
    \<open>Circ_Async_Write\<close> and \<open>Circ_Async_End\<close> the waits of a passive end beside an active one, \<open>Circ_Close\<close>
    the asynchronous close, \<open>Circ_Build\<close> the builder and the start-up of the ends (\<open>builder.rs\<close>), \<open>Circ_Relay\<close>
    two buffers in a row, with a client that moves items from region to region.
  \<^item> \<open>Io_Half\<close> (\<open>abs_buff/src/reader_.rs\<close>, \<open>writer_.rs\<close>, \<open>buffer/state_.rs\<close>), \<open>Pipe_Join\<close>
    (\<open>pipelining/join.rs\<close>), \<open>Slice_Buff\<close> (\<open>slice_impl_.rs\<close>), \<open>Multipart\<close> and \<open>Multipart_Circ\<close> (\<open>abs_buff_utils/src/multipart\<close>).
  \<^item> Adapters: \<open>Std_Adapt\<close> (\<open>abs_buff_stdio_adapt\<close>) the halves as std readers and writers, \<open>Tokio_Adapt\<close>
    (\<open>abs_buff_tokio_adapt\<close>) tokio streams as devices, \<open>Iroh_Stream\<close> and \<open>Iroh_Writer\<close> (\<open>buffex_iroh\<close>) the buffered
    reader and writer built from a device and the circular buffer, over whole sessions.
  \<^item> The handshake (\<open>smux_v1/src/handshake\<close>): \<open>Hs_Opts\<close> options and entries, \<open>Hs_Codec\<close> the frame
    builder and the incremental parser, \<open>Hs_Wire\<close> the wire format they implement, \<open>Hs_Agent\<close> the two
    roles, \<open>Hs_Circ\<close> the reader over the circular buffer and \<open>Hs_Half\<close> over any half; \<open>Hs_Run\<close> the exchange as
    it would be over a reader that consumes what it reads, which none of the repository's does.
  \<^item> \<open>Cancel_Src\<close> (\<open>cancel_src/src/lib.rs\<close>): cancellation sources in a store, with callbacks,
    futures and child tokens. \<open>Mem_Vfs\<close> (\<open>mem_vfs\<close>): directories, the tree and path resolution.
\<close>

text \<open>
  \<^bold>\<open>State and operations.\<close> A Rust struct is a record, an enum a datatype with the source's variants, a
  \<open>usize\<close> a 64-bit word (the lock keeps its width a parameter). A method on \<open>&self\<close> that changes a
  shared word is a function from state to state; a \<open>Result\<close> is a sum with the error on the left, a
  panic (also of checked arithmetic where a debug build would stop) is the value \<open>Panic\<close>. Memory is a list of
  optional items, \<open>None\<close> for an uninitialised cell, and segments are addresses into it, so that
  aliasing of lent regions is visible. Devices, callers' decisions and the checksums of the handshake
  are parameters. So are the tokio streams, with what tokio documents of them as hypotheses: a read fills
  a front of the room with the next bytes and nothing only at the end (\<open>tokio_read_ok\<close>, \<open>tokio_ended\<close>), a
  write takes a front of what is offered (\<open>tokio_write_ok\<close>), and one that can take no more may answer zero, which
  is recorded (\<open>tokio_refusals\<close>). An \<open>await\<close> is split where another party can act in between: in \<open>Ring_Futures\<close>
  and \<open>Circ_Park\<close> a poll is a function and what others do between its accesses is an argument. Where a future
  awaits a device, as the pipeline, the pumps and the waits over them do, its suspension points are a datatype, a
  piece of the code between two of them is a step, and a poll runs steps until one ends it; dropping
  the future is a function of where it is suspended.

  \<^bold>\<open>Interfaces.\<close> \<open>gap_queue\<close> (\<open>Gap_Queue\<close>) is the counting contract of a bounded queue, interpreted on
  the words of both buffers; \<open>wait_condition\<close> (\<open>Ring_Parking\<close>) says when a waiter may rely on signals,
  interpreted on the seven conditions of the source; \<open>mutex_signal\<close> (\<open>Spin_Mutex\<close>) is the contract of a
  lock word, interpreted on the two signals of the source and on the flag of \<open>cancel_src\<close>;
  \<open>fetch_op\<close> (\<open>Atomex_Fetch\<close>) are operations whose order is not visible in the cell, interpreted on every fetch
  operation but \<open>nand\<close>; \<open>source_half\<close> and \<open>target_half\<close> (\<open>Io_Half\<close>) are the contract of the two halves, extended by
  \<open>multipart_pair\<close>, \<open>multipart_source\<close> and \<open>half_pair\<close> for their clients and interpreted on the
  halves of both buffers and on slices; \<open>half_future\<close> (\<open>Circ_Async\<close>) is what the pieces of an
  asynchronous read or write promise, interpreted on both.

  \<^bold>\<open>What the lemmas show.\<close>
  \<^item> Words: every transition decodes to the transition of the fields, counts are conserved, positions
    stay inside, flags of others are untouched (\<open>Ring_State\<close>, \<open>Circ_State\<close>, \<open>Rw_Lock\<close>).
  \<^item> Safety under interleaving: the ring delivers in order and never lends a cell twice
    (\<open>Ring_Spsc\<close>, where a side reserves only while it holds no segment, as the module asks of its callers), the
    locks exclude (\<open>Rw_Lock\<close>, while no upgradable guard is taken at the reader limit; \<open>Spin_Mutex\<close>), a queued writer
    is not starved (\<open>Rw_Wait\<close>), no wake-up is lost (\<open>Ring_Parking\<close>, \<open>Circ_Wake\<close>).
  \<^item> Returning: every poll returns under any finite interference (\<open>Ring_Futures\<close>), pumps and calls
    return for every device (\<open>Circ_Fifo\<close>, \<open>Circ_Stream\<close>), polls that await devices return
    (\<open>Circ_Pipeline\<close>, \<open>Circ_Async\<close>, \<open>Circ_Async_Write\<close>, \<open>Circ_Close\<close>), cancelling returns (\<open>Cancel_Src\<close>).
  \<^item> Streams and protocols: what goes in comes out (\<open>Circ_Stream\<close>, \<open>Circ_Relay\<close>, \<open>Circ_Pipeline\<close>, \<open>Circ_Close\<close>,
    \<open>Pipe_Join\<close>, \<open>Slice_Buff\<close>, \<open>Multipart_Circ\<close>, \<open>Std_Adapt\<close>, \<open>Iroh_Stream\<close>, \<open>Iroh_Writer\<close>), whatever is built starts that way (\<open>Circ_Build\<close>),
    frames survive the wire (\<open>Hs_Wire\<close>).
  \<^item> Where the code does not do what it means to, the property states what it does instead and under
    which conditions (\<open>Demand\<close>, \<open>Rw_Lock\<close>, \<open>Rw_Wait\<close>, \<open>Ring_Futures\<close>, \<open>Circ_Wake\<close>, \<open>Circ_Pipeline\<close>,
    \<open>Circ_Async_End\<close>, \<open>Ring_Half\<close>, \<open>Iroh_Stream\<close>, \<open>Iroh_Writer\<close>, \<open>Hs_Circ\<close>, \<open>Hs_Half\<close>, \<open>Mem_Vfs\<close>): upgradable
    guards overflow the reader count, a cancelled writer keeps readers out, no handshake ever succeeds, no path is
    ever found, and so on; the conditions under which such a state is not entered are predicates of their own
    (\<open>roomy\<close>, \<open>flat\<close>, \<open>calm\<close>), which the step relations do not assume.

  \<^bold>\<open>Fuel.\<close> Loops that are not structural carry a fuel and return \<open>None\<close> without it. The pumps of the
  circular buffer need the capacity plus five (each round but the last few moves an item); cancelling
  needs more than the number of live sources (each level marks one); a poll of the pipeline needs
  twelve times the items left and the capacity, plus six, a poll of an asynchronous read or write three
  times the capacity plus six, of the asynchronous close twice the capacity plus four (a piece that does not end
  the poll moves an item or leaves the head of the loop); a move between
  segments needs the smaller of their lengths; the waits for the lock run for the rounds they are given, with what
  the other threads do in each; the loops of the multipart encoder need more than twice the items to move, the loops of the std adapters more
  rounds than the caller's buffer is long. A pipe needs no
  fixed number of rounds: what it has moved when it returns is shown for every fuel, and that it returns for all
  large enough fuels over halves whose refusals say that they stop or lower a measure (\<open>src_answers\<close>,
  \<open>tgt_answers\<close>), as those of slices and of a closed circular buffer do; over a half that only refuses it waits for
  ever.

  \<^bold>\<open>Not modelled.\<close> Macros and the futures they generate (\<open>gen_mcf_macro\<close>), tokio and QUIC themselves, traits
  without state
  (\<open>abs_cancel\<close>, \<open>abs_sync\<close>, \<open>abs_iter\<close>, \<open>abs_smux\<close>, \<open>abs_vfs\<close>), the sequential lock (its module is
  commented out), allocators, \<open>Debug\<close> and \<open>Display\<close>,
  memory orderings weaker than sequential consistency, and tests. The \<open>connection\<close> module of
  \<open>smux_v1\<close> is empty.
\<close>

end
